(* ===== verification/Prelude.thy ===== *)
theory Prelude
  imports Main "HOL-Library.Word"
begin

text \<open>
  Shared vocabulary of the development: the machine word types of the C++ sources, the bit
  rules that carry every encoding proof, little- and big-endian byte sequences, the
  in-place write of a byte range into a buffer (\<open>std::memcpy\<close> into a vector), and the
  \<open>while (changed)\<close> loop that the branch relaxers and the dataflow solver share,
  with the locale that states when such a loop converges.
\<close>

unbundle bit_operations_syntax

section \<open>Machine types\<close>

type_synonym u8 = "8 word"
type_synonym u16 = "16 word"
type_synonym u32 = "32 word"
type_synonym u64 = "64 word"

text \<open>Identifiers of MIR entities (\<open>using MirId = size_t\<close>, 0 is \<open>MIRID_INVALID\<close>).\<close>

type_synonym mir_id = nat

definition MIRID_INVALID :: mir_id where
  [simp]: "MIRID_INVALID = 0"

section \<open>Bit rules\<close>

named_theorems word_bits \<open>bit-level characterisation of the word operations\<close>

lemma bit_push_word [word_bits]:
  "bit (push_bit m w) n \<longleftrightarrow> n < LENGTH('a) \<and> m \<le> n \<and> bit w (n - m)" for w :: "'a::len word"
  by (auto simp: bit_simps)

lemma bit_not_word [word_bits]:
  "bit (NOT w) n \<longleftrightarrow> n < LENGTH('a) \<and> \<not> bit w n" for w :: "'a::len word"
  by (auto simp: bit_simps)

lemma bit_signed_take_word [word_bits]:
  "bit (signed_take_bit m w) n \<longleftrightarrow> n < LENGTH('a) \<and> bit w (min m n)" for w :: "'a::len word"
  by (auto simp: bit_simps min_def)

lemma bit_ucast_word [word_bits]:
  "bit (ucast w :: 'b::len word) n \<longleftrightarrow> n < LENGTH('b) \<and> bit w n" for w :: "'a::len word"
  by (auto simp: bit_simps)

lemma bit_drop_word [word_bits]: "bit (drop_bit m w) n \<longleftrightarrow> bit w (m + n)" for w :: "'a::len word"
  by (simp add: bit_drop_bit_eq)

lemmas word_bits_lib [word_bits] = bit_take_bit_iff bit_or_iff bit_and_iff bit_xor_iff bit_mask_iff

text \<open>Masks of the form \<open>2 ^ k - 1\<close> are truncations.\<close>

lemma mask_take:
  fixes w :: "'a::len word"
  shows "w AND 0x1 = take_bit 1 w" "w AND 0x3 = take_bit 2 w" "w AND 0x7 = take_bit 3 w"
    "w AND 0xF = take_bit 4 w" "w AND 0x1F = take_bit 5 w" "w AND 0x3F = take_bit 6 w"
    "w AND 0x7F = take_bit 7 w" "w AND 0xFF = take_bit 8 w" "w AND 0x3FF = take_bit 10 w"
    "w AND 0xFFF = take_bit 12 w" "w AND 0xFFFFF = take_bit 20 w"
    "w AND 0xFFFFFFFF = take_bit 32 w"
  by (simp_all add: take_bit_eq_mask mask_eq_exp_minus_1)

text \<open>Two words are equal when they agree on every position; the positions are enumerated so
  that the simplifier decides each one separately.\<close>

lemma all_less_8:
  "(\<forall>n<8. P n) \<longleftrightarrow> P 0 \<and> P 1 \<and> P 2 \<and> P 3 \<and> P 4 \<and> P 5 \<and> P 6 \<and> P (7::nat)"
  by (simp add: numeral_eq_Suc All_less_Suc conj_ac)

lemma all_less_32:
  "(\<forall>n<32. P n) \<longleftrightarrow> P 0 \<and> P 1 \<and> P 2 \<and> P 3 \<and> P 4 \<and> P 5 \<and> P 6 \<and> P 7 \<and> P 8 \<and> P 9 \<and> P 10
   \<and> P 11 \<and> P 12 \<and> P 13 \<and> P 14 \<and> P 15 \<and> P 16 \<and> P 17 \<and> P 18 \<and> P 19 \<and> P 20 \<and> P 21 \<and> P 22
   \<and> P 23 \<and> P 24 \<and> P 25 \<and> P 26 \<and> P 27 \<and> P 28 \<and> P 29 \<and> P 30 \<and> P (31::nat)"
  by (simp add: numeral_eq_Suc All_less_Suc conj_ac)

lemma word8_eqI: "(\<forall>n<8. bit v n = bit w n) \<Longrightarrow> v = (w::u8)"
  by (rule bit_word_eqI) simp

lemma word32_eqI: "(\<forall>n<32. bit v n = bit w n) \<Longrightarrow> v = (w::u32)"
  by (rule bit_word_eqI) simp

lemma ucast_ucast_up [simp]:
  "LENGTH('a) \<le> LENGTH('b) \<Longrightarrow> (ucast (ucast w :: 'b::len word) :: 'a word) = w" for w :: "'a::len word"
  by (rule bit_word_eqI) (auto simp: word_bits)

text \<open>Sign extension is the identity on values in range; clearing bit 0 on even ones.\<close>

lemma sint_range_bits:
  fixes w :: "'a::len word"
  assumes "- (2 ^ n) \<le> sint w" "sint w < 2 ^ n" "n < LENGTH('a)" "m < LENGTH('a)"
  shows "bit w (min n m) = bit w m"
proof -
  have b: "bit (sint w) k = bit w k" if "k < LENGTH('a)" for k
    using that by (simp add: bit_sint_iff)
  have "signed_take_bit n (sint w) = sint w"
    using assms by (simp add: signed_take_bit_int_eq_self)
  then have "bit (sint w) m = bit (signed_take_bit n (sint w)) m" by simp
  also have "\<dots> = bit (sint w) (min n m)" by (simp add: bit_signed_take_bit_iff min_def)
  finally show ?thesis using b [of m] b [of "min n m"] assms(3,4) by simp
qed

lemma signed_take_range:
  fixes w :: "'a::len word"
  assumes "- (2 ^ n) \<le> sint w" "sint w < 2 ^ n" "n < LENGTH('a)"
  shows "signed_take_bit n w = w"
  by (rule bit_word_eqI) (simp add: word_bits sint_range_bits [OF assms])

lemma clear_bit0:
  fixes w :: u32
  assumes "even (sint w)"
  shows "w AND NOT 1 = w"
proof (rule bit_word_eqI)
  fix m :: nat assume m: "m < LENGTH(32)"
  have "bit (sint w) 0 = bit w 0" by (simp add: bit_sint_iff del: bit_0)
  then have "\<not> bit w 0" using assms by (metis bit_0)
  then show "bit (w AND NOT 1) m = bit w m"
    using m by (auto simp: word_bits bit_1_iff simp del: bit_0 intro: gr0I)
qed
lemma sint_word32: "- (2 ^ 31) \<le> d \<Longrightarrow> d < 2 ^ 31 \<Longrightarrow> sint (word_of_int d :: u32) = d"
  by (simp add: signed_of_int signed_take_bit_int_eq_self)

section \<open>Byte sequences\<close>

definition le_bytes :: "nat \<Rightarrow> 'a::len word \<Rightarrow> u8 list" where
  "le_bytes n w = map (\<lambda>i. ucast (drop_bit (8 * i) w)) [0..<n]"

definition be_bytes :: "nat \<Rightarrow> 'a::len word \<Rightarrow> u8 list" where
  "be_bytes n w = rev (le_bytes n w)"

primrec le_word :: "u8 list \<Rightarrow> 'a::len word" where
  "le_word [] = 0"
| "le_word (b # bs) = ucast b OR push_bit 8 (le_word bs)"

lemma length_le_bytes [simp]: "length (le_bytes n w) = n"
  by (simp add: le_bytes_def)

lemma length_be_bytes [simp]: "length (be_bytes n w) = n"
  by (simp add: be_bytes_def)

lemma nth_le_bytes [simp]: "i < n \<Longrightarrow> le_bytes n w ! i = ucast (drop_bit (8 * i) w)"
  by (simp add: le_bytes_def)

lemma le_bytes_0 [simp]: "le_bytes 0 w = []"
  by (simp add: le_bytes_def)

lemma le_bytes_Suc: "le_bytes (Suc n) w = ucast w # le_bytes n (drop_bit 8 w)"
  by (simp add: le_bytes_def upt_conv_Cons map_Suc_upt [symmetric] o_def drop_bit_drop_bit
      ac_simps del: upt_Suc)

lemma le_word_le_bytes: "le_word (le_bytes n w) = take_bit (8 * n) w"
proof (induction n arbitrary: w)
  case 0
  then show ?case by simp
next
  case (Suc n)
  have "ucast (ucast w :: u8) OR push_bit 8 (take_bit (8 * n) (drop_bit 8 w)) = take_bit (8 * Suc n) w"
    by (rule bit_word_eqI) (auto simp: word_bits)
  then show ?case
    by (simp add: le_bytes_Suc Suc.IH)
qed

lemma le_word_le_bytes_full: "LENGTH('a) \<le> 8 * n \<Longrightarrow> le_word (le_bytes n w) = w" for w :: "'a::len word"
  by (simp add: le_word_le_bytes take_bit_word_eq_self)

lemma le_bytes_inject: "LENGTH('a) \<le> 8 * n \<Longrightarrow> le_bytes n v = le_bytes n w \<longleftrightarrow> v = w" for v w :: "'a::len word"
  by (metis le_word_le_bytes_full)

section \<open>Writing a byte range in place\<close>

definition write_at :: "nat \<Rightarrow> 'b list \<Rightarrow> 'b list \<Rightarrow> 'b list" where
  "write_at off bs buf = take off buf @ bs @ drop (off + length bs) buf"

definition read_at :: "nat \<Rightarrow> nat \<Rightarrow> 'b list \<Rightarrow> 'b list" where
  "read_at off n buf = take n (drop off buf)"

lemma length_write_at [simp]: "off + length bs \<le> length buf \<Longrightarrow> length (write_at off bs buf) = length buf"
  by (simp add: write_at_def)

lemma length_read_at [simp]: "off + n \<le> length buf \<Longrightarrow> length (read_at off n buf) = n"
  by (simp add: read_at_def)

lemma read_at_write_at [simp]:
  "off + length bs \<le> length buf \<Longrightarrow> n = length bs \<Longrightarrow> read_at off n (write_at off bs buf) = bs"
  by (simp add: read_at_def write_at_def)

lemma nth_write_at:
  assumes "off + length bs \<le> length buf" "i < length buf"
  shows "write_at off bs buf ! i = (if off \<le> i \<and> i < off + length bs then bs ! (i - off) else buf ! i)"
  using assms by (auto simp: write_at_def nth_append min_def)

lemma read_at_eqI:
  assumes "length xs = n" "off + n \<le> length buf" "\<And>i. i < n \<Longrightarrow> buf ! (off + i) = xs ! i"
  shows "read_at off n buf = xs"
  using assms by (intro nth_equalityI) (simp_all add: read_at_def)

lemma nth_read_at: "off + n \<le> length buf \<Longrightarrow> i < n \<Longrightarrow> read_at off n buf ! i = buf ! (off + i)"
  by (simp add: read_at_def)

lemma read_at_write_at_disjoint:
  assumes "off + length bs \<le> length buf" "o' + n \<le> length buf" "o' + n \<le> off \<or> off + length bs \<le> o'"
  shows "read_at o' n (write_at off bs buf) = read_at o' n buf"
  using assms by (intro nth_equalityI) (auto simp: nth_read_at nth_write_at)

lemma read_at_split:
  assumes "read_at off (length xs + length ys) buf = xs @ ys"
  shows "read_at off (length xs) buf = xs" "read_at (off + length xs) (length ys) buf = ys"
proof -
  have e: "take (length xs + length ys) (drop off buf) = xs @ ys" using assms by (simp add: read_at_def)
  have "take (length xs) (drop off buf) = take (length xs) (take (length xs + length ys) (drop off buf))"
    by (simp add: min_def)
  then show "read_at off (length xs) buf = xs" by (simp add: read_at_def e)
  have "drop (length xs) (take (length xs + length ys) (drop off buf)) = take (length ys) (drop (off + length xs) buf)"
    by (simp add: drop_take add.commute)
  then show "read_at (off + length xs) (length ys) buf = ys" by (simp add: read_at_def e)
qed

text \<open>
  The sources guard a store of \<open>n\<close> bytes by \<open>offset + n > buffer.size()\<close>, computed on 64-bit
  unsigned values, so the sum wraps for offsets near \<open>2^64\<close>. The guard is kept at its width;
  the store itself is \<open>None\<close> when it would leave the buffer.
\<close>

definition fits :: "u64 \<Rightarrow> u64 \<Rightarrow> u8 list \<Rightarrow> bool" where
  "fits off n buf \<longleftrightarrow> \<not> (off + n > of_nat (length buf))"

definition store :: "u64 \<Rightarrow> u8 list \<Rightarrow> u8 list \<Rightarrow> u8 list option" where
  "store off bs buf =
     (if unat off + length bs \<le> length buf then Some (write_at (unat off) bs buf) else None)"

lemma fits_iff:
  assumes "length buf < 2 ^ 64" "unat off + n < 2 ^ 64"
  shows "fits off (of_nat n) buf \<longleftrightarrow> unat off + n \<le> length buf"
proof -
  have "unat (off + of_nat n) = unat off + n"
    using assms(2) by (simp add: unat_word_ariths unat_of_nat)
  moreover have "unat (of_nat (length buf) :: u64) = length buf"
    using assms(1) by (simp add: unat_of_nat)
  ultimately show ?thesis by (simp add: fits_def word_less_nat_alt not_less)
qed

section \<open>Aligned sizes\<close>

text \<open>\<open>(x + a - 1) & ~(a - 1)\<close>, the next multiple of a power of two.\<close>

definition align_up :: "u64 \<Rightarrow> u64 \<Rightarrow> u64" where
  "align_up x a = (x + a - 1) AND NOT (a - 1)"

lemma unat_add_word:
  "unat a + unat b < 2 ^ 64 \<Longrightarrow> unat (a + b) = unat a + unat b" for a b :: u64
  by (simp add: unat_word_ariths)

lemma unat_and_not: "unat (x AND NOT m) + unat (x AND m) = unat x" for x m :: u64
proof -
  have "(x AND NOT m) + (x AND m) = (x AND NOT m) OR (x AND m)"
    by (rule disjunctive_add_eq_or) (auto intro!: bit_word_eqI simp: word_bits)
  also have "\<dots> = x" by (rule bit_word_eqI) (auto simp: word_bits)
  finally have s: "(x AND NOT m) + (x AND m) = x" .
  have "(x AND NOT m) \<le> x" by (rule word_and_le2)
  then show ?thesis
    using s by (metis add_diff_cancel_left' le_add_diff_inverse unat_sub word_le_nat_alt)
qed

text \<open>Aligning moves forward by less than the alignment, whatever the alignment; for a power of
  two the result is a multiple of it.\<close>

lemma align_up_range:
  assumes "0 < a" "unat x + unat a \<le> 2 ^ 64"
  shows "unat x \<le> unat (align_up x a)" "unat (align_up x a) < unat x + unat a"
proof -
  let ?m = "a - 1" and ?x = "x + (a - 1)"
  have a0: "0 < unat a" using assms(1) by (simp add: word_less_nat_alt)
  have m: "unat ?m = unat a - 1"
    using assms(1) by (subst unat_sub) (auto simp: word_le_nat_alt word_less_nat_alt)
  have x: "unat ?x = unat x + (unat a - 1)"
    using assms(2) m a0 by (subst unat_add_word) linarith+
  have "unat (?x AND ?m) \<le> unat ?m" by (metis word_and_le1 word_le_nat_alt)
  then have "unat x \<le> unat (?x AND NOT ?m)" "unat (?x AND NOT ?m) < unat x + unat a"
    using unat_and_not [of ?x ?m] x m a0 by linarith+
  moreover have "align_up x a = ?x AND NOT ?m" by (simp add: align_up_def algebra_simps)
  ultimately show "unat x \<le> unat (align_up x a)" "unat (align_up x a) < unat x + unat a" by simp_all
qed

lemma align_up_multiple:
  assumes "a = 2 ^ k" "k < 64"
  shows "2 ^ k dvd unat (align_up x a)"
proof -
  have m: "a - 1 = mask k" using assms(1) by (simp add: mask_eq_exp_minus_1)
  have "take_bit k (align_up x a) = 0"
    unfolding align_up_def m by (auto intro!: bit_word_eqI simp: word_bits)
  then have "take_bit k (unat (align_up x a)) = 0"
    by (metis unsigned_take_bit_eq unsigned_0)
  then show ?thesis by (simp add: take_bit_eq_mod mod_eq_0_iff_dvd)
qed

section \<open>Loops that run until a round changes nothing\<close>

text \<open>
  The sources write \<open>bool changed = true; while (changed) { changed = false; body }\<close>. One
  round returns the new state and the flag; a loop that never settles is \<open>None\<close>.
\<close>

partial_function (option) while_changed :: "('s \<Rightarrow> 's \<times> bool) \<Rightarrow> 's \<Rightarrow> 's option" where
  "while_changed body s =
     (case body s of (s', changed) \<Rightarrow> if changed then while_changed body s' else Some s')"

text \<open>
  The interface of such a loop: an invariant, and a bound \<open>room\<close> on the changes still
  possible that every changing round consumes. The loop then returns the outcome of a last,
  quiet round from a state that satisfies the invariant.
\<close>

locale converging_rounds =
  fixes body :: "'s \<Rightarrow> 's \<times> bool"
    and ok :: "'s \<Rightarrow> bool"
    and room :: "'s \<Rightarrow> nat"
  assumes ok_round: "ok s \<Longrightarrow> ok (fst (body s))"
    and room_round: "ok s \<Longrightarrow> snd (body s) \<Longrightarrow> room (fst (body s)) < room s"
begin

lemma loop_returns: "ok s \<Longrightarrow> \<exists>t u. while_changed body s = Some t \<and> ok u \<and> body u = (t, False)"
proof (induction "room s" arbitrary: s rule: less_induct)
  case less
  show ?case
  proof (cases "snd (body s)")
    case True
    then show ?thesis
      using less ok_round [of s] room_round [of s]
      by (subst while_changed.simps) (auto split: prod.split)
  next
    case False
    then show ?thesis
      using less.prems by (subst while_changed.simps) (cases "body s", auto)
  qed
qed

text \<open>Whatever every round preserves, the loop preserves.\<close>

lemma loop_preserves:
  assumes "ok s" "I s" "\<And>u. ok u \<Longrightarrow> I u \<Longrightarrow> I (fst (body u))"
  shows "\<exists>t u. while_changed body s = Some t \<and> ok u \<and> I u \<and> body u = (t, False)"
  using assms(1,2)
proof (induction "room s" arbitrary: s rule: less_induct)
  case less
  show ?case
  proof (cases "snd (body s)")
    case True
    then show ?thesis
      using less ok_round [of s] room_round [of s] assms(3) [of s]
      by (subst while_changed.simps) (auto split: prod.split)
  next
    case False
    then show ?thesis
      using less.prems by (subst while_changed.simps) (cases "body s", auto)
  qed
qed

end

text \<open>A loop whose quiet rounds change nothing returns a fixpoint of its body.\<close>

locale settling_rounds = converging_rounds +
  assumes quiet_round: "ok s \<Longrightarrow> \<not> snd (body s) \<Longrightarrow> fst (body s) = s"
begin

lemma loop_settles:
  assumes "ok s" "I s" "\<And>u. ok u \<Longrightarrow> I u \<Longrightarrow> I (fst (body u))"
  shows "\<exists>t. while_changed body s = Some t \<and> ok t \<and> I t \<and> body t = (t, False)"
proof -
  from loop_preserves [OF assms] obtain t u where
    r: "while_changed body s = Some t" "ok u" "I u" "body u = (t, False)" by blast
  then have "t = u" using quiet_round [of u] by simp
  then show ?thesis using r by blast
qed

text \<open>It runs at most one round more than there are changes.\<close>

lemma loop_rounds:
  assumes "ok s"
  shows "\<exists>k \<le> room s. while_changed body s = Some (((\<lambda>u. fst (body u)) ^^ k) s) \<and>
    (\<forall>j<k. snd (body (((\<lambda>u. fst (body u)) ^^ j) s))) \<and> \<not> snd (body (((\<lambda>u. fst (body u)) ^^ k) s))"
  using assms
proof (induction "room s" arbitrary: s rule: less_induct)
  case less
  show ?case
  proof (cases "snd (body s)")
    case True
    note r = room_round [OF less.prems True]
    from less.hyps [OF r ok_round [OF less.prems]] obtain k where k: "k \<le> room (fst (body s))"
      "while_changed body (fst (body s)) = Some (((\<lambda>u. fst (body u)) ^^ k) (fst (body s)))"
      "\<forall>j<k. snd (body (((\<lambda>u. fst (body u)) ^^ j) (fst (body s))))"
      "\<not> snd (body (((\<lambda>u. fst (body u)) ^^ k) (fst (body s))))" by blast
    have "while_changed body s = while_changed body (fst (body s))"
      using True by (subst while_changed.simps) (cases "body s", simp)
    moreover have "snd (body (((\<lambda>u. fst (body u)) ^^ j) s))" if "j < Suc k" for j
      using that True k(3) by (cases j) (simp_all add: funpow_Suc_right del: funpow.simps(2))
    ultimately show ?thesis
      using k(1,2,4) r by (intro exI [of _ "Suc k"]) (simp add: funpow_Suc_right del: funpow.simps(2))
  next
    case False
    then show ?thesis
      using quiet_round [OF less.prems] by (intro exI [of _ 0], subst while_changed.simps) (cases "body s", simp)
  qed
qed

end

end
