(* ===== verification/DenseBits.thy ===== *)
theory DenseBits
  imports Prelude
begin

text \<open>
  \<open>DenseBitSet\<close> (EzCore/src/HelperClasses/DenseBitSet.cpp): a bit set stored in 64-bit words,
  used by the liveness solver. A set is the vector of its words; the in-place operations
  return the new words together with the \<open>changed\<close> flag the code returns. The locale
  \<open>bit_set\<close> is the interface the solver relies on: an abstraction to sets of indices below a
  capacity, with one law per operation; it is interpreted here on the word implementation.
\<close>

section \<open>The data structure\<close>

record dense_bit_set =
  m_words :: "u64 list"

definition dbs_new :: "nat \<Rightarrow> dense_bit_set" where
  "dbs_new numBits = \<lparr>m_words = replicate ((numBits + 63) div 64) 0\<rparr>"

definition dbs_set :: "dense_bit_set \<Rightarrow> nat \<Rightarrow> dense_bit_set" where
  "dbs_set s b =
     (if b div 64 < length (m_words s)
      then s\<lparr>m_words := (m_words s)[b div 64 := m_words s ! (b div 64) OR push_bit (b mod 64) 1]\<rparr>
      else s)"

definition dbs_test :: "dense_bit_set \<Rightarrow> nat \<Rightarrow> bool" where
  "dbs_test s b =
     (if b div 64 \<ge> length (m_words s) then False
      else m_words s ! (b div 64) AND push_bit (b mod 64) 1 \<noteq> 0)"

text \<open>One iteration of a word loop: write word \<open>i\<close> and raise the flag when it differs.\<close>

definition put_word :: "nat \<Rightarrow> u64 \<Rightarrow> u64 list \<times> bool \<Rightarrow> u64 list \<times> bool" where
  "put_word i newVal st =
     (case st of (ws, changed) \<Rightarrow> let oldVal = ws ! i in (ws[i := newVal], changed \<or> newVal \<noteq> oldVal))"

definition dbs_unionWith :: "dense_bit_set \<Rightarrow> dense_bit_set \<Rightarrow> dense_bit_set \<times> bool" where
  "dbs_unionWith s other =
     (let count = min (length (m_words s)) (length (m_words other));
          (ws, changed) = fold (\<lambda>i st. put_word i (fst st ! i OR m_words other ! i) st)
                            [0..<count] (m_words s, False)
      in (s\<lparr>m_words := ws\<rparr>, changed))"

definition dbs_computeLiveIn ::
  "dense_bit_set \<Rightarrow> dense_bit_set \<Rightarrow> dense_bit_set \<Rightarrow> dense_bit_set \<Rightarrow> dense_bit_set \<times> bool" where
  "dbs_computeLiveIn s use_bits liveOut def_bits =
     (let count = min (length (m_words s))
                   (min (length (m_words use_bits)) (min (length (m_words liveOut)) (length (m_words def_bits))));
          (ws, changed) =
            fold (\<lambda>i st. put_word i (m_words use_bits ! i OR (m_words liveOut ! i AND NOT (m_words def_bits ! i))) st)
              [0..<count] (m_words s, False)
      in (s\<lparr>m_words := ws\<rparr>, changed))"

section \<open>The interface\<close>

text \<open>
  \<open>cap\<close> is the number of indices the set can hold and \<open>elems\<close> its content. The two
  destructive operations report a change exactly when the content changes.
\<close>

locale bit_set =
  fixes new_set :: "nat \<Rightarrow> 's"
    and set_bit :: "'s \<Rightarrow> nat \<Rightarrow> 's"
    and test_bit :: "'s \<Rightarrow> nat \<Rightarrow> bool"
    and union_with :: "'s \<Rightarrow> 's \<Rightarrow> 's \<times> bool"
    and live_in :: "'s \<Rightarrow> 's \<Rightarrow> 's \<Rightarrow> 's \<Rightarrow> 's \<times> bool"
    and cap :: "'s \<Rightarrow> nat"
    and elems :: "'s \<Rightarrow> nat set"
  assumes cap_new: "n \<le> cap (new_set n)"
    and elems_new: "elems (new_set n) = {}"
    and elems_cap: "elems s \<subseteq> {..<cap s}"
    and cap_set: "cap (set_bit s b) = cap s"
    and elems_set: "elems (set_bit s b) = elems s \<union> ({b} \<inter> {..<cap s})"
    and test_elems: "test_bit s b \<longleftrightarrow> b \<in> elems s"
    and cap_union: "cap (fst (union_with s t)) = cap s"
    and elems_union: "elems (fst (union_with s t)) = elems s \<union> (elems t \<inter> {..<cap s})"
    and union_changed: "snd (union_with s t) \<longleftrightarrow> fst (union_with s t) \<noteq> s"
    and cap_live_in: "cap (fst (live_in s u l d)) = cap s"
    and elems_live_in: "cap u = cap s \<Longrightarrow> cap l = cap s \<Longrightarrow> cap d = cap s \<Longrightarrow>
      elems (fst (live_in s u l d)) = elems u \<union> (elems l - elems d)"
    and live_in_changed: "snd (live_in s u l d) \<longleftrightarrow> fst (live_in s u l d) \<noteq> s"
    and elems_inj: "cap s = cap t \<Longrightarrow> elems s = elems t \<Longrightarrow> s = t"
begin

lemma finite_elems: "finite (elems s)"
  using elems_cap finite_subset by blast

lemma union_grows: "cap t = cap s \<Longrightarrow> elems (fst (union_with s t)) = elems s \<union> elems t"
  using elems_union elems_cap by fastforce

lemma union_flag: "cap t = cap s \<Longrightarrow> snd (union_with s t) \<longleftrightarrow> \<not> elems t \<subseteq> elems s"
  by (metis cap_union elems_inj subset_Un_eq sup_commute union_changed union_grows)

lemma live_in_flag:
  "cap u = cap s \<Longrightarrow> cap l = cap s \<Longrightarrow> cap d = cap s \<Longrightarrow>
   snd (live_in s u l d) \<longleftrightarrow> elems s \<noteq> elems u \<union> (elems l - elems d)"
  by (metis cap_live_in elems_inj elems_live_in live_in_changed)

end

section \<open>The word implementation meets the interface\<close>

definition dbs_cap :: "dense_bit_set \<Rightarrow> nat" where
  "dbs_cap s = 64 * length (m_words s)"

definition dbs_elems :: "dense_bit_set \<Rightarrow> nat set" where
  "dbs_elems s = {b. dbs_test s b}"

lemma dbs_test_bit: "dbs_test s b \<longleftrightarrow> b div 64 < length (m_words s) \<and> bit (m_words s ! (b div 64)) (b mod 64)"
  by (auto simp: dbs_test_def push_bit_eq_mult and_exp_eq_0_iff_not_bit)

lemma word_loop_aux:
  assumes "\<And>i w. f i w = (if i < n then g i w else w)" "n \<le> length ws"
  shows "fold (\<lambda>i st. put_word i (g i (fst st ! i)) st) [0..<n] (ws, False) =
         (map (\<lambda>i. f i (ws ! i)) [0..<length ws], \<exists>i<n. g i (ws ! i) \<noteq> ws ! i)"
proof -
  have "m \<le> n \<Longrightarrow> fold (\<lambda>i st. put_word i (g i (fst st ! i)) st) [0..<m] (ws, False) =
         (map (\<lambda>i. if i < m then g i (ws ! i) else ws ! i) [0..<length ws], \<exists>i<m. g i (ws ! i) \<noteq> ws ! i)" for m
  proof (induction m)
    case 0
    then show ?case by (simp add: map_nth)
  next
    case (Suc m)
    then have "m < length ws" using assms(2) by simp
    then show ?case
      using Suc by (auto simp: put_word_def Let_def less_Suc_eq nth_list_update intro!: nth_equalityI)
  qed
  from this [of n] show ?thesis using assms(1) by simp
qed

lemma word_loop_fst:
  "n \<le> length ws \<Longrightarrow> fst (fold (\<lambda>i st. put_word i (g i (fst st ! i)) st) [0..<n] (ws, False)) =
     map (\<lambda>i. if i < n then g i (ws ! i) else ws ! i) [0..<length ws]"
  by (subst word_loop_aux [of "\<lambda>i w. if i < n then g i w else w"]) auto

lemma word_loop_snd:
  "n \<le> length ws \<Longrightarrow> snd (fold (\<lambda>i st. put_word i (g i (fst st ! i)) st) [0..<n] (ws, False)) \<longleftrightarrow>
     (\<exists>i<n. g i (ws ! i) \<noteq> ws ! i)"
  by (subst word_loop_aux [of "\<lambda>i w. if i < n then g i w else w"]) auto

lemma words_union:
  "m_words (fst (dbs_unionWith s t)) =
     map (\<lambda>i. if i < length (m_words t) then m_words s ! i OR m_words t ! i else m_words s ! i)
       [0..<length (m_words s)]"
  using word_loop_fst [of "min (length (m_words s)) (length (m_words t))" "m_words s" "\<lambda>i w. w OR m_words t ! i"]
  by (auto simp: dbs_unionWith_def Let_def split: prod.split)

lemma flag_union:
  "snd (dbs_unionWith s t) \<longleftrightarrow>
     (\<exists>i < min (length (m_words s)) (length (m_words t)). m_words s ! i OR m_words t ! i \<noteq> m_words s ! i)"
  using word_loop_snd [of "min (length (m_words s)) (length (m_words t))" "m_words s" "\<lambda>i w. w OR m_words t ! i"]
  by (auto simp: dbs_unionWith_def Let_def split: prod.split)

lemma live_in_eq:
  fixes s u l d
  defines "n \<equiv> min (length (m_words s)) (min (length (m_words u)) (min (length (m_words l)) (length (m_words d))))"
    and "g \<equiv> \<lambda>i. m_words u ! i OR (m_words l ! i AND NOT (m_words d ! i))"
  shows "dbs_computeLiveIn s u l d =
      (s\<lparr>m_words := map (\<lambda>i. if i < n then g i else m_words s ! i) [0..<length (m_words s)]\<rparr>,
       \<exists>i<n. g i \<noteq> m_words s ! i)"
proof -
  have "n \<le> length (m_words s)" by (simp add: n_def)
  then have "fold (\<lambda>i st. put_word i (g i) st) [0..<n] (m_words s, False) =
      (map (\<lambda>i. if i < n then g i else m_words s ! i) [0..<length (m_words s)], \<exists>i<n. g i \<noteq> m_words s ! i)"
    using word_loop_fst [of n "m_words s" "\<lambda>i w. g i"] word_loop_snd [of n "m_words s" "\<lambda>i w. g i"]
    by (simp add: prod_eq_iff)
  then show ?thesis
    by (simp add: dbs_computeLiveIn_def n_def g_def)
qed

lemma words_live_in:
  assumes "length (m_words u) = length (m_words s)" "length (m_words l) = length (m_words s)"
    "length (m_words d) = length (m_words s)" "i < length (m_words s)"
  shows "m_words (fst (dbs_computeLiveIn s u l d)) ! i =
     m_words u ! i OR (m_words l ! i AND NOT (m_words d ! i))"
  using assms by (simp add: live_in_eq)

lemma length_live_in: "length (m_words (fst (dbs_computeLiveIn s u l d))) = length (m_words s)"
  by (simp add: live_in_eq)

lemma rewrite_words_iff: "s\<lparr>m_words := ws\<rparr> = s \<longleftrightarrow> ws = m_words s"
  by (cases s) simp

lemma map_prefix_eq:
  "n \<le> length ws \<Longrightarrow> map (\<lambda>i. if i < n then g i else ws ! i) [0..<length ws] = ws \<longleftrightarrow> (\<forall>i<n. g i = ws ! i)"
  (is "?n \<Longrightarrow> ?m = ws \<longleftrightarrow> ?P")
proof -
  assume n: "?n"
  have "?m = ws \<longleftrightarrow> (\<forall>i<length ws. ?m ! i = ws ! i)"
    by (subst list_eq_iff_nth_eq) simp
  also have "\<dots> \<longleftrightarrow> (\<forall>i<length ws. i < n \<longrightarrow> g i = ws ! i)"
    by (intro all_cong) simp
  finally show ?thesis using n by (metis order_less_le_trans)
qed

lemma flag_live_in: "snd (dbs_computeLiveIn s u l d) \<longleftrightarrow> fst (dbs_computeLiveIn s u l d) \<noteq> s"
  unfolding live_in_eq fst_conv snd_conv rewrite_words_iff
  by (subst map_prefix_eq) auto

lemma words_union_nth:
  "i < length (m_words s) \<Longrightarrow> m_words (fst (dbs_unionWith s t)) ! i =
     (if i < length (m_words t) then m_words s ! i OR m_words t ! i else m_words s ! i)"
  by (simp add: words_union)

lemma length_union: "length (m_words (fst (dbs_unionWith s t))) = length (m_words s)"
  by (simp add: words_union)

lemma words_eq_iff: "s = t \<longleftrightarrow> m_words s = m_words t" for s t :: dense_bit_set
  by (cases s; cases t) simp

lemma flag_union_state: "snd (dbs_unionWith s t) \<longleftrightarrow> fst (dbs_unionWith s t) \<noteq> s"
  unfolding flag_union words_eq_iff list_eq_iff_nth_eq length_union
  by (auto simp: words_union_nth)

lemma dbs_index: "b < 64 * n \<longleftrightarrow> b div 64 < n" for b :: nat
  by (simp add: div_less_iff_less_mult mult.commute)

lemma dbs_new_cap: "n \<le> dbs_cap (dbs_new n)"
  by (simp add: dbs_cap_def dbs_new_def)

lemma dbs_set_elems: "dbs_elems (dbs_set s b) = dbs_elems s \<union> ({b} \<inter> {..<dbs_cap s})"
proof (rule set_eqI)
  fix x
  have same: "x div 64 = b div 64 \<and> x mod 64 = b mod 64 \<longleftrightarrow> x = b"
    by (metis div_mod_decomp)
  show "x \<in> dbs_elems (dbs_set s b) \<longleftrightarrow> x \<in> dbs_elems s \<union> ({b} \<inter> {..<dbs_cap s})"
    using same by (auto simp: dbs_elems_def dbs_test_bit dbs_set_def dbs_cap_def dbs_index nth_list_update
        bit_or_iff bit_exp_iff push_bit_eq_mult split: if_splits)
qed

lemma dbs_elems_inj: "dbs_cap s = dbs_cap t \<Longrightarrow> dbs_elems s = dbs_elems t \<Longrightarrow> s = t"
proof -
  assume c: "dbs_cap s = dbs_cap t" and e: "dbs_elems s = dbs_elems t"
  have "m_words s ! i = m_words t ! i" if "i < length (m_words s)" for i
  proof (rule bit_word_eqI)
    fix n assume "n < LENGTH(64)"
    then have n: "(64 * i + n) div 64 = i" "n mod 64 = n" by simp_all
    have "dbs_test s (64 * i + n) = dbs_test t (64 * i + n)"
      using e by (auto simp: dbs_elems_def)
    then show "bit (m_words s ! i) n = bit (m_words t ! i) n"
      using that c by (simp add: dbs_test_bit n dbs_cap_def del: mod_mult_self2)
  qed
  then have "m_words s = m_words t"
    using c by (auto simp: dbs_cap_def list_eq_iff_nth_eq)
  then show "s = t" by (cases s; cases t) simp
qed

interpretation dbs: bit_set dbs_new dbs_set dbs_test dbs_unionWith dbs_computeLiveIn dbs_cap dbs_elems
proof (unfold_locales, goal_cases)
  case (1 n) show ?case by (rule dbs_new_cap)
next
  case (2 n) show ?case by (auto simp: dbs_elems_def dbs_test_bit dbs_new_def)
next
  case (3 s) show ?case by (auto simp: dbs_elems_def dbs_test_bit dbs_cap_def dbs_index)
next
  case (4 s b) show ?case by (simp add: dbs_cap_def dbs_set_def)
next
  case (5 s b) show ?case by (rule dbs_set_elems)
next
  case (6 s b) show ?case by (simp add: dbs_elems_def)
next
  case (7 s t) show ?case by (simp add: dbs_cap_def length_union)
next
  case (8 s t) show ?case
    by (auto simp: dbs_elems_def dbs_test_bit length_union words_union_nth dbs_cap_def dbs_index bit_or_iff
        split: if_splits)
next
  case (9 s t) show ?case by (rule flag_union_state)
next
  case (10 s u l d) show ?case by (simp add: dbs_cap_def length_live_in)
next
  case (11 u s l d) then show ?case
    by (auto simp: dbs_elems_def dbs_test_bit words_live_in length_live_in dbs_cap_def bit_or_iff bit_and_iff bit_not_word)
next
  case (12 s u l d) show ?case by (rule flag_live_in)
next
  case (13 s t) then show ?case by (rule dbs_elems_inj)
qed

section \<open>Properties\<close>

text \<open>C12: \<open>unionWith\<close> of two sets of the same capacity yields exactly the union of the two
  sets, and it returns true exactly when the other set held an index the receiver lacked.\<close>

theorem unionWith_correct:
  assumes "dbs_cap t = dbs_cap s"
  shows "dbs_elems (fst (dbs_unionWith s t)) = dbs_elems s \<union> dbs_elems t \<and>
    (snd (dbs_unionWith s t) \<longleftrightarrow> \<not> dbs_elems t \<subseteq> dbs_elems s)"
  using dbs.union_grows [OF assms] dbs.union_flag [OF assms] by simp

theorem unionWith_correct_witness:
  "dbs_elems (fst (dbs_unionWith (dbs_set (dbs_new 100) 3) (dbs_set (dbs_new 100) 70))) = {3, 70} \<and>
   snd (dbs_unionWith (dbs_set (dbs_new 100) 3) (dbs_set (dbs_new 100) 70))"
proof -
  have cap: "dbs_cap (dbs_set (dbs_new 100) b) = 128" for b
    by (simp add: dbs.cap_set) (simp add: dbs_cap_def dbs_new_def)
  have elems: "dbs_elems (dbs_set (dbs_new 100) b) = {b} \<inter> {..<128}" for b
    by (simp add: dbs.elems_set dbs.elems_new) (simp add: dbs_cap_def dbs_new_def)
  show ?thesis
    using unionWith_correct [of "dbs_set (dbs_new 100) 70" "dbs_set (dbs_new 100) 3"]
    by (auto simp: cap elems)
qed

text \<open>C13: \<open>computeLiveIn\<close> stores \<open>use \<union> (liveOut - def)\<close>, whatever the receiver held before,
  and it returns true exactly when the receiver's content changed.\<close>

theorem computeLiveIn_correct:
  assumes "dbs_cap u = dbs_cap s" "dbs_cap l = dbs_cap s" "dbs_cap d = dbs_cap s"
  shows "dbs_elems (fst (dbs_computeLiveIn s u l d)) = dbs_elems u \<union> (dbs_elems l - dbs_elems d) \<and>
    (snd (dbs_computeLiveIn s u l d) \<longleftrightarrow> dbs_elems s \<noteq> dbs_elems u \<union> (dbs_elems l - dbs_elems d))"
  using dbs.elems_live_in [OF assms] dbs.live_in_flag [OF assms] by simp

theorem computeLiveIn_correct_witness:
  "dbs_elems (fst (dbs_computeLiveIn (dbs_set (dbs_new 64) 9) (dbs_set (dbs_new 64) 1)
      (dbs_set (dbs_set (dbs_new 64) 2) 5) (dbs_set (dbs_new 64) 5))) = {1, 2}"
proof -
  have cap: "dbs_cap (dbs_new 64) = 64"
    by (simp add: dbs_cap_def dbs_new_def)
  show ?thesis
    using computeLiveIn_correct [of "dbs_set (dbs_new 64) 1" "dbs_set (dbs_new 64) 9"
        "dbs_set (dbs_set (dbs_new 64) 2) 5" "dbs_set (dbs_new 64) 5"]
    by (auto simp: dbs.cap_set dbs.elems_set dbs.elems_new cap)
qed

end
