(* ===== verification/LinkedList.thy ===== *)
theory LinkedList
  imports Prelude
begin

text \<open>
  \<open>IntrusiveLinkedList<T>\<close> (EzCore/include/HelperClasses/IntrusiveLinkedList.h): the doubly
  linked list whose links live inside the elements. Nodes are addresses, a null pointer is
  \<open>None\<close>, the links of all nodes are one heap shared by every list (so that \<open>splice\<close> moves
  nodes between two lists of the same heap), and a list object is its head, tail and cached
  size. \<open>is_list\<close> says which sequence of nodes a list object represents; every
  operation is shown to refine the sequence operation it stands for, and to leave every other
  list of the heap alone.
\<close>

section \<open>Nodes, lists, iterators\<close>

type_synonym addr = nat

record links =
  getPrev :: "addr \<Rightarrow> addr option"
  getNext :: "addr \<Rightarrow> addr option"

record ilist =
  m_head :: "addr option"
  m_tail :: "addr option"
  m_size :: nat

definition setPrev :: "addr \<Rightarrow> addr option \<Rightarrow> links \<Rightarrow> links" where
  "setPrev a p h = h\<lparr>getPrev := (getPrev h)(a := p)\<rparr>"

definition setNext :: "addr \<Rightarrow> addr option \<Rightarrow> links \<Rightarrow> links" where
  "setNext a p h = h\<lparr>getNext := (getNext h)(a := p)\<rparr>"

text \<open>A guarded store: \<open>if (p) p->setPrev(v)\<close>.\<close>

definition setPrev_opt :: "addr option \<Rightarrow> addr option \<Rightarrow> links \<Rightarrow> links" where
  "setPrev_opt p v h = (case p of None \<Rightarrow> h | Some a \<Rightarrow> setPrev a v h)"

definition setNext_opt :: "addr option \<Rightarrow> addr option \<Rightarrow> links \<Rightarrow> links" where
  "setNext_opt p v h = (case p of None \<Rightarrow> h | Some a \<Rightarrow> setNext a v h)"

definition il_empty :: ilist where
  "il_empty = \<lparr>m_head = None, m_tail = None, m_size = 0\<rparr>"

text \<open>Iterators are node pointers; the end iterator is null. Decrementing the end reaches the tail.\<close>

definition it_begin :: "ilist \<Rightarrow> addr option" where
  "it_begin l = m_head l"

definition it_next :: "links \<Rightarrow> addr option \<Rightarrow> addr option" where
  "it_next h it = (case it of None \<Rightarrow> None | Some a \<Rightarrow> getNext h a)"

definition it_prev :: "links \<Rightarrow> ilist \<Rightarrow> addr option \<Rightarrow> addr option" where
  "it_prev h l it = (case it of None \<Rightarrow> m_tail l | Some a \<Rightarrow> getPrev h a)"

section \<open>Operations\<close>

definition push_back :: "links \<Rightarrow> ilist \<Rightarrow> addr option \<Rightarrow> links \<times> ilist" where
  "push_back h l node =
     (case node of None \<Rightarrow> (h, l)
      | Some n \<Rightarrow>
        let h = setPrev n (m_tail l) h; h = setNext n None h;
            (h, l) = (case m_tail l of
                        Some t \<Rightarrow> (setNext t (Some n) h, l)
                      | None \<Rightarrow> (h, l\<lparr>m_head := Some n\<rparr>))
        in (h, l\<lparr>m_tail := Some n, m_size := m_size l + 1\<rparr>))"

definition push_front :: "links \<Rightarrow> ilist \<Rightarrow> addr option \<Rightarrow> links \<times> ilist" where
  "push_front h l node =
     (case node of None \<Rightarrow> (h, l)
      | Some n \<Rightarrow>
        let h = setNext n (m_head l) h; h = setPrev n None h;
            (h, l) = (case m_head l of
                        Some f \<Rightarrow> (setPrev f (Some n) h, l)
                      | None \<Rightarrow> (h, l\<lparr>m_tail := Some n\<rparr>))
        in (h, l\<lparr>m_head := Some n, m_size := m_size l + 1\<rparr>))"

definition il_insert :: "links \<Rightarrow> ilist \<Rightarrow> addr option \<Rightarrow> addr option \<Rightarrow> (links \<times> ilist) \<times> addr option" where
  "il_insert h l pos node =
     (case node of None \<Rightarrow> ((h, l), pos)
      | Some n \<Rightarrow>
       (case pos of None \<Rightarrow> (push_back h l node, node)
        | Some cur \<Rightarrow>
          if m_head l = Some cur then (push_front h l node, node)
          else
            let prev = getPrev h cur;
                h = setPrev n prev h; h = setNext n (Some cur) h;
                h = setNext_opt prev (Some n) h;
                h = setPrev cur (Some n) h
            in ((h, l\<lparr>m_size := m_size l + 1\<rparr>), node)))"

definition erase :: "links \<Rightarrow> ilist \<Rightarrow> addr option \<Rightarrow> (links \<times> ilist) \<times> addr option" where
  "erase h l pos =
     (case pos of None \<Rightarrow> ((h, l), None)
      | Some cur \<Rightarrow>
        let nxt = getNext h cur; prev = getPrev h cur;
            (h, l) = (case prev of Some p \<Rightarrow> (setNext p nxt h, l) | None \<Rightarrow> (h, l\<lparr>m_head := nxt\<rparr>));
            (h, l) = (case nxt of Some q \<Rightarrow> (setPrev q prev h, l) | None \<Rightarrow> (h, l\<lparr>m_tail := prev\<rparr>));
            h = setPrev cur None h; h = setNext cur None h
        in ((h, l\<lparr>m_size := m_size l - 1\<rparr>), nxt))"

definition il_remove :: "links \<Rightarrow> ilist \<Rightarrow> addr option \<Rightarrow> links \<times> ilist" where
  "il_remove h l node = (case node of None \<Rightarrow> (h, l) | Some n \<Rightarrow> fst (erase h l (Some n)))"

definition pop_front :: "links \<Rightarrow> ilist \<Rightarrow> (links \<times> ilist) \<times> addr option" where
  "pop_front h l = (if m_size l = 0 then ((h, l), None) else (fst (erase h l (it_begin l)), m_head l))"

definition pop_back :: "links \<Rightarrow> ilist \<Rightarrow> (links \<times> ilist) \<times> addr option" where
  "pop_back h l = (if m_size l = 0 then ((h, l), None) else (fst (erase h l (m_tail l)), m_tail l))"

text \<open>Whole-list \<open>splice\<close>: the three positions (into an empty list, at the end, before a
  node) after the source list has been emptied.\<close>

definition link_list ::
  "links \<Rightarrow> ilist \<Rightarrow> addr option \<Rightarrow> addr \<Rightarrow> addr \<Rightarrow> nat \<Rightarrow> links \<times> ilist" where
  "link_list h l pos first lastN count =
     (if m_size l = 0 then
        (setNext lastN None (setPrev first None h), l\<lparr>m_head := Some first, m_tail := Some lastN, m_size := count\<rparr>)
      else
        (case pos of
           None \<Rightarrow>
             (setNext lastN None (setPrev first (m_tail l) (setNext_opt (m_tail l) (Some first) h)),
              l\<lparr>m_tail := Some lastN, m_size := m_size l + count\<rparr>)
         | Some cur \<Rightarrow>
             if m_head l = Some cur then
               (setPrev first None (setPrev_opt (m_head l) (Some lastN) (setNext lastN (m_head l) h)),
                l\<lparr>m_head := Some first, m_size := m_size l + count\<rparr>)
             else
               let prev = getPrev h cur
               in (setPrev cur (Some lastN) (setNext lastN (Some cur)
                     (setPrev first prev (setNext_opt prev (Some first) h))),
                   l\<lparr>m_size := m_size l + count\<rparr>)))"

text \<open>Range \<open>splice\<close>: the same positions for a detached chain, whose outer links are already null.\<close>

definition link_range ::
  "links \<Rightarrow> ilist \<Rightarrow> addr option \<Rightarrow> addr \<Rightarrow> addr \<Rightarrow> nat \<Rightarrow> links \<times> ilist" where
  "link_range h l pos firstNode lastNode count =
     (if m_size l = 0 then
        (h, l\<lparr>m_head := Some firstNode, m_tail := Some lastNode, m_size := count\<rparr>)
      else
        (case pos of
           None \<Rightarrow>
             (setPrev firstNode (m_tail l) (setNext_opt (m_tail l) (Some firstNode) h),
              l\<lparr>m_tail := Some lastNode, m_size := m_size l + count\<rparr>)
         | Some cur \<Rightarrow>
             if m_head l = Some cur then
               (setPrev_opt (m_head l) (Some lastNode) (setNext lastNode (m_head l) h),
                l\<lparr>m_head := Some firstNode, m_size := m_size l + count\<rparr>)
             else
               let prev = getPrev h cur
               in (setPrev cur (Some lastNode) (setNext lastNode (Some cur)
                     (setPrev firstNode prev (setNext_opt prev (Some firstNode) h))),
                   l\<lparr>m_size := m_size l + count\<rparr>)))"

definition splice_all :: "links \<Rightarrow> ilist \<Rightarrow> addr option \<Rightarrow> ilist \<Rightarrow> links \<times> ilist \<times> ilist" where
  "splice_all h l pos other =
     (case (m_head other, m_tail other) of
        (Some first, Some lastN) \<Rightarrow>
          if m_size other = 0 then (h, l, other)
          else let (h, l) = link_list h l pos first lastN (m_size other) in (h, l, il_empty)
      | _ \<Rightarrow> (h, l, other))"

text \<open>Moving one node between two distinct lists.\<close>

definition splice_one :: "links \<Rightarrow> ilist \<Rightarrow> addr option \<Rightarrow> ilist \<Rightarrow> addr option \<Rightarrow> links \<times> ilist \<times> ilist" where
  "splice_one h l pos other it =
     (case it of None \<Rightarrow> (h, l, other)
      | Some node \<Rightarrow>
        let oPrev = getPrev h node; oNext = getNext h node;
            (h, other) = (case oPrev of Some p \<Rightarrow> (setNext p oNext h, other) | None \<Rightarrow> (h, other\<lparr>m_head := oNext\<rparr>));
            (h, other) = (case oNext of Some q \<Rightarrow> (setPrev q oPrev h, other) | None \<Rightarrow> (h, other\<lparr>m_tail := oPrev\<rparr>));
            other = other\<lparr>m_size := m_size other - 1\<rparr>;
            h = setPrev node None h; h = setNext node None h;
            ((h, l), _) = il_insert h l pos (Some node)
        in (h, l, other))"

text \<open>Moving one node within one list (\<open>this == &other\<close>).\<close>

definition splice_one_self :: "links \<Rightarrow> ilist \<Rightarrow> addr option \<Rightarrow> addr option \<Rightarrow> links \<times> ilist" where
  "splice_one_self h l pos it =
     (case it of None \<Rightarrow> (h, l)
      | Some node \<Rightarrow>
        if pos = Some node \<or> (pos \<noteq> None \<and> pos = getNext h node) then (h, l)
        else
          let oPrev = getPrev h node; oNext = getNext h node;
              (h, l) = (case oPrev of Some p \<Rightarrow> (setNext p oNext h, l) | None \<Rightarrow> (h, l\<lparr>m_head := oNext\<rparr>));
              (h, l) = (case oNext of Some q \<Rightarrow> (setPrev q oPrev h, l) | None \<Rightarrow> (h, l\<lparr>m_tail := oPrev\<rparr>));
              l = l\<lparr>m_size := m_size l - 1\<rparr>;
              h = setPrev node None h; h = setNext node None h
          in fst (il_insert h l pos (Some node)))"

text \<open>Unlinking the chain \<open>firstNode .. lastNode\<close> of \<open>count\<close> nodes from a list.\<close>

definition unlink_range :: "links \<Rightarrow> ilist \<Rightarrow> addr \<Rightarrow> addr \<Rightarrow> nat \<Rightarrow> links \<times> ilist" where
  "unlink_range h other firstNode lastNode count =
     (let oPrev = getPrev h firstNode; oNext = getNext h lastNode;
          (h, other) = (case oPrev of Some p \<Rightarrow> (setNext p oNext h, other)
                        | None \<Rightarrow> (h, other\<lparr>m_head := oNext\<rparr>));
          (h, other) = (case oNext of Some q \<Rightarrow> (setPrev q oPrev h, other)
                        | None \<Rightarrow> (h, other\<lparr>m_tail := oPrev\<rparr>));
          other = other\<lparr>m_size := m_size other - count\<rparr>
      in (setNext lastNode None (setPrev firstNode None h), other))"

text \<open>Moving the range \<open>[first, last)\<close> of \<open>count\<close> nodes between two distinct lists.\<close>

definition splice_range ::
  "links \<Rightarrow> ilist \<Rightarrow> addr option \<Rightarrow> ilist \<Rightarrow> addr option \<Rightarrow> addr option \<Rightarrow> nat \<Rightarrow> links \<times> ilist \<times> ilist" where
  "splice_range h l pos other first lastN count =
     (case first of None \<Rightarrow> (h, l, other)
      | Some firstNode \<Rightarrow>
        if count = 0 \<or> m_size other = 0 then (h, l, other)
        else if m_head other = Some firstNode \<and> lastN = None \<and> count = m_size other then splice_all h l pos other
        else
         (case (case lastN of Some q \<Rightarrow> getPrev h q | None \<Rightarrow> m_tail other) of
            None \<Rightarrow> (h, l, other)
          | Some lastNode \<Rightarrow>
            let (h, other) = unlink_range h other firstNode lastNode count;
                (h, l) = link_range h l pos firstNode lastNode count
            in (h, l, other)))"

text \<open>Node loops \<open>for (n = start; n != stop; n = n->next)\<close>; a loop that runs through the null
  pointer or around a cycle does not return.\<close>

partial_function (option) count_range :: "links \<Rightarrow> addr option \<Rightarrow> addr option \<Rightarrow> nat \<Rightarrow> nat option" where
  "count_range h it lastN n =
     (if it = lastN then Some n
      else case it of None \<Rightarrow> None | Some a \<Rightarrow> count_range h (getNext h a) lastN (n + 1))"

definition splice_iter ::
  "links \<Rightarrow> ilist \<Rightarrow> addr option \<Rightarrow> ilist \<Rightarrow> addr option \<Rightarrow> addr option \<Rightarrow> (links \<times> ilist \<times> ilist) option" where
  "splice_iter h l pos other first lastN =
     (if first = lastN \<or> first = None then Some (h, l, other)
      else if first = m_head other \<and> lastN = None then Some (splice_all h l pos other)
      else map_option (splice_range h l pos other first lastN) (count_range h first lastN 0))"

partial_function (option) clear_loop :: "links \<Rightarrow> addr option \<Rightarrow> links option" where
  "clear_loop h cur =
     (case cur of None \<Rightarrow> Some h
      | Some a \<Rightarrow> let nxt = getNext h a in clear_loop (setNext a None (setPrev a None h)) nxt)"

definition il_clear :: "links \<Rightarrow> ilist \<Rightarrow> (links \<times> ilist) option" where
  "il_clear h l = map_option (\<lambda>h. (h, l\<lparr>m_head := None, m_tail := None, m_size := 0\<rparr>)) (clear_loop h (m_head l))"

section \<open>The sequence a list object represents\<close>

definition link_first :: "addr list \<Rightarrow> addr option \<Rightarrow> addr option" where
  "link_first xs q = (case xs of [] \<Rightarrow> q | x # _ \<Rightarrow> Some x)"

definition link_last :: "addr option \<Rightarrow> addr list \<Rightarrow> addr option" where
  "link_last p xs = (if xs = [] then p else Some (last xs))"

text \<open>\<open>seg h p xs q\<close>: the nodes \<open>xs\<close> are chained in order, the first has \<open>p\<close> as its
  predecessor and the last has \<open>q\<close> as its successor.\<close>

primrec seg :: "links \<Rightarrow> addr option \<Rightarrow> addr list \<Rightarrow> addr option \<Rightarrow> bool" where
  "seg h p [] q \<longleftrightarrow> True"
| "seg h p (x # xs) q \<longleftrightarrow> getPrev h x = p \<and> getNext h x = link_first xs q \<and> seg h (Some x) xs q"

definition is_list :: "links \<Rightarrow> ilist \<Rightarrow> addr list \<Rightarrow> bool" where
  "is_list h l xs \<longleftrightarrow> distinct xs \<and> m_head l = link_first xs None \<and> m_tail l = link_last None xs \<and>
     m_size l = length xs \<and> seg h None xs None"

named_theorems dll \<open>simplification of chains, links and end points\<close>

lemma link_first_simps [simp]:
  "link_first [] q = q" "link_first (x # xs) q = Some x"
  by (simp_all add: link_first_def)

lemma link_last_simps [simp]:
  "link_last p [] = p" "link_last p (xs @ [x]) = Some x" "link_last p (x # xs) = link_last (Some x) xs"
  by (simp_all add: link_last_def)

lemma link_first_append [simp]: "link_first (xs @ ys) q = link_first xs (link_first ys q)"
  by (cases xs) simp_all

lemma link_last_append [simp]: "link_last p (xs @ ys) = link_last (link_last p xs) ys"
  by (simp add: link_last_def)

lemma link_last_Some: "link_last p xs = Some y \<Longrightarrow> xs \<noteq> [] \<Longrightarrow> y \<in> set xs"
  by (auto simp: link_last_def)

lemma link_last_in: "xs \<noteq> [] \<Longrightarrow> \<exists>us y. xs = us @ [y] \<and> link_last p xs = Some y"
  by (metis append_butlast_last_id link_last_def)

lemma seg_append [simp]:
  "seg h p (xs @ ys) q \<longleftrightarrow> seg h p xs (link_first ys q) \<and> seg h (link_last p xs) ys q"
  by (induction xs arbitrary: p) auto

lemma get_set [simp]:
  "getPrev (setPrev a v h) b = (if b = a then v else getPrev h b)" "getNext (setPrev a v h) b = getNext h b"
  "getNext (setNext a v h) b = (if b = a then v else getNext h b)" "getPrev (setNext a v h) b = getPrev h b"
  by (simp_all add: setPrev_def setNext_def)

lemma seg_frame [simp]:
  "a \<notin> set xs \<Longrightarrow> seg (setPrev a v h) p xs q = seg h p xs q"
  "a \<notin> set xs \<Longrightarrow> seg (setNext a v h) p xs q = seg h p xs q"
  by (induction xs arbitrary: p) auto

lemma opt_set [simp]:
  "setPrev_opt None v h = h" "setPrev_opt (Some a) v h = setPrev a v h"
  "setNext_opt None v h = h" "setNext_opt (Some a) v h = setNext a v h"
  by (simp_all add: setPrev_opt_def setNext_opt_def)

text \<open>Changing the successor of the last node, or the predecessor of the first.\<close>

lemma seg_next_last: "seg h p xs q \<Longrightarrow> distinct xs \<Longrightarrow> link_last None xs = Some t \<Longrightarrow> seg (setNext t v h) p xs v"
  by (induction xs rule: rev_induct) (auto simp: link_last_def)

lemma seg_prev_first: "seg h p xs q \<Longrightarrow> distinct xs \<Longrightarrow> link_first xs None = Some f \<Longrightarrow> seg (setPrev f v h) v xs q"
  by (cases xs) auto

lemma seg_nth: "seg h p xs q \<Longrightarrow> xs = us @ x # vs \<Longrightarrow>
  getPrev h x = link_last p us \<and> getNext h x = link_first vs q"
  by auto

lemma is_list_head: "is_list h l (x # xs) \<Longrightarrow> m_head l = Some x"
  by (simp add: is_list_def)

section \<open>Every operation refines its sequence operation\<close>

lemma push_back_list:
  assumes "is_list h l xs" "n \<notin> set xs"
  shows "is_list (fst (push_back h l (Some n))) (snd (push_back h l (Some n))) (xs @ [n])"
proof (cases xs rule: rev_cases)
  case Nil
  then show ?thesis using assms by (simp add: is_list_def push_back_def Let_def)
next
  case (snoc us t)
  then show ?thesis
    using assms by (auto simp: is_list_def push_back_def Let_def)
qed

lemma push_front_list:
  assumes "is_list h l xs" "n \<notin> set xs"
  shows "is_list (fst (push_front h l (Some n))) (snd (push_front h l (Some n))) (n # xs)"
  using assms by (cases xs) (auto simp: is_list_def push_front_def Let_def link_last_def)

lemma insert_before_list:
  assumes "is_list h l (us @ y # vs)" "n \<notin> set (us @ y # vs)"
  shows "is_list (fst (fst (il_insert h l (Some y) (Some n)))) (snd (fst (il_insert h l (Some y) (Some n))))
           (us @ n # y # vs) \<and> snd (il_insert h l (Some y) (Some n)) = Some n"
proof (cases us rule: rev_cases)
  case Nil
  then show ?thesis using assms push_front_list [of h l "y # vs" n]
    by (auto simp: il_insert_def is_list_head split: prod.split)
next
  case (snoc ws w)
  moreover have "m_head l \<noteq> Some y"
    using assms snoc by (cases ws) (auto simp: is_list_def)
  ultimately show ?thesis
    using assms by (auto simp: is_list_def il_insert_def Let_def)
qed

lemma insert_end_list:
  assumes "is_list h l xs" "n \<notin> set xs"
  shows "is_list (fst (fst (il_insert h l None (Some n)))) (snd (fst (il_insert h l None (Some n)))) (xs @ [n])"
  using push_back_list [OF assms] by (simp add: il_insert_def)

lemma erase_list:
  assumes "is_list h l (us @ x # vs)"
  shows "is_list (fst (fst (erase h l (Some x)))) (snd (fst (erase h l (Some x)))) (us @ vs)"
proof (cases us rule: rev_cases)
  case Nil
  then show ?thesis using assms
    by (cases vs) (auto simp: is_list_def erase_def Let_def)
next
  case (snoc ws w)
  then show ?thesis using assms
    by (cases vs) (auto simp: is_list_def erase_def Let_def)
qed

text \<open>One statement for both positions: the iterator of a suffix \<open>vs\<close> of the list is its first
  node, or the end iterator when the suffix is empty.\<close>

lemma insert_list:
  assumes "is_list h l (us @ vs)" "n \<notin> set (us @ vs)" "pos = link_first vs None"
  shows "is_list (fst (fst (il_insert h l pos (Some n)))) (snd (fst (il_insert h l pos (Some n)))) (us @ n # vs)"
  using assms insert_before_list [of h l us _ _ n] insert_end_list [of h l us n]
  by (cases vs) auto

lemma erase_next: "is_list h l (us @ x # vs) \<Longrightarrow> snd (erase h l (Some x)) = link_first vs None"
  by (auto simp: is_list_def erase_def Let_def split: prod.split option.split)

lemma erase_detaches:
  "getPrev (fst (fst (erase h l (Some x)))) x = None \<and> getNext (fst (fst (erase h l (Some x)))) x = None"
  by (auto simp: erase_def Let_def split: prod.split option.split)

lemma remove_list: "is_list h l (us @ x # vs) \<Longrightarrow>
  is_list (fst (il_remove h l (Some x))) (snd (il_remove h l (Some x))) (us @ vs)"
  using erase_list by (simp add: il_remove_def)

lemma pop_front_list:
  assumes "is_list h l (x # xs)"
  shows "is_list (fst (fst (pop_front h l))) (snd (fst (pop_front h l))) xs \<and> snd (pop_front h l) = Some x"
  using assms erase_list [of h l "[]" x xs] by (simp add: pop_front_def is_list_def it_begin_def)

lemma pop_back_list:
  assumes "is_list h l (xs @ [x])"
  shows "is_list (fst (fst (pop_back h l))) (snd (fst (pop_back h l))) xs \<and> snd (pop_back h l) = Some x"
  using assms erase_list [of h l xs x "[]"] by (simp add: pop_back_def is_list_def)

lemma pop_empty: "is_list h l [] \<Longrightarrow> pop_front h l = ((h, l), None) \<and> pop_back h l = ((h, l), None)"
  by (simp add: pop_front_def pop_back_def is_list_def)

section \<open>Splicing\<close>

text \<open>A detached chain: its outer links are null.\<close>

lemma link_range_eq:
  assumes "getPrev h f = None" "getNext h t = None" "is_list h l xs" "{f, t} \<inter> set xs = {}"
  shows "link_range h l pos f t n = link_list h l pos f t n"
proof -
  have self: "setPrev f None h = h" "setNext t None h = h"
    using assms by (simp_all add: setPrev_def setNext_def fun_upd_idem)
  have comm: "setNext t None (setPrev f a g) = setPrev f a (setNext t None g)"
    "setNext t None (setNext_opt b v g) = setNext_opt b v (setNext t None g)"
    "setPrev f None (setPrev_opt c w g) = setPrev_opt c w (setPrev f None g)"
    "setPrev f None (setNext t w g) = setNext t w (setPrev f None g)"
    if "b \<noteq> Some t" "c \<noteq> Some f" for a b c v w g
    using that by (cases b; cases c; simp add: setPrev_def setNext_def fun_upd_twist)+
  have comm2: "setPrev f None (setPrev x w g) = setPrev x w (setPrev f None g)" if "x \<noteq> f" for x w g
    using that by (simp add: setPrev_def fun_upd_twist)
  have comm3: "setPrev f None (setNext t w g) = setNext t w (setPrev f None g)" for w g
    by (simp add: setPrev_def setNext_def)
  have ends: "m_tail l \<noteq> Some t" "m_head l \<noteq> Some f"
    using assms(3,4) link_last_Some [of None xs t] by (cases xs; auto simp: is_list_def)+
  show ?thesis
    using ends by (auto simp: link_range_def link_list_def self comm comm2 comm3 Let_def split: option.split)
qed

text \<open>The chain \<open>zs\<close> from \<open>f\<close> to \<open>t\<close>, as seen by the code that links it into a list.\<close>

definition chain :: "links \<Rightarrow> addr \<Rightarrow> addr list \<Rightarrow> addr \<Rightarrow> bool" where
  "chain h f zs t \<longleftrightarrow> zs \<noteq> [] \<and> distinct zs \<and> hd zs = f \<and> last zs = t \<and> (\<exists>p q. seg h p zs q)"

lemma chain_ends:
  assumes "chain h f zs t"
  shows "f \<in> set zs" "t \<in> set zs" "link_first zs q = Some f" "link_last p zs = Some t" "zs \<noteq> []" "distinct zs"
  using assms by (cases zs; auto simp: chain_def link_last_def)+

lemma chain_frame [simp]:
  "a \<notin> set zs \<Longrightarrow> chain (setPrev a v h) f zs t = chain h f zs t"
  "a \<notin> set zs \<Longrightarrow> chain (setNext a v h) f zs t = chain h f zs t"
  by (simp_all add: chain_def)

lemma set_comm: "setNext t v (setPrev f w h) = setPrev f w (setNext t v h)"
  by (simp add: setPrev_def setNext_def)

lemma seg_ends:
  assumes "chain h f zs t"
  shows "seg (setPrev f w (setNext t v h)) w zs v"
proof -
  obtain p q where "seg h p zs q" using assms by (auto simp: chain_def)
  then have "seg (setNext t v h) p zs v"
    using assms by (intro seg_next_last) (auto simp: chain_def link_last_def)
  then show ?thesis
    using assms by (intro seg_prev_first) (auto simp: chain_def link_first_def split: list.split)
qed

lemma chain_own: "chain h f zs t \<Longrightarrow> chain (setNext t v (setPrev f w h)) f zs t"
  using seg_ends [of h f zs t w v] by (auto simp: chain_def set_comm)

lemma link_list_list:
  assumes l: "is_list h l (us @ vs)" and pos: "pos = link_first vs None" and c: "chain h f zs t"
    and d: "set zs \<inter> set (us @ vs) = {}"
  shows "is_list (fst (link_list h l pos f t (length zs))) (snd (link_list h l pos f t (length zs))) (us @ zs @ vs)"
proof -
  have out: "a \<notin> set zs" if "a \<in> set us \<union> set vs" for a using d that by auto
  have inu: "f \<notin> set us" "t \<notin> set us" "f \<notin> set vs" "t \<notin> set vs"
    using d chain_ends [OF c] by auto
  note ends = chain_ends(3-6) [OF c]
  consider (empty) "us = []" "vs = []"
    | (rear) us' u where "us = us' @ [u]" "vs = []"
    | (front) v vs' where "us = []" "vs = v # vs'" | (mid) us' u v vs' where "us = us' @ [u]" "vs = v # vs'"
    by (cases us rule: rev_cases; cases vs) auto
  then show ?thesis
  proof cases
    case empty
    then show ?thesis
      using l pos ends seg_ends [OF c] by (auto simp: is_list_def link_list_def set_comm)
  next
    case rear
    then have "chain (setNext u (Some f) h) f zs t" using out c by simp
    then show ?thesis
      using l pos ends inu d rear seg_ends [of "setNext u (Some f) h" f zs t]
      by (auto simp: is_list_def link_list_def set_comm)
  next
    case front
    then have "chain (setPrev v (Some t) h) f zs t" using out c by simp
    then show ?thesis
      using l pos ends inu d front seg_ends [of "setPrev v (Some t) h" f zs t None "Some v"]
      by (auto simp: is_list_def link_list_def set_comm)
  next
    case mid
    then have "chain (setNext u (Some f) h) f zs t" using out c by simp
    moreover have "m_head l \<noteq> Some v" using l mid by (cases us') (auto simp: is_list_def)
    ultimately show ?thesis
      using l pos ends inu d mid seg_ends [of "setNext u (Some f) h" f zs t "Some u" "Some v"]
      by (auto simp: is_list_def link_list_def set_comm Let_def)
  qed
qed

section \<open>Frames: what an operation leaves alone\<close>

definition agree_off :: "addr set \<Rightarrow> links \<Rightarrow> links \<Rightarrow> bool" where
  "agree_off S h h' \<longleftrightarrow> (\<forall>a. a \<notin> S \<longrightarrow> getPrev h' a = getPrev h a \<and> getNext h' a = getNext h a)"

lemma agree_off_refl [simp]: "agree_off S h h"
  by (simp add: agree_off_def)

lemma agree_off_set [simp]:
  "a \<in> S \<Longrightarrow> agree_off S h (setPrev a v h') = agree_off S h h'"
  "a \<in> S \<Longrightarrow> agree_off S h (setNext a v h') = agree_off S h h'"
  by (auto simp: agree_off_def)

lemma agree_off_trans: "agree_off S h h' \<Longrightarrow> agree_off T h' h'' \<Longrightarrow> agree_off (S \<union> T) h h''"
  by (auto simp: agree_off_def)

lemma agree_off_mono: "agree_off S h h' \<Longrightarrow> S \<subseteq> T \<Longrightarrow> agree_off T h h'"
  by (auto simp: agree_off_def)

lemma seg_agree: "agree_off S h h' \<Longrightarrow> S \<inter> set xs = {} \<Longrightarrow> seg h' p xs q = seg h p xs q"
  by (induction xs arbitrary: p) (auto simp: agree_off_def)

lemma is_list_agree: "agree_off S h h' \<Longrightarrow> S \<inter> set xs = {} \<Longrightarrow> is_list h l xs \<Longrightarrow> is_list h' l xs"
  by (simp add: is_list_def seg_agree)

lemma link_first_set: "link_first xs None = Some x \<Longrightarrow> x \<in> set xs"
  by (cases xs) auto

lemma link_last_set: "link_last None xs = Some x \<Longrightarrow> x \<in> set xs"
  by (auto simp: link_last_def split: if_splits)

lemma push_back_frame: "is_list h l xs \<Longrightarrow> agree_off (insert n (set xs)) h (fst (push_back h l (Some n)))"
  by (auto simp: push_back_def Let_def is_list_def split: option.split dest: link_last_set)

lemma push_front_frame: "is_list h l xs \<Longrightarrow> agree_off (insert n (set xs)) h (fst (push_front h l (Some n)))"
  by (auto simp: push_front_def Let_def is_list_def split: option.split dest: link_first_set)

lemma insert_frame:
  assumes "is_list h l (us @ vs)" "pos = link_first vs None"
  shows "agree_off (insert n (set (us @ vs))) h (fst (fst (il_insert h l pos (Some n))))"
proof (cases vs)
  case Nil
  then show ?thesis using assms push_back_frame [of h l us n] by (simp add: il_insert_def)
next
  case (Cons v vs')
  moreover have "getPrev h v = link_last None us" using assms Cons by (simp add: is_list_def)
  ultimately show ?thesis using assms push_front_frame [of h l "us @ vs" n]
    by (cases "link_last None us") (auto simp: il_insert_def Let_def dest: link_last_set)
qed

lemma erase_frame:
  assumes "is_list h l (us @ x # vs)"
  shows "agree_off (set (us @ x # vs)) h (fst (fst (erase h l (Some x))))"
proof -
  have "getPrev h x = link_last None us" "getNext h x = link_first vs None" using assms by (simp_all add: is_list_def)
  then show ?thesis
    by (cases "link_last None us"; cases "link_first vs None")
      (auto simp: erase_def Let_def link_last_set link_first_set)
qed

lemma splice_one_eq:
  "splice_one h l pos other (Some x) =
     (case erase h other (Some x) of ((h, other), _) \<Rightarrow>
      case il_insert h l pos (Some x) of ((h, l), _) \<Rightarrow> (h, l, other))"
  by (auto simp: splice_one_def erase_def Let_def split: option.split prod.split)

lemma splice_one_list:
  assumes "is_list h l (us @ vs)" "is_list h other (as @ x # bs)" "pos = link_first vs None"
    "set (us @ vs) \<inter> set (as @ x # bs) = {}"
  shows "case splice_one h l pos other (Some x) of (h', l', other') \<Rightarrow>
    is_list h' l' (us @ x # vs) \<and> is_list h' other' (as @ bs)"
proof -
  obtain h1 o1 r1 where e: "erase h other (Some x) = ((h1, o1), r1)" by (metis prod.exhaust)
  obtain h2 l2 r2 where i: "il_insert h1 l pos (Some x) = ((h2, l2), r2)" by (metis prod.exhaust)
  have o1: "is_list h1 o1 (as @ bs)" using erase_list [OF assms(2)] e by simp
  have l1: "is_list h1 l (us @ vs)"
    using is_list_agree [OF erase_frame [OF assms(2)] _ assms(1)] e assms(4) by (simp add: Int_commute)
  have x: "x \<notin> set (us @ vs)" using assms(4) by auto
  have l2: "is_list h2 l2 (us @ x # vs)" using insert_list [OF l1 x assms(3)] i by simp
  have "insert x (set (us @ vs)) \<inter> set (as @ bs) = {}"
    using assms(2,4) by (auto simp: is_list_def)
  then have "is_list h2 o1 (as @ bs)"
    using is_list_agree [OF insert_frame [OF l1 assms(3), of x] _ o1] i by simp
  with l2 show ?thesis by (simp add: splice_one_eq e i)
qed

lemma splice_one_self_eq:
  "splice_one_self h l pos (Some x) =
     (if pos = Some x \<or> (pos \<noteq> None \<and> pos = getNext h x) then (h, l)
      else case erase h l (Some x) of ((h, l), _) \<Rightarrow> fst (il_insert h l pos (Some x)))"
  by (auto simp: splice_one_self_def erase_def Let_def split: option.split prod.split)

text \<open>Moving a node to another place of its own list: take it out, put it before \<open>vs\<close>.\<close>

lemma splice_one_self_list:
  assumes "is_list h l (as @ x # bs)" "as @ bs = us @ vs" "pos = link_first vs None"
  shows "is_list (fst (splice_one_self h l pos (Some x))) (snd (splice_one_self h l pos (Some x))) (us @ x # vs)"
proof (cases "pos = getNext h x \<and> pos \<noteq> None")
  case True
  then obtain v vs' where v: "vs = v # vs'" using assms(3) by (cases vs) auto
  have "getNext h x = link_first bs None" using assms(1) by (simp add: is_list_def)
  then obtain bs' where b: "bs = v # bs'" using True v assms(3) by (cases bs) auto
  have "distinct (as @ v # bs')" using assms(1) b by (auto simp: is_list_def)
  then have "v \<notin> set as" "v \<notin> set bs'" by auto
  then have "as = us \<and> bs = vs"
    using assms(2) unfolding v b by (simp add: append_Cons_eq_iff)
  moreover have "splice_one_self h l pos (Some x) = (h, l)"
    using True by (subst splice_one_self_eq, subst if_P) auto
  ultimately show ?thesis using assms(1) by simp
next
  case False
  have "x \<notin> set (us @ vs)" using assms(1,2) by (auto simp: is_list_def) (metis Un_iff set_append)+
  then have "pos \<noteq> Some x" using assms(3) by (auto dest: link_first_set)
  then show ?thesis
    using False erase_list [OF assms(1)] assms(2,3) insert_list [of _ _ us vs x pos] \<open>x \<notin> set (us @ vs)\<close>
    by (auto simp: splice_one_self_eq split: prod.split)
qed

section \<open>Whole lists, ranges, clear\<close>

lemma splice_all_list:
  assumes "is_list h l (us @ vs)" "is_list h other zs" "pos = link_first vs None"
    "set (us @ vs) \<inter> set zs = {}"
  shows "case splice_all h l pos other of (h', l', other') \<Rightarrow>
    is_list h' l' (us @ zs @ vs) \<and> is_list h' other' []"
proof (cases zs)
  case Nil
  then show ?thesis using assms by (simp add: splice_all_def is_list_def)
next
  case (Cons z zs')
  have ends: "m_head other = Some (hd zs)" "m_tail other = Some (last zs)" "m_size other = length zs"
    "chain h (hd zs) zs (last zs)"
    using assms(2) Cons by (auto simp: is_list_def link_last_def chain_def)
  have "set zs \<inter> set (us @ vs) = {}" using assms(4) by (simp add: Int_commute)
  from link_list_list [OF assms(1,3) ends(4) this] show ?thesis
    using Cons ends by (auto simp: splice_all_def il_empty_def is_list_def split: prod.split)
qed

text \<open>Detaching the range \<open>ms\<close> of a list: the rest stays a list, the range is a chain with
  null outer links.\<close>

lemma unlink_range_list:
  assumes o: "is_list h other (as @ ms @ bs)" and ms: "ms \<noteq> []"
  defines "r \<equiv> unlink_range h other (hd ms) (last ms) (length ms)"
  shows "is_list (fst r) (snd r) (as @ bs)" "chain (fst r) (hd ms) ms (last ms)"
    "getPrev (fst r) (hd ms) = None" "getNext (fst r) (last ms) = None"
    "agree_off (set (as @ ms @ bs)) h (fst r)"
proof -
  have in_ms: "hd ms \<in> set ms" "last ms \<in> set ms" using ms by simp_all
  have d: "distinct (as @ ms @ bs)" using o by (simp add: is_list_def)
  have ch: "chain h (hd ms) ms (last ms)"
    using o ms by (auto simp: is_list_def chain_def)
  note e = chain_ends [OF ch]
  have p: "getPrev h (hd ms) = link_last None as"
    using o ms by (cases ms) (auto simp: is_list_def)
  have n: "getNext h (last ms) = link_first bs None"
    using o ms by (cases ms rule: rev_cases) (auto simp: is_list_def)
  have seg_as: "seg h None as (Some (hd ms))" and seg_bs: "seg h (Some (last ms)) bs None"
    using o e by (auto simp: is_list_def)
  have out: "hd ms \<notin> set as" "hd ms \<notin> set bs" "last ms \<notin> set as" "last ms \<notin> set bs"
    using d in_ms by auto
  have r: "r = unlink_range h other (hd ms) (last ms) (length ms)" by (simp add: r_def)
  consider (none) "as = []" "bs = []" | (head) y bs' where "as = []" "bs = y # bs'"
    | (rear) as' x where "as = as' @ [x]" "bs = []" | (mid) as' x y bs' where "as = as' @ [x]" "bs = y # bs'"
    by (cases as rule: rev_cases; cases bs) auto
  then show "is_list (fst r) (snd r) (as @ bs)"
    using o out d e p n seg_as seg_bs
    by cases (auto simp: r unlink_range_def Let_def is_list_def)
  have "set (as @ bs) \<inter> set ms = {}" using d by auto
  then show "agree_off (set (as @ ms @ bs)) h (fst r)"
    using in_ms by (cases "link_last None as"; cases "link_first bs None")
      (auto simp: r unlink_range_def Let_def p n link_last_set link_first_set)
  show "getPrev (fst r) (hd ms) = None" "getNext (fst r) (last ms) = None"
    by (auto simp: r unlink_range_def Let_def split: option.split prod.split)
  have "x \<notin> set ms" if "link_last None as = Some x \<or> link_first bs None = Some x" for x
    using that d by (auto dest: link_last_set link_first_set)
  then show "chain (fst r) (hd ms) ms (last ms)"
    using ch by (cases "link_last None as"; cases "link_first bs None")
      (simp_all add: r unlink_range_def Let_def p n chain_own)
qed

lemma link_list_frame:
  assumes "is_list h l (us @ vs)" "pos = link_first vs None"
  shows "agree_off ({f, t} \<union> set (us @ vs)) h (fst (link_list h l pos f t n))"
proof -
  have "getPrev h v = link_last None us" if "link_first vs None = Some v" for v
    using assms that by (cases vs) (auto simp: is_list_def)
  moreover have "a \<in> set us \<union> set vs" if "m_tail l = Some a \<or> m_head l = Some a \<or> link_first vs None = Some a" for a
    using that assms(1) link_last_set [of "us @ vs" a] link_first_set [of "us @ vs" a] link_first_set [of vs a]
    by (auto simp: is_list_def simp del: link_last_append link_first_append)
  ultimately show ?thesis
    using assms(2) by (auto simp: link_list_def Let_def link_last_set setNext_opt_def setPrev_opt_def
        split: option.split)
qed

lemma splice_range_list:
  assumes l: "is_list h l (us @ vs)" and o: "is_list h other (as @ ms @ bs)" and pos: "pos = link_first vs None"
    and d: "set (us @ vs) \<inter> set (as @ ms @ bs) = {}" and ms: "ms \<noteq> []"
  shows "case splice_range h l pos other (Some (hd ms)) (link_first bs None) (length ms) of (h', l', other') \<Rightarrow>
    is_list h' l' (us @ ms @ vs) \<and> is_list h' other' (as @ bs)"
proof (cases "as = [] \<and> bs = []")
  case True
  then have "m_head other = Some (hd ms)" "m_size other = length ms"
    using o ms by (cases ms; simp add: is_list_def)+
  then show ?thesis
    using splice_all_list [OF l, of other ms pos] True o pos d ms by (simp add: splice_range_def)
next
  case False
  obtain h1 o1 where u: "unlink_range h other (hd ms) (last ms) (length ms) = (h1, o1)" by (metis prod.exhaust)
  note ur = unlink_range_list [OF o ms, unfolded u fst_conv snd_conv]
  obtain h2 l2 where k: "link_list h1 l pos (hd ms) (last ms) (length ms) = (h2, l2)" by (metis prod.exhaust)
  have l1: "is_list h1 l (us @ vs)" using is_list_agree [OF ur(5) _ l] d by (simp add: Int_commute)
  have dm: "set ms \<inter> set (us @ vs) = {}" using d by auto
  have l2: "is_list h2 l2 (us @ ms @ vs)" using link_list_list [OF l1 pos ur(2) dm] k by simp
  have "({hd ms, last ms} \<union> set (us @ vs)) \<inter> set (as @ bs) = {}"
    using o d hd_in_set [OF ms] last_in_set [OF ms] by (auto simp: is_list_def)
  then have o2: "is_list h2 o1 (as @ bs)"
    using is_list_agree [OF link_list_frame [OF l1 pos, of "hd ms" "last ms" "length ms"] _ ur(1)] k by simp
  have rng: "link_range h1 l pos (hd ms) (last ms) (length ms) = (h2, l2)"
  proof -
    have "{hd ms, last ms} \<inter> set (us @ vs) = {}" using dm hd_in_set [OF ms] last_in_set [OF ms] by blast
    then show ?thesis using link_range_eq [OF ur(3,4) l1] k by simp
  qed
  have lst: "(case link_first bs None of None \<Rightarrow> m_tail other | Some q \<Rightarrow> getPrev h q) = Some (last ms)"
    using o ms by (cases bs) (auto simp: is_list_def link_last_def)
  have whole: "\<not> (m_head other = Some (hd ms) \<and> link_first bs None = None \<and> length ms = m_size other)"
    using False o by (cases bs) (auto simp: is_list_def)
  have "m_size other \<noteq> 0" using o ms by (simp add: is_list_def)
  then show ?thesis
    using ms whole l2 o2 by (auto simp: splice_range_def lst u rng)
qed

lemma count_range_seg:
  "is_list h l (as @ ms @ bs) \<Longrightarrow> count_range h (link_first ms (link_first bs None)) (link_first bs None) n = Some (n + length ms)"
proof (induction ms arbitrary: as n)
  case Nil
  then show ?case by (subst count_range.simps) simp
next
  case (Cons m ms)
  have "Some m \<noteq> link_first bs None" using Cons.prems by (cases bs) (auto simp: is_list_def)
  moreover have "getNext h m = link_first ms (link_first bs None)" using Cons.prems by (simp add: is_list_def)
  moreover have "count_range h (link_first ms (link_first bs None)) (link_first bs None) (n + 1) = Some (n + 1 + length ms)"
    using Cons.IH [of "as @ [m]"] Cons.prems by simp
  ultimately show ?case by (subst count_range.simps) simp
qed

lemma splice_iter_list:
  assumes "is_list h l (us @ vs)" "is_list h other (as @ ms @ bs)" "pos = link_first vs None"
    "set (us @ vs) \<inter> set (as @ ms @ bs) = {}" "ms \<noteq> []"
  shows "\<exists>h' l' other'. splice_iter h l pos other (Some (hd ms)) (link_first bs None) = Some (h', l', other') \<and>
    is_list h' l' (us @ ms @ vs) \<and> is_list h' other' (as @ bs)"
proof (cases "as = [] \<and> bs = []")
  case True
  then have "m_head other = Some (hd ms)" using assms(2,5) by (cases ms) (simp_all add: is_list_def)
  then show ?thesis
    using splice_all_list [OF assms(1), of other ms pos] True assms
    by (auto simp: splice_iter_def split: prod.splits)
next
  case False
  have "hd ms \<notin> set bs" using assms(2,5) by (cases ms) (auto simp: is_list_def)
  then have "Some (hd ms) \<noteq> link_first bs None" by (auto dest: link_first_set [OF sym])
  moreover have "\<not> (Some (hd ms) = m_head other \<and> link_first bs None = None)"
    using False assms(2,5) by (cases as; cases bs; cases ms) (auto simp: is_list_def)
  moreover have "link_first ms (link_first bs None) = Some (hd ms)" using assms(5) by (cases ms) auto
  ultimately show ?thesis
    using count_range_seg [OF assms(2), of 0] splice_range_list [OF assms] by (auto simp: splice_iter_def split: prod.splits)
qed

lemma clear_loop_seg:
  "seg h p xs None \<Longrightarrow> distinct xs \<Longrightarrow> \<exists>h'. clear_loop h (link_first xs None) = Some h' \<and>
     (\<forall>a. getPrev h' a = (if a \<in> set xs then None else getPrev h a)) \<and>
     (\<forall>a. getNext h' a = (if a \<in> set xs then None else getNext h a))"
proof (induction xs arbitrary: h p)
  case Nil
  then show ?case by (subst clear_loop.simps) simp
next
  case (Cons x xs)
  have "seg (setNext x None (setPrev x None h)) (Some x) xs None" "distinct xs" using Cons.prems by auto
  from Cons.IH [OF this] obtain h' where "clear_loop (setNext x None (setPrev x None h)) (link_first xs None) = Some h'"
    "\<forall>a. getPrev h' a = (if a \<in> set xs then None else getPrev (setNext x None (setPrev x None h)) a)"
    "\<forall>a. getNext h' a = (if a \<in> set xs then None else getNext (setNext x None (setPrev x None h)) a)"
    by blast
  with Cons.prems show ?case by (subst clear_loop.simps) (auto simp: Let_def)
qed

lemma clear_list:
  assumes "is_list h l xs"
  shows "\<exists>h' l'. il_clear h l = Some (h', l') \<and> is_list h' l' [] \<and> agree_off (set xs) h h' \<and>
    (\<forall>x \<in> set xs. getPrev h' x = None \<and> getNext h' x = None)"
proof -
  have "seg h None xs None" "distinct xs" "m_head l = link_first xs None" using assms by (simp_all add: is_list_def)
  from clear_loop_seg [OF this(1,2)] this(3) show ?thesis
    by (auto simp: il_clear_def is_list_def agree_off_def)
qed

section \<open>The interface the MIR containers rely on\<close>

text \<open>
  What a client may assume of a linked sequence: \<open>rep h l xs\<close> relates a heap and a list
  object to the sequence of its nodes.
\<close>

locale linked_sequence =
  fixes rep :: "'h \<Rightarrow> 'l \<Rightarrow> 'n list \<Rightarrow> bool"
    and empty_list :: 'l
    and append_node :: "'h \<Rightarrow> 'l \<Rightarrow> 'n \<Rightarrow> 'h \<times> 'l"
    and insert_node :: "'h \<Rightarrow> 'l \<Rightarrow> 'n option \<Rightarrow> 'n \<Rightarrow> 'h \<times> 'l"
    and unlink_node :: "'h \<Rightarrow> 'l \<Rightarrow> 'n \<Rightarrow> 'h \<times> 'l"
    and take_first :: "'h \<Rightarrow> 'l \<Rightarrow> ('h \<times> 'l) \<times> 'n option"
  assumes rep_empty: "rep h empty_list []"
    and rep_distinct: "rep h l xs \<Longrightarrow> distinct xs"
    and rep_append: "rep h l xs \<Longrightarrow> n \<notin> set xs \<Longrightarrow> case append_node h l n of (h', l') \<Rightarrow> rep h' l' (xs @ [n])"
    and rep_insert: "rep h l (us @ vs) \<Longrightarrow> n \<notin> set (us @ vs) \<Longrightarrow>
      pos = (case vs of [] \<Rightarrow> None | v # _ \<Rightarrow> Some v) \<Longrightarrow>
      case insert_node h l pos n of (h', l') \<Rightarrow> rep h' l' (us @ n # vs)"
    and rep_unlink: "rep h l (us @ x # vs) \<Longrightarrow> case unlink_node h l x of (h', l') \<Rightarrow> rep h' l' (us @ vs)"
    and rep_take: "rep h l (x # xs) \<Longrightarrow> case take_first h l of ((h', l'), r) \<Rightarrow> rep h' l' xs \<and> r = Some x"
begin

text \<open>Appending a batch of nodes keeps their order, so taking them back is first in, first out.\<close>

lemma rep_append_all:
  "rep h l xs \<Longrightarrow> distinct ns \<Longrightarrow> set ns \<inter> set xs = {} \<Longrightarrow>
   case fold (\<lambda>n (h, l). append_node h l n) ns (h, l) of (h', l') \<Rightarrow> rep h' l' (xs @ ns)"
proof (induction ns arbitrary: h l xs)
  case Nil
  then show ?case by simp
next
  case (Cons n ns)
  obtain h1 l1 where a: "append_node h l n = (h1, l1)" by (metis prod.exhaust)
  have "rep h1 l1 (xs @ [n])" using rep_append [of h l xs n] Cons.prems a by auto
  then show ?case using Cons.IH [of h1 l1 "xs @ [n]"] Cons.prems a by auto
qed

lemma take_after_append_all:
  assumes "distinct (n # ns)"
  shows "case fold (\<lambda>n (h, l). append_node h l n) (n # ns) (h, empty_list) of (h', l') \<Rightarrow>
    snd (take_first h' l') = Some n"
  using rep_append_all [OF rep_empty assms, of h] rep_take by (fastforce split: prod.splits)

text \<open>Unlinking what was inserted restores the sequence.\<close>

lemma unlink_insert:
  assumes "rep h l (us @ vs)" "n \<notin> set (us @ vs)" "pos = (case vs of [] \<Rightarrow> None | v # _ \<Rightarrow> Some v)"
  shows "case insert_node h l pos n of (h1, l1) \<Rightarrow> case unlink_node h1 l1 n of (h2, l2) \<Rightarrow> rep h2 l2 (us @ vs)"
  using rep_insert [OF assms] rep_unlink by (fastforce split: prod.splits)

end

interpretation il: linked_sequence is_list il_empty "\<lambda>h l n. push_back h l (Some n)"
  "\<lambda>h l pos n. fst (il_insert h l pos (Some n))" "\<lambda>h l n. fst (erase h l (Some n))" pop_front
proof (unfold_locales, goal_cases)
  case (1 h) show ?case by (simp add: is_list_def il_empty_def)
next
  case (2 h l xs) then show ?case by (simp add: is_list_def)
next
  case (3 h l xs n) then show ?case using push_back_list [OF 3] by (auto split: prod.split)
next
  case (4 h l us vs n pos) then show ?case
    using insert_list [of h l us vs n pos] by (auto simp: link_first_def split: prod.split)
next
  case (5 h l us x vs) then show ?case using erase_list [of h l us x vs] by (auto split: prod.split)
next
  case (6 h l x xs) then show ?case using pop_front_list [of h l x xs] by (auto split: prod.split)
qed

lemma insert_size: "m_size (snd (fst (il_insert h l pos (Some n)))) = m_size l + 1"
  by (auto simp: il_insert_def push_back_def push_front_def Let_def split: option.split prod.split)

lemma insert_returns: "snd (il_insert h l pos (Some n)) = Some n"
  by (auto simp: il_insert_def Let_def split: option.split)

section \<open>Properties\<close>

text \<open>Two small heaps for the witnesses: the list 1, 2 and the lists 1 and 3, 4, 5.\<close>

definition heap_a :: links where
  "heap_a = \<lparr>getPrev = (\<lambda>_. None)(2 := Some 1), getNext = (\<lambda>_. None)(1 := Some 2)\<rparr>"

definition heap_b :: links where
  "heap_b = \<lparr>getPrev = (\<lambda>_. None)(4 := Some 3, 5 := Some 4), getNext = (\<lambda>_. None)(3 := Some 4, 4 := Some 5)\<rparr>"

lemma heap_lists:
  "is_list heap_a \<lparr>m_head = Some 1, m_tail = Some 2, m_size = 2\<rparr> [1, 2]"
  "is_list heap_b \<lparr>m_head = Some 1, m_tail = Some 1, m_size = 1\<rparr> [1]"
  "is_list heap_b \<lparr>m_head = Some 3, m_tail = Some 5, m_size = 3\<rparr> [3, 4, 5]"
  by (simp_all add: is_list_def heap_a_def heap_b_def)

text \<open>C14: \<open>insert\<close> before a node, or at the end for the end iterator, puts the new node at that
  position of the sequence, keeps the list well formed (links, head, tail, cached size) and
  changes the links of no node outside the list.\<close>

theorem insert_refines:
  assumes "is_list h l (us @ vs)" "n \<notin> set (us @ vs)" "pos = link_first vs None"
  shows "case il_insert h l pos (Some n) of ((h', l'), it) \<Rightarrow>
    is_list h' l' (us @ n # vs) \<and> it = Some n \<and> m_size l' = m_size l + 1 \<and>
    agree_off (insert n (set (us @ vs))) h h'"
  using insert_list [OF assms] insert_frame [OF assms(1,3), of n] insert_returns [of h l pos n]
    insert_size [of h l pos n]
  by (cases "il_insert h l pos (Some n)") (auto simp: split_def)

theorem insert_refines_witness:
  "case il_insert heap_a \<lparr>m_head = Some 1, m_tail = Some 2, m_size = 2\<rparr> (Some 2) (Some 7) of ((h', l'), it) \<Rightarrow>
     is_list h' l' [1, 7, 2] \<and> it = Some 7 \<and> m_size l' = 3 \<and> agree_off {7, 1, 2} heap_a h'"
proof -
  have "is_list heap_a \<lparr>m_head = Some 1, m_tail = Some 2, m_size = 2\<rparr> ([1] @ [2])"
    using heap_lists(1) by (simp only: append.simps)
  from insert_refines [OF this, of 7 "Some 2"] show ?thesis by auto
qed

text \<open>C15: \<open>erase\<close> removes exactly the given node, returns the iterator to its successor,
  detaches the node (both of its links become null) and leaves the rest of the heap alone.\<close>

theorem erase_refines:
  assumes "is_list h l (us @ x # vs)"
  shows "case erase h l (Some x) of ((h', l'), it) \<Rightarrow>
    is_list h' l' (us @ vs) \<and> it = link_first vs None \<and> getPrev h' x = None \<and> getNext h' x = None \<and>
    agree_off (set (us @ x # vs)) h h'"
  using erase_list [OF assms] erase_next [OF assms] erase_detaches [of h l x] erase_frame [OF assms]
  by (auto split: prod.splits)

theorem erase_refines_witness:
  "case erase heap_a \<lparr>m_head = Some 1, m_tail = Some 2, m_size = 2\<rparr> (Some 1) of ((h', l'), it) \<Rightarrow>
     is_list h' l' [2] \<and> it = Some 2 \<and> getPrev h' 1 = None \<and> getNext h' 1 = None \<and> agree_off {1, 2} heap_a h'"
proof -
  have "is_list heap_a \<lparr>m_head = Some 1, m_tail = Some 2, m_size = 2\<rparr> ([] @ 1 # [2])"
    using heap_lists(1) by (simp only: append.simps)
  from erase_refines [OF this] show ?thesis by auto
qed

text \<open>C16: splicing an iterator range of one list into another list of the same heap moves the
  nodes of the range, in order, to the position, and leaves both lists well formed; the loop
  that counts the range terminates.\<close>

theorem splice_refines:
  assumes "is_list h l (us @ vs)" "is_list h other (as @ ms @ bs)" "pos = link_first vs None"
    "set (us @ vs) \<inter> set (as @ ms @ bs) = {}" "ms \<noteq> []"
  shows "\<exists>h' l' other'. splice_iter h l pos other (Some (hd ms)) (link_first bs None) = Some (h', l', other') \<and>
    is_list h' l' (us @ ms @ vs) \<and> is_list h' other' (as @ bs)"
  using assms by (rule splice_iter_list)

theorem splice_refines_witness:
  "\<exists>h' l' other'. splice_iter heap_b \<lparr>m_head = Some 1, m_tail = Some 1, m_size = 1\<rparr> (Some 1)
       \<lparr>m_head = Some 3, m_tail = Some 5, m_size = 3\<rparr> (Some 3) (Some 5) = Some (h', l', other') \<and>
     is_list h' l' [3, 4, 1] \<and> is_list h' other' [5]"
proof -
  have l: "is_list heap_b \<lparr>m_head = Some 1, m_tail = Some 1, m_size = 1\<rparr> ([] @ [1])"
    and o: "is_list heap_b \<lparr>m_head = Some 3, m_tail = Some 5, m_size = 3\<rparr> ([] @ [3, 4] @ [5])"
    using heap_lists(2,3) by (simp_all only: append.simps)
  from splice_refines [OF l o, of "Some 1"] show ?thesis by simp
qed

end
