(* ===== verification/CodeSection.thy ===== *)
theory CodeSection
  imports LinkedList
begin

text \<open>
  \<open>CodeSection\<close> (EzCodeEmitter/include/CodeSection.h, EzCodeEmitter/src/CodeSection.cpp): one
  output section, kept as a doubly linked stream of data, label and alignment nodes with an
  insertion cursor, and flattened by \<open>finalize()\<close>. The node store is a map from addresses to
  nodes with an allocation counter; offsets and sizes are natural numbers, except where the
  code's 64-bit comparison can wrap (the patch guards). The \<open>Memory\<close> of a section is its
  \<open>cs_nodes\<close>; a store outside the flattened buffer is \<open>None\<close>.
\<close>

section \<open>Data\<close>

datatype section_type =
  Text | ReadOnly | ReadOnlyWithRel | CString | Const4 | Const8 | Const16AndBigger
  | DataSec | DataWithRel | NonInitialized | Custom | Undefined

record section_flags =
  m_readable :: bool
  m_writable :: bool
  m_executable :: bool

datatype endianness = Little | Big

datatype section_node_kind = DataNode | LabelNode | AlignNode

record section_node =
  sn_kind :: section_node_kind
  sn_prev :: "addr option"
  sn_next :: "addr option"
  sn_data :: "u8 list"
  sn_labelId :: mir_id
  sn_calculatedOffset :: nat
  sn_alignment :: nat
  sn_padByte :: u8

record code_section =
  cs_isFinalized :: bool
  cs_flags :: section_flags
  cs_head :: "addr option"
  cs_tail :: "addr option"
  cs_cursor :: "addr option"
  cs_cursorOffset :: nat
  cs_type :: section_type
  cs_alignment :: nat
  cs_endianness :: endianness
  cs_padByte :: u8
  cs_name :: string
  cs_buffer :: "u8 list"
  cs_nodes :: "addr \<Rightarrow> section_node"
  cs_fresh :: addr

definition new_node :: "section_node_kind \<Rightarrow> section_node" where
  "new_node kind = \<lparr>sn_kind = kind, sn_prev = None, sn_next = None, sn_data = [],
     sn_labelId = MIRID_INVALID, sn_calculatedOffset = 0, sn_alignment = 1, sn_padByte = 0\<rparr>"

text \<open>Field updates of the node at an address.\<close>

definition upd_node :: "addr \<Rightarrow> (section_node \<Rightarrow> section_node) \<Rightarrow> code_section \<Rightarrow> code_section" where
  "upd_node a f s = s\<lparr>cs_nodes := (cs_nodes s)(a := f (cs_nodes s a))\<rparr>"

section \<open>Node insertion\<close>

definition insertNodeAfter :: "code_section \<Rightarrow> addr option \<Rightarrow> section_node_kind \<Rightarrow> code_section \<times> addr" where
  "insertNodeAfter s target kind =
     (let n = cs_fresh s;
          s = s\<lparr>cs_fresh := n + 1, cs_nodes := (cs_nodes s)(n := new_node kind)\<rparr>
      in (case target of
            None \<Rightarrow>
              let s = upd_node n (\<lambda>x. x\<lparr>sn_next := cs_head s\<rparr>) s;
                  s = (case cs_head s of Some f \<Rightarrow> upd_node f (\<lambda>x. x\<lparr>sn_prev := Some n\<rparr>) s | None \<Rightarrow> s);
                  s = s\<lparr>cs_head := Some n\<rparr>;
                  s = (if cs_tail s = None then s\<lparr>cs_tail := Some n\<rparr> else s)
              in (s\<lparr>cs_cursor := Some n\<rparr>, n)
          | Some t \<Rightarrow>
              let tnext = sn_next (cs_nodes s t);
                  s = upd_node n (\<lambda>x. x\<lparr>sn_next := tnext, sn_prev := Some t\<rparr>) s;
                  s = (case tnext of Some q \<Rightarrow> upd_node q (\<lambda>x. x\<lparr>sn_prev := Some n\<rparr>) s
                       | None \<Rightarrow> s\<lparr>cs_tail := Some n\<rparr>);
                  s = upd_node t (\<lambda>x. x\<lparr>sn_next := Some n\<rparr>) s
              in (s\<lparr>cs_cursor := Some n\<rparr>, n)))"

definition new_section ::
  "section_flags \<Rightarrow> section_type \<Rightarrow> nat \<Rightarrow> endianness \<Rightarrow> u8 \<Rightarrow> string \<Rightarrow> code_section" where
  "new_section flags ty alignment endian padByte name =
     \<lparr>cs_isFinalized = False, cs_flags = flags, cs_head = Some 0, cs_tail = Some 0, cs_cursor = Some 0,
      cs_cursorOffset = 0, cs_type = ty, cs_alignment = alignment, cs_endianness = endian,
      cs_padByte = padByte, cs_name = name, cs_buffer = [], cs_nodes = (\<lambda>_. new_node DataNode),
      cs_fresh = 1\<rparr>"

definition bindLabel :: "code_section \<Rightarrow> mir_id \<Rightarrow> code_section \<times> addr" where
  "bindLabel s labelId =
     (let (s, n) = insertNodeAfter s (cs_cursor s) LabelNode
      in (upd_node n (\<lambda>x. x\<lparr>sn_labelId := labelId\<rparr>) s, n))"

definition pad_to :: "nat \<Rightarrow> nat \<Rightarrow> nat" where
  "pad_to alignment off =
     (if alignment > 1 then (let r = off mod alignment in if r \<noteq> 0 then alignment - r else 0) else 0)"

definition alignTo :: "code_section \<Rightarrow> nat \<Rightarrow> code_section" where
  "alignTo s alignment =
     (let (s, n) = insertNodeAfter s (cs_cursor s) AlignNode;
          s = upd_node n (\<lambda>x. x\<lparr>sn_alignment := alignment, sn_padByte := cs_padByte s\<rparr>) s
      in s\<lparr>cs_cursorOffset := cs_cursorOffset s + pad_to alignment (cs_cursorOffset s)\<rparr>)"

section \<open>Emission at the cursor\<close>

definition getActiveDataBuffer :: "code_section \<Rightarrow> code_section \<times> addr" where
  "getActiveDataBuffer s =
     (case cs_cursor s of
        Some c \<Rightarrow> if sn_kind (cs_nodes s c) = DataNode then (s, c) else insertNodeAfter s (cs_cursor s) DataNode
      | None \<Rightarrow> insertNodeAfter s (cs_cursor s) DataNode)"

text \<open>Appending bytes to the active buffer and advancing the running offset.\<close>

definition append_bytes :: "code_section \<Rightarrow> u8 list \<Rightarrow> code_section" where
  "append_bytes s bs =
     (let (s, a) = getActiveDataBuffer s;
          s = upd_node a (\<lambda>x. x\<lparr>sn_data := sn_data x @ bs\<rparr>) s
      in s\<lparr>cs_cursorOffset := cs_cursorOffset s + length bs\<rparr>)"

definition emit8 :: "code_section \<Rightarrow> u8 \<Rightarrow> code_section" where
  "emit8 s val = append_bytes s [val]"

definition emit16 :: "code_section \<Rightarrow> u16 \<Rightarrow> code_section" where
  "emit16 s val =
     append_bytes s
       (if cs_endianness s = Little then [ucast val, ucast (drop_bit 8 val)]
        else [ucast (drop_bit 8 val), ucast val])"

definition emit32 :: "code_section \<Rightarrow> u32 \<Rightarrow> code_section" where
  "emit32 s val =
     append_bytes s
       (if cs_endianness s = Little
        then [ucast val, ucast (drop_bit 8 val), ucast (drop_bit 16 val), ucast (drop_bit 24 val)]
        else [ucast (drop_bit 24 val), ucast (drop_bit 16 val), ucast (drop_bit 8 val), ucast val])"

definition emit64 :: "code_section \<Rightarrow> u64 \<Rightarrow> code_section" where
  "emit64 s val =
     append_bytes s
       (if cs_endianness s = Little then map (\<lambda>i. ucast (drop_bit (i * 8) val)) [0..<8]
        else map (\<lambda>i. ucast (drop_bit (i * 8) val)) (rev [0..<8]))"

text \<open>A null or empty range is \<open>[]\<close>.\<close>

definition emitBytes :: "code_section \<Rightarrow> u8 list \<Rightarrow> code_section" where
  "emitBytes s data = (if data = [] then s else append_bytes s data)"

definition emitBytesWithEndian :: "code_section \<Rightarrow> u8 list \<Rightarrow> endianness \<Rightarrow> code_section" where
  "emitBytesWithEndian s data inputEndianness =
     (if data = [] then s
      else append_bytes s (if inputEndianness = cs_endianness s then data else rev data))"

section \<open>Flattening\<close>

text \<open>One node of the \<open>finalize()\<close> pass: the section (whose label nodes it resolves), the buffer
  built so far, and the running offset.\<close>

definition finalize_node :: "addr \<Rightarrow> code_section \<times> u8 list \<times> nat \<Rightarrow> code_section \<times> u8 list \<times> nat" where
  "finalize_node a st =
     (case st of (s, buf, off) \<Rightarrow>
        let n = cs_nodes s a
        in (case sn_kind n of
              LabelNode \<Rightarrow> (upd_node a (\<lambda>x. x\<lparr>sn_calculatedOffset := off\<rparr>) s, buf, off)
            | AlignNode \<Rightarrow>
                let padSize = pad_to (sn_alignment n) off
                in (s, buf @ replicate padSize (sn_padByte n), off + padSize)
            | DataNode \<Rightarrow> (s, buf @ sn_data n, off + length (sn_data n))))"

partial_function (option) finalize_loop ::
  "addr option \<Rightarrow> code_section \<times> u8 list \<times> nat \<Rightarrow> (code_section \<times> u8 list \<times> nat) option" where
  "finalize_loop node st =
     (case node of None \<Rightarrow> Some st
      | Some a \<Rightarrow> let st' = finalize_node a st in finalize_loop (sn_next (cs_nodes (fst st') a)) st')"

definition finalize :: "code_section \<Rightarrow> code_section option" where
  "finalize s =
     map_option (\<lambda>(s, buf, off). s\<lparr>cs_buffer := buf, cs_isFinalized := True, cs_cursorOffset := off\<rparr>)
       (finalize_loop (cs_head s) (s, [], 0))"

definition node_step :: "section_node \<Rightarrow> nat \<Rightarrow> nat" where
  "node_step n sz =
     (case sn_kind n of
        AlignNode \<Rightarrow> sz + pad_to (sn_alignment n) sz
      | DataNode \<Rightarrow> sz + length (sn_data n)
      | LabelNode \<Rightarrow> sz)"

text \<open>\<open>computeOffsetTo\<close> replays the stream up to and including the given node (to the end when
  the node is not in the stream).\<close>

partial_function (option) offset_loop :: "(addr \<Rightarrow> section_node) \<Rightarrow> addr option \<Rightarrow> addr option \<Rightarrow> nat \<Rightarrow> nat option" where
  "offset_loop nodes n target sz =
     (case n of None \<Rightarrow> Some sz
      | Some a \<Rightarrow>
        let sz = node_step (nodes a) sz
        in if Some a = target then Some sz else offset_loop nodes (sn_next (nodes a)) target sz)"

definition computeOffsetTo :: "code_section \<Rightarrow> addr option \<Rightarrow> nat option" where
  "computeOffsetTo s node = offset_loop (cs_nodes s) (cs_head s) node 0"

definition resetCursorToEnd :: "code_section \<Rightarrow> code_section option" where
  "resetCursorToEnd s =
     map_option (\<lambda>off. s\<lparr>cs_cursor := cs_tail s, cs_cursorOffset := off\<rparr>) (computeOffsetTo s (cs_tail s))"

definition setCursor :: "code_section \<Rightarrow> addr option \<Rightarrow> code_section option" where
  "setCursor s node =
     (let c = (case node of Some a \<Rightarrow> Some a | None \<Rightarrow> cs_tail s)
      in map_option (\<lambda>off. s\<lparr>cs_cursor := c, cs_cursorOffset := off\<rparr>) (computeOffsetTo s c))"

definition getCurrentOffset :: "code_section \<Rightarrow> nat" where
  "getCurrentOffset s = (if cs_isFinalized s then length (cs_buffer s) else cs_cursorOffset s)"

section \<open>Patching the flattened buffer\<close>

text \<open>The boolean is the returned value; \<open>None\<close> is a store outside the buffer.\<close>

definition patch32 :: "code_section \<Rightarrow> u64 \<Rightarrow> u32 \<Rightarrow> (code_section \<times> bool) option" where
  "patch32 s off val =
     (if \<not> cs_isFinalized s \<or> \<not> fits off 4 (cs_buffer s) then Some (s, False)
      else map_option (\<lambda>buf. (s\<lparr>cs_buffer := buf\<rparr>, True))
        (store off
          (if cs_endianness s = Little
           then [ucast val, ucast (drop_bit 8 val), ucast (drop_bit 16 val), ucast (drop_bit 24 val)]
           else [ucast (drop_bit 24 val), ucast (drop_bit 16 val), ucast (drop_bit 8 val), ucast val])
          (cs_buffer s)))"

definition patch64 :: "code_section \<Rightarrow> u64 \<Rightarrow> u64 \<Rightarrow> (code_section \<times> bool) option" where
  "patch64 s off val =
     (if \<not> cs_isFinalized s \<or> \<not> fits off 8 (cs_buffer s) then Some (s, False)
      else map_option (\<lambda>buf. (s\<lparr>cs_buffer := buf\<rparr>, True))
        (store off
          (if cs_endianness s = Little then map (\<lambda>i. ucast (drop_bit (i * 8) val)) [0..<8]
           else map (\<lambda>i. ucast (drop_bit ((7 - i) * 8) val)) [0..<8])
          (cs_buffer s)))"

definition patchBytesWithEndian ::
  "code_section \<Rightarrow> u64 \<Rightarrow> u8 list option \<Rightarrow> endianness \<Rightarrow> (code_section \<times> bool) option" where
  "patchBytesWithEndian s off data inputEndianness =
     (case data of None \<Rightarrow> Some (s, False)
      | Some bs \<Rightarrow>
        if \<not> cs_isFinalized s \<or> \<not> fits off (of_nat (length bs)) (cs_buffer s) then Some (s, False)
        else map_option (\<lambda>buf. (s\<lparr>cs_buffer := buf\<rparr>, True))
          (store off (if inputEndianness = cs_endianness s then bs
                      else map (\<lambda>i. bs ! (length bs - 1 - i)) [0..<length bs])
             (cs_buffer s)))"

section \<open>The stream and its contents\<close>

text \<open>
  The contract of a section: its contents are a sequence of atoms (a byte, a label, an alignment
  directive) split at the cursor, and every operation is a sequence operation at the cursor.
  \<open>render\<close> is the byte image of a sequence of atoms from a given offset.
\<close>

datatype atom = AByte u8 | ALabel mir_id | AAlign nat u8

primrec atom_bytes :: "nat \<Rightarrow> atom \<Rightarrow> u8 list" where
  "atom_bytes off (AByte b) = [b]"
| "atom_bytes off (ALabel i) = []"
| "atom_bytes off (AAlign n p) = replicate (pad_to n off) p"

primrec render :: "nat \<Rightarrow> atom list \<Rightarrow> u8 list" where
  "render off [] = []"
| "render off (x # xs) = atom_bytes off x @ render (off + length (atom_bytes off x)) xs"

definition node_atoms :: "section_node \<Rightarrow> atom list" where
  "node_atoms n =
     (case sn_kind n of DataNode \<Rightarrow> map AByte (sn_data n) | LabelNode \<Rightarrow> [ALabel (sn_labelId n)]
      | AlignNode \<Rightarrow> [AAlign (sn_alignment n) (sn_padByte n)])"

definition atoms :: "(addr \<Rightarrow> section_node) \<Rightarrow> addr list \<Rightarrow> atom list" where
  "atoms nodes xs = concat (map (\<lambda>a. node_atoms (nodes a)) xs)"

definition cs_links :: "code_section \<Rightarrow> links" where
  "cs_links s = \<lparr>getPrev = (\<lambda>a. sn_prev (cs_nodes s a)), getNext = (\<lambda>a. sn_next (cs_nodes s a))\<rparr>"

definition stream :: "code_section \<Rightarrow> addr list \<Rightarrow> bool" where
  "stream s xs \<longleftrightarrow> distinct xs \<and> (\<forall>a \<in> set xs. a < cs_fresh s) \<and> cs_head s = link_first xs None \<and>
     cs_tail s = link_last None xs \<and> seg (cs_links s) None xs None"

definition section_rep :: "code_section \<Rightarrow> atom list \<Rightarrow> atom list \<Rightarrow> bool" where
  "section_rep s before after \<longleftrightarrow>
     (\<exists>us c vs. stream s (us @ c # vs) \<and> cs_cursor s = Some c \<and> before = atoms (cs_nodes s) (us @ [c]) \<and>
        after = atoms (cs_nodes s) vs \<and> cs_cursorOffset s = length (render 0 before))"

lemma render_append [simp]: "render off (xs @ ys) = render off xs @ render (off + length (render off xs)) ys"
  by (induction xs arbitrary: off) (simp_all add: add.assoc)

lemma render_bytes [simp]: "render off (map AByte bs) = bs"
  by (induction bs arbitrary: off) simp_all

lemma atoms_simps [simp]:
  "atoms nodes [] = []" "atoms nodes (a # xs) = node_atoms (nodes a) @ atoms nodes xs"
  "atoms nodes (xs @ ys) = atoms nodes xs @ atoms nodes ys"
  by (simp_all add: atoms_def)

lemma atoms_cong: "(\<And>a. a \<in> set xs \<Longrightarrow> node_atoms (nodes a) = node_atoms (nodes' a)) \<Longrightarrow> atoms nodes xs = atoms nodes' xs"
  by (simp add: atoms_def cong: map_cong)

lemma get_cs_links [simp]:
  "getPrev (cs_links s) a = sn_prev (cs_nodes s a)" "getNext (cs_links s) a = sn_next (cs_nodes s a)"
  by (simp_all add: cs_links_def)

lemma seg_cong:
  "(\<And>a. a \<in> set xs \<Longrightarrow> getPrev h a = getPrev h' a \<and> getNext h a = getNext h' a) \<Longrightarrow> seg h p xs q = seg h' p xs q"
  by (induction xs arbitrary: p) auto

text \<open>Stores that keep the links of the stream.\<close>

lemma stream_keep:
  assumes "cs_head s' = cs_head s" "cs_tail s' = cs_tail s" "cs_fresh s \<le> cs_fresh s'"
    "\<And>a. a \<in> set xs \<Longrightarrow> sn_prev (cs_nodes s' a) = sn_prev (cs_nodes s a) \<and> sn_next (cs_nodes s' a) = sn_next (cs_nodes s a)"
  shows "stream s xs \<Longrightarrow> stream s' xs"
  using assms seg_cong [of xs "cs_links s" "cs_links s'" None None] by (force simp: stream_def)

section \<open>Inserting a node\<close>

definition relink :: "addr \<Rightarrow> addr \<Rightarrow> addr option \<Rightarrow> addr \<Rightarrow> section_node \<Rightarrow> section_node" where
  "relink n t tnext a x =
     x\<lparr>sn_prev := if Some a = tnext then Some n else sn_prev x, sn_next := if a = t then Some n else sn_next x\<rparr>"

lemma insertNodeAfter_eq:
  assumes "t < cs_fresh s" "\<And>q. sn_next (cs_nodes s t) = Some q \<Longrightarrow> q < cs_fresh s"
  defines "n \<equiv> cs_fresh s" and "tnext \<equiv> sn_next (cs_nodes s t)"
  shows "insertNodeAfter s (Some t) k =
    (s\<lparr>cs_tail := if tnext = None then Some n else cs_tail s, cs_cursor := Some n,
       cs_nodes := (\<lambda>a. relink n t tnext a (cs_nodes s a))(n := (new_node k)\<lparr>sn_prev := Some t, sn_next := tnext\<rparr>),
       cs_fresh := n + 1\<rparr>, n)"
  using assms
  by (cases "sn_next (cs_nodes s t)")
    (force simp: insertNodeAfter_def upd_node_def Let_def relink_def new_node_def fun_eq_iff)+

lemma node_atoms_relink [simp]: "node_atoms (relink n t q a x) = node_atoms x"
  by (simp add: node_atoms_def relink_def split: section_node_kind.split)

lemma insert_node:
  assumes st: "stream s (us @ c # vs)"
  defines "n \<equiv> cs_fresh s"
  shows "\<exists>nodes. insertNodeAfter s (Some c) k =
      (s\<lparr>cs_tail := link_last (Some n) vs, cs_cursor := Some n, cs_nodes := nodes, cs_fresh := n + 1\<rparr>, n) \<and>
    nodes n = (new_node k)\<lparr>sn_prev := Some c, sn_next := link_first vs None\<rparr> \<and>
    (\<forall>a. a \<noteq> n \<longrightarrow> node_atoms (nodes a) = node_atoms (cs_nodes s a)) \<and>
    stream (s\<lparr>cs_tail := link_last (Some n) vs, cs_cursor := Some n, cs_nodes := nodes, cs_fresh := n + 1\<rparr>)
      (us @ c # n # vs)"
proof -
  let ?q = "link_first vs None"
  define nodes where "nodes = (\<lambda>a. relink n c ?q a (cs_nodes s a))(n := (new_node k)\<lparr>sn_prev := Some c, sn_next := ?q\<rparr>)"
  define s' where "s' = s\<lparr>cs_tail := link_last (Some n) vs, cs_cursor := Some n, cs_nodes := nodes, cs_fresh := n + 1\<rparr>"
  have nx: "sn_next (cs_nodes s c) = ?q" and tl: "cs_tail s = link_last (Some c) vs"
    and bound: "\<forall>a \<in> set (us @ c # vs). a < n" and d: "distinct (us @ c # vs)"
    and seg: "seg (cs_links s) None us (Some c)" "sn_prev (cs_nodes s c) = link_last None us" "seg (cs_links s) (Some c) vs None"
    using st by (auto simp: stream_def n_def)
  have new: "n \<notin> set (us @ c # vs)" using bound by blast
  have tail: "(if ?q = None then Some n else cs_tail s) = link_last (Some n) vs"
    using tl by (cases vs) auto
  have c: "c < cs_fresh s" using bound by (simp add: n_def)
  have q: "q < cs_fresh s" if "sn_next (cs_nodes s c) = Some q" for q
    using link_first_set [of vs q] that bound nx by (simp add: n_def)
  have "insertNodeAfter s (Some c) k = (s', n)"
    using insertNodeAfter_eq [OF c q, of k, folded n_def, unfolded nx tail] by (simp add: s'_def nodes_def)
  moreover have "stream s' (us @ c # n # vs)"
  proof -
    have "seg (cs_links s') None us (Some c) = seg (cs_links s) None us (Some c)"
      by (rule seg_cong) (use new d in \<open>auto simp: s'_def nodes_def relink_def dest: link_first_set [OF sym]\<close>)
    moreover have "seg (cs_links s') (Some n) vs None"
    proof (cases vs)
      case (Cons v ws)
      have "seg (cs_links s') (Some v) ws None = seg (cs_links s) (Some v) ws None"
        by (rule seg_cong) (use new d Cons in \<open>auto simp: s'_def nodes_def relink_def\<close>)
      then show ?thesis using seg(3) new d Cons by (auto simp: s'_def nodes_def relink_def)
    qed simp
    moreover have "getPrev (cs_links s') c = link_last None us" "getNext (cs_links s') c = Some n"
      "getPrev (cs_links s') n = Some c" "getNext (cs_links s') n = ?q"
      using new d seg(2) by (auto simp: s'_def nodes_def relink_def dest: link_first_set [OF sym])
    ultimately show ?thesis
      using st new bound seg by (auto simp: stream_def s'_def n_def less_Suc_eq)
  qed
  ultimately show ?thesis
    by (intro exI [of _ nodes]) (auto simp: s'_def nodes_def)
qed

text \<open>The new node may then be given any payload: one lemma for labels, alignments and data.\<close>

lemma insert_payload:
  assumes st: "stream s (us @ c # vs)" and cur: "cs_cursor s = Some c" and i: "insertNodeAfter s (Some c) k = (s1, n)"
    and s2: "s2 = (upd_node n f s1)\<lparr>cs_cursorOffset := off\<rparr>"
    and f: "\<And>x. sn_prev (f x) = sn_prev x \<and> sn_next (f x) = sn_next x"
    and ats: "\<And>p q. node_atoms (f ((new_node k)\<lparr>sn_prev := p, sn_next := q\<rparr>)) = ats"
    and off: "off = length (render 0 (atoms (cs_nodes s) (us @ [c]) @ ats))"
  shows "section_rep s2 (atoms (cs_nodes s) (us @ [c]) @ ats) (atoms (cs_nodes s) vs)"
proof -
  from insert_node [OF st, of k] obtain nodes where
    s1: "s1 = s\<lparr>cs_tail := link_last (Some n) vs, cs_cursor := Some n, cs_nodes := nodes, cs_fresh := n + 1\<rparr>"
    and n: "n = cs_fresh s" and new: "nodes n = (new_node k)\<lparr>sn_prev := Some c, sn_next := link_first vs None\<rparr>"
    and same: "\<And>a. a \<noteq> n \<Longrightarrow> node_atoms (nodes a) = node_atoms (cs_nodes s a)"
    and st1: "stream s1 (us @ c # n # vs)"
    using i by auto
  have out: "n \<notin> set us" "n \<noteq> c" "n \<notin> set vs" using st n by (auto simp: stream_def)
  have "stream s2 ((us @ [c]) @ n # vs)"
    using stream_keep [OF _ _ _ _ st1, of s2] f by (simp add: s2 upd_node_def)
  moreover have "cs_nodes s2 n = f (nodes n)" "a \<noteq> n \<Longrightarrow> cs_nodes s2 a = nodes a" for a
    by (simp_all add: s2 upd_node_def s1)
  moreover from this have "atoms (cs_nodes s2) us = atoms (cs_nodes s) us" "atoms (cs_nodes s2) vs = atoms (cs_nodes s) vs"
    "node_atoms (cs_nodes s2 c) = node_atoms (cs_nodes s c)"
    using out same by (metis (no_types, lifting) atoms_cong)+
  moreover have "cs_cursor s2 = Some n" "cs_cursorOffset s2 = off" by (simp_all add: s2 upd_node_def s1)
  ultimately show ?thesis
    unfolding section_rep_def using off ats new
    by (intro exI [of _ "us @ [c]"] exI [of _ n] exI [of _ vs]) simp
qed

section \<open>Every operation is a sequence operation at the cursor\<close>

lemma section_repE:
  assumes "section_rep s pre post"
  obtains us c vs where "stream s (us @ c # vs)" "cs_cursor s = Some c" "pre = atoms (cs_nodes s) (us @ [c])"
    "post = atoms (cs_nodes s) vs" "cs_cursorOffset s = length (render 0 pre)"
  using assms by (auto simp: section_rep_def)

lemma new_section_rep: "section_rep (new_section fl ty al en pad nm) [] []"
  unfolding section_rep_def
  by (rule exI [of _ "[]"], rule exI [of _ 0], rule exI [of _ "[]"])
    (simp add: new_section_def stream_def new_node_def node_atoms_def)

lemma bindLabel_rep:
  assumes "section_rep s pre post"
  shows "section_rep (fst (bindLabel s i)) (pre @ [ALabel i]) post"
proof -
  from assms obtain us c vs where r: "stream s (us @ c # vs)" "cs_cursor s = Some c" "pre = atoms (cs_nodes s) (us @ [c])"
    "post = atoms (cs_nodes s) vs" "cs_cursorOffset s = length (render 0 pre)" by (rule section_repE)
  obtain s1 n where i: "insertNodeAfter s (Some c) LabelNode = (s1, n)" by (metis prod.exhaust)
  have off: "cs_cursorOffset s1 = cs_cursorOffset s"
    using insert_node [OF r(1), of LabelNode] i by auto
  have "fst (bindLabel s i) = (upd_node n (\<lambda>x. x\<lparr>sn_labelId := i\<rparr>) s1)\<lparr>cs_cursorOffset := cs_cursorOffset s\<rparr>"
    using off by (simp add: bindLabel_def r(2) i upd_node_def)
  from insert_payload [OF r(1,2) i this, of "[ALabel i]"] show ?thesis
    using r by (simp add: node_atoms_def new_node_def)
qed

lemma alignTo_rep:
  assumes "section_rep s pre post"
  shows "section_rep (alignTo s n) (pre @ [AAlign n (cs_padByte s)]) post"
proof -
  from assms obtain us c vs where r: "stream s (us @ c # vs)" "cs_cursor s = Some c" "pre = atoms (cs_nodes s) (us @ [c])"
    "post = atoms (cs_nodes s) vs" "cs_cursorOffset s = length (render 0 pre)" by (rule section_repE)
  obtain s1 a where i: "insertNodeAfter s (Some c) AlignNode = (s1, a)" by (metis prod.exhaust)
  have same: "cs_cursorOffset s1 = cs_cursorOffset s" "cs_padByte s1 = cs_padByte s"
    using insert_node [OF r(1), of AlignNode] i by auto
  have "alignTo s n = (upd_node a (\<lambda>x. x\<lparr>sn_alignment := n, sn_padByte := cs_padByte s\<rparr>) s1)
      \<lparr>cs_cursorOffset := cs_cursorOffset s + pad_to n (cs_cursorOffset s)\<rparr>"
    using same by (simp add: alignTo_def r(2) i upd_node_def)
  from insert_payload [OF r(1,2) i this, of "[AAlign n (cs_padByte s)]"] show ?thesis
    using r by (simp add: node_atoms_def new_node_def)
qed

lemma append_bytes_rep:
  assumes "section_rep s pre post"
  shows "section_rep (append_bytes s bs) (pre @ map AByte bs) post"
proof -
  from assms obtain us c vs where r: "stream s (us @ c # vs)" "cs_cursor s = Some c" "pre = atoms (cs_nodes s) (us @ [c])"
    "post = atoms (cs_nodes s) vs" "cs_cursorOffset s = length (render 0 pre)" by (rule section_repE)
  show ?thesis
  proof (cases "sn_kind (cs_nodes s c) = DataNode")
    case True
    let ?s = "append_bytes s bs"
    have s: "?s = (upd_node c (\<lambda>x. x\<lparr>sn_data := sn_data x @ bs\<rparr>) s)\<lparr>cs_cursorOffset := cs_cursorOffset s + length bs\<rparr>"
      using True r(2) by (simp add: append_bytes_def getActiveDataBuffer_def upd_node_def Let_def)
    have out: "c \<notin> set us" "c \<notin> set vs" using r(1) by (auto simp: stream_def)
    have "stream ?s (us @ c # vs)"
      by (rule stream_keep [OF _ _ _ _ r(1)]) (auto simp: s upd_node_def)
    moreover have "atoms (cs_nodes ?s) us = atoms (cs_nodes s) us" "atoms (cs_nodes ?s) vs = atoms (cs_nodes s) vs"
      using out by (auto simp: s upd_node_def intro!: atoms_cong)
    moreover have "node_atoms (cs_nodes ?s c) = node_atoms (cs_nodes s c) @ map AByte bs"
      using True by (simp add: s upd_node_def node_atoms_def)
    ultimately show ?thesis
      unfolding section_rep_def using r
      by (intro exI [of _ us] exI [of _ c] exI [of _ vs]) (simp add: s upd_node_def)
  next
    case False
    obtain s1 n where i: "insertNodeAfter s (Some c) DataNode = (s1, n)" by (metis prod.exhaust)
    have off: "cs_cursorOffset s1 = cs_cursorOffset s"
      using insert_node [OF r(1), of DataNode] i by auto
    have "append_bytes s bs = (upd_node n (\<lambda>x. x\<lparr>sn_data := sn_data x @ bs\<rparr>) s1)
        \<lparr>cs_cursorOffset := cs_cursorOffset s + length bs\<rparr>"
      using False r(2) off by (simp add: append_bytes_def getActiveDataBuffer_def i upd_node_def)
    from insert_payload [OF r(1,2) i this, of "map AByte bs"] show ?thesis
      using r by (simp add: node_atoms_def new_node_def)
  qed
qed

text \<open>The multi-byte emitters write the value in the byte order of the section.\<close>

definition endian_bytes :: "endianness \<Rightarrow> nat \<Rightarrow> 'a::len word \<Rightarrow> u8 list" where
  "endian_bytes e n w = (if e = Little then le_bytes n w else be_bytes n w)"

lemma endian_bytes_lit:
  fixes v :: u16 and w :: u32
  shows "(if e = Little then [ucast v, ucast (drop_bit 8 v)] else [ucast (drop_bit 8 v), ucast v]) = endian_bytes e 2 v"
    and "(if e = Little then [ucast w, ucast (drop_bit 8 w), ucast (drop_bit 16 w), ucast (drop_bit 24 w)]
       else [ucast (drop_bit 24 w), ucast (drop_bit 16 w), ucast (drop_bit 8 w), ucast w]) = endian_bytes e 4 w"
  by (simp_all add: endian_bytes_def be_bytes_def le_bytes_def upt_conv_Cons)

lemma endian_bytes_lit64:
  fixes w :: u64
  shows "(if e = Little then map (\<lambda>i. ucast (drop_bit (i * 8) w)) [0..<8]
     else map (\<lambda>i. ucast (drop_bit (i * 8) w)) (rev [0..<8])) = endian_bytes e 8 w"
    "(if e = Little then map (\<lambda>i. ucast (drop_bit (i * 8) w)) [0..<8]
     else map (\<lambda>i. ucast (drop_bit ((7 - i) * 8) w)) [0..<8]) = endian_bytes e 8 w"
  by (simp_all add: endian_bytes_def be_bytes_def le_bytes_def upt_conv_Cons mult.commute)

lemma emit_bytes_eq:
  "emit16 s v = append_bytes s (endian_bytes (cs_endianness s) 2 v)"
  "emit32 s w = append_bytes s (endian_bytes (cs_endianness s) 4 w)"
  "emit64 s x = append_bytes s (endian_bytes (cs_endianness s) 8 x)"
  by (simp_all only: emit16_def emit32_def emit64_def endian_bytes_lit endian_bytes_lit64)

lemma append_bytes_Nil: "section_rep s pre post \<Longrightarrow> section_rep (append_bytes s []) pre post"
  using append_bytes_rep [of s pre post "[]"] by simp

section \<open>Offsets\<close>

lemma node_step_bytes: "node_step n (length (render 0 pre)) = length (render 0 (pre @ node_atoms n))"
  by (simp add: node_step_def node_atoms_def split: section_node_kind.split)

lemma offset_loop_seg:
  "seg (cs_links s) p (xs @ [c]) q \<Longrightarrow> c \<notin> set xs \<Longrightarrow>
   offset_loop (cs_nodes s) (link_first xs (Some c)) (Some c) (length (render 0 pre)) =
     Some (length (render 0 (pre @ atoms (cs_nodes s) (xs @ [c]))))"
proof (induction xs arbitrary: p pre)
  case Nil
  then show ?case by (subst offset_loop.simps) (simp add: node_step_bytes)
next
  case (Cons x xs)
  then show ?case
    using Cons.IH [of "Some x" "pre @ node_atoms (cs_nodes s x)"]
    by (subst offset_loop.simps) (simp add: node_step_bytes)
qed

lemma computeOffsetTo_prefix:
  assumes "stream s (us @ c # vs)"
  shows "computeOffsetTo s (Some c) = Some (length (render 0 (atoms (cs_nodes s) (us @ [c]))))"
  using offset_loop_seg [of s None us c "link_first vs None" "[]"] assms
  by (auto simp: stream_def computeOffsetTo_def)

text \<open>Moving the cursor to a node of the stream splits the same contents after that node.\<close>

lemma setCursor_rep:
  assumes "stream s (us @ c # vs)"
  shows "\<exists>s'. setCursor s (Some c) = Some s' \<and>
    section_rep s' (atoms (cs_nodes s) (us @ [c])) (atoms (cs_nodes s) vs) \<and> cs_nodes s' = cs_nodes s"
proof -
  let ?s = "s\<lparr>cs_cursor := Some c, cs_cursorOffset := length (render 0 (atoms (cs_nodes s) (us @ [c])))\<rparr>"
  have "stream ?s (us @ c # vs)"
    by (rule stream_keep [OF _ _ _ _ assms]) auto
  then have "section_rep ?s (atoms (cs_nodes s) (us @ [c])) (atoms (cs_nodes s) vs)"
    unfolding section_rep_def by (intro exI [of _ us] exI [of _ c] exI [of _ vs]) simp
  then show ?thesis
    using computeOffsetTo_prefix [OF assms] by (simp add: setCursor_def)
qed

lemma stream_tail: "stream s xs \<Longrightarrow> xs \<noteq> [] \<Longrightarrow> \<exists>us c. xs = us @ [c] \<and> cs_tail s = Some c"
  by (cases xs rule: rev_cases) (auto simp: stream_def)

lemma resetCursorToEnd_rep:
  assumes "section_rep s pre post"
  shows "\<exists>s'. resetCursorToEnd s = Some s' \<and> section_rep s' (pre @ post) []"
proof -
  from assms obtain us c vs where r: "stream s (us @ c # vs)" "pre @ post = atoms (cs_nodes s) (us @ c # vs)"
    by (auto simp: section_rep_def)
  obtain ws d where e: "us @ c # vs = ws @ [d]" "cs_tail s = Some d"
    using stream_tail [OF r(1)] by auto
  have st: "stream s (ws @ d # [])" using r(1) e(1) by simp
  have "resetCursorToEnd s = setCursor s (Some d)"
    by (simp add: resetCursorToEnd_def setCursor_def e Let_def)
  moreover have "atoms (cs_nodes s) (ws @ [d]) = pre @ post" using r(2) e(1) by simp
  ultimately show ?thesis using setCursor_rep [OF st] by auto
qed

section \<open>Flattening\<close>

text \<open>The node store after the pass over \<open>xs\<close>: every label node holds the size of what precedes it.\<close>

definition resolve :: "nat \<Rightarrow> section_node \<Rightarrow> section_node" where
  "resolve off n = (if sn_kind n = LabelNode then n\<lparr>sn_calculatedOffset := off\<rparr> else n)"

primrec resolved :: "(addr \<Rightarrow> section_node) \<Rightarrow> atom list \<Rightarrow> addr list \<Rightarrow> addr \<Rightarrow> section_node" where
  "resolved nodes pre [] = nodes"
| "resolved nodes pre (a # xs) =
     resolved (nodes(a := resolve (length (render 0 pre)) (nodes a))) (pre @ node_atoms (nodes a)) xs"

lemma resolve_same [simp]:
  "node_atoms (resolve off n) = node_atoms n" "sn_prev (resolve off n) = sn_prev n"
  "sn_next (resolve off n) = sn_next n" "sn_kind (resolve off n) = sn_kind n" "sn_labelId (resolve off n) = sn_labelId n"
  by (simp_all add: resolve_def node_atoms_def)

lemma resolved_same:
  "node_atoms (resolved nodes pre xs a) = node_atoms (nodes a) \<and> sn_prev (resolved nodes pre xs a) = sn_prev (nodes a) \<and>
   sn_next (resolved nodes pre xs a) = sn_next (nodes a)"
  by (induction xs arbitrary: nodes pre) auto

lemma resolved_other: "a \<notin> set xs \<Longrightarrow> resolved nodes pre xs a = nodes a"
  by (induction xs arbitrary: nodes pre) auto

lemma resolved_label:
  "distinct (us @ a # vs) \<Longrightarrow> sn_kind (nodes a) = LabelNode \<Longrightarrow>
   sn_calculatedOffset (resolved nodes pre (us @ a # vs) a) = length (render 0 (pre @ atoms nodes us))"
proof (induction us arbitrary: nodes pre)
  case Nil
  then show ?case by (simp add: resolved_other resolve_def)
next
  case (Cons u us)
  define N where "N = nodes(u := resolve (length (render 0 pre)) (nodes u))"
  have "atoms N us = atoms nodes us" by (rule atoms_cong) (simp add: N_def)
  moreover have "N a = nodes a" using Cons.prems(1) by (simp add: N_def)
  ultimately show ?case
    using Cons.IH [of N "pre @ node_atoms (nodes u)"] Cons.prems by (simp flip: N_def)
qed

lemma finalize_node_eq:
  "finalize_node a (s, render 0 pre, length (render 0 pre)) =
     (s\<lparr>cs_nodes := (cs_nodes s)(a := resolve (length (render 0 pre)) (cs_nodes s a))\<rparr>,
      render 0 (pre @ node_atoms (cs_nodes s a)), length (render 0 (pre @ node_atoms (cs_nodes s a))))"
  by (simp add: finalize_node_def upd_node_def resolve_def node_atoms_def Let_def split: section_node_kind.split)

lemma finalize_loop_seg:
  "seg (cs_links s) p xs None \<Longrightarrow> distinct xs \<Longrightarrow>
   finalize_loop (link_first xs None) (s, render 0 pre, length (render 0 pre)) =
     Some (s\<lparr>cs_nodes := resolved (cs_nodes s) pre xs\<rparr>, render 0 (pre @ atoms (cs_nodes s) xs),
       length (render 0 (pre @ atoms (cs_nodes s) xs)))"
proof (induction xs arbitrary: p s pre)
  case Nil
  then show ?case by (subst finalize_loop.simps) simp
next
  case (Cons x xs)
  define N where "N = (cs_nodes s)(x := resolve (length (render 0 pre)) (cs_nodes s x))"
  have Nx: "sn_next (N x) = sn_next (cs_nodes s x)" by (simp add: N_def)
  have "seg (cs_links (s\<lparr>cs_nodes := N\<rparr>)) (Some x) xs None = seg (cs_links s) (Some x) xs None"
    by (rule seg_cong) (simp add: N_def)
  then have "seg (cs_links (s\<lparr>cs_nodes := N\<rparr>)) (Some x) xs None" "distinct xs"
    using Cons.prems by simp_all
  note IH = Cons.IH [OF this, of "pre @ node_atoms (cs_nodes s x)"]
  have "atoms N xs = atoms (cs_nodes s) xs"
    by (rule atoms_cong) (simp add: N_def)
  then show ?case
    using IH Cons.prems Nx unfolding link_first_simps
    by (subst finalize_loop.simps) (simp add: finalize_node_eq del: render_append flip: N_def)
qed

lemma finalize_stream:
  assumes "stream s xs"
  shows "finalize s = Some (s\<lparr>cs_nodes := resolved (cs_nodes s) [] xs, cs_buffer := render 0 (atoms (cs_nodes s) xs),
    cs_isFinalized := True, cs_cursorOffset := length (render 0 (atoms (cs_nodes s) xs))\<rparr>)"
  using finalize_loop_seg [of s None xs "[]"] assms by (simp add: finalize_def stream_def)

text \<open>A label atom comes from a label node.\<close>

lemma atoms_label:
  "atoms nodes xs = as @ ALabel i # bs \<Longrightarrow>
   \<exists>us a vs. xs = us @ a # vs \<and> sn_kind (nodes a) = LabelNode \<and> sn_labelId (nodes a) = i \<and> atoms nodes us = as"
proof (induction xs arbitrary: as)
  case Nil
  then show ?case by simp
next
  case (Cons x xs)
  have recurse: ?case if "as = node_atoms (nodes x) @ as'" "atoms nodes xs = as' @ ALabel i # bs" for as'
  proof -
    from Cons.IH [OF that(2)] obtain us a vs where "xs = us @ a # vs" "sn_kind (nodes a) = LabelNode"
      "sn_labelId (nodes a) = i" "atoms nodes us = as'" by blast
    then show ?thesis using that(1) by (intro exI [of _ "x # us"] exI [of _ a] exI [of _ vs]) simp
  qed
  show ?case
  proof (cases as)
    case Nil
    then show ?thesis
    proof (cases "node_atoms (nodes x)")
      case (Cons b ys)
      then have "sn_kind (nodes x) = LabelNode" "sn_labelId (nodes x) = i"
        using Cons.prems Nil by (auto simp: node_atoms_def split: section_node_kind.splits)
      then show ?thesis using Nil by (intro exI [of _ "[]"] exI [of _ x] exI [of _ xs]) simp
    qed (use Cons.prems recurse [of "[]"] in simp)
  next
    case (Cons b cs)
    have "ALabel i \<notin> set (map AByte ds)" for ds by auto
    from Cons.prems obtain ds where
      "node_atoms (nodes x) = as @ ds \<and> ds @ atoms nodes xs = ALabel i # bs \<or>
       node_atoms (nodes x) @ ds = as \<and> atoms nodes xs = ds @ ALabel i # bs"
      by (auto simp: append_eq_append_conv2)
    then consider (long) "node_atoms (nodes x) @ ds = as" "atoms nodes xs = ds @ ALabel i # bs"
      | (exact) "node_atoms (nodes x) = as" "atoms nodes xs = ALabel i # bs"
      | (short) "node_atoms (nodes x) = as @ ds" "ds @ atoms nodes xs = ALabel i # bs" "ds \<noteq> []"
      by (cases ds) auto
    then show ?thesis
    proof cases
      case long
      then show ?thesis by (intro recurse) simp_all
    next
      case exact
      then show ?thesis using recurse [of "[]"] by simp
    next
      case short
      then have "ALabel i \<in> set (tl (node_atoms (nodes x)))" using Cons by (cases ds) auto
      then show ?thesis by (auto simp: node_atoms_def map_tl [symmetric] split: section_node_kind.splits)
    qed
  qed
qed

lemma finalize_rep:
  assumes "section_rep s pre post"
  obtains s' where "finalize s = Some s'" "cs_buffer s' = render 0 (pre @ post)" "cs_isFinalized s'"
    "\<And>as i bs. pre @ post = as @ ALabel i # bs \<Longrightarrow> \<exists>a. sn_kind (cs_nodes s' a) = LabelNode \<and>
       sn_labelId (cs_nodes s' a) = i \<and> sn_calculatedOffset (cs_nodes s' a) = length (render 0 as)"
proof -
  from assms obtain us c vs where st: "stream s (us @ c # vs)" and r: "pre @ post = atoms (cs_nodes s) (us @ c # vs)"
    by (auto simp: section_rep_def)
  let ?xs = "us @ c # vs" and ?N = "resolved (cs_nodes s) [] (us @ c # vs)"
  define s' where "s' = s\<lparr>cs_nodes := ?N, cs_buffer := render 0 (atoms (cs_nodes s) ?xs),
    cs_isFinalized := True, cs_cursorOffset := length (render 0 (atoms (cs_nodes s) ?xs))\<rparr>"
  have "finalize s = Some s'" using finalize_stream [OF st] by (simp add: s'_def)
  moreover have "cs_buffer s' = render 0 (pre @ post)" "cs_isFinalized s'" by (simp_all add: s'_def r)
  moreover have "\<exists>a. sn_kind (cs_nodes s' a) = LabelNode \<and> sn_labelId (cs_nodes s' a) = i \<and>
      sn_calculatedOffset (cs_nodes s' a) = length (render 0 as)" if "pre @ post = as @ ALabel i # bs" for as i bs
  proof -
    from atoms_label [of "cs_nodes s" ?xs as i bs] that r obtain us' a vs' where
      a: "?xs = us' @ a # vs'" "sn_kind (cs_nodes s a) = LabelNode" "sn_labelId (cs_nodes s a) = i"
        "atoms (cs_nodes s) us' = as" by auto
    have "distinct (us' @ a # vs')" using st a(1) by (simp add: stream_def)
    from resolved_label [of us' a vs' "cs_nodes s" "[]", OF this a(2)] have "sn_calculatedOffset (?N a) = length (render 0 as)"
      using a by simp
    moreover have "node_atoms (?N a) = [ALabel i]"
      using resolved_same [of "cs_nodes s" "[]" ?xs a] a by (simp add: node_atoms_def)
    ultimately show ?thesis
      by (intro exI [of _ a]) (auto simp: s'_def node_atoms_def split: section_node_kind.splits)
  qed
  ultimately show thesis by (rule that)
qed

lemma pad_to_spec:
  assumes "1 < n"
  shows "n dvd off + pad_to n off \<and> pad_to n off < n"
proof (cases "off mod n = 0")
  case True
  then show ?thesis using assms by (auto simp: pad_to_def)
next
  case False
  have "off + (n - off mod n) = n * (off div n) + n"
    using mod_less_divisor [of n off] assms by (simp add: mult.commute minus_mod_eq_mult_div [symmetric])
  then show ?thesis using False assms by (simp add: pad_to_def)
qed

section \<open>Patching\<close>

lemma patch32_eq:
  "patch32 s off val =
     (if \<not> cs_isFinalized s \<or> \<not> fits off 4 (cs_buffer s) then Some (s, False)
      else map_option (\<lambda>buf. (s\<lparr>cs_buffer := buf\<rparr>, True)) (store off (endian_bytes (cs_endianness s) 4 val) (cs_buffer s)))"
  by (simp only: patch32_def endian_bytes_lit)

lemma patch64_eq:
  "patch64 s off val =
     (if \<not> cs_isFinalized s \<or> \<not> fits off 8 (cs_buffer s) then Some (s, False)
      else map_option (\<lambda>buf. (s\<lparr>cs_buffer := buf\<rparr>, True)) (store off (endian_bytes (cs_endianness s) 8 val) (cs_buffer s)))"
  by (simp only: patch64_def endian_bytes_lit64)

lemma length_endian_bytes [simp]: "length (endian_bytes e n w) = n"
  by (simp add: endian_bytes_def)

text \<open>Reading a value back in the byte order it was written in.\<close>

definition read_word :: "endianness \<Rightarrow> u8 list \<Rightarrow> 'a::len word" where
  "read_word e bs = le_word (if e = Little then bs else rev bs)"

lemma read_word_endian_bytes: "LENGTH('a) \<le> 8 * n \<Longrightarrow> read_word e (endian_bytes e n w) = w" for w :: "'a::len word"
  by (simp add: read_word_def endian_bytes_def be_bytes_def le_word_le_bytes_full)

lemma fits_lit:
  "length buf < 2 ^ 63 \<Longrightarrow> unat off < 2 ^ 63 \<Longrightarrow> fits off 4 buf \<longleftrightarrow> unat off + 4 \<le> length buf"
  "length buf < 2 ^ 63 \<Longrightarrow> unat off < 2 ^ 63 \<Longrightarrow> fits off 8 buf \<longleftrightarrow> unat off + 8 \<le> length buf"
  using fits_iff [of buf off 4] fits_iff [of buf off 8] by simp_all

section \<open>Properties\<close>

text \<open>C17: every emitter, \<open>bindLabel\<close> and \<open>alignTo\<close> insert exactly their atoms at the
  cursor and leave what precedes and follows the cursor alone; multi-byte values are written in the
  byte order of the section, and byte ranges are reversed when their order differs from it.\<close>

theorem section_emission_refines:
  assumes "section_rep s pre post"
  shows "section_rep (emit8 s b) (pre @ [AByte b]) post \<and>
    section_rep (emit16 s v) (pre @ map AByte (endian_bytes (cs_endianness s) 2 v)) post \<and>
    section_rep (emit32 s w) (pre @ map AByte (endian_bytes (cs_endianness s) 4 w)) post \<and>
    section_rep (emit64 s x) (pre @ map AByte (endian_bytes (cs_endianness s) 8 x)) post \<and>
    section_rep (emitBytes s bs) (pre @ map AByte bs) post \<and>
    section_rep (emitBytesWithEndian s bs e) (pre @ map AByte (if e = cs_endianness s then bs else rev bs)) post \<and>
    section_rep (fst (bindLabel s i)) (pre @ [ALabel i]) post \<and>
    section_rep (alignTo s n) (pre @ [AAlign n (cs_padByte s)]) post"
proof -
  note ap = append_bytes_rep [OF assms]
  have "section_rep (emit8 s b) (pre @ [AByte b]) post" using ap [of "[b]"] by (simp add: emit8_def)
  moreover have "section_rep (emitBytes s bs) (pre @ map AByte bs) post"
    using ap [of bs] assms by (simp add: emitBytes_def)
  moreover have "section_rep (emitBytesWithEndian s bs e) (pre @ map AByte (if e = cs_endianness s then bs else rev bs)) post"
    using ap [of "if e = cs_endianness s then bs else rev bs"] assms by (simp add: emitBytesWithEndian_def)
  ultimately show ?thesis
    using ap bindLabel_rep [OF assms] alignTo_rep [OF assms] by (simp add: emit_bytes_eq)
qed

definition text_section :: code_section where
  "text_section = new_section \<lparr>m_readable = True, m_writable = False, m_executable = True\<rparr> Text 16 Little 0x90 ''.text''"

lemma text_section_rep: "section_rep text_section [] []"
  by (simp add: text_section_def new_section_rep)

theorem section_emission_refines_witness:
  "section_rep (emitBytesWithEndian text_section [1, 2] Big) [AByte 2, AByte 1] []"
proof -
  have "cs_endianness text_section = Little" by (simp add: text_section_def new_section_def)
  then show ?thesis
    using section_emission_refines [OF text_section_rep, where bs = "[1, 2]" and e = Big] by simp
qed

text \<open>C18: \<open>finalize()\<close> terminates; the buffer it builds is the byte image of the contents with
  every alignment evaluated at its final offset, the reported offset is the buffer size, and every
  label node holds the number of bytes that precede it.\<close>

theorem finalize_layout:
  assumes "section_rep s pre post"
  shows "\<exists>s'. finalize s = Some s' \<and> cs_buffer s' = render 0 (pre @ post) \<and>
    getCurrentOffset s' = length (cs_buffer s') \<and>
    (\<forall>as i bs. pre @ post = as @ ALabel i # bs \<longrightarrow>
      (\<exists>a. sn_kind (cs_nodes s' a) = LabelNode \<and> sn_labelId (cs_nodes s' a) = i \<and>
        sn_calculatedOffset (cs_nodes s' a) = length (render 0 as)))"
  by (rule finalize_rep [OF assms]) (auto simp: getCurrentOffset_def)

theorem finalize_layout_witness:
  "\<exists>s'. finalize (emit8 (alignTo (fst (bindLabel (emit8 text_section 1) 7)) 4) 2) = Some s' \<and>
    cs_buffer s' = [1, 0x90, 0x90, 0x90, 2] \<and>
    (\<exists>a. sn_labelId (cs_nodes s' a) = 7 \<and> sn_calculatedOffset (cs_nodes s' a) = 1)"
proof -
  have pad: "cs_padByte (fst (bindLabel (emit8 text_section 1) 7)) = 0x90"
    by (simp add: bindLabel_def insertNodeAfter_def upd_node_def emit8_def append_bytes_def getActiveDataBuffer_def
        text_section_def new_section_def new_node_def Let_def)
  have r1: "section_rep (emit8 text_section 1) [AByte 1] []"
    using append_bytes_rep [OF text_section_rep, of "[1]"] by (simp add: emit8_def)
  have r: "section_rep (emit8 (alignTo (fst (bindLabel (emit8 text_section 1) 7)) 4) 2)
      [AByte 1, ALabel 7, AAlign 4 0x90, AByte 2] []"
    using append_bytes_rep [OF alignTo_rep [OF bindLabel_rep [OF r1]], of 7 4 "[2]", folded emit8_def, unfolded pad]
    by simp
  from finalize_layout [OF r] obtain s' where
    f: "finalize (emit8 (alignTo (fst (bindLabel (emit8 text_section 1) 7)) 4) 2) = Some s'"
      "cs_buffer s' = render 0 ([AByte 1, ALabel 7, AAlign 4 0x90, AByte 2] @ [])"
    and l: "\<And>as i bs. [AByte 1, ALabel 7, AAlign 4 0x90, AByte 2] @ [] = as @ ALabel i # bs \<Longrightarrow>
      (\<exists>a. sn_labelId (cs_nodes s' a) = i \<and> sn_calculatedOffset (cs_nodes s' a) = length (render 0 as))"
    by blast
  show ?thesis
    using l [of "[AByte 1]" 7 "[AAlign 4 0x90, AByte 2]"] f by (auto simp: pad_to_def numeral_3_eq_3)
qed

text \<open>before finalization, \<open>getCurrentOffset\<close> is the final offset of the byte emitted next
  at the cursor, whatever is emitted or already stands after it.\<close>

theorem getCurrentOffset_lands:
  assumes "section_rep s pre post" "\<not> cs_isFinalized s"
  shows "\<exists>s'. finalize (emit8 s b) = Some s' \<and> getCurrentOffset s < length (cs_buffer s') \<and>
    cs_buffer s' ! getCurrentOffset s = b \<and> take (getCurrentOffset s) (cs_buffer s') = render 0 pre"
proof -
  have off: "getCurrentOffset s = length (render 0 pre)"
    using assms by (auto simp: getCurrentOffset_def section_rep_def)
  have "section_rep (emit8 s b) (pre @ [AByte b]) post"
    using append_bytes_rep [OF assms(1), of "[b]"] by (simp add: emit8_def)
  then show ?thesis
    by (rule finalize_rep) (simp add: off nth_append)
qed

theorem getCurrentOffset_lands_witness:
  "\<exists>s'. finalize (emit8 (alignTo (emit8 text_section 1) 4) 9) = Some s' \<and>
    cs_buffer s' ! getCurrentOffset (alignTo (emit8 text_section 1) 4) = 9"
proof -
  have r1: "section_rep (emit8 text_section 1) ([] @ map AByte [1]) []"
    using append_bytes_rep [OF text_section_rep, of "[1]"] by (simp add: emit8_def)
  have "\<not> cs_isFinalized (alignTo (emit8 text_section 1) 4)"
    by (simp add: alignTo_def insertNodeAfter_def upd_node_def emit8_def append_bytes_def getActiveDataBuffer_def
        text_section_def new_section_def new_node_def Let_def)
  from getCurrentOffset_lands [OF alignTo_rep [OF r1] this, of 9] show ?thesis by auto
qed

text \<open>after \<open>alignTo n\<close> with \<open>n > 1\<close>, the current offset is the least multiple of \<open>n\<close> not
  below the previous one.\<close>

theorem alignTo_aligns:
  assumes "section_rep s pre post" "\<not> cs_isFinalized s" "1 < n"
  shows "n dvd getCurrentOffset (alignTo s n) \<and> getCurrentOffset s \<le> getCurrentOffset (alignTo s n) \<and>
    getCurrentOffset (alignTo s n) < getCurrentOffset s + n"
proof -
  obtain c where c: "cs_cursor s = Some c" using assms(1) by (auto simp: section_rep_def)
  have "\<not> cs_isFinalized (alignTo s n)"
    using assms(2) c by (auto simp: alignTo_def insertNodeAfter_def upd_node_def Let_def split: option.split)
  moreover have "cs_cursorOffset (alignTo s n) = cs_cursorOffset s + pad_to n (cs_cursorOffset s)"
    using alignTo_rep [OF assms(1), of n] assms(1) by (auto simp: section_rep_def)
  ultimately show ?thesis
    using assms(2,3) pad_to_spec [OF assms(3), of "cs_cursorOffset s"] by (simp add: getCurrentOffset_def)
qed

theorem alignTo_aligns_witness:
  "16 dvd getCurrentOffset (alignTo (emit8 text_section 1) 16)"
proof -
  have r1: "section_rep (emit8 text_section 1) ([] @ map AByte [1]) []"
    using append_bytes_rep [OF text_section_rep, of "[1]"] by (simp add: emit8_def)
  have "\<not> cs_isFinalized (emit8 text_section 1)"
    by (simp add: upd_node_def emit8_def append_bytes_def getActiveDataBuffer_def
        text_section_def new_section_def new_node_def Let_def)
  from alignTo_aligns [OF r1 this, of 16] show ?thesis by simp
qed

text \<open>C19: on a finalized section, \<open>patch32\<close> and \<open>patch64\<close> at an offset whose value fits store the
  value in the byte order of the section, keep the size and every other byte, and return true; at
  an offset that does not fit they change nothing and return false. Sizes and offsets are assumed
  below 2^63, so that the guard's addition does not wrap.\<close>

theorem patch_correct:
  assumes "cs_isFinalized s" "length (cs_buffer s) < 2 ^ 63" "unat off < 2 ^ 63"
  shows "(if unat off + 4 \<le> length (cs_buffer s)
     then \<exists>s'. patch32 s off w = Some (s', True) \<and> length (cs_buffer s') = length (cs_buffer s) \<and>
       read_word (cs_endianness s) (read_at (unat off) 4 (cs_buffer s')) = w \<and>
       (\<forall>i < length (cs_buffer s). (i < unat off \<or> unat off + 4 \<le> i) \<longrightarrow> cs_buffer s' ! i = cs_buffer s ! i)
     else patch32 s off w = Some (s, False)) \<and>
    (if unat off + 8 \<le> length (cs_buffer s)
     then \<exists>s'. patch64 s off x = Some (s', True) \<and> length (cs_buffer s') = length (cs_buffer s) \<and>
       read_word (cs_endianness s) (read_at (unat off) 8 (cs_buffer s')) = x \<and>
       (\<forall>i < length (cs_buffer s). (i < unat off \<or> unat off + 8 \<le> i) \<longrightarrow> cs_buffer s' ! i = cs_buffer s ! i)
     else patch64 s off x = Some (s, False))"
  using assms
  by (auto simp: patch32_eq patch64_eq fits_lit store_def read_word_endian_bytes nth_write_at)

theorem patch_correct_witness:
  "\<exists>s'. patch32 (text_section\<lparr>cs_isFinalized := True, cs_buffer := [0, 1, 2, 3, 4, 5]\<rparr>) 1 0xAABBCCDD = Some (s', True) \<and>
    (read_word Little (read_at 1 4 (cs_buffer s')) :: u32) = 0xAABBCCDD"
proof -
  let ?s = "text_section\<lparr>cs_isFinalized := True, cs_buffer := [0, 1, 2, 3, 4, 5]\<rparr>"
  have "cs_endianness ?s = Little" by (simp add: text_section_def new_section_def)
  with patch_correct [of ?s 1 "0xAABBCCDD" 0] show ?thesis by auto
qed

text \<open>the bounds guard of the patch operations adds in 64 bits, so an offset close to 2^64
  passes it and the store leaves the buffer.\<close>

theorem patch32_guard_wraps:
  "patch32 (text_section\<lparr>cs_isFinalized := True, cs_buffer := [0, 1, 2, 3]\<rparr>) 0xFFFFFFFFFFFFFFFE 0 = None"
  by (simp add: patch32_eq fits_def store_def)

end
