(* ===== verification/EmitterTypes.thy ===== *)
theory EmitterTypes
  imports CodeSection
begin

text \<open>
  Types shared by the encoders, the relocation resolvers and the object writers:
  \<open>EncodeResult\<close> (EzCodeEmitter/include/Encoding/EncodeResult.h) and the relocation and label
  records of EzCodeEmitter/include/CodeEmitterContext.h. Sections are identified by their type,
  as in the section map of the context; MIR references are identifiers.
\<close>

record encode_result =
  er_hasReloc :: bool
  er_relocOffset :: nat
  er_relocBits :: u8
  er_isBranch :: bool

definition encode_result_default :: encode_result where
  "encode_result_default = \<lparr>er_hasReloc = False, er_relocOffset = 0, er_relocBits = 32, er_isBranch = False\<rparr>"

datatype reloc_type = NoReloc | Absolute32 | Absolute64 | PCRel32 | BranchRel32 | GOTPCREL | PLTRel32

record code_relocation =
  rl_type :: reloc_type
  rl_section :: section_type
  rl_srcRef :: mir_id
  rl_address :: u64

text \<open>
  A 32-bit little-endian field of a text buffer: \<open>readWord\<close> and \<open>writeWord\<close> of both encoders;
  \<open>None\<close> is an access outside the buffer.
\<close>

definition readWord :: "u8 list \<Rightarrow> u64 \<Rightarrow> u32 option" where
  "readWord bytes off =
     (if unat off + 4 \<le> length bytes
      then let b = (\<lambda>i. ucast (bytes ! (unat off + i)) :: u32)
           in Some (b 0 OR push_bit 8 (b 1) OR push_bit 16 (b 2) OR push_bit 24 (b 3))
      else None)"

definition word_bytes :: "u32 \<Rightarrow> u8 list" where
  "word_bytes w =
     [ucast (w AND 0xFF), ucast (drop_bit 8 w AND 0xFF), ucast (drop_bit 16 w AND 0xFF), ucast (drop_bit 24 w AND 0xFF)]"

definition writeWord :: "u8 list \<Rightarrow> u64 \<Rightarrow> u32 \<Rightarrow> u8 list option" where
  "writeWord bytes off w = store off (word_bytes w) bytes"

lemma word_bytes_le: "word_bytes w = le_bytes 4 w"
proof -
  have m: "ucast (v AND 0xFF) = (ucast v :: u8)" for v :: u32
    by (rule bit_word_eqI) (simp add: mask_take word_bits)
  show ?thesis by (simp add: word_bytes_def m le_bytes_def upt_conv_Cons)
qed

lemma length_word_bytes [simp]: "length (word_bytes w) = 4"
  by (simp add: word_bytes_def)

lemma readWord_le:
  assumes "unat off + 4 \<le> length bytes"
  shows "readWord bytes off = Some (le_word (read_at (unat off) 4 bytes))"
proof -
  have "read_at (unat off) 4 bytes =
      [bytes ! unat off, bytes ! (unat off + 1), bytes ! (unat off + 2), bytes ! (unat off + 3)]"
    using assms by (intro read_at_eqI) (auto simp: numeral_eq_Suc less_Suc_eq)
  then show ?thesis
    using assms by (simp add: readWord_def Let_def push_bit_or)
qed

lemma readWord_in: "readWord bytes off \<noteq> None \<longleftrightarrow> unat off + 4 \<le> length bytes"
  by (simp add: readWord_def Let_def)

lemma writeWord_in:
  "unat off + 4 \<le> length bytes \<Longrightarrow> writeWord bytes off w = Some (write_at (unat off) (le_bytes 4 w) bytes)"
  by (simp add: writeWord_def store_def word_bytes_le)

text \<open>Reading back what was written.\<close>

lemma readWord_write:
  "unat off + 4 \<le> length bytes \<Longrightarrow> readWord (write_at (unat off) (le_bytes 4 w) bytes) off = Some w"
  by (simp add: readWord_le le_word_le_bytes_full)

lemma readWord_0: "readWord (le_bytes 4 w) 0 = Some w"
  using readWord_write [of 0 "le_bytes 4 w" w] by (simp add: write_at_def)

lemma readWord_at:
  "o1 + 4 \<le> length code \<Longrightarrow> length code < 2 ^ 64 \<Longrightarrow> read_at o1 4 code = le_bytes 4 w \<Longrightarrow>
   readWord code (of_nat o1) = Some w"
  by (simp add: readWord_le unat_of_nat le_word_le_bytes_full)

end
