(* ===== verification/RiscV64Encoder.thy ===== *)
theory RiscV64Encoder
  imports EmitterTypes
begin

text \<open>
  The RISC-V 64 instruction encoder (EzTargets/RiscV64/src/Encoding/RiscV64InstructionEncoder.cpp,
  with the descriptors of include/Encoding/RiscV64EncodingDesc.h). The table-driven encoder, the
  branch emitters, the branch classifier and the in-place displacement patches are followed by a
  decoder written from the instruction formats; the lemmas show that decoding an encoded
  instruction gives back its fields, and that a patch changes the displacement and nothing else.
\<close>

section \<open>Descriptors and operands\<close>

datatype rv_slot_kind =
  NoSlot | Rd | Rs1 | Rs2 | Rs3 | Imm12Signed | Imm12Store | Imm12Branch | Imm20Upper | Imm20Jump
  | Shamt5 | Shamt6 | Rel | Csr

datatype rv_form = NoForm | RType | IType | SType | BType | UType | JType | Pseudo

datatype rv_reg_class = GPR | FPR | VR | AnyReg

record rv_binding =
  rb_slot :: rv_slot_kind
  rb_operandIndex :: u8
  rb_regClass :: rv_reg_class

text \<open>\<open>rd_operands\<close> is the array of four bindings, of which \<open>rd_operandCount\<close> are read.\<close>

record rv_desc =
  rd_form :: rv_form
  rd_opcode :: u8
  rd_funct3 :: u8
  rd_funct7 :: u8
  rd_operandCount :: u8
  rd_operands :: "rv_binding list"
  rd_relocOperand :: u8

record rv_memory =
  rm_base :: u8
  rm_disp :: u64
  rm_needsReloc :: bool

datatype rv_operand_kind = NoOperand | Register | Immediate | Memory

record rv_operand =
  ro_kind :: rv_operand_kind
  ro_reg :: u8
  ro_isFpr :: bool
  ro_isVr :: bool
  ro_sizeBytes :: u8
  ro_imm :: u64
  ro_mem :: rv_memory
  ro_needsReloc :: bool

section \<open>Immediates\<close>

definition encodeBImm :: "u32 \<Rightarrow> u32" where
  "encodeBImm imm =
     (let imm12 = drop_bit 12 imm AND 0x1;
          imm10_5 = drop_bit 5 imm AND 0x3F;
          imm4_1 = drop_bit 1 imm AND 0xF;
          imm11 = drop_bit 11 imm AND 0x1
      in push_bit 31 imm12 OR push_bit 25 imm10_5 OR push_bit 8 imm4_1 OR push_bit 7 imm11)"

definition encodeJImm :: "u32 \<Rightarrow> u32" where
  "encodeJImm imm =
     (let imm20 = drop_bit 20 imm AND 0x1;
          imm10_1 = drop_bit 1 imm AND 0x3FF;
          imm11 = drop_bit 11 imm AND 0x1;
          imm19_12 = drop_bit 12 imm AND 0xFF
      in push_bit 31 imm20 OR push_bit 21 imm10_1 OR push_bit 20 imm11 OR push_bit 12 imm19_12)"

section \<open>The table-driven encoder\<close>

record rv_fields =
  f_rd :: u8
  f_rs1 :: u8
  f_rs2 :: u8
  f_rs3 :: u8
  f_imm :: u64
  f_hasReloc :: bool

text \<open>The two groups of immediate slots; a memory operand supplies its displacement.\<close>

definition bind_imm :: "rv_operand \<Rightarrow> rv_fields \<Rightarrow> rv_fields" where
  "bind_imm oper f =
     (if ro_kind oper = Memory
      then f\<lparr>f_imm := rm_disp (ro_mem oper), f_hasReloc := f_hasReloc f \<or> rm_needsReloc (ro_mem oper)\<rparr>
      else f\<lparr>f_imm := ro_imm oper, f_hasReloc := f_hasReloc f \<or> ro_needsReloc oper\<rparr>)"

definition bind_slot :: "rv_desc \<Rightarrow> rv_operand list \<Rightarrow> rv_binding \<Rightarrow> rv_fields \<Rightarrow> rv_fields" where
  "bind_slot desc operands binding f =
     (if unat (rb_operandIndex binding) \<ge> length operands then f
      else let oper = operands ! unat (rb_operandIndex binding)
      in (case rb_slot binding of
            Rd \<Rightarrow> f\<lparr>f_rd := ro_reg oper AND 0x1F\<rparr>
          | Rs1 \<Rightarrow>
              (if ro_kind oper = Memory
               then f\<lparr>f_rs1 := rm_base (ro_mem oper) AND 0x1F, f_imm := rm_disp (ro_mem oper),
                      f_hasReloc := f_hasReloc f \<or> rm_needsReloc (ro_mem oper)\<rparr>
               else f\<lparr>f_rs1 := ro_reg oper AND 0x1F\<rparr>)
          | Rs2 \<Rightarrow> f\<lparr>f_rs2 := ro_reg oper AND 0x1F\<rparr>
          | Rs3 \<Rightarrow> f\<lparr>f_rs3 := ro_reg oper AND 0x1F\<rparr>
          | Imm12Signed \<Rightarrow> bind_imm oper f
          | Imm12Store \<Rightarrow> bind_imm oper f
          | Shamt5 \<Rightarrow> bind_imm oper f
          | Shamt6 \<Rightarrow> bind_imm oper f
          | Csr \<Rightarrow> bind_imm oper f
          | Imm12Branch \<Rightarrow> f\<lparr>f_imm := ro_imm oper,
              f_hasReloc := ro_needsReloc oper \<or> rb_operandIndex binding = rd_relocOperand desc\<rparr>
          | Imm20Jump \<Rightarrow> f\<lparr>f_imm := ro_imm oper,
              f_hasReloc := ro_needsReloc oper \<or> rb_operandIndex binding = rd_relocOperand desc\<rparr>
          | Rel \<Rightarrow> f\<lparr>f_imm := ro_imm oper,
              f_hasReloc := ro_needsReloc oper \<or> rb_operandIndex binding = rd_relocOperand desc\<rparr>
          | Imm20Upper \<Rightarrow> f\<lparr>f_imm := ro_imm oper, f_hasReloc := f_hasReloc f \<or> ro_needsReloc oper\<rparr>
          | NoSlot \<Rightarrow> f))"

definition rType :: "u8 \<Rightarrow> u8 \<Rightarrow> u8 \<Rightarrow> u8 \<Rightarrow> u8 \<Rightarrow> u8 \<Rightarrow> u32" where
  "rType funct7 rs2 rs1 funct3 rd opcode =
     push_bit 25 (ucast funct7 AND 0x7F) OR push_bit 20 (ucast rs2 AND 0x1F) OR push_bit 15 (ucast rs1 AND 0x1F)
     OR push_bit 12 (ucast funct3 AND 0x7) OR push_bit 7 (ucast rd AND 0x1F) OR (ucast opcode AND 0x7F)"

definition iType :: "u8 \<Rightarrow> u64 \<Rightarrow> u8 \<Rightarrow> u8 \<Rightarrow> u8 \<Rightarrow> u8 \<Rightarrow> u32" where
  "iType funct7 imm rs1 funct3 rd opcode =
     (let imm12 = ucast imm AND 0xFFF;
          word = push_bit 20 imm12 OR push_bit 15 (ucast rs1 AND 0x1F) OR push_bit 12 (ucast funct3 AND 0x7)
            OR push_bit 7 (ucast rd AND 0x1F) OR (ucast opcode AND 0x7F)
      in if funct7 \<noteq> 0 then word OR push_bit 25 (ucast funct7 AND 0x7F) else word)"

definition sType :: "u64 \<Rightarrow> u8 \<Rightarrow> u8 \<Rightarrow> u8 \<Rightarrow> u8 \<Rightarrow> u32" where
  "sType imm rs2 rs1 funct3 opcode =
     (let imm12 = ucast imm AND 0xFFF;
          imm11_5 = drop_bit 5 imm12 AND 0x7F;
          imm4_0 = imm12 AND 0x1F
      in push_bit 25 imm11_5 OR push_bit 20 (ucast rs2 AND 0x1F) OR push_bit 15 (ucast rs1 AND 0x1F)
         OR push_bit 12 (ucast funct3 AND 0x7) OR push_bit 7 imm4_0 OR (ucast opcode AND 0x7F))"

definition bType :: "u64 \<Rightarrow> u8 \<Rightarrow> u8 \<Rightarrow> u8 \<Rightarrow> u8 \<Rightarrow> u32" where
  "bType imm rs2 rs1 funct3 opcode =
     encodeBImm (ucast imm) OR push_bit 20 (ucast rs2 AND 0x1F) OR push_bit 15 (ucast rs1 AND 0x1F)
     OR push_bit 12 (ucast funct3 AND 0x7) OR (ucast opcode AND 0x7F)"

definition uType :: "u64 \<Rightarrow> u8 \<Rightarrow> u8 \<Rightarrow> u32" where
  "uType imm rd opcode =
     (let uval = (if (ucast imm :: u32) \<le> 0xFFFFF then push_bit 12 (ucast imm AND 0xFFFFF) else ucast imm AND 0xFFFFF000)
      in uval OR push_bit 7 (ucast rd AND 0x1F) OR (ucast opcode AND 0x7F))"

definition jType :: "u64 \<Rightarrow> u8 \<Rightarrow> u8 \<Rightarrow> u32" where
  "jType imm rd opcode = encodeJImm (ucast imm) OR push_bit 7 (ucast rd AND 0x1F) OR (ucast opcode AND 0x7F)"

definition form_word :: "rv_desc \<Rightarrow> rv_fields \<Rightarrow> u32 option" where
  "form_word desc f =
     (case rd_form desc of
        RType \<Rightarrow> Some (rType (rd_funct7 desc) (f_rs2 f) (f_rs1 f) (rd_funct3 desc) (f_rd f) (rd_opcode desc))
      | IType \<Rightarrow> Some (iType (rd_funct7 desc) (f_imm f) (f_rs1 f) (rd_funct3 desc) (f_rd f) (rd_opcode desc))
      | SType \<Rightarrow> Some (sType (f_imm f) (f_rs2 f) (f_rs1 f) (rd_funct3 desc) (rd_opcode desc))
      | BType \<Rightarrow> Some (bType (f_imm f) (f_rs2 f) (f_rs1 f) (rd_funct3 desc) (rd_opcode desc))
      | UType \<Rightarrow> Some (uType (f_imm f) (f_rd f) (rd_opcode desc))
      | JType \<Rightarrow> Some (jType (f_imm f) (f_rd f) (rd_opcode desc))
      | NoForm \<Rightarrow> None
      | Pseudo \<Rightarrow> None)"

text \<open>The fixed words of the system and fence pseudo-instructions.\<close>

definition pseudo_word :: "rv_desc \<Rightarrow> u32 option" where
  "pseudo_word desc =
     (if rd_opcode desc = 0 \<and> rd_funct3 desc = 0 \<and> rd_operandCount desc = 0 then Some 0x00008067
      else if rd_opcode desc = 0x73 then
        (if rd_funct3 desc = 0 \<and> rd_funct7 desc = 0x00 then Some 0x00000073
         else if rd_funct3 desc = 0 \<and> rd_funct7 desc = 0x01 then Some 0x00100073
         else if rd_funct3 desc = 0 \<and> rd_funct7 desc = 0x02 then Some 0x00200073
         else if rd_funct3 desc = 0x02 \<and> rd_funct7 desc = 0x08 then Some 0x10200073
         else if rd_funct3 desc = 0x02 \<and> rd_funct7 desc = 0x18 then Some 0x30200073
         else if rd_funct3 desc = 0x05 \<and> rd_funct7 desc = 0x08 then Some 0x10500073
         else None)
      else if rd_opcode desc = 0x0F then
        (if rd_funct3 desc = 0 then Some 0x0FF0000F
         else if rd_funct3 desc = 1 then Some 0x0000100F
         else None)
      else None)"

definition encode_pseudo :: "rv_desc \<Rightarrow> rv_operand list \<Rightarrow> u8 list \<Rightarrow> bool \<times> u8 list \<times> encode_result" where
  "encode_pseudo desc operands out =
     (case pseudo_word desc of
        Some w \<Rightarrow> (True, out @ word_bytes w, encode_result_default)
      | None \<Rightarrow>
        if rd_relocOperand desc \<noteq> 0xFF \<or> (operands \<noteq> [] \<and> ro_needsReloc (operands ! 0))
        then (True, out @ word_bytes (push_bit 7 1 OR 0x6F),
              encode_result_default\<lparr>er_hasReloc := True, er_relocOffset := 0, er_relocBits := 32, er_isBranch := True\<rparr>)
        else (False, out, encode_result_default))"

text \<open>\<open>None\<close> is a read past the descriptor's array of bindings.\<close>

definition rv_encode :: "rv_desc \<Rightarrow> rv_operand list \<Rightarrow> u8 list \<Rightarrow> (bool \<times> u8 list \<times> encode_result) option" where
  "rv_encode desc operands out =
     (if rd_form desc = NoForm then Some (False, out, encode_result_default)
      else if rd_form desc = Pseudo then Some (encode_pseudo desc operands out)
      else if unat (rd_operandCount desc) > length (rd_operands desc) then None
      else
        let f0 = \<lparr>f_rd = 0, f_rs1 = 0, f_rs2 = 0, f_rs3 = 0, f_imm = 0, f_hasReloc = False\<rparr>;
            f = fold (bind_slot desc operands) (take (unat (rd_operandCount desc)) (rd_operands desc)) f0
        in (case form_word desc f of
              None \<Rightarrow> Some (False, out, encode_result_default)
            | Some word \<Rightarrow>
                Some (True, out @ word_bytes word,
                  if f_hasReloc f
                  then encode_result_default\<lparr>er_hasReloc := True, er_relocOffset := 0, er_relocBits := 32,
                    er_isBranch := (rd_form desc = BType \<or> rd_form desc = JType)\<rparr>
                  else encode_result_default)))"

section \<open>Moves and branches\<close>

definition rv_encodeRegisterMove :: "rv_operand \<Rightarrow> rv_operand \<Rightarrow> u8 list \<Rightarrow> u8 list" where
  "rv_encodeRegisterMove dst src out =
     (let rd = ucast (ro_reg dst AND 0x1F) :: u32; rs = ucast (ro_reg src AND 0x1F) :: u32
      in if ro_isVr dst \<or> ro_isVr src then
           out @ word_bytes (push_bit 25 0x2F OR push_bit 20 0 OR push_bit 15 rs OR push_bit 12 0 OR push_bit 7 rd OR 0x57)
         else if ro_isFpr dst \<or> ro_isFpr src then
           let funct7 = (if ro_sizeBytes dst \<le> 4 \<and> ro_sizeBytes src \<le> 4 then 0x10 else 0x11)
           in out @ word_bytes (push_bit 25 funct7 OR push_bit 20 rs OR push_bit 15 rs OR push_bit 12 0 OR push_bit 7 rd OR 0x53)
         else
           out @ word_bytes (push_bit 20 0 OR push_bit 15 rs OR push_bit 12 0 OR push_bit 7 rd OR 0x13))"

definition jal_word :: "u8 \<Rightarrow> u32 \<Rightarrow> u32" where
  "jal_word rd off = encodeJImm off OR push_bit 7 (ucast rd AND 0x1F) OR 0x6F"

definition emitJal :: "u8 list \<Rightarrow> u8 \<Rightarrow> u32 \<Rightarrow> u8 list" where
  "emitJal out rd off = out @ word_bytes (jal_word rd off)"

definition branch_word :: "u8 \<Rightarrow> u8 \<Rightarrow> u8 \<Rightarrow> u32 \<Rightarrow> u32" where
  "branch_word funct3 rs1 rs2 off =
     encodeBImm off OR push_bit 20 (ucast rs2 AND 0x1F) OR push_bit 15 (ucast rs1 AND 0x1F)
     OR push_bit 12 (ucast funct3 AND 0x7) OR 0x63"

definition emitBranch :: "u8 list \<Rightarrow> u8 \<Rightarrow> u8 \<Rightarrow> u8 \<Rightarrow> u32 \<Rightarrow> u8 list" where
  "emitBranch out funct3 rs1 rs2 off = out @ word_bytes (branch_word funct3 rs1 rs2 off)"

section \<open>Classification and patching\<close>

text \<open>The out-parameters of \<open>classifyBranch\<close> when it returns true.\<close>

datatype rv_branch =
    IsJal (bc_rd: u8)
  | IsBranch (bc_funct3: u8) (bc_rs1: u8) (bc_rs2: u8)

definition classify_word :: "u32 \<Rightarrow> rv_branch option" where
  "classify_word word =
     (let opcode = ucast (word AND 0x7F) :: u8
      in if opcode = 0x6F then Some (IsJal (ucast (drop_bit 7 word AND 0x1F)))
         else if opcode = 0x63 then
           Some (IsBranch (ucast (drop_bit 12 word AND 0x7)) (ucast (drop_bit 15 word AND 0x1F)) (ucast (drop_bit 20 word AND 0x1F)))
         else None)"

text \<open>The outer \<open>None\<close> is a read outside the buffer, the inner one the result false.\<close>

definition classifyBranch :: "u8 list \<Rightarrow> u64 \<Rightarrow> rv_branch option option" where
  "classifyBranch bytes off =
     (if \<not> fits off 4 bytes then Some None else map_option classify_word (readWord bytes off))"

definition patch_word :: "(u32 \<Rightarrow> u32) \<Rightarrow> u8 list \<Rightarrow> u64 \<Rightarrow> (u8 list \<times> bool) option" where
  "patch_word f bytes off =
     (if \<not> fits off 4 bytes then Some (bytes, False)
      else (case readWord bytes off of None \<Rightarrow> None
            | Some word \<Rightarrow> map_option (\<lambda>b. (b, True)) (writeWord bytes off (f word))))"

definition patchBranchDisp :: "u8 list \<Rightarrow> u64 \<Rightarrow> u32 \<Rightarrow> (u8 list \<times> bool) option" where
  "patchBranchDisp bytes off disp = patch_word (\<lambda>word. (word AND NOT 0xFE000F80) OR encodeBImm disp) bytes off"

definition patchJalDisp :: "u8 list \<Rightarrow> u64 \<Rightarrow> u32 \<Rightarrow> (u8 list \<times> bool) option" where
  "patchJalDisp bytes off disp = patch_word (\<lambda>word. (word AND NOT 0xFFFFF000) OR encodeJImm disp) bytes off"

definition rv_writeDisp32 :: "u8 list \<Rightarrow> u64 \<Rightarrow> u32 \<Rightarrow> (u8 list \<times> bool) option" where
  "rv_writeDisp32 bytes off val =
     (if \<not> fits off 4 bytes then Some (bytes, False)
      else map_option (\<lambda>b. (b, True)) (writeWord bytes off val))"

section \<open>Decoding\<close>

text \<open>The fields of an instruction word as the RISC-V formats define them; the immediates are
  sign-extended to 32 bits.\<close>

definition dec_opcode :: "u32 \<Rightarrow> u32" where "dec_opcode w = take_bit 7 w"
definition dec_rd :: "u32 \<Rightarrow> u32" where "dec_rd w = take_bit 5 (drop_bit 7 w)"
definition dec_funct3 :: "u32 \<Rightarrow> u32" where "dec_funct3 w = take_bit 3 (drop_bit 12 w)"
definition dec_rs1 :: "u32 \<Rightarrow> u32" where "dec_rs1 w = take_bit 5 (drop_bit 15 w)"
definition dec_rs2 :: "u32 \<Rightarrow> u32" where "dec_rs2 w = take_bit 5 (drop_bit 20 w)"
definition dec_funct7 :: "u32 \<Rightarrow> u32" where "dec_funct7 w = take_bit 7 (drop_bit 25 w)"
definition dec_iimm :: "u32 \<Rightarrow> u32" where "dec_iimm w = signed_take_bit 11 (drop_bit 20 w)"
definition dec_uimm :: "u32 \<Rightarrow> u32" where "dec_uimm w = push_bit 12 (drop_bit 12 w)"

definition dec_simm :: "u32 \<Rightarrow> u32" where
  "dec_simm w = signed_take_bit 11 (push_bit 5 (take_bit 7 (drop_bit 25 w)) OR take_bit 5 (drop_bit 7 w))"

definition dec_bimm :: "u32 \<Rightarrow> u32" where
  "dec_bimm w = signed_take_bit 12
     (push_bit 12 (take_bit 1 (drop_bit 31 w)) OR push_bit 11 (take_bit 1 (drop_bit 7 w))
      OR push_bit 5 (take_bit 6 (drop_bit 25 w)) OR push_bit 1 (take_bit 4 (drop_bit 8 w)))"

definition dec_jimm :: "u32 \<Rightarrow> u32" where
  "dec_jimm w = signed_take_bit 20
     (push_bit 20 (take_bit 1 (drop_bit 31 w)) OR push_bit 12 (take_bit 8 (drop_bit 12 w))
      OR push_bit 11 (take_bit 1 (drop_bit 20 w)) OR push_bit 1 (take_bit 10 (drop_bit 21 w)))"

lemmas dec_defs = dec_opcode_def dec_rd_def dec_funct3_def dec_rs1_def dec_rs2_def dec_funct7_def dec_iimm_def
  dec_uimm_def dec_simm_def dec_bimm_def dec_jimm_def

text \<open>A zero \<open>funct7\<close> contributes nothing, so the test for it may be dropped.\<close>

lemma iType_eq:
  "iType funct7 imm rs1 funct3 rd opcode =
     push_bit 20 (ucast imm AND 0xFFF) OR push_bit 15 (ucast rs1 AND 0x1F) OR push_bit 12 (ucast funct3 AND 0x7)
     OR push_bit 7 (ucast rd AND 0x1F) OR (ucast opcode AND 0x7F) OR push_bit 25 (ucast funct7 AND 0x7F)"
  by (simp add: iType_def Let_def or.assoc)

lemmas enc_defs = encodeBImm_def encodeJImm_def rType_def iType_eq sType_def bType_def uType_def jType_def
  jal_word_def branch_word_def

text \<open>A constant opcode contributes its seven bits.\<close>

lemma opcode_lit: "0x6F = ucast (0x6F :: u8) AND (0x7F :: u32)" "0x63 = ucast (0x63 :: u8) AND (0x7F :: u32)"
  by simp_all

lemma jal_word_jType: "jal_word rd off = jType (ucast off) rd 0x6F"
  unfolding jal_word_def jType_def opcode_lit(1) by simp

lemma branch_word_bType: "branch_word f3 rs1 rs2 off = bType (ucast off) rs2 rs1 f3 0x63"
  unfolding branch_word_def bType_def opcode_lit(2) by simp

text \<open>The rules that evaluate a field of a word bit by bit.\<close>

lemmas field_calc = all_less_32 dec_defs enc_defs Let_def mask_take word_bits len_of_numeral_defs

lemma rType_fields:
  "dec_opcode (rType f7 rs2 rs1 f3 rd op) = take_bit 7 (ucast op)"
  "dec_rd (rType f7 rs2 rs1 f3 rd op) = take_bit 5 (ucast rd)"
  "dec_funct3 (rType f7 rs2 rs1 f3 rd op) = take_bit 3 (ucast f3)"
  "dec_rs1 (rType f7 rs2 rs1 f3 rd op) = take_bit 5 (ucast rs1)"
  "dec_rs2 (rType f7 rs2 rs1 f3 rd op) = take_bit 5 (ucast rs2)"
  "dec_funct7 (rType f7 rs2 rs1 f3 rd op) = take_bit 7 (ucast f7)"
  by (rule word32_eqI, simp only: field_calc, simp del: bit_0 add: bit_1_iff flip: One_nat_def)+

lemma iType_fields:
  "dec_opcode (iType f7 imm rs1 f3 rd op) = take_bit 7 (ucast op)"
  "dec_rd (iType f7 imm rs1 f3 rd op) = take_bit 5 (ucast rd)"
  "dec_funct3 (iType f7 imm rs1 f3 rd op) = take_bit 3 (ucast f3)"
  "dec_rs1 (iType f7 imm rs1 f3 rd op) = take_bit 5 (ucast rs1)"
  "dec_iimm (iType 0 imm rs1 f3 rd op) = signed_take_bit 11 (ucast imm)"
  by (rule word32_eqI, simp only: field_calc, simp del: bit_0 add: bit_1_iff flip: One_nat_def)+

lemma sType_fields:
  "dec_opcode (sType imm rs2 rs1 f3 op) = take_bit 7 (ucast op)"
  "dec_funct3 (sType imm rs2 rs1 f3 op) = take_bit 3 (ucast f3)"
  "dec_rs1 (sType imm rs2 rs1 f3 op) = take_bit 5 (ucast rs1)"
  "dec_rs2 (sType imm rs2 rs1 f3 op) = take_bit 5 (ucast rs2)"
  "dec_simm (sType imm rs2 rs1 f3 op) = signed_take_bit 11 (ucast imm)"
  by (rule word32_eqI, simp only: field_calc, simp del: bit_0 add: bit_1_iff flip: One_nat_def)+

lemma bType_fields:
  "dec_opcode (bType imm rs2 rs1 f3 op) = take_bit 7 (ucast op)"
  "dec_funct3 (bType imm rs2 rs1 f3 op) = take_bit 3 (ucast f3)"
  "dec_rs1 (bType imm rs2 rs1 f3 op) = take_bit 5 (ucast rs1)"
  "dec_rs2 (bType imm rs2 rs1 f3 op) = take_bit 5 (ucast rs2)"
  "dec_bimm (bType imm rs2 rs1 f3 op) = signed_take_bit 12 (ucast imm AND NOT 1)"
  by (rule word32_eqI, simp only: field_calc, simp del: bit_0 add: bit_1_iff flip: One_nat_def)+

lemma jType_fields:
  "dec_opcode (jType imm rd op) = take_bit 7 (ucast op)"
  "dec_rd (jType imm rd op) = take_bit 5 (ucast rd)"
  "dec_jimm (jType imm rd op) = signed_take_bit 20 (ucast imm AND NOT 1)"
  by (rule word32_eqI, simp only: field_calc, simp del: bit_0 add: bit_1_iff flip: One_nat_def)+

lemma uType_fields:
  "dec_opcode (uType imm rd op) = take_bit 7 (ucast op)"
  "dec_rd (uType imm rd op) = take_bit 5 (ucast rd)"
  "dec_uimm (uType imm rd op) =
     (if (ucast imm :: u32) \<le> 0xFFFFF then push_bit 12 (ucast imm) else ucast imm AND 0xFFFFF000)"
proof -
  have m: "(0xFFFFF000 :: u32) = push_bit 12 (mask 20)" by (simp add: mask_eq_exp_minus_1 push_bit_eq_mult)
  define v :: u32 where "v = (if (ucast imm :: u32) \<le> 0xFFFFF then push_bit 12 (ucast imm AND 0xFFFFF) else ucast imm AND 0xFFFFF000)"
  have v: "uType imm rd op = v OR push_bit 7 (ucast rd AND 0x1F) OR (ucast op AND 0x7F)"
    by (simp add: uType_def v_def Let_def)
  have low: "\<not> bit v n" if "n < 12" for n
    using that by (simp add: v_def m word_bits)
  have shape: "bit v n \<Longrightarrow> 12 \<le> n \<and> bit v (12 + (n - 12))" for n
    using low [of n] by (cases "n < 12") auto
  have high: "v = (if (ucast imm :: u32) \<le> 0xFFFFF then push_bit 12 (ucast imm) else ucast imm AND 0xFFFFF000)"
  proof -
    have "push_bit 12 (ucast imm AND 0xFFFFF) = (push_bit 12 (ucast imm) :: u32)"
      by (rule bit_word_eqI) (auto simp: mask_take word_bits)
    then show ?thesis by (simp add: v_def)
  qed
  show "dec_opcode (uType imm rd op) = take_bit 7 (ucast op)" "dec_rd (uType imm rd op) = take_bit 5 (ucast rd)"
    "dec_uimm (uType imm rd op) = (if (ucast imm :: u32) \<le> 0xFFFFF then push_bit 12 (ucast imm) else ucast imm AND 0xFFFFF000)"
    unfolding v high [symmetric]
    by (rule bit_word_eqI; use low shape in \<open>auto simp: dec_opcode_def dec_rd_def dec_uimm_def mask_take word_bits\<close>)+
qed

text \<open>Displacements a branch or a jump can hold.\<close>

definition b_range :: "u32 \<Rightarrow> bool" where
  "b_range d \<longleftrightarrow> even (sint d) \<and> - 4096 \<le> sint d \<and> sint d \<le> 4094"

definition j_range :: "u32 \<Rightarrow> bool" where
  "j_range d \<longleftrightarrow> even (sint d) \<and> - 1048576 \<le> sint d \<and> sint d \<le> 1048574"

lemma b_range_take: "b_range d \<Longrightarrow> signed_take_bit 12 (d AND NOT 1) = d"
  using clear_bit0 [of d] signed_take_range [of 12 d] by (simp add: b_range_def)

lemma j_range_take: "j_range d \<Longrightarrow> signed_take_bit 20 (d AND NOT 1) = d"
  using clear_bit0 [of d] signed_take_range [of 20 d] by (simp add: j_range_def)

lemma branch_word_fields:
  "dec_opcode (branch_word f3 rs1 rs2 d) = 0x63" "dec_funct3 (branch_word f3 rs1 rs2 d) = take_bit 3 (ucast f3)"
  "dec_rs1 (branch_word f3 rs1 rs2 d) = take_bit 5 (ucast rs1)" "dec_rs2 (branch_word f3 rs1 rs2 d) = take_bit 5 (ucast rs2)"
  "dec_bimm (branch_word f3 rs1 rs2 d) = signed_take_bit 12 (d AND NOT 1)"
  by (simp_all add: branch_word_bType bType_fields)

lemma jal_word_fields:
  "dec_opcode (jal_word rd d) = 0x6F" "dec_rd (jal_word rd d) = take_bit 5 (ucast rd)"
  "dec_jimm (jal_word rd d) = signed_take_bit 20 (d AND NOT 1)"
  by (simp_all add: jal_word_jType jType_fields)

section \<open>Patched words\<close>

text \<open>The two clearing masks, as ranges of bits.\<close>

lemma patch_masks:
  "(0xFE000F80 :: u32) = push_bit 25 (mask 7) OR push_bit 7 (mask 5)"
  "(0xFFFFF000 :: u32) = push_bit 12 (mask 20)"
  by (simp_all add: mask_eq_exp_minus_1 push_bit_eq_mult)

lemma patch_branch_fields:
  fixes w d :: u32
  defines "w' \<equiv> (w AND NOT 0xFE000F80) OR encodeBImm d"
  shows "dec_opcode w' = dec_opcode w" "dec_funct3 w' = dec_funct3 w" "dec_rs1 w' = dec_rs1 w" "dec_rs2 w' = dec_rs2 w"
    "dec_bimm w' = signed_take_bit 12 (d AND NOT 1)"
  unfolding w'_def patch_masks
  by (rule word32_eqI, simp only: field_calc, simp del: bit_0 add: bit_1_iff flip: One_nat_def)+

lemma patch_jal_fields:
  fixes w d :: u32
  defines "w' \<equiv> (w AND NOT 0xFFFFF000) OR encodeJImm d"
  shows "dec_opcode w' = dec_opcode w" "dec_rd w' = dec_rd w" "dec_jimm w' = signed_take_bit 20 (d AND NOT 1)"
  unfolding w'_def patch_masks
  by (rule word32_eqI, simp only: field_calc, simp del: bit_0 add: bit_1_iff flip: One_nat_def)+

text \<open>The classifier reads the same fields.\<close>

lemma ucast8_inj: "unat x < 256 \<Longrightarrow> unat y < 256 \<Longrightarrow> (ucast x :: u8) = ucast y \<longleftrightarrow> x = y" for x y :: u32
proof -
  assume "unat x < 256" "unat y < 256"
  then have "unat (ucast x :: u8) = unat x" "unat (ucast y :: u8) = unat y"
    by (simp_all add: unsigned_ucast_eq take_bit_nat_eq_self)
  then show ?thesis by (metis word_unat_eq_iff)
qed

lemma dec_opcode_less: "unat (dec_opcode w) < 128"
  using take_bit_nat_less_exp [of 7 "unat w"] by (simp add: dec_opcode_def unsigned_take_bit_eq)

lemma classify_word_dec:
  "classify_word w =
     (if dec_opcode w = 0x6F then Some (IsJal (ucast (dec_rd w)))
      else if dec_opcode w = 0x63 then Some (IsBranch (ucast (dec_funct3 w)) (ucast (dec_rs1 w)) (ucast (dec_rs2 w)))
      else None)"
proof -
  have "(ucast (dec_opcode w) :: u8) = 0x6F \<longleftrightarrow> dec_opcode w = 0x6F" "(ucast (dec_opcode w) :: u8) = 0x63 \<longleftrightarrow> dec_opcode w = 0x63"
    using ucast8_inj [of "dec_opcode w" "0x6F"] ucast8_inj [of "dec_opcode w" "0x63"] dec_opcode_less [of w] by simp_all
  moreover have "ucast (w AND 0x7F) = (ucast (dec_opcode w) :: u8)" by (simp add: mask_take dec_opcode_def)
  ultimately show ?thesis
    by (simp add: classify_word_def Let_def mask_take dec_rd_def dec_funct3_def dec_rs1_def dec_rs2_def)
qed

section \<open>Binding operands to slots\<close>

definition no_fields :: rv_fields where
  "no_fields = \<lparr>f_rd = 0, f_rs1 = 0, f_rs2 = 0, f_rs3 = 0, f_imm = 0, f_hasReloc = False\<rparr>"

definition bound_fields :: "rv_desc \<Rightarrow> rv_operand list \<Rightarrow> rv_fields" where
  "bound_fields desc operands =
     fold (bind_slot desc operands) (take (unat (rd_operandCount desc)) (rd_operands desc)) no_fields"

definition small_regs :: "rv_fields \<Rightarrow> bool" where
  "small_regs f \<longleftrightarrow> take_bit 5 (f_rd f) = f_rd f \<and> take_bit 5 (f_rs1 f) = f_rs1 f \<and> take_bit 5 (f_rs2 f) = f_rs2 f"

lemma bind_slot_small: "small_regs f \<Longrightarrow> small_regs (bind_slot desc operands b f)"
  by (auto simp: bind_slot_def bind_imm_def small_regs_def mask_take Let_def take_bit_take_bit split: rv_slot_kind.split)

lemma bound_fields_small: "small_regs (bound_fields desc operands)"
proof -
  have "small_regs (fold (bind_slot desc operands) bs f)" if "small_regs f" for bs f
    using that by (induction bs arbitrary: f) (simp_all add: bind_slot_small)
  then show ?thesis by (simp add: bound_fields_def no_fields_def small_regs_def)
qed

lemma ucast_take: "n \<le> 8 \<Longrightarrow> (ucast (take_bit n (ucast r :: u32)) :: u8) = take_bit n r" for r :: u8
  by (rule bit_word_eqI) (auto simp: word_bits)

lemma ucast_small: "take_bit 5 r = r \<Longrightarrow> take_bit 5 (ucast r :: u32) = ucast r" for r :: u8
  by (rule bit_word_eqI) (auto simp: word_bits, metis bit_take_bit_iff)

lemma rv_encode_word:
  assumes "form_word desc (bound_fields desc operands) = Some w" "unat (rd_operandCount desc) \<le> length (rd_operands desc)"
  shows "\<exists>res. rv_encode desc operands out = Some (True, out @ le_bytes 4 w, res) \<and>
    (er_hasReloc res \<longleftrightarrow> f_hasReloc (bound_fields desc operands)) \<and>
    (er_isBranch res \<longleftrightarrow> er_hasReloc res \<and> rd_form desc \<in> {BType, JType})"
proof -
  have "rd_form desc \<noteq> NoForm" "rd_form desc \<noteq> Pseudo" using assms(1) by (auto simp: form_word_def)
  then show ?thesis
    using assms by (simp add: rv_encode_def bound_fields_def no_fields_def word_bytes_le encode_result_default_def)
qed

lemma emit_words:
  "emitJal out rd off = out @ le_bytes 4 (jal_word rd off)"
  "emitBranch out f3 rs1 rs2 off = out @ le_bytes 4 (branch_word f3 rs1 rs2 off)"
  by (simp_all add: emitJal_def emitBranch_def word_bytes_le)

lemma patch_word_in:
  assumes "length bytes < 2 ^ 63" "unat off + 4 \<le> length bytes"
  shows "\<exists>w. readWord bytes off = Some w \<and>
    patch_word f bytes off = Some (write_at (unat off) (le_bytes 4 (f w)) bytes, True)"
  using assms by (auto simp: patch_word_def fits_lit readWord_le writeWord_in)

lemma patch_word_out:
  "length bytes < 2 ^ 63 \<Longrightarrow> unat off < 2 ^ 63 \<Longrightarrow> \<not> unat off + 4 \<le> length bytes \<Longrightarrow> patch_word f bytes off = Some (bytes, False)"
  by (simp add: patch_word_def fits_lit)

lemma patch_in:
  assumes "length bytes < 2 ^ 63" "unat off + 4 \<le> length bytes"
  shows "\<exists>w b. readWord bytes off = Some w \<and> patch_word f bytes off = Some (b, True) \<and> readWord b off = Some (f w) \<and>
    length b = length bytes \<and>
    (\<forall>i < length bytes. (i < unat off \<or> unat off + 4 \<le> i) \<longrightarrow> b ! i = bytes ! i)"
  using patch_word_in [OF assms, of f] assms by (auto simp: readWord_write nth_write_at)

section \<open>Properties\<close>

text \<open>What a binding says, read off the descriptor: the operand it names, the immediate it carries if
  it carries one, and whether that immediate waits for a relocation.\<close>

definition used_bindings :: "rv_desc \<Rightarrow> rv_operand list \<Rightarrow> rv_binding set" where
  "used_bindings desc operands =
     {b \<in> set (take (unat (rd_operandCount desc)) (rd_operands desc)). unat (rb_operandIndex b) < length operands}"

definition bound_operand :: "rv_operand list \<Rightarrow> rv_binding \<Rightarrow> rv_operand" where
  "bound_operand operands b = operands ! unat (rb_operandIndex b)"

definition branch_slots :: "rv_slot_kind set" where "branch_slots = {Imm12Branch, Imm20Jump, Rel}"

definition immediate_of :: "rv_operand list \<Rightarrow> rv_binding \<Rightarrow> u64 option" where
  "immediate_of operands b =
     (let oper = bound_operand operands b in
      if rb_slot b \<in> {Imm12Signed, Imm12Store, Shamt5, Shamt6, Csr} then
        Some (if ro_kind oper = Memory then rm_disp (ro_mem oper) else ro_imm oper)
      else if rb_slot b = Rs1 \<and> ro_kind oper = Memory then Some (rm_disp (ro_mem oper))
      else if rb_slot b \<in> insert Imm20Upper branch_slots then Some (ro_imm oper)
      else None)"

definition awaits_reloc :: "rv_desc \<Rightarrow> rv_operand list \<Rightarrow> rv_binding \<Rightarrow> bool" where
  "awaits_reloc desc operands b \<longleftrightarrow> immediate_of operands b \<noteq> None \<and>
     (let oper = bound_operand operands b in
      if rb_slot b \<in> branch_slots then ro_needsReloc oper \<or> rb_operandIndex b = rd_relocOperand desc
      else if rb_slot b \<noteq> Imm20Upper \<and> ro_kind oper = Memory then rm_needsReloc (ro_mem oper)
      else ro_needsReloc oper)"

text \<open>A descriptor names one operand for a register field and one value for the immediate; a
  branch target is the only immediate.\<close>

definition well_bound :: "rv_desc \<Rightarrow> rv_operand list \<Rightarrow> bool" where
  "well_bound desc operands \<longleftrightarrow>
     (\<forall>b \<in> used_bindings desc operands. \<forall>b' \<in> used_bindings desc operands.
        (rb_slot b = rb_slot b' \<and> rb_slot b \<in> {Rd, Rs1, Rs2} \<longrightarrow> rb_operandIndex b = rb_operandIndex b') \<and>
        (immediate_of operands b \<noteq> None \<and> immediate_of operands b' \<noteq> None \<longrightarrow>
           immediate_of operands b = immediate_of operands b' \<and>
           (rb_slot b \<in> branch_slots \<longrightarrow> rb_slot b' \<in> branch_slots \<and> rb_operandIndex b = rb_operandIndex b')))"

text \<open>The immediate a format decodes to; an I-type descriptor with a function code in the upper
  immediate bits is a shift, whose amount has six bits.\<close>

definition decodes_imm :: "rv_desc \<Rightarrow> u32 \<Rightarrow> u64 \<Rightarrow> bool" where
  "decodes_imm desc w v =
     (case rd_form desc of
        IType \<Rightarrow>
          (if rd_funct7 desc = 0 then dec_iimm w = signed_take_bit 11 (ucast v)
           else \<not> bit (rd_funct7 desc) 0 \<and> take_bit 6 v = v \<longrightarrow>
             take_bit 6 (drop_bit 20 w) = ucast v \<and> dec_funct7 w AND NOT 1 = take_bit 7 (ucast (rd_funct7 desc)))
      | SType \<Rightarrow> dec_simm w = signed_take_bit 11 (ucast v)
      | BType \<Rightarrow> dec_bimm w = signed_take_bit 12 (ucast v AND NOT 1)
      | UType \<Rightarrow> dec_uimm w = (if (ucast v :: u32) \<le> 0xFFFFF then push_bit 12 (ucast v) else ucast v AND 0xFFFFF000)
      | JType \<Rightarrow> dec_jimm w = signed_take_bit 20 (ucast v AND NOT 1)
      | _ \<Rightarrow> True)"

definition decodes_binding :: "rv_desc \<Rightarrow> rv_operand list \<Rightarrow> u32 \<Rightarrow> rv_binding \<Rightarrow> bool" where
  "decodes_binding desc operands w b \<longleftrightarrow>
     (let oper = bound_operand operands b; form = rd_form desc in
      (rb_slot b = Rd \<and> form \<in> {RType, IType, UType, JType} \<longrightarrow> dec_rd w = ucast (take_bit 5 (ro_reg oper))) \<and>
      (rb_slot b = Rs1 \<and> form \<in> {RType, IType, SType, BType} \<longrightarrow>
         dec_rs1 w = ucast (take_bit 5 (if ro_kind oper = Memory then rm_base (ro_mem oper) else ro_reg oper))) \<and>
      (rb_slot b = Rs2 \<and> form \<in> {RType, SType, BType} \<longrightarrow> dec_rs2 w = ucast (take_bit 5 (ro_reg oper))) \<and>
      (\<forall>v. immediate_of operands b = Some v \<longrightarrow> decodes_imm desc w v))"

lemma fold_value:
  assumes "\<And>b f. b \<in> set bs \<Longrightarrow> P b \<Longrightarrow> g (h b f) = v b" "\<And>b f. b \<in> set bs \<Longrightarrow> \<not> P b \<Longrightarrow> g (h b f) = g f"
    and "\<And>b b'. b \<in> set bs \<Longrightarrow> b' \<in> set bs \<Longrightarrow> P b \<Longrightarrow> P b' \<Longrightarrow> v b = v b'"
  shows "b \<in> set bs \<Longrightarrow> P b \<Longrightarrow> g (fold h bs f) = v b" "\<forall>b \<in> set bs. \<not> P b \<Longrightarrow> g (fold h bs f) = g f"
proof -
  have "g (fold h cs f) = (if \<exists>c \<in> set cs. P c then v (SOME c. c \<in> set cs \<and> P c) else g f)" if "set cs \<subseteq> set bs" for cs
    using that
  proof (induction cs rule: rev_induct)
    case (snoc c cs)
    show ?case
    proof (cases "P c")
      case True
      let ?d = "SOME d. d \<in> set (cs @ [c]) \<and> P d"
      have "?d \<in> set (cs @ [c]) \<and> P ?d" by (rule someI [of _ c]) (simp add: True)
      then have "v ?d = v c" using snoc.prems True by (intro assms(3)) auto
      then show ?thesis using True snoc.prems assms(1) [of c "fold h cs f"] by auto
    next
      case False
      then have "(\<lambda>d. d \<in> set (cs @ [c]) \<and> P d) = (\<lambda>d. d \<in> set cs \<and> P d)" by auto
      then show ?thesis using False snoc assms(2) [of c "fold h cs f"] by auto
    qed
  qed simp
  from this [of bs] have eq: "g (fold h bs f) = (if \<exists>c \<in> set bs. P c then v (SOME c. c \<in> set bs \<and> P c) else g f)" by simp
  show "g (fold h bs f) = v b" if b: "b \<in> set bs" "P b"
  proof -
    have "(SOME c. c \<in> set bs \<and> P c) \<in> set bs \<and> P (SOME c. c \<in> set bs \<and> P c)" by (rule someI [of _ b]) (simp add: b)
    then show ?thesis using eq b assms(3) by metis
  qed
  show "\<forall>b \<in> set bs. \<not> P b \<Longrightarrow> g (fold h bs f) = g f" using eq by simp
qed

text \<open>The fields after binding are those the bindings say.\<close>

lemma bind_slot_reads:
  fixes desc operands b f
  defines "f' \<equiv> bind_slot desc operands b f" and "oper \<equiv> bound_operand operands b"
    and "used \<equiv> unat (rb_operandIndex b) < length operands"
  shows "f_rd f' = (if used \<and> rb_slot b = Rd then take_bit 5 (ro_reg oper) else f_rd f)"
    "f_rs1 f' = (if used \<and> rb_slot b = Rs1 then take_bit 5 (if ro_kind oper = Memory then rm_base (ro_mem oper) else ro_reg oper) else f_rs1 f)"
    "f_rs2 f' = (if used \<and> rb_slot b = Rs2 then take_bit 5 (ro_reg oper) else f_rs2 f)"
    "f_imm f' = (if used \<and> immediate_of operands b \<noteq> None then the (immediate_of operands b) else f_imm f)"
    "f_hasReloc f' = (if used \<and> rb_slot b \<in> branch_slots then awaits_reloc desc operands b
       else f_hasReloc f \<or> used \<and> awaits_reloc desc operands b)"
  unfolding f'_def oper_def used_def
  by (auto simp: bind_slot_def bind_imm_def immediate_of_def awaits_reloc_def branch_slots_def bound_operand_def Let_def mask_take
      split: rv_slot_kind.splits)

lemma used_bindings_iff:
  "b \<in> used_bindings desc operands \<longleftrightarrow>
     b \<in> set (take (unat (rd_operandCount desc)) (rd_operands desc)) \<and> unat (rb_operandIndex b) < length operands"
  by (simp add: used_bindings_def)

lemma well_boundD:
  assumes "well_bound desc operands" "b \<in> used_bindings desc operands" "b' \<in> used_bindings desc operands"
  shows "rb_slot b = rb_slot b' \<Longrightarrow> rb_slot b \<in> {Rd, Rs1, Rs2} \<Longrightarrow> bound_operand operands b = bound_operand operands b'"
    "immediate_of operands b \<noteq> None \<Longrightarrow> immediate_of operands b' \<noteq> None \<Longrightarrow> immediate_of operands b = immediate_of operands b'"
    "immediate_of operands b \<noteq> None \<Longrightarrow> immediate_of operands b' \<noteq> None \<Longrightarrow> rb_slot b \<in> branch_slots \<Longrightarrow>
       rb_slot b' \<in> branch_slots \<and> rb_operandIndex b = rb_operandIndex b'"
  using bspec [OF bspec [OF assms(1) [unfolded well_bound_def] assms(2)] assms(3)] by (simp_all add: bound_operand_def)

lemma bound_value:
  assumes step: "\<And>c f. c \<in> set (take (unat (rd_operandCount desc)) (rd_operands desc)) \<Longrightarrow>
      g (bind_slot desc operands c f) = (if unat (rb_operandIndex c) < length operands \<and> P c then v c else g f)"
    and same: "\<And>c d. c \<in> used_bindings desc operands \<Longrightarrow> d \<in> used_bindings desc operands \<Longrightarrow> P c \<Longrightarrow> P d \<Longrightarrow> v c = v d"
    and b: "b \<in> used_bindings desc operands" "P b"
  shows "g (bound_fields desc operands) = v b"
  unfolding bound_fields_def
proof (rule fold_value(1) [where P = "\<lambda>c. unat (rb_operandIndex c) < length operands \<and> P c"])
  show "v c = v d" if "c \<in> set (take (unat (rd_operandCount desc)) (rd_operands desc))"
    "d \<in> set (take (unat (rd_operandCount desc)) (rd_operands desc))"
    "unat (rb_operandIndex c) < length operands \<and> P c" "unat (rb_operandIndex d) < length operands \<and> P d" for c d
    using that by (intro same) (simp_all add: used_bindings_iff)
qed (use b in \<open>auto simp: step used_bindings_iff\<close>)

lemma bound_regs:
  assumes w: "well_bound desc operands" and b: "b \<in> used_bindings desc operands"
  shows "rb_slot b = Rd \<Longrightarrow> f_rd (bound_fields desc operands) = take_bit 5 (ro_reg (bound_operand operands b))"
    "rb_slot b = Rs1 \<Longrightarrow> f_rs1 (bound_fields desc operands) =
       take_bit 5 (if ro_kind (bound_operand operands b) = Memory then rm_base (ro_mem (bound_operand operands b)) else ro_reg (bound_operand operands b))"
    "rb_slot b = Rs2 \<Longrightarrow> f_rs2 (bound_fields desc operands) = take_bit 5 (ro_reg (bound_operand operands b))"
proof -
  have same: "bound_operand operands c = bound_operand operands d"
    if "c \<in> used_bindings desc operands" "d \<in> used_bindings desc operands" "rb_slot c = s" "rb_slot d = s" "s \<in> {Rd, Rs1, Rs2}" for c d s
    using well_boundD(1) [OF w that(1,2)] that(3-5) by simp
  show "f_rd (bound_fields desc operands) = take_bit 5 (ro_reg (bound_operand operands b))" if "rb_slot b = Rd"
  proof (rule bound_value [where g = f_rd and P = "\<lambda>c. rb_slot c = Rd" and v = "\<lambda>c. take_bit 5 (ro_reg (bound_operand operands c))", OF _ _ b that])
    show "take_bit 5 (ro_reg (bound_operand operands c)) = take_bit 5 (ro_reg (bound_operand operands d))"
      if "c \<in> used_bindings desc operands" "d \<in> used_bindings desc operands" "rb_slot c = Rd" "rb_slot d = Rd" for c d
      using same [OF that] by simp
  qed (simp add: bind_slot_reads(1))
  show "f_rs2 (bound_fields desc operands) = take_bit 5 (ro_reg (bound_operand operands b))" if "rb_slot b = Rs2"
  proof (rule bound_value [where g = f_rs2 and P = "\<lambda>c. rb_slot c = Rs2" and v = "\<lambda>c. take_bit 5 (ro_reg (bound_operand operands c))", OF _ _ b that])
    show "take_bit 5 (ro_reg (bound_operand operands c)) = take_bit 5 (ro_reg (bound_operand operands d))"
      if "c \<in> used_bindings desc operands" "d \<in> used_bindings desc operands" "rb_slot c = Rs2" "rb_slot d = Rs2" for c d
      using same [OF that] by simp
  qed (simp add: bind_slot_reads(3))
  let ?base = "\<lambda>c. take_bit 5 (if ro_kind (bound_operand operands c) = Memory then rm_base (ro_mem (bound_operand operands c))
      else ro_reg (bound_operand operands c))"
  show "f_rs1 (bound_fields desc operands) = ?base b" if "rb_slot b = Rs1"
  proof (rule bound_value [where g = f_rs1 and P = "\<lambda>c. rb_slot c = Rs1" and v = ?base, OF _ _ b that])
    show "?base c = ?base d"
      if "c \<in> used_bindings desc operands" "d \<in> used_bindings desc operands" "rb_slot c = Rs1" "rb_slot d = Rs1" for c d
      using same [OF that] by simp
  qed (simp add: bind_slot_reads(2))
qed

lemma bound_imm:
  assumes w: "well_bound desc operands" and b: "b \<in> used_bindings desc operands" and v: "immediate_of operands b = Some v"
  shows "f_imm (bound_fields desc operands) = v"
proof -
  have n: "immediate_of operands b \<noteq> None" using v by simp
  have "f_imm (bound_fields desc operands) = the (immediate_of operands b)"
  proof (rule bound_value [where g = f_imm and P = "\<lambda>c. immediate_of operands c \<noteq> None" and v = "\<lambda>c. the (immediate_of operands c)", OF _ _ b n])
    show "the (immediate_of operands c) = the (immediate_of operands d)"
      if "c \<in> used_bindings desc operands" "d \<in> used_bindings desc operands" "immediate_of operands c \<noteq> None" "immediate_of operands d \<noteq> None" for c d
      using well_boundD(2) [OF w that] by simp
  qed (rule bind_slot_reads(4))
  then show ?thesis using v by simp
qed

lemma unbound_fields:
  "\<forall>b \<in> used_bindings desc operands. rb_slot b \<noteq> Rd \<Longrightarrow> f_rd (bound_fields desc operands) = 0"
  "\<forall>b \<in> used_bindings desc operands. rb_slot b \<noteq> Rs1 \<Longrightarrow> f_rs1 (bound_fields desc operands) = 0"
  "\<forall>b \<in> used_bindings desc operands. rb_slot b \<noteq> Rs2 \<Longrightarrow> f_rs2 (bound_fields desc operands) = 0"
  "\<forall>b \<in> used_bindings desc operands. immediate_of operands b = None \<Longrightarrow> f_imm (bound_fields desc operands) = 0"
proof -
  have keep: "g (fold (bind_slot desc operands) bs f) = g f"
    if "\<forall>b \<in> set bs. \<forall>f. g (bind_slot desc operands b f) = g f" for g :: "rv_fields \<Rightarrow> 'a" and bs f
    using that by (induction bs arbitrary: f) auto
  show "\<forall>b \<in> used_bindings desc operands. rb_slot b \<noteq> Rd \<Longrightarrow> f_rd (bound_fields desc operands) = 0"
    unfolding bound_fields_def by (subst keep) (auto simp: bind_slot_reads used_bindings_iff no_fields_def)
  show "\<forall>b \<in> used_bindings desc operands. rb_slot b \<noteq> Rs1 \<Longrightarrow> f_rs1 (bound_fields desc operands) = 0"
    unfolding bound_fields_def by (subst keep) (auto simp: bind_slot_reads used_bindings_iff no_fields_def)
  show "\<forall>b \<in> used_bindings desc operands. rb_slot b \<noteq> Rs2 \<Longrightarrow> f_rs2 (bound_fields desc operands) = 0"
    unfolding bound_fields_def by (subst keep) (auto simp: bind_slot_reads used_bindings_iff no_fields_def)
  show "\<forall>b \<in> used_bindings desc operands. immediate_of operands b = None \<Longrightarrow> f_imm (bound_fields desc operands) = 0"
    unfolding bound_fields_def by (subst keep) (auto simp: bind_slot_reads used_bindings_iff no_fields_def)
qed

lemma bound_reloc:
  assumes "well_bound desc operands"
  shows "f_hasReloc (bound_fields desc operands) \<longleftrightarrow> (\<exists>b \<in> used_bindings desc operands. awaits_reloc desc operands b)"
proof -
  let ?bs = "take (unat (rd_operandCount desc)) (rd_operands desc)"
  let ?used = "\<lambda>b. unat (rb_operandIndex b) < length operands"
  have awaits: "awaits_reloc desc operands b \<Longrightarrow> immediate_of operands b \<noteq> None" for b by (simp add: awaits_reloc_def)
  have target: "rb_slot b \<in> branch_slots \<Longrightarrow> immediate_of operands b \<noteq> None" for b
    by (auto simp: immediate_of_def branch_slots_def Let_def)
  show ?thesis
  proof (cases "\<exists>b \<in> used_bindings desc operands. rb_slot b \<in> branch_slots")
    case True
    then obtain b where b: "b \<in> used_bindings desc operands" "rb_slot b \<in> branch_slots" by blast
    have only: "rb_slot c \<in> branch_slots \<and> awaits_reloc desc operands c = awaits_reloc desc operands b"
      if "c \<in> used_bindings desc operands" "immediate_of operands c \<noteq> None" for c
    proof -
      have "rb_slot c \<in> branch_slots" "rb_operandIndex b = rb_operandIndex c"
        using well_boundD(3) [OF assms b(1) that(1) target [OF b(2)] that(2) b(2)] by blast+
      then show ?thesis using b(2) target [of b] target [of c] by (simp add: awaits_reloc_def bound_operand_def)
    qed
    have "f_hasReloc (bound_fields desc operands) = awaits_reloc desc operands b"
    proof (rule bound_value [where g = f_hasReloc and P = "\<lambda>c. rb_slot c \<in> branch_slots" and v = "\<lambda>c. awaits_reloc desc operands c", OF _ _ b])
      show "f_hasReloc (bind_slot desc operands c f) =
          (if unat (rb_operandIndex c) < length operands \<and> rb_slot c \<in> branch_slots then awaits_reloc desc operands c else f_hasReloc f)"
        if "c \<in> set ?bs" for c f
        using only [of c] awaits [of c] that by (auto simp: bind_slot_reads(5) used_bindings_iff)
      show "awaits_reloc desc operands c = awaits_reloc desc operands d"
        if "c \<in> used_bindings desc operands" "d \<in> used_bindings desc operands" "rb_slot c \<in> branch_slots" "rb_slot d \<in> branch_slots" for c d
        using only [OF that(1) target [OF that(3)]] only [OF that(2) target [OF that(4)]] by simp
    qed
    then show ?thesis using only awaits b by blast
  next
    case False
    have "f_hasReloc (fold (bind_slot desc operands) bs f) \<longleftrightarrow> f_hasReloc f \<or> (\<exists>b \<in> set bs. ?used b \<and> awaits_reloc desc operands b)"
      if "\<forall>b \<in> set bs. ?used b \<longrightarrow> rb_slot b \<notin> branch_slots" for bs f
      using that by (induction bs arbitrary: f) (auto simp: bind_slot_reads)
    from this [of ?bs no_fields] False show ?thesis
      by (auto simp: bound_fields_def used_bindings_iff no_fields_def)
  qed
qed

lemma iType_shift:
  assumes "\<not> bit f7 0" "take_bit 6 imm = imm"
  shows "take_bit 6 (drop_bit 20 (iType f7 imm rs1 f3 rd op)) = ucast imm"
    "dec_funct7 (iType f7 imm rs1 f3 rd op) AND NOT 1 = take_bit 7 (ucast f7)"
proof -
  have b: "bit imm n \<longleftrightarrow> n < 6 \<and> bit imm n" for n
    using assms(2) by (metis bit_take_bit_iff)
  have w: "bit (iType f7 imm rs1 f3 rd op) (n + 20) \<longleftrightarrow> n < 12 \<and> (bit imm n \<or> n \<ge> 5 \<and> bit f7 (n - 5))" for n
    unfolding iType_eq mask_take using b [of n] by (auto simp: word_bits dest: bit_imp_le_length)
  show "take_bit 6 (drop_bit 20 (iType f7 imm rs1 f3 rd op)) = ucast imm"
  proof (rule bit_word_eqI)
    fix n assume "n < LENGTH(32)"
    show "bit (take_bit 6 (drop_bit 20 (iType f7 imm rs1 f3 rd op))) n = bit (ucast imm :: u32) n"
      using b [of n] assms(1) w [of n] by (cases "n = 5") (auto simp: word_bits add.commute)
  qed
  show "dec_funct7 (iType f7 imm rs1 f3 rd op) AND NOT 1 = take_bit 7 (ucast f7)"
  proof (rule bit_word_eqI)
    fix n assume "n < LENGTH(32)"
    show "bit (dec_funct7 (iType f7 imm rs1 f3 rd op) AND NOT 1) n = bit (take_bit 7 (ucast f7) :: u32) n"
      using b [of "n + 5"] assms(1) w [of "n + 5"] by (cases "n = 0") (auto simp: word_bits dec_funct7_def add.commute)
  qed
qed

text \<open>The word of a format decodes to its fields.\<close>

lemma form_word_imm: "form_word desc f = Some w \<Longrightarrow> decodes_imm desc w (f_imm f)"
  by (auto simp: decodes_imm_def form_word_def iType_fields sType_fields bType_fields uType_fields jType_fields iType_shift [simplified]
      split: rv_form.splits)

lemma form_word_regs:
  assumes "form_word desc f = Some w" "small_regs f"
  shows "dec_opcode w = take_bit 7 (ucast (rd_opcode desc))"
    "rd_form desc \<in> {RType, IType, UType, JType} \<Longrightarrow> dec_rd w = ucast (f_rd f)"
    "rd_form desc \<in> {RType, IType, SType, BType} \<Longrightarrow> dec_rs1 w = ucast (f_rs1 f)"
    "rd_form desc \<in> {RType, IType, SType, BType} \<Longrightarrow> dec_funct3 w = take_bit 3 (ucast (rd_funct3 desc))"
    "rd_form desc \<in> {RType, SType, BType} \<Longrightarrow> dec_rs2 w = ucast (f_rs2 f)"
    "rd_form desc = RType \<Longrightarrow> dec_funct7 w = take_bit 7 (ucast (rd_funct7 desc))"
  using assms
  by (auto simp: form_word_def small_regs_def ucast_small rType_fields iType_fields sType_fields bType_fields uType_fields jType_fields
      split: rv_form.splits)

text \<open>C20: for a descriptor that binds each register field to one operand and has one immediate, the
  encoder appends exactly four bytes, and decoding them by the instruction format gives back the
  opcode, the function codes, and for every binding the operand it names: the register (the base of
  a memory operand) in the field of its slot and the immediate, truncated and sign-extended to the
  width of the format or, for a shift, in the six bits of its amount. A field without binding is
  zero. A relocation is reported exactly when a bound operand needs it, as a branch for the B and J
  formats. No format has a place for \<open>Rs3\<close>: its operand is dropped.\<close>

theorem rv_encode_decodes:
  assumes "rd_form desc \<in> {RType, IType, SType, BType, UType, JType}"
    "unat (rd_operandCount desc) \<le> length (rd_operands desc)" "well_bound desc operands"
  shows "\<exists>w res. rv_encode desc operands out = Some (True, out @ le_bytes 4 w, res) \<and>
    dec_opcode w = take_bit 7 (ucast (rd_opcode desc)) \<and>
    (rd_form desc \<in> {RType, IType, SType, BType} \<longrightarrow> dec_funct3 w = take_bit 3 (ucast (rd_funct3 desc))) \<and>
    (rd_form desc = RType \<longrightarrow> dec_funct7 w = take_bit 7 (ucast (rd_funct7 desc))) \<and>
    (\<forall>b \<in> used_bindings desc operands. decodes_binding desc operands w b) \<and>
    (rd_form desc \<in> {RType, IType, UType, JType} \<and> (\<forall>b \<in> used_bindings desc operands. rb_slot b \<noteq> Rd) \<longrightarrow> dec_rd w = 0) \<and>
    (rd_form desc \<in> {RType, IType, SType, BType} \<and> (\<forall>b \<in> used_bindings desc operands. rb_slot b \<noteq> Rs1) \<longrightarrow> dec_rs1 w = 0) \<and>
    (rd_form desc \<in> {RType, SType, BType} \<and> (\<forall>b \<in> used_bindings desc operands. rb_slot b \<noteq> Rs2) \<longrightarrow> dec_rs2 w = 0) \<and>
    ((\<forall>b \<in> used_bindings desc operands. immediate_of operands b = None) \<longrightarrow> decodes_imm desc w 0) \<and>
    (er_hasReloc res \<longleftrightarrow> (\<exists>b \<in> used_bindings desc operands. awaits_reloc desc operands b)) \<and>
    (er_isBranch res \<longleftrightarrow> er_hasReloc res \<and> rd_form desc \<in> {BType, JType})"
proof -
  let ?f = "bound_fields desc operands"
  from assms(1) obtain w where w: "form_word desc ?f = Some w" by (auto simp: form_word_def)
  from rv_encode_word [OF w assms(2), of out] obtain res where
    r: "rv_encode desc operands out = Some (True, out @ le_bytes 4 w, res)" "er_hasReloc res \<longleftrightarrow> f_hasReloc ?f"
    "er_isBranch res \<longleftrightarrow> er_hasReloc res \<and> rd_form desc \<in> {BType, JType}" by blast
  note regs = form_word_regs [OF w bound_fields_small]
  have "decodes_binding desc operands w b" if b: "b \<in> used_bindings desc operands" for b
    using bound_regs [OF assms(3) b] bound_imm [OF assms(3) b] regs form_word_imm [OF w]
    by (auto simp: decodes_binding_def Let_def)
  moreover have "(\<forall>b \<in> used_bindings desc operands. immediate_of operands b = None) \<longrightarrow> decodes_imm desc w 0"
    using form_word_imm [OF w] unbound_fields(4) by metis
  ultimately show ?thesis
    using r regs unbound_fields(1-3) [of desc operands] bound_reloc [OF assms(3)]
    by (intro exI [of _ w] exI [of _ res]) simp
qed

text \<open>The instruction \<open>addi x5, x6, -1\<close>.\<close>

definition addi_desc :: rv_desc where
  "addi_desc = \<lparr>rd_form = IType, rd_opcode = 0x13, rd_funct3 = 0, rd_funct7 = 0, rd_operandCount = 3,
     rd_operands = [\<lparr>rb_slot = Rd, rb_operandIndex = 0, rb_regClass = GPR\<rparr>,
       \<lparr>rb_slot = Rs1, rb_operandIndex = 1, rb_regClass = GPR\<rparr>,
       \<lparr>rb_slot = Imm12Signed, rb_operandIndex = 2, rb_regClass = GPR\<rparr>],
     rd_relocOperand = 0xFF\<rparr>"

definition plain_operand :: rv_operand where
  "plain_operand = \<lparr>ro_kind = Register, ro_reg = 0, ro_isFpr = False, ro_isVr = False, ro_sizeBytes = 8, ro_imm = 0,
     ro_mem = \<lparr>rm_base = 0xFF, rm_disp = 0, rm_needsReloc = False\<rparr>, ro_needsReloc = False\<rparr>"

definition addi_operands :: "rv_operand list" where
  "addi_operands = [plain_operand\<lparr>ro_reg := 5\<rparr>, plain_operand\<lparr>ro_reg := 6\<rparr>,
     plain_operand\<lparr>ro_kind := Immediate, ro_imm := - 1\<rparr>]"

theorem rv_encode_decodes_witness:
  "\<exists>w res. rv_encode addi_desc addi_operands [] = Some (True, le_bytes 4 w, res) \<and>
    dec_opcode w = 0x13 \<and> dec_rd w = 5 \<and> dec_rs1 w = 6 \<and> dec_iimm w = - 1 \<and> \<not> er_hasReloc res"
proof -
  have d: "rd_form addi_desc = IType" "rd_opcode addi_desc = 0x13" "rd_funct7 addi_desc = 0"
    "unat (rd_operandCount addi_desc) \<le> length (rd_operands addi_desc)"
    by (simp_all add: addi_desc_def)
  have u: "used_bindings addi_desc addi_operands = set (rd_operands addi_desc)"
    by (auto simp: used_bindings_def addi_desc_def addi_operands_def)
  have well: "well_bound addi_desc addi_operands"
    unfolding well_bound_def u
    by (simp add: addi_desc_def addi_operands_def plain_operand_def immediate_of_def bound_operand_def branch_slots_def)
  have "signed_take_bit 11 (ucast (- 1 :: u64)) = (- 1 :: u32)"
    by (rule bit_word_eqI) (simp add: word_bits min_def)
  then show ?thesis
    using rv_encode_decodes [of addi_desc addi_operands "[]"] d well u
    by (auto simp: addi_desc_def addi_operands_def plain_operand_def decodes_binding_def decodes_imm_def immediate_of_def
        awaits_reloc_def bound_operand_def branch_slots_def)
qed

text \<open>C21: a branch or jump emitted with an even displacement in the range of its format is
  recognised by the classifier with its registers and condition, and its displacement decodes to
  the emitted one.\<close>

theorem emitted_branch_roundtrip:
  assumes "b_range d" "j_range e"
  shows "(\<exists>w. emitBranch [] f3 rs1 rs2 d = le_bytes 4 w \<and> dec_bimm w = d) \<and>
    classifyBranch (emitBranch [] f3 rs1 rs2 d) 0 = Some (Some (IsBranch (take_bit 3 f3) (take_bit 5 rs1) (take_bit 5 rs2))) \<and>
    (\<exists>w. emitJal [] rd e = le_bytes 4 w \<and> dec_jimm w = e) \<and>
    classifyBranch (emitJal [] rd e) 0 = Some (Some (IsJal (take_bit 5 rd)))"
proof (intro conjI)
  show "\<exists>w. emitBranch [] f3 rs1 rs2 d = le_bytes 4 w \<and> dec_bimm w = d"
    using b_range_take [OF assms(1)] by (intro exI [of _ "branch_word f3 rs1 rs2 d"]) (simp add: emit_words branch_word_fields)
  show "\<exists>w. emitJal [] rd e = le_bytes 4 w \<and> dec_jimm w = e"
    using j_range_take [OF assms(2)] by (intro exI [of _ "jal_word rd e"]) (simp add: emit_words jal_word_fields)
qed (simp_all add: emit_words classifyBranch_def fits_lit readWord_0 classify_word_dec branch_word_fields jal_word_fields ucast_take)

theorem emitted_branch_roundtrip_witness:
  "classifyBranch (emitBranch [] 1 5 6 (- 8)) 0 = Some (Some (IsBranch 1 5 6)) \<and>
   classifyBranch (emitJal [] 1 2048) 0 = Some (Some (IsJal 1))"
  using emitted_branch_roundtrip [of "- 8" 2048 1 5 6 1] by (simp add: b_range_def j_range_def)

text \<open>patching the displacement of a branch or of a jump in a text buffer makes the
  instruction decode to the new displacement, keeps every other field of the instruction, and
  changes no other byte of the buffer; an offset at which no instruction fits is rejected.\<close>

theorem patch_disp_correct:
  assumes "length bytes < 2 ^ 63" "unat off < 2 ^ 63" "b_range d" "j_range e"
  shows "if unat off + 4 \<le> length bytes
    then \<exists>w b w' c w''. readWord bytes off = Some w \<and>
      patchBranchDisp bytes off d = Some (b, True) \<and> readWord b off = Some w' \<and> dec_bimm w' = d \<and>
        dec_opcode w' = dec_opcode w \<and> dec_funct3 w' = dec_funct3 w \<and> dec_rs1 w' = dec_rs1 w \<and> dec_rs2 w' = dec_rs2 w \<and>
      patchJalDisp bytes off e = Some (c, True) \<and> readWord c off = Some w'' \<and> dec_jimm w'' = e \<and>
        dec_opcode w'' = dec_opcode w \<and> dec_rd w'' = dec_rd w \<and>
      (\<forall>i < length bytes. (i < unat off \<or> unat off + 4 \<le> i) \<longrightarrow> b ! i = bytes ! i \<and> c ! i = bytes ! i)
    else patchBranchDisp bytes off d = Some (bytes, False) \<and> patchJalDisp bytes off e = Some (bytes, False)"
proof (cases "unat off + 4 \<le> length bytes")
  case True
  from patch_in [OF assms(1) True, of "\<lambda>word. (word AND NOT 0xFE000F80) OR encodeBImm d"] obtain w b w' where
    b: "readWord bytes off = Some w" "patchBranchDisp bytes off d = Some (b, True)" "readWord b off = Some w'"
      "\<forall>i < length bytes. (i < unat off \<or> unat off + 4 \<le> i) \<longrightarrow> b ! i = bytes ! i"
    and w': "w' = (w AND NOT 0xFE000F80) OR encodeBImm d"
    unfolding patchBranchDisp_def by blast
  from patch_in [OF assms(1) True, of "\<lambda>word. (word AND NOT 0xFFFFF000) OR encodeJImm e"] b(1) obtain c w'' where
    c: "patchJalDisp bytes off e = Some (c, True)" "readWord c off = Some w''"
      "\<forall>i < length bytes. (i < unat off \<or> unat off + 4 \<le> i) \<longrightarrow> c ! i = bytes ! i"
    and w'': "w'' = (w AND NOT 0xFFFFF000) OR encodeJImm e"
    unfolding patchJalDisp_def by auto
  note fields = patch_branch_fields [of w d, folded w', unfolded b_range_take [OF assms(3)]]
    patch_jal_fields [of w e, folded w'', unfolded j_range_take [OF assms(4)]]
  show ?thesis
    unfolding if_P [OF True]
    by (intro exI [of _ w] exI [of _ b] exI [of _ w'] exI [of _ c] exI [of _ w'']) (use b c fields in simp)
next
  case False
  then show ?thesis using assms by (simp add: patchBranchDisp_def patchJalDisp_def patch_word_out)
qed

theorem patch_disp_correct_witness:
  "\<exists>b w'. patchBranchDisp (emitBranch [0] 1 5 6 8) 1 (- 16) = Some (b, True) \<and> readWord b 1 = Some w' \<and> dec_bimm w' = - 16"
  using patch_disp_correct [of "emitBranch [0] 1 5 6 8" 1 "- 16" 0]
  by (auto simp: b_range_def j_range_def emit_words)

end
