(* ===== verification/Relaxation.thy ===== *)
theory Relaxation
  imports EmitterTypes
begin

text \<open>
  Branch relaxation, shared by the two targets: a stream of raw bytes, labels and branches, the
  pass that computes the offset of every label, and the pass that widens the branches whose target
  is too far (EzTargets/X86_64/src/BranchRelaxation/BranchRelaxer.cpp and
  EzTargets/RiscV64/src/BranchRelaxation/RiscV64BranchRelaxer.cpp have the same two passes, with
  their own branch record, sizes and ranges). The locale \<open>relaxable\<close> is what a target's branches
  must provide; it yields termination of the loop and a layout in which no branch is too far.
\<close>

section \<open>The stream and its two passes\<close>

datatype 'b stream_item = RawData "u8 list" | LabelDef mir_id | Branch 'b

primrec item_size :: "('b \<Rightarrow> nat) \<Rightarrow> 'b stream_item \<Rightarrow> nat" where
  "item_size sz (RawData bs) = length bs"
| "item_size sz (LabelDef i) = 0"
| "item_size sz (Branch b) = sz b"

text \<open>Pass 1: a label is bound to the current offset; a later definition overwrites it.\<close>

primrec label_offsets ::
  "('b \<Rightarrow> nat) \<Rightarrow> 'b stream_item list \<Rightarrow> nat \<Rightarrow> (mir_id \<rightharpoonup> nat) \<Rightarrow> (mir_id \<rightharpoonup> nat)" where
  "label_offsets sz [] off labels = labels"
| "label_offsets sz (item # items) off labels =
     (case item of
        RawData bs \<Rightarrow> label_offsets sz items (off + length bs) labels
      | LabelDef i \<Rightarrow> label_offsets sz items off (labels(i \<mapsto> off))
      | Branch b \<Rightarrow> label_offsets sz items (off + sz b) labels)"

text \<open>Pass 2: \<open>far b target off\<close> says that the branch \<open>b\<close> at \<open>off\<close> must be widened. The offset
  advances by the size the branch has after the check.\<close>

primrec widen_pass ::
  "('b \<Rightarrow> nat) \<Rightarrow> ('b \<Rightarrow> mir_id) \<Rightarrow> ('b \<Rightarrow> nat \<Rightarrow> nat \<Rightarrow> bool) \<Rightarrow> ('b \<Rightarrow> 'b) \<Rightarrow> (mir_id \<rightharpoonup> nat) \<Rightarrow>
   'b stream_item list \<Rightarrow> nat \<Rightarrow> 'b stream_item list \<times> nat" where
  "widen_pass sz target far widen labels [] off = ([], 0)"
| "widen_pass sz target far widen labels (item # items) off =
     (case item of
        RawData bs \<Rightarrow>
          (case widen_pass sz target far widen labels items (off + length bs) of (ys, n) \<Rightarrow> (item # ys, n))
      | LabelDef i \<Rightarrow>
          (case widen_pass sz target far widen labels items off of (ys, n) \<Rightarrow> (item # ys, n))
      | Branch b \<Rightarrow>
          let hit = (case labels (target b) of None \<Rightarrow> False | Some l \<Rightarrow> far b l off);
              b' = (if hit then widen b else b)
          in (case widen_pass sz target far widen labels items (off + sz b') of
                (ys, n) \<Rightarrow> (Branch b' # ys, if hit then n + 1 else n)))"

text \<open>One iteration of the loop on the items, the label map and the number of widened branches.\<close>

definition relax_round ::
  "('b \<Rightarrow> nat) \<Rightarrow> ('b \<Rightarrow> mir_id) \<Rightarrow> ('b \<Rightarrow> nat \<Rightarrow> nat \<Rightarrow> bool) \<Rightarrow> ('b \<Rightarrow> 'b) \<Rightarrow>
   'b stream_item list \<times> (mir_id \<rightharpoonup> nat) \<times> nat \<Rightarrow> ('b stream_item list \<times> (mir_id \<rightharpoonup> nat) \<times> nat) \<times> bool" where
  "relax_round sz target far widen st =
     (case st of (items, _, count) \<Rightarrow>
        let labels = label_offsets sz items 0 Map.empty;
            (items', n) = widen_pass sz target far widen labels items 0
        in ((items', labels, count + n), n > 0))"

section \<open>Layout\<close>

definition stream_size :: "('b \<Rightarrow> nat) \<Rightarrow> 'b stream_item list \<Rightarrow> nat" where
  "stream_size sz items = sum_list (map (item_size sz) items)"

lemma stream_size_simps [simp]:
  "stream_size sz [] = 0" "stream_size sz (x # xs) = item_size sz x + stream_size sz xs"
  "stream_size sz (xs @ ys) = stream_size sz xs + stream_size sz ys"
  by (simp_all add: stream_size_def)

lemma label_offsets_other:
  "LabelDef i \<notin> set items \<Longrightarrow> label_offsets sz items off labels i = labels i"
  by (induction items arbitrary: off labels) (auto split: stream_item.split)

lemma label_offsets_append:
  "label_offsets sz (xs @ ys) off labels = label_offsets sz ys (off + stream_size sz xs) (label_offsets sz xs off labels)"
  by (induction xs arbitrary: off labels) (auto simp: add.assoc split: stream_item.split)

text \<open>The offset recorded for a label is the size of what precedes its last definition.\<close>

lemma label_offsets_at:
  "LabelDef i \<notin> set vs \<Longrightarrow> label_offsets sz (us @ LabelDef i # vs) 0 m i = Some (stream_size sz us)"
  by (simp add: label_offsets_append label_offsets_other)

text \<open>Every recorded offset is the size of a prefix that ends at a definition of the label.\<close>

lemma label_offsets_prefix:
  "label_offsets sz xs off m i = Some l \<Longrightarrow>
   m i = Some l \<or> (\<exists>us vs. xs = us @ LabelDef i # vs \<and> l = off + stream_size sz us)"
proof (induction xs arbitrary: off m)
  case Nil
  then show ?case by simp
next
  case (Cons x xs)
  then obtain m' where rest: "label_offsets sz xs (off + item_size sz x) m' i = Some l"
    and m': "m' = m \<or> (\<exists>j. x = LabelDef j \<and> m' = m(j \<mapsto> off))"
    by (cases x) auto
  from Cons.IH [OF rest] show ?case
  proof
    assume "m' i = Some l"
    then show ?thesis using m' by (fastforce intro: exI [of _ "[]"] split: if_splits)
  next
    assume "\<exists>us vs. xs = us @ LabelDef i # vs \<and> l = off + item_size sz x + stream_size sz us"
    then obtain us vs where "xs = us @ LabelDef i # vs" "l = off + item_size sz x + stream_size sz us" by blast
    then show ?thesis by (intro disjI2 exI [of _ "x # us"] exI [of _ vs]) (simp add: add.assoc)
  qed
qed

lemma label_offset_size:
  "label_offsets sz xs 0 Map.empty i = Some l \<Longrightarrow> \<exists>us vs. xs = us @ LabelDef i # vs \<and> l = stream_size sz us"
  using label_offsets_prefix [of sz xs 0 Map.empty i l] by simp

text \<open>A bound on the sizes of the items bounds the size of the stream.\<close>

lemma stream_size_mono:
  "list_all2 (\<lambda>x y. item_size sz y \<le> item_size sz' x) xs ys \<Longrightarrow> stream_size sz ys \<le> stream_size sz' xs"
  by (induction rule: list_all2_induct) auto

lemma stream_size_even: "(\<And>x. x \<in> set xs \<Longrightarrow> even (item_size sz x)) \<Longrightarrow> even (stream_size sz xs)"
  by (induction xs) auto

section \<open>The interface of a target's branches\<close>

locale relaxable =
  fixes sz :: "'b \<Rightarrow> nat"
    and target :: "'b \<Rightarrow> mir_id"
    and far :: "'b \<Rightarrow> nat \<Rightarrow> nat \<Rightarrow> bool"
    and widen :: "'b \<Rightarrow> 'b"
    and short :: "'b \<Rightarrow> bool"
  assumes far_short: "far b l off \<Longrightarrow> short b"
    and widen_wide: "\<not> short (widen b)"
    and widen_target: "target (widen b) = target b"
begin

definition widened :: "'b \<Rightarrow> 'b \<Rightarrow> bool" where
  "widened b c \<longleftrightarrow> c = b \<or> short b \<and> c = widen b"

definition short_count :: "'b stream_item list \<Rightarrow> nat" where
  "short_count items = length [x \<leftarrow> items. case x of Branch b \<Rightarrow> short b | _ \<Rightarrow> False]"

lemma short_count_simps [simp]:
  "short_count [] = 0" "short_count (RawData bs # xs) = short_count xs" "short_count (LabelDef i # xs) = short_count xs"
  "short_count (Branch b # xs) = (if short b then 1 else 0) + short_count xs"
  by (simp_all add: short_count_def)

lemma widen_pass_count:
  "widen_pass sz target far widen labels items off = (ys, n) \<Longrightarrow> short_count ys + n = short_count items"
  by (induction items arbitrary: off ys n)
    (auto simp: Let_def widen_wide far_short split: stream_item.splits prod.splits if_splits option.splits)

lemma widen_pass_widened:
  "widen_pass sz target far widen labels items off = (ys, n) \<Longrightarrow> list_all2 (rel_stream_item widened) items ys"
  by (induction items arbitrary: off ys n)
    (auto simp: Let_def widened_def far_short split: stream_item.splits prod.splits if_splits option.splits)

lemma widen_pass_quiet:
  "widen_pass sz target far widen labels items off = (ys, 0) \<Longrightarrow> ys = items \<and>
   (\<forall>us b vs. items = us @ Branch b # vs \<longrightarrow>
      (case labels (target b) of None \<Rightarrow> True | Some l \<Rightarrow> \<not> far b l (off + stream_size sz us)))"
proof (induction items arbitrary: off ys)
  case Nil
  then show ?case by simp
next
  case (Cons x xs)
  have "\<exists>zs. widen_pass sz target far widen labels xs (off + item_size sz x) = (zs, 0) \<and> ys = x # zs \<and>
      (\<forall>b l. x = Branch b \<longrightarrow> labels (target b) = Some l \<longrightarrow> \<not> far b l off)"
    using Cons.prems by (cases x) (auto simp: Let_def split: prod.splits if_splits option.splits)
  then obtain zs where z: "widen_pass sz target far widen labels xs (off + item_size sz x) = (zs, 0)"
    "ys = x # zs" "\<forall>b l. x = Branch b \<longrightarrow> labels (target b) = Some l \<longrightarrow> \<not> far b l off" by blast
  note IH = Cons.IH [OF z(1)]
  show ?case
  proof (intro conjI allI impI)
    show "ys = x # xs" using IH z by simp
    fix us b vs assume s: "x # xs = us @ Branch b # vs"
    show "case labels (target b) of None \<Rightarrow> True | Some l \<Rightarrow> \<not> far b l (off + stream_size sz us)"
    proof (cases us)
      case Nil
      then show ?thesis using s z(3) by (auto split: option.split)
    next
      case (Cons u us')
      then show ?thesis using s Cons IH [THEN conjunct2, rule_format, of us' b vs] by (auto simp: add.assoc split: option.splits)
    qed
  qed
qed

end

sublocale relaxable \<subseteq> rounds: converging_rounds "relax_round sz target far widen" "\<lambda>_. True"
  "\<lambda>(items, _, _). short_count items"
  by unfold_locales (auto simp: relax_round_def Let_def dest!: widen_pass_count split: prod.splits)

context relaxable
begin

lemma widened_trans: "list_all2 (rel_stream_item widened) xs ys \<Longrightarrow> list_all2 (rel_stream_item widened) ys zs \<Longrightarrow>
    list_all2 (rel_stream_item widened) xs zs"
proof -
  have "rel_stream_item widened x y \<Longrightarrow> rel_stream_item widened y z \<Longrightarrow> rel_stream_item widened x z" for x y z
    by (cases x; cases y; cases z) (auto simp: widened_def widen_wide)
  then show "list_all2 (rel_stream_item widened) xs ys \<Longrightarrow> list_all2 (rel_stream_item widened) ys zs \<Longrightarrow> ?thesis"
    by (rule list_all2_trans)
qed

lemma widened_refl: "list_all2 (rel_stream_item widened) xs xs"
  by (rule list_all2_refl) (auto simp: widened_def intro: stream_item.rel_refl)

text \<open>The loop returns; its items are the given ones with some branches widened, its label map is
  the layout of the returned items, its count is the number of widened branches, and no branch of
  the returned items is too far from its target.\<close>

lemma relax_loop:
  "\<exists>ys labels n. while_changed (relax_round sz target far widen) (items, Map.empty, 0) = Some (ys, labels, n) \<and>
     labels = label_offsets sz ys 0 Map.empty \<and> list_all2 (rel_stream_item widened) items ys \<and>
     short_count ys + n = short_count items \<and>
     (\<forall>us b vs l. ys = us @ Branch b # vs \<longrightarrow> labels (target b) = Some l \<longrightarrow> \<not> far b l (stream_size sz us))"
proof -
  let ?I = "\<lambda>(ys, _, n). list_all2 (rel_stream_item widened) items ys \<and> short_count ys + n = short_count items"
  have "?I (fst (relax_round sz target far widen u))" if "?I u" for u
  proof -
    obtain xs m n where u: "u = (xs, m, n)" by (metis prod.exhaust)
    obtain ys k where w: "widen_pass sz target far widen (label_offsets sz xs 0 Map.empty) xs 0 = (ys, k)"
      by (metis prod.exhaust)
    then show ?thesis
      using that widened_trans [OF _ widen_pass_widened [OF w]] widen_pass_count [OF w]
      by (auto simp: u relax_round_def)
  qed
  from rounds.loop_preserves [where s = "(items, Map.empty, 0)" and I = ?I, OF TrueI _ this] obtain t u where
    t: "while_changed (relax_round sz target far widen) (items, Map.empty, 0) = Some t" and I: "?I u"
    and q: "relax_round sz target far widen u = (t, False)"
    using widened_refl by auto
  obtain xs m n where u: "u = (xs, m, n)" by (metis prod.exhaust)
  obtain ys k where w: "widen_pass sz target far widen (label_offsets sz xs 0 Map.empty) xs 0 = (ys, k)"
    by (metis prod.exhaust)
  have k: "k = 0" and t': "t = (ys, label_offsets sz xs 0 Map.empty, n)"
    using q by (auto simp: u relax_round_def w)
  note quiet = widen_pass_quiet [OF w [unfolded k]]
  then have "\<forall>us b vs l. ys = us @ Branch b # vs \<longrightarrow> label_offsets sz ys 0 Map.empty (target b) = Some l \<longrightarrow>
      \<not> far b l (stream_size sz us)"
    by (auto split: option.splits)
  then show ?thesis using t t' quiet I u by auto
qed

end

section \<open>The interface of the emission pass\<close>

text \<open>
  A pass that walks the stream with the running offset and appends the code of each item, whose
  length is the item's size: the code of an item stands at the size of what precedes it.
\<close>

locale stream_emission =
  fixes sz :: "'b \<Rightarrow> nat"
    and emit :: "'b stream_item list \<Rightarrow> nat \<Rightarrow> u8 list \<Rightarrow> u8 list"
    and item_code :: "nat \<Rightarrow> 'b stream_item \<Rightarrow> u8 list"
  assumes emit_nil: "emit [] off out = out"
    and emit_cons: "emit (x # xs) off out = emit xs (off + item_size sz x) (out @ item_code off x)"
    and item_code_size: "length (item_code off x) = item_size sz x"
begin

lemma emit_out: "emit xs off out = out @ emit xs off []"
proof (induction xs arbitrary: off out)
  case Nil
  then show ?case by (simp add: emit_nil)
next
  case (Cons x xs)
  show ?case
    unfolding emit_cons by (subst (1 2) Cons.IH) simp
qed

lemma emit_length: "length (emit xs off []) = stream_size sz xs"
  by (induction xs arbitrary: off)
    (simp add: emit_nil, subst emit_cons, subst emit_out, simp add: item_code_size)

lemma emit_append: "emit (xs @ ys) off out = emit ys (off + stream_size sz xs) (emit xs off out)"
  by (induction xs arbitrary: off out) (simp_all add: emit_nil emit_cons add.assoc)

lemma emit_at:
  "read_at (stream_size sz us) (item_size sz x) (emit (us @ x # vs) 0 []) = item_code (stream_size sz us) x"
proof -
  have "emit (us @ x # vs) 0 [] = emit us 0 [] @ item_code (stream_size sz us) x @
      emit vs (stream_size sz us + item_size sz x) []"
    unfolding emit_append emit_cons by (subst emit_out) simp
  then show ?thesis
    by (simp add: read_at_def emit_length item_code_size)
qed

end

end
