(* ===== verification/RiscV64Relaxer.thy ===== *)
theory RiscV64Relaxer
  imports RiscV64Encoder Relaxation
begin

text \<open>
  The RISC-V 64 branch relaxer (EzTargets/RiscV64/src/BranchRelaxation/RiscV64BranchRelaxer.cpp and
  its header): a conditional branch out of the 4 KiB range becomes an inverted branch over a JAL.
  The passes are those of theory Relaxation on the RISC-V branch record; the locale
  \<open>relaxable\<close> is interpreted on it, and the emitted code is shown to reach the labels.
\<close>

section \<open>Branch items\<close>

record rv_branch_item =
  bi_targetId :: mir_id
  bi_isConditional :: bool
  bi_funct3 :: u8
  bi_rs1 :: u8
  bi_rs2 :: u8
  bi_rd :: u8
  bi_isRelaxed :: bool

definition rv_getSize :: "rv_branch_item \<Rightarrow> nat" where
  "rv_getSize b = (if \<not> bi_isConditional b then 4 else if bi_isRelaxed b then 8 else 4)"

definition rv_Jal :: "u8 \<Rightarrow> mir_id \<Rightarrow> rv_branch_item stream_item" where
  "rv_Jal rd targetId = Branch \<lparr>bi_targetId = targetId, bi_isConditional = False, bi_funct3 = 0, bi_rs1 = 0,
     bi_rs2 = 0, bi_rd = rd, bi_isRelaxed = False\<rparr>"

definition rv_Branch :: "u8 \<Rightarrow> u8 \<Rightarrow> u8 \<Rightarrow> mir_id \<Rightarrow> rv_branch_item stream_item" where
  "rv_Branch funct3 rs1 rs2 targetId = Branch \<lparr>bi_targetId = targetId, bi_isConditional = True, bi_funct3 = funct3,
     bi_rs1 = rs1, bi_rs2 = rs2, bi_rd = 0, bi_isRelaxed = False\<rparr>"

section \<open>Building the stream\<close>

type_synonym rv_items = "rv_branch_item stream_item list"

definition rv_relaxer_emitBytes :: "rv_items \<Rightarrow> u8 list \<Rightarrow> rv_items" where
  "rv_relaxer_emitBytes items data = (if data \<noteq> [] then items @ [RawData data] else items)"

definition rv_relaxer_defineLabel :: "rv_items \<Rightarrow> mir_id \<Rightarrow> rv_items" where
  "rv_relaxer_defineLabel items labelId = items @ [LabelDef labelId]"

definition rv_relaxer_emitJal :: "rv_items \<Rightarrow> u8 \<Rightarrow> mir_id \<Rightarrow> rv_items" where
  "rv_relaxer_emitJal items rd targetLabelId = items @ [rv_Jal rd targetLabelId]"

definition rv_relaxer_emitBranch :: "rv_items \<Rightarrow> u8 \<Rightarrow> u8 \<Rightarrow> u8 \<Rightarrow> mir_id \<Rightarrow> rv_items" where
  "rv_relaxer_emitBranch items funct3 rs1 rs2 targetLabelId = items @ [rv_Branch funct3 rs1 rs2 targetLabelId]"

definition rv_relaxer_clear :: "rv_items \<Rightarrow> rv_items" where
  "rv_relaxer_clear items = []"

section \<open>Relaxation\<close>

definition rv_far :: "rv_branch_item \<Rightarrow> nat \<Rightarrow> nat \<Rightarrow> bool" where
  "rv_far b l off \<longleftrightarrow> bi_isConditional b \<and> \<not> bi_isRelaxed b \<and>
     (let disp = int l - int off in disp < -4096 \<or> disp > 4094)"

definition rv_widen :: "rv_branch_item \<Rightarrow> rv_branch_item" where
  "rv_widen b = b\<lparr>bi_isRelaxed := True\<rparr>"

definition rv_relax_round ::
  "rv_items \<times> (mir_id \<rightharpoonup> nat) \<times> nat \<Rightarrow> (rv_items \<times> (mir_id \<rightharpoonup> nat) \<times> nat) \<times> bool" where
  "rv_relax_round = relax_round rv_getSize bi_targetId rv_far rv_widen"

text \<open>The displacement to a missing label is 0; the difference is truncated to 32 bits.\<close>

definition rv_emit_branch :: "(mir_id \<rightharpoonup> nat) \<Rightarrow> rv_branch_item \<Rightarrow> nat \<Rightarrow> u8 list \<Rightarrow> u8 list" where
  "rv_emit_branch labels b off out =
     (let targetOffset = (case labels (bi_targetId b) of
                            None \<Rightarrow> 0 | Some l \<Rightarrow> (word_of_int (int l - int off) :: u32))
      in if \<not> bi_isConditional b then emitJal out (bi_rd b) targetOffset
         else if bi_isRelaxed b then
           let invFunct3 = (bi_funct3 b XOR 1);
               out = emitBranch out invFunct3 (bi_rs1 b) (bi_rs2 b) 8
           in emitJal out 0 (targetOffset - 4)
         else emitBranch out (bi_funct3 b) (bi_rs1 b) (bi_rs2 b) targetOffset)"

primrec rv_emit_items :: "(mir_id \<rightharpoonup> nat) \<Rightarrow> rv_items \<Rightarrow> nat \<Rightarrow> u8 list \<Rightarrow> u8 list" where
  "rv_emit_items labels [] off out = out"
| "rv_emit_items labels (item # items) off out =
     (case item of
        RawData bs \<Rightarrow> rv_emit_items labels items (off + length bs) (out @ bs)
      | LabelDef i \<Rightarrow> rv_emit_items labels items off out
      | Branch b \<Rightarrow> rv_emit_items labels items (off + rv_getSize b) (rv_emit_branch labels b off out))"

text \<open>The result is the returned count, the output code and label map, and the items left behind.\<close>

definition rv_relaxAndResolve :: "rv_items \<Rightarrow> (nat \<times> u8 list \<times> (mir_id \<rightharpoonup> nat) \<times> rv_items) option" where
  "rv_relaxAndResolve items =
     (case while_changed rv_relax_round (items, Map.empty, 0) of
        None \<Rightarrow> None
      | Some (ys, labels, relaxedCount) \<Rightarrow> Some (relaxedCount, rv_emit_items labels ys 0 [], labels, ys))"

interpretation rv: relaxable rv_getSize bi_targetId rv_far rv_widen "\<lambda>b. bi_isConditional b \<and> \<not> bi_isRelaxed b"
  by unfold_locales (auto simp: rv_far_def rv_widen_def)

section \<open>The emitted code\<close>

definition rv_branch_words :: "(mir_id \<rightharpoonup> nat) \<Rightarrow> rv_branch_item \<Rightarrow> nat \<Rightarrow> u32 list" where
  "rv_branch_words labels b off =
     (let d = (case labels (bi_targetId b) of None \<Rightarrow> 0 | Some l \<Rightarrow> (word_of_int (int l - int off) :: u32))
      in if \<not> bi_isConditional b then [jal_word (bi_rd b) d]
         else if bi_isRelaxed b then [branch_word (bi_funct3 b XOR 1) (bi_rs1 b) (bi_rs2 b) 8, jal_word 0 (d - 4)]
         else [branch_word (bi_funct3 b) (bi_rs1 b) (bi_rs2 b) d])"

lemma rv_emit_branch_words:
  "rv_emit_branch labels b off out = out @ concat (map (le_bytes 4) (rv_branch_words labels b off))"
  by (simp add: rv_emit_branch_def rv_branch_words_def emit_words Let_def)

lemma rv_branch_words_size: "length (concat (map (le_bytes 4) (rv_branch_words labels b off))) = rv_getSize b"
  by (simp add: rv_branch_words_def rv_getSize_def Let_def)

primrec rv_item_code :: "(mir_id \<rightharpoonup> nat) \<Rightarrow> nat \<Rightarrow> rv_branch_item stream_item \<Rightarrow> u8 list" where
  "rv_item_code labels off (RawData bs) = bs"
| "rv_item_code labels off (LabelDef i) = []"
| "rv_item_code labels off (Branch b) = concat (map (le_bytes 4) (rv_branch_words labels b off))"

interpretation rv_emission: stream_emission rv_getSize "rv_emit_items labels" "rv_item_code labels" for labels
proof
  show "rv_emit_items labels (x # xs) off out =
      rv_emit_items labels xs (off + item_size rv_getSize x) (out @ rv_item_code labels off x)" for x xs off out
    by (cases x) (simp_all add: rv_emit_branch_words)
  show "length (rv_item_code labels off x) = item_size rv_getSize x" for off x
    by (cases x) (simp_all add: rv_branch_words_size del: length_concat)
qed simp

section \<open>Where a branch goes\<close>

text \<open>
  The instructions at \<open>off\<close> transfer control to \<open>l\<close>: a jump by its own displacement, a short
  branch by its own displacement, a widened branch by an inverted branch over the following jump.
\<close>

definition is_branch_word :: "u32 \<Rightarrow> u8 \<Rightarrow> u8 \<Rightarrow> u8 \<Rightarrow> int \<Rightarrow> bool" where
  "is_branch_word w f3 rs1 rs2 d \<longleftrightarrow> dec_opcode w = 0x63 \<and> dec_funct3 w = take_bit 3 (ucast f3) \<and>
     dec_rs1 w = take_bit 5 (ucast rs1) \<and> dec_rs2 w = take_bit 5 (ucast rs2) \<and> sint (dec_bimm w) = d"

definition is_jal_word :: "u32 \<Rightarrow> u8 \<Rightarrow> int \<Rightarrow> bool" where
  "is_jal_word w rd d \<longleftrightarrow> dec_opcode w = 0x6F \<and> dec_rd w = take_bit 5 (ucast rd) \<and> sint (dec_jimm w) = d"

definition rv_reaches :: "u8 list \<Rightarrow> rv_branch_item \<Rightarrow> nat \<Rightarrow> nat \<Rightarrow> bool" where
  "rv_reaches code b off l \<longleftrightarrow>
     (\<exists>w. readWord code (of_nat off) = Some w \<and>
       (if \<not> bi_isConditional b then is_jal_word w (bi_rd b) (int l - int off)
        else if bi_isRelaxed b then
          is_branch_word w (bi_funct3 b XOR 1) (bi_rs1 b) (bi_rs2 b) 8 \<and>
          (\<exists>v. readWord code (of_nat (off + 4)) = Some v \<and> is_jal_word v 0 (int l - int (off + 4)))
        else is_branch_word w (bi_funct3 b) (bi_rs1 b) (bi_rs2 b) (int l - int off)))"

lemma branch_word_is:
  assumes "even d" "- 4096 \<le> d" "d \<le> 4094"
  shows "is_branch_word (branch_word f3 rs1 rs2 (word_of_int d)) f3 rs1 rs2 d"
proof -
  have "sint (word_of_int d :: u32) = d" using assms by (intro sint_word32) simp_all
  then show ?thesis
    using assms b_range_take [of "word_of_int d"]
    by (simp add: is_branch_word_def branch_word_fields b_range_def)
qed

lemma jal_word_is:
  assumes "even d" "- 1048576 \<le> d" "d \<le> 1048574"
  shows "is_jal_word (jal_word rd (word_of_int d)) rd d"
proof -
  have "sint (word_of_int d :: u32) = d" using assms by (intro sint_word32) simp_all
  then show ?thesis
    using assms j_range_take [of "word_of_int d"]
    by (simp add: is_jal_word_def jal_word_fields j_range_def)
qed

lemma rv_getSize_pos: "4 \<le> rv_getSize b \<and> even (rv_getSize b)"
  by (simp add: rv_getSize_def)

text \<open>The code of one branch reaches its label when the jumps are in range.\<close>

lemma rv_branch_reaches:
  assumes code: "read_at off (rv_getSize b) code = concat (map (le_bytes 4) (rv_branch_words labels b off))"
    and fit: "off + rv_getSize b \<le> length code" "length code \<le> 0xFFFFE"
    and lab: "labels (bi_targetId b) = Some l" "l \<le> length code" "even l" "even off" and near: "\<not> rv_far b l off"
  shows "rv_reaches code b off l"
proof -
  let ?d = "int l - int off"
  have d: "even ?d" "- 1048576 \<le> ?d - 4" "?d \<le> 1048574" "word_of_int ?d - 4 = (word_of_int (?d - 4) :: u32)"
    using fit lab rv_getSize_pos [of b] by simp_all
  have at: "read_at off 4 code = le_bytes 4 w \<Longrightarrow> off + 4 \<le> length code \<Longrightarrow> readWord code (of_nat off) = Some w"
    for off w using readWord_at [of off code w] fit(2) by simp
  consider (jal) "\<not> bi_isConditional b" | (wide) "bi_isConditional b" "bi_isRelaxed b"
    | (short) "bi_isConditional b" "\<not> bi_isRelaxed b" by blast
  then show ?thesis
  proof cases
    case jal
    then have "readWord code (of_nat off) = Some (jal_word (bi_rd b) (word_of_int ?d))"
      using at [of off] code lab(1) fit by (simp add: rv_branch_words_def rv_getSize_def del: of_int_diff)
    then show ?thesis using jal d by (simp add: rv_reaches_def jal_word_is del: of_int_diff)
  next
    case wide
    let ?w = "branch_word (bi_funct3 b XOR 1) (bi_rs1 b) (bi_rs2 b) 8" and ?v = "jal_word 0 (word_of_int (?d - 4))"
    have "read_at off (length (le_bytes 4 ?w) + length (le_bytes 4 ?v)) code = le_bytes 4 ?w @ le_bytes 4 ?v"
      using code lab(1) wide d(4) by (simp add: rv_branch_words_def rv_getSize_def del: of_int_diff)
    from read_at_split [OF this] have "readWord code (of_nat off) = Some ?w" "readWord code (of_nat (off + 4)) = Some ?v"
      using at [of off ?w] at [of "off + 4" ?v] fit(1) wide by (simp_all add: rv_getSize_def del: of_nat_add)
    moreover have "is_branch_word ?w (bi_funct3 b XOR 1) (bi_rs1 b) (bi_rs2 b) 8"
      using branch_word_is [of 8 "bi_funct3 b XOR 1" "bi_rs1 b" "bi_rs2 b"] by simp
    moreover have "is_jal_word ?v 0 (int l - int (off + 4))"
      using jal_word_is [of "?d - 4" 0] d by (simp add: algebra_simps)
    ultimately show ?thesis using wide by (simp add: rv_reaches_def del: of_nat_add)
  next
    case short
    then have "readWord code (of_nat off) = Some (branch_word (bi_funct3 b) (bi_rs1 b) (bi_rs2 b) (word_of_int ?d))"
      using at [of off] code lab(1) fit by (simp add: rv_branch_words_def rv_getSize_def del: of_int_diff)
    moreover have "- 4096 \<le> ?d" "?d \<le> 4094" using near short by (auto simp: rv_far_def Let_def)
    ultimately show ?thesis using short d by (simp add: rv_reaches_def branch_word_is del: of_int_diff)
  qed
qed

definition rv_max_size :: "rv_branch_item \<Rightarrow> nat" where
  "rv_max_size b = (if bi_isConditional b then 8 else 4)"

lemma rv_widened_size:
  "list_all2 (rel_stream_item rv.widened) xs ys \<Longrightarrow> stream_size rv_getSize ys \<le> stream_size rv_max_size xs"
  by (rule stream_size_mono, erule list_all2_mono, erule stream_item.rel_cases)
    (auto simp: rv.widened_def rv_widen_def rv_getSize_def rv_max_size_def)

lemma rv_widened_even:
  assumes "list_all2 (rel_stream_item rv.widened) xs ys" "\<And>bs. RawData bs \<in> set xs \<Longrightarrow> even (length bs)" "y \<in> set ys"
  shows "even (item_size rv_getSize y)"
proof -
  from assms(1,3) obtain x where "x \<in> set xs" "rel_stream_item rv.widened x y"
    by (metis in_set_conv_nth list_all2_conv_all_nth)
  then show ?thesis using assms(2) rv_getSize_pos by - (cases x; cases y; auto)
qed

section \<open>Properties\<close>

text \<open>C22: relaxation terminates. The returned items are the given ones with some conditional
  branches widened, and the count is the number of them; the label map is the layout of the
  returned items and the code has the size of that layout; and when the raw data has even length
  and the code cannot outgrow the range of a jump, every branch whose label is defined transfers
  control exactly to it, whatever its form.\<close>

theorem rv_relax_correct:
  assumes "stream_size rv_max_size items \<le> 0xFFFFE" "\<forall>bs. RawData bs \<in> set items \<longrightarrow> even (length bs)"
  shows "\<exists>n code labels ys. rv_relaxAndResolve items = Some (n, code, labels, ys) \<and>
    list_all2 (rel_stream_item rv.widened) items ys \<and> rv.short_count ys + n = rv.short_count items \<and>
    labels = label_offsets rv_getSize ys 0 Map.empty \<and> length code = stream_size rv_getSize ys \<and>
    (\<forall>us b vs l. ys = us @ Branch b # vs \<longrightarrow> labels (bi_targetId b) = Some l \<longrightarrow>
       rv_reaches code b (stream_size rv_getSize us) l)"
proof -
  from rv.relax_loop [of items] obtain ys labels n where
    r: "while_changed rv_relax_round (items, Map.empty, 0) = Some (ys, labels, n)"
      "labels = label_offsets rv_getSize ys 0 Map.empty" "list_all2 (rel_stream_item rv.widened) items ys"
      "rv.short_count ys + n = rv.short_count items"
    and near: "\<And>us b vs l. ys = us @ Branch b # vs \<Longrightarrow> labels (bi_targetId b) = Some l \<Longrightarrow>
      \<not> rv_far b l (stream_size rv_getSize us)"
    unfolding rv_relax_round_def by blast
  define code where "code = rv_emit_items labels ys 0 []"
  have len: "length code = stream_size rv_getSize ys" by (simp add: code_def rv_emission.emit_length)
  have small: "length code \<le> 0xFFFFE" using rv_widened_size [OF r(3)] assms(1) len by linarith
  have ev: "even (stream_size rv_getSize us)" if "set us \<subseteq> set ys" for us
    by (rule stream_size_even, rule rv_widened_even [OF r(3)]) (use assms(2) that in auto)
  have "rv_reaches code b (stream_size rv_getSize us) l"
    if y: "ys = us @ Branch b # vs" and l: "labels (bi_targetId b) = Some l" for us b vs l
  proof (rule rv_branch_reaches [where labels = labels])
    show "read_at (stream_size rv_getSize us) (rv_getSize b) code =
        concat (map (le_bytes 4) (rv_branch_words labels b (stream_size rv_getSize us)))"
      using rv_emission.emit_at [of us "Branch b" labels vs] by (simp add: code_def y)
    from label_offset_size [of rv_getSize ys "bi_targetId b" l] l r(2) obtain us' vs' where
      p: "ys = us' @ LabelDef (bi_targetId b) # vs'" "l = stream_size rv_getSize us'" by auto
    have "stream_size rv_getSize us' \<le> stream_size rv_getSize ys" "set us' \<subseteq> set ys" by (auto simp: p(1))
    then show "l \<le> length code" "even l" using p len ev by simp_all
    show "even (stream_size rv_getSize us)" by (rule ev) (auto simp: y)
  qed (use len small l near [OF y l] in \<open>simp_all add: y\<close>)
  then show ?thesis
    using r len by (intro exI [of _ n] exI [of _ code] exI [of _ labels] exI [of _ ys])
      (simp add: rv_relaxAndResolve_def code_def)
qed

theorem rv_relax_correct_witness:
  "\<exists>n code labels ys. rv_relaxAndResolve [rv_Branch 1 5 6 7, RawData (replicate 5000 0), LabelDef 7] = Some (n, code, labels, ys) \<and>
    length code = stream_size rv_getSize ys"
proof -
  let ?items = "[rv_Branch 1 5 6 7, RawData (replicate 5000 0), LabelDef 7]"
  have "stream_size rv_max_size ?items \<le> 0xFFFFE" "\<forall>bs. RawData bs \<in> set ?items \<longrightarrow> even (length bs)"
    by (auto simp: rv_Branch_def rv_max_size_def)
  from rv_relax_correct [OF this] show ?thesis by blast
qed

text \<open>neither the relaxer nor \<open>emitJal\<close> checks the range of a jump: a displacement of one
  mebibyte is encoded as minus one mebibyte.\<close>

theorem emitJal_out_of_range:
  "\<exists>w. emitJal [] rd 0x100000 = le_bytes 4 w \<and> sint (dec_jimm w) = - 0x100000"
proof -
  have "signed_take_bit 20 (0x100000 AND NOT 1) = (word_of_int (- 0x100000) :: u32)"
    by (simp add: signed_take_bit_eq_if_negative mask_eq_exp_minus_1)
  then show ?thesis
    using sint_word32 [of "- 0x100000"]
    by (intro exI [of _ "jal_word rd 0x100000"]) (simp add: emit_words jal_word_fields)
qed

end
