(* ===== verification/RiscV64Relocation.thy ===== *)
theory RiscV64Relocation
  imports RiscV64Encoder
begin

text \<open>
  The RISC-V 64 relocation resolver
  (EzTargets/RiscV64/src/Relocation/RiscV64RelocationResolver.cpp): in-place patching of branches,
  jumps, \<open>auipc\<close> instructions and 32-bit data fields of the text buffer. \<open>None\<close> is undefined
  behaviour: an access outside the buffer, or the overflow of the signed rounding addition.
\<close>

definition rv_reloc_disp :: "u64 \<Rightarrow> u64 \<Rightarrow> u32" where
  "rv_reloc_disp targetOffset relocOffset = ucast (targetOffset - relocOffset)"

definition rv_patch_branch :: "u8 list \<Rightarrow> u64 \<Rightarrow> u64 \<Rightarrow> (u8 list \<times> bool) option" where
  "rv_patch_branch text relocOffset targetOffset =
     (case classifyBranch text relocOffset of
        None \<Rightarrow> None
      | Some None \<Rightarrow> Some (text, False)
      | Some (Some br) \<Rightarrow>
          let disp = rv_reloc_disp targetOffset relocOffset
          in (case br of
                IsJal rd \<Rightarrow> patchJalDisp text relocOffset disp
              | IsBranch funct3 rs1 rs2 \<Rightarrow> patchBranchDisp text relocOffset disp))"

definition rv_patch_auipc :: "u32 \<Rightarrow> u32 \<Rightarrow> u32" where
  "rv_patch_auipc word disp =
     (let hi20 = signed_drop_bit 12 (disp + 0x800)
      in (word AND 0xFFF) OR push_bit 12 (hi20 AND 0xFFFFF))"

definition rv_patch_pcrel :: "u8 list \<Rightarrow> u64 \<Rightarrow> u64 \<Rightarrow> (u8 list \<times> bool) option" where
  "rv_patch_pcrel text relocOffset targetOffset =
     (let disp = rv_reloc_disp targetOffset relocOffset
      in (case readWord text relocOffset of
            None \<Rightarrow> None
          | Some word \<Rightarrow>
              if word AND 0x7F = 0x17 then
                if sint disp + 0x800 \<ge> 2 ^ 31 then None
                else map_option (\<lambda>t. (t, True)) (writeWord text relocOffset (rv_patch_auipc word disp))
              else rv_writeDisp32 text relocOffset disp))"

definition rv_reloc_patch :: "u8 list \<Rightarrow> code_relocation \<Rightarrow> u64 \<Rightarrow> reloc_type \<Rightarrow> (u8 list \<times> bool) option" where
  "rv_reloc_patch text reloc targetOffset type =
     (let relocOffset = rl_address reloc
      in if \<not> fits relocOffset 4 text then Some (text, False)
         else if type = BranchRel32 then rv_patch_branch text relocOffset targetOffset
         else if type = PCRel32 then rv_patch_pcrel text relocOffset targetOffset
         else Some (text, False))"

definition rv_getRelocationFieldOffset :: "u8 list \<Rightarrow> code_relocation \<Rightarrow> reloc_type \<Rightarrow> u64" where
  "rv_getRelocationFieldOffset text reloc type = rl_address reloc"

section \<open>The high and the low part of a displacement\<close>

lemma signed_take_shift: "signed_take_bit 11 w = take_bit 12 (w + 0x800) - 0x800" for w :: u32
proof -
  have "signed_take_bit 11 (of_int k :: u32) = take_bit 12 (of_int k + 0x800) - 0x800" for k
  proof -
    have "signed_take_bit 11 (of_int k :: u32) = of_int (signed_take_bit 11 k)"
      by (rule signed_take_bit_of_int)
    also have "\<dots> = of_int (take_bit 12 (k + 0x800)) - 0x800"
      by (simp add: signed_take_bit_eq_take_bit_shift)
    also have "\<dots> = take_bit 12 (of_int (k + 0x800)) - 0x800"
      by (simp only: take_bit_of_int)
    finally show ?thesis by simp
  qed
  from this [of "uint w"] show ?thesis by simp
qed
lemma hi20_bits: "push_bit 12 (signed_drop_bit 12 x AND 0xFFFFF) = push_bit 12 (drop_bit 12 x)" for x :: u32
  by (rule bit_word_eqI) (auto simp: mask_take word_bits bit_signed_drop_bit_iff)

text \<open>The upper immediate and the sign-extended low twelve bits of the displacement add up to it.\<close>

lemma auipc_split: "push_bit 12 (signed_drop_bit 12 (d + 0x800) AND 0xFFFFF) + signed_take_bit 11 d = d" for d :: u32
proof -
  have "push_bit 12 (drop_bit 12 (d + 0x800)) + take_bit 12 (d + 0x800) = d + 0x800"
    by (rule bits_ident)
  then show ?thesis unfolding hi20_bits signed_take_shift by (simp add: algebra_simps)
qed
lemma rv_patch_auipc_fields:
  "dec_opcode (rv_patch_auipc w d) = dec_opcode w" "dec_rd (rv_patch_auipc w d) = dec_rd w"
  "dec_uimm (rv_patch_auipc w d) = push_bit 12 (drop_bit 12 (d + 0x800))"
  unfolding rv_patch_auipc_def Let_def hi20_bits
  by (rule bit_word_eqI; auto simp: dec_opcode_def dec_rd_def dec_uimm_def mask_take word_bits)+

lemma ucast_minus: "word_of_int (int (unat t) - int (unat a)) = (ucast (t - a) :: u32)" for t a :: u64
proof -
  have "take_bit 32 (take_bit 64 x - take_bit 64 y) = take_bit 32 (x - y)" for x y :: int
    by (subst (1 2) take_bit_diff [symmetric]) (simp add: take_bit_take_bit)
  then show ?thesis by transfer simp
qed

lemma reloc_disp_exact:
  assumes "- (2 ^ 31) \<le> int (unat t) - int (unat a)" "int (unat t) - int (unat a) < 2 ^ 31"
  shows "sint (rv_reloc_disp t a) = int (unat t) - int (unat a)"
  using sint_word32 [OF assms] by (simp only: rv_reloc_disp_def ucast_minus)

lemma dec_opcode_mask: "w AND 0x7F = dec_opcode w"
  by (simp add: mask_take dec_opcode_def)

section \<open>Properties\<close>

text \<open>A branch relocation on a jump or a conditional branch whose target is in the range of
  the instruction makes it transfer control to the target, and keeps its opcode.\<close>

theorem rv_reloc_branch_reaches:
  assumes "length text < 2 ^ 63" "unat (rl_address r) + 4 \<le> length text" "readWord text (rl_address r) = Some w"
    and "even (unat t) = even (unat (rl_address r))"
    and "dec_opcode w = 0x6F \<and> \<bar>int (unat t) - int (unat (rl_address r))\<bar> \<le> 1048574 \<or>
      dec_opcode w = 0x63 \<and> \<bar>int (unat t) - int (unat (rl_address r))\<bar> \<le> 4094"
  shows "\<exists>b w'. rv_reloc_patch text r t BranchRel32 = Some (b, True) \<and> readWord b (rl_address r) = Some w' \<and>
    dec_opcode w' = dec_opcode w \<and>
    int (unat (rl_address r)) + sint (if dec_opcode w = 0x6F then dec_jimm w' else dec_bimm w') = int (unat t)"
proof -
  let ?a = "rl_address r" and ?d = "rv_reloc_disp t (rl_address r)"
  have guard: "fits ?a 4 text" using assms(1,2) by (simp add: fits_lit)
  have d: "sint ?d = int (unat t) - int (unat ?a)"
    by (rule reloc_disp_exact) (use assms(5) in auto)
  have ev: "even (sint ?d)" unfolding d using assms(4) by presburger
  from assms(5) consider (jal) "dec_opcode w = 0x6F" "j_range ?d" | (br) "dec_opcode w = 0x63" "b_range ?d"
    using ev d by (auto simp: j_range_def b_range_def abs_le_iff)
  then show ?thesis
  proof cases
    case jal
    from patch_in [OF assms(1,2), of "\<lambda>word. (word AND NOT 0xFFFFF000) OR encodeJImm ?d"] assms(3) obtain b w' where
      b: "patchJalDisp text ?a ?d = Some (b, True)" "readWord b ?a = Some w'"
      and w': "w' = (w AND NOT 0xFFFFF000) OR encodeJImm ?d"
      unfolding patchJalDisp_def by auto
    note patch_jal_fields [of w ?d, folded w', unfolded j_range_take [OF jal(2)]]
    then show ?thesis
      using b d guard jal assms(3)
      by (intro exI [of _ b] exI [of _ w'])
        (simp add: rv_reloc_patch_def rv_patch_branch_def classifyBranch_def classify_word_dec)
  next
    case br
    from patch_in [OF assms(1,2), of "\<lambda>word. (word AND NOT 0xFE000F80) OR encodeBImm ?d"] assms(3) obtain b w' where
      b: "patchBranchDisp text ?a ?d = Some (b, True)" "readWord b ?a = Some w'"
      and w': "w' = (w AND NOT 0xFE000F80) OR encodeBImm ?d"
      unfolding patchBranchDisp_def by auto
    note patch_branch_fields [of w ?d, folded w', unfolded b_range_take [OF br(2)]]
    then show ?thesis
      using b d guard br assms(3)
      by (intro exI [of _ b] exI [of _ w'])
        (simp add: rv_reloc_patch_def rv_patch_branch_def classifyBranch_def classify_word_dec)
  qed
qed

theorem rv_reloc_branch_reaches_witness:
  "\<exists>b w'. rv_reloc_patch (emitJal [] 1 0) \<lparr>rl_type = BranchRel32, rl_section = Text, rl_srcRef = 3, rl_address = 0\<rparr> 2048
      BranchRel32 = Some (b, True) \<and> readWord b 0 = Some w' \<and> sint (dec_jimm w') = 2048"
proof -
  let ?r = "\<lparr>rl_type = BranchRel32, rl_section = Text, rl_srcRef = 3, rl_address = 0\<rparr>"
  have "readWord (emitJal [] 1 0) (rl_address ?r) = Some (jal_word 1 0)" by (simp add: emit_words readWord_0)
  from rv_reloc_branch_reaches [OF _ _ this, of 2048] show ?thesis
    by (auto simp: emit_words jal_word_fields)
qed

text \<open>C23: a PC-relative relocation on an \<open>auipc\<close> rounds the upper part so that adding the
  sign-extended low twelve bits of the displacement, which the following instruction holds, gives
  exactly the target; the destination register is kept.\<close>

theorem rv_reloc_auipc_exact:
  assumes "length text < 2 ^ 63" "unat (rl_address r) + 4 \<le> length text" "readWord text (rl_address r) = Some w"
    and "dec_opcode w = 0x17"
    and "- (2 ^ 31) \<le> int (unat t) - int (unat (rl_address r))" "int (unat t) - int (unat (rl_address r)) < 2 ^ 31 - 0x800"
  shows "\<exists>b w'. rv_reloc_patch text r t PCRel32 = Some (b, True) \<and> readWord b (rl_address r) = Some w' \<and>
    dec_opcode w' = 0x17 \<and> dec_rd w' = dec_rd w \<and>
    int (unat (rl_address r)) + sint (dec_uimm w' + signed_take_bit 11 (ucast (t - rl_address r))) = int (unat t)"
proof -
  let ?a = "rl_address r" and ?d = "rv_reloc_disp t (rl_address r)"
  let ?w = "rv_patch_auipc w ?d"
  have guard: "fits ?a 4 text" using assms(1,2) by (simp add: fits_lit)
  have d: "sint ?d = int (unat t) - int (unat ?a)"
    by (rule reloc_disp_exact) (use assms(5,6) in auto)
  have "dec_uimm ?w + signed_take_bit 11 ?d = ?d"
    using auipc_split [of ?d] by (simp only: rv_patch_auipc_fields hi20_bits)
  moreover have "rv_patch_pcrel text ?a t = Some (write_at (unat ?a) (le_bytes 4 ?w) text, True)"
    using assms d by (simp add: rv_patch_pcrel_def Let_def dec_opcode_mask writeWord_in)
  moreover have "readWord (write_at (unat ?a) (le_bytes 4 ?w) text) ?a = Some ?w"
    by (rule readWord_write [OF assms(2)])
  ultimately show ?thesis
    using guard assms(4) d
    by (intro exI [of _ "write_at (unat ?a) (le_bytes 4 ?w) text"] exI [of _ ?w])
      (simp add: rv_reloc_patch_def Let_def rv_patch_auipc_fields(1,2) flip: rv_reloc_disp_def)
qed

theorem rv_reloc_auipc_exact_witness:
  "\<exists>b w'. rv_reloc_patch (le_bytes 4 (0x297 :: u32)) \<lparr>rl_type = PCRel32, rl_section = Text, rl_srcRef = 3, rl_address = 0\<rparr>
      0x12FFF PCRel32 = Some (b, True) \<and> readWord b 0 = Some w' \<and>
      sint (dec_uimm w' + signed_take_bit 11 (ucast (0x12FFF :: u64))) = 0x12FFF"
proof -
  let ?r = "\<lparr>rl_type = PCRel32, rl_section = Text, rl_srcRef = 3, rl_address = 0\<rparr>"
  have "readWord (le_bytes 4 (0x297 :: u32)) (rl_address ?r) = Some 0x297" by (simp add: readWord_0)
  from rv_reloc_auipc_exact [OF _ _ this, of "0x12FFF"] show ?thesis
    by (auto simp: dec_opcode_def)
qed

end
