(* ===== verification/X86_64Encoder.thy ===== *)
theory X86_64Encoder
  imports EmitterTypes
begin

text \<open>
  The x86-64 instruction encoder (EzTargets/X86_64/src/Encoding/X86_64InstructionEncoder.cpp, with
  include/Encoding/X86_64EncodingDesc.h and X86_64InstructionEncoder.h): one definition per encoding
  form, over descriptors and resolved operands. An encoding form returns the bytes with the
  instruction appended and the relocation metadata, or \<open>None\<close> for the result false. The instruction
  table is generated at build time, so descriptors are arguments; their arrays are lists of which
  the first \<open>count\<close> entries are valid. 64-bit immediates and displacements are words.
\<close>

section \<open>Descriptors and operands\<close>

datatype condition_code =
  CC_O | CC_NO | CC_B | CC_AE | CC_E | CC_NE | CC_BE | CC_A | CC_S | CC_NS | CC_P | CC_NP | CC_L | CC_GE | CC_LE | CC_G

primrec cc_code :: "condition_code \<Rightarrow> u8" where
  "cc_code CC_O = 0x0" | "cc_code CC_NO = 0x1" | "cc_code CC_B = 0x2" | "cc_code CC_AE = 0x3"
| "cc_code CC_E = 0x4" | "cc_code CC_NE = 0x5" | "cc_code CC_BE = 0x6" | "cc_code CC_A = 0x7"
| "cc_code CC_S = 0x8" | "cc_code CC_NS = 0x9" | "cc_code CC_P = 0xA" | "cc_code CC_NP = 0xB"
| "cc_code CC_L = 0xC" | "cc_code CC_GE = 0xD" | "cc_code CC_LE = 0xE" | "cc_code CC_G = 0xF"

datatype x86_slot_kind =
  NoSlot | RegSlot | RmReg | RmMem | Imm8 | Imm16 | Imm32 | Imm64 | Imm8Signed | Rel8 | Rel32 | CondCode | VexReg

datatype x86_form =
  NoForm | Rr | Rm | Mr | Ri | MovRI | Movzx | Movsx | Lea | Unary | Test | Shift | ImulRR | ImulRI | Div
  | Jcc | Jmp | Call | Ret | Push | Pop | Nop | Syscall | Setcc | Sse | Cvt | Vex

datatype x86_reg_class = GPR | FPR | AnyReg

record x86_binding =
  xb_slot :: x86_slot_kind
  xb_operandIndex :: u8
  xb_regClass :: x86_reg_class

record x86_desc =
  xd_form :: x86_form
  xd_prefixes :: u8
  xd_rexW :: u8
  xd_digit :: u8
  xd_opcode :: "u8 list"
  xd_opcodeLen :: u8
  xd_operandCount :: u8
  xd_operands :: "x86_binding list"
  xd_sizeOperand :: u8
  xd_coalesceSrc :: u8
  xd_relocOperand :: u8
  xd_shiftByCL :: bool
  xd_movabs :: bool
  xd_byteRex :: bool
  xd_condCode :: u8
  xd_hasSseVariant :: bool
  xd_ssePrefixes :: u8
  xd_sseOpcode :: "u8 list"
  xd_sseOpcodeLen :: u8
  xd_vexL :: u8
  xd_vexW :: u8

record x86_memory =
  xm_base :: u8
  xm_index :: u8
  xm_scale :: u8
  xm_disp :: u64
  xm_ripRel :: bool
  xm_needsReloc :: bool

datatype x86_operand_kind = NoOperand | Register | Immediate | Memory

record x86_operand =
  xo_kind :: x86_operand_kind
  xo_reg :: u8
  xo_isFpr :: bool
  xo_sizeBytes :: u8
  xo_imm :: u64
  xo_mem :: x86_memory
  xo_needsReloc :: bool

definition EncPrefix66 :: u8 where "EncPrefix66 = push_bit 0 1"
definition EncPrefix67 :: u8 where "EncPrefix67 = push_bit 1 1"
definition EncPrefixF2 :: u8 where "EncPrefixF2 = push_bit 2 1"
definition EncPrefixF3 :: u8 where "EncPrefixF3 = push_bit 3 1"
definition EncPrefixF0 :: u8 where "EncPrefixF0 = push_bit 4 1"

section \<open>Bytes\<close>

definition NoReg :: u8 where "NoReg = 0xFF"

definition encodeModRM :: "u8 \<Rightarrow> u8 \<Rightarrow> u8 \<Rightarrow> u8" where
  "encodeModRM md reg rm = push_bit 6 (md AND 0x03) OR push_bit 3 (reg AND 0x07) OR (rm AND 0x07)"

definition encodeSIB :: "u8 \<Rightarrow> u8 \<Rightarrow> u8 \<Rightarrow> u8" where
  "encodeSIB scalePower index base = push_bit 6 (scalePower AND 0x03) OR push_bit 3 (index AND 0x07) OR (base AND 0x07)"

definition rexByte :: "bool \<Rightarrow> bool \<Rightarrow> bool \<Rightarrow> bool \<Rightarrow> u8" where
  "rexByte w r x b = 0x40 OR (if w then 0x08 else 0) OR (if r then 0x04 else 0) OR (if x then 0x02 else 0) OR (if b then 0x01 else 0)"

record rex =
  rex_w :: bool
  rex_r :: bool
  rex_x :: bool
  rex_b :: bool

definition rex_none :: rex where
  "rex_none = \<lparr>rex_w = False, rex_r = False, rex_x = False, rex_b = False\<rparr>"

definition rex_isNeeded :: "rex \<Rightarrow> bool" where
  "rex_isNeeded r \<longleftrightarrow> rex_w r \<or> rex_r r \<or> rex_x r \<or> rex_b r"

definition rex_encode :: "rex \<Rightarrow> u8" where
  "rex_encode r = rexByte (rex_w r) (rex_r r) (rex_x r) (rex_b r)"

definition low3 :: "u8 \<Rightarrow> u8" where "low3 enc = enc AND 0x07"
definition low4 :: "u8 \<Rightarrow> u8" where "low4 enc = enc AND 0x0F"
definition extBit :: "u8 \<Rightarrow> bool" where "extBit enc \<longleftrightarrow> drop_bit 3 enc AND 0x01 \<noteq> 0"

definition scaleToPower :: "u8 \<Rightarrow> u8" where
  "scaleToPower scale =
     (if scale = 1 then 0 else if scale = 2 then 1 else if scale = 4 then 2 else if scale = 8 then 3 else 0)"

definition emitImm :: "u8 list \<Rightarrow> u64 \<Rightarrow> nat \<Rightarrow> u8 list" where
  "emitImm out val bytes = out @ map (\<lambda>i. ucast (drop_bit (i * 8) val AND 0xFF)) [0..<bytes]"

section \<open>ModR/M, SIB and displacement\<close>

record modrm_plan =
  pl_bytes :: "u8 list"
  pl_hasReloc :: bool
  pl_relocOffsetWithin :: nat
  pl_relocBits :: u8

definition plan_of :: "u8 list \<Rightarrow> modrm_plan" where
  "plan_of bs = \<lparr>pl_bytes = bs, pl_hasReloc = False, pl_relocOffsetWithin = 0, pl_relocBits = 32\<rparr>"

definition buildRegisterModRM :: "u8 \<Rightarrow> u8 \<Rightarrow> rex \<Rightarrow> modrm_plan \<times> rex" where
  "buildRegisterModRM regField rmEncoding rx =
     (plan_of [encodeModRM 3 regField (low3 rmEncoding)], rx\<lparr>rex_b := extBit rmEncoding\<rparr>)"

text \<open>The choice of displacement: the mod field and whether 1 or 4 bytes follow.\<close>

definition fits_imm8 :: "u64 \<Rightarrow> bool" where
  "fits_imm8 v \<longleftrightarrow> sint v \<ge> -128 \<and> sint v \<le> 127"

definition choose_disp :: "u64 \<Rightarrow> u8 \<Rightarrow> u8 \<times> bool \<times> bool" where
  "choose_disp disp baseLow =
     (if disp = 0 then (if baseLow = 5 then (1, True, False) else (0, False, False))
      else if fits_imm8 disp then (1, True, False)
      else (2, False, True))"

definition emit_disp :: "u8 list \<Rightarrow> u64 \<Rightarrow> bool \<Rightarrow> bool \<Rightarrow> u8 list" where
  "emit_disp bs disp emitDisp8 emitDisp32 =
     (if emitDisp8 then emitImm bs disp 1 else if emitDisp32 then emitImm bs disp 4 else bs)"

definition buildMemoryModRM :: "u8 \<Rightarrow> x86_memory \<Rightarrow> rex \<Rightarrow> modrm_plan \<times> rex" where
  "buildMemoryModRM regField mem rx =
     (if xm_ripRel mem then
        let bs = [encodeModRM 0 regField 5];
            p = (if xm_needsReloc mem
                 then (plan_of bs)\<lparr>pl_hasReloc := True, pl_relocOffsetWithin := length bs, pl_relocBits := 32\<rparr>
                 else plan_of bs)
        in (p\<lparr>pl_bytes := emitImm bs (xm_disp mem) 4\<rparr>, rx)
      else if xm_base mem = NoReg \<and> xm_index mem = NoReg then
        (plan_of (emitImm [encodeModRM 0 regField 4, encodeSIB 0 4 5] (xm_disp mem) 4), rx)
      else if xm_index mem \<noteq> NoReg then
        let rx = rx\<lparr>rex_x := extBit (xm_index mem)\<rparr>
        in if xm_base mem = NoReg then
             (plan_of (emitImm [encodeModRM 0 regField 4,
                encodeSIB (scaleToPower (xm_scale mem)) (low3 (xm_index mem)) 5] (xm_disp mem) 4), rx)
           else
             let baseLow = low3 (xm_base mem);
                 rx = rx\<lparr>rex_b := extBit (xm_base mem)\<rparr>;
                 (md, emitDisp8, emitDisp32) = choose_disp (xm_disp mem) baseLow;
                 bs = [encodeModRM md regField 4,
                       encodeSIB (scaleToPower (xm_scale mem)) (low3 (xm_index mem)) baseLow]
             in (plan_of (emit_disp bs (xm_disp mem) emitDisp8 emitDisp32), rx)
      else
        let baseLow = low3 (xm_base mem);
            rx = rx\<lparr>rex_b := extBit (xm_base mem)\<rparr>;
            needSib = (baseLow = 4);
            (md, emitDisp8, emitDisp32) = choose_disp (xm_disp mem) baseLow;
            bs = [encodeModRM md regField (if needSib then 4 else baseLow)] @ (if needSib then [encodeSIB 0 4 baseLow] else [])
        in (plan_of (emit_disp bs (xm_disp mem) emitDisp8 emitDisp32), rx))"

section \<open>Descriptor queries\<close>

text \<open>An operand pointer is its index in the operand list.\<close>

definition findBinding :: "x86_desc \<Rightarrow> x86_slot_kind \<Rightarrow> x86_binding option" where
  "findBinding desc slot = find (\<lambda>b. xb_slot b = slot) (take (unat (xd_operandCount desc)) (xd_operands desc))"

definition resolve :: "x86_desc \<Rightarrow> x86_operand list \<Rightarrow> x86_slot_kind \<Rightarrow> nat option" where
  "resolve desc operands slot =
     (case findBinding desc slot of
        None \<Rightarrow> None
      | Some b \<Rightarrow> if unat (xb_operandIndex b) \<ge> length operands then None else Some (unat (xb_operandIndex b)))"

definition or_else :: "'a option \<Rightarrow> 'a option \<Rightarrow> 'a option" where
  "or_else a b = (case a of None \<Rightarrow> b | Some x \<Rightarrow> Some x)"

definition resolveSize :: "x86_desc \<Rightarrow> x86_operand list \<Rightarrow> u8" where
  "resolveSize desc operands =
     (if xd_sizeOperand desc \<noteq> 0xFF \<and> unat (xd_sizeOperand desc) < length operands
      then xo_sizeBytes (operands ! unat (xd_sizeOperand desc))
      else (case find (\<lambda>b. (xb_slot b = RegSlot \<or> xb_slot b = RmReg) \<and> unat (xb_operandIndex b) < length operands \<and>
                       xo_kind (operands ! unat (xb_operandIndex b)) = Register)
                   (take (unat (xd_operandCount desc)) (xd_operands desc)) of
              Some b \<Rightarrow> xo_sizeBytes (operands ! unat (xb_operandIndex b))
            | None \<Rightarrow> 8))"

definition emitLegacyPrefixes :: "u8 list \<Rightarrow> u8 \<Rightarrow> bool \<Rightarrow> u8 list" where
  "emitLegacyPrefixes out prefixes size16 =
     out @ (if prefixes AND EncPrefixF0 \<noteq> 0 then [0xF0] else [])
         @ (if prefixes AND EncPrefixF2 \<noteq> 0 then [0xF2] else [])
         @ (if prefixes AND EncPrefixF3 \<noteq> 0 then [0xF3] else [])
         @ (if prefixes AND EncPrefix66 \<noteq> 0 \<or> size16 then [0x66] else [])
         @ (if prefixes AND EncPrefix67 \<noteq> 0 then [0x67] else [])"

definition emitRawOpcode :: "u8 list \<Rightarrow> u8 list \<Rightarrow> u8 \<Rightarrow> u8 list" where
  "emitRawOpcode out opcode len = out @ take (unat len) opcode"

definition rexWanted :: "u8 \<Rightarrow> u8 \<Rightarrow> bool" where
  "rexWanted rexWPolicy sizeBytes =
     (if rexWPolicy = 1 then True else if rexWPolicy = 2 then sizeBytes = 8 else False)"

text \<open>The REX prefix is appended when one of its bits is set or a byte register needs it.\<close>

definition emitRex :: "u8 list \<Rightarrow> rex \<Rightarrow> bool \<Rightarrow> u8 list" where
  "emitRex out rx forceRex = (if rex_isNeeded rx \<or> forceRex then out @ [rex_encode rx] else out)"

section \<open>Encoding forms\<close>

text \<open>
  \<open>encodeModRMForm\<close>, on the operand indices: \<open>rmIsMemory\<close> holds when the operand of the memory
  slot is the one that was chosen as the r/m operand.
\<close>

definition rm_is_memory :: "x86_desc \<Rightarrow> nat \<Rightarrow> bool" where
  "rm_is_memory desc rmOp =
     (case findBinding desc RmMem of None \<Rightarrow> False | Some b \<Rightarrow> unat (xb_operandIndex b) = rmOp)"

definition rm_plan :: "bool \<Rightarrow> u8 \<Rightarrow> x86_operand \<Rightarrow> rex \<Rightarrow> modrm_plan \<times> rex" where
  "rm_plan rmIsMemory regField rmOp rx =
     (if rmIsMemory then buildMemoryModRM regField (xo_mem rmOp) rx
      else buildRegisterModRM regField (xo_reg rmOp) rx)"

definition rm_kind_ok :: "x86_operand \<Rightarrow> bool" where
  "rm_kind_ok oper \<longleftrightarrow> xo_kind oper = Register \<or> xo_kind oper = Memory"

definition plan_result :: "nat \<Rightarrow> modrm_plan \<Rightarrow> encode_result \<Rightarrow> encode_result" where
  "plan_result planStart plan result =
     (if pl_hasReloc plan
      then result\<lparr>er_hasReloc := True, er_relocOffset := planStart + pl_relocOffsetWithin plan, er_relocBits := pl_relocBits plan\<rparr>
      else result)"

definition form_opcode :: "x86_desc \<Rightarrow> bool \<Rightarrow> u8 \<Rightarrow> u8 list" where
  "form_opcode desc useSse sizeBytes =
     (let opc = (if useSse then take (unat (xd_sseOpcodeLen desc)) (xd_sseOpcode desc)
                 else take (unat (xd_opcodeLen desc)) (xd_opcode desc));
          byteMinusOne = (\<not> useSse \<and> sizeBytes = 1 \<and> xd_form desc \<in> {Rr, Rm, Mr, Test})
      in if byteMinusOne \<and> opc \<noteq> [] then butlast opc @ [last opc - 1] else opc)"

definition encodeModRMForm ::
  "x86_desc \<Rightarrow> x86_operand list \<Rightarrow> u8 list \<Rightarrow> encode_result \<Rightarrow> (u8 list \<times> encode_result) option" where
  "encodeModRMForm desc operands out result =
     (case resolve desc operands RegSlot of None \<Rightarrow> None
      | Some ri \<Rightarrow>
       (case or_else (resolve desc operands RmReg) (resolve desc operands RmMem) of None \<Rightarrow> None
        | Some mi \<Rightarrow>
          let regOp = operands ! ri; rmOp = operands ! mi
          in if xo_kind regOp \<noteq> Register \<or> \<not> rm_kind_ok rmOp then None
             else
               let rmIsMemory = rm_is_memory desc mi;
                   useSse = (xd_hasSseVariant desc \<and> xo_isFpr regOp);
                   sizeBytes = resolveSize desc operands;
                   rx = rex_none\<lparr>rex_r := extBit (xo_reg regOp),
                                 rex_w := (if useSse then False else rexWanted (xd_rexW desc) sizeBytes)\<rparr>;
                   (plan, rx) = rm_plan rmIsMemory (low3 (xo_reg regOp)) rmOp rx;
                   forceRex = (sizeBytes = 1 \<and> xd_byteRex desc \<and>
                     (low4 (xo_reg regOp) \<ge> 4 \<or> (\<not> rmIsMemory \<and> low4 (xo_reg rmOp) \<ge> 4)));
                   out = emitLegacyPrefixes out (if useSse then xd_ssePrefixes desc else xd_prefixes desc) (\<not> useSse \<and> sizeBytes = 2);
                   out = emitRex out rx forceRex;
                   out = out @ form_opcode desc useSse sizeBytes
               in Some (out @ pl_bytes plan, plan_result (length out) plan result)))"

definition encodeAluImmForm :: "x86_desc \<Rightarrow> x86_operand list \<Rightarrow> u8 list \<Rightarrow> u8 list option" where
  "encodeAluImmForm desc operands out =
     (case resolve desc operands RmReg of None \<Rightarrow> None
      | Some mi \<Rightarrow>
       (case or_else (resolve desc operands Imm8Signed) (resolve desc operands Imm32) of None \<Rightarrow> None
        | Some ii \<Rightarrow>
          let rmOp = operands ! mi; imm = xo_imm (operands ! ii)
          in if xo_kind rmOp \<noteq> Register then None
             else
               let sizeBytes = resolveSize desc operands;
                   fitsImm8 = fits_imm8 imm;
                   rx = rex_none\<lparr>rex_b := extBit (xo_reg rmOp), rex_w := rexWanted (xd_rexW desc) sizeBytes\<rparr>;
                   modrm = [encodeModRM 3 (xd_digit desc) (low3 (xo_reg rmOp))];
                   forceRex = (sizeBytes = 1 \<and> xd_byteRex desc \<and> low4 (xo_reg rmOp) \<ge> 4);
                   out = emitLegacyPrefixes out (xd_prefixes desc) (sizeBytes = 2);
                   out = emitRex out rx forceRex;
                   out = out @ [if sizeBytes = 1 then 0x80 else if fitsImm8 then 0x83 else 0x81];
                   out = out @ modrm
               in Some (if sizeBytes = 1 \<or> fitsImm8 then emitImm out imm 1
                        else if sizeBytes = 2 then emitImm out imm 2
                        else emitImm out imm 4)))"

definition encodeImulImmForm :: "x86_desc \<Rightarrow> x86_operand list \<Rightarrow> u8 list \<Rightarrow> u8 list option" where
  "encodeImulImmForm desc operands out =
     (case resolve desc operands RegSlot of None \<Rightarrow> None
      | Some ri \<Rightarrow>
       (case resolve desc operands RmReg of None \<Rightarrow> None
        | Some mi \<Rightarrow>
         (case or_else (resolve desc operands Imm8Signed) (resolve desc operands Imm32) of None \<Rightarrow> None
          | Some ii \<Rightarrow>
            let regOp = operands ! ri; rmOp = operands ! mi; imm = xo_imm (operands ! ii)
            in if xo_kind regOp \<noteq> Register \<or> xo_kind rmOp \<noteq> Register then None
               else
                 let sizeBytes = resolveSize desc operands;
                     fitsImm8 = fits_imm8 imm;
                     rx = rex_none\<lparr>rex_r := extBit (xo_reg regOp), rex_b := extBit (xo_reg rmOp),
                                   rex_w := rexWanted (xd_rexW desc) sizeBytes\<rparr>;
                     out = emitLegacyPrefixes out (xd_prefixes desc) (sizeBytes = 2);
                     out = emitRex out rx False;
                     out = out @ [if fitsImm8 then 0x6B else 0x69];
                     out = out @ [encodeModRM 3 (low3 (xo_reg regOp)) (low3 (xo_reg rmOp))]
                 in Some (if fitsImm8 then emitImm out imm 1
                          else if sizeBytes = 2 then emitImm out imm 2
                          else emitImm out imm 4))))"

definition encodeMovImmForm :: "x86_desc \<Rightarrow> x86_operand list \<Rightarrow> u8 list \<Rightarrow> u8 list option" where
  "encodeMovImmForm desc operands out =
     (case resolve desc operands RegSlot of None \<Rightarrow> None
      | Some ri \<Rightarrow>
       (case or_else (or_else (or_else (resolve desc operands Imm8) (resolve desc operands Imm16))
                (resolve desc operands Imm32)) (resolve desc operands Imm64) of None \<Rightarrow> None
        | Some ii \<Rightarrow>
          let regOp = operands ! ri; imm = xo_imm (operands ! ii)
          in if xo_kind regOp \<noteq> Register then None
             else
               let sizeBytes = resolveSize desc operands;
                   rd = low3 (xo_reg regOp);
                   extended = extBit (xo_reg regOp)
               in if sizeBytes = 8 then
                    (if sint imm \<ge> -2147483648 \<and> sint imm \<le> 2147483647
                     then Some (emitImm (out @ [rexByte True False False extended, 0xC7, encodeModRM 3 0 rd]) imm 4)
                     else Some (emitImm (out @ [rexByte True False False extended, 0xB8 + rd]) imm 8))
                  else if sizeBytes = 4 then
                    Some (emitImm (out @ (if extended then [rexByte False False False True] else []) @ [0xB8 + rd]) imm 4)
                  else if sizeBytes = 2 then
                    Some (emitImm (out @ [0x66] @ (if extended then [rexByte False False False True] else []) @ [0xB8 + rd]) imm 2)
                  else
                    Some (emitImm (out @ (if extended \<or> low4 (xo_reg regOp) \<ge> 4 then [rexByte False False False extended] else [])
                            @ [0xB0 + rd]) imm 1)))"

definition encodeUnaryForm :: "x86_desc \<Rightarrow> x86_operand list \<Rightarrow> u8 list \<Rightarrow> u8 list option" where
  "encodeUnaryForm desc operands out =
     (case resolve desc operands RmReg of None \<Rightarrow> None
      | Some mi \<Rightarrow>
        let regOp = operands ! mi
        in if xo_kind regOp \<noteq> Register then None
           else
             let sizeBytes = resolveSize desc operands;
                 rx = rex_none\<lparr>rex_b := extBit (xo_reg regOp), rex_w := rexWanted (xd_rexW desc) sizeBytes\<rparr>;
                 forceRex = (sizeBytes = 1 \<and> xd_byteRex desc \<and> low4 (xo_reg regOp) \<ge> 4);
                 out = emitLegacyPrefixes out (xd_prefixes desc) (sizeBytes = 2);
                 out = emitRex out rx forceRex
             in Some (out @ [if sizeBytes = 1 then 0xF6 else 0xF7, encodeModRM 3 (xd_digit desc) (low3 (xo_reg regOp))]))"

definition encodeShiftForm :: "x86_desc \<Rightarrow> x86_operand list \<Rightarrow> u8 list \<Rightarrow> u8 list option" where
  "encodeShiftForm desc operands out =
     (case resolve desc operands RmReg of None \<Rightarrow> None
      | Some mi \<Rightarrow>
        let regOp = operands ! mi
        in if xo_kind regOp \<noteq> Register then None
           else
             let sizeBytes = resolveSize desc operands;
                 rx = rex_none\<lparr>rex_b := extBit (xo_reg regOp), rex_w := rexWanted (xd_rexW desc) sizeBytes\<rparr>;
                 forceRex = (sizeBytes = 1 \<and> xd_byteRex desc \<and> low4 (xo_reg regOp) \<ge> 4);
                 out = emitLegacyPrefixes out (xd_prefixes desc) (sizeBytes = 2);
                 out = emitRex out rx forceRex;
                 modrm = encodeModRM 3 (xd_digit desc) (low3 (xo_reg regOp))
             in if xd_shiftByCL desc then Some (out @ [if sizeBytes = 1 then 0xD2 else 0xD3, modrm])
                else
                  (case or_else (resolve desc operands Imm8) (resolve desc operands Imm8Signed) of None \<Rightarrow> None
                   | Some ii \<Rightarrow>
                     let amount = ucast (xo_imm (operands ! ii)) :: u8
                     in if amount = 1 then Some (out @ [if sizeBytes = 1 then 0xD0 else 0xD1, modrm])
                        else Some (out @ [if sizeBytes = 1 then 0xC0 else 0xC1, modrm, amount])))"

definition encodeSetccForm :: "x86_desc \<Rightarrow> x86_operand list \<Rightarrow> u8 list \<Rightarrow> u8 list option" where
  "encodeSetccForm desc operands out =
     (case resolve desc operands RmReg of None \<Rightarrow> None
      | Some mi \<Rightarrow>
        let regOp = operands ! mi
        in if xo_kind regOp \<noteq> Register then None
           else Some (out @ (if low4 (xo_reg regOp) \<ge> 4 then [rexByte False False False (extBit (xo_reg regOp))] else [])
                  @ [0x0F, 0x90 OR (xd_condCode desc AND 0x0F), encodeModRM 3 0 (low3 (xo_reg regOp))]))"

definition encodeBranchForm ::
  "x86_desc \<Rightarrow> x86_operand list \<Rightarrow> u8 list \<Rightarrow> encode_result \<Rightarrow> bool \<Rightarrow> bool \<Rightarrow> (u8 list \<times> encode_result) option" where
  "encodeBranchForm desc operands out result isJcc allowRegister =
     (case or_else (or_else (resolve desc operands Rel32) (resolve desc operands RegSlot)) (resolve desc operands Imm32) of
        None \<Rightarrow> None
      | Some oi \<Rightarrow>
        let oper = operands ! oi
        in if allowRegister \<and> xo_kind oper = Register then
             let out = emitRex out (rex_none\<lparr>rex_b := extBit (xo_reg oper)\<rparr>) False
             in Some (out @ [0xFF, encodeModRM 3 (xd_digit desc) (low3 (xo_reg oper))], result)
           else
             let out = emitRawOpcode out (xd_opcode desc) (xd_opcodeLen desc);
                 out = (if isJcc \<and> xd_opcodeLen desc > 0 then butlast out @ [last out OR (xd_condCode desc AND 0x0F)] else out);
                 relOffset = length out;
                 disp = (if xo_kind oper = Immediate then xo_imm oper else 0)
             in Some (emitImm out disp 4,
                  if xo_needsReloc oper
                  then result\<lparr>er_hasReloc := True, er_relocOffset := relOffset, er_relocBits := 32, er_isBranch := True\<rparr>
                  else result))"

text \<open>The fields of a VEX prefix.\<close>

definition vex_pp :: "u8 \<Rightarrow> u8" where
  "vex_pp prefixes =
     (if prefixes AND EncPrefix66 \<noteq> 0 then 1
      else if prefixes AND EncPrefixF3 \<noteq> 0 then 2
      else if prefixes AND EncPrefixF2 \<noteq> 0 then 3
      else 0)"

definition vex_map_opcode :: "x86_desc \<Rightarrow> u8 \<times> u8" where
  "vex_map_opcode desc =
     (let opc = xd_opcode desc; len = xd_opcodeLen desc
      in if len = 3 \<and> opc ! 0 = 0x0F \<and> opc ! 1 = 0x38 then (2, opc ! 2)
         else if len = 3 \<and> opc ! 0 = 0x0F \<and> opc ! 1 = 0x3A then (3, opc ! 2)
         else if len = 2 \<and> opc ! 0 = 0x0F then (1, opc ! 1)
         else if len = 1 then (1, opc ! 0)
         else if len > 0 then (1, opc ! (unat len - 1))
         else (1, 0))"

definition inv_bit :: "bool \<Rightarrow> u8" where
  "inv_bit b = (if b then 0 else 1)"

definition vex_prefix :: "bool \<Rightarrow> bool \<Rightarrow> bool \<Rightarrow> u8 \<Rightarrow> u8 \<Rightarrow> u8 \<Rightarrow> u8 \<Rightarrow> u8 \<Rightarrow> u8 list" where
  "vex_prefix rBit xBit bBit opmap vexW invVvvv vexL pp =
     (let invR = inv_bit rBit; invX = inv_bit xBit; invB = inv_bit bBit
      in if opmap = 1 \<and> invX = 1 \<and> invB = 1 \<and> vexW = 0
         then [0xC5, push_bit 7 invR OR push_bit 3 invVvvv OR push_bit 2 vexL OR pp]
         else [0xC4, push_bit 7 invR OR push_bit 6 invX OR push_bit 5 invB OR (opmap AND 0x1F),
               push_bit 7 vexW OR push_bit 3 invVvvv OR push_bit 2 vexL OR pp])"

definition encodeVexForm ::
  "x86_desc \<Rightarrow> x86_operand list \<Rightarrow> u8 list \<Rightarrow> encode_result \<Rightarrow> (u8 list \<times> encode_result) option" where
  "encodeVexForm desc operands out result =
     (case resolve desc operands RegSlot of None \<Rightarrow> None
      | Some ri \<Rightarrow>
       (case or_else (resolve desc operands RmReg) (resolve desc operands RmMem) of None \<Rightarrow> None
        | Some mi \<Rightarrow>
          let regOp = operands ! ri; rmOp = operands ! mi
          in if xo_kind regOp \<noteq> Register \<or> \<not> rm_kind_ok rmOp then None
             else
               let rmIsMemory = rm_is_memory desc mi;
                   sizeBytes = resolveSize desc operands;
                   vexL = (if xd_vexL desc \<noteq> 0xFF then xd_vexL desc else if sizeBytes = 32 then 1 else 0);
                   vexW = xd_vexW desc;
                   pp = vex_pp (xd_prefixes desc);
                   (opmap, opByte) = vex_map_opcode desc;
                   (plan, dummyRex) = rm_plan rmIsMemory (low3 (xo_reg regOp)) rmOp rex_none;
                   invVvvv = (case resolve desc operands VexReg of
                                Some vi \<Rightarrow> if xo_kind (operands ! vi) = Register
                                           then NOT (low4 (xo_reg (operands ! vi))) AND 0x0F else 0x0F
                              | None \<Rightarrow> 0x0F);
                   out = out @ vex_prefix (extBit (xo_reg regOp)) (rex_x dummyRex) (rex_b dummyRex) opmap vexW invVvvv vexL pp;
                   out = out @ [opByte];
                   result = plan_result (length out) plan result;
                   out = out @ pl_bytes plan;
                   out = (case or_else (resolve desc operands Imm8) (resolve desc operands Imm8Signed) of
                            None \<Rightarrow> out
                          | Some ii \<Rightarrow> if xo_kind (operands ! ii) = Immediate then emitImm out (xo_imm (operands ! ii)) 1 else out)
               in Some (out, result)))"

section \<open>The encoder\<close>

definition encodePushPop :: "x86_desc \<Rightarrow> x86_operand list \<Rightarrow> u8 list option" where
  "encodePushPop desc operands =
     (case resolve desc operands RegSlot of None \<Rightarrow> None
      | Some ri \<Rightarrow>
        if xo_kind (operands ! ri) = Register
        then Some (emitRex [] (rex_none\<lparr>rex_b := extBit (xo_reg (operands ! ri))\<rparr>) False
                @ [xd_opcode desc ! 0 + low3 (xo_reg (operands ! ri))])
        else None)"

text \<open>The bytes are staged; the output is extended only when the form succeeds.\<close>

definition encode_form :: "x86_desc \<Rightarrow> x86_operand list \<Rightarrow> (u8 list \<times> encode_result) option" where
  "encode_form desc operands =
     (let result = encode_result_default; plain = map_option (\<lambda>bs. (bs, result))
      in case xd_form desc of
           Rr \<Rightarrow> encodeModRMForm desc operands [] result
         | Rm \<Rightarrow> encodeModRMForm desc operands [] result
         | Mr \<Rightarrow> encodeModRMForm desc operands [] result
         | Test \<Rightarrow> encodeModRMForm desc operands [] result
         | Movzx \<Rightarrow> encodeModRMForm desc operands [] result
         | Movsx \<Rightarrow> encodeModRMForm desc operands [] result
         | Lea \<Rightarrow> encodeModRMForm desc operands [] result
         | Sse \<Rightarrow> encodeModRMForm desc operands [] result
         | Cvt \<Rightarrow> encodeModRMForm desc operands [] result
         | ImulRR \<Rightarrow> encodeModRMForm desc operands [] result
         | Ri \<Rightarrow> plain (encodeAluImmForm desc operands [])
         | ImulRI \<Rightarrow> plain (encodeImulImmForm desc operands [])
         | MovRI \<Rightarrow> plain (encodeMovImmForm desc operands [])
         | Unary \<Rightarrow> plain (encodeUnaryForm desc operands [])
         | Div \<Rightarrow> plain (encodeUnaryForm desc operands [])
         | Shift \<Rightarrow> plain (encodeShiftForm desc operands [])
         | Setcc \<Rightarrow> plain (encodeSetccForm desc operands [])
         | Jcc \<Rightarrow> encodeBranchForm desc operands [] result True False
         | Jmp \<Rightarrow> encodeBranchForm desc operands [] result False True
         | Call \<Rightarrow> encodeBranchForm desc operands [] result False True
         | Push \<Rightarrow> plain (encodePushPop desc operands)
         | Pop \<Rightarrow> plain (encodePushPop desc operands)
         | Ret \<Rightarrow> if xd_opcodeLen desc > 0 then Some (emitRawOpcode [] (xd_opcode desc) (xd_opcodeLen desc), result) else None
         | Nop \<Rightarrow> if xd_opcodeLen desc > 0 then Some (emitRawOpcode [] (xd_opcode desc) (xd_opcodeLen desc), result) else None
         | Syscall \<Rightarrow> if xd_opcodeLen desc > 0 then Some (emitRawOpcode [] (xd_opcode desc) (xd_opcodeLen desc), result) else None
         | Vex \<Rightarrow> encodeVexForm desc operands [] result
         | NoForm \<Rightarrow> None)"

text \<open>On failure the metadata is left as it is; it is not read then.\<close>

definition x86_encode :: "x86_desc \<Rightarrow> x86_operand list \<Rightarrow> u8 list \<Rightarrow> bool \<times> u8 list \<times> encode_result" where
  "x86_encode desc operands out =
     (case encode_form desc operands of
        None \<Rightarrow> (False, out, encode_result_default)
      | Some (bytes, result) \<Rightarrow> (True, out @ bytes, result))"

section \<open>Moves and branches\<close>

definition x86_encodeRegisterMove :: "x86_operand \<Rightarrow> x86_operand \<Rightarrow> u8 list \<Rightarrow> u8 list" where
  "x86_encodeRegisterMove dst src out =
     (let d = xo_reg dst; s = xo_reg src
      in if xo_isFpr dst \<or> xo_isFpr src \<or> xo_sizeBytes dst \<ge> 16 \<or> xo_sizeBytes src \<ge> 16 then
           if xo_sizeBytes dst = 32 \<or> xo_sizeBytes src = 32 then
             let invR = inv_bit (extBit d); invB = inv_bit (extBit s);
                 out = out @ (if invB = 1 then [0xC5, push_bit 7 invR OR push_bit 3 0x0F OR push_bit 2 1 OR 0]
                              else [0xC4, push_bit 7 invR OR push_bit 6 1 OR push_bit 5 invB OR 1,
                                    push_bit 7 0 OR push_bit 3 0x0F OR push_bit 2 1 OR 0])
             in out @ [0x28, encodeModRM 3 (low3 d) (low3 s)]
           else
             let rx = rex_none\<lparr>rex_r := extBit d, rex_b := extBit s\<rparr>
             in if xo_sizeBytes dst = 16 \<or> xo_sizeBytes src = 16 then
                  emitRex out rx False @ [0x0F, 0x28, encodeModRM 3 (low3 d) (low3 s)]
                else
                  emitRex (out @ [if xo_sizeBytes dst = 4 then 0xF3 else 0xF2]) rx False
                    @ [0x0F, 0x10, encodeModRM 3 (low3 d) (low3 s)]
         else
           let rx = rex_none\<lparr>rex_w := xo_sizeBytes dst = 8, rex_r := extBit s, rex_b := extBit d\<rparr>;
               forceRex = (xo_sizeBytes dst = 1 \<and> (low4 d \<ge> 4 \<or> low4 s \<ge> 4));
               out = (if xo_sizeBytes dst = 2 then out @ [0x66] else out);
               out = emitRex out rx forceRex
           in out @ [if xo_sizeBytes dst = 1 then 0x88 else 0x89, encodeModRM 3 (low3 s) (low3 d)])"

definition kNearJmpOpcode :: u8 where "kNearJmpOpcode = 0xE9"
definition kNearCallOpcode :: u8 where "kNearCallOpcode = 0xE8"
definition kNearJccPrefix :: u8 where "kNearJccPrefix = 0x0F"
definition kNearJccBase :: u8 where "kNearJccBase = 0x80"

definition emitJmpShort :: "u8 list \<Rightarrow> u8 \<Rightarrow> u8 list" where
  "emitJmpShort out disp = out @ [0xEB, disp]"

text \<open>A 32-bit displacement is sign-extended to the 64-bit parameter of \<open>emitImm\<close>.\<close>

definition emitJmpNear :: "u8 list \<Rightarrow> u32 \<Rightarrow> u8 list" where
  "emitJmpNear out disp = emitImm (out @ [kNearJmpOpcode]) (scast disp) 4"

definition emitJccShort :: "u8 list \<Rightarrow> condition_code \<Rightarrow> u8 \<Rightarrow> u8 list" where
  "emitJccShort out cc disp = out @ [0x70 OR (cc_code cc AND 0x0F), disp]"

definition emitJccNear :: "u8 list \<Rightarrow> condition_code \<Rightarrow> u32 \<Rightarrow> u8 list" where
  "emitJccNear out cc disp =
     emitImm (out @ [kNearJccPrefix, kNearJccBase OR (cc_code cc AND 0x0F)]) (scast disp) 4"

text \<open>The result is the displacement offset and the instruction length. The offset of the second
  opcode byte is computed in 64 bits; \<open>offset < size\<close> keeps it from wrapping.\<close>

definition classifyNearBranch :: "u8 list \<Rightarrow> u64 \<Rightarrow> (u64 \<times> u64) option" where
  "classifyNearBranch bytes off =
     (if unat off \<ge> length bytes then None
      else
        let op0 = bytes ! unat off
        in if op0 = kNearJmpOpcode \<or> op0 = kNearCallOpcode then Some (off + 1, 5)
           else if op0 = kNearJccPrefix \<and> unat off + 1 < length bytes \<and> bytes ! (unat off + 1) AND 0xF0 = kNearJccBase
           then Some (off + 2, 6)
           else None)"

definition x86_writeDisp32 :: "u8 list \<Rightarrow> u64 \<Rightarrow> u32 \<Rightarrow> (u8 list \<times> bool) option" where
  "x86_writeDisp32 bytes off val =
     (if \<not> fits off 4 bytes then Some (bytes, False)
      else map_option (\<lambda>b. (b, True)) (writeWord bytes off val))"

end
