(* ===== verification/X86_64Decode.thy ===== *)
theory X86_64Decode
  imports X86_64Encoder
begin

text \<open>
  A decoder for the x86-64 addressing bytes, written from the ModR/M, SIB and REX rules of the
  architecture, and the proof that decoding what the encoder of theory X86_64Encoder emits gives
  back the operands; the bounds and the relocation metadata of an encoded instruction.
\<close>

section \<open>Fields\<close>

definition dec_md :: "u8 \<Rightarrow> u8" where "dec_md m = drop_bit 6 m"
definition dec_regf :: "u8 \<Rightarrow> u8" where "dec_regf m = take_bit 3 (drop_bit 3 m)"
definition dec_rmf :: "u8 \<Rightarrow> u8" where "dec_rmf m = take_bit 3 m"

text \<open>The extension bit of the REX prefix is the fourth bit of a register number.\<close>

definition with_ext :: "bool \<Rightarrow> u8 \<Rightarrow> u8" where
  "with_ext e r = (if e then r OR 8 else r)"

lemma encodeModRM_fields [simp]:
  "dec_md (encodeModRM md reg rm) = take_bit 2 md"
  "dec_regf (encodeModRM md reg rm) = take_bit 3 reg"
  "dec_rmf (encodeModRM md reg rm) = take_bit 3 rm"
  by (rule word8_eqI, simp only: all_less_8 dec_md_def dec_regf_def dec_rmf_def encodeModRM_def mask_take word_bits
      len_of_numeral_defs, simp del: bit_0 flip: One_nat_def)+

lemma encodeSIB_ModRM: "encodeSIB s i b = encodeModRM s i b"
  by (simp add: encodeSIB_def encodeModRM_def)

lemma low3_take: "low3 r = take_bit 3 r"
  by (simp add: low3_def mask_take)

lemma low4_take: "low4 r = take_bit 4 r"
  by (simp add: low4_def mask_take)

lemma extBit_bit: "extBit r \<longleftrightarrow> bit r 3"
  by (simp add: extBit_def mask_take bit_iff_odd_drop_bit take_bit_Suc_0 flip: even_iff_mod_2_eq_zero)

lemma with_ext_low: "with_ext (extBit r) (take_bit 3 r) = low4 r"
proof -
  have "(8 :: u8) = push_bit 3 1" by simp
  then show ?thesis
    by (intro bit_word_eqI) (auto simp: with_ext_def extBit_bit low4_take word_bits bit_1_iff numeral_eq_Suc less_Suc_eq)
qed

lemma with_ext_low4: "take_bit 3 r = 4 \<Longrightarrow> with_ext (extBit r) 4 = low4 r"
  using with_ext_low [of r] by simp

section \<open>Addressing bytes\<close>

datatype x86_rm =
    Direct u8
  | RipRel u64
  | Mem "u8 option" "(u8 \<times> u8) option" u64

definition dec_disp8 :: "u8 list \<Rightarrow> (u64 \<times> u8 list) option" where
  "dec_disp8 bs = (case bs of [] \<Rightarrow> None | b # rest \<Rightarrow> Some (scast b, rest))"

definition dec_disp32 :: "u8 list \<Rightarrow> (u64 \<times> u8 list) option" where
  "dec_disp32 bs = (if length bs < 4 then None else Some (scast (le_word (take 4 bs) :: u32), drop 4 bs))"

definition dec_disp :: "u8 \<Rightarrow> u8 list \<Rightarrow> (u64 \<times> u8 list) option" where
  "dec_disp md bs = (if md = 0 then Some (0, bs) else if md = 1 then dec_disp8 bs else dec_disp32 bs)"

text \<open>\<open>x\<close> and \<open>b\<close> are the REX extension bits of the index and of the r/m or base register. A SIB
  index of 4 without extension means no index, a SIB base of 5 without displacement no base.\<close>

definition decode_rm :: "bool \<Rightarrow> bool \<Rightarrow> u8 list \<Rightarrow> (x86_rm \<times> u8 list) option" where
  "decode_rm x b bytes =
     (case bytes of [] \<Rightarrow> None
      | m # bs \<Rightarrow>
        let md = dec_md m; rm = dec_rmf m
        in if md = 3 then Some (Direct (with_ext b rm), bs)
           else if rm = 4 then
             (case bs of [] \<Rightarrow> None
              | s # bs \<Rightarrow>
                let idx = with_ext x (dec_regf s); index = (if idx = 4 then None else Some (idx, dec_md s))
                in if md = 0 \<and> dec_rmf s = 5 then map_option (\<lambda>(d, r). (Mem None index d, r)) (dec_disp32 bs)
                   else map_option (\<lambda>(d, r). (Mem (Some (with_ext b (dec_rmf s))) index d, r)) (dec_disp md bs))
           else if md = 0 \<and> rm = 5 then map_option (\<lambda>(d, r). (RipRel d, r)) (dec_disp32 bs)
           else map_option (\<lambda>(d, r). (Mem (Some (with_ext b rm)) None d, r)) (dec_disp md bs))"

text \<open>What a memory operand of the encoder means. An index with low bits 4 and no extension (the
  stack pointer) has no encoding; a displacement must fit in 32 signed bits.\<close>

definition mem_meaning :: "x86_memory \<Rightarrow> x86_rm" where
  "mem_meaning mem =
     (if xm_ripRel mem then RipRel (xm_disp mem)
      else Mem (if xm_base mem = NoReg then None else Some (low4 (xm_base mem)))
               (if xm_index mem = NoReg then None else Some (low4 (xm_index mem), scaleToPower (xm_scale mem)))
               (xm_disp mem))"

definition fits_imm32 :: "u64 \<Rightarrow> bool" where
  "fits_imm32 v \<longleftrightarrow> scast (ucast v :: u32) = v"

definition mem_ok :: "x86_memory \<Rightarrow> bool" where
  "mem_ok mem \<longleftrightarrow> fits_imm32 (xm_disp mem) \<and> (xm_index mem \<noteq> NoReg \<longrightarrow> low4 (xm_index mem) \<noteq> 4)"

lemma emitImm_le: "emitImm out v n = out @ le_bytes n v"
proof -
  have "ucast (w AND 0xFF) = (ucast w :: u8)" for w :: u64
    by (rule bit_word_eqI) (simp add: mask_take word_bits)
  then show ?thesis by (simp add: emitImm_def le_bytes_def mult.commute)
qed

lemma le_word_u32: "le_word (le_bytes 4 v) = (ucast v :: u32)" for v :: u64
proof -
  have "le_bytes 4 v = le_bytes 4 (ucast v :: u32)"
    by (rule nth_equalityI) (auto intro!: bit_word_eqI simp: word_bits)
  then show ?thesis by (simp add: le_word_le_bytes_full)
qed

lemma dec_disp32_le [simp]: "fits_imm32 v \<Longrightarrow> dec_disp32 (le_bytes 4 v @ rest) = Some (v, rest)"
  by (simp add: dec_disp32_def le_word_u32 fits_imm32_def)

lemma scast_imm8: "fits_imm8 v \<Longrightarrow> scast (ucast v :: u8) = v"
proof -
  assume "fits_imm8 v"
  then have "bit v (min 7 n) = bit v n" if "n < 64" for n
    using sint_range_bits [of 7 v n] that by (simp add: fits_imm8_def)
  then show ?thesis
    by (intro bit_word_eqI) (auto simp: bit_simps word_bits min_def split: if_splits)
qed

lemma scast_imm32: "sint v \<ge> -2147483648 \<and> sint v \<le> 2147483647 \<Longrightarrow> fits_imm32 v"
proof -
  assume "sint v \<ge> -2147483648 \<and> sint v \<le> 2147483647"
  then have "bit v (min 31 n) = bit v n" if "n < 64" for n
    using sint_range_bits [of 31 v n] that by simp
  then show ?thesis
    unfolding fits_imm32_def by (intro bit_word_eqI) (auto simp: bit_simps word_bits min_def split: if_splits)
qed

lemma dec_disp8_le [simp]: "fits_imm8 v \<Longrightarrow> dec_disp8 (le_bytes 1 v @ rest) = Some (v, rest)"
  by (simp add: dec_disp8_def le_bytes_Suc [of 0, simplified] scast_imm8)

text \<open>The displacement chosen for a base register decodes to the displacement of the operand.\<close>

lemma choose_disp_dec:
  assumes "choose_disp disp baseLow = (md, e8, e32)" "fits_imm32 disp"
  obtains d where "\<And>bs. emit_disp bs disp e8 e32 = bs @ d" "\<And>rest. dec_disp md (d @ rest) = Some (disp, rest)"
    "md \<in> {0, 1, 2}" "md = 0 \<Longrightarrow> baseLow \<noteq> 5" "take_bit 2 md = md" "length d \<le> 4"
proof -
  consider (none) "disp = 0" "baseLow \<noteq> 5" | (byte) "fits_imm8 disp" "disp \<noteq> 0 \<or> baseLow = 5"
    | (dword) "\<not> fits_imm8 disp" "disp \<noteq> 0"
    by (cases "disp = 0") (auto simp: fits_imm8_def)
  then show thesis
  proof cases
    case none
    then show ?thesis using assms(1) by (intro that [of "[]"]) (auto simp: choose_disp_def emit_disp_def dec_disp_def)
  next
    case byte
    then show ?thesis using assms(1)
      by (intro that [of "le_bytes 1 disp"])
        (auto simp: choose_disp_def emit_disp_def dec_disp_def emitImm_le simp del: One_nat_def split: if_splits)
  next
    case dword
    then show ?thesis using assms
      by (intro that [of "le_bytes 4 disp"]) (auto simp: choose_disp_def emit_disp_def dec_disp_def emitImm_le split: if_splits)
  qed
qed

lemma scale_two_bits: "take_bit 2 (scaleToPower s) = scaleToPower s"
  by (simp add: scaleToPower_def)

lemma take3_lit [simp]: "take_bit 3 (5 :: u8) = 5" "take_bit 3 (4 :: u8) = 4" "take_bit 2 (3 :: u8) = 3"
  by simp_all

lemma with_ext_4: "with_ext False 4 = 4"
  by (simp add: with_ext_def)

lemma low3_idem: "take_bit 3 (take_bit 3 r) = take_bit 3 r" for r :: u8
  by simp

lemma memory_roundtrip:
  assumes plan: "buildMemoryModRM regField mem rx = (plan, rx')" and rx: "\<not> rex_x rx" "\<not> rex_b rx" and ok: "mem_ok mem"
  shows "decode_rm (rex_x rx') (rex_b rx') (pl_bytes plan @ rest) = Some (mem_meaning mem, rest)"
    "dec_regf (hd (pl_bytes plan)) = take_bit 3 regField"
proof -
  have f: "fits_imm32 (xm_disp mem)" and idx: "xm_index mem \<noteq> NoReg \<Longrightarrow> low4 (xm_index mem) \<noteq> 4"
    using ok by (auto simp: mem_ok_def)
  note calc = plan_of_def emitImm_le encodeSIB_ModRM low3_take with_ext_low with_ext_low4 with_ext_4 scale_two_bits
  have "decode_rm (rex_x rx') (rex_b rx') (pl_bytes plan @ rest) = Some (mem_meaning mem, rest) \<and>
    dec_regf (hd (pl_bytes plan)) = take_bit 3 regField"
  proof (cases "xm_ripRel mem")
    case True
    then show ?thesis using plan rx f
      by (auto simp: buildMemoryModRM_def decode_rm_def mem_meaning_def Let_def calc)
  next
    case rip: False
    show ?thesis
    proof (cases "xm_base mem = NoReg")
      case True
      then show ?thesis using plan rx f rip idx
        by (cases "xm_index mem = NoReg")
          (auto simp: buildMemoryModRM_def decode_rm_def mem_meaning_def Let_def calc)
    next
      case base: False
      obtain md e8 e32 where c: "choose_disp (xm_disp mem) (low3 (xm_base mem)) = (md, e8, e32)" by (metis prod.exhaust)
      from choose_disp_dec [OF c f] obtain d where
        d: "\<And>bs. emit_disp bs (xm_disp mem) e8 e32 = bs @ d" "\<And>rest. dec_disp md (d @ rest) = Some (xm_disp mem, rest)"
          "md \<in> {0, 1, 2}" "md = 0 \<Longrightarrow> low3 (xm_base mem) \<noteq> 5" "take_bit 2 md = md" by metis
      have m3: "md \<noteq> 3" using d(3) by auto
      show ?thesis
        using plan rx f rip base idx c d(1,2,4,5) m3
        by (cases "xm_index mem = NoReg"; cases "low3 (xm_base mem) = 4")
          (auto simp: buildMemoryModRM_def decode_rm_def mem_meaning_def Let_def calc)
    qed
  qed
  then show "decode_rm (rex_x rx') (rex_b rx') (pl_bytes plan @ rest) = Some (mem_meaning mem, rest)"
    "dec_regf (hd (pl_bytes plan)) = take_bit 3 regField" by simp_all
qed

lemma register_roundtrip:
  "buildRegisterModRM regField r rx = (plan, rx') \<Longrightarrow>
   decode_rm x (rex_b rx') (pl_bytes plan @ rest) = Some (Direct (low4 r), rest) \<and>
   dec_regf (hd (pl_bytes plan)) = take_bit 3 regField"
  by (auto simp: buildRegisterModRM_def plan_of_def decode_rm_def Let_def low3_take with_ext_low)

section \<open>The REX prefix\<close>

text \<open>The extension bits an instruction has, absent a prefix they are zero.\<close>

definition rex_bit :: "nat \<Rightarrow> u8 list \<Rightarrow> bool" where
  "rex_bit k rexb = (case rexb of [] \<Rightarrow> False | q # _ \<Rightarrow> bit q k)"

lemma rexByte_bits:
  "bit (rexByte w r x b) 0 = b" "bit (rexByte w r x b) (Suc 0) = x" "bit (rexByte w r x b) 2 = r" "bit (rexByte w r x b) 3 = w"
  "drop_bit 4 (rexByte w r x b) = 4"
  by (cases w; cases r; cases x; cases b; simp add: rexByte_def bit_iff_odd_drop_bit del: bit_0)+

lemma emitRex_bits:
  "rex_bit 0 (emitRex [] rx f) = rex_b rx" "rex_bit 1 (emitRex [] rx f) = rex_x rx" "rex_bit 2 (emitRex [] rx f) = rex_r rx"
  "rex_bit 3 (emitRex [] rx f) = rex_w rx"
  by (auto simp: rex_bit_def emitRex_def rex_encode_def rexByte_bits rex_isNeeded_def simp del: bit_0)

lemma emitRex_shape: "emitRex [] rx f = [] \<or> (\<exists>q. emitRex [] rx f = [q] \<and> drop_bit 4 q = 4)"
  by (simp add: emitRex_def rex_encode_def rexByte_bits)

lemma emitRex_out: "emitRex out rx f = out @ emitRex [] rx f"
  by (simp add: emitRex_def)

definition legacy :: "u8 set" where
  "legacy = {0xF0, 0xF2, 0xF3, 0x66, 0x67}"

lemma emitLegacy_out: "emitLegacyPrefixes out p s = out @ emitLegacyPrefixes [] p s"
  by (simp add: emitLegacyPrefixes_def)

lemma emitLegacy_set: "set (emitLegacyPrefixes [] p s) \<subseteq> legacy"
  by (auto simp: emitLegacyPrefixes_def legacy_def)

lemma emitLegacy_length: "length (emitLegacyPrefixes [] p s) \<le> 5"
  by (simp add: emitLegacyPrefixes_def)

section \<open>Lengths and relocation fields\<close>

lemma emitRex_length: "length (emitRex [] rx f) \<le> 1"
  by (simp add: emitRex_def)

definition plan_ok :: "modrm_plan \<Rightarrow> bool" where
  "plan_ok plan \<longleftrightarrow> 1 \<le> length (pl_bytes plan) \<and> length (pl_bytes plan) \<le> 6 \<and>
     (pl_hasReloc plan \<longrightarrow> pl_relocOffsetWithin plan + 4 \<le> length (pl_bytes plan) \<and> pl_relocBits plan = 32)"

lemma emit_disp_length: "length (emit_disp bs d e8 e32) \<le> length bs + 4 \<and> length bs \<le> length (emit_disp bs d e8 e32)"
  by (simp add: emit_disp_def emitImm_le)

lemma memory_plan_ok: "buildMemoryModRM regField mem rx = (plan, rx') \<Longrightarrow> plan_ok plan"
proof -
  have "plan_ok (plan_of (emit_disp bs d e8 e32))" if "length bs = 1 \<or> length bs = 2" for bs d e8 e32
    using emit_disp_length [of bs d e8 e32] that by (auto simp: plan_ok_def plan_of_def)
  then show "buildMemoryModRM regField mem rx = (plan, rx') \<Longrightarrow> plan_ok plan"
    by (auto simp: buildMemoryModRM_def Let_def plan_ok_def plan_of_def emitImm_le split: if_splits prod.splits)
qed

lemma rm_plan_ok: "rm_plan m regField oper rx = (plan, rx') \<Longrightarrow> plan_ok plan"
  by (auto simp: rm_plan_def buildRegisterModRM_def plan_ok_def plan_of_def dest: memory_plan_ok split: if_splits)

definition opcode_ok :: "x86_desc \<Rightarrow> bool" where
  "opcode_ok desc \<longleftrightarrow> length (xd_opcode desc) = 3 \<and> unat (xd_opcodeLen desc) \<le> 3 \<and>
     length (xd_sseOpcode desc) = 3 \<and> unat (xd_sseOpcodeLen desc) \<le> 3"

lemma form_opcode_length: "opcode_ok desc \<Longrightarrow> length (form_opcode desc sse sz) \<le> 3"
  by (auto simp: form_opcode_def opcode_ok_def Let_def min_def)

text \<open>An instruction of at most 15 bytes whose relocation field, if any, lies inside it.\<close>

definition instr_ok :: "u8 list \<times> encode_result \<Rightarrow> bool" where
  "instr_ok r \<longleftrightarrow> 1 \<le> length (fst r) \<and> length (fst r) \<le> 15 \<and>
     (er_hasReloc (snd r) \<longrightarrow> er_relocOffset (snd r) + 4 \<le> length (fst r) \<and> er_relocBits (snd r) = 32)"

lemma modrm_form_ok:
  assumes "encodeModRMForm desc operands [] encode_result_default = Some r" "opcode_ok desc"
  shows "instr_ok r"
proof -
  from assms(1) obtain plan rx' m f o1 rx regF oper p s sse sz where
    rp: "rm_plan m regF oper rx = (plan, rx')" and
    r: "r = (emitRex (emitLegacyPrefixes [] p s) rx' f @ form_opcode desc sse sz @ pl_bytes plan,
      plan_result (length (emitRex (emitLegacyPrefixes [] p s) rx' f @ form_opcode desc sse sz)) plan encode_result_default)"
    by (auto simp: encodeModRMForm_def Let_def split: option.splits if_splits prod.splits)
  show ?thesis
    using rm_plan_ok [OF rp] form_opcode_length [OF assms(2), of sse sz] emitLegacy_length [of p s] emitRex_length [of rx' f]
    unfolding r
    by (subst (1 2) emitRex_out) (auto simp: instr_ok_def plan_ok_def plan_result_def encode_result_default_def)
qed

lemma instr_okI:
  "bs \<noteq> [] \<Longrightarrow> length bs \<le> 15 \<Longrightarrow> instr_ok (bs, encode_result_default)"
  by (cases bs) (auto simp: instr_ok_def encode_result_default_def)

lemmas length_calc = emitImm_le emitRex_out [of "emitLegacyPrefixes _ _ _"] emitRex_out [of "_ @ _"] emitRex_out [of "_ # _"]

lemma alu_form_ok: "encodeAluImmForm desc operands [] = Some bs \<Longrightarrow> bs \<noteq> [] \<and> length bs \<le> 12"
  using emitLegacy_length [of "xd_prefixes desc" "resolveSize desc operands = 2"]
  by (auto simp: encodeAluImmForm_def Let_def length_calc emitRex_def split: option.splits if_splits)

lemma imul_form_ok: "encodeImulImmForm desc operands [] = Some bs \<Longrightarrow> bs \<noteq> [] \<and> length bs \<le> 12"
  using emitLegacy_length [of "xd_prefixes desc" "resolveSize desc operands = 2"]
  by (auto simp: encodeImulImmForm_def Let_def length_calc emitRex_def split: option.splits if_splits)

lemma mov_form_ok: "encodeMovImmForm desc operands [] = Some bs \<Longrightarrow> bs \<noteq> [] \<and> length bs \<le> 12"
  by (auto simp: encodeMovImmForm_def Let_def length_calc split: option.splits if_splits)

lemma unary_form_ok: "encodeUnaryForm desc operands [] = Some bs \<Longrightarrow> bs \<noteq> [] \<and> length bs \<le> 12"
  using emitLegacy_length [of "xd_prefixes desc" "resolveSize desc operands = 2"]
  by (auto simp: encodeUnaryForm_def Let_def emitRex_def split: option.splits if_splits)

lemma shift_form_ok: "encodeShiftForm desc operands [] = Some bs \<Longrightarrow> bs \<noteq> [] \<and> length bs \<le> 12"
  using emitLegacy_length [of "xd_prefixes desc" "resolveSize desc operands = 2"]
  by (auto simp: encodeShiftForm_def Let_def emitRex_def split: option.splits if_splits)

lemma setcc_form_ok: "encodeSetccForm desc operands [] = Some bs \<Longrightarrow> bs \<noteq> [] \<and> length bs \<le> 12"
  by (auto simp: encodeSetccForm_def Let_def split: option.splits if_splits)

lemma push_form_ok: "encodePushPop desc operands = Some bs \<Longrightarrow> bs \<noteq> [] \<and> length bs \<le> 12"
  by (auto simp: encodePushPop_def emitRex_def split: option.splits if_splits)

lemma branch_form_ok:
  "encodeBranchForm desc operands [] encode_result_default jcc reg = Some r \<Longrightarrow> opcode_ok desc \<Longrightarrow> instr_ok r"
  by (auto simp: encodeBranchForm_def Let_def emitRawOpcode_def emitRex_def emitImm_le instr_ok_def opcode_ok_def
      encode_result_default_def min_def split: option.splits if_splits)

lemma vex_prefix_length: "length (vex_prefix r x b m w v l p) = 2 \<or> length (vex_prefix r x b m w v l p) = 3"
  by (simp add: vex_prefix_def Let_def)

definition vex_tail :: "x86_desc \<Rightarrow> x86_operand list \<Rightarrow> u8 list" where
  "vex_tail desc operands =
     (case or_else (resolve desc operands Imm8) (resolve desc operands Imm8Signed) of
        None \<Rightarrow> []
      | Some ii \<Rightarrow> if xo_kind (operands ! ii) = Immediate then le_bytes 1 (xo_imm (operands ! ii)) else [])"

lemma vex_tail_out:
  "(case or_else (resolve desc operands Imm8) (resolve desc operands Imm8Signed) of
      None \<Rightarrow> out
    | Some ii \<Rightarrow> if xo_kind (operands ! ii) = Immediate then emitImm out (xo_imm (operands ! ii)) 1 else out) =
   out @ vex_tail desc operands"
  by (simp add: vex_tail_def emitImm_le split: option.split)

lemma vex_form_ok:
  assumes "encodeVexForm desc operands [] encode_result_default = Some r"
  shows "instr_ok r"
proof -
  from assms obtain plan rx' m oper regF a b c d e f g h opB where
    rp: "rm_plan m regF oper rex_none = (plan, rx')" and
    r: "r = (vex_prefix a b c d e f g h @ [opB] @ pl_bytes plan @ vex_tail desc operands,
      plan_result (length (vex_prefix a b c d e f g h @ [opB])) plan encode_result_default)"
    by (auto simp: encodeVexForm_def Let_def vex_tail_out split: option.splits if_splits prod.splits)
  have "length (vex_tail desc operands) \<le> 1" by (simp add: vex_tail_def split: option.split)
  then show ?thesis
    using rm_plan_ok [OF rp] vex_prefix_length [of a b c d e f g h]
    by (auto simp: r instr_ok_def plan_ok_def plan_result_def encode_result_default_def)
qed

lemma encode_form_ok:
  assumes "encode_form desc operands = Some r" "opcode_ok desc"
  shows "instr_ok r"
proof -
  have raw: "emitRawOpcode [] (xd_opcode desc) (xd_opcodeLen desc) \<noteq> [] \<and>
      length (emitRawOpcode [] (xd_opcode desc) (xd_opcodeLen desc)) \<le> 12" if "xd_opcodeLen desc > 0"
    using that assms(2) by (auto simp: emitRawOpcode_def opcode_ok_def min_def unat_gt_0)
  have plain: "instr_ok (bs, encode_result_default)" if "bs \<noteq> [] \<and> length bs \<le> 12" for bs
    using that by (intro instr_okI) auto
  note forms = modrm_form_ok branch_form_ok vex_form_ok
  show ?thesis
    using assms
    by (cases "xd_form desc")
      (auto simp: encode_form_def Let_def raw intro: forms intro!: plain
        dest: alu_form_ok imul_form_ok mov_form_ok unary_form_ok shift_form_ok setcc_form_ok push_form_ok
        split: if_splits)
qed

section \<open>Decoding a whole instruction\<close>

lemma rm_plan_rex: "rm_plan m regF oper rx = (plan, rx') \<Longrightarrow> rex_r rx' = rex_r rx \<and> rex_w rx' = rex_w rx"
  by (auto simp: rm_plan_def buildRegisterModRM_def buildMemoryModRM_def Let_def split: if_splits prod.splits)

definition rm_meaning :: "bool \<Rightarrow> x86_operand \<Rightarrow> x86_rm" where
  "rm_meaning m oper = (if m then mem_meaning (xo_mem oper) else Direct (low4 (xo_reg oper)))"

lemma rm_plan_roundtrip:
  assumes "rm_plan m regF oper rx = (plan, rx')" "\<not> rex_x rx" "\<not> rex_b rx" "m \<longrightarrow> mem_ok (xo_mem oper)"
  shows "decode_rm (rex_x rx') (rex_b rx') (pl_bytes plan @ rest) = Some (rm_meaning m oper, rest) \<and>
    dec_regf (hd (pl_bytes plan)) = take_bit 3 regF \<and> pl_bytes plan \<noteq> []"
proof (cases m)
  case True
  then show ?thesis using assms memory_roundtrip(1) [of regF "xo_mem oper" rx plan rx' rest]
      memory_roundtrip(2) [of regF "xo_mem oper" rx plan rx'] memory_plan_ok [of regF "xo_mem oper" rx plan rx']
    by (auto simp: rm_plan_def rm_meaning_def plan_ok_def)
next
  case False
  then show ?thesis using assms register_roundtrip [of regF "xo_reg oper" rx plan rx' "rex_x rx'" rest]
    by (auto simp: rm_plan_def rm_meaning_def buildRegisterModRM_def plan_of_def)
qed

text \<open>The front of an instruction: legacy prefixes, then a byte of the row \<open>0x4_\<close> is the REX
  prefix, then the opcode, whose length its escape bytes give.\<close>

definition dec_rex :: "u8 list \<Rightarrow> u8 list \<times> u8 list" where
  "dec_rex bs = (case bs of [] \<Rightarrow> ([], []) | q # rest \<Rightarrow> if drop_bit 4 q = 4 then ([q], rest) else ([], bs))"

definition opcode_size :: "u8 list \<Rightarrow> nat" where
  "opcode_size bs = (if hd bs \<noteq> 0x0F then 1 else if hd (tl bs) \<in> {0x38, 0x3A} then 3 else 2)"

definition decode_front :: "u8 list \<Rightarrow> u8 list \<times> u8 list \<times> u8 list \<times> u8 list" where
  "decode_front bytes =
     (let (rexb, rest) = dec_rex (dropWhile (\<lambda>b. b \<in> legacy) bytes)
      in (takeWhile (\<lambda>b. b \<in> legacy) bytes, rexb, take (opcode_size rest) rest, drop (opcode_size rest) rest))"

text \<open>A byte register: without a REX prefix the numbers 4 to 7 are the high bytes of the first four
  registers.\<close>

datatype byte_gpr = LowByte u8 | HighByte u8

definition byte_reg :: "u8 list \<Rightarrow> u8 \<Rightarrow> byte_gpr" where
  "byte_reg rexb n = (if rexb = [] \<and> 4 \<le> n \<and> n < 8 then HighByte (n - 4) else LowByte n)"

text \<open>The opcodes of the map: one byte that is no prefix, or an escape and one or two bytes.\<close>

definition opcode_in_map :: "u8 list \<Rightarrow> bool" where
  "opcode_in_map opc \<longleftrightarrow> opc \<noteq> [] \<and> hd opc \<notin> legacy \<and> drop_bit 4 (hd opc) \<noteq> 4 \<and> length opc = opcode_size opc"

lemma opcode_size_append: "opcode_in_map opc \<Longrightarrow> opcode_size (opc @ rest) = length opc"
proof -
  assume ok: "opcode_in_map opc"
  then obtain a l where o: "opc = a # l" by (auto simp: opcode_in_map_def neq_Nil_conv)
  show ?thesis
  proof (cases "a = 0x0F")
    case True
    then have "l \<noteq> []" using ok o by (auto simp: opcode_in_map_def opcode_size_def split: if_splits)
    then obtain b m where "l = b # m" by (auto simp: neq_Nil_conv)
    then show ?thesis using ok o by (simp add: opcode_in_map_def opcode_size_def)
  qed (use ok o in \<open>simp add: opcode_in_map_def opcode_size_def\<close>)
qed

lemma decode_front_append:
  assumes "set pre \<subseteq> legacy" "rexb = [] \<or> (\<exists>q. rexb = [q] \<and> drop_bit 4 q = 4)" "opcode_in_map opc"
  shows "decode_front (pre @ rexb @ opc @ addr) = (pre, rexb, opc, addr)"
proof -
  have rex: "q \<notin> legacy" if "drop_bit 4 q = 4" for q using that by (auto simp: legacy_def)
  have pre: "\<And>x. x \<in> set pre \<Longrightarrow> x \<in> legacy" using assms(1) by auto
  obtain o1 os where o: "opc = o1 # os" "o1 \<notin> legacy" "drop_bit 4 o1 \<noteq> 4"
    using assms(3) by (cases opc) (auto simp: opcode_in_map_def)
  have "takeWhile (\<lambda>b. b \<in> legacy) (rexb @ opc @ addr) = [] \<and> dropWhile (\<lambda>b. b \<in> legacy) (rexb @ opc @ addr) = rexb @ opc @ addr"
    using assms(2) o rex by auto
  then have "takeWhile (\<lambda>b. b \<in> legacy) (pre @ rexb @ opc @ addr) = pre"
    "dropWhile (\<lambda>b. b \<in> legacy) (pre @ rexb @ opc @ addr) = rexb @ opc @ addr"
    using pre by (simp_all add: takeWhile_append2 dropWhile_append2)
  moreover have "dec_rex (rexb @ opc @ addr) = (rexb, opc @ addr)"
    using assms(2) o by (auto simp: dec_rex_def)
  ultimately show ?thesis
    using opcode_size_append [OF assms(3)] by (simp add: decode_front_def Let_def)
qed

lemma emitLegacy_mem:
  "0xF0 \<in> set (emitLegacyPrefixes [] p s) \<longleftrightarrow> bit p 4" "0xF2 \<in> set (emitLegacyPrefixes [] p s) \<longleftrightarrow> bit p 2"
  "0xF3 \<in> set (emitLegacyPrefixes [] p s) \<longleftrightarrow> bit p 3" "0x66 \<in> set (emitLegacyPrefixes [] p s) \<longleftrightarrow> bit p 0 \<or> s"
  "0x67 \<in> set (emitLegacyPrefixes [] p s) \<longleftrightarrow> bit p 1"
proof -
  have b: "p AND push_bit n 1 \<noteq> 0 \<longleftrightarrow> bit p n" for n :: nat
    by (simp add: and_exp_eq_0_iff_not_bit push_bit_eq_mult)
  show "0xF0 \<in> set (emitLegacyPrefixes [] p s) \<longleftrightarrow> bit p 4" "0xF2 \<in> set (emitLegacyPrefixes [] p s) \<longleftrightarrow> bit p 2"
    "0xF3 \<in> set (emitLegacyPrefixes [] p s) \<longleftrightarrow> bit p 3" "0x66 \<in> set (emitLegacyPrefixes [] p s) \<longleftrightarrow> bit p 0 \<or> s"
    "0x67 \<in> set (emitLegacyPrefixes [] p s) \<longleftrightarrow> bit p 1"
    unfolding emitLegacyPrefixes_def EncPrefix66_def EncPrefix67_def EncPrefixF0_def EncPrefixF2_def EncPrefixF3_def b
    by auto
qed

section \<open>Properties\<close>

text \<open>C24: an instruction of a ModR/M form, read by the rules of the processor from its first byte,
  has the legacy prefixes of the descriptor (and \<open>0x66\<close> for 16 bits), the REX.W bit of its policy,
  the opcode of the descriptor (its last byte less one in the byte variant of an ALU form), and
  addressing bytes that decode, with the extension bits of the prefix, to the r/m operand (register,
  or base, index, scale and displacement) and the register operand, whatever form the encoder
  chose. In an operation of one byte whose descriptor asks for byte prefixes the registers are low
  bytes, never \<open>ah\<close> to \<open>bh\<close>; a byte source of an operation of another size is not covered,
  \<open>movzx_byte_source_without_rex\<close> shows it wrong.\<close>

theorem modrm_form_decodes:
  fixes desc operands ri mi
  defines "sse \<equiv> xd_hasSseVariant desc \<and> xo_isFpr (operands ! ri)" and "sz \<equiv> resolveSize desc operands"
    and "isMem \<equiv> rm_is_memory desc mi"
  defines "prefixes \<equiv> (if sse then xd_ssePrefixes desc else xd_prefixes desc)"
    and "table \<equiv> (if sse then take (unat (xd_sseOpcodeLen desc)) (xd_sseOpcode desc) else take (unat (xd_opcodeLen desc)) (xd_opcode desc))"
  defines "opc \<equiv> (if \<not> sse \<and> sz = 1 \<and> xd_form desc \<in> {Rr, Rm, Mr, Test} then table[length table - 1 := last table - 1] else table)"
  assumes "encodeModRMForm desc operands [] encode_result_default = Some (bytes, res)"
    and "resolve desc operands RegSlot = Some ri"
    and "or_else (resolve desc operands RmReg) (resolve desc operands RmMem) = Some mi"
    and "isMem \<longrightarrow> mem_ok (xo_mem (operands ! mi))"
    and "opcode_in_map opc"
  shows "\<exists>pre rexb addr. decode_front bytes = (pre, rexb, opc, addr) \<and>
    (0x66 \<in> set pre \<longleftrightarrow> bit prefixes 0 \<or> \<not> sse \<and> sz = 2) \<and> (0x67 \<in> set pre \<longleftrightarrow> bit prefixes 1) \<and>
    (0xF2 \<in> set pre \<longleftrightarrow> bit prefixes 2) \<and> (0xF3 \<in> set pre \<longleftrightarrow> bit prefixes 3) \<and> (0xF0 \<in> set pre \<longleftrightarrow> bit prefixes 4) \<and>
    (rex_bit 3 rexb \<longleftrightarrow> \<not> sse \<and> (xd_rexW desc = 1 \<or> xd_rexW desc = 2 \<and> sz = 8)) \<and>
    decode_rm (rex_bit 1 rexb) (rex_bit 0 rexb) addr = Some (rm_meaning isMem (operands ! mi), []) \<and>
    with_ext (rex_bit 2 rexb) (dec_regf (hd addr)) = low4 (xo_reg (operands ! ri)) \<and>
    (sz = 1 \<and> xd_byteRex desc \<longrightarrow>
       byte_reg rexb (low4 (xo_reg (operands ! ri))) = LowByte (low4 (xo_reg (operands ! ri))) \<and>
       (\<not> isMem \<longrightarrow> byte_reg rexb (low4 (xo_reg (operands ! mi))) = LowByte (low4 (xo_reg (operands ! mi)))))"
proof -
  let ?reg = "xo_reg (operands ! ri)" and ?rm = "xo_reg (operands ! mi)"
  define force where "force \<longleftrightarrow> sz = 1 \<and> xd_byteRex desc \<and> (low4 ?reg \<ge> 4 \<or> \<not> isMem \<and> low4 ?rm \<ge> 4)"
  define w where "w \<longleftrightarrow> \<not> sse \<and> rexWanted (xd_rexW desc) sz"
  obtain plan rx' where
    rp: "rm_plan isMem (low3 ?reg) (operands ! mi) (rex_none\<lparr>rex_r := extBit ?reg, rex_w := w\<rparr>) = (plan, rx')"
    by (metis prod.exhaust)
  have form: "form_opcode desc sse sz = opc"
    using assms(11) by (cases table rule: rev_cases)
      (auto simp: form_opcode_def Let_def opc_def table_def [symmetric] opcode_in_map_def)
  have "bytes = emitRex (emitLegacyPrefixes [] prefixes (\<not> sse \<and> sz = 2)) rx' force @ form_opcode desc sse sz @ pl_bytes plan"
    using assms(7-9) rp unfolding force_def w_def prefixes_def isMem_def sse_def sz_def
    by (auto simp: encodeModRMForm_def Let_def split: if_splits prod.splits)
  then have b: "bytes = emitLegacyPrefixes [] prefixes (\<not> sse \<and> sz = 2) @ emitRex [] rx' force @ opc @ pl_bytes plan"
    unfolding form by (subst (asm) emitRex_out) simp
  have rm: "decode_rm (rex_x rx') (rex_b rx') (pl_bytes plan @ []) = Some (rm_meaning isMem (operands ! mi), []) \<and>
      dec_regf (hd (pl_bytes plan)) = take_bit 3 (low3 ?reg) \<and> pl_bytes plan \<noteq> []"
    by (rule rm_plan_roundtrip [OF rp]) (use assms(10) in \<open>simp_all add: rex_none_def\<close>)
  have r: "rex_r rx' = extBit ?reg" "rex_w rx' = w" using rm_plan_rex [OF rp] by simp_all
  have "decode_front bytes = (emitLegacyPrefixes [] prefixes (\<not> sse \<and> sz = 2), emitRex [] rx' force, opc, pl_bytes plan)"
    unfolding b by (rule decode_front_append [OF emitLegacy_set emitRex_shape assms(11)])
  moreover have "rex_bit 3 (emitRex [] rx' force) \<longleftrightarrow> \<not> sse \<and> (xd_rexW desc = 1 \<or> xd_rexW desc = 2 \<and> sz = 8)"
    unfolding emitRex_bits r w_def rexWanted_def by auto
  moreover have "with_ext (rex_bit 2 (emitRex [] rx' force)) (dec_regf (hd (pl_bytes plan))) = low4 ?reg"
    using rm unfolding emitRex_bits r by (simp add: low3_take with_ext_low)
  moreover have "decode_rm (rex_bit 1 (emitRex [] rx' force)) (rex_bit 0 (emitRex [] rx' force)) (pl_bytes plan) =
      Some (rm_meaning isMem (operands ! mi), [])"
    using rm unfolding emitRex_bits by simp
  moreover have "byte_reg (emitRex [] rx' force) (low4 ?reg) = LowByte (low4 ?reg) \<and>
      (\<not> isMem \<longrightarrow> byte_reg (emitRex [] rx' force) (low4 ?rm) = LowByte (low4 ?rm))" if "sz = 1 \<and> xd_byteRex desc"
  proof (cases force)
    case True
    then have "emitRex [] rx' force \<noteq> []" by (simp add: emitRex_def)
    then show ?thesis by (simp add: byte_reg_def)
  next
    case False
    then have "\<not> 4 \<le> low4 ?reg" "\<not> isMem \<longrightarrow> \<not> 4 \<le> low4 ?rm" using that by (auto simp: force_def)
    then show ?thesis by (simp add: byte_reg_def)
  qed
  ultimately show ?thesis using emitLegacy_mem [of prefixes "\<not> sse \<and> sz = 2"] by blast
qed

text \<open>The descriptor of \<open>movq r64, [mem]\<close> and its operands \<open>r9\<close>, \<open>[r12 + rcx * 4 + 0x100]\<close>.\<close>

definition base_desc :: x86_desc where
  "base_desc = \<lparr>xd_form = NoForm, xd_prefixes = 0, xd_rexW = 0, xd_digit = 0xFF, xd_opcode = [0, 0, 0], xd_opcodeLen = 0,
     xd_operandCount = 0, xd_operands = [], xd_sizeOperand = 0xFF, xd_coalesceSrc = 0xFF, xd_relocOperand = 0xFF,
     xd_shiftByCL = False, xd_movabs = False, xd_byteRex = False, xd_condCode = 0, xd_hasSseVariant = False,
     xd_ssePrefixes = 0, xd_sseOpcode = [0, 0, 0], xd_sseOpcodeLen = 0, xd_vexL = 0xFF, xd_vexW = 0\<rparr>"

definition binding :: "x86_slot_kind \<Rightarrow> u8 \<Rightarrow> x86_binding" where
  "binding slot i = \<lparr>xb_slot = slot, xb_operandIndex = i, xb_regClass = GPR\<rparr>"

definition base_operand :: x86_operand where
  "base_operand = \<lparr>xo_kind = Register, xo_reg = 0, xo_isFpr = False, xo_sizeBytes = 8, xo_imm = 0,
     xo_mem = \<lparr>xm_base = NoReg, xm_index = NoReg, xm_scale = 1, xm_disp = 0, xm_ripRel = False, xm_needsReloc = False\<rparr>,
     xo_needsReloc = False\<rparr>"

definition load_desc :: x86_desc where
  "load_desc = base_desc\<lparr>xd_form := Rm, xd_rexW := 1, xd_opcode := [0x8B, 0, 0], xd_opcodeLen := 1, xd_operandCount := 2,
     xd_operands := [binding RegSlot 0, binding RmMem 1]\<rparr>"

definition load_operands :: "x86_operand list" where
  "load_operands = [base_operand\<lparr>xo_reg := 9\<rparr>,
     base_operand\<lparr>xo_kind := Memory, xo_mem := \<lparr>xm_base = 12, xm_index = 1, xm_scale = 4, xm_disp = 0x100,
       xm_ripRel = False, xm_needsReloc = False\<rparr>\<rparr>]"

definition store8_desc :: x86_desc where
  "store8_desc = base_desc\<lparr>xd_form := Rr, xd_rexW := 2, xd_opcode := [0x89, 0, 0], xd_opcodeLen := 1, xd_operandCount := 2,
     xd_operands := [binding RmReg 0, binding RegSlot 1], xd_byteRex := True\<rparr>"

definition store8_operands :: "x86_operand list" where
  "store8_operands = [base_operand\<lparr>xo_reg := 1, xo_sizeBytes := 1\<rparr>, base_operand\<lparr>xo_reg := 6, xo_sizeBytes := 1\<rparr>]"

text \<open>A load with every part of an address, and the byte move \<open>mov cl, sil\<close>, which needs a REX prefix.\<close>

theorem modrm_form_decodes_witness:
  "(\<exists>pre rexb addr. decode_front [0x4D, 0x8B, 0x8C, 0x8C, 0, 1, 0, 0] = (pre, rexb, [0x8B], addr) \<and>
    decode_rm (rex_bit 1 rexb) (rex_bit 0 rexb) addr = Some (Mem (Some 12) (Some (1, 2)) 0x100, []) \<and>
    with_ext (rex_bit 2 rexb) (dec_regf (hd addr)) = 9) \<and>
   (\<exists>pre rexb addr. decode_front [0x40, 0x88, 0xF1] = (pre, rexb, [0x88], addr) \<and>
    byte_reg rexb 6 = LowByte 6 \<and> with_ext (rex_bit 2 rexb) (dec_regf (hd addr)) = 6)"
proof
  have e: "encodeModRMForm load_desc load_operands [] encode_result_default =
      Some ([0x4D, 0x8B, 0x8C, 0x8C, 0, 1, 0, 0], encode_result_default)"
    by code_simp
  have r: "resolve load_desc load_operands RegSlot = Some 0"
    "or_else (resolve load_desc load_operands RmReg) (resolve load_desc load_operands RmMem) = Some 1"
    by code_simp+
  have m: "rm_is_memory load_desc 1 \<longrightarrow> mem_ok (xo_mem (load_operands ! 1))" by code_simp
  have s: "rm_meaning (rm_is_memory load_desc 1) (load_operands ! 1) = Mem (Some 12) (Some (1, 2)) 0x100"
    "low4 (xo_reg (load_operands ! 0)) = 9" "\<not> xd_hasSseVariant load_desc" "resolveSize load_desc load_operands = 8"
    "take (unat (xd_opcodeLen load_desc)) (xd_opcode load_desc) = [0x8B]"
    by code_simp+
  have o: "opcode_in_map [0x8B]" by code_simp
  show "\<exists>pre rexb addr. decode_front [0x4D, 0x8B, 0x8C, 0x8C, 0, 1, 0, 0] = (pre, rexb, [0x8B], addr) \<and>
    decode_rm (rex_bit 1 rexb) (rex_bit 0 rexb) addr = Some (Mem (Some 12) (Some (1, 2)) 0x100, []) \<and>
    with_ext (rex_bit 2 rexb) (dec_regf (hd addr)) = 9"
    using modrm_form_decodes [OF e r m] s(3-5) o unfolding s(1,2) by auto
next
  have e: "encodeModRMForm store8_desc store8_operands [] encode_result_default = Some ([0x40, 0x88, 0xF1], encode_result_default)"
    by code_simp
  have r: "resolve store8_desc store8_operands RegSlot = Some 1"
    "or_else (resolve store8_desc store8_operands RmReg) (resolve store8_desc store8_operands RmMem) = Some 0"
    by code_simp+
  have m: "\<not> rm_is_memory store8_desc 0" by code_simp
  have s: "low4 (xo_reg (store8_operands ! 1)) = 6" "\<not> xd_hasSseVariant store8_desc" "resolveSize store8_desc store8_operands = 1"
    "take (unat (xd_opcodeLen store8_desc)) (xd_opcode store8_desc) = [0x89]" "xd_form store8_desc = Rr" "xd_byteRex store8_desc"
    by code_simp+
  have o: "opcode_in_map [0x88]" by code_simp
  show "\<exists>pre rexb addr. decode_front [0x40, 0x88, 0xF1] = (pre, rexb, [0x88], addr) \<and>
    byte_reg rexb 6 = LowByte 6 \<and> with_ext (rex_bit 2 rexb) (dec_regf (hd addr)) = 6"
    using modrm_form_decodes [OF e r] m s(2-6) o unfolding s(1) by auto
qed

text \<open>C25: encoding appends to the output and, when it fails, leaves it untouched; an encoded
  instruction has between one and fifteen bytes, and a relocation field it reports is a 32-bit
  field inside those bytes.\<close>

theorem x86_encode_bounds:
  assumes "opcode_ok desc" "x86_encode desc operands out = (ok, out', res)"
  shows "if ok then \<exists>bytes. out' = out @ bytes \<and> 1 \<le> length bytes \<and> length bytes \<le> 15 \<and>
      (er_hasReloc res \<longrightarrow> er_relocOffset res + 4 \<le> length bytes \<and> er_relocBits res = 32)
    else out' = out \<and> \<not> er_hasReloc res"
proof (cases "encode_form desc operands")
  case None
  then show ?thesis using assms(2) by (auto simp: x86_encode_def encode_result_default_def)
next
  case (Some r)
  then show ?thesis using assms encode_form_ok [OF Some] by (auto simp: x86_encode_def instr_ok_def split: prod.splits)
qed

theorem x86_encode_bounds_witness:
  "\<exists>bytes. snd (x86_encode load_desc load_operands [0xCC]) = ([0xCC] @ bytes, encode_result_default) \<and> length bytes \<le> 15"
proof -
  have ok: "opcode_ok load_desc" by code_simp
  have e: "x86_encode load_desc load_operands [0xCC] =
      (True, [0xCC, 0x4D, 0x8B, 0x8C, 0x8C, 0, 1, 0, 0], encode_result_default)" by code_simp
  from x86_encode_bounds [OF ok e] show ?thesis by (auto simp: e)
qed

text \<open>the 64-bit immediate move loads exactly its immediate, by the sign-extended 32-bit form
  when it fits and by the 64-bit form otherwise; the register bits are those of the operand.\<close>

theorem mov64_exact:
  assumes "resolve desc operands RegSlot = Some ri" "xo_kind (operands ! ri) = Register" "resolveSize desc operands = 8"
    "encodeMovImmForm desc operands [] = Some bytes"
    "or_else (or_else (or_else (resolve desc operands Imm8) (resolve desc operands Imm16)) (resolve desc operands Imm32))
       (resolve desc operands Imm64) = Some ii"
  shows "rex_bit 3 bytes \<and>
    (if bytes ! 1 = 0xC7
     then decode_rm False (rex_bit 0 bytes) (drop 2 bytes) = Some (Direct (low4 (xo_reg (operands ! ri))), drop 3 bytes) \<and>
       scast (le_word (drop 3 bytes) :: u32) = xo_imm (operands ! ii)
     else with_ext (rex_bit 0 bytes) (bytes ! 1 - 0xB8) = low4 (xo_reg (operands ! ri)) \<and>
       (le_word (drop 2 bytes) :: u64) = xo_imm (operands ! ii))"
proof -
  let ?imm = "xo_imm (operands ! ii)" and ?reg = "xo_reg (operands ! ri)"
  have w: "rex_bit k (rexByte True False False (extBit ?reg) # bs) = bit (rexByte True False False (extBit ?reg)) k" for k bs
    by (simp add: rex_bit_def)
  have small: "0xB8 + take_bit 3 r \<noteq> 0xC7" for r :: u8
  proof
    assume e: "0xB8 + take_bit 3 r = 0xC7"
    have "take_bit 3 r = (0xB8 + take_bit 3 r) - 0xB8" by (simp only: add_diff_cancel_left')
    also have "\<dots> = 0xF" unfolding e by simp
    finally have "take_bit 3 r = 0xF" .
    then have "bit (take_bit 3 r) 3" by simp
    then show False by (simp add: bit_take_bit_iff)
  qed
  show ?thesis
  proof (cases "sint ?imm \<ge> -2147483648 \<and> sint ?imm \<le> 2147483647")
    case True
    then have "fits_imm32 ?imm" using scast_imm32 [of ?imm] by simp
    moreover have b: "bytes = rexByte True False False (extBit ?reg) # 0xC7 # encodeModRM 3 0 (take_bit 3 ?reg) # le_bytes 4 ?imm"
      using assms True by (simp add: encodeMovImmForm_def Let_def emitImm_le low3_take)
    moreover from b have "bytes ! 1 = 0xC7" "drop 2 bytes = encodeModRM 3 0 (take_bit 3 ?reg) # le_bytes 4 ?imm"
      "drop 3 bytes = le_bytes 4 ?imm" "rex_bit 0 bytes = extBit ?reg" "rex_bit 3 bytes"
      by (simp_all add: w rexByte_bits del: bit_0)
    ultimately show ?thesis
      by (simp add: le_word_u32 fits_imm32_def decode_rm_def with_ext_low Let_def)
  next
    case False
    then have b: "bytes = rexByte True False False (extBit ?reg) # (0xB8 + take_bit 3 ?reg) # le_bytes 8 ?imm"
      using assms by (auto simp: encodeMovImmForm_def Let_def emitImm_le low3_take split: if_splits)
    then have "bytes ! 1 = 0xB8 + take_bit 3 ?reg" "drop 2 bytes = le_bytes 8 ?imm" "rex_bit 0 bytes = extBit ?reg" "rex_bit 3 bytes"
      by (simp_all add: w rexByte_bits del: bit_0)
    then show ?thesis
      using small [of ?reg] by (simp add: le_word_le_bytes_full with_ext_low)
  qed
qed

definition movabs_desc :: x86_desc where
  "movabs_desc = base_desc\<lparr>xd_form := MovRI, xd_operandCount := 2, xd_operands := [binding RegSlot 0, binding Imm64 1]\<rparr>"

definition movabs_operands :: "x86_operand list" where
  "movabs_operands = [base_operand\<lparr>xo_reg := 9\<rparr>, base_operand\<lparr>xo_kind := Immediate, xo_imm := 0x123456789\<rparr>]"

theorem mov64_exact_witness:
  "encodeMovImmForm movabs_desc movabs_operands [] = Some [0x49, 0xB9, 0x89, 0x67, 0x45, 0x23, 1, 0, 0, 0] \<and>
   (le_word [0x89, 0x67, 0x45, 0x23, 1, 0, 0, 0] :: u64) = 0x123456789"
proof -
  have e: "encodeMovImmForm movabs_desc movabs_operands [] = Some [0x49, 0xB9, 0x89, 0x67, 0x45, 0x23, 1, 0, 0, 0]"
    by code_simp
  have r: "resolve movabs_desc movabs_operands RegSlot = Some 0" "xo_kind (movabs_operands ! 0) = Register"
    "resolveSize movabs_desc movabs_operands = 8"
    "or_else (or_else (or_else (resolve movabs_desc movabs_operands Imm8) (resolve movabs_desc movabs_operands Imm16))
       (resolve movabs_desc movabs_operands Imm32)) (resolve movabs_desc movabs_operands Imm64) = Some 1"
    by code_simp+
  have i: "xo_imm (movabs_operands ! 1) = 0x123456789" by code_simp
  from mov64_exact [OF r(1-3) e r(4)] show ?thesis by (simp add: e i)
qed

text \<open>The 64-bit ALU immediate form encodes the immediate that was asked for exactly when it
  fits in 32 signed bits; a wider immediate is truncated and the call still succeeds.\<close>

lemma alu_imm64_exact_iff:
  assumes "resolve desc operands RmReg = Some mi" "xo_kind (operands ! mi) = Register" "resolveSize desc operands = 8"
    and "or_else (resolve desc operands Imm8Signed) (resolve desc operands Imm32) = Some ii"
  shows "\<exists>pre imm. encodeAluImmForm desc operands [] = Some (pre @ imm) \<and>
    imm = le_bytes (if fits_imm8 (xo_imm (operands ! ii)) then 1 else 4) (xo_imm (operands ! ii)) \<and>
    ((if fits_imm8 (xo_imm (operands ! ii)) then scast (le_word imm :: u8) else scast (le_word imm :: u32)) =
       xo_imm (operands ! ii) \<longleftrightarrow> fits_imm32 (xo_imm (operands ! ii)))"
proof -
  let ?i = "xo_imm (operands ! ii)"
  have "\<exists>pre. encodeAluImmForm desc operands [] = Some (pre @ le_bytes (if fits_imm8 ?i then 1 else 4) ?i)"
    using assms by (cases "fits_imm8 ?i") (simp_all add: encodeAluImmForm_def Let_def emitImm_le)
  then obtain pre where e: "encodeAluImmForm desc operands [] = Some (pre @ le_bytes (if fits_imm8 ?i then 1 else 4) ?i)"
    by blast
  have "fits_imm32 ?i" if "fits_imm8 ?i"
    using that scast_imm32 [of ?i] by (simp add: fits_imm8_def)
  moreover have "(le_word (le_bytes 1 ?i) :: u8) = ucast ?i"
    by (simp add: le_bytes_Suc [of 0, simplified])
  ultimately show ?thesis
    using scast_imm8 [of ?i] by (intro exI [of _ pre] exI [of _ "le_bytes (if fits_imm8 ?i then 1 else 4) ?i"])
      (auto simp: e le_word_u32 fits_imm32_def simp del: One_nat_def)
qed

definition add64_desc :: x86_desc where
  "add64_desc = base_desc\<lparr>xd_form := Ri, xd_rexW := 1, xd_digit := 0, xd_operandCount := 2,
     xd_operands := [binding RmReg 0, binding Imm8Signed 1]\<rparr>"

definition add64_operands :: "x86_operand list" where
  "add64_operands = [base_operand, base_operand\<lparr>xo_kind := Immediate, xo_imm := 0x100000000\<rparr>]"

theorem alu_imm64_exact_iff_witness:
  "\<not> fits_imm32 (xo_imm (add64_operands ! 1)) \<and> encodeAluImmForm add64_desc add64_operands [] \<noteq> None"
proof -
  have r: "resolve add64_desc add64_operands RmReg = Some 0" "xo_kind (add64_operands ! 0) = Register"
    "resolveSize add64_desc add64_operands = 8"
    "or_else (resolve add64_desc add64_operands Imm8Signed) (resolve add64_desc add64_operands Imm32) = Some 1"
    by code_simp+
  have "\<not> fits_imm32 (xo_imm (add64_operands ! 1))" by code_simp
  then show ?thesis using alu_imm64_exact_iff [OF r] by auto
qed

definition movzx8_desc :: x86_desc where
  "movzx8_desc = base_desc\<lparr>xd_form := Movzx, xd_opcode := [0x0F, 0xB6, 0], xd_opcodeLen := 2, xd_operandCount := 2,
     xd_operands := [binding RegSlot 0, binding RmReg 1], xd_sizeOperand := 0\<rparr>"

text \<open>the byte extension moves of the target description (size taken from the destination, no
  byte REX) are emitted without a REX prefix for a source such as \<open>sil\<close>; without one, the
  register number 6 of a byte operand denotes \<open>dh\<close>.\<close>

theorem movzx_byte_source_without_rex:
  "encode_form movzx8_desc [base_operand\<lparr>xo_sizeBytes := 4\<rparr>, base_operand\<lparr>xo_reg := 6, xo_sizeBytes := 1\<rparr>] =
     Some ([0x0F, 0xB6, 0xC6], encode_result_default)"
  by code_simp

lemma modrm_direct:
  "decode_rm x (extBit r) [encodeModRM 3 g (take_bit 3 r)] = Some (Direct (low4 r), [])"
  "dec_regf (hd [encodeModRM 3 (take_bit 3 g) m]) = take_bit 3 g"
  by (simp_all add: decode_rm_def with_ext_low)

text \<open>a register move of at most 16 bytes is one instruction whose r/m and register fields,
  with the extension bits of its REX prefix, are its two registers: for a general-purpose move the
  destination is the r/m operand, for an SSE move it is the register operand.\<close>

theorem register_move_decodes:
  assumes "xo_sizeBytes dst \<noteq> 32" "xo_sizeBytes src \<noteq> 32"
  shows "\<exists>pre rexb opc m. x86_encodeRegisterMove dst src [] = pre @ rexb @ opc @ [m] \<and>
    (let sse = xo_isFpr dst \<or> xo_isFpr src \<or> xo_sizeBytes dst \<ge> 16 \<or> xo_sizeBytes src \<ge> 16;
         rmReg = (if sse then xo_reg src else xo_reg dst); regReg = (if sse then xo_reg dst else xo_reg src)
     in decode_rm (rex_bit 1 rexb) (rex_bit 0 rexb) [m] = Some (Direct (low4 rmReg), []) \<and>
        with_ext (rex_bit 2 rexb) (dec_regf m) = low4 regReg \<and>
        opc = (if sse then (if xo_sizeBytes dst = 16 \<or> xo_sizeBytes src = 16 then [0x0F, 0x28] else [0x0F, 0x10])
               else [if xo_sizeBytes dst = 1 then 0x88 else 0x89]) \<and>
        (\<not> sse \<longrightarrow> (rex_bit 3 rexb \<longleftrightarrow> xo_sizeBytes dst = 8)))"
proof -
  let ?d = "xo_reg dst" and ?s = "xo_reg src"
  define rx where "rx = rex_none\<lparr>rex_r := extBit ?d, rex_b := extBit ?s\<rparr>"
  define gx where "gx = rex_none\<lparr>rex_w := xo_sizeBytes dst = 8, rex_r := extBit ?s, rex_b := extBit ?d\<rparr>"
  define force where "force \<longleftrightarrow> xo_sizeBytes dst = 1 \<and> (low4 ?d \<ge> 4 \<or> low4 ?s \<ge> 4)"
  have bits: "rex_bit 0 (emitRex [] rx f) = extBit ?s" "rex_bit 2 (emitRex [] rx f) = extBit ?d"
    "rex_bit 0 (emitRex [] gx f) = extBit ?d" "rex_bit 2 (emitRex [] gx f) = extBit ?s"
    "rex_bit 3 (emitRex [] gx f) = (xo_sizeBytes dst = 8)" for f
    by (simp_all add: emitRex_bits rx_def gx_def)
  show ?thesis
  proof (cases "xo_isFpr dst \<or> xo_isFpr src \<or> xo_sizeBytes dst \<ge> 16 \<or> xo_sizeBytes src \<ge> 16")
    case True
    let ?pre = "if xo_sizeBytes dst = 16 \<or> xo_sizeBytes src = 16 then [] else [if xo_sizeBytes dst = 4 then 0xF3 else 0xF2]"
    let ?opc = "if xo_sizeBytes dst = 16 \<or> xo_sizeBytes src = 16 then [0x0F, 0x28] else [0x0F, 0x10]"
    have "x86_encodeRegisterMove dst src [] = ?pre @ emitRex [] rx False @ ?opc @ [encodeModRM 3 (low3 ?d) (low3 ?s)]"
      using True assms by (simp add: x86_encodeRegisterMove_def Let_def rx_def emitRex_out [of "[_]"])
    then show ?thesis
      using True modrm_direct(1) [of _ ?s "low3 ?d"]
      by (intro exI [of _ ?pre] exI [of _ "emitRex [] rx False"] exI [of _ ?opc] exI [of _ "encodeModRM 3 (low3 ?d) (low3 ?s)"])
        (simp add: bits low3_take with_ext_low)
  next
    case False
    let ?pre = "if xo_sizeBytes dst = 2 then [0x66] else []" and ?opc = "[if xo_sizeBytes dst = 1 then 0x88 else 0x89]"
    have "x86_encodeRegisterMove dst src [] = ?pre @ emitRex [] gx force @ ?opc @ [encodeModRM 3 (low3 ?s) (low3 ?d)]"
      using False assms by (simp add: x86_encodeRegisterMove_def Let_def gx_def force_def emitRex_out [of "[_]"])
    then show ?thesis
      using False modrm_direct(1) [of _ ?d "low3 ?s"]
      by (intro exI [of _ ?pre] exI [of _ "emitRex [] gx force"] exI [of _ ?opc] exI [of _ "encodeModRM 3 (low3 ?s) (low3 ?d)"])
        (simp add: bits low3_take with_ext_low)
  qed
qed

theorem register_move_decodes_witness:
  "\<exists>pre rexb opc m. [0x4D, 0x89, 0xC8] = pre @ rexb @ opc @ [m] \<and>
    decode_rm (rex_bit 1 rexb) (rex_bit 0 rexb) [m] = Some (Direct 8, []) \<and> with_ext (rex_bit 2 rexb) (dec_regf m) = 9"
proof -
  let ?d = "base_operand\<lparr>xo_reg := 8\<rparr>" and ?s = "base_operand\<lparr>xo_reg := 9\<rparr>"
  have e: "x86_encodeRegisterMove ?d ?s [] = [0x4D, 0x89, 0xC8]" by code_simp
  have p: "\<not> (xo_isFpr ?d \<or> xo_isFpr ?s \<or> xo_sizeBytes ?d \<ge> 16 \<or> xo_sizeBytes ?s \<ge> 16)"
    "low4 (xo_reg ?d) = 8" "low4 (xo_reg ?s) = 9" "xo_sizeBytes ?d \<noteq> 32" "xo_sizeBytes ?s \<noteq> 32"
    by code_simp+
  from register_move_decodes [OF p(4,5)] show ?thesis
    unfolding e Let_def if_not_P [OF p(1)] p(2,3) by blast
qed

end
