(* ===== verification/X86_64Relaxer.thy ===== *)
theory X86_64Relaxer
  imports X86_64Decode Relaxation
begin

text \<open>
  The x86-64 branch relaxer (EzTargets/X86_64/src/BranchRelaxation/BranchRelaxer.cpp and its
  header): a jump with an 8-bit displacement becomes a near jump with a 32-bit one. The two passes
  are those of theory Relaxation on the x86 branch record; the locales \<open>relaxable\<close> and
  \<open>stream_emission\<close> are interpreted on it, and the emitted code is shown to reach the labels.
\<close>

section \<open>Branch items\<close>

record x86_branch_item =
  xb_targetId :: mir_id
  xb_isConditional :: bool
  xb_condition :: condition_code
  xb_isRelaxed :: bool

definition x86_getSize :: "x86_branch_item \<Rightarrow> nat" where
  "x86_getSize b = (if \<not> xb_isRelaxed b then 2 else if xb_isConditional b then 6 else 5)"

definition x86_Jmp :: "mir_id \<Rightarrow> x86_branch_item stream_item" where
  "x86_Jmp targetId = Branch \<lparr>xb_targetId = targetId, xb_isConditional = False, xb_condition = CC_E, xb_isRelaxed = False\<rparr>"

definition x86_Jcc :: "condition_code \<Rightarrow> mir_id \<Rightarrow> x86_branch_item stream_item" where
  "x86_Jcc cc targetId = Branch \<lparr>xb_targetId = targetId, xb_isConditional = True, xb_condition = cc, xb_isRelaxed = False\<rparr>"

section \<open>Building the stream\<close>

type_synonym x86_items = "x86_branch_item stream_item list"

definition x86_relaxer_emitBytes :: "x86_items \<Rightarrow> u8 list \<Rightarrow> x86_items" where
  "x86_relaxer_emitBytes items data = (if data \<noteq> [] then items @ [RawData data] else items)"

definition x86_relaxer_defineLabel :: "x86_items \<Rightarrow> mir_id \<Rightarrow> x86_items" where
  "x86_relaxer_defineLabel items labelId = items @ [LabelDef labelId]"

definition x86_relaxer_emitJmp :: "x86_items \<Rightarrow> mir_id \<Rightarrow> x86_items" where
  "x86_relaxer_emitJmp items targetLabelId = items @ [x86_Jmp targetLabelId]"

definition x86_relaxer_emitJcc :: "x86_items \<Rightarrow> condition_code \<Rightarrow> mir_id \<Rightarrow> x86_items" where
  "x86_relaxer_emitJcc items cc targetLabelId = items @ [x86_Jcc cc targetLabelId]"

definition x86_relaxer_clear :: "x86_items \<Rightarrow> x86_items" where
  "x86_relaxer_clear items = []"

section \<open>Relaxation\<close>

text \<open>The displacement is measured from the end of the branch in its current form.\<close>

definition x86_far :: "x86_branch_item \<Rightarrow> nat \<Rightarrow> nat \<Rightarrow> bool" where
  "x86_far b l off \<longleftrightarrow>
     (let nextIp = off + x86_getSize b; disp = int l - int nextIp
      in \<not> xb_isRelaxed b \<and> (disp < -128 \<or> disp > 127))"

definition x86_widen :: "x86_branch_item \<Rightarrow> x86_branch_item" where
  "x86_widen b = b\<lparr>xb_isRelaxed := True\<rparr>"

definition x86_relax_round ::
  "x86_items \<times> (mir_id \<rightharpoonup> nat) \<times> nat \<Rightarrow> (x86_items \<times> (mir_id \<rightharpoonup> nat) \<times> nat) \<times> bool" where
  "x86_relax_round = relax_round x86_getSize xb_targetId x86_far x86_widen"

text \<open>\<open>resolvedLabels[id]\<close> inserts 0 for a label that is not defined.\<close>

definition resolve_label :: "(mir_id \<rightharpoonup> nat) \<Rightarrow> mir_id \<Rightarrow> nat" where
  "resolve_label labels i = (case labels i of None \<Rightarrow> 0 | Some l \<Rightarrow> l)"

definition x86_emit_branch :: "nat \<Rightarrow> x86_branch_item \<Rightarrow> nat \<Rightarrow> u8 list \<Rightarrow> u8 list" where
  "x86_emit_branch targetOffset b off out =
     (let branchLen = x86_getSize b;
          nextIp = off + branchLen;
          disp = int targetOffset - int nextIp
      in if \<not> xb_isRelaxed b then
           if xb_isConditional b then emitJccShort out (xb_condition b) (word_of_int disp)
           else emitJmpShort out (word_of_int disp)
         else
           if xb_isConditional b then emitJccNear out (xb_condition b) (word_of_int disp)
           else emitJmpNear out (word_of_int disp))"

primrec x86_emit_items ::
  "(mir_id \<rightharpoonup> nat) \<Rightarrow> x86_items \<Rightarrow> nat \<Rightarrow> u8 list \<Rightarrow> u8 list \<times> (mir_id \<rightharpoonup> nat)" where
  "x86_emit_items labels [] off out = (out, labels)"
| "x86_emit_items labels (item # items) off out =
     (case item of
        RawData bs \<Rightarrow> x86_emit_items labels items (off + length bs) (out @ bs)
      | LabelDef i \<Rightarrow> x86_emit_items labels items off out
      | Branch b \<Rightarrow>
          let targetOffset = resolve_label labels (xb_targetId b);
              labels' = labels(xb_targetId b \<mapsto> targetOffset)
          in x86_emit_items labels' items (off + x86_getSize b) (x86_emit_branch targetOffset b off out))"

text \<open>The labels are laid out once more after the loop. The result is the returned count, the
  output code and label map, and the items left behind.\<close>

definition x86_relaxAndResolve :: "x86_items \<Rightarrow> (nat \<times> u8 list \<times> (mir_id \<rightharpoonup> nat) \<times> x86_items) option" where
  "x86_relaxAndResolve items =
     (case while_changed x86_relax_round (items, Map.empty, 0) of
        None \<Rightarrow> None
      | Some (ys, _, relaxedCount) \<Rightarrow>
          let resolvedLabels = label_offsets x86_getSize ys 0 Map.empty;
              (outCode, resolvedLabels) = x86_emit_items resolvedLabels ys 0 []
          in Some (relaxedCount, outCode, resolvedLabels, ys))"

interpretation x86: relaxable x86_getSize xb_targetId x86_far x86_widen "\<lambda>b. \<not> xb_isRelaxed b"
  by unfold_locales (auto simp: x86_far_def x86_widen_def Let_def)

section \<open>The emitted code\<close>

primrec x86_item_code :: "(mir_id \<rightharpoonup> nat) \<Rightarrow> nat \<Rightarrow> x86_branch_item stream_item \<Rightarrow> u8 list" where
  "x86_item_code labels off (RawData bs) = bs"
| "x86_item_code labels off (LabelDef i) = []"
| "x86_item_code labels off (Branch b) = x86_emit_branch (resolve_label labels (xb_targetId b)) b off []"

lemmas x86_branch_emitters = emitJccShort_def emitJmpShort_def emitJccNear_def emitJmpNear_def
  kNearJmpOpcode_def kNearJccPrefix_def kNearJccBase_def

lemma x86_emit_branch_out: "x86_emit_branch t b off out = out @ x86_emit_branch t b off []"
  by (simp add: x86_emit_branch_def x86_branch_emitters Let_def emitImm_le)

lemma x86_emit_branch_size: "length (x86_emit_branch t b off []) = x86_getSize b"
  by (simp add: x86_emit_branch_def x86_branch_emitters x86_getSize_def Let_def emitImm_le)

text \<open>The labels inserted on the way do not change what a label resolves to.\<close>

lemma x86_emit_items_cons:
  "fst (x86_emit_items labels (x # xs) off out) =
     fst (x86_emit_items labels xs (off + item_size x86_getSize x) (out @ x86_item_code labels off x))"
proof -
  have ins: "fst (x86_emit_items (labels(i \<mapsto> resolve_label labels i)) xs off out) = fst (x86_emit_items labels xs off out)"
    for i labels xs off out
  proof (induction xs arbitrary: labels off out)
    case Nil
    then show ?case by simp
  next
    case (Cons x xs)
    show ?case
    proof (cases x)
      case (Branch b)
      let ?t = "xb_targetId b"
      have r: "resolve_label (labels(i \<mapsto> resolve_label labels i)) j = resolve_label labels j" for j
        by (simp add: resolve_label_def)
      have "labels(i \<mapsto> resolve_label labels i, ?t \<mapsto> resolve_label labels ?t) =
          labels(?t \<mapsto> resolve_label labels ?t, i \<mapsto> resolve_label (labels(?t \<mapsto> resolve_label labels ?t)) i)"
        by (auto simp: fun_eq_iff resolve_label_def)
      then show ?thesis
        using Cons.IH [of "labels(?t \<mapsto> resolve_label labels ?t)"] by (simp add: Branch r Let_def del: fun_upd_apply)
    qed (simp_all add: Cons.IH del: fun_upd_apply)
  qed
  show ?thesis
    by (cases x) (simp_all add: Let_def ins x86_emit_branch_out [where out = out])
qed

interpretation x86_emission: stream_emission x86_getSize "\<lambda>xs off out. fst (x86_emit_items labels xs off out)"
    "x86_item_code labels" for labels
  by unfold_locales (simp, rule x86_emit_items_cons, rename_tac off x, case_tac x, simp_all add: x86_emit_branch_size)

section \<open>Where a branch goes\<close>

text \<open>
  The decoder of the relative branches: the condition (\<open>None\<close> for a jump), the displacement and
  the length of the instruction at the head of the bytes.
\<close>

definition x86_dec_branch :: "u8 list \<Rightarrow> (u8 option \<times> int \<times> nat) option" where
  "x86_dec_branch bs =
     (let op0 = bs ! 0; op1 = bs ! 1
      in if op0 = 0xEB then Some (None, sint op1, 2)
         else if op0 AND 0xF0 = 0x70 then Some (Some (op0 AND 0x0F), sint op1, 2)
         else if op0 = 0xE9 then Some (None, sint (le_word (take 4 (drop 1 bs)) :: u32), 5)
         else if op0 = 0x0F \<and> op1 AND 0xF0 = 0x80
         then Some (Some (op1 AND 0x0F), sint (le_word (take 4 (drop 2 bs)) :: u32), 6)
         else None)"

text \<open>The instruction at \<open>off\<close> is the branch \<open>b\<close>, and it transfers control to \<open>l\<close>.\<close>

definition x86_reaches :: "u8 list \<Rightarrow> x86_branch_item \<Rightarrow> nat \<Rightarrow> nat \<Rightarrow> bool" where
  "x86_reaches code b off l \<longleftrightarrow>
     (case x86_dec_branch (drop off code) of
        None \<Rightarrow> False
      | Some (cond, disp, len) \<Rightarrow>
          cond = (if xb_isConditional b then Some (cc_code (xb_condition b)) else None) \<and>
          len = x86_getSize b \<and> int off + int len + disp = int l)"

lemma cc_bits: "(0x70 OR (cc_code c AND 0x0F)) AND 0xF0 = 0x70" "(0x80 OR (cc_code c AND 0x0F)) AND 0xF0 = 0x80"
  "(0x70 OR (cc_code c AND 0x0F)) AND 0x0F = cc_code c" "(0x80 OR (cc_code c AND 0x0F)) AND 0x0F = cc_code c"
  "0x70 OR (cc_code c AND 0x0F) \<noteq> 0xEB" "0x80 OR (cc_code c AND 0x0F) \<noteq> 0xEB"
  by (cases c; simp)+

lemma sint_word8: "- 128 \<le> d \<Longrightarrow> d \<le> 127 \<Longrightarrow> sint (word_of_int d :: u8) = d"
  by (simp add: signed_of_int signed_take_bit_int_eq_self)

lemma le_word_disp32:
  "(le_word (le_bytes 4 (scast (d :: u32) :: u64)) :: u32) = d"
proof -
  have "le_bytes 4 (scast d :: u64) = le_bytes 4 d"
    by (rule nth_equalityI) (auto intro!: bit_word_eqI simp: bit_simps word_bits bit_signed_iff less_Suc_eq numeral_eq_Suc min_def)
  then show ?thesis by (simp add: le_word_le_bytes_full)
qed

lemma x86_branch_reaches:
  assumes code: "read_at off (x86_getSize b) code = x86_emit_branch l b off []"
    and fit: "off + x86_getSize b \<le> length code" "length code \<le> 0x7FFFFFFF" "l \<le> length code"
    and near: "\<not> x86_far b l off"
  shows "x86_reaches code b off l"
proof -
  let ?d = "int l - int (off + x86_getSize b)"
  have d: "sint (word_of_int ?d :: u32) = ?d" using fit by (intro sint_word32) simp_all
  have s: "sint (word_of_int ?d :: u8) = ?d" if "\<not> xb_isRelaxed b"
    using near that by (intro sint_word8) (auto simp: x86_far_def Let_def)
  obtain rest where r: "drop off code = x86_emit_branch l b off [] @ rest"
    using code by (metis append_take_drop_id read_at_def)
  show ?thesis
    unfolding x86_reaches_def x86_dec_branch_def r
    using d s
    by (cases "xb_isRelaxed b"; cases "xb_isConditional b")
      (simp_all add: x86_emit_branch_def x86_branch_emitters emitImm_le x86_getSize_def cc_bits Let_def
        le_word_disp32 del: of_int_diff of_nat_add)
qed

definition x86_max_size :: "x86_branch_item \<Rightarrow> nat" where
  "x86_max_size b = (if xb_isConditional b then 6 else 5)"

lemma x86_widened_size:
  "list_all2 (rel_stream_item x86.widened) xs ys \<Longrightarrow> \<forall>b. Branch b \<in> set xs \<longrightarrow> \<not> xb_isRelaxed b \<Longrightarrow>
   stream_size x86_getSize ys \<le> stream_size x86_max_size xs"
  by (rule stream_size_mono, erule list.rel_mono_strong, erule stream_item.rel_cases)
    (auto simp: x86.widened_def x86_widen_def x86_getSize_def x86_max_size_def)

section \<open>Properties\<close>

text \<open>C26: relaxation terminates; the returned items are the given ones with some branches widened
  and the count is the number of them; the code has the size of their layout; and when the code
  cannot outgrow two gigabytes, the bytes of every branch whose label is defined decode, by the
  processor's rules, to a branch with its condition that transfers control exactly to the label.\<close>

theorem x86_relax_correct:
  assumes "stream_size x86_max_size items \<le> 0x7FFFFFFF" "\<forall>b. Branch b \<in> set items \<longrightarrow> \<not> xb_isRelaxed b"
  shows "\<exists>n code resolved ys. x86_relaxAndResolve items = Some (n, code, resolved, ys) \<and>
    list_all2 (rel_stream_item x86.widened) items ys \<and> x86.short_count ys + n = x86.short_count items \<and>
    length code = stream_size x86_getSize ys \<and>
    (\<forall>us b vs l. ys = us @ Branch b # vs \<longrightarrow> label_offsets x86_getSize ys 0 Map.empty (xb_targetId b) = Some l \<longrightarrow>
       x86_reaches code b (stream_size x86_getSize us) l)"
proof -
  from x86.relax_loop [of items] obtain ys labels n where
    r: "while_changed x86_relax_round (items, Map.empty, 0) = Some (ys, labels, n)"
      "list_all2 (rel_stream_item x86.widened) items ys" "x86.short_count ys + n = x86.short_count items"
    and near: "\<And>us b vs l. ys = us @ Branch b # vs \<Longrightarrow>
      label_offsets x86_getSize ys 0 Map.empty (xb_targetId b) = Some l \<Longrightarrow> \<not> x86_far b l (stream_size x86_getSize us)"
    unfolding x86_relax_round_def by blast
  define L where "L = label_offsets x86_getSize ys 0 Map.empty"
  obtain code resolved where e: "x86_emit_items L ys 0 [] = (code, resolved)" by (metis prod.exhaust)
  then have code: "code = fst (x86_emit_items L ys 0 [])" by simp
  have len: "length code = stream_size x86_getSize ys" by (simp add: code x86_emission.emit_length)
  have small: "length code \<le> 0x7FFFFFFF" using x86_widened_size [OF r(2) assms(2)] assms(1) len by linarith
  have "x86_reaches code b (stream_size x86_getSize us) l"
    if y: "ys = us @ Branch b # vs" and l: "L (xb_targetId b) = Some l" for us b vs l
  proof (rule x86_branch_reaches)
    show "read_at (stream_size x86_getSize us) (x86_getSize b) code = x86_emit_branch l b (stream_size x86_getSize us) []"
      using x86_emission.emit_at [of us "Branch b" L vs] l by (simp add: code y resolve_label_def)
    from label_offset_size [of x86_getSize ys "xb_targetId b" l] l obtain us' vs' where
      "ys = us' @ LabelDef (xb_targetId b) # vs'" "l = stream_size x86_getSize us'" by (auto simp: L_def)
    then show "l \<le> length code" by (simp add: len)
    show "\<not> x86_far b l (stream_size x86_getSize us)" using near [OF y] l by (simp add: L_def)
  qed (use len small y in simp_all)
  then show ?thesis
    using r len e by (intro exI [of _ n] exI [of _ code] exI [of _ resolved] exI [of _ ys])
      (simp add: x86_relaxAndResolve_def L_def)
qed

theorem x86_relax_correct_witness:
  "\<exists>n code resolved ys. x86_relaxAndResolve [x86_Jcc CC_NE 7, RawData (replicate 200 0x90), LabelDef 7] =
      Some (n, code, resolved, ys) \<and> length code = stream_size x86_getSize ys"
proof -
  let ?items = "[x86_Jcc CC_NE 7, RawData (replicate 200 0x90), LabelDef 7]"
  have "stream_size x86_max_size ?items \<le> 0x7FFFFFFF" "\<forall>b. Branch b \<in> set ?items \<longrightarrow> \<not> xb_isRelaxed b"
    by (auto simp: x86_Jcc_def x86_max_size_def)
  from x86_relax_correct [OF this] show ?thesis by blast
qed

text \<open>a branch to a label that is never defined is emitted as a branch to the start of the code:
  reading the label map creates the entry 0.\<close>

theorem x86_undefined_label:
  "x86_relaxAndResolve [RawData [0x90], x86_Jmp 7] = Some (0, [0x90, 0xEB, 0xFD], [7 \<mapsto> 0], [RawData [0x90], x86_Jmp 7])"
proof -
  have q: "x86_relax_round ([RawData [0x90], x86_Jmp 7], Map.empty, 0) = (([RawData [0x90], x86_Jmp 7], Map.empty, 0), False)"
    by (simp add: x86_relax_round_def relax_round_def x86_Jmp_def)
  then have "while_changed x86_relax_round ([RawData [0x90], x86_Jmp 7], Map.empty, 0) =
      Some ([RawData [0x90], x86_Jmp 7], Map.empty, 0)"
    by (subst while_changed.simps) simp
  then show ?thesis
    by (simp add: x86_relaxAndResolve_def x86_Jmp_def resolve_label_def x86_emit_branch_def x86_getSize_def emitJmpShort_def Let_def)
qed

end
