(* ===== verification/X86_64Relocation.thy ===== *)
theory X86_64Relocation
  imports X86_64Decode
begin

text \<open>
  The x86-64 relocation resolver
  (EzTargets/X86_64/src/Relocation/X86_64RelocationResolver.cpp): in-place patching of near branches
  and of bare RIP-relative fields, and the offset of the field an object file relocation names.
  \<open>None\<close> is an access outside the buffer. Differences of addresses are taken modulo \<open>2 ^ 64\<close>.
\<close>

text \<open>The displacement field of a near branch and the address of the next instruction.\<close>

definition resolveBranchField :: "u8 list \<Rightarrow> u64 \<Rightarrow> (u64 \<times> u64) option" where
  "resolveBranchField text relocOffset =
     (case classifyNearBranch text relocOffset of
        None \<Rightarrow> None
      | Some (fieldOffset, instrLength) \<Rightarrow> Some (fieldOffset, relocOffset + instrLength))"

definition x86_patch_branch :: "u8 list \<Rightarrow> u64 \<Rightarrow> u64 \<Rightarrow> (u8 list \<times> bool) option" where
  "x86_patch_branch text relocOffset targetOffset =
     (case resolveBranchField text relocOffset of
        None \<Rightarrow> Some (text, False)
      | Some (dispOffset, nextRip) \<Rightarrow> x86_writeDisp32 text dispOffset (ucast (targetOffset - nextRip)))"

definition x86_patch_pcrel :: "u8 list \<Rightarrow> u64 \<Rightarrow> u64 \<Rightarrow> (u8 list \<times> bool) option" where
  "x86_patch_pcrel text fieldOffset targetOffset =
     x86_writeDisp32 text fieldOffset (ucast (targetOffset - (fieldOffset + 4)))"

definition x86_reloc_patch :: "u8 list \<Rightarrow> code_relocation \<Rightarrow> u64 \<Rightarrow> reloc_type \<Rightarrow> (u8 list \<times> bool) option" where
  "x86_reloc_patch text reloc targetOffset type =
     (let relocOffset = rl_address reloc
      in if unat relocOffset \<ge> length text then Some (text, False)
         else if type = BranchRel32 then x86_patch_branch text relocOffset targetOffset
         else if type = PCRel32 then x86_patch_pcrel text relocOffset targetOffset
         else Some (text, False))"

definition x86_getRelocationFieldOffset :: "u8 list \<Rightarrow> code_relocation \<Rightarrow> reloc_type \<Rightarrow> u64" where
  "x86_getRelocationFieldOffset text reloc type =
     (if type = BranchRel32 then
        (case resolveBranchField text (rl_address reloc) of
           Some (dispOffset, nextRip) \<Rightarrow> dispOffset
         | None \<Rightarrow> rl_address reloc)
      else rl_address reloc)"

section \<open>Lemmas\<close>

lemma ucast_diff_exact:
  fixes t a :: u64
  assumes "- (2 ^ 31) \<le> int (unat t) - int (unat a)" "int (unat t) - int (unat a) < 2 ^ 31"
  shows "sint (ucast (t - a) :: u32) = int (unat t) - int (unat a)"
proof -
  have "take_bit 32 (take_bit 64 x - take_bit 64 y) = take_bit 32 (x - y)" for x y :: int
    by (subst (1 2) take_bit_diff [symmetric]) (simp add: take_bit_take_bit)
  then have "(ucast (t - a) :: u32) = word_of_int (int (unat t) - int (unat a))"
    by transfer simp
  then show ?thesis using sint_word32 [OF assms] by (simp only:)
qed

lemma unat_add_small:
  "unat a + n < 2 ^ 64 \<Longrightarrow> unat (a + of_nat n) = unat a + n" for a :: u64
  by (subst unat_add_lem [THEN iffD1]) (simp_all add: unat_of_nat)

lemma x86_writeDisp32_in:
  assumes "unat off + 4 \<le> length text" "length text < 2 ^ 63"
  shows "x86_writeDisp32 text off v = Some (write_at (unat off) (le_bytes 4 v) text, True)"
  using fits_iff [of "text" off 4] assms by (simp add: x86_writeDisp32_def writeWord_in)

section \<open>Near branches\<close>

text \<open>The near branches of the processor: \<open>E9\<close> and \<open>E8\<close> are a jump and a call, \<open>0F 8c\<close> a jump on
  condition \<open>c\<close>; the four bytes behind the opcode are a displacement from the next instruction. The
  result is the kind, the displacement and the length.\<close>

datatype near_branch = NearJmp | NearCall | NearJcc u8

definition dec_near :: "u8 list \<Rightarrow> nat \<Rightarrow> (near_branch \<times> int \<times> nat) option" where
  "dec_near text a =
     (if a + 5 \<le> length text \<and> text ! a = 0xE9 then Some (NearJmp, sint (le_word (read_at (a + 1) 4 text) :: u32), 5)
      else if a + 5 \<le> length text \<and> text ! a = 0xE8 then Some (NearCall, sint (le_word (read_at (a + 1) 4 text) :: u32), 5)
      else if a + 6 \<le> length text \<and> text ! a = 0x0F \<and> drop_bit 4 (text ! (a + 1)) = 8
      then Some (NearJcc (take_bit 4 (text ! (a + 1))), sint (le_word (read_at (a + 2) 4 text) :: u32), 6)
      else None)"

lemma jcc_row: "x AND 0xF0 = 0x80 \<longleftrightarrow> drop_bit 4 x = 8" for x :: u8
proof -
  have m: "x AND 0xF0 = push_bit 4 (drop_bit 4 x)"
    by (rule word8_eqI, simp only: all_less_8 word_bits len_of_numeral_defs) (simp add: bit_iff_odd)
  have d: "drop_bit 4 x = drop_bit 4 (push_bit 4 (drop_bit 4 x))"
    by (rule bit_word_eqI) (auto simp: word_bits dest: bit_imp_le_length)
  show ?thesis
  proof
    assume "x AND 0xF0 = 0x80"
    then have "drop_bit 4 x = drop_bit 4 0x80" unfolding m by (subst d) simp
    then show "drop_bit 4 x = 8" by simp
  qed (simp add: m)
qed

text \<open>The classifier finds the field and the end of every near branch, and nothing else fits.\<close>

lemma classify_near:
  assumes "dec_near text (unat a) = Some (k, d, len)" "length text < 2 ^ 63"
  shows "classifyNearBranch text a = Some (a + of_nat (len - 4), of_nat len)" "len = 5 \<or> len = 6" "unat a + len \<le> length text"
    "unat (a + of_nat (len - 4)) = unat a + (len - 4)" "unat (a + of_nat len) = unat a + len"
proof -
  from assms(1) have l: "len = 5 \<or> len = 6" "unat a + len \<le> length text" by (auto simp: dec_near_def split: if_splits)
  then show "len = 5 \<or> len = 6" "unat a + len \<le> length text" "unat (a + of_nat (len - 4)) = unat a + (len - 4)"
    "unat (a + of_nat len) = unat a + len"
    using assms(2) unat_add_small [of a "len - 4"] unat_add_small [of a len] by simp_all
  show "classifyNearBranch text a = Some (a + of_nat (len - 4), of_nat len)"
    using assms(1)
    by (auto simp: dec_near_def classifyNearBranch_def kNearJmpOpcode_def kNearCallOpcode_def kNearJccPrefix_def kNearJccBase_def
        jcc_row Let_def split: if_splits)
qed

lemma classify_not_near:
  assumes "dec_near text (unat a) = None" "length text < 2 ^ 63" "classifyNearBranch text a = Some (f, n)"
  shows "\<not> unat f + 4 \<le> length text" "unat f < 2 ^ 63"
proof -
  have a: "unat a < length text" using assms(3) by (auto simp: classifyNearBranch_def split: if_splits)
  then have u: "unat (a + 1) = unat a + 1" "unat (a + 2) = unat a + 2"
    using assms(2) unat_add_small [of a 1] unat_add_small [of a 2] by simp_all
  have "f = a + 1 \<and> \<not> unat a + 5 \<le> length text \<or> f = a + 2 \<and> unat a + 1 < length text \<and> \<not> unat a + 6 \<le> length text"
    using assms(1,3)
    by (auto simp: dec_near_def classifyNearBranch_def kNearJmpOpcode_def kNearCallOpcode_def kNearJccPrefix_def kNearJccBase_def
        jcc_row Let_def split: if_splits)
  then show "\<not> unat f + 4 \<le> length text" "unat f < 2 ^ 63" using u a assms(2) by auto
qed

text \<open>Writing the field leaves the same branch with the new displacement.\<close>

lemma dec_near_write:
  assumes "dec_near text p = Some (k, d, len)"
  shows "dec_near (write_at (p + (len - 4)) (le_bytes 4 v) text) p = Some (k, sint (v :: u32), len)"
proof -
  from assms have l: "len = 5 \<or> len = 6" "p + len \<le> length text" by (auto simp: dec_near_def split: if_splits)
  then have in_text: "p + (len - 4) + length (le_bytes 4 v) \<le> length text" by auto
  have same: "write_at (p + (len - 4)) (le_bytes 4 v) text ! i = text ! i" if "i < p + (len - 4)" for i
    using that in_text by (subst nth_write_at) auto
  have field: "read_at (p + (len - 4)) 4 (write_at (p + (len - 4)) (le_bytes 4 v) text) = le_bytes 4 v"
    using in_text read_at_write_at [of "p + (len - 4)" "le_bytes 4 v" "text"] by simp
  show ?thesis
    using assms l same [of p] same [of "p + 1"] field in_text
    by (auto simp: dec_near_def le_word_le_bytes_full split: if_splits)
qed

section \<open>Properties\<close>

text \<open>C27: where the text holds a near jump, conditional jump or call, a branch relocation to a target
  within two gigabytes of its end makes the processor's reading of it the same branch, going exactly
  to the target; only its displacement changes, and the field named to the object writer is those
  four bytes. Where the text holds no whole near branch the patch is refused and changes nothing.\<close>

theorem x86_reloc_branch_reaches:
  assumes "length text < 2 ^ 63" "rl_address r = of_nat a" "a < 2 ^ 63"
  shows "case dec_near text a of
      None \<Rightarrow> x86_reloc_patch text r t BranchRel32 = Some (text, False)
    | Some (k, _, len) \<Rightarrow>
        - (2 ^ 31) \<le> int (unat t) - int (a + len) \<and> int (unat t) - int (a + len) < 2 ^ 31 \<longrightarrow>
        (\<exists>text'. x86_reloc_patch text r t BranchRel32 = Some (text', True) \<and>
           dec_near text' a = Some (k, int (unat t) - int (a + len), len) \<and> length text' = length text \<and>
           (\<forall>i < length text. (i < a + len - 4 \<or> a + len \<le> i) \<longrightarrow> text' ! i = text ! i) \<and>
           unat (x86_getRelocationFieldOffset text r BranchRel32) = a + len - 4)"
proof -
  let ?w = "rl_address r"
  have w: "unat ?w = a" using assms(2,3) by (simp add: unat_of_nat)
  show ?thesis
  proof (cases "dec_near text a")
    case None
    have "x86_reloc_patch text r t BranchRel32 = Some (text, False)"
    proof (cases "classifyNearBranch text ?w")
      case (Some fn)
      obtain f n where fn: "fn = (f, n)" by force
      note c = classify_not_near [OF None [folded w] assms(1) Some [unfolded fn]]
      have "\<not> fits f 4 text" using c assms(1) fits_iff [of "text" f 4] by simp
      then show ?thesis
        using Some by (simp add: x86_reloc_patch_def x86_patch_branch_def resolveBranchField_def fn x86_writeDisp32_def Let_def)
    qed (simp add: x86_reloc_patch_def x86_patch_branch_def resolveBranchField_def Let_def)
    then show ?thesis using None by simp
  next
    case (Some kdl)
    obtain k d len where kdl: "kdl = (k, d, len)" by (cases kdl)
    note c = classify_near [OF Some [unfolded kdl, folded w] assms(1)]
    let ?f = "?w + of_nat (len - 4)" and ?n = "?w + of_nat len"
    have r: "resolveBranchField text ?w = Some (?f, ?n)" by (simp add: resolveBranchField_def c(1))
    have f: "unat ?f = a + len - 4" "unat ?f + 4 \<le> length text" "unat ?n = a + len" "unat ?w < length text"
      using c(2-5) w by auto
    have "\<exists>text'. x86_reloc_patch text r t BranchRel32 = Some (text', True) \<and>
           dec_near text' a = Some (k, int (unat t) - int (a + len), len) \<and> length text' = length text \<and>
           (\<forall>i < length text. (i < a + len - 4 \<or> a + len \<le> i) \<longrightarrow> text' ! i = text ! i) \<and>
           unat (x86_getRelocationFieldOffset text r BranchRel32) = a + len - 4"
      if range: "- (2 ^ 31) \<le> int (unat t) - int (a + len)" "int (unat t) - int (a + len) < 2 ^ 31"
    proof (intro exI conjI)
      let ?text' = "write_at (unat ?f) (le_bytes 4 (ucast (t - ?n) :: u32)) text"
      show "x86_reloc_patch text r t BranchRel32 = Some (?text', True)"
        using f by (simp add: x86_reloc_patch_def Let_def x86_patch_branch_def r x86_writeDisp32_in [OF f(2) assms(1)])
      have "sint (ucast (t - ?n) :: u32) = int (unat t) - int (a + len)"
        using ucast_diff_exact [of t ?n] range f(3) by simp
      then show "dec_near ?text' a = Some (k, int (unat t) - int (a + len), len)"
        using dec_near_write [OF Some [unfolded kdl], of "ucast (t - ?n)"] f(1) c(2) by auto
      show "length ?text' = length text" using f(2) by simp
      show "\<forall>i < length text. (i < a + len - 4 \<or> a + len \<le> i) \<longrightarrow> ?text' ! i = text ! i"
        using f(1,2) c(2) by (auto simp: nth_write_at)
      show "unat (x86_getRelocationFieldOffset text r BranchRel32) = a + len - 4"
        using f(1) by (simp add: x86_getRelocationFieldOffset_def r)
    qed
    then show ?thesis using Some kdl by simp
  qed
qed

theorem x86_reloc_branch_reaches_witness:
  "\<exists>text'. x86_reloc_patch [0x90, 0xE8, 0, 0, 0, 0] \<lparr>rl_type = BranchRel32, rl_section = Text, rl_srcRef = 3, rl_address = 1\<rparr>
      0x1006 BranchRel32 = Some (text', True) \<and> dec_near text' 1 = Some (NearCall, 0x1000, 5)"
proof -
  let ?r = "\<lparr>rl_type = BranchRel32, rl_section = Text, rl_srcRef = 3, rl_address = 1\<rparr>"
  have "dec_near [0x90, 0xE8, 0, 0, 0, 0] 1 = Some (NearCall, 0, 5)" by code_simp
  then show ?thesis
    using x86_reloc_branch_reaches [of "[0x90, 0xE8, 0, 0, 0, 0]" ?r 1 "0x1006"] by auto
qed

text \<open>C28: a PC-relative relocation makes the field, added to the address of the byte behind it,
  give exactly the target, for targets within two gigabytes.\<close>

theorem x86_reloc_pcrel_exact:
  assumes "length text < 2 ^ 63" "unat (rl_address r) + 4 \<le> length text"
    and "- (2 ^ 31) \<le> int (unat t) - (int (unat (rl_address r)) + 4)"
    and "int (unat t) - (int (unat (rl_address r)) + 4) < 2 ^ 31"
  shows "\<exists>d. x86_reloc_patch text r t PCRel32 = Some (write_at (unat (rl_address r)) (le_bytes 4 d) text, True) \<and>
    readWord (write_at (unat (rl_address r)) (le_bytes 4 d) text) (rl_address r) = Some d \<and>
    int (unat (rl_address r)) + 4 + sint d = int (unat t) \<and>
    x86_getRelocationFieldOffset text r PCRel32 = rl_address r"
proof -
  let ?a = "rl_address r"
  have n: "unat (?a + 4) = unat ?a + 4" using unat_add_small [of ?a 4] assms(1,2) by simp
  have "sint (ucast (t - (?a + 4)) :: u32) = int (unat t) - (int (unat ?a) + 4)"
    using ucast_diff_exact [of t "?a + 4"] assms(3,4) by (simp add: n)
  then show ?thesis
    using assms(2)
    by (intro exI [of _ "ucast (t - (?a + 4))"])
      (simp add: x86_reloc_patch_def Let_def x86_patch_pcrel_def x86_getRelocationFieldOffset_def
        x86_writeDisp32_in [OF assms(2,1)] readWord_write [OF assms(2)])
qed

theorem x86_reloc_pcrel_exact_witness:
  "\<exists>d. x86_reloc_patch [0x8D, 0x05, 0, 0, 0, 0] \<lparr>rl_type = PCRel32, rl_section = Text, rl_srcRef = 3, rl_address = 2\<rparr>
      0x10 PCRel32 = Some (write_at 2 (le_bytes 4 d) [0x8D, 0x05, 0, 0, 0, 0], True) \<and> sint (d :: u32) = 0xA"
  using x86_reloc_pcrel_exact [of "[0x8D, 0x05, 0, 0, 0, 0]"
      "\<lparr>rl_type = PCRel32, rl_section = Text, rl_srcRef = 3, rl_address = 2\<rparr>" "0x10"]
  by auto

end
