(* ===== verification/MirTypes.thy ===== *)
theory MirTypes
  imports Prelude
begin

text \<open>
  The part of the machine IR the analyses read (EzMir/include/Operand, EzMir/src/Instruction):
  register references, operands with their access flags, instructions with their metadata and
  target descriptor, and blocks. \<open>MirRegisterRef\<close> compares virtual registers by their number
  alone, so the register class a virtual reference carries is no part of the model's
  reference; physical references are equal when class and number are. Pointers to register
  classes are numbers, the null pointer is \<open>None\<close>.
\<close>

section \<open>Register references\<close>

datatype reg_ref =
    VReg (reg_id: mir_id)
  | PReg (reg_class: "nat option") (reg_id: mir_id)

fun isVirtual :: "reg_ref \<Rightarrow> bool" where
  "isVirtual (VReg _) \<longleftrightarrow> True"
| "isVirtual (PReg _ _) \<longleftrightarrow> False"

definition isPhysical :: "reg_ref \<Rightarrow> bool" where
  "isPhysical r \<longleftrightarrow> \<not> isVirtual r"

lemma isPhysical_simps [simp]: "\<not> isPhysical (VReg n)" "isPhysical (PReg c n)"
  by (simp_all add: isPhysical_def)

text \<open>\<open>operator<\<close>: physical before virtual, physical references by the name of their class
  (\<open>names\<close> reads it from a class pointer), then by number.\<close>

definition class_name :: "(nat \<Rightarrow> nat list) \<Rightarrow> nat option \<Rightarrow> nat list" where
  "class_name names c = (case c of None \<Rightarrow> [] | Some k \<Rightarrow> names k)"

text \<open>\<open>std::strcmp\<close> on character lists.\<close>

fun strcmp :: "nat list \<Rightarrow> nat list \<Rightarrow> int" where
  "strcmp [] [] = 0"
| "strcmp [] (_ # _) = - 1"
| "strcmp (_ # _) [] = 1"
| "strcmp (x # xs) (y # ys) = (if x < y then - 1 else if y < x then 1 else strcmp xs ys)"

fun ref_less :: "(nat \<Rightarrow> nat list) \<Rightarrow> reg_ref \<Rightarrow> reg_ref \<Rightarrow> bool" where
  "ref_less names (PReg _ _) (VReg _) \<longleftrightarrow> True"
| "ref_less names (VReg _) (PReg _ _) \<longleftrightarrow> False"
| "ref_less names (VReg m) (VReg n) \<longleftrightarrow> m < n"
| "ref_less names (PReg c m) (PReg d n) \<longleftrightarrow>
     (let classCmp = strcmp (class_name names c) (class_name names d)
      in if classCmp \<noteq> 0 then classCmp < 0 else m < n)"

section \<open>Operands\<close>

datatype operand_flag = FlagNone | Read | Write | ReadWrite

fun has_read :: "operand_flag \<Rightarrow> bool" where
  "has_read Read \<longleftrightarrow> True" | "has_read ReadWrite \<longleftrightarrow> True" | "has_read _ \<longleftrightarrow> False"

fun has_write :: "operand_flag \<Rightarrow> bool" where
  "has_write Write \<longleftrightarrow> True" | "has_write ReadWrite \<longleftrightarrow> True" | "has_write _ \<longleftrightarrow> False"

text \<open>An operand: a register, a memory operand with its optional base and index register, a
  symbolic reference, or a kind that holds no register.\<close>

datatype mir_operand =
    OpReg reg_ref
  | OpMem "reg_ref option" "reg_ref option"
  | OpRef mir_id
  | OpOther

section \<open>Instructions\<close>

definition IsTerminator :: u32 where "IsTerminator = 0x20"
definition IsBranch :: u32 where "IsBranch = 0x40"
definition IsCall :: u32 where "IsCall = 0x80"
definition IsReturn :: u32 where "IsReturn = 0x100"
definition ReadsCPUFlags :: u32 where "ReadsCPUFlags = 0x800"
definition VariadicArgs :: u32 where "VariadicArgs = 0x4000"
definition IsMove :: u32 where "IsMove = 0x8000"

definition has_flag :: "u32 \<Rightarrow> u32 \<Rightarrow> bool" where
  "has_flag flags f \<longleftrightarrow> flags AND f \<noteq> 0"

datatype opcode = CALL | MOV | PHI | TARGET_INST | OtherOp nat

text \<open>One slot of an opcode's operand metadata: its access flag and whether it is the slot
  that a variable number of operands fills.\<close>

record meta_slot =
  slot_flags :: operand_flag
  slot_variadic :: bool

record target_desc =
  td_flags :: u32
  td_operandsFlags :: "operand_flag list"
  td_implicitDefs :: "reg_ref list"
  td_implicitUses :: "reg_ref list"

text \<open>The metadata table is generated at build time; an instruction carries its row of it.\<close>

record mir_inst =
  mi_opcode :: opcode
  mi_flags :: u32
  mi_slots :: "meta_slot list"
  mi_desc :: "target_desc option"
  mi_operands :: "mir_operand option list"

record mir_block =
  mb_id :: mir_id
  mb_insts :: "mir_inst list"

definition isSelected :: "mir_inst \<Rightarrow> bool" where
  "isSelected i \<longleftrightarrow> mi_opcode i = TARGET_INST \<and> mi_desc i \<noteq> None"

definition variadic_slot :: "meta_slot list \<Rightarrow> nat option" where
  "variadic_slot slots = find (\<lambda>k. slot_variadic (slots ! k)) [0..<length slots]"

definition call_has_dst :: "mir_inst \<Rightarrow> bool" where
  "call_has_dst i \<longleftrightarrow> (case mi_operands i of Some (OpReg _) # _ \<Rightarrow> True | _ \<Rightarrow> False)"

definition slot_flag :: "u32 \<Rightarrow> meta_slot list \<Rightarrow> nat \<Rightarrow> nat \<Rightarrow> operand_flag" where
  "slot_flag flags slots totalOperands index =
     (let metaCount = length slots in
      case variadic_slot slots of
        Some varSlot \<Rightarrow>
          let trailingFixedCount = metaCount - 1 - varSlot in
          if totalOperands < metaCount - 1 then
            (if index < metaCount then slot_flags (slots ! index) else FlagNone)
          else if index < varSlot then slot_flags (slots ! index)
          else if index \<ge> totalOperands - trailingFixedCount
            then slot_flags (slots ! (metaCount - (totalOperands - index)))
          else slot_flags (slots ! varSlot)
      | None \<Rightarrow>
          if index < metaCount then slot_flags (slots ! index)
          else if has_flag flags VariadicArgs then Read
          else FlagNone)"

definition getOperandFlag :: "mir_inst \<Rightarrow> nat \<Rightarrow> operand_flag" where
  "getOperandFlag i index =
     (if isSelected i then
        (case mi_desc i of
           Some d \<Rightarrow> if index < length (td_operandsFlags d) then td_operandsFlags d ! index else Read
         | None \<Rightarrow> Read)
      else if mi_slots i = [] \<or> index \<ge> length (mi_operands i) then FlagNone
      else if mi_opcode i = CALL \<and> \<not> call_has_dst i then Read
      else slot_flag (mi_flags i) (mi_slots i) (length (mi_operands i)) index)"

text \<open>\<open>visitOperandRegisters\<close>: the registers of an operand with the access each one has.\<close>

definition visitOperandRegisters :: "mir_operand option \<Rightarrow> operand_flag \<Rightarrow> (reg_ref \<times> operand_flag) list" where
  "visitOperandRegisters op flag =
     (case op of
        Some (OpReg r) \<Rightarrow> [(r, flag)]
      | Some (OpMem base index) \<Rightarrow>
          (case base of Some r \<Rightarrow> [(r, Read)] | None \<Rightarrow> []) @
          (case index of Some r \<Rightarrow> [(r, Read)] | None \<Rightarrow> [])
      | _ \<Rightarrow> [])"

definition explicit_registers :: "mir_inst \<Rightarrow> (reg_ref \<times> operand_flag) list" where
  "explicit_registers i =
     concat (map (\<lambda>k. visitOperandRegisters (mi_operands i ! k) (getOperandFlag i k)) [0..<length (mi_operands i)])"

definition getDefinedRegisters :: "mir_inst \<Rightarrow> reg_ref list" where
  "getDefinedRegisters i =
     map fst (filter (\<lambda>(r, f). has_write f) (explicit_registers i)) @
     (case mi_desc i of Some d \<Rightarrow> td_implicitDefs d | None \<Rightarrow> [])"

definition getUsedRegisters :: "mir_inst \<Rightarrow> reg_ref list" where
  "getUsedRegisters i =
     map fst (filter (\<lambda>(r, f). has_read f) (explicit_registers i)) @
     (case mi_desc i of Some d \<Rightarrow> td_implicitUses d | None \<Rightarrow> [])"

text \<open>The behaviour flags an analysis looks at: those of the opcode, joined with those of the
  target descriptor when there is one.\<close>

definition effective_flags :: "mir_inst \<Rightarrow> u32" where
  "effective_flags i = (case mi_desc i of Some d \<Rightarrow> mi_flags i OR td_flags d | None \<Rightarrow> mi_flags i)"

section \<open>Order of register references\<close>

lemma strcmp_range: "strcmp xs ys \<in> {- 1, 0, 1}"
  by (induction xs ys rule: strcmp.induct) auto

lemma strcmp_eq_0 [simp]: "strcmp xs ys = 0 \<longleftrightarrow> xs = ys"
  by (induction xs ys rule: strcmp.induct) auto

lemma strcmp_swap: "strcmp xs ys = - strcmp ys xs"
  by (induction xs ys rule: strcmp.induct) auto

lemma strcmp_Cons_neg: "strcmp (x # xs) (y # ys) < 0 \<longleftrightarrow> x < y \<or> x = y \<and> strcmp xs ys < 0"
  by auto

lemma strcmp_trans: "strcmp xs ys < 0 \<Longrightarrow> strcmp ys zs < 0 \<Longrightarrow> strcmp xs zs < 0"
proof (induction xs arbitrary: ys zs)
  case Nil
  then show ?case by (cases ys; cases zs) simp_all
next
  case (Cons x xs)
  from Cons.prems obtain y ys' where y: "ys = y # ys'" by (cases ys) simp_all
  with Cons.prems obtain z zs' where z: "zs = z # zs'" by (cases zs) simp_all
  show ?case
    using Cons.prems Cons.IH [of ys' zs'] unfolding y z strcmp_Cons_neg by auto
qed

lemma strcmp_asym: "strcmp xs ys < 0 \<Longrightarrow> \<not> strcmp ys xs < 0"
  using strcmp_swap [of xs ys] by simp

lemma ref_less_trans: "ref_less names a b \<Longrightarrow> ref_less names b c \<Longrightarrow> ref_less names a c"
  by (cases a; cases b; cases c)
    (auto simp: Let_def split: if_splits intro: strcmp_trans dest: strcmp_asym)

text \<open>C36: The comparison of register references is a strict weak order for every assignment of
  names to classes, and two references that it does not separate are equal when distinct
  classes have distinct, non-empty names: then the ordered sets of the allocator never merge
  two different registers.\<close>

theorem ref_less_order:
  "\<not> ref_less names a a \<and>
   (ref_less names a b \<longrightarrow> \<not> ref_less names b a) \<and>
   (ref_less names a b \<and> ref_less names b c \<longrightarrow> ref_less names a c) \<and>
   (inj names \<and> [] \<notin> range names \<longrightarrow> ref_less names a b \<or> a = b \<or> ref_less names b a)"
proof (intro conjI impI)
  show irrefl: "\<not> ref_less names a a" for a
    by (cases a) auto
  show "\<not> ref_less names b a" if "ref_less names a b"
    using that ref_less_trans [of names a b a] irrefl by blast
  show "ref_less names a c" if "ref_less names a b \<and> ref_less names b c"
    using that ref_less_trans by blast
  show "ref_less names a b \<or> a = b \<or> ref_less names b a" if inj: "inj names \<and> [] \<notin> range names"
  proof -
    have cls: "class_name names c = class_name names d \<Longrightarrow> c = d" for c d
      using inj by (cases c; cases d) (auto simp: class_name_def inj_eq, (metis rangeI)+)
    show ?thesis
      using strcmp_swap [of "class_name names (reg_class a)" "class_name names (reg_class b)"] cls
      by (cases a; cases b) (auto simp: Let_def linorder_neq_iff dest: cls)
  qed
qed

theorem ref_less_order_witness:
  "ref_less (\<lambda>n. [n]) (PReg (Some 2) 7) (PReg (Some 3) 5) \<and> \<not> ref_less (\<lambda>n. [n]) (PReg (Some 3) 5) (PReg (Some 2) 7)"
proof -
  have "inj (\<lambda>n::nat. [n])" "[] \<notin> range (\<lambda>n::nat. [n])" by (auto simp: inj_def)
  moreover have "\<not> ref_less (\<lambda>n. [n]) (PReg (Some 3) 5) (PReg (Some 2) 7)" by (simp add: class_name_def)
  moreover have "PReg (Some 2) 7 \<noteq> PReg (Some 3) 5" by simp
  ultimately show ?thesis
    using ref_less_order [of "\<lambda>n. [n]" "PReg (Some 2) 7" "PReg (Some 3) 5"] by blast
qed

section \<open>Access flags\<close>

text \<open>The slots of an opcode stretched to the number of operands: the variadic slot is repeated,
  the fixed slots around it stay.\<close>

definition stretched_flags :: "meta_slot list \<Rightarrow> nat \<Rightarrow> nat \<Rightarrow> operand_flag list" where
  "stretched_flags slots v n =
     map slot_flags (take v slots) @ replicate (n - (length slots - 1)) (slot_flags (slots ! v)) @
     map slot_flags (drop (Suc v) slots)"

lemma find_upt_Some:
  "find P [0..<n] = Some k \<longleftrightarrow> k < n \<and> P k \<and> (\<forall>j<k. \<not> P j)"
  by (auto simp: find_Some_iff)

lemma slot_flag_stretched:
  assumes v: "variadic_slot slots = Some v" and n: "length slots - 1 \<le> n" and k: "k < n"
  shows "slot_flag flags slots n k = stretched_flags slots v n ! k"
proof -
  have vl: "v < length slots" using v by (simp add: variadic_slot_def find_upt_Some)
  have sl: "slot_flag flags slots n k =
      (if k < v then slot_flags (slots ! k)
       else if k \<ge> n - (length slots - 1 - v) then slot_flags (slots ! (length slots - (n - k)))
       else slot_flags (slots ! v))"
    using v n by (simp add: slot_flag_def)
  show ?thesis
  proof (cases "k < v")
    case True
    then show ?thesis using vl by (simp add: sl stretched_flags_def nth_append)
  next
    case False
    let ?m = "n - (length slots - 1)"
    show ?thesis
    proof (cases "k < v + ?m")
      case True
      then have "\<not> k \<ge> n - (length slots - 1 - v)" and r: "k - v < ?m" using n vl False by linarith+
      then have "slot_flag flags slots n k = slot_flags (slots ! v)"
        using False by (simp only: sl if_False)
      then show ?thesis
        using False r vl by (simp add: stretched_flags_def nth_append)
    next
      case w: False
      then have ge: "k \<ge> n - (length slots - 1 - v)" using n vl by linarith
      have d: "k = v + ?m + (k - v - ?m)" and l: "k - v - ?m < length slots - Suc v"
        and i: "length slots - (n - k) = Suc (v + (k - v - ?m))" using w n k vl by linarith+
      have "stretched_flags slots v n ! (v + ?m + j) = slot_flags (slots ! (Suc (v + j)))"
        if "j < length slots - Suc v" for j
        using that vl by (simp add: stretched_flags_def nth_append)
      with d l have "stretched_flags slots v n ! k = slot_flags (slots ! (Suc (v + (k - v - ?m))))"
        by metis
      then show ?thesis
        using False ge by (simp only: sl i if_True if_False)
    qed
  qed
qed

text \<open>The access flags of an opcode with a variadic slot are those of its slot list with the
  variadic slot repeated as often as the operand count asks for: operand \<open>k\<close> has entry \<open>k\<close>
  of the stretched list, which has one entry per operand. An opcode without a variadic slot
  has its slot flags in order.\<close>

theorem operand_flags_stretch:
  assumes "\<not> isSelected i" "mi_opcode i \<noteq> CALL \<or> call_has_dst i" "mi_slots i \<noteq> []"
    and n: "length (mi_slots i) - 1 \<le> length (mi_operands i)"
  shows "(\<forall>v. variadic_slot (mi_slots i) = Some v \<longrightarrow>
           map (getOperandFlag i) [0..<length (mi_operands i)] =
             stretched_flags (mi_slots i) v (length (mi_operands i))) \<and>
     (variadic_slot (mi_slots i) = None \<and> length (mi_operands i) = length (mi_slots i) \<longrightarrow>
        map (getOperandFlag i) [0..<length (mi_operands i)] = map slot_flags (mi_slots i))"
proof (intro conjI allI impI)
  have flag: "k < length (mi_operands i) \<Longrightarrow>
      getOperandFlag i k = slot_flag (mi_flags i) (mi_slots i) (length (mi_operands i)) k" for k
    using assms(1-3) by (auto simp: getOperandFlag_def)
  fix v assume v: "variadic_slot (mi_slots i) = Some v"
  then have "v < length (mi_slots i)" by (simp add: variadic_slot_def find_upt_Some)
  then have "length (stretched_flags (mi_slots i) v (length (mi_operands i))) = length (mi_operands i)"
    using n by (simp add: stretched_flags_def)
  then show "map (getOperandFlag i) [0..<length (mi_operands i)] =
      stretched_flags (mi_slots i) v (length (mi_operands i))"
    by (intro nth_equalityI) (simp_all add: flag slot_flag_stretched [OF v n])
next
  assume "variadic_slot (mi_slots i) = None \<and> length (mi_operands i) = length (mi_slots i)"
  then show "map (getOperandFlag i) [0..<length (mi_operands i)] = map slot_flags (mi_slots i)"
    using assms(1-3) by (intro nth_equalityI) (auto simp: getOperandFlag_def slot_flag_def)
qed

theorem operand_flags_stretch_witness:
  "map (getOperandFlag \<lparr>mi_opcode = OtherOp 1, mi_flags = 0,
       mi_slots = [\<lparr>slot_flags = Write, slot_variadic = True\<rparr>, \<lparr>slot_flags = Read, slot_variadic = False\<rparr>],
       mi_desc = None, mi_operands = [Some (OpReg (VReg 1)), Some (OpReg (VReg 2)), Some (OpReg (VReg 3))]\<rparr>) [0..<3] =
     [Write, Write, Read]"
  using operand_flags_stretch [of "\<lparr>mi_opcode = OtherOp 1, mi_flags = 0,
       mi_slots = [\<lparr>slot_flags = Write, slot_variadic = True\<rparr>, \<lparr>slot_flags = Read, slot_variadic = False\<rparr>],
       mi_desc = None, mi_operands = [Some (OpReg (VReg 1)), Some (OpReg (VReg 2)), Some (OpReg (VReg 3))]\<rparr>"]
  by (simp add: isSelected_def variadic_slot_def stretched_flags_def upt_rec numeral_eq_Suc)

end
