(* ===== verification/CodeFlow.thy ===== *)
theory CodeFlow
  imports MirTypes
begin

text \<open>
  \<open>CodeFlowAnalysisPass\<close> (EzMir/src/MirPasses/Passes/CodeFlowAnalysisPass.cpp): the control
  flow graph of a function. \<open>code_flow_result\<close> is the accumulated result: one slot per block,
  with sorted successor and predecessor lists. The locale \<open>edge_graph\<close> states what the
  consumers rely on (a set of edges that only \<open>addEdge\<close> extends, read back from both sides);
  it is interpreted here on the slot vectors. The specification of the pass is the control
  relation \<open>control_edge\<close>, given by the instructions a block can execute.
\<close>

section \<open>The result\<close>

record code_flow_result =
  m_blockIds :: "mir_id list"
  m_successors :: "mir_id list list"
  m_predecessors :: "mir_id list list"
  m_slotById :: "mir_id \<rightharpoonup> nat"

definition cfr_empty :: code_flow_result where
  "cfr_empty = \<lparr>m_blockIds = [], m_successors = [], m_predecessors = [], m_slotById = Map.empty\<rparr>"

definition lower_bound :: "mir_id list \<Rightarrow> mir_id \<Rightarrow> nat" where
  "lower_bound xs i = length (takeWhile (\<lambda>x. x < i) xs)"

definition insertSortedUnique :: "mir_id list \<Rightarrow> mir_id \<Rightarrow> mir_id list" where
  "insertSortedUnique xs i =
     (let it = lower_bound xs i in
      if it = length xs \<or> xs ! it \<noteq> i then take it xs @ i # drop it xs else xs)"

definition ensureBlock :: "code_flow_result \<Rightarrow> mir_id \<Rightarrow> code_flow_result \<times> nat" where
  "ensureBlock r blockId =
     (case m_slotById r blockId of
        Some slot \<Rightarrow> (r, slot)
      | None \<Rightarrow>
          (r\<lparr>m_blockIds := m_blockIds r @ [blockId], m_successors := m_successors r @ [[]],
             m_predecessors := m_predecessors r @ [[]],
             m_slotById := (m_slotById r)(blockId \<mapsto> length (m_blockIds r))\<rparr>,
           length (m_blockIds r)))"

definition cfr_addEdge :: "code_flow_result \<Rightarrow> mir_id \<Rightarrow> mir_id \<Rightarrow> code_flow_result" where
  "cfr_addEdge r from_id to_id =
     (let (r1, fromSlot) = ensureBlock r from_id;
          (r2, toSlot) = ensureBlock r1 to_id;
          r3 = r2\<lparr>m_successors := (m_successors r2)[fromSlot := insertSortedUnique (m_successors r2 ! fromSlot) to_id]\<rparr>
      in r3\<lparr>m_predecessors := (m_predecessors r3)[toSlot := insertSortedUnique (m_predecessors r3 ! toSlot) from_id]\<rparr>)"

definition cfr_contains :: "code_flow_result \<Rightarrow> mir_id \<Rightarrow> bool" where
  "cfr_contains r blockId \<longleftrightarrow> m_slotById r blockId \<noteq> None"

definition getBlockCount :: "code_flow_result \<Rightarrow> nat" where
  "getBlockCount r = length (m_blockIds r)"

definition getSuccessors :: "code_flow_result \<Rightarrow> mir_id \<Rightarrow> mir_id list" where
  "getSuccessors r blockId =
     (case m_slotById r blockId of None \<Rightarrow> [] | Some slot \<Rightarrow> m_successors r ! slot)"

definition getPredecessors :: "code_flow_result \<Rightarrow> mir_id \<Rightarrow> mir_id list" where
  "getPredecessors r blockId =
     (case m_slotById r blockId of None \<Rightarrow> [] | Some slot \<Rightarrow> m_predecessors r ! slot)"

definition cfr_reset :: "code_flow_result \<Rightarrow> code_flow_result" where
  "cfr_reset r = r\<lparr>m_blockIds := [], m_successors := [], m_predecessors := [], m_slotById := Map.empty\<rparr>"

section \<open>The pass\<close>

text \<open>\<open>is_block\<close> is \<open>getBlockById\<close> succeeding: it tells the blocks from the other entities
  (functions, globals) a reference can name.\<close>

definition branch_targets :: "(mir_id \<Rightarrow> bool) \<Rightarrow> mir_inst \<Rightarrow> mir_id list" where
  "branch_targets is_block i =
     concat (map (\<lambda>op. case op of Some (OpRef r) \<Rightarrow> if is_block r then [r] else [] | _ \<Rightarrow> []) (mi_operands i))"

text \<open>The instruction scan of one block; the flag tells whether control reaches its end.\<close>

fun scan_block :: "(mir_id \<Rightarrow> bool) \<Rightarrow> mir_id \<Rightarrow> mir_inst list \<Rightarrow> code_flow_result \<Rightarrow> code_flow_result \<times> bool" where
  "scan_block is_block cur [] r = (r, True)"
| "scan_block is_block cur (i # insts) r =
     (let flags = effective_flags i in
      if has_flag flags IsBranch then
        (let r' = fold (\<lambda>t r. cfr_addEdge r cur t) (branch_targets is_block i) r in
         if \<not> has_flag flags ReadsCPUFlags then (r', False) else scan_block is_block cur insts r')
      else if has_flag flags IsReturn then (r, False)
      else if has_flag flags IsTerminator then (r, False)
      else scan_block is_block cur insts r)"

fun cfg_blocks :: "(mir_id \<Rightarrow> bool) \<Rightarrow> mir_block list \<Rightarrow> code_flow_result \<Rightarrow> code_flow_result" where
  "cfg_blocks is_block [] r = r"
| "cfg_blocks is_block (b # bs) r =
     (let r1 = fst (ensureBlock r (mb_id b));
          (r2, falls) = scan_block is_block (mb_id b) (mb_insts b) r1;
          r3 = (if falls then (case bs of [] \<Rightarrow> r2 | n # _ \<Rightarrow> cfr_addEdge r2 (mb_id b) (mb_id n)) else r2)
      in cfg_blocks is_block bs r3)"

text \<open>The run: the graph, and the predecessor list published on every block.\<close>

definition cfg_run :: "(mir_id \<Rightarrow> bool) \<Rightarrow> mir_block list \<Rightarrow> code_flow_result \<Rightarrow>
    code_flow_result \<times> (mir_id \<times> mir_id list) list" where
  "cfg_run is_block blocks r =
     (let r' = cfg_blocks is_block blocks r
      in (r', map (\<lambda>b. (mb_id b, filter is_block (getPredecessors r' (mb_id b)))) blocks))"

section \<open>The interface\<close>

text \<open>\<open>edges\<close> and \<open>nodes\<close> are the content of the graph; \<open>inv\<close> is the state invariant.\<close>

locale edge_graph =
  fixes ensure :: "'g \<Rightarrow> mir_id \<Rightarrow> 'g"
    and add :: "'g \<Rightarrow> mir_id \<Rightarrow> mir_id \<Rightarrow> 'g"
    and succs preds :: "'g \<Rightarrow> mir_id \<Rightarrow> mir_id list"
    and nodes :: "'g \<Rightarrow> mir_id set"
    and inv :: "'g \<Rightarrow> bool"
  assumes inv_ensure: "inv g \<Longrightarrow> inv (ensure g n)"
    and nodes_ensure: "inv g \<Longrightarrow> nodes (ensure g n) = insert n (nodes g)"
    and succs_ensure: "inv g \<Longrightarrow> succs (ensure g n) = succs g"
    and inv_add: "inv g \<Longrightarrow> inv (add g p s)"
    and nodes_add: "inv g \<Longrightarrow> nodes (add g p s) = nodes g \<union> {p, s}"
    and succs_add: "inv g \<Longrightarrow> set (succs (add g p s) q) = set (succs g q) \<union> (if q = p then {s} else {})"
    and succs_sorted: "inv g \<Longrightarrow> sorted_wrt (<) (succs g n)"
    and preds_sorted: "inv g \<Longrightarrow> sorted_wrt (<) (preds g n)"
    and succs_preds: "inv g \<Longrightarrow> s \<in> set (succs g p) \<longleftrightarrow> p \<in> set (preds g s)"
    and succs_nodes: "inv g \<Longrightarrow> s \<in> set (succs g p) \<Longrightarrow> p \<in> nodes g \<and> s \<in> nodes g"
begin

lemma inv_add_all: "inv g \<Longrightarrow> inv (fold (\<lambda>t g. add g p t) ts g)"
  by (induction ts arbitrary: g) (simp_all add: inv_add)

lemma succs_add_all:
  "inv g \<Longrightarrow> set (succs (fold (\<lambda>t g. add g p t) ts g) q) = set (succs g q) \<union> (if q = p then set ts else {})"
  by (induction ts arbitrary: g) (auto simp: inv_add succs_add)

lemma nodes_add_all:
  "inv g \<Longrightarrow> nodes (fold (\<lambda>t g. add g p t) ts g) = nodes g \<union> (if ts = [] then {} else insert p (set ts))"
  by (induction ts arbitrary: g) (auto simp: inv_add nodes_add)

text \<open>A sorted list without repetition is determined by its elements.\<close>

lemma preds_determined:
  assumes "inv g" "inv h" "\<And>p. set (succs g p) = set (succs h p)"
  shows "preds g n = preds h n" "succs g n = succs h n"
proof -
  have "set (preds g n) = set (preds h n)"
    using assms succs_preds by blast
  then show "preds g n = preds h n"
    using preds_sorted [OF assms(1)] preds_sorted [OF assms(2)]
    by (auto simp: strict_sorted_iff intro: sorted_distinct_set_unique)
  show "succs g n = succs h n"
    using assms(3) [of n] succs_sorted [OF assms(1)] succs_sorted [OF assms(2)]
    by (auto simp: strict_sorted_iff intro: sorted_distinct_set_unique)
qed

end

section \<open>Sorted insertion\<close>

lemma takeWhile_less_sorted:
  fixes xs :: "mir_id list"
  assumes "sorted_wrt (<) xs"
  shows "\<forall>x \<in> set (drop (lower_bound xs i) xs). i \<le> x"
proof -
  have d: "drop (lower_bound xs i) xs = dropWhile (\<lambda>x. x < i) xs"
    by (metis append_eq_conv_conj lower_bound_def takeWhile_dropWhile_id)
  show ?thesis
  proof (cases "dropWhile (\<lambda>x. x < i) xs")
    case (Cons y ys)
    then have "i \<le> y" using hd_dropWhile [of "\<lambda>x. x < i" xs] by simp
    moreover have "sorted_wrt (<) (y # ys)"
      using assms by (metis Cons d sorted_wrt_drop)
    ultimately show ?thesis by (auto simp: d Cons)
  next
    case Nil
    then show ?thesis unfolding d Nil by simp
  qed
qed

lemma set_takeWhile_less: "\<forall>x \<in> set (take (lower_bound xs i) xs). x < i"
  by (metis lower_bound_def set_takeWhileD takeWhile_eq_take)

lemma set_insertSortedUnique [simp]: "set (insertSortedUnique xs i) = insert i (set xs)"
proof (cases "lower_bound xs i = length xs \<or> xs ! lower_bound xs i \<noteq> i")
  case True
  have "set xs = set (take (lower_bound xs i) xs) \<union> set (drop (lower_bound xs i) xs)"
    by (metis append_take_drop_id set_append)
  then show ?thesis using True by (auto simp: insertSortedUnique_def Let_def)
next
  case False
  have "lower_bound xs i \<le> length xs" by (simp add: lower_bound_def length_takeWhile_le)
  then have "i \<in> set xs" using False by (metis nth_mem order_le_less)
  then show ?thesis using False by (auto simp: insertSortedUnique_def Let_def)
qed

lemma sorted_insertSortedUnique: "sorted_wrt (<) xs \<Longrightarrow> sorted_wrt (<) (insertSortedUnique xs i)"
proof (cases "lower_bound xs i = length xs \<or> xs ! lower_bound xs i \<noteq> i")
  case True
  assume s: "sorted_wrt (<) xs"
  let ?k = "lower_bound xs i"
  have less: "\<forall>x \<in> set (take ?k xs). x < i" by (rule set_takeWhile_less)
  have ge: "\<forall>x \<in> set (drop ?k xs). i < x"
  proof (cases "drop ?k xs")
    case (Cons y ys)
    then have "xs ! ?k = y" "?k < length xs" by (metis hd_drop_conv_nth list.sel(1) drop_all list.distinct(1) not_less)+
    then have "y \<noteq> i" using True by auto
    moreover have "sorted_wrt (<) (y # ys)" using s by (metis Cons sorted_wrt_drop)
    moreover have "i \<le> y" using takeWhile_less_sorted [OF s, of i] Cons by simp
    ultimately show ?thesis by (auto simp: Cons)
  qed simp
  show ?thesis
    using True s less ge by (auto simp: insertSortedUnique_def Let_def sorted_wrt_append sorted_wrt_take sorted_wrt_drop
        dest: bspec intro: less_trans)
qed (simp add: insertSortedUnique_def Let_def)


section \<open>The slot vectors meet the interface\<close>

definition slots_ok :: "code_flow_result \<Rightarrow> bool" where
  "slots_ok r \<longleftrightarrow>
     length (m_successors r) = length (m_blockIds r) \<and> length (m_predecessors r) = length (m_blockIds r) \<and>
     (\<forall>n s. m_slotById r n = Some s \<longleftrightarrow> s < length (m_blockIds r) \<and> m_blockIds r ! s = n)"

definition cfr_wf :: "code_flow_result \<Rightarrow> bool" where
  "cfr_wf r \<longleftrightarrow> slots_ok r \<and>
     (\<forall>n. sorted_wrt (<) (getSuccessors r n)) \<and> (\<forall>n. sorted_wrt (<) (getPredecessors r n)) \<and>
     (\<forall>p s. s \<in> set (getSuccessors r p) \<longleftrightarrow> p \<in> set (getPredecessors r s)) \<and>
     (\<forall>p s. s \<in> set (getSuccessors r p) \<longrightarrow> cfr_contains r p \<and> cfr_contains r s)"

definition cfr_nodes :: "code_flow_result \<Rightarrow> mir_id set" where
  "cfr_nodes r = {n. cfr_contains r n}"

lemma slots_ok_empty: "slots_ok cfr_empty"
  by (simp add: slots_ok_def cfr_empty_def)

lemma slots_okD:
  assumes "slots_ok r"
  shows "length (m_successors r) = length (m_blockIds r)" "length (m_predecessors r) = length (m_blockIds r)"
    "m_slotById r n = Some s \<Longrightarrow> s < length (m_blockIds r)"
    "m_slotById r n = Some s \<Longrightarrow> m_slotById r m = Some s \<Longrightarrow> m = n"
    "m_slotById r n = Some s \<longleftrightarrow> s < length (m_blockIds r) \<and> m_blockIds r ! s = n"
proof -
  have slot: "m_slotById r m = Some s \<longleftrightarrow> s < length (m_blockIds r) \<and> m_blockIds r ! s = m" for m s
    using assms unfolding slots_ok_def by (elim conjE) (erule spec2)
  then show "m_slotById r n = Some s \<Longrightarrow> s < length (m_blockIds r)"
    "m_slotById r n = Some s \<Longrightarrow> m_slotById r m = Some s \<Longrightarrow> m = n"
    "m_slotById r n = Some s \<longleftrightarrow> s < length (m_blockIds r) \<and> m_blockIds r ! s = n"
    by (simp_all only:)
  show "length (m_successors r) = length (m_blockIds r)" "length (m_predecessors r) = length (m_blockIds r)"
    using assms by (simp_all add: slots_ok_def)
qed

lemma slots_ok_blockIds: "slots_ok r \<Longrightarrow> distinct (m_blockIds r) \<and> set (m_blockIds r) = cfr_nodes r"
proof -
  assume r: "slots_ok r"
  have slot: "s < length (m_blockIds r) \<Longrightarrow> m_slotById r (m_blockIds r ! s) = Some s" for s
    by (rule slots_okD(5) [OF r, THEN iffD2]) simp
  have d: "distinct (m_blockIds r)"
    unfolding distinct_conv_nth
  proof (intro allI impI notI)
    fix i j assume "i < length (m_blockIds r)" "j < length (m_blockIds r)" "i \<noteq> j" "m_blockIds r ! i = m_blockIds r ! j"
    then show False using slot [of i] slot [of j] by simp
  qed
  have "n \<in> set (m_blockIds r) \<longleftrightarrow> n \<in> cfr_nodes r" for n
    unfolding in_set_conv_nth cfr_nodes_def cfr_contains_def mem_Collect_eq not_None_eq
      slots_okD(5) [OF r] by blast
  then show ?thesis using d by blast
qed

lemma slots_ok_ensure:
  assumes "slots_ok r"
  shows "slots_ok (fst (ensureBlock r n))"
proof (cases "m_slotById r n")
  case None
  then have new: "\<not> (s < length (m_blockIds r) \<and> m_blockIds r ! s = n)" for s
    using slots_okD(5) [OF assms, of n s] by simp
  show ?thesis
    using assms None new unfolding slots_ok_def ensureBlock_def
    by (auto simp: nth_append less_Suc_eq split: if_splits)
qed (simp add: ensureBlock_def assms)

lemma ensure_slot:
  assumes "ensureBlock r n = (r', s)"
  shows "m_slotById r' n = Some s" "m_slotById r m = Some k \<Longrightarrow> m_slotById r' m = Some k"
  using assms by (auto simp: ensureBlock_def split: option.splits)

lemma getters_ensure:
  assumes "slots_ok r"
  shows "getSuccessors (fst (ensureBlock r n)) = getSuccessors r"
    "getPredecessors (fst (ensureBlock r n)) = getPredecessors r"
  using slots_okD(1,2,3) [OF assms]
  by (auto simp: fun_eq_iff getSuccessors_def getPredecessors_def ensureBlock_def nth_append split: option.splits)

lemma contains_ensure: "cfr_contains (fst (ensureBlock r n)) m \<longleftrightarrow> m = n \<or> cfr_contains r m"
  by (auto simp: cfr_contains_def ensureBlock_def split: option.splits)

lemma ensure_twice:
  assumes r: "slots_ok r" and e: "ensureBlock r p = (r1, i)" "ensureBlock r1 s = (r2, j)"
  shows "slots_ok r2" "getSuccessors r2 = getSuccessors r" "getPredecessors r2 = getPredecessors r"
    "m_slotById r2 p = Some i" "m_slotById r2 s = Some j" "cfr_contains r2 m \<longleftrightarrow> m = p \<or> m = s \<or> cfr_contains r m"
proof -
  have r1: "slots_ok r1" using slots_ok_ensure [OF r, of p] e by simp
  show "slots_ok r2" using slots_ok_ensure [OF r1, of s] e by simp
  show "getSuccessors r2 = getSuccessors r" "getPredecessors r2 = getPredecessors r"
    using getters_ensure [OF r, of p] getters_ensure [OF r1, of s] e by simp_all
  show "m_slotById r2 p = Some i" "m_slotById r2 s = Some j"
    using ensure_slot e by blast+
  show "cfr_contains r2 m \<longleftrightarrow> m = p \<or> m = s \<or> cfr_contains r m"
    using contains_ensure [of r p m] contains_ensure [of r1 s m] e by auto
qed

lemma addEdge_slots:
  assumes r: "slots_ok r"
  shows "slots_ok (cfr_addEdge r p s)"
    "cfr_contains (cfr_addEdge r p s) m \<longleftrightarrow> m = p \<or> m = s \<or> cfr_contains r m"
    "getSuccessors (cfr_addEdge r p s) q =
      (if q = p then insertSortedUnique (getSuccessors r p) s else getSuccessors r q)"
    "getPredecessors (cfr_addEdge r p s) q =
      (if q = s then insertSortedUnique (getPredecessors r s) p else getPredecessors r q)"
proof -
  obtain r1 i r2 j where e: "ensureBlock r p = (r1, i)" "ensureBlock r1 s = (r2, j)"
    by (metis surj_pair)
  note t = ensure_twice [OF r e]
  have len: "i < length (m_successors r2)" "j < length (m_predecessors r2)"
    using slots_okD [OF t(1)] t(4,5) by metis+
  have inj: "m_slotById r2 q = Some i \<longleftrightarrow> q = p" "m_slotById r2 q = Some j \<longleftrightarrow> q = s" for q
    using slots_okD(4) [OF t(1)] t(4,5) by blast+
  have add: "cfr_addEdge r p s =
      r2\<lparr>m_successors := (m_successors r2)[i := insertSortedUnique (m_successors r2 ! i) s],
         m_predecessors := (m_predecessors r2)[j := insertSortedUnique (m_predecessors r2 ! j) p]\<rparr>"
    by (simp add: cfr_addEdge_def e)
  show "slots_ok (cfr_addEdge r p s)" using t(1) by (simp add: add slots_ok_def)
  show "cfr_contains (cfr_addEdge r p s) m \<longleftrightarrow> m = p \<or> m = s \<or> cfr_contains r m"
    using t(6) [of m] by (simp add: add cfr_contains_def)
  show "getSuccessors (cfr_addEdge r p s) q =
      (if q = p then insertSortedUnique (getSuccessors r p) s else getSuccessors r q)"
    unfolding t(2) [symmetric] using t(4) len inj(1) [of q]
    by (auto simp: add getSuccessors_def nth_list_update split: option.splits)
  show "getPredecessors (cfr_addEdge r p s) q =
      (if q = s then insertSortedUnique (getPredecessors r s) p else getPredecessors r q)"
    unfolding t(3) [symmetric] using t(5) len inj(2) [of q]
    by (auto simp: add getPredecessors_def nth_list_update split: option.splits)
qed

lemma cfr_wfD:
  assumes "cfr_wf r"
  shows "slots_ok r" "sorted_wrt (<) (getSuccessors r n)" "sorted_wrt (<) (getPredecessors r n)"
    "s \<in> set (getSuccessors r p) \<longleftrightarrow> p \<in> set (getPredecessors r s)"
    "s \<in> set (getSuccessors r p) \<Longrightarrow> cfr_contains r p \<and> cfr_contains r s"
  using assms unfolding cfr_wf_def by blast+

lemma cfr_wf_addEdge:
  assumes "cfr_wf r"
  shows "cfr_wf (cfr_addEdge r p s)"
proof -
  note w = cfr_wfD [OF assms] and a = addEdge_slots [OF cfr_wfD(1) [OF assms], of p s]
  show ?thesis
    unfolding cfr_wf_def
  proof (intro conjI allI impI)
    fix q t
    show "t \<in> set (getSuccessors (cfr_addEdge r p s) q) \<longleftrightarrow> q \<in> set (getPredecessors (cfr_addEdge r p s) t)"
      using w(4) by (auto simp: a)
    assume "t \<in> set (getSuccessors (cfr_addEdge r p s) q)"
    then show "cfr_contains (cfr_addEdge r p s) q" "cfr_contains (cfr_addEdge r p s) t"
      using w(5) by (auto simp: a split: if_splits)
  qed (use w a in \<open>auto intro: sorted_insertSortedUnique\<close>)
qed

interpretation cfr: edge_graph "\<lambda>r n. fst (ensureBlock r n)" cfr_addEdge getSuccessors getPredecessors cfr_nodes cfr_wf
proof (unfold_locales, goal_cases)
  case (1 g n)
  then show ?case
    unfolding cfr_wf_def by (simp add: slots_ok_ensure getters_ensure contains_ensure)
next
  case (2 g n)
  show ?case by (auto simp: cfr_nodes_def contains_ensure)
next
  case (3 g n)
  then show ?case by (simp add: getters_ensure cfr_wfD(1))
next
  case (4 g p s)
  then show ?case by (rule cfr_wf_addEdge)
next
  case (5 g p s)
  then show ?case by (auto simp: cfr_nodes_def addEdge_slots(2) [OF cfr_wfD(1)])
next
  case (6 g p s q)
  then show ?case by (auto simp: addEdge_slots(3) [OF cfr_wfD(1)])
next
  case (7 g n)
  then show ?case by (rule cfr_wfD(2))
next
  case (8 g n)
  then show ?case by (rule cfr_wfD(3))
next
  case (9 g s p)
  then show ?case by (rule cfr_wfD(4))
next
  case (10 g s p)
  then show ?case using cfr_wfD(5) by (simp add: cfr_nodes_def)
qed

lemma cfr_wf_empty: "cfr_wf cfr_empty"
  by (simp add: cfr_wf_def slots_ok_empty) (simp add: getSuccessors_def getPredecessors_def cfr_empty_def)


section \<open>The specification: control leaves a block\<close>

text \<open>An instruction after which the next one of the block is never executed.\<close>

definition ends_block :: "mir_inst \<Rightarrow> bool" where
  "ends_block i \<longleftrightarrow>
     (let flags = effective_flags i in
      if has_flag flags IsBranch then \<not> has_flag flags ReadsCPUFlags
      else has_flag flags IsReturn \<or> has_flag flags IsTerminator)"

text \<open>\<open>reaches insts k\<close>: entering the block, control can get to position \<open>k\<close>.\<close>

inductive reaches :: "mir_inst list \<Rightarrow> nat \<Rightarrow> bool" for insts where
  entry: "reaches insts 0"
| step: "reaches insts k \<Longrightarrow> k < length insts \<Longrightarrow> \<not> ends_block (insts ! k) \<Longrightarrow> reaches insts (Suc k)"

inductive_simps reaches_Suc: "reaches insts (Suc k)"

text \<open>Control leaves for block \<open>t\<close> by a branch, or past the last instruction to the next block.\<close>

definition jumps_to :: "(mir_id \<Rightarrow> bool) \<Rightarrow> mir_inst list \<Rightarrow> mir_id set" where
  "jumps_to is_block insts =
     {t. \<exists>k < length insts. reaches insts k \<and> has_flag (effective_flags (insts ! k)) IsBranch \<and>
          t \<in> set (branch_targets is_block (insts ! k))}"

definition control_edge :: "(mir_id \<Rightarrow> bool) \<Rightarrow> mir_block list \<Rightarrow> mir_id \<Rightarrow> mir_id \<Rightarrow> bool" where
  "control_edge is_block blocks p s \<longleftrightarrow>
     (\<exists>j < length blocks. mb_id (blocks ! j) = p \<and>
        (s \<in> jumps_to is_block (mb_insts (blocks ! j)) \<or>
         reaches (mb_insts (blocks ! j)) (length (mb_insts (blocks ! j))) \<and>
         Suc j < length blocks \<and> s = mb_id (blocks ! Suc j)))"

lemma reaches_shift: "reaches (i # insts) (Suc k) \<longleftrightarrow> \<not> ends_block i \<and> reaches insts k"
proof
  show "reaches (i # insts) (Suc k) \<Longrightarrow> \<not> ends_block i \<and> reaches insts k"
  proof (induction k)
    case 0
    then show ?case by (auto simp: reaches_Suc intro: reaches.entry)
  next
    case (Suc k)
    then show ?case
      by (subst (asm) reaches_Suc) (auto intro: reaches.step)
  qed
  show "\<not> ends_block i \<and> reaches insts k \<Longrightarrow> reaches (i # insts) (Suc k)"
  proof (induction k)
    case 0
    then show ?case by (auto simp: reaches_Suc intro: reaches.entry)
  next
    case (Suc k)
    from Suc.prems have "reaches insts k" "k < length insts" "\<not> ends_block (insts ! k)"
      by (auto simp: reaches_Suc)
    with Suc show ?case by (subst reaches_Suc) simp
  qed
qed

lemma jumps_to_Nil: "jumps_to is_block [] = {}"
  by (simp add: jumps_to_def)

lemma jumps_to_Cons:
  "jumps_to is_block (i # insts) =
     (if has_flag (effective_flags i) IsBranch then set (branch_targets is_block i) else {}) \<union>
     (if ends_block i then {} else jumps_to is_block insts)"
proof -
  have "t \<in> jumps_to is_block (i # insts) \<longleftrightarrow>
      has_flag (effective_flags i) IsBranch \<and> t \<in> set (branch_targets is_block i) \<or>
      \<not> ends_block i \<and> t \<in> jumps_to is_block insts" for t
    unfolding jumps_to_def mem_Collect_eq length_Cons Ex_less_Suc2 nth_Cons_0 nth_Cons_Suc reaches_shift
    using reaches.entry by auto
  then show ?thesis by auto
qed

lemma scan_block_correct:
  assumes "cfr_wf r" "scan_block is_block cur insts r = (r', falls)" "cfr_contains r cur"
  shows "cfr_wf r' \<and> cfr_contains r' cur \<and> (falls \<longleftrightarrow> reaches insts (length insts)) \<and>
    (\<forall>q. set (getSuccessors r' q) = set (getSuccessors r q) \<union> (if q = cur then jumps_to is_block insts else {})) \<and>
    cfr_nodes r' = cfr_nodes r \<union> jumps_to is_block insts"
  using assms
proof (induction insts arbitrary: r)
  case Nil
  then show ?case by (auto simp: jumps_to_Nil intro: reaches.entry)
next
  case (Cons i insts)
  let ?r1 = "fold (\<lambda>t r. cfr_addEdge r cur t) (branch_targets is_block i) r"
  have w1: "cfr_wf ?r1"
    and s1: "set (getSuccessors ?r1 q) = set (getSuccessors r q) \<union> (if q = cur then set (branch_targets is_block i) else {})"
    and n1: "cfr_nodes ?r1 = cfr_nodes r \<union> set (branch_targets is_block i)" for q
    using cfr.inv_add_all cfr.succs_add_all cfr.nodes_add_all Cons.prems(1,3)
    by (auto simp: cfr_nodes_def)
  have c1: "cfr_contains ?r1 cur" using n1 Cons.prems(3) by (auto simp: cfr_nodes_def)
  consider (ub) "has_flag (effective_flags i) IsBranch" "\<not> has_flag (effective_flags i) ReadsCPUFlags"
    | (cb) "has_flag (effective_flags i) IsBranch" "has_flag (effective_flags i) ReadsCPUFlags"
    | (stop) "\<not> has_flag (effective_flags i) IsBranch" "ends_block i"
    | (go) "\<not> has_flag (effective_flags i) IsBranch" "\<not> ends_block i"
    by blast
  then show ?case
  proof cases
    case ub
    then have e: "ends_block i" and r': "r' = ?r1" and f: "\<not> falls"
      using Cons.prems(2) by (auto simp: ends_block_def Let_def)
    have "jumps_to is_block (i # insts) = set (branch_targets is_block i)"
      using ub e by (simp add: jumps_to_Cons)
    then show ?thesis using e f w1 s1 n1 c1 unfolding r' by (simp add: reaches_shift)
  next
    case cb
    then have e: "\<not> ends_block i" and sc: "scan_block is_block cur insts ?r1 = (r', falls)"
      using Cons.prems(2) by (auto simp: ends_block_def Let_def)
    from Cons.IH [OF w1 sc c1] show ?thesis
      using cb e by (simp add: reaches_shift jumps_to_Cons s1 n1 Un_assoc)
  next
    case stop
    then have "r' = r" "\<not> falls"
      using Cons.prems(2) by (auto simp: ends_block_def Let_def split: if_splits)
    then show ?thesis using stop Cons.prems by (simp add: reaches_shift jumps_to_Cons)
  next
    case go
    then have sc: "scan_block is_block cur insts r = (r', falls)"
      using Cons.prems(2) by (auto simp: ends_block_def Let_def split: if_splits)
    from Cons.IH [OF Cons.prems(1) sc Cons.prems(3)] show ?thesis
      using go by (simp add: reaches_shift jumps_to_Cons)
  qed
qed

lemma control_edge_Cons:
  "control_edge is_block (b # bs) p s \<longleftrightarrow>
     p = mb_id b \<and> (s \<in> jumps_to is_block (mb_insts b) \<or>
       reaches (mb_insts b) (length (mb_insts b)) \<and> (\<exists>n ns. bs = n # ns \<and> s = mb_id n)) \<or>
     control_edge is_block bs p s"
  unfolding control_edge_def length_Cons Ex_less_Suc2 nth_Cons_0 nth_Cons_Suc Suc_less_eq
  by (cases bs) auto

lemma cfg_blocks_correct:
  assumes "cfr_wf r"
  shows "cfr_wf (cfg_blocks is_block blocks r) \<and>
    (\<forall>p s. s \<in> set (getSuccessors (cfg_blocks is_block blocks r) p) \<longleftrightarrow>
       s \<in> set (getSuccessors r p) \<or> control_edge is_block blocks p s) \<and>
    (\<forall>n. cfr_contains r n \<or> n \<in> mb_id ` set blocks \<longrightarrow> cfr_contains (cfg_blocks is_block blocks r) n)"
  using assms
proof (induction blocks arbitrary: r)
  case Nil
  then show ?case by (simp add: control_edge_def)
next
  case (Cons b bs)
  let ?r1 = "fst (ensureBlock r (mb_id b))"
  obtain r2 falls where sc: "scan_block is_block (mb_id b) (mb_insts b) ?r1 = (r2, falls)"
    by (metis surj_pair)
  define r3 where "r3 = (if falls then (case bs of [] \<Rightarrow> r2 | n # _ \<Rightarrow> cfr_addEdge r2 (mb_id b) (mb_id n)) else r2)"
  have w1: "cfr_wf ?r1" using Cons.prems by (rule cfr.inv_ensure)
  have c1: "cfr_contains ?r1 (mb_id b)" by (simp add: contains_ensure)
  note s2 = scan_block_correct [OF w1 sc c1]
  have w3: "cfr_wf r3"
    using s2 by (auto simp: r3_def cfr_wf_addEdge split: list.split)
  have e3: "s \<in> set (getSuccessors r3 p) \<longleftrightarrow> s \<in> set (getSuccessors r p) \<or>
      p = mb_id b \<and> (s \<in> jumps_to is_block (mb_insts b) \<or>
        reaches (mb_insts b) (length (mb_insts b)) \<and> (\<exists>n ns. bs = n # ns \<and> s = mb_id n))" for p s
    using s2 cfr.succs_ensure [OF Cons.prems]
    by (auto simp: r3_def cfr.succs_add split: list.splits if_splits)
  have n3: "cfr_contains r n \<or> n = mb_id b \<Longrightarrow> cfr_contains r3 n" for n
  proof -
    assume "cfr_contains r n \<or> n = mb_id b"
    then have "n \<in> cfr_nodes ?r1" by (auto simp: cfr_nodes_def contains_ensure)
    then have "n \<in> cfr_nodes r2" using s2 by blast
    then show ?thesis
      using s2 by (auto simp: r3_def cfr_nodes_def addEdge_slots(2) [OF cfr_wfD(1)] split: list.split)
  qed
  have run: "cfg_blocks is_block (b # bs) r = cfg_blocks is_block bs r3"
    by (simp add: sc r3_def)
  from Cons.IH [OF w3] show ?case
    unfolding run control_edge_Cons e3 using n3 by auto
qed


section \<open>Properties\<close>

text \<open>C37: Every operation of the result keeps its invariant: one slot per block, adjacency lists
  sorted without repetition, successor and predecessor lists inverse to each other, edges only
  between tracked blocks. \<open>reset\<close> establishes it, and a run of the pass on any function keeps
  it, so it holds of the result accumulated over all functions.\<close>

theorem cfg_invariant:
  assumes "cfr_wf r"
  shows "cfr_wf (cfr_reset r) \<and> cfr_wf (fst (ensureBlock r n)) \<and> cfr_wf (cfr_addEdge r p s) \<and>
    cfr_wf (fst (cfg_run is_block blocks r))"
proof (intro conjI)
  have "cfr_reset r = r\<lparr>m_blockIds := m_blockIds cfr_empty, m_successors := [], m_predecessors := [],
      m_slotById := Map.empty\<rparr>"
    by (simp add: cfr_reset_def cfr_empty_def)
  then show "cfr_wf (cfr_reset r)"
    by (simp add: cfr_wf_def slots_ok_def getSuccessors_def getPredecessors_def cfr_empty_def)
  show "cfr_wf (fst (ensureBlock r n))" using assms by (rule cfr.inv_ensure)
  show "cfr_wf (cfr_addEdge r p s)" using assms by (rule cfr.inv_add)
  show "cfr_wf (fst (cfg_run is_block blocks r))"
    using cfg_blocks_correct [OF assms] by (simp add: cfg_run_def Let_def)
qed

theorem cfg_invariant_witness:
  "cfr_wf (cfr_addEdge (cfr_addEdge cfr_empty 1 2) 2 1) \<and>
   getSuccessors (cfr_addEdge (cfr_addEdge cfr_empty 1 2) 2 1) 2 = [1]"
  using cfg_invariant [OF cfg_invariant [OF cfr_wf_empty, THEN conjunct2, THEN conjunct2, THEN conjunct1],
      THEN conjunct2, THEN conjunct2, THEN conjunct1, of 1 2 2 1]
  by (simp add: cfr_addEdge_def ensureBlock_def cfr_empty_def getSuccessors_def insertSortedUnique_def
      lower_bound_def)

text \<open>C38: The pass adds exactly the edges along which control can leave a block: the targets of
  the branches the block can execute, and its layout successor when control reaches the end of
  the block. Both adjacency lists are sorted and inverse to each other, every block of the
  function is tracked, and the predecessor list published on a block names the blocks control
  can come from, in increasing order.\<close>

theorem cfg_run_exact:
  assumes "cfr_wf r" "cfg_run is_block blocks r = (r', published)"
  shows "(s \<in> set (getSuccessors r' p) \<longleftrightarrow> s \<in> set (getSuccessors r p) \<or> control_edge is_block blocks p s) \<and>
    (p \<in> set (getPredecessors r' s) \<longleftrightarrow> s \<in> set (getSuccessors r' p)) \<and>
    sorted_wrt (<) (getSuccessors r' p) \<and> sorted_wrt (<) (getPredecessors r' s) \<and>
    (\<forall>b \<in> set blocks. cfr_contains r' (mb_id b)) \<and>
    map fst published = map mb_id blocks \<and>
    (\<forall>(b, ps) \<in> set published. sorted_wrt (<) ps \<and>
       (p \<in> set ps \<longleftrightarrow> is_block p \<and> (b \<in> set (getSuccessors r p) \<or> control_edge is_block blocks p b)))"
proof -
  have r': "r' = cfg_blocks is_block blocks r"
    and pub: "published = map (\<lambda>b. (mb_id b, filter is_block (getPredecessors r' (mb_id b)))) blocks"
    using assms(2) by (auto simp: cfg_run_def Let_def)
  note c = cfg_blocks_correct [OF assms(1), of is_block blocks, folded r']
  from c have w: "cfr_wf r'" by blast
  note succ = c [THEN conjunct2, THEN conjunct1, rule_format]
  have pred: "p \<in> set (getPredecessors r' s) \<longleftrightarrow> s \<in> set (getSuccessors r' p)" for p s
    using cfr_wfD(4) [OF w] by blast
  have published: "\<forall>(b, ps) \<in> set published. sorted_wrt (<) ps \<and>
       (p \<in> set ps \<longleftrightarrow> is_block p \<and> (b \<in> set (getSuccessors r p) \<or> control_edge is_block blocks p b))"
    using cfr_wfD(3) [OF w] by (auto simp: pub pred succ intro: sorted_wrt_filter)
  show ?thesis
    using succ pred cfr_wfD(2,3) [OF w] c published by (auto simp: pub)
qed

theorem cfg_run_exact_witness:
  "{s. control_edge (\<lambda>n. n < 5)
     [\<lparr>mb_id = 2, mb_insts = [\<lparr>mi_opcode = OtherOp 0, mi_flags = IsBranch, mi_slots = [], mi_desc = None,
        mi_operands = [Some (OpRef 2), Some (OpRef 7)]\<rparr>]\<rparr>, \<lparr>mb_id = 4, mb_insts = []\<rparr>] 2 s} = {2}"
proof -
  let ?blocks = "[\<lparr>mb_id = 2, mb_insts = [\<lparr>mi_opcode = OtherOp 0, mi_flags = IsBranch, mi_slots = [], mi_desc = None,
        mi_operands = [Some (OpRef 2), Some (OpRef 7)]\<rparr>]\<rparr>, \<lparr>mb_id = 4, mb_insts = []\<rparr>]"
  have run: "getSuccessors (fst (cfg_run (\<lambda>n. n < 5) ?blocks cfr_empty)) 2 = [2]"
    by (simp add: cfg_run_def Let_def effective_flags_def has_flag_def IsBranch_def ReadsCPUFlags_def branch_targets_def
        cfr_addEdge_def ensureBlock_def cfr_empty_def getSuccessors_def insertSortedUnique_def lower_bound_def)
  have "getSuccessors cfr_empty 2 = []" by (simp add: getSuccessors_def cfr_empty_def)
  then have "control_edge (\<lambda>n. n < 5) ?blocks 2 s \<longleftrightarrow> s = 2" for s
    using cfg_run_exact [OF cfr_wf_empty surjective_pairing, of s "\<lambda>n. n < 5" ?blocks 2] by (simp add: run)
  then show ?thesis by blast
qed

end
