(* ===== verification/Liveness.thy ===== *)
theory Liveness
  imports CodeFlow DenseBits
begin

text \<open>
  \<open>LivenessAnalysisPass::computeGlobalLiveness\<close>
  (EzMir/src/MirPasses/Passes/LivenessAnalysisPass.cpp): per-block definitions and
  upward-exposed uses, the register universe, the bit-set solver and the materialised
  result. The specification is \<open>live_at\<close>, liveness at every program point of the function,
  and the main theorem says that the pass returns and computes exactly it. A hash set is the
  list of its elements in insertion order; what the theorems state does not depend on the
  order.
\<close>

section \<open>The pass\<close>

record liveness_result =
  m_def :: "mir_id \<rightharpoonup> reg_ref list"
  m_use :: "mir_id \<rightharpoonup> reg_ref list"
  m_liveIn :: "mir_id \<rightharpoonup> reg_ref list"
  m_liveOut :: "mir_id \<rightharpoonup> reg_ref list"

text \<open>A recorded use of a virtual register: without a user, or by an instruction whose owner is
  the given block (\<open>None\<close> when it was erased).\<close>

datatype reg_use = NoUser | UserIn "mir_id option"

definition set_insert :: "'a \<Rightarrow> 'a list \<Rightarrow> 'a list" where
  "set_insert x xs = (if x \<in> set xs then xs else xs @ [x])"

definition emplace :: "'k \<Rightarrow> 'v \<Rightarrow> ('k \<rightharpoonup> 'v) \<Rightarrow> ('k \<rightharpoonup> 'v)" where
  "emplace k v m = (case m k of Some _ \<Rightarrow> m | None \<Rightarrow> m(k \<mapsto> v))"

definition index_of :: "'a list \<Rightarrow> 'a \<Rightarrow> nat option" where
  "index_of xs x = find (\<lambda>k. xs ! k = x) [0..<length xs]"

text \<open>Phase 1: empty sets for every block.\<close>

definition init_block :: "mir_block \<Rightarrow> liveness_result \<Rightarrow> liveness_result" where
  "init_block b r =
     r\<lparr>m_def := emplace (mb_id b) [] (m_def r), m_use := emplace (mb_id b) [] (m_use r),
       m_liveIn := emplace (mb_id b) [] (m_liveIn r), m_liveOut := emplace (mb_id b) [] (m_liveOut r)\<rparr>"

text \<open>Phase 2: block-local definitions and upward-exposed uses.\<close>

definition def_use_inst :: "mir_inst \<Rightarrow> reg_ref list \<times> reg_ref list \<Rightarrow> reg_ref list \<times> reg_ref list" where
  "def_use_inst i st =
     (case st of (defSet, useSet) \<Rightarrow>
        (fold set_insert (getDefinedRegisters i) defSet,
         fold (\<lambda>reg u. if reg \<notin> set defSet then set_insert reg u else u) (getUsedRegisters i) useSet))"

definition def_use_block :: "mir_block \<Rightarrow> liveness_result \<Rightarrow> liveness_result" where
  "def_use_block b r =
     (let (defSet, useSet) =
        fold def_use_inst (mb_insts b) (the (m_def r (mb_id b)), the (m_use r (mb_id b)))
      in r\<lparr>m_def := (m_def r)(mb_id b \<mapsto> defSet), m_use := (m_use r)(mb_id b \<mapsto> useSet)\<rparr>)"

text \<open>Phase 3: the registers that can be live across a block boundary.\<close>

definition used_outside :: "(mir_id \<Rightarrow> reg_use list option) \<Rightarrow> mir_id \<Rightarrow> reg_ref \<Rightarrow> bool" where
  "used_outside getUses blockId reg \<longleftrightarrow>
     (case getUses (reg_id reg) of
        None \<Rightarrow> False
      | Some us \<Rightarrow> \<exists>u \<in> set us. (case u of NoUser \<Rightarrow> False | UserIn owner \<Rightarrow> owner \<noteq> Some blockId))"

definition use_universe :: "mir_block list \<Rightarrow> liveness_result \<Rightarrow> reg_ref list" where
  "use_universe blocks r = fold (\<lambda>b. fold set_insert (the (m_use r (mb_id b)))) blocks []"

definition def_universe ::
  "(mir_id \<Rightarrow> reg_use list option) \<Rightarrow> mir_block list \<Rightarrow> liveness_result \<Rightarrow> reg_ref list \<Rightarrow> reg_ref list" where
  "def_universe getUses blocks r globals =
     fold (\<lambda>b. fold (\<lambda>reg u. if \<not> isVirtual reg \<or> used_outside getUses (mb_id b) reg then set_insert reg u else u)
                 (the (m_def r (mb_id b)))) blocks globals"

definition register_universe ::
  "(mir_id \<Rightarrow> reg_use list option) option \<Rightarrow> mir_block list \<Rightarrow> liveness_result \<Rightarrow> reg_ref list" where
  "register_universe regInfo blocks r =
     (case regInfo of
        None \<Rightarrow> use_universe blocks r
      | Some getUses \<Rightarrow> def_universe getUses blocks r (use_universe blocks r))"

text \<open>Phases 4 and 5: bit sets and dense successor lists.\<close>

definition to_bits :: "reg_ref list \<Rightarrow> reg_ref list \<Rightarrow> dense_bit_set" where
  "to_bits globals regs =
     fold (\<lambda>reg s. case index_of globals reg of Some k \<Rightarrow> dbs_set s k | None \<Rightarrow> s) regs (dbs_new (length globals))"

definition dense_successors :: "code_flow_result \<Rightarrow> mir_block list \<Rightarrow> nat list list" where
  "dense_successors cfg blocks =
     map (\<lambda>b. List.map_filter (index_of (map mb_id blocks)) (getSuccessors cfg (mb_id b))) blocks"

text \<open>Phase 6: the solver. The state is the pair of the live-out and the live-in sets.\<close>

type_synonym solver_state = "dense_bit_set list \<times> dense_bit_set list"

definition union_succ :: "dense_bit_set list \<Rightarrow> nat \<Rightarrow> dense_bit_set \<times> bool \<Rightarrow> dense_bit_set \<times> bool" where
  "union_succ ins s st =
     (let (liveOut, ch) = dbs_unionWith (fst st) (ins ! s) in (liveOut, snd st \<or> ch))"

definition solve_block ::
  "dense_bit_set list \<Rightarrow> dense_bit_set list \<Rightarrow> nat list list \<Rightarrow> nat \<Rightarrow> solver_state \<times> bool \<Rightarrow> solver_state \<times> bool" where
  "solve_block uses defs succs i st =
     (case st of ((outs, ins), changed) \<Rightarrow>
        let (liveOut, ch1) = fold (union_succ ins) (succs ! i) (outs ! i, changed);
            (liveIn, ch2) = dbs_computeLiveIn (ins ! i) (uses ! i) liveOut (defs ! i)
        in ((outs[i := liveOut], ins[i := liveIn]), ch1 \<or> ch2))"

definition solve_round ::
  "dense_bit_set list \<Rightarrow> dense_bit_set list \<Rightarrow> nat list list \<Rightarrow> solver_state \<Rightarrow> solver_state \<times> bool" where
  "solve_round uses defs succs st = fold (solve_block uses defs succs) (rev [0..<length succs]) (st, False)"

text \<open>Phase 7: back to register sets.\<close>

definition materialize_set :: "reg_ref list \<Rightarrow> dense_bit_set \<Rightarrow> reg_ref list \<Rightarrow> reg_ref list" where
  "materialize_set globals bits xs =
     fold (\<lambda>k xs. if dbs_test bits k then set_insert (globals ! k) xs else xs) [0..<length globals] xs"

definition materialize_block ::
  "reg_ref list \<Rightarrow> solver_state \<Rightarrow> mir_block list \<Rightarrow> nat \<Rightarrow> liveness_result \<Rightarrow> liveness_result" where
  "materialize_block globals st blocks i r =
     (let b = mb_id (blocks ! i) in
      r\<lparr>m_liveIn := (m_liveIn r)(b \<mapsto> materialize_set globals (snd st ! i) (the (m_liveIn r b))),
        m_liveOut := (m_liveOut r)(b \<mapsto> materialize_set globals (fst st ! i) (the (m_liveOut r b)))\<rparr>)"

definition computeGlobalLiveness ::
  "(mir_id \<Rightarrow> reg_use list option) option \<Rightarrow> code_flow_result \<Rightarrow> mir_block list \<Rightarrow> liveness_result \<Rightarrow>
   liveness_result option" where
  "computeGlobalLiveness regInfo cfg blocks r =
     (if blocks = [] then Some r
      else
        let r1 = fold init_block blocks r;
            r2 = fold def_use_block blocks r1;
            globals = register_universe regInfo blocks r2;
            numBlocks = length blocks
        in if globals = [] then Some r2
           else
             let defs = map (\<lambda>b. to_bits globals (the (m_def r2 (mb_id b)))) blocks;
                 uses = map (\<lambda>b. to_bits globals (the (m_use r2 (mb_id b)))) blocks;
                 zero = replicate numBlocks (dbs_new (length globals))
             in map_option (\<lambda>st. fold (materialize_block globals st blocks) [0..<numBlocks] r2)
                  (while_changed (solve_round uses defs (dense_successors cfg blocks)) (zero, zero)))"

definition liveness_reset :: "liveness_result \<Rightarrow> liveness_result" where
  "liveness_reset r = r\<lparr>m_def := Map.empty, m_use := Map.empty, m_liveIn := Map.empty, m_liveOut := Map.empty\<rparr>"

section \<open>The specification\<close>

text \<open>\<open>live_at cfg blocks reg i k\<close>: on entry to instruction \<open>k\<close> of block \<open>i\<close> (at the end of the
  block when \<open>k\<close> is its length) there is a path to a read of \<open>reg\<close> with no write in between.\<close>

inductive live_at :: "code_flow_result \<Rightarrow> mir_block list \<Rightarrow> reg_ref \<Rightarrow> nat \<Rightarrow> nat \<Rightarrow> bool"
  for cfg blocks reg where
  used: "i < length blocks \<Longrightarrow> k < length (mb_insts (blocks ! i)) \<Longrightarrow>
    reg \<in> set (getUsedRegisters (mb_insts (blocks ! i) ! k)) \<Longrightarrow> live_at cfg blocks reg i k"
| through: "live_at cfg blocks reg i (Suc k) \<Longrightarrow> k < length (mb_insts (blocks ! i)) \<Longrightarrow>
    reg \<notin> set (getDefinedRegisters (mb_insts (blocks ! i) ! k)) \<Longrightarrow> live_at cfg blocks reg i k"
| edge: "i < length blocks \<Longrightarrow> k = length (mb_insts (blocks ! i)) \<Longrightarrow> j < length blocks \<Longrightarrow>
    mb_id (blocks ! j) \<in> set (getSuccessors cfg (mb_id (blocks ! i))) \<Longrightarrow>
    live_at cfg blocks reg j 0 \<Longrightarrow> live_at cfg blocks reg i k"

section \<open>Sets and indices\<close>

lemma set_set_insert [simp]: "set (set_insert x xs) = insert x (set xs)"
  by (auto simp: set_insert_def)

lemma distinct_set_insert [simp]: "distinct (set_insert x xs) \<longleftrightarrow> distinct xs"
  by (simp add: set_insert_def)

lemma set_fold_insert [simp]: "set (fold set_insert ys xs) = set xs \<union> set ys"
  by (induction ys arbitrary: xs) auto

lemma distinct_fold_insert [simp]: "distinct (fold set_insert ys xs) \<longleftrightarrow> distinct xs"
  by (induction ys arbitrary: xs) auto

lemma set_fold_insert_if:
  "set (fold (\<lambda>y xs. if P y then set_insert y xs else xs) ys xs) = set xs \<union> {y \<in> set ys. P y}"
  by (induction ys arbitrary: xs) auto

lemma distinct_fold_insert_if:
  "distinct xs \<Longrightarrow> distinct (fold (\<lambda>y xs. if P y then set_insert y xs else xs) ys xs)"
  by (induction ys arbitrary: xs) auto

lemma emplace_same [simp]: "emplace k v m k = Some (case m k of Some w \<Rightarrow> w | None \<Rightarrow> v)"
  by (simp add: emplace_def split: option.split)

lemma emplace_other [simp]: "k' \<noteq> k \<Longrightarrow> emplace k v m k' = m k'"
  by (simp add: emplace_def split: option.split)

lemma index_of_Some:
  "index_of xs x = Some k \<longleftrightarrow> k < length xs \<and> xs ! k = x \<and> (\<forall>j<k. xs ! j \<noteq> x)"
  by (simp add: index_of_def find_upt_Some)

lemma index_of_None: "index_of xs x = None \<longleftrightarrow> x \<notin> set xs"
  by (auto simp: index_of_def find_None_iff in_set_conv_nth)

lemma index_of_distinct: "distinct xs \<Longrightarrow> index_of xs x = Some k \<longleftrightarrow> k < length xs \<and> xs ! k = x"
  by (auto simp: index_of_Some nth_eq_iff_index_eq)


section \<open>One block of the solver\<close>

definition flow_in :: "dense_bit_set list \<Rightarrow> dense_bit_set list \<Rightarrow> dense_bit_set list \<Rightarrow> nat \<Rightarrow> nat set" where
  "flow_in uses defs outs i = dbs_elems (uses ! i) \<union> (dbs_elems (outs ! i) - dbs_elems (defs ! i))"

definition solver_shape ::
  "nat \<Rightarrow> dense_bit_set list \<Rightarrow> dense_bit_set list \<Rightarrow> nat list list \<Rightarrow> solver_state \<Rightarrow> bool" where
  "solver_shape c uses defs succs st \<longleftrightarrow>
     (\<forall>ss \<in> {uses, defs, fst st, snd st}. length ss = length succs \<and> (\<forall>s \<in> set ss. dbs_cap s = c)) \<and>
     (\<forall>js \<in> set succs. \<forall>j \<in> set js. j < length succs)"

definition solver_ok ::
  "nat \<Rightarrow> dense_bit_set list \<Rightarrow> dense_bit_set list \<Rightarrow> nat list list \<Rightarrow> solver_state \<Rightarrow> bool" where
  "solver_ok c uses defs succs st \<longleftrightarrow> solver_shape c uses defs succs st \<and>
     (\<forall>i < length succs. dbs_elems (snd st ! i) \<subseteq> flow_in uses defs (fst st) i)"

text \<open>The changes a state still allows.\<close>

definition free_bits :: "nat \<Rightarrow> dense_bit_set \<Rightarrow> nat" where
  "free_bits c s = c - card (dbs_elems s)"

definition solver_room :: "nat \<Rightarrow> solver_state \<Rightarrow> nat" where
  "solver_room c st = sum_list (map (free_bits c) (fst st)) + sum_list (map (free_bits c) (snd st))"

lemma free_bits_mono:
  assumes "dbs_cap t = c" "dbs_elems s \<subseteq> dbs_elems t"
  shows "free_bits c t \<le> free_bits c s"
  using assms card_mono [OF dbs.finite_elems assms(2)] by (simp add: free_bits_def diff_le_mono2)

lemma free_bits_less:
  assumes "dbs_cap t = c" "dbs_elems s \<subset> dbs_elems t"
  shows "free_bits c t < free_bits c s"
proof -
  have "card (dbs_elems s) < card (dbs_elems t)"
    using assms(2) dbs.finite_elems by (simp add: psubset_card_mono)
  moreover have "card (dbs_elems t) \<le> c"
    using card_mono [OF _ dbs.elems_cap, of t] assms(1) by simp
  ultimately show ?thesis by (simp add: free_bits_def)
qed

lemma sum_list_replace:
  fixes f :: "'a \<Rightarrow> nat"
  assumes "i < length xs"
  shows "sum_list (map f (xs[i := y])) + f (xs ! i) = sum_list (map f xs) + f y"
  using assms
proof (induction xs arbitrary: i)
  case (Cons x xs)
  then show ?case by (cases i) auto
qed simp

lemma union_succ_fold:
  assumes "\<And>s. s \<in> set js \<Longrightarrow> dbs_cap (ins ! s) = dbs_cap o0"
  shows "dbs_cap (fst (fold (union_succ ins) js (o0, ch))) = dbs_cap o0 \<and>
    dbs_elems (fst (fold (union_succ ins) js (o0, ch))) = dbs_elems o0 \<union> (\<Union>s \<in> set js. dbs_elems (ins ! s)) \<and>
    (snd (fold (union_succ ins) js (o0, ch)) \<longleftrightarrow> ch \<or> \<not> (\<Union>s \<in> set js. dbs_elems (ins ! s)) \<subseteq> dbs_elems o0)"
  using assms
proof (induction js arbitrary: o0 ch)
  case (Cons s js)
  let ?u = "dbs_unionWith o0 (ins ! s)"
  have cap: "dbs_cap (ins ! s) = dbs_cap o0" using Cons.prems by simp
  have u: "dbs_cap (fst ?u) = dbs_cap o0" "dbs_elems (fst ?u) = dbs_elems o0 \<union> dbs_elems (ins ! s)"
    "snd ?u \<longleftrightarrow> \<not> dbs_elems (ins ! s) \<subseteq> dbs_elems o0"
    using dbs.union_grows [OF cap] dbs.union_flag [OF cap] dbs.cap_union by auto
  have step: "fold (union_succ ins) (s # js) (o0, ch) = fold (union_succ ins) js (fst ?u, ch \<or> snd ?u)"
    by (simp add: union_succ_def split: prod.split)
  have "\<And>t. t \<in> set js \<Longrightarrow> dbs_cap (ins ! t) = dbs_cap (fst ?u)" using Cons.prems u(1) by simp
  from Cons.IH [OF this, of "ch \<or> snd ?u"] show ?case
    unfolding step u by auto
qed simp

lemma shape_nth:
  assumes "solver_shape c uses defs succs (outs, ins)" "i < length succs"
  shows "dbs_cap (uses ! i) = c" "dbs_cap (defs ! i) = c" "dbs_cap (outs ! i) = c" "dbs_cap (ins ! i) = c"
    "length uses = length succs" "length defs = length succs" "length outs = length succs" "length ins = length succs"
    "j \<in> set (succs ! i) \<Longrightarrow> j < length succs"
  using assms by (auto simp: solver_shape_def)

text \<open>What one block step writes, and when it raises the flag.\<close>

lemma solve_block_values:
  assumes sh: "solver_shape c uses defs succs (outs, ins)" and i: "i < length succs"
    and s: "solve_block uses defs succs i ((outs, ins), ch) = ((outs', ins'), ch')"
  obtains liveOut liveIn where "outs' = outs[i := liveOut]" "ins' = ins[i := liveIn]"
    "dbs_cap liveOut = c" "dbs_cap liveIn = c"
    "dbs_elems liveOut = dbs_elems (outs ! i) \<union> (\<Union>j \<in> set (succs ! i). dbs_elems (ins ! j))"
    "dbs_elems liveIn = dbs_elems (uses ! i) \<union> (dbs_elems liveOut - dbs_elems (defs ! i))"
    "ch' \<longleftrightarrow> ch \<or> dbs_elems liveOut \<noteq> dbs_elems (outs ! i) \<or> dbs_elems liveIn \<noteq> dbs_elems (ins ! i)"
proof -
  note n = shape_nth [OF sh i]
  let ?f = "fold (union_succ ins) (succs ! i) (outs ! i, ch)"
  let ?l = "dbs_computeLiveIn (ins ! i) (uses ! i) (fst ?f) (defs ! i)"
  have capj: "\<And>j. j \<in> set (succs ! i) \<Longrightarrow> dbs_cap (ins ! j) = dbs_cap (outs ! i)"
    using n(3,9) shape_nth(4) [OF sh] by simp
  note u = union_succ_fold [OF capj, where ch = ch]
  have caps: "dbs_cap (uses ! i) = dbs_cap (ins ! i)" "dbs_cap (fst ?f) = dbs_cap (ins ! i)" "dbs_cap (defs ! i) = dbs_cap (ins ! i)"
    using n(1-4) u by simp_all
  have eq: "outs' = outs[i := fst ?f]" "ins' = ins[i := fst ?l]" "ch' \<longleftrightarrow> snd ?f \<or> snd ?l"
    using s by (simp_all add: solve_block_def Let_def split: prod.splits)
  show ?thesis
  proof (rule that [OF eq(1,2)])
    show "dbs_cap (fst ?f) = c" "dbs_cap (fst ?l) = c"
      using caps n(4) dbs.cap_live_in by simp_all
    show lin: "dbs_elems (fst ?l) = dbs_elems (uses ! i) \<union> (dbs_elems (fst ?f) - dbs_elems (defs ! i))"
      by (rule dbs.elems_live_in [OF caps])
    show "dbs_elems (fst ?f) = dbs_elems (outs ! i) \<union> (\<Union>j \<in> set (succs ! i). dbs_elems (ins ! j))"
      using u by simp
    then have "snd ?f \<longleftrightarrow> ch \<or> dbs_elems (fst ?f) \<noteq> dbs_elems (outs ! i)"
      using u by blast
    then show "ch' \<longleftrightarrow> ch \<or> dbs_elems (fst ?f) \<noteq> dbs_elems (outs ! i) \<or> dbs_elems (fst ?l) \<noteq> dbs_elems (ins ! i)"
      using eq(3) dbs.live_in_flag [OF caps] lin by blast
  qed
qed

lemma flow_in_update:
  "i < length outs \<Longrightarrow> flow_in uses defs (outs[i := s]) k =
     (if k = i then dbs_elems (uses ! i) \<union> (dbs_elems s - dbs_elems (defs ! i)) else flow_in uses defs outs k)"
  by (simp add: flow_in_def)

lemma shape_update:
  assumes "solver_shape c uses defs succs (outs, ins)" "dbs_cap s = c" "dbs_cap t = c"
  shows "solver_shape c uses defs succs (outs[i := s], ins[i := t])"
proof -
  have upd: "\<forall>x \<in> set (xs[i := y]). dbs_cap x = c" if "\<forall>x \<in> set xs. dbs_cap x = c" "dbs_cap y = c" for xs y
    using that set_update_subset_insert [of xs i y] by blast
  have "\<forall>x \<in> set outs. dbs_cap x = c" "\<forall>x \<in> set ins. dbs_cap x = c"
    using assms(1) by (simp_all add: solver_shape_def)
  then show ?thesis
    using assms(1) upd [of outs s, OF _ assms(2)] upd [of ins t, OF _ assms(3)]
    unfolding solver_shape_def by simp
qed

lemma solve_block_ok:
  assumes ok: "solver_ok c uses defs succs (outs, ins)" and i: "i < length succs"
    and s: "solve_block uses defs succs i ((outs, ins), ch) = ((outs', ins'), ch')"
  shows "solver_ok c uses defs succs (outs', ins')"
proof -
  have sh: "solver_shape c uses defs succs (outs, ins)" using ok by (simp add: solver_ok_def)
  obtain liveOut liveIn where v: "outs' = outs[i := liveOut]" "ins' = ins[i := liveIn]"
    "dbs_cap liveOut = c" "dbs_cap liveIn = c"
    "dbs_elems liveIn = dbs_elems (uses ! i) \<union> (dbs_elems liveOut - dbs_elems (defs ! i))"
    by (rule solve_block_values [OF sh i s])
  have "solver_shape c uses defs succs (outs', ins')"
    unfolding v(1,2) by (rule shape_update [OF sh v(3,4)])
  moreover have "dbs_elems (ins' ! k) \<subseteq> flow_in uses defs outs' k" if "k < length succs" for k
    using ok that shape_nth(7,8) [OF sh i] i
    by (cases "k = i") (simp_all add: solver_ok_def v(1,2) flow_in_update v(5))
  ultimately show ?thesis by (simp add: solver_ok_def)
qed

lemma solve_block_room:
  assumes ok: "solver_ok c uses defs succs (outs, ins)" and i: "i < length succs"
    and s: "solve_block uses defs succs i ((outs, ins), ch) = ((outs', ins'), ch')"
  shows "solver_room c (outs', ins') \<le> solver_room c (outs, ins)"
    "ch' \<Longrightarrow> \<not> ch \<Longrightarrow> solver_room c (outs', ins') < solver_room c (outs, ins)"
proof -
  have sh: "solver_shape c uses defs succs (outs, ins)" using ok by (simp add: solver_ok_def)
  obtain lo li where v: "outs' = outs[i := lo]" "ins' = ins[i := li]" "dbs_cap lo = c" "dbs_cap li = c"
    "dbs_elems lo = dbs_elems (outs ! i) \<union> (\<Union>j \<in> set (succs ! i). dbs_elems (ins ! j))"
    "dbs_elems li = dbs_elems (uses ! i) \<union> (dbs_elems lo - dbs_elems (defs ! i))"
    "ch' \<longleftrightarrow> ch \<or> dbs_elems lo \<noteq> dbs_elems (outs ! i) \<or> dbs_elems li \<noteq> dbs_elems (ins ! i)"
    by (rule solve_block_values [OF sh i s])
  have up: "dbs_elems (outs ! i) \<subseteq> dbs_elems lo" unfolding v(5) by blast
  have "dbs_elems (ins ! i) \<subseteq> flow_in uses defs outs i" using ok i by (simp add: solver_ok_def)
  then have inu: "dbs_elems (ins ! i) \<subseteq> dbs_elems li"
    using up unfolding v(6) flow_in_def by blast
  note le = free_bits_mono [OF v(3) up] free_bits_mono [OF v(4) inu]
  have ro: "sum_list (map (free_bits c) outs') + free_bits c (outs ! i) = sum_list (map (free_bits c) outs) + free_bits c lo"
    and ri: "sum_list (map (free_bits c) ins') + free_bits c (ins ! i) = sum_list (map (free_bits c) ins) + free_bits c li"
    using sum_list_replace [of i outs "free_bits c" lo] sum_list_replace [of i ins "free_bits c" li]
      i shape_nth(7,8) [OF sh i] v(1,2) by simp_all
  show "solver_room c (outs', ins') \<le> solver_room c (outs, ins)"
    using ro ri le by (simp add: solver_room_def)
  assume "ch'" "\<not> ch"
  then consider "dbs_elems (outs ! i) \<subset> dbs_elems lo" | "dbs_elems (ins ! i) \<subset> dbs_elems li"
    using v(7) up inu by blast
  then have "free_bits c lo < free_bits c (outs ! i) \<or> free_bits c li < free_bits c (ins ! i)"
    using free_bits_less v(3,4) by cases blast+
  then show "solver_room c (outs', ins') < solver_room c (outs, ins)"
    using ro ri le by (auto simp: solver_room_def)
qed

text \<open>A block is settled when its two equations hold.\<close>

definition settled :: "dense_bit_set list \<Rightarrow> dense_bit_set list \<Rightarrow> nat list list \<Rightarrow> solver_state \<Rightarrow> nat \<Rightarrow> bool" where
  "settled uses defs succs st i \<longleftrightarrow>
     (\<forall>j \<in> set (succs ! i). dbs_elems (snd st ! j) \<subseteq> dbs_elems (fst st ! i)) \<and>
     dbs_elems (snd st ! i) = flow_in uses defs (fst st) i"

lemma solve_block_quiet:
  assumes sh: "solver_shape c uses defs succs (outs, ins)" and i: "i < length succs"
    and s: "solve_block uses defs succs i ((outs, ins), ch) = ((outs', ins'), ch')"
  shows "ch \<Longrightarrow> ch'" "\<not> ch' \<Longrightarrow> outs' = outs \<and> ins' = ins \<and> settled uses defs succs (outs, ins) i"
proof -
  obtain lo li where v: "outs' = outs[i := lo]" "ins' = ins[i := li]" "dbs_cap lo = c" "dbs_cap li = c"
    "dbs_elems lo = dbs_elems (outs ! i) \<union> (\<Union>j \<in> set (succs ! i). dbs_elems (ins ! j))"
    "dbs_elems li = dbs_elems (uses ! i) \<union> (dbs_elems lo - dbs_elems (defs ! i))"
    "ch' \<longleftrightarrow> ch \<or> dbs_elems lo \<noteq> dbs_elems (outs ! i) \<or> dbs_elems li \<noteq> dbs_elems (ins ! i)"
    by (rule solve_block_values [OF sh i s])
  show "ch \<Longrightarrow> ch'" using v(7) by blast
  assume "\<not> ch'"
  then have e: "dbs_elems lo = dbs_elems (outs ! i)" "dbs_elems li = dbs_elems (ins ! i)"
    using v(7) by blast+
  then have "lo = outs ! i" "li = ins ! i"
    using dbs.elems_inj [of lo "outs ! i"] dbs.elems_inj [of li "ins ! i"] v(3,4) shape_nth(3,4) [OF sh i] by simp_all
  moreover have "settled uses defs succs (outs, ins) i"
    using e v(5,6) by (auto simp: settled_def flow_in_def)
  ultimately show "outs' = outs \<and> ins' = ins \<and> settled uses defs succs (outs, ins) i"
    using v(1,2) by simp
qed

section \<open>Rounds, and the loop\<close>

lemma solve_blocks_correct:
  assumes "solver_ok c uses defs succs st" "\<forall>i \<in> set is. i < length succs"
    "fold (solve_block uses defs succs) is (st, ch) = (st', ch')"
  shows "solver_ok c uses defs succs st' \<and> solver_room c st' \<le> solver_room c st \<and> (ch \<longrightarrow> ch') \<and>
    (ch' \<and> \<not> ch \<longrightarrow> solver_room c st' < solver_room c st) \<and>
    (\<not> ch' \<longrightarrow> st' = st \<and> (\<forall>i \<in> set is. settled uses defs succs st i))"
  using assms
proof (induction "is" arbitrary: st ch)
  case (Cons i js)
  obtain outs ins where st: "st = (outs, ins)" by (cases st)
  obtain outs' ins' ch1 where s: "solve_block uses defs succs i ((outs, ins), ch) = ((outs', ins'), ch1)"
    by (metis surj_pair)
  have ok: "solver_ok c uses defs succs (outs, ins)" and i: "i < length succs"
    and sh: "solver_shape c uses defs succs (outs, ins)"
    using Cons.prems st by (auto simp: solver_ok_def)
  note ok1 = solve_block_ok [OF ok i s] and room = solve_block_room [OF ok i s] and quiet = solve_block_quiet [OF sh i s]
  have "fold (solve_block uses defs succs) js ((outs', ins'), ch1) = (st', ch')"
    using Cons.prems(3) by (simp add: st s)
  note IH = Cons.IH [OF ok1 _ this]
  show ?case
    using IH room quiet Cons.prems(2) unfolding st by (cases ch1) auto
qed simp

interpretation solver: settling_rounds "solve_round uses defs succs" "solver_ok c uses defs succs" "solver_room c"
  for c uses defs succs
proof (unfold_locales, goal_cases)
  case (1 s)
  then show ?case
    unfolding solve_round_def
    using solve_blocks_correct [OF 1 _ surjective_pairing, of "rev [0..<length succs]" False] by simp
next
  case (2 s)
  then show ?case
    unfolding solve_round_def
    using solve_blocks_correct [OF 2(1) _ surjective_pairing, of "rev [0..<length succs]" False] by simp
next
  case (3 s)
  then show ?case
    unfolding solve_round_def
    using solve_blocks_correct [OF 3(1) _ surjective_pairing, of "rev [0..<length succs]" False] by simp
qed

lemma quiet_round_settled:
  assumes "solver_ok c uses defs succs st" "solve_round uses defs succs st = (st, False)" "i < length succs"
  shows "settled uses defs succs st i"
  using solve_blocks_correct [OF assms(1) _ assms(2) [unfolded solve_round_def]] assms(3) by simp


text \<open>Sets that satisfy the dataflow equations from above. A state below them stays below them.\<close>

definition flow_above ::
  "dense_bit_set list \<Rightarrow> dense_bit_set list \<Rightarrow> nat list list \<Rightarrow> (nat \<Rightarrow> nat set) \<Rightarrow> (nat \<Rightarrow> nat set) \<Rightarrow> bool" where
  "flow_above uses defs succs X Y \<longleftrightarrow>
     (\<forall>i < length succs. (\<Union>j \<in> set (succs ! i). Y j) \<subseteq> X i \<and> dbs_elems (uses ! i) \<union> (X i - dbs_elems (defs ! i)) \<subseteq> Y i)"

definition below_sets :: "nat \<Rightarrow> (nat \<Rightarrow> nat set) \<Rightarrow> (nat \<Rightarrow> nat set) \<Rightarrow> solver_state \<Rightarrow> bool" where
  "below_sets n X Y st \<longleftrightarrow> (\<forall>i < n. dbs_elems (snd st ! i) \<subseteq> Y i \<and> dbs_elems (fst st ! i) \<subseteq> X i)"

lemma below_sets_block:
  assumes above: "flow_above uses defs succs X Y"
    and ok: "solver_ok c uses defs succs (outs, ins)" and below: "below_sets (length succs) X Y (outs, ins)"
    and i: "i < length succs" and s: "solve_block uses defs succs i ((outs, ins), ch) = ((outs', ins'), ch')"
  shows "below_sets (length succs) X Y (outs', ins')"
proof -
  have sh: "solver_shape c uses defs succs (outs, ins)" using ok by (simp add: solver_ok_def)
  obtain lo li where v: "outs' = outs[i := lo]" "ins' = ins[i := li]"
    "dbs_elems lo = dbs_elems (outs ! i) \<union> (\<Union>j \<in> set (succs ! i). dbs_elems (ins ! j))"
    "dbs_elems li = dbs_elems (uses ! i) \<union> (dbs_elems lo - dbs_elems (defs ! i))"
    by (rule solve_block_values [OF sh i s])
  have old: "dbs_elems (ins ! j) \<subseteq> Y j" "dbs_elems (outs ! j) \<subseteq> X j" if "j < length succs" for j
    using below that by (simp_all add: below_sets_def)
  have "dbs_elems (ins ! j) \<subseteq> X i" if "j \<in> set (succs ! i)" for j
    using old(1) [of j] above i that shape_nth(9) [OF sh i that] unfolding flow_above_def by blast
  then have lo: "dbs_elems lo \<subseteq> X i" using old(2) [OF i] unfolding v(3) by blast
  then have li: "dbs_elems li \<subseteq> Y i" using above i unfolding v(4) flow_above_def by blast
  have "dbs_elems (ins' ! j) \<subseteq> Y j \<and> dbs_elems (outs' ! j) \<subseteq> X j" if "j < length succs" for j
    using old [OF that] lo li shape_nth(7,8) [OF sh i] i by (cases "j = i") (simp_all add: v(1,2))
  then show ?thesis by (simp add: below_sets_def)
qed

lemma below_sets_round:
  assumes above: "flow_above uses defs succs X Y"
    and "solver_ok c uses defs succs st" "below_sets (length succs) X Y st"
  shows "below_sets (length succs) X Y (fst (solve_round uses defs succs st))"
proof -
  have "\<forall>i \<in> set js. i < length succs \<Longrightarrow> solver_ok c uses defs succs st \<Longrightarrow> below_sets (length succs) X Y st \<Longrightarrow>
      below_sets (length succs) X Y (fst (fold (solve_block uses defs succs) js (st, ch)))" for js st ch
  proof (induction js arbitrary: st ch)
    case (Cons i js)
    obtain outs ins where st: "st = (outs, ins)" by (cases st)
    obtain outs' ins' ch1 where s: "solve_block uses defs succs i ((outs, ins), ch) = ((outs', ins'), ch1)"
      by (metis surj_pair)
    have i: "i < length succs" using Cons.prems(1) by simp
    note ok1 = solve_block_ok [OF Cons.prems(2) [unfolded st] i s]
    note b1 = below_sets_block [OF above Cons.prems(2,3) [unfolded st] i s]
    show ?case using Cons.IH [OF _ ok1 b1] Cons.prems(1) by (simp add: st s)
  qed simp
  then show ?thesis using assms by (simp add: solve_round_def)
qed

text \<open>From the empty sets the loop reaches the least sets above, which solve the equations exactly.\<close>

lemma solver_least:
  assumes ok: "solver_ok c uses defs succs (outs0, ins0)"
    and empty: "\<forall>i < length succs. dbs_elems (outs0 ! i) = {} \<and> dbs_elems (ins0 ! i) = {}"
  shows "\<exists>outs ins k. while_changed (solve_round uses defs succs) (outs0, ins0) = Some (outs, ins) \<and>
    k \<le> solver_room c (outs0, ins0) \<and> (outs, ins) = ((\<lambda>st. fst (solve_round uses defs succs st)) ^^ k) (outs0, ins0) \<and>
    \<not> snd (solve_round uses defs succs (outs, ins)) \<and>
    (\<forall>i < length succs. dbs_elems (outs ! i) = (\<Union>j \<in> set (succs ! i). dbs_elems (ins ! j)) \<and>
       dbs_elems (ins ! i) = dbs_elems (uses ! i) \<union> (dbs_elems (outs ! i) - dbs_elems (defs ! i))) \<and>
    (\<forall>X Y. flow_above uses defs succs X Y \<longrightarrow> below_sets (length succs) X Y (outs, ins))"
proof -
  from solver.loop_rounds [OF ok] obtain k where k: "k \<le> solver_room c (outs0, ins0)"
    "while_changed (solve_round uses defs succs) (outs0, ins0) =
       Some (((\<lambda>u. fst (solve_round uses defs succs u)) ^^ k) (outs0, ins0))"
    "\<not> snd (solve_round uses defs succs (((\<lambda>u. fst (solve_round uses defs succs u)) ^^ k) (outs0, ins0)))" by blast
  obtain outs ins where r: "((\<lambda>u. fst (solve_round uses defs succs u)) ^^ k) (outs0, ins0) = (outs, ins)" by (metis surj_pair)
  have w: "while_changed (solve_round uses defs succs) (outs0, ins0) = Some (outs, ins)" using k(2) by (simp only: r)
  have least: "below_sets (length succs) X Y (outs, ins)" if a: "flow_above uses defs succs X Y" for X Y
  proof -
    have "below_sets (length succs) X Y (outs0, ins0)" using empty by (simp add: below_sets_def)
    then show ?thesis
      using solver.loop_settles [OF ok, of "below_sets (length succs) X Y"] below_sets_round [OF a] w by fastforce
  qed
  have q: "solver_ok c uses defs succs (outs, ins)" "solve_round uses defs succs (outs, ins) = ((outs, ins), False)"
    using solver.loop_settles [OF ok, of "\<lambda>_. True"] w by auto
  have set: "(\<forall>j \<in> set (succs ! i). dbs_elems (ins ! j) \<subseteq> dbs_elems (outs ! i)) \<and>
      dbs_elems (ins ! i) = dbs_elems (uses ! i) \<union> (dbs_elems (outs ! i) - dbs_elems (defs ! i))" if "i < length succs" for i
    using quiet_round_settled [OF q that] by (simp add: settled_def flow_in_def)
  have "flow_above uses defs succs (\<lambda>i. \<Union>j \<in> set (succs ! i). dbs_elems (ins ! j)) (\<lambda>i. dbs_elems (ins ! i))"
    using set unfolding flow_above_def by blast
  from least [OF this] set have "\<forall>i < length succs. dbs_elems (outs ! i) = (\<Union>j \<in> set (succs ! i). dbs_elems (ins ! j)) \<and>
       dbs_elems (ins ! i) = dbs_elems (uses ! i) \<union> (dbs_elems (outs ! i) - dbs_elems (defs ! i))"
    unfolding below_sets_def by fastforce
  then show ?thesis
    using w k(1,3) least unfolding r by (intro exI [of _ outs] exI [of _ ins] exI [of _ k]) (simp add: r)
qed

section \<open>Blocks seen from outside\<close>

definition block_defs :: "mir_inst list \<Rightarrow> reg_ref set" where
  "block_defs insts = (\<Union>i \<in> set insts. set (getDefinedRegisters i))"

definition upward_exposed :: "mir_inst list \<Rightarrow> reg_ref set" where
  "upward_exposed insts =
     {reg. \<exists>k < length insts. reg \<in> set (getUsedRegisters (insts ! k)) \<and>
        (\<forall>j<k. reg \<notin> set (getDefinedRegisters (insts ! j)))}"

lemma block_defs_simps [simp]:
  "block_defs [] = {}" "block_defs (i # insts) = set (getDefinedRegisters i) \<union> block_defs insts"
  by (simp_all add: block_defs_def)

lemma upward_exposed_Nil [simp]: "upward_exposed [] = {}"
  by (simp add: upward_exposed_def)

lemma upward_exposed_Cons [simp]:
  "upward_exposed (i # insts) =
     set (getUsedRegisters i) \<union> (upward_exposed insts - set (getDefinedRegisters i))"
  unfolding upward_exposed_def length_Cons Ex_less_Suc2 nth_Cons_0 nth_Cons_Suc All_less_Suc2 by auto

lemma def_use_fold:
  "set (fst (fold def_use_inst insts (D, U))) = set D \<union> block_defs insts \<and>
   set (snd (fold def_use_inst insts (D, U))) = set U \<union> (upward_exposed insts - set D)"
proof (induction insts arbitrary: D U)
  case (Cons i insts)
  have "def_use_inst i (D, U) = (fold set_insert (getDefinedRegisters i) D,
      fold (\<lambda>reg u. if reg \<notin> set D then set_insert reg u else u) (getUsedRegisters i) U)"
    by (simp add: def_use_inst_def)
  then show ?case
    using Cons.IH by (auto simp: set_fold_insert_if [where P = "\<lambda>y. y \<notin> set D"])
qed simp

text \<open>Liveness inside a block, from any position to its end.\<close>

lemma live_at_inside:
  assumes "i < length blocks" "k < length (mb_insts (blocks ! i))"
  shows "live_at cfg blocks reg i k \<longleftrightarrow>
    reg \<in> set (getUsedRegisters (mb_insts (blocks ! i) ! k)) \<or>
    reg \<notin> set (getDefinedRegisters (mb_insts (blocks ! i) ! k)) \<and> live_at cfg blocks reg i (Suc k)"
proof
  assume "live_at cfg blocks reg i k"
  then show "reg \<in> set (getUsedRegisters (mb_insts (blocks ! i) ! k)) \<or>
    reg \<notin> set (getDefinedRegisters (mb_insts (blocks ! i) ! k)) \<and> live_at cfg blocks reg i (Suc k)"
    using assms(2) by cases simp_all
qed (use assms in \<open>auto intro: live_at.used live_at.through\<close>)

lemma live_at_end:
  assumes "i < length blocks"
  shows "live_at cfg blocks reg i (length (mb_insts (blocks ! i))) \<longleftrightarrow>
    (\<exists>j < length blocks. mb_id (blocks ! j) \<in> set (getSuccessors cfg (mb_id (blocks ! i))) \<and>
       live_at cfg blocks reg j 0)"
proof
  assume "live_at cfg blocks reg i (length (mb_insts (blocks ! i)))"
  then show "\<exists>j < length blocks. mb_id (blocks ! j) \<in> set (getSuccessors cfg (mb_id (blocks ! i))) \<and>
       live_at cfg blocks reg j 0"
    by cases auto
qed (use assms in \<open>auto intro: live_at.edge\<close>)

lemma live_at_block:
  assumes i: "i < length blocks" and k: "k \<le> length (mb_insts (blocks ! i))"
  shows "live_at cfg blocks reg i k \<longleftrightarrow>
    reg \<in> upward_exposed (drop k (mb_insts (blocks ! i))) \<or>
    reg \<notin> block_defs (drop k (mb_insts (blocks ! i))) \<and>
    live_at cfg blocks reg i (length (mb_insts (blocks ! i)))"
  using k
proof (induction "length (mb_insts (blocks ! i)) - k" arbitrary: k)
  case (Suc n)
  then have k: "k < length (mb_insts (blocks ! i))" by simp
  with Suc.hyps(1) [of "Suc k"] Suc.hyps(2) show ?case
    unfolding live_at_inside [OF i k] Cons_nth_drop_Suc [OF k, symmetric] by auto
qed simp

lemmas live_at_start = live_at_block [where k = 0, simplified]

text \<open>A live register is read somewhere before it is written, so it is in the universe.\<close>

lemma live_at_exposed:
  "live_at cfg blocks reg i k \<Longrightarrow> i < length blocks \<and>
     ((\<exists>j < length blocks. reg \<in> upward_exposed (mb_insts (blocks ! j))) \<or>
      reg \<in> upward_exposed (drop k (mb_insts (blocks ! i))))"
proof (induction rule: live_at.induct)
  case (used i k)
  then show ?case by (simp add: Cons_nth_drop_Suc [symmetric])
next
  case (through i k)
  then show ?case by (auto simp: Cons_nth_drop_Suc [OF through(2), symmetric])
next
  case (edge i k j)
  then show ?case by auto
qed

lemma live_at_in_range: "live_at cfg blocks reg i k \<Longrightarrow> i < length blocks \<and> k \<le> length (mb_insts (blocks ! i))"
  by (induction rule: live_at.induct) auto

section \<open>The bit sets represent the blocks\<close>

lemma to_bits_elems:
  assumes "distinct globals"
  shows "dbs_elems (to_bits globals regs) = {k. k < length globals \<and> globals ! k \<in> set regs} \<and>
    dbs_cap (to_bits globals regs) = dbs_cap (dbs_new (length globals))"
proof -
  let ?add = "\<lambda>reg s. case index_of globals reg of Some k \<Rightarrow> dbs_set s k | None \<Rightarrow> s"
  have cap: "length globals \<le> dbs_cap (dbs_new (length globals))" by (rule dbs.cap_new)
  have "dbs_cap s = dbs_cap (dbs_new (length globals)) \<Longrightarrow>
      dbs_elems (fold ?add regs s) = dbs_elems s \<union> {k. k < length globals \<and> globals ! k \<in> set regs} \<and>
      dbs_cap (fold ?add regs s) = dbs_cap (dbs_new (length globals))" for s
  proof (induction regs arbitrary: s)
    case (Cons reg regs)
    have "dbs_cap (?add reg s) = dbs_cap (dbs_new (length globals))"
      using Cons.prems by (simp add: dbs.cap_set split: option.split)
    moreover have "dbs_elems (?add reg s) = dbs_elems s \<union> {k. k < length globals \<and> globals ! k = reg}"
    proof (cases "index_of globals reg")
      case None
      then have "reg \<notin> set globals" by (simp add: index_of_None)
      then show ?thesis using None by auto
    next
      case (Some k)
      then have "{k. k < length globals \<and> globals ! k = reg} = {k}" "k < length globals"
        using assms by (auto simp: index_of_distinct nth_eq_iff_index_eq)
      then show ?thesis using Some Cons.prems cap by (simp add: dbs.elems_set)
    qed
    ultimately show ?case using Cons.IH [of "?add reg s"] by auto
  qed simp
  then show ?thesis by (simp add: to_bits_def dbs.elems_new)
qed

lemma dense_successors_nth:
  assumes "distinct (map mb_id blocks)" "i < length blocks"
  shows "j \<in> set (dense_successors cfg blocks ! i) \<longleftrightarrow>
    j < length blocks \<and> mb_id (blocks ! j) \<in> set (getSuccessors cfg (mb_id (blocks ! i)))"
proof -
  have idx: "index_of (map mb_id blocks) x = Some j \<longleftrightarrow> j < length blocks \<and> x = mb_id (blocks ! j)" for x
    using index_of_distinct [OF assms(1), of x j] by auto
  have "j \<in> set (List.map_filter f xs) \<longleftrightarrow> (\<exists>x \<in> set xs. f x = Some j)" for f :: "mir_id \<Rightarrow> nat option" and xs
    by (induction xs) (auto split: option.split)
  then show ?thesis using assms(2) idx by (auto simp: dense_successors_def)
qed

lemma materialize_set_correct:
  assumes "\<And>k. k \<in> dbs_elems bits \<Longrightarrow> k < length globals"
  shows "set (materialize_set globals bits []) = (\<lambda>k. globals ! k) ` dbs_elems bits"
proof -
  have "set (fold (\<lambda>k xs. if dbs_test bits k then set_insert (globals ! k) xs else xs) ks xs) =
      set xs \<union> (\<lambda>k. globals ! k) ` {k \<in> set ks. dbs_test bits k}" for ks xs
    by (induction ks arbitrary: xs) auto
  then show ?thesis using assms by (auto simp: materialize_set_def dbs.test_elems)
qed

section \<open>The solver computes liveness\<close>

text \<open>The hypotheses of the solver's client: the bit sets represent the blocks.\<close>

definition represents ::
  "code_flow_result \<Rightarrow> mir_block list \<Rightarrow> reg_ref list \<Rightarrow> dense_bit_set list \<Rightarrow> dense_bit_set list \<Rightarrow> nat list list \<Rightarrow> bool" where
  "represents cfg blocks globals uses defs succs \<longleftrightarrow>
     length succs = length blocks \<and>
     (\<forall>i < length blocks.
        dbs_elems (uses ! i) = {k. k < length globals \<and> globals ! k \<in> upward_exposed (mb_insts (blocks ! i))} \<and>
        dbs_elems (defs ! i) = {k. k < length globals \<and> globals ! k \<in> block_defs (mb_insts (blocks ! i))} \<and>
        (\<forall>j. j \<in> set (succs ! i) \<longleftrightarrow>
           j < length blocks \<and> mb_id (blocks ! j) \<in> set (getSuccessors cfg (mb_id (blocks ! i)))))"

definition live_bits :: "code_flow_result \<Rightarrow> mir_block list \<Rightarrow> reg_ref list \<Rightarrow> nat \<Rightarrow> nat \<Rightarrow> nat set" where
  "live_bits cfg blocks globals i k = {b. b < length globals \<and> live_at cfg blocks (globals ! b) i k}"

definition below_live :: "code_flow_result \<Rightarrow> mir_block list \<Rightarrow> reg_ref list \<Rightarrow> solver_state \<Rightarrow> bool" where
  "below_live cfg blocks globals st \<longleftrightarrow>
     (\<forall>i < length blocks. dbs_elems (snd st ! i) \<subseteq> live_bits cfg blocks globals i 0 \<and>
        dbs_elems (fst st ! i) \<subseteq> live_bits cfg blocks globals i (length (mb_insts (blocks ! i))))"

lemma representsD:
  assumes "represents cfg blocks globals uses defs succs"
  shows "length succs = length blocks"
    "i < length blocks \<Longrightarrow> dbs_elems (uses ! i) = {k. k < length globals \<and> globals ! k \<in> upward_exposed (mb_insts (blocks ! i))}"
    "i < length blocks \<Longrightarrow> dbs_elems (defs ! i) = {k. k < length globals \<and> globals ! k \<in> block_defs (mb_insts (blocks ! i))}"
    "i < length blocks \<Longrightarrow> j \<in> set (succs ! i) \<longleftrightarrow>
      j < length blocks \<and> mb_id (blocks ! j) \<in> set (getSuccessors cfg (mb_id (blocks ! i)))"
  using assms unfolding represents_def by blast+

text \<open>The two dataflow equations, for the specification.\<close>

lemma live_bits_end:
  assumes "represents cfg blocks globals uses defs succs" "i < length blocks" "j \<in> set (succs ! i)"
  shows "live_bits cfg blocks globals j 0 \<subseteq> live_bits cfg blocks globals i (length (mb_insts (blocks ! i)))"
  using representsD(4) [OF assms(1,2), of j] assms(2,3) unfolding live_bits_def live_at_end [OF assms(2)] by blast

lemma live_bits_start:
  assumes "represents cfg blocks globals uses defs succs" "i < length blocks"
  shows "live_bits cfg blocks globals i 0 =
    dbs_elems (uses ! i) \<union> (live_bits cfg blocks globals i (length (mb_insts (blocks ! i))) - dbs_elems (defs ! i))"
  unfolding live_bits_def live_at_start [OF assms(2)] representsD(2,3) [OF assms] by blast

lemma live_bits_above:
  assumes rep: "represents cfg blocks globals uses defs succs"
  shows "flow_above uses defs succs (\<lambda>i. live_bits cfg blocks globals i (length (mb_insts (blocks ! i))))
    (\<lambda>i. live_bits cfg blocks globals i 0)"
  unfolding flow_above_def using live_bits_end [OF rep] live_bits_start [OF rep] representsD(1) [OF rep] by fastforce

lemma below_live_sets:
  "represents cfg blocks globals uses defs succs \<Longrightarrow> below_live cfg blocks globals st \<longleftrightarrow>
     below_sets (length succs) (\<lambda>i. live_bits cfg blocks globals i (length (mb_insts (blocks ! i)))) (\<lambda>i. live_bits cfg blocks globals i 0) st"
  using representsD(1) by (simp add: below_live_def below_sets_def)

lemma below_live_round:
  assumes rep: "represents cfg blocks globals uses defs succs"
    and "solver_ok c uses defs succs st" "below_live cfg blocks globals st"
  shows "below_live cfg blocks globals (fst (solve_round uses defs succs st))"
  using below_sets_round [OF live_bits_above [OF rep] assms(2)] assms(3) unfolding below_live_sets [OF rep] .

lemma settled_above_live:
  assumes rep: "represents cfg blocks globals uses defs succs"
    and set: "\<And>i. i < length succs \<Longrightarrow> settled uses defs succs (outs, ins) i"
    and b: "b < length globals"
  shows "live_at cfg blocks (globals ! b) i k \<Longrightarrow> i < length blocks \<and>
    (globals ! b \<in> upward_exposed (drop k (mb_insts (blocks ! i))) \<or>
     globals ! b \<notin> block_defs (drop k (mb_insts (blocks ! i))) \<and> b \<in> dbs_elems (outs ! i))"
proof (induction rule: live_at.induct)
  case (used i k)
  then show ?case by (simp add: Cons_nth_drop_Suc [symmetric])
next
  case (through i k)
  then show ?case by (auto simp: Cons_nth_drop_Suc [OF through(2), symmetric])
next
  case (edge i k j)
  have "b \<in> dbs_elems (ins ! j)"
    using edge.IH edge.hyps(3) rep b set [of j] by (auto simp: represents_def settled_def flow_in_def)
  moreover have "j \<in> set (succs ! i)" using edge.hyps rep by (simp add: represents_def)
  ultimately have "b \<in> dbs_elems (outs ! i)"
    using edge.hyps(1) rep set [of i] by (auto simp: represents_def settled_def)
  then show ?case using edge.hyps(1,2) by simp
qed

lemma solver_exact:
  assumes rep: "represents cfg blocks globals uses defs succs"
    and ok: "solver_ok c uses defs succs st" and below: "below_live cfg blocks globals st"
  shows "\<exists>outs ins. while_changed (solve_round uses defs succs) st = Some (outs, ins) \<and>
    (\<forall>i < length blocks. dbs_elems (ins ! i) = live_bits cfg blocks globals i 0 \<and>
       dbs_elems (outs ! i) = live_bits cfg blocks globals i (length (mb_insts (blocks ! i))))"
proof -
  obtain outs ins where w: "while_changed (solve_round uses defs succs) st = Some (outs, ins)"
    and ok': "solver_ok c uses defs succs (outs, ins)" and b: "below_live cfg blocks globals (outs, ins)"
    and q: "solve_round uses defs succs (outs, ins) = ((outs, ins), False)"
    using solver.loop_settles [OF ok, of "below_live cfg blocks globals"] below below_live_round [OF rep] by fast
  note set = quiet_round_settled [OF ok' q]
  have out: "live_bits cfg blocks globals i (length (mb_insts (blocks ! i))) \<subseteq> dbs_elems (outs ! i)" for i
    using settled_above_live [OF rep set] by (fastforce simp: live_bits_def)
  have "live_bits cfg blocks globals i 0 \<subseteq> dbs_elems (ins ! i)" if "i < length blocks" for i
    using settled_above_live [OF rep set, of _ i 0] that rep set [of i]
    by (fastforce simp: live_bits_def represents_def settled_def flow_in_def)
  then show ?thesis using w b out unfolding below_live_def by fastforce
qed


section \<open>The maps of the result\<close>

lemma init_blocks:
  "m_def (fold init_block blocks r) b = (if b \<in> mb_id ` set blocks then emplace b [] (m_def r) b else m_def r b)"
  "m_use (fold init_block blocks r) b = (if b \<in> mb_id ` set blocks then emplace b [] (m_use r) b else m_use r b)"
  "m_liveIn (fold init_block blocks r) b = (if b \<in> mb_id ` set blocks then emplace b [] (m_liveIn r) b else m_liveIn r b)"
  "m_liveOut (fold init_block blocks r) b = (if b \<in> mb_id ` set blocks then emplace b [] (m_liveOut r) b else m_liveOut r b)"
  by (induction blocks arbitrary: r) (auto simp: init_block_def emplace_def split: option.splits)

lemma def_use_blocks_live:
  "m_liveIn (fold def_use_block blocks r) = m_liveIn r" "m_liveOut (fold def_use_block blocks r) = m_liveOut r"
  by (induction blocks arbitrary: r) (simp_all add: def_use_block_def Let_def split: prod.split)

lemma def_use_block_maps:
  "m_def (def_use_block b r) x = (if x = mb_id b
     then Some (fst (fold def_use_inst (mb_insts b) (the (m_def r x), the (m_use r x)))) else m_def r x)"
  "m_use (def_use_block b r) x = (if x = mb_id b
     then Some (snd (fold def_use_inst (mb_insts b) (the (m_def r x), the (m_use r x)))) else m_use r x)"
  by (simp_all add: def_use_block_def Let_def split: prod.split)

lemma def_use_blocks_other:
  "x \<notin> mb_id ` set blocks \<Longrightarrow> m_def (fold def_use_block blocks r) x = m_def r x \<and> m_use (fold def_use_block blocks r) x = m_use r x"
  by (induction blocks arbitrary: r) (simp_all add: def_use_block_maps)

lemma def_use_blocks:
  assumes "distinct (map mb_id blocks)" "b \<in> set blocks" "m_def r (mb_id b) = Some []" "m_use r (mb_id b) = Some []"
  shows "m_def (fold def_use_block blocks r) (mb_id b) = Some (fst (fold def_use_inst (mb_insts b) ([], []))) \<and>
    m_use (fold def_use_block blocks r) (mb_id b) = Some (snd (fold def_use_inst (mb_insts b) ([], [])))"
  using assms
proof (induction blocks arbitrary: r)
  case (Cons c cs)
  show ?case
  proof (cases "b = c")
    case True
    then show ?thesis
      using Cons.prems def_use_blocks_other [of "mb_id b" cs "def_use_block c r"] by (simp add: def_use_block_maps)
  next
    case False
    then have "b \<in> set cs" using Cons.prems(2) by simp
    moreover from this have "mb_id b \<noteq> mb_id c" using Cons.prems(1) by (metis distinct.simps(2) image_eqI list.simps(9) set_map)
    ultimately show ?thesis using Cons by (simp add: def_use_block_maps)
  qed
qed simp

lemma materialize_block_maps:
  "m_def (materialize_block globals st blocks i r) = m_def r"
  "m_use (materialize_block globals st blocks i r) = m_use r"
  "m_liveIn (materialize_block globals st blocks i r) x =
     (if x = mb_id (blocks ! i) then Some (materialize_set globals (snd st ! i) (the (m_liveIn r x))) else m_liveIn r x)"
  "m_liveOut (materialize_block globals st blocks i r) x =
     (if x = mb_id (blocks ! i) then Some (materialize_set globals (fst st ! i) (the (m_liveOut r x))) else m_liveOut r x)"
  by (simp_all add: materialize_block_def Let_def)

lemma materialize_blocks_other:
  assumes "\<And>i. i < n \<Longrightarrow> x \<noteq> mb_id (blocks ! i)"
  shows "m_liveIn (fold (materialize_block globals st blocks) [0..<n] r) x = m_liveIn r x \<and>
    m_liveOut (fold (materialize_block globals st blocks) [0..<n] r) x = m_liveOut r x"
  using assms by (induction n) (simp_all add: materialize_block_maps)

lemma materialize_blocks_def_use:
  "m_def (fold (materialize_block globals st blocks) [0..<n] r) = m_def r \<and>
   m_use (fold (materialize_block globals st blocks) [0..<n] r) = m_use r"
  by (induction n) (simp_all add: materialize_block_maps)

lemma materialize_blocks:
  assumes "distinct (map mb_id blocks)" "n \<le> length blocks" "i < n"
  shows "m_liveIn (fold (materialize_block globals st blocks) [0..<n] r) (mb_id (blocks ! i)) =
         Some (materialize_set globals (snd st ! i) (the (m_liveIn r (mb_id (blocks ! i))))) \<and>
       m_liveOut (fold (materialize_block globals st blocks) [0..<n] r) (mb_id (blocks ! i)) =
         Some (materialize_set globals (fst st ! i) (the (m_liveOut r (mb_id (blocks ! i)))))"
  using assms(2,3)
proof (induction n)
  case (Suc n)
  have ne: "mb_id (blocks ! j) = mb_id (blocks ! n) \<longleftrightarrow> j = n" if "j \<le> n" for j
    using that Suc.prems assms(1) nth_eq_iff_index_eq [of "map mb_id blocks" n j] by auto
  show ?case
  proof (cases "i = n")
    case True
    have "\<And>j. j < n \<Longrightarrow> mb_id (blocks ! n) \<noteq> mb_id (blocks ! j)" using ne by (metis less_imp_le less_irrefl)
    from materialize_blocks_other [OF this, of n] show ?thesis
      by (simp add: True materialize_block_maps)
  next
    case False
    then show ?thesis using Suc ne [of i] by (simp add: materialize_block_maps)
  qed
qed simp

lemma use_universe_set:
  "set (use_universe blocks r) = (\<Union>b \<in> set blocks. set (the (m_use r (mb_id b)))) \<and> distinct (use_universe blocks r)"
proof -
  have "set (fold (\<lambda>b. fold set_insert (the (m_use r (mb_id b)))) bs u) =
      set u \<union> (\<Union>b \<in> set bs. set (the (m_use r (mb_id b)))) \<and>
    (distinct u \<longrightarrow> distinct (fold (\<lambda>b. fold set_insert (the (m_use r (mb_id b)))) bs u))" for bs u
    by (induction bs arbitrary: u) auto
  from this [of blocks "[]"] show ?thesis by (simp add: use_universe_def)
qed

lemma register_universe_set:
  "(\<Union>b \<in> set blocks. set (the (m_use r (mb_id b)))) \<subseteq> set (register_universe regInfo blocks r) \<and>
   distinct (register_universe regInfo blocks r)"
proof -
  have "set u \<subseteq> set (def_universe g bs r u) \<and> (distinct u \<longrightarrow> distinct (def_universe g bs r u))" for g bs u
  proof (induction bs arbitrary: u)
    case (Cons b bs)
    let ?u = "fold (\<lambda>reg u. if \<not> isVirtual reg \<or> used_outside g (mb_id b) reg then set_insert reg u else u)
                 (the (m_def r (mb_id b))) u"
    have "set u \<subseteq> set ?u" "distinct u \<Longrightarrow> distinct ?u"
      by (simp_all add: set_fold_insert_if distinct_fold_insert_if)
    then show ?case using Cons.IH [of ?u] by (auto simp: def_universe_def)
  qed (simp add: def_universe_def)
  from this [of "use_universe blocks r" _ blocks] show ?thesis
    using use_universe_set [of blocks r] unfolding register_universe_def by (cases regInfo) auto
qed


section \<open>Properties\<close>

text \<open>A block identifier the result does not hold yet (block numbers are unique in the module).\<close>

definition fresh_in :: "liveness_result \<Rightarrow> mir_id \<Rightarrow> bool" where
  "fresh_in r b \<longleftrightarrow> m_def r b = None \<and> m_use r b = None \<and> m_liveIn r b = None \<and> m_liveOut r b = None"

lemma solver_ok_zero:
  assumes "length uses = length succs" "length defs = length succs"
    "\<forall>s \<in> set uses \<union> set defs. dbs_cap s = dbs_cap (dbs_new n)"
    "\<forall>js \<in> set succs. \<forall>j \<in> set js. j < length succs"
  shows "solver_ok (dbs_cap (dbs_new n)) uses defs succs
     (replicate (length succs) (dbs_new n), replicate (length succs) (dbs_new n))"
  using assms by (auto simp: solver_ok_def solver_shape_def dbs.elems_new)

text \<open>The solver on the bit sets of a function.\<close>

lemma solver_on_blocks:
  assumes d: "distinct (map mb_id blocks)" and g: "distinct globals"
    and D: "\<And>b. b \<in> set blocks \<Longrightarrow> set (defsOf b) = block_defs (mb_insts b)"
    and U: "\<And>b. b \<in> set blocks \<Longrightarrow> set (usesOf b) = upward_exposed (mb_insts b)"
  shows "\<exists>outs ins. while_changed (solve_round (map (\<lambda>b. to_bits globals (usesOf b)) blocks)
        (map (\<lambda>b. to_bits globals (defsOf b)) blocks) (dense_successors cfg blocks))
      (replicate (length blocks) (dbs_new (length globals)), replicate (length blocks) (dbs_new (length globals))) =
        Some (outs, ins) \<and>
    (\<forall>i < length blocks. dbs_elems (ins ! i) = live_bits cfg blocks globals i 0 \<and>
       dbs_elems (outs ! i) = live_bits cfg blocks globals i (length (mb_insts (blocks ! i))))"
proof -
  let ?succs = "dense_successors cfg blocks"
  have len: "length ?succs = length blocks" by (simp add: dense_successors_def)
  have rep: "represents cfg blocks globals (map (\<lambda>b. to_bits globals (usesOf b)) blocks)
      (map (\<lambda>b. to_bits globals (defsOf b)) blocks) ?succs"
    using D U to_bits_elems [OF g] dense_successors_nth [OF d] by (simp add: represents_def len)
  have range: "\<forall>js \<in> set ?succs. \<forall>j \<in> set js. j < length ?succs"
  proof (intro ballI)
    fix js j assume "js \<in> set ?succs" "j \<in> set js"
    then obtain i where "i < length blocks" "j \<in> set (?succs ! i)" by (metis in_set_conv_nth len)
    then show "j < length ?succs" using dense_successors_nth [OF d] len by simp
  qed
  show ?thesis
  proof (rule solver_exact [OF rep])
    show "solver_ok (dbs_cap (dbs_new (length globals))) (map (\<lambda>b. to_bits globals (usesOf b)) blocks)
        (map (\<lambda>b. to_bits globals (defsOf b)) blocks) ?succs
        (replicate (length blocks) (dbs_new (length globals)), replicate (length blocks) (dbs_new (length globals)))"
      unfolding len [symmetric]
      by (rule solver_ok_zero [OF _ _ _ range]) (use to_bits_elems [OF g] len in auto)
  qed (simp add: below_live_def dbs.elems_new)
qed

definition local_defs :: "mir_block \<Rightarrow> reg_ref list" where
  "local_defs b = fst (fold def_use_inst (mb_insts b) ([], []))"

definition local_uses :: "mir_block \<Rightarrow> reg_ref list" where
  "local_uses b = snd (fold def_use_inst (mb_insts b) ([], []))"

lemma local_sets [simp]:
  "set (local_defs b) = block_defs (mb_insts b)" "set (local_uses b) = upward_exposed (mb_insts b)"
  using def_use_fold [of "mb_insts b" "[]" "[]"] by (simp_all add: local_defs_def local_uses_def)

text \<open>The result after the block-local phases.\<close>

definition after_local :: "mir_block list \<Rightarrow> liveness_result \<Rightarrow> liveness_result" where
  "after_local blocks r = fold def_use_block blocks (fold init_block blocks r)"

lemma after_local_maps:
  assumes "distinct (map mb_id blocks)" "\<forall>b \<in> set blocks. fresh_in r (mb_id b)"
  shows "b \<in> set blocks \<Longrightarrow> m_def (after_local blocks r) (mb_id b) = Some (local_defs b) \<and>
      m_use (after_local blocks r) (mb_id b) = Some (local_uses b) \<and>
      m_liveIn (after_local blocks r) (mb_id b) = Some [] \<and> m_liveOut (after_local blocks r) (mb_id b) = Some []"
    "x \<notin> mb_id ` set blocks \<Longrightarrow> m_liveIn (after_local blocks r) x = m_liveIn r x \<and> m_liveOut (after_local blocks r) x = m_liveOut r x"
proof -
  assume b: "b \<in> set blocks"
  then have "m_def (fold init_block blocks r) (mb_id b) = Some []" "m_use (fold init_block blocks r) (mb_id b) = Some []"
    using assms(2) by (simp_all add: init_blocks fresh_in_def)
  from def_use_blocks [OF assms(1) b this] show
    "m_def (after_local blocks r) (mb_id b) = Some (local_defs b) \<and>
      m_use (after_local blocks r) (mb_id b) = Some (local_uses b) \<and>
      m_liveIn (after_local blocks r) (mb_id b) = Some [] \<and> m_liveOut (after_local blocks r) (mb_id b) = Some []"
    using b assms(2)
    by (simp add: after_local_def local_defs_def local_uses_def def_use_blocks_live init_blocks fresh_in_def)
qed (simp add: after_local_def def_use_blocks_live init_blocks)

lemma live_in_universe:
  assumes "distinct (map mb_id blocks)" "\<forall>b \<in> set blocks. fresh_in r (mb_id b)"
    and "live_at cfg blocks reg i k" "k = 0 \<or> k = length (mb_insts (blocks ! i))"
  shows "reg \<in> set (register_universe regInfo blocks (after_local blocks r))"
proof -
  obtain j where j: "j < length blocks" "reg \<in> upward_exposed (mb_insts (blocks ! j))"
    using live_at_exposed [OF assms(3)] assms(4) by auto
  then have "reg \<in> set (the (m_use (after_local blocks r) (mb_id (blocks ! j))))"
    using after_local_maps(1) [OF assms(1,2), of "blocks ! j"] by simp
  then show ?thesis
    using register_universe_set [of "after_local blocks r" blocks regInfo] j(1) nth_mem by fast
qed

text \<open>The equation of the pass when there is something to solve, with the solution.\<close>

lemma solved_phase:
  assumes d: "distinct (map mb_id blocks)" and f: "\<forall>b \<in> set blocks. fresh_in r (mb_id b)" and ne: "blocks \<noteq> []"
    and g: "globals = register_universe regInfo blocks (after_local blocks r)" "globals \<noteq> []"
  shows "\<exists>st. computeGlobalLiveness regInfo cfg blocks r =
      Some (fold (materialize_block globals st blocks) [0..<length blocks] (after_local blocks r)) \<and>
    (\<forall>i < length blocks.
       set (materialize_set globals (snd st ! i) []) = {reg. live_at cfg blocks reg i 0} \<and>
       set (materialize_set globals (fst st ! i) []) =
         {reg. live_at cfg blocks reg i (length (mb_insts (blocks ! i)))})"
proof -
  let ?zero = "replicate (length blocks) (dbs_new (length globals))"
  have "distinct globals" using register_universe_set g(1) by blast
  then obtain outs ins where w: "while_changed (solve_round (map (\<lambda>b. to_bits globals (local_uses b)) blocks)
        (map (\<lambda>b. to_bits globals (local_defs b)) blocks) (dense_successors cfg blocks)) (?zero, ?zero) = Some (outs, ins)"
    and bits: "\<And>i. i < length blocks \<Longrightarrow> dbs_elems (ins ! i) = live_bits cfg blocks globals i 0 \<and>
       dbs_elems (outs ! i) = live_bits cfg blocks globals i (length (mb_insts (blocks ! i)))"
    using solver_on_blocks [OF d, of globals local_defs local_uses cfg] by auto
  have same: "map (\<lambda>b. to_bits globals (the (m_def (after_local blocks r) (mb_id b)))) blocks = map (\<lambda>b. to_bits globals (local_defs b)) blocks"
    "map (\<lambda>b. to_bits globals (the (m_use (after_local blocks r) (mb_id b)))) blocks = map (\<lambda>b. to_bits globals (local_uses b)) blocks"
    using after_local_maps(1) [OF d f] by simp_all
  have run: "computeGlobalLiveness regInfo cfg blocks r =
      Some (fold (materialize_block globals (outs, ins) blocks) [0..<length blocks] (after_local blocks r))"
    unfolding computeGlobalLiveness_def Let_def after_local_def [symmetric] g(1) [symmetric] same w
    using ne g(2) by simp
  have img: "(\<lambda>k. globals ! k) ` live_bits cfg blocks globals i k = {reg. live_at cfg blocks reg i k}"
    if "k = 0 \<or> k = length (mb_insts (blocks ! i))" for i k
    using live_in_universe [OF d f _ that, of cfg _ regInfo] unfolding g(1) [symmetric]
    by (fastforce simp: live_bits_def in_set_conv_nth)
  have "set (materialize_set globals (ins ! i) []) = {reg. live_at cfg blocks reg i 0} \<and>
      set (materialize_set globals (outs ! i) []) = {reg. live_at cfg blocks reg i (length (mb_insts (blocks ! i)))}"
    if "i < length blocks" for i
    using materialize_set_correct [of "ins ! i" globals] materialize_set_correct [of "outs ! i" globals]
      bits [OF that] img by (simp add: live_bits_def)
  with run show ?thesis by (intro exI [of _ "(outs, ins)"]) simp
qed

lemma liveness_pass_exact:
  assumes "distinct (map mb_id blocks)" "\<forall>b \<in> set blocks. fresh_in r (mb_id b)"
  shows "\<exists>r'. computeGlobalLiveness regInfo cfg blocks r = Some r' \<and>
    (\<forall>i < length blocks. \<exists>D U I X.
       m_def r' (mb_id (blocks ! i)) = Some D \<and> set D = block_defs (mb_insts (blocks ! i)) \<and>
       m_use r' (mb_id (blocks ! i)) = Some U \<and> set U = upward_exposed (mb_insts (blocks ! i)) \<and>
       m_liveIn r' (mb_id (blocks ! i)) = Some I \<and> set I = {reg. live_at cfg blocks reg i 0} \<and>
       m_liveOut r' (mb_id (blocks ! i)) = Some X \<and>
         set X = {reg. live_at cfg blocks reg i (length (mb_insts (blocks ! i)))}) \<and>
    (\<forall>x. x \<notin> mb_id ` set blocks \<longrightarrow> m_liveIn r' x = m_liveIn r x \<and> m_liveOut r' x = m_liveOut r x)"
proof (cases "blocks = [] \<or> register_universe regInfo blocks (after_local blocks r) = []")
  case True
  then have "computeGlobalLiveness regInfo cfg blocks r = Some (after_local blocks r)"
    by (auto simp: computeGlobalLiveness_def Let_def after_local_def)
  moreover have "{reg. live_at cfg blocks reg i k} = {}" if "i < length blocks" "k = 0 \<or> k = length (mb_insts (blocks ! i))" for i k
    using live_in_universe [OF assms _ that(2), of cfg _ regInfo] True that(1) by auto
  ultimately show ?thesis using after_local_maps [OF assms] by simp
next
  case False
  obtain st where run: "computeGlobalLiveness regInfo cfg blocks r =
      Some (fold (materialize_block (register_universe regInfo blocks (after_local blocks r)) st blocks)
        [0..<length blocks] (after_local blocks r))"
    and sets: "\<And>i. i < length blocks \<Longrightarrow>
       set (materialize_set (register_universe regInfo blocks (after_local blocks r)) (snd st ! i) []) = {reg. live_at cfg blocks reg i 0} \<and>
       set (materialize_set (register_universe regInfo blocks (after_local blocks r)) (fst st ! i) []) =
         {reg. live_at cfg blocks reg i (length (mb_insts (blocks ! i)))}"
    using solved_phase [OF assms _ refl, of regInfo cfg] False by blast
  let ?r' = "fold (materialize_block (register_universe regInfo blocks (after_local blocks r)) st blocks)
        [0..<length blocks] (after_local blocks r)"
  have other: "m_liveIn ?r' x = m_liveIn r x \<and> m_liveOut ?r' x = m_liveOut r x" if "x \<notin> mb_id ` set blocks" for x
  proof -
    have "\<And>i. i < length blocks \<Longrightarrow> x \<noteq> mb_id (blocks ! i)" using that nth_mem by blast
    from materialize_blocks_other [OF this, of "length blocks"] show ?thesis
      using after_local_maps(2) [OF assms that] by simp
  qed
  show ?thesis
  proof (rule exI [of _ ?r'], intro conjI allI impI run)
    fix i assume i: "i < length blocks"
    show "\<exists>D U I X. m_def ?r' (mb_id (blocks ! i)) = Some D \<and> set D = block_defs (mb_insts (blocks ! i)) \<and>
       m_use ?r' (mb_id (blocks ! i)) = Some U \<and> set U = upward_exposed (mb_insts (blocks ! i)) \<and>
       m_liveIn ?r' (mb_id (blocks ! i)) = Some I \<and> set I = {reg. live_at cfg blocks reg i 0} \<and>
       m_liveOut ?r' (mb_id (blocks ! i)) = Some X \<and>
         set X = {reg. live_at cfg blocks reg i (length (mb_insts (blocks ! i)))}"
      using materialize_blocks [OF assms(1) order_refl i] after_local_maps(1) [OF assms nth_mem [OF i]] sets [OF i]
      by (simp add: materialize_blocks_def_use)
  qed (simp_all add: other)
qed


text \<open>C39: The liveness pass terminates on every function, for every control flow graph, and its
  result is exact: for each block the definitions are the registers the block writes, the uses
  those it reads before writing, and live-in and live-out hold exactly the registers that are
  live at the start and at the end of the block, that is, read on some path before being
  written. The results of other blocks stay. Leaving the registers local to a block out of
  the solver's universe loses nothing.\<close>

theorem computeGlobalLiveness_exact:
  assumes "distinct (map mb_id blocks)" "\<forall>b \<in> set blocks. fresh_in r (mb_id b)"
  shows "\<exists>r'. computeGlobalLiveness regInfo cfg blocks r = Some r' \<and>
    (\<forall>i < length blocks. \<exists>D U I X.
       m_def r' (mb_id (blocks ! i)) = Some D \<and> set D = block_defs (mb_insts (blocks ! i)) \<and>
       m_use r' (mb_id (blocks ! i)) = Some U \<and> set U = upward_exposed (mb_insts (blocks ! i)) \<and>
       m_liveIn r' (mb_id (blocks ! i)) = Some I \<and> set I = {reg. live_at cfg blocks reg i 0} \<and>
       m_liveOut r' (mb_id (blocks ! i)) = Some X \<and>
         set X = {reg. live_at cfg blocks reg i (length (mb_insts (blocks ! i)))}) \<and>
    (\<forall>x. x \<notin> mb_id ` set blocks \<longrightarrow> m_liveIn r' x = m_liveIn r x \<and> m_liveOut r' x = m_liveOut r x)"
  by (rule liveness_pass_exact [OF assms])

text \<open>A loop of two blocks: the first writes register 7, the second reads it and jumps back to
  itself.\<close>

definition sample_inst :: "mir_operand list \<Rightarrow> operand_flag list \<Rightarrow> u32 \<Rightarrow> mir_inst" where
  "sample_inst ops flags f =
     \<lparr>mi_opcode = OtherOp 0, mi_flags = f, mi_slots = map (\<lambda>fl. \<lparr>slot_flags = fl, slot_variadic = False\<rparr>) flags,
      mi_desc = None, mi_operands = map Some ops\<rparr>"

definition sample_blocks :: "mir_block list" where
  "sample_blocks =
     [\<lparr>mb_id = 2, mb_insts = [sample_inst [OpReg (VReg 7)] [Write] 0]\<rparr>,
      \<lparr>mb_id = 4, mb_insts = [sample_inst [OpReg (VReg 7)] [Read] 0, sample_inst [OpRef 4] [Read] IsBranch]\<rparr>]"

definition empty_liveness :: liveness_result where
  "empty_liveness = \<lparr>m_def = Map.empty, m_use = Map.empty, m_liveIn = Map.empty, m_liveOut = Map.empty\<rparr>"

lemma sample_regs [simp]:
  "getUsedRegisters (sample_inst [OpReg r] [Read] f) = [r]" "getDefinedRegisters (sample_inst [OpReg r] [Read] f) = []"
  "getUsedRegisters (sample_inst [OpReg r] [Write] f) = []" "getDefinedRegisters (sample_inst [OpReg r] [Write] f) = [r]"
  "getUsedRegisters (sample_inst [OpRef b] [Read] f) = []" "getDefinedRegisters (sample_inst [OpRef b] [Read] f) = []"
  by (simp_all add: sample_inst_def getUsedRegisters_def getDefinedRegisters_def explicit_registers_def
      getOperandFlag_def isSelected_def slot_flag_def variadic_slot_def visitOperandRegisters_def)

lemma sample_live: "cfr_wf cfg \<Longrightarrow> 4 \<in> set (getSuccessors cfg 2) \<Longrightarrow> live_at cfg sample_blocks (VReg 7) 0 1"
proof (rule live_at.edge [where j = 1])
  show "live_at cfg sample_blocks (VReg 7) 1 0"
    by (rule live_at.used) (simp_all add: sample_blocks_def)
qed (simp_all add: sample_blocks_def)

theorem computeGlobalLiveness_exact_witness:
  "\<exists>r' X. computeGlobalLiveness None (fst (cfg_run (\<lambda>b. b \<in> {2, 4}) sample_blocks cfr_empty)) sample_blocks empty_liveness = Some r' \<and>
     m_liveOut r' 2 = Some X \<and> VReg 7 \<in> set X"
proof -
  let ?cfg = "fst (cfg_run (\<lambda>b. b \<in> {2, 4}) sample_blocks cfr_empty)"
  have wf: "cfr_wf ?cfg" using cfg_blocks_correct [OF cfr_wf_empty] by (simp add: cfg_run_def Let_def)
  have "4 \<in> set (getSuccessors ?cfg 2)"
    by (simp add: cfg_run_def Let_def sample_blocks_def sample_inst_def effective_flags_def has_flag_def IsBranch_def
        IsReturn_def IsTerminator_def ReadsCPUFlags_def branch_targets_def cfr_addEdge_def ensureBlock_def
        cfr_empty_def getSuccessors_def insertSortedUnique_def lower_bound_def)
  then have live: "live_at ?cfg sample_blocks (VReg 7) 0 1" by (rule sample_live [OF wf])
  have "distinct (map mb_id sample_blocks)" "\<forall>b \<in> set sample_blocks. fresh_in empty_liveness (mb_id b)"
    by (simp_all add: sample_blocks_def fresh_in_def empty_liveness_def)
  note exact = computeGlobalLiveness_exact [OF this, of None ?cfg]
  have zero: "0 < length sample_blocks" "mb_id (sample_blocks ! 0) = 2" "length (mb_insts (sample_blocks ! 0)) = 1"
    by (simp_all add: sample_blocks_def)
  from exact show ?thesis
  proof (elim exE conjE, goal_cases)
    case (1 r')
    from 1(2) [rule_format, OF zero(1)] show ?case
      using 1(1) live unfolding zero(2,3) by blast
  qed
qed



text \<open>A block that is left by a conditional branch before it writes a register: control gets
  from its start to a read of the old value, and the pass does not report the register as
  live there, since it lets every write of the block hide the value from every exit.\<close>

theorem liveness_early_exit:
  assumes "blocks =
     [\<lparr>mb_id = 2, mb_insts = [sample_inst [OpRef 4] [Read] (IsBranch OR ReadsCPUFlags), sample_inst [OpReg (VReg 7)] [Write] 0]\<rparr>,
      \<lparr>mb_id = 4, mb_insts = [sample_inst [OpReg (VReg 7)] [Read] 0]\<rparr>]"
  shows "reaches (mb_insts (blocks ! 0)) 0 \<and> control_edge (\<lambda>b. b \<in> {2, 4}) blocks 2 4 \<and>
    4 \<in> set (branch_targets (\<lambda>b. b \<in> {2, 4}) (mb_insts (blocks ! 0) ! 0)) \<and>
    VReg 7 \<in> set (getUsedRegisters (mb_insts (blocks ! 1) ! 0)) \<and> \<not> live_at cfg blocks (VReg 7) 0 0"
proof (intro conjI)
  show r: "reaches (mb_insts (blocks ! 0)) 0" by (rule reaches.entry)
  show t: "4 \<in> set (branch_targets (\<lambda>b. b \<in> {2, 4}) (mb_insts (blocks ! 0) ! 0))"
    by (simp add: assms sample_inst_def branch_targets_def)
  have "has_flag (effective_flags (mb_insts (blocks ! 0) ! 0)) IsBranch"
    by (simp add: assms sample_inst_def effective_flags_def has_flag_def IsBranch_def ReadsCPUFlags_def)
  then have "4 \<in> jumps_to (\<lambda>b. b \<in> {2, 4}) (mb_insts (blocks ! 0))"
    unfolding jumps_to_def using r t by (intro CollectI exI [of _ 0]) (simp add: assms)
  then show "control_edge (\<lambda>b. b \<in> {2, 4}) blocks 2 4"
    unfolding control_edge_def by (intro exI [of _ 0]) (simp add: assms)
  show "VReg 7 \<in> set (getUsedRegisters (mb_insts (blocks ! 1) ! 0))" by (simp add: assms)
  show "\<not> live_at cfg blocks (VReg 7) 0 0"
    by (subst live_at_start) (simp_all add: assms)
qed

end
