(* ===== verification/InterferenceGraph.thy ===== *)
theory InterferenceGraph
  imports Liveness "HOL-Library.AList"
begin

text \<open>
  \<open>MirRegisterAllocator::buildInterferenceGraph\<close>
  (EzTriple/src/RegisterAllocator/MirRegisterAllocator.cpp). The graph is an association list
  from registers to neighbour lists (hash map and sets of the code, in some iteration order;
  the theorems hold for every order). The locale \<open>interference\<close> is the graph as the later
  phases see it; it is interpreted on the association lists. The main theorem connects the
  graph to liveness: a register written where another one is live afterwards is its neighbour.
\<close>

section \<open>The target and the calling convention\<close>

text \<open>Register classes and banks are numbered. \<open>tr_regs\<close> lists the register numbers of a class,
  \<open>tr_bank\<close> its bank, \<open>tr_bankClasses\<close> the classes of a bank, and \<open>tr_vclass\<close> the class a
  virtual register was constrained to.\<close>

record target_regs =
  tr_bank :: "nat \<Rightarrow> nat option"
  tr_regs :: "nat \<Rightarrow> nat list"
  tr_bankClasses :: "nat \<Rightarrow> nat list"
  tr_vclass :: "mir_id \<Rightarrow> nat option"

record calling_conv =
  cc_callerSaved :: "reg_ref list"
  cc_calleeSaved :: "nat option \<Rightarrow> reg_ref list"
  cc_hasFramePointer :: bool
  cc_framePointer :: reg_ref
  cc_stackPointer :: reg_ref

fun getClass :: "target_regs \<Rightarrow> reg_ref \<Rightarrow> nat option" where
  "getClass t (VReg n) = tr_vclass t n"
| "getClass t (PReg c _) = c"

definition getBank :: "target_regs \<Rightarrow> reg_ref \<Rightarrow> nat option" where
  "getBank t r = (case getClass t r of None \<Rightarrow> None | Some c \<Rightarrow> tr_bank t c)"

text \<open>The guard of an interference edge: the banks agree, or one of them is not known.\<close>

definition may_share :: "target_regs \<Rightarrow> reg_ref \<Rightarrow> reg_ref \<Rightarrow> bool" where
  "may_share t a b \<longleftrightarrow> getBank t a = None \<or> getBank t b = None \<or> getBank t a = getBank t b"

definition isSamePhysReg :: "target_regs \<Rightarrow> reg_ref \<Rightarrow> reg_ref \<Rightarrow> bool" where
  "isSamePhysReg t a b \<longleftrightarrow>
     isPhysical a \<and> isPhysical b \<and> reg_id a = reg_id b \<and>
     (getClass t a = None \<or> getClass t b = None \<or> getBank t a = getBank t b)"

section \<open>The graph\<close>

type_synonym igraph = "(reg_ref \<times> reg_ref list) list"

definition has_node :: "igraph \<Rightarrow> reg_ref \<Rightarrow> bool" where
  "has_node g v \<longleftrightarrow> map_of g v \<noteq> None"

definition neighbors :: "igraph \<Rightarrow> reg_ref \<Rightarrow> reg_ref list" where
  "neighbors g v = (case map_of g v of Some ns \<Rightarrow> ns | None \<Rightarrow> [])"

definition addNode :: "reg_ref \<Rightarrow> igraph \<Rightarrow> igraph" where
  "addNode v g = (if has_node g v then g else g @ [(v, [])])"

definition insert_neighbor :: "reg_ref \<Rightarrow> reg_ref \<Rightarrow> igraph \<Rightarrow> igraph" where
  "insert_neighbor v w g = AList.update v (set_insert w (neighbors g v)) g"

text \<open>Insert an edge unless the first node has it already.\<close>

definition add_interference :: "reg_ref \<Rightarrow> reg_ref \<Rightarrow> igraph \<Rightarrow> igraph" where
  "add_interference a b g0 =
     (let g = addNode a g0 in
      if b \<in> set (neighbors g a) then g
      else
        let g1 = insert_neighbor a b g in
        if has_node g1 b then insert_neighbor b a g1
        else insert_neighbor b a (addNode b g1))"

section \<open>Building the graph\<close>

definition is_call :: "mir_inst \<Rightarrow> bool" where
  "is_call i \<longleftrightarrow> mi_opcode i = CALL \<or> (case mi_desc i of Some d \<Rightarrow> has_flag (td_flags d) IsCall | None \<Rightarrow> False)"

text \<open>One register written against all registers live after the instruction.\<close>

definition interfere_with :: "target_regs \<Rightarrow> reg_ref list \<Rightarrow> reg_ref \<Rightarrow> igraph \<Rightarrow> igraph" where
  "interfere_with t live r g =
     fold (\<lambda>l g. if r \<noteq> l \<and> may_share t r l then add_interference r l g else g) live (addNode r g)"

definition two_address :: "mir_inst \<Rightarrow> igraph \<Rightarrow> igraph" where
  "two_address i g =
     (let defs = getDefinedRegisters i in
      if length defs = 1 \<and> length (mi_operands i) \<ge> 3 then
        fold (\<lambda>op g. case op of
             Some (OpReg src) \<Rightarrow> if hd defs \<noteq> src then add_interference (hd defs) src g else g
           | _ \<Rightarrow> g) (drop 2 (mi_operands i)) g
      else g)"

definition live_before :: "mir_inst \<Rightarrow> reg_ref list \<Rightarrow> reg_ref list" where
  "live_before i live =
     fold set_insert (getUsedRegisters i) (filter (\<lambda>r. r \<notin> set (getDefinedRegisters i)) live)"

record build_state =
  bs_graph :: igraph
  bs_live :: "reg_ref list"
  bs_hasCalls :: bool
  bs_hasDynamicAllocs :: bool

definition build_inst ::
  "target_regs \<Rightarrow> calling_conv option \<Rightarrow> (mir_inst \<Rightarrow> bool) \<Rightarrow> mir_inst \<Rightarrow> build_state \<Rightarrow> build_state" where
  "build_inst t cc isDAlloc i s =
     (let clobbers = (if is_call i then (case cc of Some c \<Rightarrow> cc_callerSaved c | None \<Rightarrow> []) else []);
          g1 = fold (interfere_with t (bs_live s)) clobbers (bs_graph s);
          g2 = fold (interfere_with t (bs_live s)) (getDefinedRegisters i) g1;
          g3 = two_address i g2;
          g4 = fold addNode (getUsedRegisters i) g3
      in \<lparr>bs_graph = g4, bs_live = live_before i (bs_live s), bs_hasCalls = (bs_hasCalls s \<or> is_call i),
          bs_hasDynamicAllocs = (bs_hasDynamicAllocs s \<or> isDAlloc i)\<rparr>)"

definition build_block ::
  "target_regs \<Rightarrow> calling_conv option \<Rightarrow> (mir_inst \<Rightarrow> bool) \<Rightarrow> liveness_result \<Rightarrow> mir_block \<Rightarrow> build_state \<Rightarrow> build_state" where
  "build_block t cc isDAlloc lv b s =
     (let liveOut = (case m_liveOut lv (mb_id b) of Some xs \<Rightarrow> xs | None \<Rightarrow> [])
      in fold (build_inst t cc isDAlloc) (rev (mb_insts b))
           (s\<lparr>bs_graph := fold addNode liveOut (bs_graph s), bs_live := liveOut\<rparr>))"

text \<open>Reserving a register reserves its aliases in every class of its bank.\<close>

definition reserveBankReg :: "target_regs \<Rightarrow> reg_ref \<Rightarrow> reg_ref list \<Rightarrow> reg_ref list" where
  "reserveBankReg t reg res =
     fold set_insert
       (case getBank t reg of
          None \<Rightarrow> []
        | Some bank \<Rightarrow> concat (map (\<lambda>c. map (PReg (Some c)) (filter (\<lambda>n. n = reg_id reg) (tr_regs t c)))
                          (tr_bankClasses t bank)))
       (set_insert reg res)"

definition reserved_regs :: "target_regs \<Rightarrow> calling_conv option \<Rightarrow> reg_ref list \<Rightarrow> reg_ref list" where
  "reserved_regs t cc res =
     (case cc of
        None \<Rightarrow> res
      | Some c \<Rightarrow>
          let res1 = (if cc_hasFramePointer c \<and> isPhysical (cc_framePointer c)
                      then reserveBankReg t (cc_framePointer c) res else res)
          in if isPhysical (cc_stackPointer c) then reserveBankReg t (cc_stackPointer c) res1 else res1)"

definition build_blocks ::
  "target_regs \<Rightarrow> calling_conv option \<Rightarrow> (mir_inst \<Rightarrow> bool) \<Rightarrow> liveness_result \<Rightarrow> mir_block list \<Rightarrow> igraph \<Rightarrow> build_state" where
  "build_blocks t cc isDAlloc lv blocks g =
     fold (build_block t cc isDAlloc lv) blocks
       \<lparr>bs_graph = g, bs_live = [], bs_hasCalls = False, bs_hasDynamicAllocs = False\<rparr>"

section \<open>The interface\<close>

text \<open>An undirected graph without loops: \<open>adj g v\<close> are the neighbours of \<open>v\<close>.\<close>

locale interference =
  fixes add_node :: "'v \<Rightarrow> 'g \<Rightarrow> 'g"
    and add_edge :: "'v \<Rightarrow> 'v \<Rightarrow> 'g \<Rightarrow> 'g"
    and adj :: "'g \<Rightarrow> 'v \<Rightarrow> 'v set"
    and nodes :: "'g \<Rightarrow> 'v set"
    and inv :: "'g \<Rightarrow> bool"
  assumes inv_node: "inv g \<Longrightarrow> inv (add_node v g)"
    and nodes_node: "inv g \<Longrightarrow> nodes (add_node v g) = insert v (nodes g)"
    and adj_node: "inv g \<Longrightarrow> adj (add_node v g) = adj g"
    and inv_edge: "inv g \<Longrightarrow> a \<noteq> b \<Longrightarrow> inv (add_edge a b g)"
    and nodes_edge: "inv g \<Longrightarrow> a \<noteq> b \<Longrightarrow> nodes (add_edge a b g) = nodes g \<union> {a, b}"
    and adj_edge: "inv g \<Longrightarrow> a \<noteq> b \<Longrightarrow> y \<in> adj (add_edge a b g) x \<longleftrightarrow> y \<in> adj g x \<or> {x, y} = {a, b}"
    and adj_sym: "inv g \<Longrightarrow> y \<in> adj g x \<Longrightarrow> x \<in> adj g y"
    and adj_irrefl: "inv g \<Longrightarrow> x \<notin> adj g x"
    and adj_nodes: "inv g \<Longrightarrow> y \<in> adj g x \<Longrightarrow> x \<in> nodes g \<and> y \<in> nodes g"
begin

text \<open>\<open>adds f P\<close>: \<open>f\<close> keeps the invariant and adds exactly the edges \<open>P\<close>.\<close>

definition adds :: "('g \<Rightarrow> 'g) \<Rightarrow> ('v \<Rightarrow> 'v \<Rightarrow> bool) \<Rightarrow> bool" where
  "adds f P \<longleftrightarrow> (\<forall>g. inv g \<longrightarrow> inv (f g) \<and> (\<forall>x y. y \<in> adj (f g) x \<longleftrightarrow> y \<in> adj g x \<or> P x y))"

lemma addsD: "adds f P \<Longrightarrow> inv g \<Longrightarrow> inv (f g)" "adds f P \<Longrightarrow> inv g \<Longrightarrow> y \<in> adj (f g) x \<longleftrightarrow> y \<in> adj g x \<or> P x y"
  unfolding adds_def by blast+

lemma adds_id: "adds (\<lambda>g. g) (\<lambda>x y. False)"
  by (simp add: adds_def)

lemma adds_node: "adds (add_node v) (\<lambda>x y. False)"
  by (simp add: adds_def inv_node adj_node)

lemma adds_edge: "a \<noteq> b \<Longrightarrow> adds (add_edge a b) (\<lambda>x y. {x, y} = {a, b})"
  by (simp add: adds_def inv_edge adj_edge)

lemma adds_if: "(c \<Longrightarrow> adds f P) \<Longrightarrow> adds (\<lambda>g. if c then f g else g) (\<lambda>x y. c \<and> P x y)"
  by (cases c) (simp_all add: adds_id)

lemma adds_comp: "adds f P \<Longrightarrow> adds f' Q \<Longrightarrow> adds (\<lambda>g. f' (f g)) (\<lambda>x y. P x y \<or> Q x y)"
  unfolding adds_def by blast

lemma adds_fold:
  assumes "\<And>z. adds (f z) (P z)"
  shows "adds (fold f zs) (\<lambda>x y. \<exists>z \<in> set zs. P z x y)"
proof (induction zs)
  case Nil
  then show ?case by (simp add: adds_id [unfolded id_def [symmetric]] id_def adds_def)
next
  case (Cons z zs)
  from adds_comp [OF assms Cons.IH, of z] show ?case by (simp add: adds_def)
qed

lemma adds_cong: "adds f P \<Longrightarrow> (\<And>g. f g = f' g) \<Longrightarrow> (\<And>x y. P x y \<longleftrightarrow> Q x y) \<Longrightarrow> adds f' Q"
  by (simp add: adds_def)

text \<open>\<open>grows f V\<close>: \<open>f\<close> keeps the invariant and the nodes, and the nodes \<open>V\<close> are there afterwards.\<close>

definition grows :: "('g \<Rightarrow> 'g) \<Rightarrow> 'v set \<Rightarrow> bool" where
  "grows f V \<longleftrightarrow> (\<forall>g. inv g \<longrightarrow> inv (f g) \<and> nodes g \<union> V \<subseteq> nodes (f g))"

lemma growsD: "grows f V \<Longrightarrow> inv g \<Longrightarrow> inv (f g) \<and> nodes g \<union> V \<subseteq> nodes (f g)"
  by (simp add: grows_def)

lemma grows_id: "grows (\<lambda>g. g) {}"
  by (simp add: grows_def)

lemma grows_node: "grows (add_node v) {v}"
  by (auto simp: grows_def inv_node nodes_node)

lemma grows_edge: "a \<noteq> b \<Longrightarrow> grows (add_edge a b) {}"
  by (auto simp: grows_def inv_edge nodes_edge)

lemma grows_if: "(c \<Longrightarrow> grows f {}) \<Longrightarrow> grows (\<lambda>g. if c then f g else g) {}"
  by (cases c) (simp_all add: grows_id)

lemma grows_comp: "grows f V \<Longrightarrow> grows f' W \<Longrightarrow> grows (\<lambda>g. f' (f g)) (V \<union> W)"
  unfolding grows_def by blast

lemma grows_fold: "(\<And>z. grows (f z) (V z)) \<Longrightarrow> grows (fold f zs) (\<Union>z \<in> set zs. V z)"
proof (induction zs)
  case (Cons z zs)
  from grows_comp [OF Cons.prems Cons.IH [OF Cons.prems], of z] show ?case by (simp add: comp_def)
qed (simp add: grows_def)

lemma grows_mono: "grows f V \<Longrightarrow> W \<subseteq> V \<Longrightarrow> (\<And>g. f g = f' g) \<Longrightarrow> grows f' W"
  unfolding grows_def by auto

end

section \<open>Association lists meet the interface\<close>

definition igraph_wf :: "igraph \<Rightarrow> bool" where
  "igraph_wf g \<longleftrightarrow> distinct (map fst g) \<and>
     (\<forall>v w. w \<in> set (neighbors g v) \<longrightarrow> v \<in> set (neighbors g w)) \<and> (\<forall>v. v \<notin> set (neighbors g v))"

definition igraph_nodes :: "igraph \<Rightarrow> reg_ref set" where
  "igraph_nodes g = fst ` set g"

lemma has_node_iff: "has_node g v \<longleftrightarrow> v \<in> igraph_nodes g"
  by (simp add: has_node_def igraph_nodes_def map_of_eq_None_iff)

lemma neighbors_node: "w \<in> set (neighbors g v) \<Longrightarrow> has_node g v"
  by (cases "map_of g v") (simp_all add: neighbors_def has_node_def)

lemma map_of_addNode: "map_of (addNode v g) x = (if x = v \<and> map_of g v = None then Some [] else map_of g x)"
  by (simp add: addNode_def has_node_def map_add_def split: option.split)

lemma neighbors_addNode [simp]: "neighbors (addNode v g) = neighbors g"
  by (rule ext) (simp add: neighbors_def map_of_addNode)

lemma has_node_addNode [simp]: "has_node (addNode v g) w \<longleftrightarrow> w = v \<or> has_node g w"
  by (auto simp: has_node_def map_of_addNode)

lemma distinct_addNode: "distinct (map fst g) \<Longrightarrow> distinct (map fst (addNode v g))"
  by (auto simp: addNode_def has_node_iff igraph_nodes_def)

lemma map_of_insert_neighbor:
  "map_of (insert_neighbor v w g) x = (if x = v then Some (set_insert w (neighbors g v)) else map_of g x)"
  by (simp add: insert_neighbor_def update_conv)

lemma neighbors_insert_neighbor [simp]:
  "set (neighbors (insert_neighbor v w g) x) = set (neighbors g x) \<union> (if x = v then {w} else {})"
proof (cases "x = v")
  case True
  then have "neighbors (insert_neighbor v w g) x = set_insert w (neighbors g v)"
    by (simp add: neighbors_def [of "insert_neighbor v w g"] map_of_insert_neighbor)
  then show ?thesis using True by auto
next
  case False
  then have "neighbors (insert_neighbor v w g) x = neighbors g x"
    by (simp add: neighbors_def map_of_insert_neighbor)
  then show ?thesis using False by simp
qed

lemma has_node_insert_neighbor [simp]: "has_node (insert_neighbor v w g) x \<longleftrightarrow> x = v \<or> has_node g x"
  by (simp add: insert_neighbor_def has_node_def update_conv)

lemma distinct_insert_neighbor: "distinct (map fst g) \<Longrightarrow> distinct (map fst (insert_neighbor v w g))"
  by (simp add: insert_neighbor_def distinct_update)

lemma add_interference_simps:
  assumes "igraph_wf g"
  shows "distinct (map fst (add_interference a b g))"
    "y \<in> set (neighbors (add_interference a b g) x) \<longleftrightarrow> y \<in> set (neighbors g x) \<or> x = a \<and> y = b \<or> x = b \<and> y = a"
    "has_node (add_interference a b g) x \<longleftrightarrow> has_node g x \<or> x = a \<or> x = b"
proof -
  have d: "distinct (map fst g)" and sym: "\<And>v w. w \<in> set (neighbors g v) \<Longrightarrow> v \<in> set (neighbors g w)"
    using assms by (auto simp: igraph_wf_def)
  show "distinct (map fst (add_interference a b g))"
    by (simp add: add_interference_def Let_def distinct_insert_neighbor distinct_addNode d)
  show "y \<in> set (neighbors (add_interference a b g) x) \<longleftrightarrow> y \<in> set (neighbors g x) \<or> x = a \<and> y = b \<or> x = b \<and> y = a"
    using sym by (auto simp: add_interference_def Let_def split: if_splits)
  show "has_node (add_interference a b g) x \<longleftrightarrow> has_node g x \<or> x = a \<or> x = b"
    using sym [of b a] neighbors_node [of b g a] neighbors_node [of a g b]
    by (auto simp: add_interference_def Let_def split: if_splits)
qed

interpretation ig: interference addNode add_interference "\<lambda>g v. set (neighbors g v)" igraph_nodes igraph_wf
proof (unfold_locales, goal_cases)
  case (1 g v)
  then show ?case by (simp add: igraph_wf_def distinct_addNode)
next
  case (2 g v)
  have "w \<in> igraph_nodes (addNode v g) \<longleftrightarrow> w = v \<or> w \<in> igraph_nodes g" for w
    unfolding has_node_iff [symmetric] by simp
  then show ?case by auto
next
  case (3 g v)
  show ?case by simp
next
  case (4 g a b)
  note e = add_interference_simps [OF 4(1), where a = a and b = b]
  show ?case
    using 4 unfolding igraph_wf_def e(2) by (simp add: e(1))
next
  case (5 g a b)
  have "w \<in> igraph_nodes (add_interference a b g) \<longleftrightarrow> w \<in> igraph_nodes g \<or> w = a \<or> w = b" for w
    unfolding has_node_iff [symmetric] by (rule add_interference_simps(3) [OF 5(1)])
  then show ?case by auto
next
  case (6 g a b y x)
  then show ?case by (auto simp: add_interference_simps(2) doubleton_eq_iff)
next
  case (7 g y x)
  then show ?case by (simp add: igraph_wf_def)
next
  case (8 g x)
  then show ?case by (simp add: igraph_wf_def)
next
  case (9 g y x)
  then show ?case
    unfolding igraph_wf_def has_node_iff [symmetric] using neighbors_node by blast
qed

section \<open>The edges every step adds\<close>

text \<open>The registers one instruction writes: its definitions, and at a call the caller-saved
  registers.\<close>

definition clobbers :: "calling_conv option \<Rightarrow> mir_inst \<Rightarrow> reg_ref list" where
  "clobbers cc i = (if is_call i then (case cc of Some c \<Rightarrow> cc_callerSaved c | None \<Rightarrow> []) else [])"

definition writes :: "calling_conv option \<Rightarrow> mir_inst \<Rightarrow> reg_ref set" where
  "writes cc i = set (clobbers cc i) \<union> set (getDefinedRegisters i)"

text \<open>The sources of a three-operand instruction after the first one.\<close>

definition late_sources :: "mir_inst \<Rightarrow> reg_ref set" where
  "late_sources i = {src. Some (OpReg src) \<in> set (drop 2 (mi_operands i))}"

definition inst_edge :: "target_regs \<Rightarrow> calling_conv option \<Rightarrow> mir_inst \<Rightarrow> reg_ref set \<Rightarrow> reg_ref \<Rightarrow> reg_ref \<Rightarrow> bool" where
  "inst_edge t cc i L x y \<longleftrightarrow>
     (\<exists>r \<in> writes cc i. \<exists>l \<in> L. r \<noteq> l \<and> may_share t r l \<and> {x, y} = {r, l}) \<or>
     (\<exists>d. getDefinedRegisters i = [d] \<and> (\<exists>src \<in> late_sources i. d \<noteq> src \<and> {x, y} = {d, src}))"

lemma adds_interfere:
  "ig.adds (interfere_with t live r) (\<lambda>x y. \<exists>l \<in> set live. r \<noteq> l \<and> may_share t r l \<and> {x, y} = {r, l})"
proof -
  have "ig.adds (\<lambda>g. if r \<noteq> l \<and> may_share t r l then add_interference r l g else g)
      (\<lambda>x y. (r \<noteq> l \<and> may_share t r l) \<and> {x, y} = {r, l})" for l
    by (rule ig.adds_if) (rule ig.adds_edge, simp)
  note f = ig.adds_fold [OF this, where zs = live]
  show ?thesis
    by (rule ig.adds_cong [OF ig.adds_comp [OF ig.adds_node f]]) (auto simp: interfere_with_def)
qed

lemma two_address_op:
  "ig.adds (\<lambda>g. case op of Some (OpReg src) \<Rightarrow> if d \<noteq> src then add_interference d src g else g | _ \<Rightarrow> g)
     (\<lambda>x y. \<exists>src. op = Some (OpReg src) \<and> d \<noteq> src \<and> {x, y} = {d, src})"
proof (cases "\<exists>src. op = Some (OpReg src)")
  case True
  then obtain src where s: "op = Some (OpReg src)" by blast
  have "ig.adds (\<lambda>g. if d \<noteq> src then add_interference d src g else g) (\<lambda>x y. d \<noteq> src \<and> {x, y} = {d, src})"
    by (rule ig.adds_if) (rule ig.adds_edge)
  then show ?thesis by (rule ig.adds_cong) (simp_all add: s)
next
  case False
  show ?thesis
    by (rule ig.adds_cong [OF ig.adds_id]) (use False in \<open>auto split: option.split mir_operand.split\<close>)
qed

lemma adds_two_address:
  "ig.adds (two_address i) (\<lambda>x y. \<exists>d. getDefinedRegisters i = [d] \<and> (\<exists>src \<in> late_sources i. d \<noteq> src \<and> {x, y} = {d, src}))"
proof (cases "length (getDefinedRegisters i) = 1 \<and> length (mi_operands i) \<ge> 3")
  case True
  then obtain d where d: "getDefinedRegisters i = [d]" by (auto simp: length_Suc_conv numeral_eq_Suc)
  let ?f = "\<lambda>op g. case op of Some (OpReg src) \<Rightarrow> if d \<noteq> src then add_interference d src g else g | _ \<Rightarrow> g"
  have "ig.adds (fold ?f (drop 2 (mi_operands i)))
      (\<lambda>x y. \<exists>op \<in> set (drop 2 (mi_operands i)). \<exists>src. op = Some (OpReg src) \<and> d \<noteq> src \<and> {x, y} = {d, src})"
    by (rule ig.adds_fold) (rule two_address_op)
  then show ?thesis
    by (rule ig.adds_cong, unfold two_address_def d Let_def list.sel)
      (use True in \<open>auto simp: d late_sources_def\<close>)
next
  case False
  have "getDefinedRegisters i = [d] \<Longrightarrow> late_sources i = {}" for d
    using False by (auto simp: late_sources_def)
  then show ?thesis
    by (intro ig.adds_cong [OF ig.adds_id]) (use False in \<open>auto simp: two_address_def Let_def\<close>)
qed

lemma build_inst_graph:
  "bs_graph (build_inst t cc isDAlloc i s) =
     fold addNode (getUsedRegisters i) (two_address i
       (fold (interfere_with t (bs_live s)) (clobbers cc i @ getDefinedRegisters i) (bs_graph s)))"
  by (simp add: build_inst_def Let_def clobbers_def)

lemma build_inst_live: "bs_live (build_inst t cc isDAlloc i s) = live_before i (bs_live s)"
  by (simp add: build_inst_def Let_def)

lemma build_inst_edges:
  assumes "igraph_wf (bs_graph s)"
  shows "igraph_wf (bs_graph (build_inst t cc isDAlloc i s))"
    "y \<in> set (neighbors (bs_graph (build_inst t cc isDAlloc i s)) x) \<longleftrightarrow>
      y \<in> set (neighbors (bs_graph s) x) \<or> inst_edge t cc i (set (bs_live s)) x y"
proof -
  have "ig.adds (\<lambda>g. fold addNode (getUsedRegisters i) (two_address i
      (fold (interfere_with t (bs_live s)) (clobbers cc i @ getDefinedRegisters i) g))) (inst_edge t cc i (set (bs_live s)))"
    by (rule ig.adds_cong [OF ig.adds_comp [OF ig.adds_comp [OF ig.adds_fold [OF adds_interfere] adds_two_address]
            ig.adds_fold [OF ig.adds_node]] refl])
      (simp add: inst_edge_def writes_def)
  from ig.addsD [OF this assms] show "igraph_wf (bs_graph (build_inst t cc isDAlloc i s))"
    "y \<in> set (neighbors (bs_graph (build_inst t cc isDAlloc i s)) x) \<longleftrightarrow>
      y \<in> set (neighbors (bs_graph s) x) \<or> inst_edge t cc i (set (bs_live s)) x y"
    unfolding build_inst_graph by blast+
qed

lemma live_before_set:
  "set (live_before i live) = set (getUsedRegisters i) \<union> (set live - set (getDefinedRegisters i))"
  by (auto simp: live_before_def)

text \<open>The backward scan of a block: the live set it carries, and the edges it adds.\<close>

definition live_after :: "mir_inst list \<Rightarrow> reg_ref set \<Rightarrow> nat \<Rightarrow> reg_ref set" where
  "live_after insts out k = upward_exposed (drop (Suc k) insts) \<union> (out - block_defs (drop (Suc k) insts))"

lemma build_insts:
  assumes "igraph_wf (bs_graph s)"
  shows "set (bs_live (fold (build_inst t cc isDAlloc) (rev insts) s)) =
      upward_exposed insts \<union> (set (bs_live s) - block_defs insts) \<and>
    igraph_wf (bs_graph (fold (build_inst t cc isDAlloc) (rev insts) s)) \<and>
    (\<forall>x y. y \<in> set (neighbors (bs_graph (fold (build_inst t cc isDAlloc) (rev insts) s)) x) \<longleftrightarrow>
      y \<in> set (neighbors (bs_graph s) x) \<or>
      (\<exists>k < length insts. inst_edge t cc (insts ! k) (live_after insts (set (bs_live s)) k) x y))"
proof (induction insts)
  case (Cons i insts)
  let ?s = "fold (build_inst t cc isDAlloc) (rev insts) s"
  have "live_after (i # insts) (set (bs_live s)) 0 = set (bs_live ?s)"
    using Cons by (simp add: live_after_def)
  moreover have "live_after (i # insts) out (Suc k) = live_after insts out k" for out k
    by (simp add: live_after_def)
  ultimately show ?case
    using Cons build_inst_edges [of ?s] unfolding length_Cons Ex_less_Suc2
    by (auto simp: build_inst_live live_before_set)
qed (use assms in simp)

section \<open>The graph of a function\<close>

definition live_out_of :: "liveness_result \<Rightarrow> mir_block \<Rightarrow> reg_ref set" where
  "live_out_of lv b = (case m_liveOut lv (mb_id b) of Some xs \<Rightarrow> set xs | None \<Rightarrow> {})"

lemma build_block_edges:
  assumes "igraph_wf (bs_graph s)"
  shows "igraph_wf (bs_graph (build_block t cc isDAlloc lv b s))"
    "y \<in> set (neighbors (bs_graph (build_block t cc isDAlloc lv b s)) x) \<longleftrightarrow>
      y \<in> set (neighbors (bs_graph s) x) \<or>
      (\<exists>k < length (mb_insts b). inst_edge t cc (mb_insts b ! k) (live_after (mb_insts b) (live_out_of lv b) k) x y)"
proof -
  let ?out = "case m_liveOut lv (mb_id b) of Some xs \<Rightarrow> xs | None \<Rightarrow> []"
  let ?s = "s\<lparr>bs_graph := fold addNode ?out (bs_graph s), bs_live := ?out\<rparr>"
  note a = ig.addsD [OF ig.adds_fold [OF ig.adds_node, where zs = ?out] assms]
  have w: "igraph_wf (bs_graph ?s)" using a(1) by simp
  have o: "set (bs_live ?s) = live_out_of lv b" by (simp add: live_out_of_def split: option.split)
  show "igraph_wf (bs_graph (build_block t cc isDAlloc lv b s))"
    "y \<in> set (neighbors (bs_graph (build_block t cc isDAlloc lv b s)) x) \<longleftrightarrow>
      y \<in> set (neighbors (bs_graph s) x) \<or>
      (\<exists>k < length (mb_insts b). inst_edge t cc (mb_insts b ! k) (live_after (mb_insts b) (live_out_of lv b) k) x y)"
    using build_insts [OF w] a(2) unfolding build_block_def Let_def o by auto
qed

lemma build_blocks_edges:
  assumes "igraph_wf (bs_graph s)"
  shows "igraph_wf (bs_graph (fold (build_block t cc isDAlloc lv) blocks s)) \<and>
    (y \<in> set (neighbors (bs_graph (fold (build_block t cc isDAlloc lv) blocks s)) x) \<longleftrightarrow>
      y \<in> set (neighbors (bs_graph s) x) \<or>
      (\<exists>b \<in> set blocks. \<exists>k < length (mb_insts b).
         inst_edge t cc (mb_insts b ! k) (live_after (mb_insts b) (live_out_of lv b) k) x y))"
  using assms
proof (induction blocks arbitrary: s)
  case (Cons b bs)
  from Cons.IH [OF build_block_edges(1) [OF Cons.prems]] build_block_edges(2) [OF Cons.prems] show ?case
    by auto
qed simp

text \<open>With the liveness result, the scan's live set is liveness at the program point.\<close>

lemma live_after_exact:
  assumes "i < length blocks" "k < length (mb_insts (blocks ! i))"
    and "live_out_of lv (blocks ! i) = {reg. live_at cfg blocks reg i (length (mb_insts (blocks ! i)))}"
  shows "live_after (mb_insts (blocks ! i)) (live_out_of lv (blocks ! i)) k = {reg. live_at cfg blocks reg i (Suc k)}"
  using live_at_block [OF assms(1), of "Suc k"] assms(2,3) by (auto simp: live_after_def)

lemma build_blocks_calls:
  "bs_hasCalls (fold (build_block t cc isDAlloc lv) blocks s) \<longleftrightarrow>
     bs_hasCalls s \<or> (\<exists>b \<in> set blocks. \<exists>i \<in> set (mb_insts b). is_call i)"
proof -
  have insts: "bs_hasCalls (fold (build_inst t cc isDAlloc) insts s) \<longleftrightarrow> bs_hasCalls s \<or> (\<exists>i \<in> set insts. is_call i)"
    for insts s by (induction insts arbitrary: s) (auto simp: build_inst_def Let_def)
  show ?thesis
    by (induction blocks arbitrary: s) (auto simp: build_block_def Let_def insts)
qed

lemma igraph_wf_Nil: "igraph_wf []"
  by (simp add: igraph_wf_def neighbors_def)

lemma interference_graph_edges:
  assumes "distinct (map mb_id blocks)" "\<forall>b \<in> set blocks. fresh_in r (mb_id b)"
    and run: "computeGlobalLiveness regInfo cfg blocks r = Some lv"
  shows "igraph_wf (bs_graph (build_blocks t cc isDAlloc lv blocks [])) \<and>
    (y \<in> set (neighbors (bs_graph (build_blocks t cc isDAlloc lv blocks [])) x) \<longleftrightarrow>
      (\<exists>i < length blocks. \<exists>k < length (mb_insts (blocks ! i)).
         inst_edge t cc (mb_insts (blocks ! i) ! k) {reg. live_at cfg blocks reg i (Suc k)} x y))"
proof -
  let ?s = "\<lparr>bs_graph = [], bs_live = [], bs_hasCalls = False, bs_hasDynamicAllocs = False\<rparr>"
  have out: "live_out_of lv (blocks ! i) = {reg. live_at cfg blocks reg i (length (mb_insts (blocks ! i)))}"
    if "i < length blocks" for i
    using liveness_pass_exact [OF assms(1,2), of regInfo cfg] run that by (auto simp: live_out_of_def)
  have nth: "(\<exists>b \<in> set blocks. P b) \<longleftrightarrow> (\<exists>i < length blocks. P (blocks ! i))" for P
    by (metis in_set_conv_nth)
  have "igraph_wf (bs_graph ?s)" by (simp add: igraph_wf_Nil)
  note e = build_blocks_edges [OF this, of t cc isDAlloc lv blocks y x]
  have "(\<exists>b \<in> set blocks. \<exists>k < length (mb_insts b).
         inst_edge t cc (mb_insts b ! k) (live_after (mb_insts b) (live_out_of lv b) k) x y) \<longleftrightarrow>
      (\<exists>i < length blocks. \<exists>k < length (mb_insts (blocks ! i)).
         inst_edge t cc (mb_insts (blocks ! i) ! k) {reg. live_at cfg blocks reg i (Suc k)} x y)"
    using live_after_exact [OF _ _ out] unfolding nth by (simp cong: conj_cong)
  moreover have "set (neighbors (bs_graph ?s) x) = {}" by (simp add: neighbors_def)
  ultimately show ?thesis using e by (simp add: build_blocks_def)
qed

text \<open>Every register an instruction reads or writes is a node.\<close>

lemma grows_interfere: "ig.grows (interfere_with t live r) {r}"
proof -
  have "ig.grows (\<lambda>g. if r \<noteq> l \<and> may_share t r l then add_interference r l g else g) {}" for l
    by (rule ig.grows_if) (rule ig.grows_edge, simp)
  note f = ig.grows_fold [OF this, where zs = live]
  show ?thesis
    by (rule ig.grows_mono [OF ig.grows_comp [OF ig.grows_node f]]) (auto simp: interfere_with_def)
qed

lemma grows_two_address: "ig.grows (two_address i) {}"
proof (cases "length (getDefinedRegisters i) = 1 \<and> length (mi_operands i) \<ge> 3")
  case True
  let ?d = "hd (getDefinedRegisters i)"
  have "ig.grows (\<lambda>g. case op of Some (OpReg src) \<Rightarrow> if ?d \<noteq> src then add_interference ?d src g else g | _ \<Rightarrow> g) {}" for op
  proof (cases "\<exists>src. op = Some (OpReg src)")
    case True
    then obtain src where s: "op = Some (OpReg src)" by blast
    show ?thesis
      by (rule ig.grows_mono [OF ig.grows_if [OF ig.grows_edge, of "?d \<noteq> src" ?d src]]) (simp_all add: s)
  next
    case False
    show ?thesis
      by (rule ig.grows_mono [OF ig.grows_id]) (use False in \<open>auto split: option.split mir_operand.split\<close>)
  qed
  from ig.grows_fold [OF this, where zs = "drop 2 (mi_operands i)"] show ?thesis
    by (rule ig.grows_mono, unfold two_address_def Let_def if_P [OF True]) simp_all
next
  case False
  show ?thesis
    by (rule ig.grows_mono [OF ig.grows_id]) (use False in \<open>auto simp: two_address_def Let_def\<close>)
qed

definition touched :: "calling_conv option \<Rightarrow> mir_inst \<Rightarrow> reg_ref set" where
  "touched cc i = writes cc i \<union> set (getUsedRegisters i)"

lemma build_inst_nodes:
  assumes "igraph_wf (bs_graph s)"
  shows "igraph_nodes (bs_graph s) \<union> touched cc i \<subseteq> igraph_nodes (bs_graph (build_inst t cc isDAlloc i s))"
proof -
  have "ig.grows (\<lambda>g. fold addNode (getUsedRegisters i) (two_address i
      (fold (interfere_with t (bs_live s)) (clobbers cc i @ getDefinedRegisters i) g))) (touched cc i)"
    by (rule ig.grows_mono [OF ig.grows_comp [OF ig.grows_comp [OF ig.grows_fold [OF grows_interfere] grows_two_address]
            ig.grows_fold [OF ig.grows_node]] _ refl])
      (auto simp: touched_def writes_def)
  from ig.growsD [OF this assms] show ?thesis unfolding build_inst_graph by blast
qed

lemma build_insts_nodes:
  assumes "igraph_wf (bs_graph s)"
  shows "igraph_nodes (bs_graph s) \<union> (\<Union>i \<in> set insts. touched cc i) \<subseteq>
    igraph_nodes (bs_graph (fold (build_inst t cc isDAlloc) insts s))"
  using assms
proof (induction insts arbitrary: s)
  case (Cons i insts)
  have "igraph_nodes (bs_graph (build_inst t cc isDAlloc i s)) \<union> (\<Union>i \<in> set insts. touched cc i) \<subseteq>
      igraph_nodes (bs_graph (fold (build_inst t cc isDAlloc) insts (build_inst t cc isDAlloc i s)))"
    by (rule Cons.IH [OF build_inst_edges(1) [OF Cons.prems]])
  moreover have "igraph_nodes (bs_graph s) \<union> touched cc i \<subseteq> igraph_nodes (bs_graph (build_inst t cc isDAlloc i s))"
    by (rule build_inst_nodes [OF Cons.prems])
  ultimately show ?case unfolding fold_simps list.set UN_insert by blast
qed simp

lemma build_block_nodes:
  assumes "igraph_wf (bs_graph s)"
  shows "igraph_nodes (bs_graph s) \<union> live_out_of lv b \<union> (\<Union>i \<in> set (mb_insts b). touched cc i) \<subseteq>
    igraph_nodes (bs_graph (build_block t cc isDAlloc lv b s))"
proof -
  let ?out = "case m_liveOut lv (mb_id b) of Some xs \<Rightarrow> xs | None \<Rightarrow> []"
  let ?s = "s\<lparr>bs_graph := fold addNode ?out (bs_graph s), bs_live := ?out\<rparr>"
  have w: "igraph_wf (bs_graph ?s)" "igraph_nodes (bs_graph s) \<union> set ?out \<subseteq> igraph_nodes (bs_graph ?s)"
    using ig.growsD [OF ig.grows_fold [where f = addNode and V = "\<lambda>v. {v}" and zs = ?out, OF ig.grows_node] assms] by auto
  have "live_out_of lv b = set ?out" by (simp add: live_out_of_def split: option.split)
  then show ?thesis
    using w(2) build_insts_nodes [OF w(1), of cc "rev (mb_insts b)" t isDAlloc]
    unfolding build_block_def Let_def set_rev by blast
qed

lemma build_blocks_nodes:
  assumes "igraph_wf (bs_graph s)"
  shows "igraph_nodes (bs_graph s) \<union> (\<Union>b \<in> set blocks. live_out_of lv b \<union> (\<Union>i \<in> set (mb_insts b). touched cc i)) \<subseteq>
    igraph_nodes (bs_graph (fold (build_block t cc isDAlloc lv) blocks s))"
  using assms
proof (induction blocks arbitrary: s)
  case (Cons b bs)
  have "igraph_nodes (bs_graph (build_block t cc isDAlloc lv b s)) \<union>
      (\<Union>b \<in> set bs. live_out_of lv b \<union> (\<Union>i \<in> set (mb_insts b). touched cc i)) \<subseteq>
      igraph_nodes (bs_graph (fold (build_block t cc isDAlloc lv) bs (build_block t cc isDAlloc lv b s)))"
    by (rule Cons.IH [OF build_block_edges(1) [OF Cons.prems]])
  moreover have "igraph_nodes (bs_graph s) \<union> live_out_of lv b \<union> (\<Union>i \<in> set (mb_insts b). touched cc i) \<subseteq>
      igraph_nodes (bs_graph (build_block t cc isDAlloc lv b s))"
    by (rule build_block_nodes [OF Cons.prems])
  ultimately show ?case unfolding fold_simps list.set UN_insert by blast
qed simp

lemma interference_graph_nodes:
  assumes "b \<in> set blocks" "i \<in> set (mb_insts b)" "r \<in> touched cc i"
  shows "has_node (bs_graph (build_blocks t cc isDAlloc lv blocks [])) r"
  using build_blocks_nodes [of "\<lparr>bs_graph = [], bs_live = [], bs_hasCalls = False, bs_hasDynamicAllocs = False\<rparr>"
      lv cc blocks t isDAlloc] assms
  unfolding build_blocks_def has_node_iff by (simp add: igraph_wf_Nil) blast

section \<open>Properties\<close>

text \<open>C4: The interference graph built from the pass's own liveness result is a well-formed
  undirected graph without loops, and its edges are exact: two registers are neighbours exactly
  when somewhere in the function one of them is written (or clobbered by a call) while the
  other is live afterwards and their banks may share registers, or one is a late source of a
  three-operand instruction that writes only the other. The call flag is set exactly when the
  function contains a call.\<close>

theorem interference_graph_exact:
  assumes "distinct (map mb_id blocks)" "\<forall>b \<in> set blocks. fresh_in r (mb_id b)"
    and "computeGlobalLiveness regInfo cfg blocks r = Some lv"
    and "s = build_blocks t cc isDAlloc lv blocks []"
  shows "igraph_wf (bs_graph s) \<and>
    (y \<in> set (neighbors (bs_graph s) x) \<longleftrightarrow>
      (\<exists>i < length blocks. \<exists>k < length (mb_insts (blocks ! i)).
         inst_edge t cc (mb_insts (blocks ! i) ! k) {reg. live_at cfg blocks reg i (Suc k)} x y)) \<and>
    (bs_hasCalls s \<longleftrightarrow> (\<exists>b \<in> set blocks. \<exists>i \<in> set (mb_insts b). is_call i))"
  using interference_graph_edges [OF assms(1-3)] build_blocks_calls
  unfolding assms(4) by (simp add: build_blocks_def)

theorem interference_graph_exact_witness:
  "\<exists>lv. computeGlobalLiveness None cfr_empty
      [\<lparr>mb_id = 2, mb_insts = [sample_inst [OpReg (VReg 7)] [Write] 0, sample_inst [OpReg (VReg 8)] [Write] 0,
         sample_inst [OpReg (VReg 7)] [Read] 0]\<rparr>] empty_liveness = Some lv \<and>
    VReg 7 \<in> set (neighbors (bs_graph (build_blocks \<lparr>tr_bank = \<lambda>_. None, tr_regs = \<lambda>_. [], tr_bankClasses = \<lambda>_. [],
        tr_vclass = \<lambda>_. None\<rparr> None (\<lambda>_. False) lv
      [\<lparr>mb_id = 2, mb_insts = [sample_inst [OpReg (VReg 7)] [Write] 0, sample_inst [OpReg (VReg 8)] [Write] 0,
         sample_inst [OpReg (VReg 7)] [Read] 0]\<rparr>] [])) (VReg 8))"
proof -
  let ?b = "[\<lparr>mb_id = 2, mb_insts = [sample_inst [OpReg (VReg 7)] [Write] 0, sample_inst [OpReg (VReg 8)] [Write] 0,
         sample_inst [OpReg (VReg 7)] [Read] 0]\<rparr>]"
  let ?t = "\<lparr>tr_bank = \<lambda>_. None, tr_regs = \<lambda>_. [], tr_bankClasses = \<lambda>_. [], tr_vclass = \<lambda>_. None\<rparr>"
  have h: "distinct (map mb_id ?b)" "\<forall>b \<in> set ?b. fresh_in empty_liveness (mb_id b)"
    by (simp_all add: fresh_in_def empty_liveness_def)
  from liveness_pass_exact [OF h, of None cfr_empty] obtain lv where
    lv: "computeGlobalLiveness None cfr_empty ?b empty_liveness = Some lv" by blast
  have live: "live_at cfr_empty ?b (VReg 7) 0 2" by (rule live_at.used) simp_all
  have "inst_edge ?t None (sample_inst [OpReg (VReg 8)] [Write] 0) {reg. live_at cfr_empty ?b reg 0 2} (VReg 8) (VReg 7)"
    unfolding inst_edge_def
    by (intro disjI1 bexI [of _ "VReg 8"] bexI [of _ "VReg 7"])
      (use live in \<open>simp_all add: writes_def may_share_def getBank_def insert_commute\<close>)
  then have "\<exists>i < length ?b. \<exists>k < length (mb_insts (?b ! i)).
      inst_edge ?t None (mb_insts (?b ! i) ! k) {reg. live_at cfr_empty ?b reg i (Suc k)} (VReg 8) (VReg 7)"
    by (intro exI [of _ 0] conjI exI [of _ 1]) (simp_all add: numeral_2_eq_2)
  then show ?thesis
    using interference_graph_exact [OF h lv refl, where t = ?t and cc = None and isDAlloc = "\<lambda>_. False" and y = "VReg 7" and x = "VReg 8"] lv by blast
qed

end
