(* ===== verification/RegColor.thy ===== *)
theory RegColor
  imports InterferenceGraph
begin

text \<open>
  Simplification and colouring of the register allocator
  (EzTriple/src/RegisterAllocator/MirRegisterAllocator.cpp: \<open>evaluateInterferenceGraphDegree\<close>,
  \<open>simplify\<close>, \<open>selectColors\<close>, \<open>calculateSpillCost\<close>, and \<open>getCoalescedLeader\<close> of
  RegisterAllocatorCtx). The context is a record of the fields of the code's context. Stacks
  and work queues that the code pushes and pops at the back have their back at the head of the
  list. The comparison of the two floating-point cost ratios is an argument.
\<close>

section \<open>The context\<close>

record ra_ctx =
  m_iGraph :: igraph
  m_selectStack :: "reg_ref list"
  m_removedNodes :: "reg_ref set"
  m_reservedRegs :: "reg_ref set"
  m_allocatedRegs :: "reg_ref \<rightharpoonup> reg_ref"
  m_degree :: "(reg_ref \<times> nat) list"
  m_unspillableRegs :: "reg_ref set"
  m_coalescedRegs :: "reg_ref \<rightharpoonup> reg_ref"
  m_affinity :: "reg_ref \<rightharpoonup> reg_ref list"
  m_physRegUses :: "reg_ref list"

definition size_max :: nat where
  "size_max = 2 ^ 64 - 1"

text \<open>The representative of a coalesced register: the loop of the code, \<open>None\<close> if it cycles.\<close>

partial_function (option) getCoalescedLeader :: "(reg_ref \<rightharpoonup> reg_ref) \<Rightarrow> reg_ref \<Rightarrow> reg_ref option" where
  "getCoalescedLeader m r =
     (case m r of None \<Rightarrow> Some r | Some s \<Rightarrow> if s = r then Some r else getCoalescedLeader m s)"

text \<open>The number of registers of a class that are not reserved.\<close>

definition color_limit :: "target_regs \<Rightarrow> reg_ref set \<Rightarrow> nat option \<Rightarrow> nat" where
  "color_limit t res c =
     (case c of None \<Rightarrow> 0 | Some k \<Rightarrow> length (filter (\<lambda>n. PReg (Some k) n \<notin> res) (tr_regs t k)))"

section \<open>Degrees and costs\<close>

definition eval_node :: "reg_ref \<times> reg_ref list \<Rightarrow> ra_ctx \<Rightarrow> ra_ctx" where
  "eval_node nn c =
     (case nn of (node, ns) \<Rightarrow>
        if isPhysical node then
          c\<lparr>m_degree := AList.update node size_max (m_degree c),
            m_allocatedRegs := (m_allocatedRegs c)(node \<mapsto> node),
            m_removedNodes := m_removedNodes c - {node}\<rparr>
        else c\<lparr>m_degree := AList.update node (length ns) (m_degree c)\<rparr>)"

definition evaluateInterferenceGraphDegree :: "ra_ctx \<Rightarrow> ra_ctx" where
  "evaluateInterferenceGraphDegree c = fold eval_node (m_iGraph c) (c\<lparr>m_degree := []\<rparr>)"

definition degree_of :: "ra_ctx \<Rightarrow> reg_ref \<Rightarrow> nat" where
  "degree_of c r = (case map_of (m_degree c) r of Some d \<Rightarrow> d | None \<Rightarrow> 0)"

text \<open>Definitions and uses of a register in the function.\<close>

definition spill_cost :: "mir_block list \<Rightarrow> reg_ref \<Rightarrow> nat" where
  "spill_cost blocks r =
     sum_list (map (\<lambda>b. sum_list (map (\<lambda>i. length (filter (\<lambda>x. x = r) (getUsedRegisters i)) +
                                       length (filter (\<lambda>x. x = r) (getDefinedRegisters i))) (mb_insts b))) blocks)"

section \<open>Simplification\<close>

definition swap_remove :: "nat \<Rightarrow> 'a list \<Rightarrow> 'a list" where
  "swap_remove i xs = butlast (xs[i := last xs])"

lemma length_swap_remove [simp]: "length (swap_remove i xs) = length xs - 1"
  by (simp add: swap_remove_def)

text \<open>The scan of the spill candidates: removed nodes are dropped, the first node with the
  smallest cost ratio wins.\<close>

function pick_spill ::
  "((nat \<times> nat) \<Rightarrow> (nat \<times> nat) \<Rightarrow> bool) \<Rightarrow> (reg_ref \<Rightarrow> nat) \<Rightarrow> ra_ctx \<Rightarrow> reg_ref list \<Rightarrow> nat \<Rightarrow>
   ((nat \<times> nat) \<times> nat) option \<Rightarrow> reg_ref list \<times> nat option" where
  "pick_spill lt cost c xs i best =
     (if i < length xs then
        (if xs ! i \<in> m_removedNodes c then pick_spill lt cost c (swap_remove i xs) i best
         else
           let ratio = (cost (xs ! i), max 1 (degree_of c (xs ! i)));
               better = (case best of None \<Rightarrow> True | Some (m, _) \<Rightarrow> lt ratio m)
           in pick_spill lt cost c xs (Suc i) (if better then Some (ratio, i) else best))
      else (xs, map_option snd best))"
  by pat_completeness auto

termination by (relation "measure (\<lambda>(lt, cost, c, xs, i, best). length xs - i)") auto

declare pick_spill.simps [simp del]

text \<open>The state of the loop: the context, the queue of low-degree nodes and the spill
  candidates.\<close>

type_synonym simplify_state = "ra_ctx \<times> reg_ref list \<times> reg_ref list"

definition choose_candidate ::
  "((nat \<times> nat) \<Rightarrow> (nat \<times> nat) \<Rightarrow> bool) \<Rightarrow> (reg_ref \<Rightarrow> nat) \<Rightarrow> simplify_state \<Rightarrow> reg_ref \<times> reg_ref list \<times> reg_ref list" where
  "choose_candidate lt cost st =
     (case st of (c, queue, cands) \<Rightarrow>
        case dropWhile (\<lambda>n. n \<in> m_removedNodes c) queue of
          n # q \<Rightarrow> (n, q, cands)
        | [] \<Rightarrow>
            (case pick_spill lt cost c cands 0 None of
               (xs, Some b) \<Rightarrow> (xs ! b, [], swap_remove b xs)
             | (xs, None) \<Rightarrow>
                 (case find (\<lambda>n. isVirtual n \<and> n \<notin> m_removedNodes c) (map fst (m_iGraph c)) of
                    Some n \<Rightarrow> (n, [], xs)
                  | None \<Rightarrow> (VReg MIRID_INVALID, [], xs))))"

definition relax_neighbor :: "target_regs \<Rightarrow> reg_ref \<Rightarrow> ra_ctx \<times> reg_ref list \<Rightarrow> ra_ctx \<times> reg_ref list" where
  "relax_neighbor t n st =
     (case st of (c, queue) \<Rightarrow>
        if isVirtual n \<and> n \<notin> m_removedNodes c \<and> degree_of c n > 0 \<and> degree_of c n \<noteq> size_max then
          (let oldDeg = degree_of c n;
               limit = color_limit t (m_reservedRegs c) (getClass t n)
           in (c\<lparr>m_degree := AList.update n (oldDeg - 1) (m_degree c)\<rparr>,
               if oldDeg = limit \<and> oldDeg - 1 < limit then n # queue else queue))
        else (c, queue))"

definition simplify_step ::
  "((nat \<times> nat) \<Rightarrow> (nat \<times> nat) \<Rightarrow> bool) \<Rightarrow> target_regs \<Rightarrow> (reg_ref \<Rightarrow> nat) \<Rightarrow> simplify_state \<Rightarrow> simplify_state" where
  "simplify_step lt t cost st =
     (let (cand, queue, cands) = choose_candidate lt cost st;
          c = fst st;
          c1 = c\<lparr>m_removedNodes := insert cand (m_removedNodes c), m_selectStack := cand # m_selectStack c,
                 m_iGraph := addNode cand (m_iGraph c)\<rparr>;
          (c2, queue2) = fold (relax_neighbor t) (neighbors (m_iGraph c1) cand) (c1, queue)
      in (c2, queue2, cands))"

definition virtual_nodes :: "igraph \<Rightarrow> reg_ref list" where
  "virtual_nodes g = filter isVirtual (map fst g)"

text \<open>Every round pushes one node, so the loop \<open>while (stack.size() < total)\<close> runs the missing
  number of rounds. \<open>None\<close> is the error for a virtual register without a class.\<close>

definition simplify ::
  "((nat \<times> nat) \<Rightarrow> (nat \<times> nat) \<Rightarrow> bool) \<Rightarrow> target_regs \<Rightarrow> (reg_ref \<Rightarrow> nat) \<Rightarrow> ra_ctx \<Rightarrow> ra_ctx option" where
  "simplify lt t cost c =
     (let total = length (virtual_nodes (m_iGraph c)) in
      if \<exists>n \<in> set (virtual_nodes (m_iGraph c)). getClass t n = None then None
      else
        let queue = rev (map fst (filter (\<lambda>(n, d). isVirtual n \<and> d < color_limit t (m_reservedRegs c) (getClass t n)) (m_degree c)));
            cands = filter (\<lambda>n. n \<notin> m_unspillableRegs c) (virtual_nodes (m_iGraph c))
        in Some (fst ((simplify_step lt t cost ^^ (total - length (m_selectStack c))) (c, queue, cands))))"

section \<open>Colouring\<close>

definition markUsed :: "nat \<Rightarrow> nat set \<Rightarrow> nat set" where
  "markUsed n used = (if n < 64 then insert n used else used)"

definition isUsed :: "nat set \<Rightarrow> nat \<Rightarrow> bool" where
  "isUsed used n \<longleftrightarrow> n < 64 \<and> n \<in> used"

definition isSameBank :: "target_regs \<Rightarrow> nat option \<Rightarrow> nat option \<Rightarrow> bool" where
  "isSameBank t c1 c2 \<longleftrightarrow> (case c1 of None \<Rightarrow> True | Some a \<Rightarrow> (case c2 of None \<Rightarrow> True | Some b \<Rightarrow> tr_bank t a = tr_bank t b))"

definition lock_reserved :: "target_regs \<Rightarrow> ra_ctx \<Rightarrow> nat \<Rightarrow> nat set" where
  "lock_reserved t c cls =
     fold (\<lambda>n used. if PReg (Some cls) n \<in> m_reservedRegs c then markUsed n used else used) (tr_regs t cls) {}"

definition lock_neighbor :: "target_regs \<Rightarrow> ra_ctx \<Rightarrow> nat \<Rightarrow> reg_ref \<Rightarrow> nat set \<Rightarrow> nat set" where
  "lock_neighbor t c cls n used =
     (if n \<in> m_removedNodes c then used
      else if isPhysical n then
        (if isSameBank t (getClass t n) (Some cls) then markUsed (reg_id n) used else used)
      else
        (case m_allocatedRegs c n of
           None \<Rightarrow> used
         | Some p \<Rightarrow> if isSameBank t (getClass t p) (Some cls) then markUsed (reg_id p) used else used))"

definition used_colors :: "target_regs \<Rightarrow> ra_ctx \<Rightarrow> nat \<Rightarrow> reg_ref \<Rightarrow> nat set" where
  "used_colors t c cls node = fold (lock_neighbor t c cls) (neighbors (m_iGraph c) node) (lock_reserved t c cls)"

text \<open>The colour of an affinity partner, when it is of the node's class and free.\<close>

fun affinity_color :: "target_regs \<Rightarrow> ra_ctx \<Rightarrow> nat \<Rightarrow> nat set \<Rightarrow> reg_ref list \<Rightarrow> reg_ref option option" where
  "affinity_color t c cls used [] = Some None"
| "affinity_color t c cls used (p # ps) =
     (case getCoalescedLeader (m_coalescedRegs c) p of
        None \<Rightarrow> None
      | Some leader \<Rightarrow>
          (case (if isPhysical leader then Some leader else m_allocatedRegs c leader) of
             Some pref \<Rightarrow>
               if isPhysical pref \<and> getClass t pref = Some cls \<and> \<not> isUsed used (reg_id pref) then Some (Some pref)
               else affinity_color t c cls used ps
           | None \<Rightarrow> affinity_color t c cls used ps))"

definition first_free :: "target_regs \<Rightarrow> nat \<Rightarrow> nat set \<Rightarrow> reg_ref option" where
  "first_free t cls used = map_option (PReg (Some cls)) (find (\<lambda>n. \<not> isUsed used n) (tr_regs t cls))"

definition choose_color :: "target_regs \<Rightarrow> ra_ctx \<Rightarrow> nat \<Rightarrow> reg_ref \<Rightarrow> reg_ref option option" where
  "choose_color t c cls node =
     (let used = used_colors t c cls node in
      case affinity_color t c cls used (case m_affinity c node of Some ps \<Rightarrow> ps | None \<Rightarrow> []) of
        None \<Rightarrow> None
      | Some (Some p) \<Rightarrow> Some (Some p)
      | Some None \<Rightarrow> Some (first_free t cls used))"

text \<open>A callee-saved register that gets used is recorded on the function.\<close>

definition note_callee_saved :: "target_regs \<Rightarrow> calling_conv option \<Rightarrow> nat option \<Rightarrow> reg_ref \<Rightarrow> ra_ctx \<Rightarrow> ra_ctx" where
  "note_callee_saved t cc cls phys c =
     (case cc of
        None \<Rightarrow> c
      | Some conv \<Rightarrow>
          (case find (\<lambda>reg. isSamePhysReg t reg phys) (cc_calleeSaved conv cls) of
             None \<Rightarrow> c
           | Some reg \<Rightarrow> c\<lparr>m_physRegUses := set_insert reg (m_physRegUses c)\<rparr>))"

datatype select_result =
    SelectOk ra_ctx
  | SelectSpill "reg_ref list" ra_ctx
  | SelectUnspillable reg_ref ra_ctx
  | SelectNoClass reg_ref

text \<open>The loop over the stack; \<open>None\<close> is a leader chain that cycles.\<close>

fun select_loop ::
  "target_regs \<Rightarrow> calling_conv option \<Rightarrow> reg_ref list \<Rightarrow> reg_ref list \<Rightarrow> ra_ctx \<Rightarrow> select_result option" where
  "select_loop t cc [] spilled c =
     Some (if spilled = [] then SelectOk (c\<lparr>m_selectStack := []\<rparr>) else SelectSpill spilled (c\<lparr>m_selectStack := []\<rparr>))"
| "select_loop t cc (node # stack) spilled c =
     (case getClass t node of
        None \<Rightarrow> Some (SelectNoClass node)
      | Some cls \<Rightarrow>
          (case choose_color t c cls node of
             None \<Rightarrow> None
           | Some (Some phys) \<Rightarrow>
               (let c1 = note_callee_saved t cc (Some cls) phys c
                in select_loop t cc stack spilled
                     (c1\<lparr>m_allocatedRegs := (m_allocatedRegs c1)(node \<mapsto> phys),
                         m_removedNodes := m_removedNodes c1 - {node}\<rparr>))
           | Some None \<Rightarrow>
               if node \<in> m_unspillableRegs c then Some (SelectUnspillable node (c\<lparr>m_selectStack := stack\<rparr>))
               else select_loop t cc stack (set_insert node spilled) c))"

definition selectColors :: "target_regs \<Rightarrow> calling_conv option \<Rightarrow> ra_ctx \<Rightarrow> select_result option" where
  "selectColors t cc c = select_loop t cc (m_selectStack c) [] c"

section \<open>Rewriting\<close>

definition rewrite_ref :: "ra_ctx \<Rightarrow> reg_ref \<Rightarrow> reg_ref option" where
  "rewrite_ref c r =
     (if \<not> isVirtual r then Some r
      else
        case getCoalescedLeader (m_coalescedRegs c) r of
          None \<Rightarrow> None
        | Some leader \<Rightarrow>
            if isPhysical leader then Some leader
            else (case m_allocatedRegs c leader of Some p \<Rightarrow> Some p | None \<Rightarrow> Some r))"


section \<open>Leaders\<close>

definition acyclic_leaders :: "(reg_ref \<rightharpoonup> reg_ref) \<Rightarrow> bool" where
  "acyclic_leaders m \<longleftrightarrow> (\<exists>rank :: reg_ref \<Rightarrow> nat. \<forall>v u. m v = Some u \<and> u \<noteq> v \<longrightarrow> rank u < rank v)"

definition is_leader :: "(reg_ref \<rightharpoonup> reg_ref) \<Rightarrow> reg_ref \<Rightarrow> bool" where
  "is_leader m r \<longleftrightarrow> m r = None \<or> m r = Some r"

lemma leader_self: "is_leader m r \<Longrightarrow> getCoalescedLeader m r = Some r"
  by (subst getCoalescedLeader.simps) (auto simp: is_leader_def)

lemma leader_next: "m r = Some s \<Longrightarrow> s \<noteq> r \<Longrightarrow> getCoalescedLeader m r = getCoalescedLeader m s"
  by (subst getCoalescedLeader.simps) simp

lemma leader_cases: "is_leader m r \<or> (\<exists>s. m r = Some s \<and> s \<noteq> r)"
  by (cases "m r") (auto simp: is_leader_def)

lemma leader_returns:
  assumes "acyclic_leaders m"
  shows "\<exists>l. getCoalescedLeader m r = Some l \<and> is_leader m l"
proof -
  obtain rank :: "reg_ref \<Rightarrow> nat" where rank: "\<And>v u. m v = Some u \<Longrightarrow> u \<noteq> v \<Longrightarrow> rank u < rank v"
    using assms unfolding acyclic_leaders_def by blast
  show ?thesis
  proof (induction "rank r" arbitrary: r rule: less_induct)
    case less
    from leader_cases [of m r] show ?case
    proof (elim disjE exE conjE)
      fix s assume s: "m r = Some s" "s \<noteq> r"
      from less [OF rank [OF s]] show ?thesis by (simp add: leader_next [of m r s, OF s])
    qed (use leader_self in blast)
  qed
qed

lemma acyclic_empty: "acyclic_leaders Map.empty"
  by (simp add: acyclic_leaders_def)

section \<open>Evaluation of degrees\<close>

lemma set_keys_update: "fst ` set (AList.update k v al) = insert k (fst ` set al)"
proof -
  have "set (map fst (AList.update k v al)) = insert k (set (map fst al))"
    unfolding update_keys by auto
  then show ?thesis by simp
qed

lemma eval_fold:
  "\<exists>D. fold eval_node g c = c\<lparr>m_degree := D,
     m_allocatedRegs := (\<lambda>v. if isPhysical v \<and> v \<in> fst ` set g then Some v else m_allocatedRegs c v),
     m_removedNodes := m_removedNodes c - {v \<in> fst ` set g. isPhysical v}\<rparr> \<and>
   fst ` set D = fst ` set (m_degree c) \<union> fst ` set g"
proof (induction g arbitrary: c)
  case Nil
  show ?case by (intro exI [of _ "m_degree c"]) simp
next
  case (Cons nn g)
  obtain n ns where nn: "nn = (n, ns)" by (cases nn)
  obtain D where D: "fold eval_node g (eval_node nn c) = (eval_node nn c)\<lparr>m_degree := D,
     m_allocatedRegs := (\<lambda>v. if isPhysical v \<and> v \<in> fst ` set g then Some v else m_allocatedRegs (eval_node nn c) v),
     m_removedNodes := m_removedNodes (eval_node nn c) - {v \<in> fst ` set g. isPhysical v}\<rparr>"
    "fst ` set D = fst ` set (m_degree (eval_node nn c)) \<union> fst ` set g"
    using Cons.IH by blast
  have k: "fst ` set (m_degree (eval_node nn c)) = insert n (fst ` set (m_degree c))"
    by (simp add: eval_node_def nn set_keys_update)
  have eq: "(eval_node nn c)\<lparr>m_degree := D,
     m_allocatedRegs := (\<lambda>v. if isPhysical v \<and> v \<in> fst ` set g then Some v else m_allocatedRegs (eval_node nn c) v),
     m_removedNodes := m_removedNodes (eval_node nn c) - {v \<in> fst ` set g. isPhysical v}\<rparr> =
    c\<lparr>m_degree := D,
     m_allocatedRegs := (\<lambda>v. if isPhysical v \<and> v \<in> fst ` set (nn # g) then Some v else m_allocatedRegs c v),
     m_removedNodes := m_removedNodes c - {v \<in> fst ` set (nn # g). isPhysical v}\<rparr>"
    by (auto simp: eval_node_def nn fun_eq_iff intro!: ra_ctx.equality)
  show ?case
    using D k eq by (intro exI [of _ D]) (simp add: nn)
qed

section \<open>Simplification stacks every virtual node once\<close>

lemma set_swap_remove: "set (swap_remove i xs) \<subseteq> set xs"
proof (cases "xs = []")
  case False
  have "set (swap_remove i xs) \<subseteq> set (xs[i := last xs])"
    unfolding swap_remove_def by (meson in_set_butlastD subsetI)
  also have "\<dots> \<subseteq> set xs" using False by (simp add: set_update_subsetI)
  finally show ?thesis .
qed (simp add: swap_remove_def)

lemma nth_swap_remove: "j < i \<Longrightarrow> i < length xs \<Longrightarrow> swap_remove i xs ! j = xs ! j"
  by (simp add: swap_remove_def nth_butlast)

lemma pick_spill_correct:
  assumes "i \<le> length xs" "\<And>m j. best = Some (m, j) \<Longrightarrow> j < i \<and> xs ! j \<notin> m_removedNodes c"
    and "pick_spill lt cost c xs i best = (ys, r)"
  shows "set ys \<subseteq> set xs \<and> (\<forall>b. r = Some b \<longrightarrow> b < length ys \<and> ys ! b \<notin> m_removedNodes c)"
  using assms
proof (induction lt cost c xs i best rule: pick_spill.induct)
  case (1 lt cost c xs i best)
  show ?case
  proof (cases "i < length xs")
    case False
    then show ?thesis using 1(3-5) by (force simp: pick_spill.simps [of _ _ _ xs])
  next
    case i: True
    show ?thesis
    proof (cases "xs ! i \<in> m_removedNodes c")
      case True
      then have "pick_spill lt cost c (swap_remove i xs) i best = (ys, r)"
        using 1(5) i by (simp add: pick_spill.simps [of _ _ _ xs])
      moreover have "j < i \<Longrightarrow> swap_remove i xs ! j = xs ! j" for j by (rule nth_swap_remove [OF _ i])
      ultimately have "set ys \<subseteq> set (swap_remove i xs) \<and> (\<forall>b. r = Some b \<longrightarrow> b < length ys \<and> ys ! b \<notin> m_removedNodes c)"
        using 1(1) [OF i True] 1(4) i by simp
      then show ?thesis using set_swap_remove by fast
    next
      case False
      define ratio where "ratio = (cost (xs ! i), max 1 (degree_of c (xs ! i)))"
      define better where "better = (case best of None \<Rightarrow> True | Some (m, _) \<Rightarrow> lt ratio m)"
      have e: "pick_spill lt cost c xs (Suc i) (if better then Some (ratio, i) else best) = (ys, r)"
        using 1(5) i False unfolding better_def ratio_def
        by (subst (asm) pick_spill.simps) (simp add: Let_def del: One_nat_def)
      have b: "(if better then Some (ratio, i) else best) = Some (m, j) \<Longrightarrow> j < Suc i \<and> xs ! j \<notin> m_removedNodes c" for m j
        using 1(4) False by (auto split: if_splits)
      from 1(2) [OF i False ratio_def better_def _ b e] i show ?thesis by simp
    qed
  qed
qed

text \<open>The invariant of the loop: only the stack, the removed nodes and the degrees have changed;
  the stack holds distinct virtual nodes, exactly those removed so far.\<close>

definition simplify_inv :: "reg_ref set \<Rightarrow> ra_ctx \<Rightarrow> simplify_state \<Rightarrow> bool" where
  "simplify_inv V c0 st \<longleftrightarrow>
     (\<exists>D. fst st = c0\<lparr>m_degree := D, m_selectStack := m_selectStack (fst st),
        m_removedNodes := m_removedNodes c0 \<union> set (m_selectStack (fst st))\<rparr>) \<and>
     distinct (m_selectStack (fst st)) \<and> set (m_selectStack (fst st)) \<subseteq> V \<and>
     set (fst (snd st)) \<subseteq> V \<and> set (snd (snd st)) \<subseteq> V"

lemma choose_candidate_correct:
  assumes V: "V = set (virtual_nodes (m_iGraph c))" and some: "\<exists>v \<in> V. v \<notin> m_removedNodes c"
    and q: "set queue \<subseteq> V" and cs: "set cands \<subseteq> V"
    and ch: "choose_candidate lt cost (c, queue, cands) = (cand, queue', cands')"
  shows "cand \<in> V \<and> cand \<notin> m_removedNodes c \<and> set queue' \<subseteq> V \<and> set cands' \<subseteq> V"
proof (cases "dropWhile (\<lambda>n. n \<in> m_removedNodes c) queue")
  case (Cons n ns)
  have "set (n # ns) \<subseteq> V" using q set_dropWhileD [of _ _ queue] unfolding Cons [symmetric] by blast
  moreover have "n \<notin> m_removedNodes c" using hd_dropWhile [of "\<lambda>n. n \<in> m_removedNodes c" queue] Cons by simp
  ultimately show ?thesis using ch cs by (simp add: choose_candidate_def Cons)
next
  case Nil
  obtain ys r where p: "pick_spill lt cost c cands 0 None = (ys, r)" by (metis surj_pair)
  have ps: "set ys \<subseteq> set cands \<and> (\<forall>b. r = Some b \<longrightarrow> b < length ys \<and> ys ! b \<notin> m_removedNodes c)"
    by (rule pick_spill_correct [OF _ _ p]) simp_all
  show ?thesis
  proof (cases r)
    case (Some b)
    then show ?thesis
      using ch ps cs nth_mem [of b ys] set_swap_remove [of b ys] by (auto simp: choose_candidate_def Nil p)
  next
    case None
    have "\<exists>n. find (\<lambda>n. isVirtual n \<and> n \<notin> m_removedNodes c) (map fst (m_iGraph c)) = Some n"
      using some unfolding V virtual_nodes_def
      by (cases "find (\<lambda>n. isVirtual n \<and> n \<notin> m_removedNodes c) (map fst (m_iGraph c))") (auto simp: find_None_iff)
    then obtain n where n: "find (\<lambda>n. isVirtual n \<and> n \<notin> m_removedNodes c) (map fst (m_iGraph c)) = Some n" by blast
    then have "n \<in> V \<and> n \<notin> m_removedNodes c" unfolding V virtual_nodes_def by (force simp: find_Some_iff in_set_conv_nth)
    then show ?thesis using ch ps cs n None by (auto simp: choose_candidate_def Nil p)
  qed
qed

lemma relax_neighbors_inv:
  assumes "set ns \<subseteq> N" "\<And>n. n \<in> N \<Longrightarrow> isVirtual n \<Longrightarrow> n \<in> V" "set queue \<subseteq> V"
  shows "\<exists>D q. fold (relax_neighbor t) ns (c, queue) = (c\<lparr>m_degree := D\<rparr>, q) \<and> set q \<subseteq> V"
  using assms(1,3)
proof (induction ns arbitrary: c queue)
  case Nil
  show ?case using Nil by (intro exI [of _ "m_degree c"]) simp
next
  case (Cons n ns)
  obtain D q where r: "relax_neighbor t n (c, queue) = (c\<lparr>m_degree := D\<rparr>, q)" and q: "set q \<subseteq> V"
  proof (cases "isVirtual n \<and> n \<notin> m_removedNodes c \<and> degree_of c n > 0 \<and> degree_of c n \<noteq> size_max")
    case True
    then show ?thesis using that Cons.prems assms(2) [of n] by (auto simp: relax_neighbor_def Let_def)
  next
    case False
    then have "relax_neighbor t n (c, queue) = (c\<lparr>m_degree := m_degree c\<rparr>, queue)" by (auto simp: relax_neighbor_def)
    then show ?thesis using that Cons.prems(2) by blast
  qed
  then show ?case using Cons.IH [of q "c\<lparr>m_degree := D\<rparr>"] Cons.prems(1) by auto
qed

lemma simplify_step_inv:
  assumes V: "V = set (virtual_nodes (m_iGraph c0))" and wf: "igraph_wf (m_iGraph c0)"
    and R: "m_removedNodes c0 \<inter> V = {}" and inv: "simplify_inv V c0 st"
    and less: "length (m_selectStack (fst st)) < card V"
  shows "simplify_inv V c0 (simplify_step lt t cost st) \<and>
    length (m_selectStack (fst (simplify_step lt t cost st))) = Suc (length (m_selectStack (fst st)))"
proof -
  obtain c queue cands where st: "st = (c, queue, cands)" by (cases st)
  obtain D where c: "c = c0\<lparr>m_degree := D, m_selectStack := m_selectStack c,
      m_removedNodes := m_removedNodes c0 \<union> set (m_selectStack c)\<rparr>"
    and d: "distinct (m_selectStack c)" and sub: "set (m_selectStack c) \<subseteq> V" "set queue \<subseteq> V" "set cands \<subseteq> V"
    using inv unfolding simplify_inv_def st by auto
  have g: "m_iGraph c = m_iGraph c0" and rem: "m_removedNodes c = m_removedNodes c0 \<union> set (m_selectStack c)"
    by (subst c, simp)+
  have "set (m_selectStack c) \<noteq> V" using less d by (auto simp: st distinct_card)
  then have some: "\<exists>v \<in> V. v \<notin> m_removedNodes c" using sub(1) R rem by blast
  obtain cand queue' cands' where ch: "choose_candidate lt cost (c, queue, cands) = (cand, queue', cands')"
    by (metis prod_cases3)
  have cand: "cand \<in> V" "cand \<notin> m_removedNodes c" "set queue' \<subseteq> V" "set cands' \<subseteq> V"
    using choose_candidate_correct [OF _ some sub(2,3) ch] V g by auto
  have node: "addNode cand (m_iGraph c) = m_iGraph c"
    using cand(1) V g by (auto simp: addNode_def has_node_iff igraph_nodes_def virtual_nodes_def)
  have node0: "addNode cand (m_iGraph c0) = m_iGraph c0" using node unfolding g .
  define c1 where "c1 = c\<lparr>m_removedNodes := insert cand (m_removedNodes c), m_selectStack := cand # m_selectStack c,
      m_iGraph := addNode cand (m_iGraph c)\<rparr>"
  have nb: "n \<in> V" if "n \<in> set (neighbors (m_iGraph c0) cand)" "isVirtual n" for n
  proof -
    have "n \<in> igraph_nodes (m_iGraph c0)" using ig.adj_nodes [OF wf that(1)] by blast
    then show ?thesis using that(2) V by (auto simp: virtual_nodes_def igraph_nodes_def)
  qed
  have "m_iGraph c1 = m_iGraph c0" by (simp add: c1_def node0 g)
  then obtain D' q where f: "fold (relax_neighbor t) (neighbors (m_iGraph c1) cand) (c1, queue') = (c1\<lparr>m_degree := D'\<rparr>, q)"
    and q: "set q \<subseteq> V"
    using relax_neighbors_inv [where N = "set (neighbors (m_iGraph c0) cand)" and t = t and c = c1, OF order_refl nb cand(3)]
    by auto
  then have f2: "fold (relax_neighbor t) (neighbors (m_iGraph c) cand) (c1, queue') = (c1\<lparr>m_degree := D'\<rparr>, q)"
    using g \<open>m_iGraph c1 = m_iGraph c0\<close> by simp
  have step: "simplify_step lt t cost st = (c1\<lparr>m_degree := D'\<rparr>, q, cands')"
    by (simp add: simplify_step_def st ch f2 c1_def [symmetric] Let_def)
  have c1: "c1\<lparr>m_degree := D'\<rparr> = c0\<lparr>m_degree := D', m_selectStack := cand # m_selectStack c,
      m_removedNodes := m_removedNodes c0 \<union> set (cand # m_selectStack c)\<rparr>"
  proof -
    have "c\<lparr>m_removedNodes := R', m_selectStack := s, m_iGraph := m_iGraph c0, m_degree := D'\<rparr> =
        c0\<lparr>m_degree := D', m_selectStack := s, m_removedNodes := R'\<rparr>" for R' s
      by (subst c) simp
    then show ?thesis by (simp add: c1_def rem g node0)
  qed
  show ?thesis
    using cand d sub rem q unfolding step c1 simplify_inv_def by (auto simp: st)
qed


lemma simplify_loop_inv:
  assumes V: "V = set (virtual_nodes (m_iGraph c0))" and wf: "igraph_wf (m_iGraph c0)"
    and R: "m_removedNodes c0 \<inter> V = {}" and inv: "simplify_inv V c0 st" and "m_selectStack (fst st) = []" and "n \<le> card V"
  shows "simplify_inv V c0 ((simplify_step lt t cost ^^ n) st) \<and>
    length (m_selectStack (fst ((simplify_step lt t cost ^^ n) st))) = n"
  using assms(6)
proof (induction n)
  case 0
  then show ?case using assms by simp
next
  case (Suc n)
  then have IH: "simplify_inv V c0 ((simplify_step lt t cost ^^ n) st)"
    "length (m_selectStack (fst ((simplify_step lt t cost ^^ n) st))) = n" by simp_all
  from simplify_step_inv [OF V wf R IH(1)] IH(2) Suc.prems show ?case by simp
qed

lemma distinct_virtual_nodes: "igraph_wf g \<Longrightarrow> distinct (virtual_nodes g)"
  by (simp add: virtual_nodes_def igraph_wf_def)

lemma simplify_correct:
  assumes wf: "igraph_wf (m_iGraph c)" and R: "m_removedNodes c \<inter> set (virtual_nodes (m_iGraph c)) = {}"
    and st: "m_selectStack c = []" and D: "fst ` set (m_degree c) \<subseteq> igraph_nodes (m_iGraph c)"
    and cls: "\<forall>n \<in> set (virtual_nodes (m_iGraph c)). getClass t n \<noteq> None"
  shows "\<exists>D s. simplify lt t cost c = Some (c\<lparr>m_degree := D, m_selectStack := s,
      m_removedNodes := m_removedNodes c \<union> set (virtual_nodes (m_iGraph c))\<rparr>) \<and>
    distinct s \<and> set s = set (virtual_nodes (m_iGraph c))"
proof -
  let ?V = "set (virtual_nodes (m_iGraph c))"
  let ?q = "rev (map fst (filter (\<lambda>(n, d). isVirtual n \<and> d < color_limit t (m_reservedRegs c) (getClass t n)) (m_degree c)))"
  let ?cs = "filter (\<lambda>n. n \<notin> m_unspillableRegs c) (virtual_nodes (m_iGraph c))"
  have card: "card ?V = length (virtual_nodes (m_iGraph c))"
    using distinct_virtual_nodes [OF wf] by (simp add: distinct_card)
  have inv: "simplify_inv ?V c (c, ?q, ?cs)"
    using D st unfolding simplify_inv_def
    by (auto simp: virtual_nodes_def igraph_nodes_def intro!: exI [of _ "m_degree c"])
  define r where "r = (simplify_step lt t cost ^^ card ?V) (c, ?q, ?cs)"
  have "simplify_inv ?V c r \<and> length (m_selectStack (fst r)) = card ?V"
    unfolding r_def using simplify_loop_inv [OF refl wf R inv] st by simp
  then obtain D' where D': "fst r = c\<lparr>m_degree := D', m_selectStack := m_selectStack (fst r),
        m_removedNodes := m_removedNodes c \<union> set (m_selectStack (fst r))\<rparr>"
    and s: "distinct (m_selectStack (fst r))" "set (m_selectStack (fst r)) \<subseteq> ?V" "length (m_selectStack (fst r)) = card ?V"
    unfolding simplify_inv_def by blast
  have eq: "set (m_selectStack (fst r)) = ?V"
    using s by (simp add: card_subset_eq distinct_card)
  have run: "simplify lt t cost c = Some (fst r)"
    using cls st by (simp add: simplify_def r_def card Let_def)
  show ?thesis
    using D' s(1) eq unfolding run by (intro exI [of _ D'] exI [of _ "m_selectStack (fst r)"]) simp
qed

section \<open>Colours of neighbours differ\<close>

text \<open>Two physical registers that share hardware: same number, and banks not known to differ.\<close>

definition phys_conflict :: "target_regs \<Rightarrow> reg_ref \<Rightarrow> reg_ref \<Rightarrow> bool" where
  "phys_conflict t p q \<longleftrightarrow> reg_id p = reg_id q \<and> isSameBank t (getClass t p) (getClass t q)"

definition small_id :: "reg_ref \<Rightarrow> bool" where
  "small_id r \<longleftrightarrow> (isPhysical r \<longrightarrow> reg_id r < 64)"

text \<open>The numbers of all registers the colouring can meet are below 64, the width of the mask.\<close>

definition small_ids :: "target_regs \<Rightarrow> ra_ctx \<Rightarrow> bool" where
  "small_ids t c \<longleftrightarrow>
     (\<forall>v. has_node (m_iGraph c) v \<longrightarrow> small_id v) \<and>
     (\<forall>n cls. n \<in> set (tr_regs t cls) \<longrightarrow> n < 64) \<and>
     (\<forall>v p. m_allocatedRegs c v = Some p \<longrightarrow> small_id p) \<and>
     (\<forall>v ps p l. m_affinity c v = Some ps \<longrightarrow> p \<in> set ps \<longrightarrow> getCoalescedLeader (m_coalescedRegs c) p = Some l \<longrightarrow> small_id l)"

lemma isSameBank_sym: "isSameBank t a b \<longleftrightarrow> isSameBank t b a"
  by (auto simp: isSameBank_def split: option.splits)

lemma markUsed_mono: "used \<subseteq> markUsed n used"
  by (auto simp: markUsed_def)

lemma lock_neighbor_mono: "used \<subseteq> lock_neighbor t c cls n used"
  using markUsed_mono by (auto simp: lock_neighbor_def split: option.splits)

lemma fold_lock_mono: "used \<subseteq> fold (lock_neighbor t c cls) ns used"
proof (induction ns arbitrary: used)
  case (Cons n ns)
  then show ?case using lock_neighbor_mono [of used t c cls n] by fastforce
qed simp

lemma fold_lock_member: "n \<in> set ns \<Longrightarrow> lock_neighbor t c cls n {} \<subseteq> fold (lock_neighbor t c cls) ns used"
proof (induction ns arbitrary: used)
  case (Cons m ns)
  have "lock_neighbor t c cls n {} \<subseteq> lock_neighbor t c cls n used"
    by (auto simp: lock_neighbor_def markUsed_def split: option.splits)
  then show ?case
    using Cons fold_lock_mono [of "lock_neighbor t c cls m used" t c cls ns] by auto
qed simp

lemma affinity_color_free:
  "affinity_color t c cls used ps = Some (Some p) \<Longrightarrow>
     isPhysical p \<and> getClass t p = Some cls \<and> \<not> isUsed used (reg_id p) \<and>
     ((\<exists>q \<in> set ps. getCoalescedLeader (m_coalescedRegs c) q = Some p) \<or> (\<exists>v. m_allocatedRegs c v = Some p))"
  by (induction ps) (auto split: option.splits if_splits)

text \<open>The colour a node gets is a register of its class, free in the mask.\<close>

lemma choose_color_reg:
  assumes ch: "choose_color t c cls node = Some (Some p)" and small: "small_ids t c"
  shows "isPhysical p \<and> getClass t p = Some cls \<and> small_id p \<and> \<not> isUsed (used_colors t c cls node) (reg_id p)"
proof (cases "affinity_color t c cls (used_colors t c cls node) (case m_affinity c node of Some ps \<Rightarrow> ps | None \<Rightarrow> [])")
  case (Some a)
  let ?used = "used_colors t c cls node"
  show ?thesis
  proof (cases a)
    case None
    then have "first_free t cls ?used = Some p" using ch Some by (simp add: choose_color_def Let_def)
    then obtain n where "p = PReg (Some cls) n" "n \<in> set (tr_regs t cls)" "\<not> isUsed ?used n"
      by (auto simp: first_free_def find_Some_iff)
    then show ?thesis using small by (auto simp: small_id_def small_ids_def)
  next
    case (Some b)
    then have "b = p" using ch \<open>affinity_color t c cls ?used _ = Some a\<close> by (simp add: choose_color_def Let_def)
    with Some \<open>affinity_color t c cls ?used _ = Some a\<close>
    have e: "affinity_color t c cls ?used (case m_affinity c node of Some ps \<Rightarrow> ps | None \<Rightarrow> []) = Some (Some p)"
      by simp
    have "small_id p"
      using affinity_color_free [OF e] small unfolding small_ids_def by (cases "m_affinity c node") auto
    then show ?thesis using affinity_color_free [OF e] by simp
  qed
qed (use ch in \<open>simp add: choose_color_def Let_def\<close>)

lemma choose_color_free:
  assumes ch: "choose_color t c cls node = Some (Some p)" and small: "small_ids t c"
    and n: "n \<in> set (neighbors (m_iGraph c) node)" "n \<notin> m_removedNodes c"
    and q: "if isPhysical n then q = n else m_allocatedRegs c n = Some q"
  shows "\<not> phys_conflict t p q"
proof
  note p = choose_color_reg [OF ch small]
  assume conf: "phys_conflict t p q"
  have "isSameBank t (getClass t q) (Some cls)" using conf p isSameBank_sym by (metis phys_conflict_def)
  then have "markUsed (reg_id q) {} \<subseteq> lock_neighbor t c cls n {}"
    using n(2) q by (auto simp: lock_neighbor_def split: if_splits option.splits)
  then have "reg_id q < 64 \<longrightarrow> reg_id q \<in> used_colors t c cls node"
    using fold_lock_member [OF n(1)] unfolding used_colors_def by (fastforce simp: markUsed_def)
  then show False using p conf by (auto simp: phys_conflict_def isUsed_def small_id_def)
qed

text \<open>The invariant of the colouring loop.\<close>

definition select_inv :: "target_regs \<Rightarrow> igraph \<Rightarrow> reg_ref list \<Rightarrow> ra_ctx \<Rightarrow> bool" where
  "select_inv t g stack c \<longleftrightarrow>
     m_iGraph c = g \<and> igraph_wf g \<and> small_ids t c \<and> distinct stack \<and>
     (\<forall>v \<in> set stack. isVirtual v \<and> v \<in> m_removedNodes c) \<and>
     (\<forall>v. isVirtual v \<longrightarrow> m_allocatedRegs c v \<noteq> None \<longrightarrow> v \<notin> m_removedNodes c) \<and>
     (\<forall>v. isPhysical v \<longrightarrow> has_node g v \<longrightarrow> m_allocatedRegs c v = Some v \<and> v \<notin> m_removedNodes c) \<and>
     (\<forall>v p. isVirtual v \<longrightarrow> m_allocatedRegs c v = Some p \<longrightarrow> isPhysical p \<and> getClass t p = getClass t v) \<and>
     (\<forall>a b p q. isVirtual a \<longrightarrow> b \<in> set (neighbors g a) \<longrightarrow> m_allocatedRegs c a = Some p \<longrightarrow>
        m_allocatedRegs c b = Some q \<longrightarrow> \<not> phys_conflict t p q)"

lemma select_invD:
  assumes "select_inv t g stack c"
  shows "m_iGraph c = g" "igraph_wf g" "small_ids t c" "distinct stack"
    "v \<in> set stack \<Longrightarrow> isVirtual v \<and> v \<in> m_removedNodes c"
    "isVirtual v \<Longrightarrow> m_allocatedRegs c v = Some p \<Longrightarrow> v \<notin> m_removedNodes c \<and> isPhysical p \<and> getClass t p = getClass t v"
    "isPhysical v \<Longrightarrow> has_node g v \<Longrightarrow> m_allocatedRegs c v = Some v \<and> v \<notin> m_removedNodes c"
    "isVirtual a \<Longrightarrow> b \<in> set (neighbors g a) \<Longrightarrow> m_allocatedRegs c a = Some p \<Longrightarrow> m_allocatedRegs c b = Some q \<Longrightarrow>
       \<not> phys_conflict t p q"
  using assms unfolding select_inv_def by (elim conjE; simp; fail)+

lemma phys_conflict_sym: "phys_conflict t p q \<longleftrightarrow> phys_conflict t q p"
  using isSameBank_sym by (auto simp: phys_conflict_def)

lemma note_callee_saved_fields:
  "\<exists>u. note_callee_saved t cc cls phys c = c\<lparr>m_physRegUses := u\<rparr>"
proof -
  consider "cc = None" | conv where "cc = Some conv" "find (\<lambda>reg. isSamePhysReg t reg phys) (cc_calleeSaved conv cls) = None"
    | conv reg where "cc = Some conv" "find (\<lambda>reg. isSamePhysReg t reg phys) (cc_calleeSaved conv cls) = Some reg"
    by (metis not_None_eq)
  then show ?thesis
  proof cases
    case 3
    then show ?thesis by (auto simp: note_callee_saved_def)
  qed (auto simp: note_callee_saved_def intro!: exI [of _ "m_physRegUses c"])
qed

text \<open>A neighbour that holds a colour is one the mask accounts for.\<close>

lemma coloured_neighbor:
  assumes "select_inv t g stack c" "n \<in> set (neighbors g node)" "m_allocatedRegs c n = Some q"
  shows "n \<notin> m_removedNodes c \<and> (if isPhysical n then q = n else m_allocatedRegs c n = Some q)"
proof (cases "isPhysical n")
  case True
  have "has_node g n"
    using ig.adj_nodes [OF select_invD(2) [OF assms(1)] assms(2)] by (simp add: has_node_iff)
  then show ?thesis using select_invD(7) [OF assms(1) True] assms(3) True by simp
next
  case False
  then show ?thesis using select_invD(6) [OF assms(1) _ assms(3)] assms(3) by (simp add: isPhysical_def)
qed

lemma select_assign_inv:
  assumes inv: "select_inv t g (node # stack) c" and cls: "getClass t node = Some cls"
    and ch: "choose_color t c cls node = Some (Some p)"
  shows "select_inv t g stack (c\<lparr>m_physRegUses := u, m_allocatedRegs := (m_allocatedRegs c)(node \<mapsto> p),
     m_removedNodes := m_removedNodes c - {node}\<rparr>)"
proof -
  note i = select_invD [OF inv]
  have node: "isVirtual node" "node \<in> m_removedNodes c" "node \<notin> set stack" "distinct stack"
    using i(5) [of node] i(4) by simp_all
  note p = choose_color_reg [OF ch i(3)]
  have small: "small_ids t (c\<lparr>m_physRegUses := u, m_allocatedRegs := (m_allocatedRegs c)(node \<mapsto> p),
     m_removedNodes := m_removedNodes c - {node}\<rparr>)"
    using i(3) p by (simp add: small_ids_def)
  have free: "\<not> phys_conflict t p q" if "n \<in> set (neighbors g node)" "m_allocatedRegs c n = Some q" for n q
    using choose_color_free [OF ch i(3), of n q] coloured_neighbor [OF inv that] that i(1) by simp
  have irr: "node \<notin> set (neighbors g node)" using ig.adj_irrefl [OF i(2)] .
  have proper: "\<not> phys_conflict t x y"
    if "isVirtual a" "b \<in> set (neighbors g a)" "((m_allocatedRegs c)(node \<mapsto> p)) a = Some x"
      "((m_allocatedRegs c)(node \<mapsto> p)) b = Some y" for a b x y
  proof (cases "a = node")
    case True
    then show ?thesis using that irr free [of b y] by (auto split: if_splits)
  next
    case False
    show ?thesis
    proof (cases "b = node")
      case True
      then have "a \<in> set (neighbors g node)" using that(2) ig.adj_sym [OF i(2)] by blast
      then show ?thesis using that False True free [of a x] phys_conflict_sym by auto
    qed (use that False i(8) in auto)
  qed
  show ?thesis
    unfolding select_inv_def
  proof (intro conjI allI impI ballI)
    fix v assume "v \<in> set stack"
    then show "isVirtual v" "v \<in> m_removedNodes (c\<lparr>m_physRegUses := u, m_allocatedRegs := (m_allocatedRegs c)(node \<mapsto> p),
        m_removedNodes := m_removedNodes c - {node}\<rparr>)"
      using i(5) [of v] node(3) by auto
  next
    fix v assume "isVirtual v" "m_allocatedRegs (c\<lparr>m_physRegUses := u, m_allocatedRegs := (m_allocatedRegs c)(node \<mapsto> p),
        m_removedNodes := m_removedNodes c - {node}\<rparr>) v \<noteq> None"
    then show "v \<notin> m_removedNodes (c\<lparr>m_physRegUses := u, m_allocatedRegs := (m_allocatedRegs c)(node \<mapsto> p),
        m_removedNodes := m_removedNodes c - {node}\<rparr>)"
      using i(6) [of v] by (cases "v = node") auto
  next
    fix v assume "isPhysical v" "has_node g v"
    then show "m_allocatedRegs (c\<lparr>m_physRegUses := u, m_allocatedRegs := (m_allocatedRegs c)(node \<mapsto> p),
        m_removedNodes := m_removedNodes c - {node}\<rparr>) v = Some v"
      "v \<notin> m_removedNodes (c\<lparr>m_physRegUses := u, m_allocatedRegs := (m_allocatedRegs c)(node \<mapsto> p),
        m_removedNodes := m_removedNodes c - {node}\<rparr>)"
      using i(7) [of v] node(1) by (auto simp: isPhysical_def)
  next
    fix v x assume "isVirtual v" "m_allocatedRegs (c\<lparr>m_physRegUses := u, m_allocatedRegs := (m_allocatedRegs c)(node \<mapsto> p),
        m_removedNodes := m_removedNodes c - {node}\<rparr>) v = Some x"
    then show "isPhysical x" "getClass t x = getClass t v"
      using i(6) [of v x] p cls by (auto split: if_splits)
  qed (use i(1,2) small node(4) proper in simp_all)
qed


lemma select_skip_inv: "select_inv t g (node # stack) c \<Longrightarrow> select_inv t g stack c"
  unfolding select_inv_def by simp

lemma select_loop_ok:
  assumes "select_inv t g stack c" "select_loop t cc stack spilled c = Some (SelectOk c')"
  shows "select_inv t g [] c' \<and> spilled = [] \<and> m_coalescedRegs c' = m_coalescedRegs c \<and>
    (\<forall>v. v \<in> set stack \<or> m_allocatedRegs c v \<noteq> None \<longrightarrow> m_allocatedRegs c' v \<noteq> None)"
  using assms
proof (induction stack arbitrary: spilled c)
  case Nil
  then have c': "c' = c\<lparr>m_selectStack := []\<rparr>" "spilled = []" by (auto split: if_splits)
  have "small_ids t (c\<lparr>m_selectStack := []\<rparr>) = small_ids t c" by (simp add: small_ids_def)
  then show ?case using Nil.prems(1) by (simp add: c' select_inv_def)
next
  case (Cons node stack)
  show ?case
  proof (cases "getClass t node")
    case None
    then show ?thesis using Cons.prems(2) by simp
  next
    case (Some cls)
    show ?thesis
    proof (cases "choose_color t c cls node")
      case None
      then show ?thesis using Cons.prems(2) Some by simp
    next
      case ch: (Some r)
      show ?thesis
      proof (cases r)
        case None
        then have s: "select_loop t cc stack (set_insert node spilled) c = Some (SelectOk c')"
          using Cons.prems(2) Some ch by (simp split: if_splits)
        have "set_insert node spilled \<noteq> []" by (auto simp: set_insert_def)
        then show ?thesis using Cons.IH [OF select_skip_inv [OF Cons.prems(1)] s] by simp
      next
        case p: (Some p)
        obtain u where u: "note_callee_saved t cc (Some cls) p c = c\<lparr>m_physRegUses := u\<rparr>"
          using note_callee_saved_fields by blast
        let ?c = "c\<lparr>m_physRegUses := u, m_allocatedRegs := (m_allocatedRegs c)(node \<mapsto> p), m_removedNodes := m_removedNodes c - {node}\<rparr>"
        have s: "select_loop t cc stack spilled ?c = Some (SelectOk c')"
          using Cons.prems(2) Some ch p u by simp
        from Cons.IH [OF select_assign_inv [OF Cons.prems(1) Some ch [unfolded p]] s] show ?thesis by auto
      qed
    qed
  qed
qed

text \<open>Without a cycle among the coalesced registers the loop returns.\<close>

lemma affinity_color_returns: "acyclic_leaders (m_coalescedRegs c) \<Longrightarrow> affinity_color t c cls used ps \<noteq> None"
proof (induction ps)
  case (Cons p ps)
  then obtain l where "getCoalescedLeader (m_coalescedRegs c) p = Some l" using leader_returns by blast
  then show ?case using Cons by (simp split: option.split)
qed simp

lemma choose_color_returns: "acyclic_leaders (m_coalescedRegs c) \<Longrightarrow> choose_color t c cls node \<noteq> None"
  using affinity_color_returns by (auto simp: choose_color_def Let_def split: option.split)

lemma select_loop_returns:
  assumes "acyclic_leaders (m_coalescedRegs c)"
  shows "select_loop t cc stack spilled c \<noteq> None"
  using assms
proof (induction stack arbitrary: spilled c)
  case (Cons node stack)
  have "m_coalescedRegs (note_callee_saved t cc cls p c) = m_coalescedRegs c" for cls p
    using note_callee_saved_fields [of t cc cls p c] by (metis ra_ctx.select_convs(8) ra_ctx.surjective ra_ctx.update_convs(10))
  note co = this
  show ?case
  proof (cases "getClass t node")
    case (Some cls)
    obtain r where "choose_color t c cls node = Some r" using choose_color_returns [OF Cons.prems] by blast
    then show ?thesis using Cons Some co by (auto simp: Let_def split: option.split)
  qed simp
qed simp


section \<open>From graph to colours\<close>

text \<open>The part of an allocation round after the graph is built and coalesced.\<close>

datatype color_result = ColorMissingClass | ColorSelected select_result

definition color_graph ::
  "((nat \<times> nat) \<Rightarrow> (nat \<times> nat) \<Rightarrow> bool) \<Rightarrow> target_regs \<Rightarrow> calling_conv option \<Rightarrow> (reg_ref \<Rightarrow> nat) \<Rightarrow> ra_ctx \<Rightarrow> color_result option" where
  "color_graph lt t cc cost c =
     (case simplify lt t cost (evaluateInterferenceGraphDegree c) of
        None \<Rightarrow> Some ColorMissingClass
      | Some c1 \<Rightarrow> map_option ColorSelected (selectColors t cc c1))"

text \<open>The context at the start of the colouring phases of a round.\<close>

definition fresh_round :: "target_regs \<Rightarrow> ra_ctx \<Rightarrow> bool" where
  "fresh_round t c \<longleftrightarrow> igraph_wf (m_iGraph c) \<and> m_selectStack c = [] \<and> m_removedNodes c = {} \<and>
     m_allocatedRegs c = Map.empty \<and> acyclic_leaders (m_coalescedRegs c) \<and> small_ids t c"

lemma virtual_nodes_iff: "v \<in> set (virtual_nodes g) \<longleftrightarrow> isVirtual v \<and> has_node g v"
  by (auto simp: virtual_nodes_def has_node_iff igraph_nodes_def)

lemma simplified_round:
  assumes f: "fresh_round t c" and cls: "\<forall>n \<in> set (virtual_nodes (m_iGraph c)). getClass t n \<noteq> None"
  shows "\<exists>c1. simplify lt t cost (evaluateInterferenceGraphDegree c) = Some c1 \<and>
    select_inv t (m_iGraph c) (m_selectStack c1) c1 \<and> set (m_selectStack c1) = set (virtual_nodes (m_iGraph c)) \<and>
    m_coalescedRegs c1 = m_coalescedRegs c"
proof -
  let ?V = "set (virtual_nodes (m_iGraph c))"
  obtain D where D: "evaluateInterferenceGraphDegree c = c\<lparr>m_degree := D,
     m_allocatedRegs := (\<lambda>v. if isPhysical v \<and> v \<in> fst ` set (m_iGraph c) then Some v else None), m_removedNodes := {}\<rparr>"
    "fst ` set D = fst ` set (m_iGraph c)"
    using eval_fold [of "m_iGraph c" "c\<lparr>m_degree := []\<rparr>"] f
    by (auto simp: evaluateInterferenceGraphDegree_def fresh_round_def cong: if_cong)
  define e where "e = evaluateInterferenceGraphDegree c"
  have e: "igraph_wf (m_iGraph e)" "m_removedNodes e = {}" "m_selectStack e = []" "m_iGraph e = m_iGraph c"
    "fst ` set (m_degree e) \<subseteq> igraph_nodes (m_iGraph e)" "m_coalescedRegs e = m_coalescedRegs c" "m_affinity e = m_affinity c"
    and al: "m_allocatedRegs e v = (if isPhysical v \<and> has_node (m_iGraph c) v then Some v else None)" for v
    using f D by (simp_all add: e_def fresh_round_def igraph_nodes_def has_node_iff)
  obtain D' s where s: "simplify lt t cost e = Some (e\<lparr>m_degree := D', m_selectStack := s, m_removedNodes := ?V\<rparr>)"
    "distinct s" "set s = ?V"
    using simplify_correct [OF e(1) _ e(3,5), of t lt cost] cls e(2,4) by auto
  let ?c1 = "e\<lparr>m_degree := D', m_selectStack := s, m_removedNodes := ?V\<rparr>"
  have small: "small_ids t ?c1"
    using f e al by (auto simp: small_ids_def fresh_round_def small_id_def split: if_splits)
  have "select_inv t (m_iGraph c) s ?c1"
    using small s(2,3) e(1,4) by (auto simp: select_inv_def al virtual_nodes_iff isPhysical_def split: if_splits)
  then show ?thesis using s e(6) unfolding e_def by (intro exI [of _ ?c1]) (simp add: e_def)
qed

lemma color_graph_ok:
  assumes f: "fresh_round t c" and run: "color_graph lt t cc cost c = Some (ColorSelected (SelectOk c'))"
  shows "m_coalescedRegs c' = m_coalescedRegs c \<and>
    (\<forall>v. has_node (m_iGraph c) v \<longrightarrow> (\<exists>p. m_allocatedRegs c' v = Some p \<and> isPhysical p \<and> getClass t p = getClass t v \<and>
       (isPhysical v \<longrightarrow> p = v))) \<and>
    (\<forall>a b p q. isVirtual a \<longrightarrow> b \<in> set (neighbors (m_iGraph c) a) \<longrightarrow> m_allocatedRegs c' a = Some p \<longrightarrow>
       m_allocatedRegs c' b = Some q \<longrightarrow> \<not> phys_conflict t p q)"
proof -
  obtain c1 where s: "simplify lt t cost (evaluateInterferenceGraphDegree c) = Some c1"
    and sel: "selectColors t cc c1 = Some (SelectOk c')"
    using run by (auto simp: color_graph_def split: option.splits)
  have "\<forall>n \<in> set (virtual_nodes (m_iGraph (evaluateInterferenceGraphDegree c))). getClass t n \<noteq> None"
    using s by (auto simp: simplify_def Let_def split: if_splits)
  moreover have "m_iGraph (evaluateInterferenceGraphDegree c) = m_iGraph c"
    using eval_fold [of "m_iGraph c" "c\<lparr>m_degree := []\<rparr>"] by (auto simp: evaluateInterferenceGraphDegree_def)
  ultimately have inv: "select_inv t (m_iGraph c) (m_selectStack c1) c1" and V: "set (m_selectStack c1) = set (virtual_nodes (m_iGraph c))"
    and co: "m_coalescedRegs c1 = m_coalescedRegs c"
    using simplified_round [OF f, of lt cost] s by auto
  note ok = select_loop_ok [OF inv sel [unfolded selectColors_def]]
  then have inv': "select_inv t (m_iGraph c) [] c'" by blast
  have "\<exists>p. m_allocatedRegs c' v = Some p \<and> isPhysical p \<and> getClass t p = getClass t v \<and> (isPhysical v \<longrightarrow> p = v)"
    if "has_node (m_iGraph c) v" for v
  proof (cases "isVirtual v")
    case True
    then have "m_allocatedRegs c' v \<noteq> None" using ok V that by (simp add: virtual_nodes_iff)
    then show ?thesis using select_invD(6) [OF inv' True] True by (auto simp: isPhysical_def)
  next
    case False
    then show ?thesis using select_invD(7) [OF inv' _ that] by (simp add: isPhysical_def)
  qed
  then show ?thesis using co ok select_invD(8) [OF inv'] by simp
qed

lemma color_graph_returns: "fresh_round t c \<Longrightarrow> color_graph lt t cc cost c \<noteq> None"
proof -
  assume f: "fresh_round t c"
  show ?thesis
  proof (cases "simplify lt t cost (evaluateInterferenceGraphDegree c)")
    case (Some c1)
    have "\<forall>n \<in> set (virtual_nodes (m_iGraph (evaluateInterferenceGraphDegree c))). getClass t n \<noteq> None"
      using Some by (auto simp: simplify_def Let_def split: if_splits)
    moreover have "m_iGraph (evaluateInterferenceGraphDegree c) = m_iGraph c"
      using eval_fold [of "m_iGraph c" "c\<lparr>m_degree := []\<rparr>"] by (auto simp: evaluateInterferenceGraphDegree_def)
    ultimately have "m_coalescedRegs c1 = m_coalescedRegs c" using simplified_round [OF f, of lt cost] Some by auto
    then have "selectColors t cc c1 \<noteq> None"
      using select_loop_returns f by (simp add: selectColors_def fresh_round_def)
    then show ?thesis using Some by (auto simp: color_graph_def)
  qed (simp add: color_graph_def)
qed

end
