(* ===== verification/RegCoalesce.thy ===== *)
theory RegCoalesce
  imports RegColor
begin

text \<open>
  \<open>MirRegisterAllocator::coalesce\<close>
  (EzTriple/src/RegisterAllocator/MirRegisterAllocator.cpp): the copy and two-address
  candidates, the Briggs and George tests, the merge of two nodes and the loop that restarts
  after every merge. The locale \<open>coalescing\<close> extends the graph interface by the merge; it is
  interpreted on the association lists. The theorems of the whole allocation round (graph,
  coalescing, simplification, colouring) close the theory.
\<close>

section \<open>Candidates\<close>

record coalesce_candidate =
  cand_dst :: reg_ref
  cand_src :: reg_ref
  cand_isCopy :: bool

definition is_move :: "mir_inst \<Rightarrow> bool" where
  "is_move i \<longleftrightarrow> mi_opcode i = MOV \<or> (case mi_desc i of Some d \<Rightarrow> has_flag (td_flags d) IsMove | None \<Rightarrow> False)"

definition inst_candidates :: "mir_inst \<Rightarrow> coalesce_candidate list" where
  "inst_candidates i =
     (if is_move i \<and> length (mi_operands i) \<ge> 2 then
        (case (mi_operands i ! 0, mi_operands i ! 1) of
           (Some (OpReg dst), Some (OpReg src)) \<Rightarrow>
             if dst \<noteq> src then [\<lparr>cand_dst = dst, cand_src = src, cand_isCopy = True\<rparr>] else []
         | _ \<Rightarrow> [])
      else if length (mi_operands i) \<ge> 3 then
        (case getDefinedRegisters i of
           [defRef] \<Rightarrow>
             (case (mi_operands i ! 0, mi_operands i ! 1) of
                (Some (OpReg op0), Some (OpReg op1)) \<Rightarrow>
                  if defRef = op0 \<and> op0 \<noteq> op1 then [\<lparr>cand_dst = op0, cand_src = op1, cand_isCopy = False\<rparr>] else []
              | _ \<Rightarrow> [])
         | _ \<Rightarrow> [])
      else [])"

definition candidates :: "mir_block list \<Rightarrow> coalesce_candidate list" where
  "candidates blocks = concat (map (\<lambda>b. concat (map inst_candidates (mb_insts b))) blocks)"

section \<open>The tests\<close>

definition low_degree :: "target_regs \<Rightarrow> ra_ctx \<Rightarrow> reg_ref \<Rightarrow> bool" where
  "low_degree t c n \<longleftrightarrow> has_node (m_iGraph c) n \<and>
     length (neighbors (m_iGraph c) n) < color_limit t (m_reservedRegs c) (getClass t n)"

definition satisfies_george :: "target_regs \<Rightarrow> ra_ctx \<Rightarrow> reg_ref \<Rightarrow> reg_ref \<Rightarrow> bool" where
  "satisfies_george t c u v \<longleftrightarrow>
     (\<forall>n \<in> set (neighbors (m_iGraph c) v).
        n = u \<or> n \<in> set (neighbors (m_iGraph c) u) \<or> isVirtual n \<and> low_degree t c n)"

definition significant :: "target_regs \<Rightarrow> ra_ctx \<Rightarrow> reg_ref \<Rightarrow> bool" where
  "significant t c n \<longleftrightarrow> isPhysical n \<or>
     has_node (m_iGraph c) n \<and> length (neighbors (m_iGraph c) n) \<ge> color_limit t (m_reservedRegs c) (getClass t n)"

definition satisfies_briggs :: "target_regs \<Rightarrow> ra_ctx \<Rightarrow> reg_ref \<Rightarrow> reg_ref \<Rightarrow> bool" where
  "satisfies_briggs t c u v \<longleftrightarrow>
     (let combined = fold set_insert (filter (\<lambda>n. n \<noteq> u \<and> n \<noteq> v) (neighbors (m_iGraph c) u @ neighbors (m_iGraph c) v)) []
      in length (filter (significant t c) combined) < color_limit t (m_reservedRegs c) (getClass t u))"

section \<open>The merge\<close>

definition erase_neighbor :: "reg_ref \<Rightarrow> reg_ref \<Rightarrow> igraph \<Rightarrow> igraph" where
  "erase_neighbor x y g = AList.update x (removeAll y (neighbors g x)) g"

definition merge_neighbor :: "reg_ref \<Rightarrow> reg_ref \<Rightarrow> reg_ref \<Rightarrow> igraph \<Rightarrow> igraph" where
  "merge_neighbor u v w g =
     (if w \<noteq> u \<and> w \<noteq> v
      then erase_neighbor w v (insert_neighbor w u (insert_neighbor u w g))
      else g)"

definition merge_nodes :: "reg_ref \<Rightarrow> reg_ref \<Rightarrow> igraph \<Rightarrow> igraph" where
  "merge_nodes u v g =
     AList.delete v (erase_neighbor u v (fold (merge_neighbor u v) (neighbors g v) g))"

definition do_coalesce ::
  "target_regs \<Rightarrow> calling_conv option \<Rightarrow> reg_ref \<Rightarrow> reg_ref \<Rightarrow> ra_ctx \<Rightarrow> ra_ctx" where
  "do_coalesce t cc u v c =
     (let c1 = c\<lparr>m_coalescedRegs := (m_coalescedRegs c)(v \<mapsto> u)\<rparr>;
          c2 = (if isPhysical u then note_callee_saved t cc (getClass t u) u c1 else c1);
          c3 = (if v \<in> m_unspillableRegs c2
                then c2\<lparr>m_unspillableRegs := insert u (m_unspillableRegs c2) - {v}\<rparr> else c2)
      in c3\<lparr>m_iGraph := merge_nodes u v (m_iGraph c3)\<rparr>)"

definition add_affinity :: "reg_ref \<Rightarrow> reg_ref \<Rightarrow> ra_ctx \<Rightarrow> ra_ctx" where
  "add_affinity x y c =
     c\<lparr>m_affinity := (m_affinity c)(x \<mapsto> set_insert y (case m_affinity c x of Some ps \<Rightarrow> ps | None \<Rightarrow> []))\<rparr>"

text \<open>One candidate; the flag tells that two nodes were merged.\<close>

definition try_candidate ::
  "target_regs \<Rightarrow> calling_conv option \<Rightarrow> coalesce_candidate \<Rightarrow> ra_ctx \<Rightarrow> (ra_ctx \<times> bool) option" where
  "try_candidate t cc cand c =
     (case (getCoalescedLeader (m_coalescedRegs c) (cand_dst cand), getCoalescedLeader (m_coalescedRegs c) (cand_src cand)) of
        (Some u0, Some v0) \<Rightarrow>
          (if u0 = v0 then Some (c, False)
           else
             let (u, v) = (if isVirtual u0 \<and> isPhysical v0 then (v0, u0) else (u0, v0)) in
             if isPhysical u \<and> isPhysical v then Some (c, False)
             else if u \<in> m_reservedRegs c \<or> v \<in> m_reservedRegs c then Some (c, False)
             else if getClass t u \<noteq> getClass t v then Some (c, False)
             else if \<not> has_node (m_iGraph c) u \<or> \<not> has_node (m_iGraph c) v then Some (c, False)
             else if v \<in> set (neighbors (m_iGraph c) u) \<or> u \<in> set (neighbors (m_iGraph c) v) then Some (c, False)
             else if (if isPhysical u then satisfies_george t c u v else satisfies_briggs t c u v)
             then Some (do_coalesce t cc u v c, True)
             else Some (add_affinity v u (add_affinity u v c), False))
      | _ \<Rightarrow> None)"

fun scan_candidates ::
  "target_regs \<Rightarrow> calling_conv option \<Rightarrow> coalesce_candidate list \<Rightarrow> ra_ctx \<Rightarrow> (ra_ctx \<times> bool) option" where
  "scan_candidates t cc [] c = Some (c, False)"
| "scan_candidates t cc (cand # cands) c =
     (case try_candidate t cc cand c of
        None \<Rightarrow> None
      | Some (c', True) \<Rightarrow> Some (c', True)
      | Some (c', False) \<Rightarrow> scan_candidates t cc cands c')"

partial_function (option) coalesce_loop ::
  "target_regs \<Rightarrow> calling_conv option \<Rightarrow> coalesce_candidate list \<Rightarrow> bool \<Rightarrow> ra_ctx \<Rightarrow> (ra_ctx \<times> bool) option" where
  "coalesce_loop t cc cands anyCoalesced c =
     Option.bind (scan_candidates t cc cands c)
       (\<lambda>(c', changed). if changed then coalesce_loop t cc cands True c' else Some (c', anyCoalesced))"

definition coalesce ::
  "target_regs \<Rightarrow> calling_conv option \<Rightarrow> mir_block list \<Rightarrow> ra_ctx \<Rightarrow> (ra_ctx \<times> bool) option" where
  "coalesce t cc blocks c = coalesce_loop t cc (candidates blocks) False c"

section \<open>The interface with merging\<close>

locale coalescing = interference +
  fixes merge :: "'a \<Rightarrow> 'a \<Rightarrow> 'b \<Rightarrow> 'b"
  assumes inv_merge: "inv g \<Longrightarrow> u \<noteq> v \<Longrightarrow> u \<in> nodes g \<Longrightarrow> v \<in> nodes g \<Longrightarrow> v \<notin> adj g u \<Longrightarrow> inv (merge u v g)"
    and nodes_merge: "inv g \<Longrightarrow> u \<noteq> v \<Longrightarrow> u \<in> nodes g \<Longrightarrow> v \<in> nodes g \<Longrightarrow> v \<notin> adj g u \<Longrightarrow>
      nodes (merge u v g) = nodes g - {v}"
    and adj_merge: "inv g \<Longrightarrow> u \<noteq> v \<Longrightarrow> u \<in> nodes g \<Longrightarrow> v \<in> nodes g \<Longrightarrow> v \<notin> adj g u \<Longrightarrow>
      y \<in> adj (merge u v g) x \<longleftrightarrow>
        x \<noteq> v \<and> y \<noteq> v \<and> (y \<in> adj g x \<or> x = u \<and> y \<in> adj g v \<or> y = u \<and> x \<in> adj g v)"
begin

text \<open>Every edge survives the merge, with the merged node renamed.\<close>

lemma edge_survives:
  assumes "inv g" "u \<noteq> v" "u \<in> nodes g" "v \<in> nodes g" "v \<notin> adj g u" "y \<in> adj g x"
  shows "(if y = v then u else y) \<in> adj (merge u v g) (if x = v then u else x)"
  using assms adj_sym [OF assms(1)] adj_irrefl [OF assms(1)] by (auto simp: adj_merge)

lemma node_survives:
  assumes "inv g" "u \<noteq> v" "u \<in> nodes g" "v \<in> nodes g" "v \<notin> adj g u" "x \<in> nodes g"
  shows "(if x = v then u else x) \<in> nodes (merge u v g)"
  using assms by (simp add: nodes_merge)

end

section \<open>Association lists meet the extended interface\<close>

lemma map_of_erase_neighbor:
  "map_of (erase_neighbor x y g) z = (if z = x then Some (removeAll y (neighbors g x)) else map_of g z)"
  by (simp add: erase_neighbor_def update_conv)

lemma neighbors_erase_neighbor:
  "set (neighbors (erase_neighbor x y g) z) = (if z = x then set (neighbors g x) - {y} else set (neighbors g z))"
proof (cases "z = x")
  case True
  then have "neighbors (erase_neighbor x y g) z = removeAll y (neighbors g x)"
    by (simp add: neighbors_def [of "erase_neighbor x y g"] map_of_erase_neighbor)
  then show ?thesis using True by simp
next
  case False
  then have "neighbors (erase_neighbor x y g) z = neighbors g z"
    by (simp add: neighbors_def map_of_erase_neighbor)
  then show ?thesis using False by simp
qed

lemma has_node_erase_neighbor: "has_node (erase_neighbor x y g) z \<longleftrightarrow> z = x \<or> has_node g z"
  by (simp add: has_node_def map_of_erase_neighbor)

lemma distinct_erase_neighbor: "distinct (map fst g) \<Longrightarrow> distinct (map fst (erase_neighbor x y g))"
  by (simp add: erase_neighbor_def distinct_update)

lemma neighbors_merge_neighbor:
  "set (neighbors (merge_neighbor u v w g) z) =
     (if w = u \<or> w = v then set (neighbors g z)
      else if z = w then insert u (set (neighbors g w)) - {v}
      else if z = u then insert w (set (neighbors g u))
      else set (neighbors g z))"
  by (auto simp: merge_neighbor_def neighbors_erase_neighbor)

lemma has_node_merge_neighbor:
  "has_node (merge_neighbor u v w g) z \<longleftrightarrow> has_node g z \<or> w \<noteq> u \<and> w \<noteq> v \<and> (z = u \<or> z = w)"
  by (auto simp: merge_neighbor_def has_node_erase_neighbor)

lemma distinct_merge_neighbor: "distinct (map fst g) \<Longrightarrow> distinct (map fst (merge_neighbor u v w g))"
  by (simp add: merge_neighbor_def distinct_erase_neighbor distinct_insert_neighbor)


lemma merge_neighbors_fold:
  assumes "u \<noteq> v" "u \<notin> set ws" "v \<notin> set ws"
  shows "set (neighbors (fold (merge_neighbor u v) ws g) z) =
      (if z = u then set (neighbors g u) \<union> set ws
       else if z \<in> set ws then insert u (set (neighbors g z)) - {v}
       else set (neighbors g z))"
    "has_node (fold (merge_neighbor u v) ws g) z \<longleftrightarrow> has_node g z \<or> ws \<noteq> [] \<and> z = u \<or> z \<in> set ws"
    "distinct (map fst g) \<Longrightarrow> distinct (map fst (fold (merge_neighbor u v) ws g))"
proof -
  show "set (neighbors (fold (merge_neighbor u v) ws g) z) =
      (if z = u then set (neighbors g u) \<union> set ws
       else if z \<in> set ws then insert u (set (neighbors g z)) - {v}
       else set (neighbors g z))"
    using assms
  proof (induction ws arbitrary: g)
    case (Cons w ws)
    then have "u \<noteq> w" "v \<noteq> w" by auto
    then show ?case using Cons by (auto simp: neighbors_merge_neighbor)
  qed simp
  show "has_node (fold (merge_neighbor u v) ws g) z \<longleftrightarrow> has_node g z \<or> ws \<noteq> [] \<and> z = u \<or> z \<in> set ws"
    using assms by (induction ws arbitrary: g) (auto simp: has_node_merge_neighbor)
  show "distinct (map fst g) \<Longrightarrow> distinct (map fst (fold (merge_neighbor u v) ws g))"
    by (induction ws arbitrary: g) (simp_all add: distinct_merge_neighbor)
qed

lemma neighbors_delete: "neighbors (AList.delete v g) z = (if z = v then [] else neighbors g z)"
  by (simp add: neighbors_def delete_conv')

lemma has_node_delete: "has_node (AList.delete v g) z \<longleftrightarrow> z \<noteq> v \<and> has_node g z"
  by (simp add: has_node_def delete_conv')

lemma merge_nodes_correct:
  assumes wf: "igraph_wf g" and uv: "u \<noteq> v" "has_node g u" "v \<notin> set (neighbors g u)"
  shows "y \<in> set (neighbors (merge_nodes u v g) x) \<longleftrightarrow>
      x \<noteq> v \<and> y \<noteq> v \<and> (y \<in> set (neighbors g x) \<or> x = u \<and> y \<in> set (neighbors g v) \<or> y = u \<and> x \<in> set (neighbors g v))"
    "has_node (merge_nodes u v g) x \<longleftrightarrow> has_node g x \<and> x \<noteq> v"
    "distinct (map fst (merge_nodes u v g))"
proof -
  have sym: "\<And>a b. b \<in> set (neighbors g a) \<longleftrightarrow> a \<in> set (neighbors g b)" and irr: "\<And>a. a \<notin> set (neighbors g a)"
    and d: "distinct (map fst g)"
    using wf unfolding igraph_wf_def by blast+
  have u: "u \<notin> set (neighbors g v)" and v: "v \<notin> set (neighbors g v)" using uv(3) sym irr by blast+
  note m = merge_neighbors_fold [OF uv(1) u v]
  have node: "x \<in> set (neighbors g v) \<Longrightarrow> has_node g x" for x using neighbors_node sym by blast
  show "y \<in> set (neighbors (merge_nodes u v g) x) \<longleftrightarrow>
      x \<noteq> v \<and> y \<noteq> v \<and> (y \<in> set (neighbors g x) \<or> x = u \<and> y \<in> set (neighbors g v) \<or> y = u \<and> x \<in> set (neighbors g v))"
  proof (cases "x = u")
    case True
    then show ?thesis
      using uv(1) v u irr [of u] by (auto simp: merge_nodes_def neighbors_delete neighbors_erase_neighbor m(1))
  next
    case False
    show ?thesis
    proof (cases "x \<in> set (neighbors g v)")
      case True
      then show ?thesis
        using False uv(1) v by (auto simp: merge_nodes_def neighbors_delete neighbors_erase_neighbor m(1))
    next
      case nx: False
      then have "v \<notin> set (neighbors g x)" using sym by blast
      then show ?thesis
        using False nx by (auto simp: merge_nodes_def neighbors_delete neighbors_erase_neighbor m(1))
    qed
  qed
  show "has_node (merge_nodes u v g) x \<longleftrightarrow> has_node g x \<and> x \<noteq> v"
    using uv node by (auto simp: merge_nodes_def has_node_delete has_node_erase_neighbor m(2))
  show "distinct (map fst (merge_nodes u v g))"
    using m(3) [OF d] by (simp add: merge_nodes_def distinct_delete distinct_erase_neighbor)
qed

interpretation igm: coalescing addNode add_interference "\<lambda>g v. set (neighbors g v)" igraph_nodes igraph_wf merge_nodes
proof (unfold_locales, goal_cases)
  case (1 g u v)
  note m = merge_nodes_correct [OF 1(1,2) _ 1(5)]
  have u: "has_node g u" using 1(3) by (simp add: has_node_iff)
  have sym: "\<And>a b. b \<in> set (neighbors g a) \<longleftrightarrow> a \<in> set (neighbors g b)" and irr: "\<And>a. a \<notin> set (neighbors g a)"
    using 1(1) unfolding igraph_wf_def by blast+
  show ?case
    unfolding igraph_wf_def m(1) [OF u] using m(3) [OF u] sym irr 1(5) by blast
next
  case (2 g u v)
  have "x \<in> igraph_nodes (merge_nodes u v g) \<longleftrightarrow> x \<in> igraph_nodes g - {v}" for x
    using merge_nodes_correct(2) [OF 2(1,2) _ 2(5)] 2(3) unfolding has_node_iff [symmetric] by (simp add: has_node_iff)
  then show ?case by blast
next
  case (3 g u v y x)
  then show ?case using merge_nodes_correct(1) [OF 3(1,2) _ 3(5)] by (simp add: has_node_iff)
qed


section \<open>Leaders after a merge\<close>

lemma acyclic_merge:
  assumes "acyclic_leaders m" "is_leader m u" "u \<noteq> v"
  shows "acyclic_leaders (m(v \<mapsto> u))"
proof -
  obtain rank :: "reg_ref \<Rightarrow> nat" where rank: "\<And>x y. m x = Some y \<Longrightarrow> y \<noteq> x \<Longrightarrow> rank y < rank x"
    using assms(1) unfolding acyclic_leaders_def by blast
  let ?r = "\<lambda>x. if x = u then 0 else Suc (rank x)"
  have "?r y < ?r x" if "(m(v \<mapsto> u)) x = Some y" "y \<noteq> x" for x y
  proof (cases "x = v")
    case True
    then show ?thesis using that assms(3) by simp
  next
    case False
    then have "m x = Some y" using that(1) by simp
    then show ?thesis using rank that(2) assms(2) by (auto simp: is_leader_def)
  qed
  then show ?thesis unfolding acyclic_leaders_def by (intro exI [of _ ?r]) blast
qed

lemma leader_merge:
  assumes m: "acyclic_leaders m" and u: "is_leader m u" and v: "is_leader m v" and uv: "u \<noteq> v"
    and l: "getCoalescedLeader m r = Some l"
  shows "getCoalescedLeader (m(v \<mapsto> u)) r = Some (if l = v then u else l)"
proof -
  obtain rank :: "reg_ref \<Rightarrow> nat" where rank: "\<And>x y. m x = Some y \<Longrightarrow> y \<noteq> x \<Longrightarrow> rank y < rank x"
    using m unfolding acyclic_leaders_def by blast
  have u': "getCoalescedLeader (m(v \<mapsto> u)) u = Some u"
    using u uv by (intro leader_self) (simp add: is_leader_def)
  show ?thesis
    using l
  proof (induction "rank r" arbitrary: r rule: less_induct)
    case less
    show ?case
    proof (cases "r = v")
      case True
      then have "l = v" using less.prems leader_self [OF v] by simp
      then show ?thesis using True u' leader_next [of "m(v \<mapsto> u)" v u] uv by simp
    next
      case False
      from leader_cases [of m r] show ?thesis
      proof (elim disjE exE conjE)
        assume r: "is_leader m r"
        then have "l = r" using less.prems leader_self by simp
        moreover have "is_leader (m(v \<mapsto> u)) r" using r False by (simp add: is_leader_def)
        ultimately show ?thesis using leader_self False by simp
      next
        fix s assume s: "m r = Some s" "s \<noteq> r"
        have "getCoalescedLeader m s = Some l" using less.prems leader_next [of m r s, OF s] by simp
        from less(1) [OF rank [OF s] this] show ?thesis
          using leader_next [of "m(v \<mapsto> u)" r s] s False by simp
      qed
    qed
  qed
qed

section \<open>What coalescing keeps\<close>

text \<open>The allocation context relative to the graph \<open>g0\<close> it started from: every node of \<open>g0\<close>
  has a leader of its class in the current graph, and interfering registers have interfering
  leaders.\<close>

definition coalesce_inv :: "target_regs \<Rightarrow> igraph \<Rightarrow> ra_ctx \<Rightarrow> bool" where
  "coalesce_inv t g0 c \<longleftrightarrow>
     igraph_wf (m_iGraph c) \<and> acyclic_leaders (m_coalescedRegs c) \<and>
     (\<forall>x. has_node (m_iGraph c) x \<longrightarrow> has_node g0 x) \<and>
     (\<forall>a. has_node g0 a \<longrightarrow> (\<exists>l. getCoalescedLeader (m_coalescedRegs c) a = Some l \<and>
        has_node (m_iGraph c) l \<and> getClass t l = getClass t a \<and> (isPhysical a \<longrightarrow> l = a))) \<and>
     (\<forall>a b x y. b \<in> set (neighbors g0 a) \<longrightarrow> getCoalescedLeader (m_coalescedRegs c) a = Some x \<longrightarrow>
        getCoalescedLeader (m_coalescedRegs c) b = Some y \<longrightarrow> y \<in> set (neighbors (m_iGraph c) x)) \<and>
     (\<forall>v ps p. m_affinity c v = Some ps \<longrightarrow> p \<in> set ps \<longrightarrow> has_node g0 p) \<and>
     m_selectStack c = [] \<and> m_removedNodes c = {} \<and> m_allocatedRegs c = Map.empty"

lemma coalesce_invD:
  assumes "coalesce_inv t g0 c"
  shows "igraph_wf (m_iGraph c)" "acyclic_leaders (m_coalescedRegs c)"
    "has_node (m_iGraph c) x \<Longrightarrow> has_node g0 x"
    "has_node g0 a \<Longrightarrow> \<exists>l. getCoalescedLeader (m_coalescedRegs c) a = Some l \<and>
        has_node (m_iGraph c) l \<and> getClass t l = getClass t a \<and> (isPhysical a \<longrightarrow> l = a)"
    "b \<in> set (neighbors g0 a) \<Longrightarrow> getCoalescedLeader (m_coalescedRegs c) a = Some x \<Longrightarrow>
        getCoalescedLeader (m_coalescedRegs c) b = Some y \<Longrightarrow> y \<in> set (neighbors (m_iGraph c) x)"
    "m_affinity c v = Some ps \<Longrightarrow> p \<in> set ps \<Longrightarrow> has_node g0 p"
    "m_selectStack c = []" "m_removedNodes c = {}" "m_allocatedRegs c = Map.empty"
  using assms unfolding coalesce_inv_def by (elim conjE; simp; fail)+

lemma do_coalesce_fields:
  "m_iGraph (do_coalesce t cc u v c) = merge_nodes u v (m_iGraph c) \<and>
   m_coalescedRegs (do_coalesce t cc u v c) = (m_coalescedRegs c)(v \<mapsto> u) \<and>
   m_affinity (do_coalesce t cc u v c) = m_affinity c \<and> m_selectStack (do_coalesce t cc u v c) = m_selectStack c \<and>
   m_removedNodes (do_coalesce t cc u v c) = m_removedNodes c \<and> m_allocatedRegs (do_coalesce t cc u v c) = m_allocatedRegs c \<and>
   m_reservedRegs (do_coalesce t cc u v c) = m_reservedRegs c"
proof -
  obtain w where "note_callee_saved t cc (getClass t u) u (c\<lparr>m_coalescedRegs := (m_coalescedRegs c)(v \<mapsto> u)\<rparr>) =
      c\<lparr>m_coalescedRegs := (m_coalescedRegs c)(v \<mapsto> u), m_physRegUses := w\<rparr>"
    using note_callee_saved_fields [of t cc _ u "c\<lparr>m_coalescedRegs := (m_coalescedRegs c)(v \<mapsto> u)\<rparr>"] by metis
  then show ?thesis by (simp add: do_coalesce_def Let_def)
qed

lemma do_coalesce_inv:
  assumes inv: "coalesce_inv t g0 c" and u: "is_leader (m_coalescedRegs c) u" and v: "is_leader (m_coalescedRegs c) v"
    and uv: "u \<noteq> v" "isVirtual v" "getClass t u = getClass t v" "has_node (m_iGraph c) u" "has_node (m_iGraph c) v"
      "v \<notin> set (neighbors (m_iGraph c) u)"
  shows "coalesce_inv t g0 (do_coalesce t cc u v c)"
proof -
  note i = coalesce_invD [OF inv] and f = do_coalesce_fields [of t cc u v c]
  have un: "u \<in> igraph_nodes (m_iGraph c)" "v \<in> igraph_nodes (m_iGraph c)" using uv(4,5) by (simp_all add: has_node_iff)
  note pre = i(1) uv(1) un uv(6)
  have nodes: "has_node (merge_nodes u v (m_iGraph c)) x \<longleftrightarrow> has_node (m_iGraph c) x \<and> x \<noteq> v" for x
    by (rule merge_nodes_correct(2) [OF i(1) uv(1,4,6)])
  have leader: "getCoalescedLeader ((m_coalescedRegs c)(v \<mapsto> u)) r = Some (if l = v then u else l)"
    if "getCoalescedLeader (m_coalescedRegs c) r = Some l" for r l
    by (rule leader_merge [OF i(2) u v uv(1) that])
  have edges: "y \<in> set (neighbors (merge_nodes u v (m_iGraph c)) x)"
    if "b \<in> set (neighbors g0 a)" "getCoalescedLeader ((m_coalescedRegs c)(v \<mapsto> u)) a = Some x"
      "getCoalescedLeader ((m_coalescedRegs c)(v \<mapsto> u)) b = Some y" for a b x y
  proof -
    obtain l k where lk: "getCoalescedLeader (m_coalescedRegs c) a = Some l" "getCoalescedLeader (m_coalescedRegs c) b = Some k"
      using leader_returns [OF i(2)] by metis
    then have "k \<in> set (neighbors (m_iGraph c) l)" using i(5) that(1) by blast
    from igm.edge_survives [OF pre this] show ?thesis
      using leader lk that(2,3) by (simp split: if_splits)
  qed
  have lead: "\<exists>l. getCoalescedLeader ((m_coalescedRegs c)(v \<mapsto> u)) a = Some l \<and>
        has_node (merge_nodes u v (m_iGraph c)) l \<and> getClass t l = getClass t a \<and> (isPhysical a \<longrightarrow> l = a)"
    if h: "has_node g0 a" for a
  proof -
    obtain l where l: "getCoalescedLeader (m_coalescedRegs c) a = Some l" "has_node (m_iGraph c) l"
      "getClass t l = getClass t a" "isPhysical a \<longrightarrow> l = a"
      using i(4) [OF h] by blast
    have "isPhysical a \<Longrightarrow> l \<noteq> v" using l(4) uv(2) by (auto simp: isPhysical_def)
    then show ?thesis
      using leader [OF l(1)] l nodes uv(1,3,4) by (intro exI [of _ "if l = v then u else l"]) auto
  qed
  show ?thesis
    unfolding coalesce_inv_def using f igm.inv_merge [OF pre] acyclic_merge [OF i(2) u uv(1)] nodes i(3,6-9) lead edges by auto
qed

lemma add_affinity_inv:
  assumes "coalesce_inv t g0 c" "has_node g0 y"
  shows "coalesce_inv t g0 (add_affinity x y c)"
proof -
  have aff: "has_node g0 p" if "m_affinity (add_affinity x y c) v = Some ps" "p \<in> set ps" for v ps p
  proof (cases "v = x")
    case True
    then have "p = y \<or> (\<exists>qs. m_affinity c x = Some qs \<and> p \<in> set qs)"
      using that by (cases "m_affinity c x") (auto simp: add_affinity_def)
    then show ?thesis using assms coalesce_invD(6) [OF assms(1)] by blast
  next
    case False
    then show ?thesis using that coalesce_invD(6) [OF assms(1)] by (simp add: add_affinity_def)
  qed
  have "m_iGraph (add_affinity x y c) = m_iGraph c" "m_coalescedRegs (add_affinity x y c) = m_coalescedRegs c"
    "m_selectStack (add_affinity x y c) = m_selectStack c" "m_removedNodes (add_affinity x y c) = m_removedNodes c"
    "m_allocatedRegs (add_affinity x y c) = m_allocatedRegs c"
    by (simp_all add: add_affinity_def)
  then show ?thesis using assms(1) aff unfolding coalesce_inv_def by simp
qed


section \<open>The loop\<close>

definition graph_size :: "ra_ctx \<Rightarrow> nat" where
  "graph_size c = card (igraph_nodes (m_iGraph c))"

lemma graph_size_merge:
  assumes "igraph_wf (m_iGraph c)" "u \<noteq> v" "has_node (m_iGraph c) u" "has_node (m_iGraph c) v"
    "v \<notin> set (neighbors (m_iGraph c) u)"
  shows "graph_size (do_coalesce t cc u v c) < graph_size c"
proof -
  have "igraph_nodes (m_iGraph (do_coalesce t cc u v c)) = igraph_nodes (m_iGraph c) - {v}"
    using igm.nodes_merge [OF assms(1,2) _ _ assms(5)] assms(3,4) do_coalesce_fields [of t cc u v c]
    by (simp add: has_node_iff)
  moreover have "v \<in> igraph_nodes (m_iGraph c)" "finite (igraph_nodes (m_iGraph c))"
    using assms(4) by (simp_all add: has_node_iff igraph_nodes_def)
  ultimately show ?thesis unfolding graph_size_def by (simp only: card_Diff1_less)
qed

lemma try_candidate_correct:
  assumes inv: "coalesce_inv t g0 c"
  shows "\<exists>c' ch. try_candidate t cc cand c = Some (c', ch) \<and> coalesce_inv t g0 c' \<and>
    m_reservedRegs c' = m_reservedRegs c \<and> (if ch then graph_size c' < graph_size c else graph_size c' \<le> graph_size c)"
proof -
  note i = coalesce_invD [OF inv]
  obtain u0 v0 where l: "getCoalescedLeader (m_coalescedRegs c) (cand_dst cand) = Some u0" "is_leader (m_coalescedRegs c) u0"
    "getCoalescedLeader (m_coalescedRegs c) (cand_src cand) = Some v0" "is_leader (m_coalescedRegs c) v0"
    using leader_returns [OF i(2)] by metis
  show ?thesis
  proof (cases "u0 = v0")
    case True
    then show ?thesis using inv l by (intro exI [of _ c] exI [of _ False]) (simp add: try_candidate_def)
  next
    case False
    obtain u v where uv: "(if isVirtual u0 \<and> isPhysical v0 then (v0, u0) else (u0, v0)) = (u, v)" by (metis surj_pair)
    then have ne: "u \<noteq> v" and lead: "is_leader (m_coalescedRegs c) u" "is_leader (m_coalescedRegs c) v"
      and virt: "isPhysical u \<and> isPhysical v \<or> isVirtual v"
      using False l by (auto simp: isPhysical_def split: if_splits)
    let ?skip = "isPhysical u \<and> isPhysical v \<or> u \<in> m_reservedRegs c \<or> v \<in> m_reservedRegs c \<or> getClass t u \<noteq> getClass t v \<or>
      \<not> has_node (m_iGraph c) u \<or> \<not> has_node (m_iGraph c) v \<or> v \<in> set (neighbors (m_iGraph c) u) \<or> u \<in> set (neighbors (m_iGraph c) v)"
    let ?can = "if isPhysical u then satisfies_george t c u v else satisfies_briggs t c u v"
    have run: "try_candidate t cc cand c = (if ?skip then Some (c, False) else if ?can then Some (do_coalesce t cc u v c, True)
        else Some (add_affinity v u (add_affinity u v c), False))"
      using l False uv by (simp add: try_candidate_def)
    show ?thesis
    proof (cases ?skip)
      case True
      then show ?thesis using inv run by (intro exI [of _ c] exI [of _ False]) simp
    next
      case ns: False
      show ?thesis
      proof (cases ?can)
        case True
        have "coalesce_inv t g0 (do_coalesce t cc u v c)"
          using ns virt by (intro do_coalesce_inv [OF inv lead ne]) auto
        moreover have "graph_size (do_coalesce t cc u v c) < graph_size c"
          using ns by (intro graph_size_merge [OF i(1) ne]) auto
        moreover have "try_candidate t cc cand c = Some (do_coalesce t cc u v c, True)"
          using run unfolding if_not_P [OF ns] if_P [OF True] .
        ultimately show ?thesis
          using do_coalesce_fields [of t cc u v c]
          by (intro exI [of _ "do_coalesce t cc u v c"] exI [of _ True]) simp
      next
        case False
        have "coalesce_inv t g0 (add_affinity v u (add_affinity u v c))"
          using ns i(3) by (intro add_affinity_inv inv) blast+
        moreover have "try_candidate t cc cand c = Some (add_affinity v u (add_affinity u v c), False)"
          using run unfolding if_not_P [OF ns] if_not_P [OF False] .
        moreover have "m_reservedRegs (add_affinity v u (add_affinity u v c)) = m_reservedRegs c"
          "graph_size (add_affinity v u (add_affinity u v c)) = graph_size c"
          by (simp_all add: add_affinity_def graph_size_def)
        ultimately show ?thesis
          by (intro exI [of _ "add_affinity v u (add_affinity u v c)"] exI [of _ False]) simp
      qed
    qed
  qed
qed

text \<open>A scan without a merge may still have recorded affinities; the graph is the same then.\<close>

lemma scan_candidates_correct:
  assumes "coalesce_inv t g0 c"
  shows "\<exists>c' ch. scan_candidates t cc cands c = Some (c', ch) \<and> coalesce_inv t g0 c' \<and>
    m_reservedRegs c' = m_reservedRegs c \<and> (if ch then graph_size c' < graph_size c else graph_size c' \<le> graph_size c)"
  using assms
proof (induction cands arbitrary: c)
  case Nil
  then show ?case by (intro exI [of _ c] exI [of _ False]) simp
next
  case (Cons cand cands)
  obtain c1 ch where t: "try_candidate t cc cand c = Some (c1, ch)" "coalesce_inv t g0 c1"
    "m_reservedRegs c1 = m_reservedRegs c" "if ch then graph_size c1 < graph_size c else graph_size c1 \<le> graph_size c"
    using try_candidate_correct [OF Cons.prems] by blast
  show ?case
  proof (cases ch)
    case True
    then show ?thesis using t by (intro exI [of _ c1] exI [of _ True]) simp
  next
    case False
    obtain c' ch' where "scan_candidates t cc cands c1 = Some (c', ch')" "coalesce_inv t g0 c'"
      "m_reservedRegs c' = m_reservedRegs c1" "if ch' then graph_size c' < graph_size c1 else graph_size c' \<le> graph_size c1"
      using Cons.IH [OF t(2)] by blast
    then show ?thesis using t False by (intro exI [of _ c'] exI [of _ ch']) (auto split: if_splits)
  qed
qed

lemma coalesce_loop_correct:
  assumes "coalesce_inv t g0 c"
  shows "\<exists>c' b. coalesce_loop t cc cands any c = Some (c', b) \<and> coalesce_inv t g0 c' \<and> m_reservedRegs c' = m_reservedRegs c"
  using assms
proof (induction "graph_size c" arbitrary: c any rule: less_induct)
  case less
  obtain c1 ch where s: "scan_candidates t cc cands c = Some (c1, ch)" "coalesce_inv t g0 c1"
    "m_reservedRegs c1 = m_reservedRegs c" "if ch then graph_size c1 < graph_size c else graph_size c1 \<le> graph_size c"
    using scan_candidates_correct [OF less.prems] by blast
  show ?case
  proof (cases ch)
    case True
    then show ?thesis
      using less.hyps [of c1 True] s by (subst coalesce_loop.simps) simp
  next
    case False
    then show ?thesis using s by (subst coalesce_loop.simps) simp
  qed
qed
end
