(* ===== verification/RegAlloc.thy ===== *)
theory RegAlloc
  imports RegCoalesce
begin

text \<open>
  A round of the allocator as \<open>MirRegisterAllocatorPass::run\<close>
  (EzTriple/src/RegisterAllocator/MirRegisterAllocatorPass.cpp) composes it: reset, graph,
  coalescing, degrees, simplification, colouring. The theorems connect the colours of a round
  that succeeds with the liveness of the function it was given.
\<close>

section \<open>The round\<close>

definition reset_round :: "ra_ctx \<Rightarrow> ra_ctx" where
  "reset_round c = c\<lparr>m_selectStack := [], m_removedNodes := {}, m_allocatedRegs := Map.empty, m_degree := [],
     m_iGraph := [], m_coalescedRegs := Map.empty, m_affinity := Map.empty\<rparr>"

definition buildInterferenceGraph ::
  "target_regs \<Rightarrow> calling_conv option \<Rightarrow> (mir_inst \<Rightarrow> bool) \<Rightarrow> liveness_result \<Rightarrow> mir_block list \<Rightarrow> ra_ctx \<Rightarrow> ra_ctx" where
  "buildInterferenceGraph t cc isDAlloc lv blocks c =
     c\<lparr>m_iGraph := bs_graph (build_blocks t cc isDAlloc lv blocks (m_iGraph c)),
       m_reservedRegs := m_reservedRegs c \<union> set (reserved_regs t cc [])\<rparr>"

definition allocate_round ::
  "((nat \<times> nat) \<Rightarrow> (nat \<times> nat) \<Rightarrow> bool) \<Rightarrow> target_regs \<Rightarrow> calling_conv option \<Rightarrow> (mir_inst \<Rightarrow> bool) \<Rightarrow> bool \<Rightarrow>
   liveness_result \<Rightarrow> mir_block list \<Rightarrow> ra_ctx \<Rightarrow> color_result option" where
  "allocate_round lt t cc isDAlloc coalescingEnabled lv blocks c =
     (let c1 = buildInterferenceGraph t cc isDAlloc lv blocks (reset_round c)
      in Option.bind (if coalescingEnabled then map_option fst (coalesce t cc blocks c1) else Some c1)
           (color_graph lt t cc (spill_cost blocks)))"

section \<open>Before and after coalescing\<close>

text \<open>No two distinct physical registers of the graph share hardware.\<close>

definition alias_free :: "target_regs \<Rightarrow> igraph \<Rightarrow> bool" where
  "alias_free t g \<longleftrightarrow>
     (\<forall>p q. has_node g p \<and> has_node g q \<and> isPhysical p \<and> isPhysical q \<and> p \<noteq> q \<longrightarrow> \<not> phys_conflict t p q)"

text \<open>Every register number is below the width of the colour mask.\<close>

definition fits_mask :: "target_regs \<Rightarrow> igraph \<Rightarrow> bool" where
  "fits_mask t g \<longleftrightarrow> (\<forall>v. has_node g v \<longrightarrow> small_id v) \<and> (\<forall>n cls. n \<in> set (tr_regs t cls) \<longrightarrow> n < 64)"

lemma coalesce_inv_start:
  assumes "igraph_wf (m_iGraph c)" "m_coalescedRegs c = Map.empty" "m_affinity c = Map.empty" "m_selectStack c = []"
    "m_removedNodes c = {}" "m_allocatedRegs c = Map.empty"
  shows "coalesce_inv t (m_iGraph c) c"
proof -
  have l: "getCoalescedLeader (m_coalescedRegs c) a = Some a" for a
    by (rule leader_self) (simp add: is_leader_def assms(2))
  show ?thesis
    unfolding coalesce_inv_def l using assms acyclic_empty by simp
qed

lemma coalesced_fresh:
  assumes inv: "coalesce_inv t g0 c" and m: "fits_mask t g0"
  shows "fresh_round t c"
proof -
  note i = coalesce_invD [OF inv]
  have "small_id l" if "m_affinity c v = Some ps" "p \<in> set ps" "getCoalescedLeader (m_coalescedRegs c) p = Some l" for v ps p l
  proof -
    have "has_node g0 p" by (rule i(6) [OF that(1,2)])
    then show ?thesis using i(3,4) that(3) m unfolding fits_mask_def by (metis option.inject)
  qed
  then show ?thesis
    using i(1-3,7-9) m by (auto simp: fresh_round_def small_ids_def fits_mask_def)
qed

lemma round_start:
  assumes "igraph_wf (bs_graph (build_blocks t cc isDAlloc lv blocks []))"
  shows "coalesce_inv t (bs_graph (build_blocks t cc isDAlloc lv blocks []))
    (buildInterferenceGraph t cc isDAlloc lv blocks (reset_round c))"
proof -
  let ?c = "buildInterferenceGraph t cc isDAlloc lv blocks (reset_round c)"
  have g: "m_iGraph ?c = bs_graph (build_blocks t cc isDAlloc lv blocks [])"
    by (simp add: buildInterferenceGraph_def reset_round_def)
  show ?thesis
    unfolding g [symmetric]
    by (rule coalesce_inv_start) (use assms in \<open>simp_all only: g\<close>, simp_all add: buildInterferenceGraph_def reset_round_def)
qed

text \<open>The context the colouring phases start from.\<close>

lemma round_coalesced:
  assumes wf: "igraph_wf g" and g: "g = bs_graph (build_blocks t cc isDAlloc lv blocks [])"
  shows "\<exists>c2. (if coalescingEnabled then map_option fst (coalesce t cc blocks (buildInterferenceGraph t cc isDAlloc lv blocks (reset_round c)))
       else Some (buildInterferenceGraph t cc isDAlloc lv blocks (reset_round c))) = Some c2 \<and>
     coalesce_inv t g c2 \<and> (\<not> coalescingEnabled \<longrightarrow> m_coalescedRegs c2 = Map.empty)"
proof -
  let ?c = "buildInterferenceGraph t cc isDAlloc lv blocks (reset_round c)"
  have start: "coalesce_inv t g ?c" using round_start wf unfolding g by blast
  show ?thesis
  proof (cases coalescingEnabled)
    case True
    obtain c2 b where "coalesce_loop t cc (candidates blocks) False ?c = Some (c2, b)" "coalesce_inv t g c2"
      using coalesce_loop_correct [OF start, of cc "candidates blocks" False] by blast
    then show ?thesis using True by (simp add: coalesce_def)
  next
    case False
    then show ?thesis using start by (simp add: buildInterferenceGraph_def reset_round_def)
  qed
qed

section \<open>Colours of the original registers\<close>

lemma colored_register:
  assumes inv: "coalesce_inv t g0 c" and fresh: "fresh_round t c"
    and run: "color_graph lt t cc cost c = Some (ColorSelected (SelectOk c'))" and a: "has_node g0 a"
  obtains l p where "getCoalescedLeader (m_coalescedRegs c) a = Some l" "has_node (m_iGraph c) l"
    "m_allocatedRegs c' l = Some p" "rewrite_ref c' a = Some p" "isPhysical p" "getClass t p = getClass t a"
    "isPhysical l \<Longrightarrow> p = l" "isPhysical a \<Longrightarrow> p = a"
proof -
  note ok = color_graph_ok [OF fresh run]
  obtain l where l: "getCoalescedLeader (m_coalescedRegs c) a = Some l" "has_node (m_iGraph c) l"
    "getClass t l = getClass t a" "isPhysical a \<longrightarrow> l = a"
    using coalesce_invD(4) [OF inv a] by blast
  obtain p where p: "m_allocatedRegs c' l = Some p" "isPhysical p" "getClass t p = getClass t l" "isPhysical l \<longrightarrow> p = l"
    using ok l(2) by blast
  have "m_coalescedRegs c' = m_coalescedRegs c" using ok by blast
  then have "rewrite_ref c' a = Some p"
    using l p by (auto simp: rewrite_ref_def isPhysical_def)
  then show thesis using that l p by auto
qed

text \<open>The allocation of a round separates two registers when it gives them hardware registers that do
  not overlap. What coalescing can do against it: two registers are, or were merged with, physical
  registers of the graph that are different names of one hardware register.\<close>

definition separates :: "target_regs \<Rightarrow> ra_ctx \<Rightarrow> reg_ref \<Rightarrow> reg_ref \<Rightarrow> bool" where
  "separates t c d l \<longleftrightarrow>
     (\<exists>p q. rewrite_ref c d = Some p \<and> rewrite_ref c l = Some q \<and> isPhysical p \<and> isPhysical q \<and> \<not> phys_conflict t p q)"

definition alias_merged :: "target_regs \<Rightarrow> igraph \<Rightarrow> ra_ctx \<Rightarrow> reg_ref \<Rightarrow> reg_ref \<Rightarrow> bool" where
  "alias_merged t g c d l \<longleftrightarrow>
     (\<exists>p q. getCoalescedLeader (m_coalescedRegs c) d = Some p \<and> getCoalescedLeader (m_coalescedRegs c) l = Some q \<and>
        isPhysical p \<and> isPhysical q \<and> has_node g p \<and> has_node g q \<and> p \<noteq> q \<and> phys_conflict t p q)"

lemma alias_free_not_merged: "alias_free t g \<Longrightarrow> \<not> alias_merged t g c d l"
  by (auto simp: alias_free_def alias_merged_def)

lemma uncoalesced_not_merged: "m_coalescedRegs c = Map.empty \<Longrightarrow> isVirtual d \<or> isVirtual l \<Longrightarrow> \<not> alias_merged t g c d l"
proof -
  assume e: "m_coalescedRegs c = Map.empty" and v: "isVirtual d \<or> isVirtual l"
  have "getCoalescedLeader (m_coalescedRegs c) r = Some r" for r by (rule leader_self) (simp add: is_leader_def e)
  then show ?thesis using v by (auto simp: alias_merged_def isPhysical_def)
qed

lemma merged_not_separated:
  assumes inv: "coalesce_inv t g0 c" and fresh: "fresh_round t c"
    and run: "color_graph lt t cc cost c = Some (ColorSelected (SelectOk c'))" and nodes: "has_node g0 d" "has_node g0 l"
    and m: "alias_merged t g0 c' d l"
  shows "\<not> separates t c' d l"
proof -
  have e: "m_coalescedRegs c' = m_coalescedRegs c" using color_graph_ok [OF fresh run] by blast
  obtain p q where pq: "getCoalescedLeader (m_coalescedRegs c) d = Some p" "getCoalescedLeader (m_coalescedRegs c) l = Some q"
    "isPhysical p" "isPhysical q" "phys_conflict t p q"
    using m unfolding alias_merged_def e by blast
  have "rewrite_ref c' d = Some p" using colored_register [OF inv fresh run nodes(1)] pq(1,3) by (metis option.inject)
  moreover have "rewrite_ref c' l = Some q" using colored_register [OF inv fresh run nodes(2)] pq(2,4) by (metis option.inject)
  ultimately show ?thesis using pq(5) by (simp add: separates_def)
qed

lemma colored_neighbors:
  assumes inv: "coalesce_inv t g0 c" and fresh: "fresh_round t c"
    and run: "color_graph lt t cc cost c = Some (ColorSelected (SelectOk c'))"
    and ab: "b \<in> set (neighbors g0 a)" "igraph_wf g0"
  shows "separates t c' a b \<or> alias_merged t g0 c' a b"
proof -
  note i = coalesce_invD [OF inv]
  have e: "m_coalescedRegs c' = m_coalescedRegs c" using color_graph_ok [OF fresh run] by blast
  have nodes: "has_node g0 a" "has_node g0 b"
    using ig.adj_nodes [OF ab(2,1)] by (simp_all add: has_node_iff)
  obtain x p where x: "getCoalescedLeader (m_coalescedRegs c) a = Some x" "has_node (m_iGraph c) x"
    "m_allocatedRegs c' x = Some p" "rewrite_ref c' a = Some p" "isPhysical p" "isPhysical x \<Longrightarrow> p = x"
    using colored_register [OF inv fresh run nodes(1)] by metis
  obtain y q where y: "getCoalescedLeader (m_coalescedRegs c) b = Some y" "has_node (m_iGraph c) y"
    "m_allocatedRegs c' y = Some q" "rewrite_ref c' b = Some q" "isPhysical q" "isPhysical y \<Longrightarrow> q = y"
    using colored_register [OF inv fresh run nodes(2)] by metis
  have xy: "y \<in> set (neighbors (m_iGraph c) x)" by (rule i(5) [OF ab(1) x(1) y(1)])
  then have yx: "x \<in> set (neighbors (m_iGraph c) y)" and ne: "x \<noteq> y"
    using ig.adj_sym [OF i(1)] ig.adj_irrefl [OF i(1)] by auto
  have col: "\<And>a b p q. isVirtual a \<Longrightarrow> b \<in> set (neighbors (m_iGraph c) a) \<Longrightarrow> m_allocatedRegs c' a = Some p \<Longrightarrow>
       m_allocatedRegs c' b = Some q \<Longrightarrow> \<not> phys_conflict t p q"
    using color_graph_ok [OF fresh run] by blast
  show ?thesis
  proof (cases "phys_conflict t p q")
    case False
    then show ?thesis using x(4,5) y(4,5) by (auto simp: separates_def)
  next
    case True
    then have "\<not> (isVirtual x \<or> isVirtual y)"
      using col [OF _ xy x(3) y(3)] col [OF _ yx y(3) x(3)] phys_conflict_sym by blast
    then have ph: "isPhysical x" "isPhysical y" by (simp_all add: isPhysical_def)
    have "alias_merged t g0 c' a b"
      unfolding alias_merged_def e using x(1,2,6) y(1,2,6) ph i(3) ne True by blast
    then show ?thesis by blast
  qed
qed

section \<open>The colours of a round respect liveness\<close>

lemma live_at_used:
  "live_at cfg blocks reg i k \<Longrightarrow> \<exists>b \<in> set blocks. \<exists>inst \<in> set (mb_insts b). reg \<in> set (getUsedRegisters inst)"
  by (induction rule: live_at.induct) (auto intro!: bexI nth_mem)

lemma phys_conflict_class:
  "phys_conflict t p q \<Longrightarrow> getClass t p = getClass t d \<Longrightarrow> getClass t q = getClass t l \<Longrightarrow> may_share t d l"
  by (auto simp: phys_conflict_def isSameBank_def may_share_def getBank_def split: option.splits)

lemma allocate_round_ok:
  assumes wf: "igraph_wf g" and g: "g = bs_graph (build_blocks t cc isDAlloc lv blocks [])" and m: "fits_mask t g"
    and run: "allocate_round lt t cc isDAlloc co lv blocks c = Some (ColorSelected (SelectOk c'))"
  obtains c2 where "coalesce_inv t g c2" "fresh_round t c2" "\<not> co \<longrightarrow> m_coalescedRegs c2 = Map.empty"
    "color_graph lt t cc (spill_cost blocks) c2 = Some (ColorSelected (SelectOk c'))"
proof -
  obtain c2 where c2: "(if co then map_option fst (coalesce t cc blocks (buildInterferenceGraph t cc isDAlloc lv blocks (reset_round c)))
       else Some (buildInterferenceGraph t cc isDAlloc lv blocks (reset_round c))) = Some c2"
    "coalesce_inv t g c2" "\<not> co \<longrightarrow> m_coalescedRegs c2 = Map.empty"
    using round_coalesced [OF wf g] by blast
  have "color_graph lt t cc (spill_cost blocks) c2 = Some (ColorSelected (SelectOk c'))"
    using run unfolding allocate_round_def Let_def c2(1) by simp
  then show thesis using that c2(2,3) coalesced_fresh [OF c2(2) m] by blast
qed

lemma allocation_separates:
  assumes ids: "distinct (map mb_id blocks)" "\<forall>b \<in> set blocks. fresh_in r (mb_id b)"
    and lv: "computeGlobalLiveness regInfo cfg blocks r = Some lv"
    and g: "g = bs_graph (build_blocks t cc isDAlloc lv blocks [])"
    and m: "fits_mask t g"
    and run: "allocate_round lt t cc isDAlloc co lv blocks c = Some (ColorSelected (SelectOk c'))"
    and pt: "i < length blocks" "k < length (mb_insts (blocks ! i))"
    and d: "d \<in> writes cc (mb_insts (blocks ! i) ! k)" and l: "live_at cfg blocks l i (Suc k)"
    and dl: "d \<noteq> l" "isVirtual d \<or> isVirtual l"
  shows "(separates t c' d l \<longleftrightarrow> \<not> alias_merged t g c' d l) \<and> (\<not> co \<or> alias_free t g \<longrightarrow> separates t c' d l)"
proof -
  have graph: "igraph_wf g" "\<And>x y. y \<in> set (neighbors g x) \<longleftrightarrow>
      (\<exists>i < length blocks. \<exists>k < length (mb_insts (blocks ! i)).
         inst_edge t cc (mb_insts (blocks ! i) ! k) {reg. live_at cfg blocks reg i (Suc k)} x y)"
    unfolding g using interference_graph_edges [OF ids lv] by blast+
  obtain c2 where c2: "coalesce_inv t g c2" "fresh_round t c2" "\<not> co \<longrightarrow> m_coalescedRegs c2 = Map.empty"
    and col: "color_graph lt t cc (spill_cost blocks) c2 = Some (ColorSelected (SelectOk c'))"
    by (rule allocate_round_ok [OF graph(1) g m run])
  have nodes: "has_node g d" "has_node g l"
    using interference_graph_nodes [of "blocks ! i" blocks "mb_insts (blocks ! i) ! k" d cc] pt d
      live_at_used [OF l] interference_graph_nodes [of _ blocks _ l cc] unfolding g touched_def by (simp, blast)
  have "separates t c' d l \<or> alias_merged t g c' d l"
  proof (cases "may_share t d l")
    case True
    have "inst_edge t cc (mb_insts (blocks ! i) ! k) {reg. live_at cfg blocks reg i (Suc k)} d l"
      unfolding inst_edge_def using d l dl(1) True by blast
    then have "l \<in> set (neighbors g d)" using graph(2) pt by blast
    from colored_neighbors [OF c2(1,2) col this graph(1)] show ?thesis .
  next
    case False
    then show ?thesis
      unfolding separates_def using colored_register [OF c2(1,2) col] phys_conflict_class nodes by metis
  qed
  moreover have "\<not> alias_merged t g c' d l" if "\<not> co \<or> alias_free t g"
    using that c2(3) alias_free_not_merged uncoalesced_not_merged [OF _ dl(2)] color_graph_ok [OF c2(2) col] by metis
  ultimately show ?thesis using merged_not_separated [OF c2(1,2) col nodes] by blast
qed

section \<open>A sample round\<close>

text \<open>A block that writes a physical and a virtual register, copies the virtual one, and then reads
  the physical one and the copy. Coalescing merges the copy.\<close>

declare getCoalescedLeader.simps [code]

lemma coalesce_loop_code [code]:
  "coalesce_loop t cc cands any c =
     (case scan_candidates t cc cands c of
        None \<Rightarrow> None
      | Some (c', changed) \<Rightarrow> if changed then coalesce_loop t cc cands True c' else Some (c', any))"
  by (subst coalesce_loop.simps) (auto split: option.split)

definition ra_sample_blocks :: "mir_block list" where
  "ra_sample_blocks = [\<lparr>mb_id = 2, mb_insts = [sample_inst [OpReg (PReg (Some 2) 5)] [Write] 0, sample_inst [OpReg (VReg 8)] [Write] 0,
     (sample_inst [OpReg (VReg 9), OpReg (VReg 8)] [Write, Read] 0)\<lparr>mi_opcode := MOV\<rparr>,
     sample_inst [OpReg (PReg (Some 2) 5)] [Read] 0, sample_inst [OpReg (VReg 9)] [Read] 0]\<rparr>]"
definition ra_sample_target :: target_regs where
  "ra_sample_target = \<lparr>tr_bank = \<lambda>_. Some 3, tr_regs = \<lambda>_. [5, 6], tr_bankClasses = \<lambda>_. [2], tr_vclass = \<lambda>_. Some 2\<rparr>"
definition ra_empty :: ra_ctx where
  "ra_empty = \<lparr>m_iGraph = [], m_selectStack = [], m_removedNodes = {}, m_reservedRegs = {}, m_allocatedRegs = Map.empty, m_degree = [],
     m_unspillableRegs = {}, m_coalescedRegs = Map.empty, m_affinity = Map.empty, m_physRegUses = []\<rparr>"

definition ra_sample_built :: igraph where
  "ra_sample_built = [(VReg 9, [PReg (Some 2) 5]), (PReg (Some 2) 5, [VReg 9, VReg 8]), (VReg 8, [PReg (Some 2) 5])]"
definition ra_sample_graph :: igraph where
  "ra_sample_graph = [(VReg 9, [PReg (Some 2) 5]), (PReg (Some 2) 5, [VReg 9])]"
definition ra_sample_start :: ra_ctx where
  "ra_sample_start = ra_empty\<lparr>m_iGraph := ra_sample_graph, m_coalescedRegs := [VReg 8 \<mapsto> VReg 9]\<rparr>"

lemma ra_sample_graph_built:
  assumes l: "m_liveOut lv 2 = Some []"
  shows "bs_graph (build_blocks ra_sample_target None (\<lambda>_. False) lv ra_sample_blocks []) = ra_sample_built"
proof -
  have "build_blocks ra_sample_target None (\<lambda>_. False) lv ra_sample_blocks [] =
      build_blocks ra_sample_target None (\<lambda>_. False) (empty_liveness\<lparr>m_liveOut := [2 \<mapsto> []]\<rparr>) ra_sample_blocks []"
    by (simp add: build_blocks_def build_block_def ra_sample_blocks_def l)
  moreover have "bs_graph (build_blocks ra_sample_target None (\<lambda>_. False) (empty_liveness\<lparr>m_liveOut := [2 \<mapsto> []]\<rparr>) ra_sample_blocks []) =
      ra_sample_built" by code_simp
  ultimately show ?thesis by simp
qed

lemma ra_sample_fits: "fits_mask ra_sample_target ra_sample_built"
  by (auto simp: fits_mask_def has_node_def ra_sample_built_def ra_sample_target_def small_id_def isPhysical_def split: if_splits)

lemma ra_sample_coalesced:
  "coalesce ra_sample_target None ra_sample_blocks (ra_empty\<lparr>m_iGraph := ra_sample_built\<rparr>) = Some (ra_sample_start, True)"
proof -
  have c: "candidates ra_sample_blocks = [\<lparr>cand_dst = VReg 9, cand_src = VReg 8, cand_isCopy = True\<rparr>]" by code_simp
  have d: "do_coalesce ra_sample_target None (VReg 9) (VReg 8) (ra_empty\<lparr>m_iGraph := ra_sample_built\<rparr>) = ra_sample_start"
    by (simp add: ra_sample_start_def ra_sample_graph_def ra_sample_built_def ra_empty_def do_coalesce_def isPhysical_def
      merge_nodes_def erase_neighbor_def merge_neighbor_def insert_neighbor_def neighbors_def set_insert_def)
  have m: "try_candidate ra_sample_target None \<lparr>cand_dst = VReg 9, cand_src = VReg 8, cand_isCopy = True\<rparr> (ra_empty\<lparr>m_iGraph := ra_sample_built\<rparr>) =
      Some (ra_sample_start, True)"
    unfolding d [symmetric]
    by (simp add: ra_empty_def ra_sample_built_def try_candidate_def leader_self is_leader_def isPhysical_def has_node_def neighbors_def
        satisfies_briggs_def set_insert_def significant_def)
      (simp add: color_limit_def ra_sample_target_def)
  have "getCoalescedLeader [VReg 8 \<mapsto> VReg 9] (VReg 8) = Some (VReg 9)" "getCoalescedLeader [VReg 8 \<mapsto> VReg 9] (VReg 9) = Some (VReg 9)"
    by code_simp+
  then have n: "try_candidate ra_sample_target None \<lparr>cand_dst = VReg 9, cand_src = VReg 8, cand_isCopy = True\<rparr> ra_sample_start =
      Some (ra_sample_start, False)"
    by (simp add: try_candidate_def ra_sample_start_def ra_empty_def)
  show ?thesis by (simp add: coalesce_def c m n coalesce_loop_code)
qed

lemma ra_sample_degrees: "evaluateInterferenceGraphDegree ra_sample_start =
   ra_sample_start\<lparr>m_degree := [(VReg 9, Suc 0), (PReg (Some 2) 5, size_max)], m_allocatedRegs := [PReg (Some 2) 5 \<mapsto> PReg (Some 2) 5]\<rparr>"
  by (simp add: evaluateInterferenceGraphDegree_def eval_node_def ra_sample_start_def ra_sample_graph_def ra_empty_def isPhysical_def)

lemma ra_sample_simplified: "\<exists>D. simplify lt ra_sample_target cost (ra_sample_start\<lparr>m_degree := [(VReg 9, Suc 0), (PReg (Some 2) 5, size_max)], m_allocatedRegs := A\<rparr>)
   = Some (ra_sample_start\<lparr>m_degree := D, m_allocatedRegs := A, m_selectStack := [VReg 9], m_removedNodes := {VReg 9}\<rparr>)"
  by (intro exI [of _ "[(VReg 9, Suc 0), (PReg (Some 2) 5, size_max)]"])
   (simp add: simplify_def simplify_step_def choose_candidate_def relax_neighbor_def virtual_nodes_def ra_sample_start_def ra_sample_graph_def
     ra_empty_def isPhysical_def Let_def color_limit_def ra_sample_target_def addNode_def has_node_def neighbors_def del: One_nat_def)

lemma ra_sample_colored: "selectColors ra_sample_target None (ra_sample_start\<lparr>m_degree := D, m_allocatedRegs := [PReg (Some 2) 5 \<mapsto> PReg (Some 2) 5],
    m_selectStack := [VReg 9], m_removedNodes := {VReg 9}\<rparr>)
   = Some (SelectOk (ra_sample_start\<lparr>m_degree := D, m_allocatedRegs := [PReg (Some 2) 5 \<mapsto> PReg (Some 2) 5, VReg 9 \<mapsto> PReg (Some 2) 6]\<rparr>))"
  by (simp add: selectColors_def choose_color_def used_colors_def lock_reserved_def lock_neighbor_def first_free_def note_callee_saved_def
    neighbors_def ra_sample_start_def ra_sample_graph_def ra_empty_def ra_sample_target_def isPhysical_def isSameBank_def markUsed_def isUsed_def Let_def)

lemma ra_sample_round:
  assumes "m_liveOut lv 2 = Some []"
  obtains c' where "allocate_round lt ra_sample_target None (\<lambda>_. False) True lv ra_sample_blocks ra_empty = Some (ColorSelected (SelectOk c'))"
    "m_coalescedRegs c' = [VReg 8 \<mapsto> VReg 9]" "rewrite_ref c' (VReg 8) = Some (PReg (Some 2) 6)"
proof -
  have b: "buildInterferenceGraph ra_sample_target None (\<lambda>_. False) lv ra_sample_blocks (reset_round ra_empty) = ra_empty\<lparr>m_iGraph := ra_sample_built\<rparr>"
    using ra_sample_graph_built [OF assms]
    by (simp add: buildInterferenceGraph_def reset_round_def ra_empty_def ra_sample_built_def reserved_regs_def)
  let ?A = "[PReg (Some 2) 5 \<mapsto> PReg (Some 2) 5]"
  obtain D where s: "simplify lt ra_sample_target (spill_cost ra_sample_blocks) (evaluateInterferenceGraphDegree ra_sample_start) =
      Some (ra_sample_start\<lparr>m_degree := D, m_allocatedRegs := ?A, m_selectStack := [VReg 9], m_removedNodes := {VReg 9}\<rparr>)"
    unfolding ra_sample_degrees using ra_sample_simplified by blast
  let ?c = "ra_sample_start\<lparr>m_degree := D, m_allocatedRegs := ?A(VReg 9 \<mapsto> PReg (Some 2) 6)\<rparr>"
  have "allocate_round lt ra_sample_target None (\<lambda>_. False) True lv ra_sample_blocks ra_empty = Some (ColorSelected (SelectOk ?c))"
    by (simp add: allocate_round_def b ra_sample_coalesced color_graph_def s ra_sample_colored)
  moreover have m: "m_coalescedRegs ?c = [VReg 8 \<mapsto> VReg 9]" by (simp add: ra_sample_start_def)
  moreover have "getCoalescedLeader [VReg 8 \<mapsto> VReg 9] (VReg 8) = Some (VReg 9)" by code_simp
  then have "rewrite_ref ?c (VReg 8) = Some (PReg (Some 2) 6)" by (simp add: rewrite_ref_def isPhysical_def m [simplified])
  ultimately show thesis using that by blast
qed

section \<open>Properties\<close>




section \<open>Every round ends\<close>

lemma build_blocks_wf: "igraph_wf (bs_graph (build_blocks t cc isDAlloc lv blocks []))"
  using build_blocks_edges [of "\<lparr>bs_graph = [], bs_live = [], bs_hasCalls = False, bs_hasDynamicAllocs = False\<rparr>"]
  unfolding build_blocks_def by (simp add: igraph_wf_Nil)

lemma evaluate_graph: "m_iGraph (evaluateInterferenceGraphDegree c) = m_iGraph c"
  using eval_fold [of "m_iGraph c" "c\<lparr>m_degree := []\<rparr>"] by (auto simp: evaluateInterferenceGraphDegree_def)

lemma simplify_None_iff:
  "simplify lt t cost c = None \<longleftrightarrow> (\<exists>n. isVirtual n \<and> has_node (m_iGraph c) n \<and> getClass t n = None)"
  by (auto simp: simplify_def Let_def virtual_nodes_iff)

lemma select_loop_class:
  "select_loop t cc stack spilled c = Some (SelectNoClass n) \<Longrightarrow> n \<in> set stack \<and> getClass t n = None"
proof (induction t cc stack spilled c rule: select_loop.induct)
  case (2 t cc node stack spilled c)
  then show ?case by (auto simp: Let_def split: option.splits if_splits)
qed (simp split: if_splits)

lemma color_graph_no_class:
  assumes f: "fresh_round t c"
  shows "color_graph lt t cc cost c \<noteq> Some (ColorSelected (SelectNoClass n))"
proof
  assume "color_graph lt t cc cost c = Some (ColorSelected (SelectNoClass n))"
  then obtain c1 where s: "simplify lt t cost (evaluateInterferenceGraphDegree c) = Some c1"
    and sel: "select_loop t cc (m_selectStack c1) [] c1 = Some (SelectNoClass n)"
    by (auto simp: color_graph_def selectColors_def split: option.splits)
  have cls: "\<forall>n \<in> set (virtual_nodes (m_iGraph c)). getClass t n \<noteq> None"
    using s simplify_None_iff [of lt t cost "evaluateInterferenceGraphDegree c"]
    by (auto simp: evaluate_graph virtual_nodes_iff)
  have "set (m_selectStack c1) = set (virtual_nodes (m_iGraph c))"
    using simplified_round [OF f cls, of lt cost] s by auto
  then show False using select_loop_class [OF sel] cls by blast
qed

lemma round_returns:
  assumes g: "g = bs_graph (build_blocks t cc isDAlloc lv blocks [])" and m: "fits_mask t g"
    and cls: "\<forall>v. has_node g v \<and> isPhysical v \<longrightarrow> getClass t v \<noteq> None"
  shows "\<exists>res. allocate_round lt t cc isDAlloc co lv blocks c = Some res \<and>
    (res = ColorMissingClass \<longleftrightarrow> (\<exists>v. has_node g v \<and> isVirtual v \<and> getClass t v = None)) \<and>
    (\<forall>n. res \<noteq> ColorSelected (SelectNoClass n))"
proof -
  have wf: "igraph_wf g" unfolding g by (rule build_blocks_wf)
  obtain c2 where c2: "(if co then map_option fst (coalesce t cc blocks (buildInterferenceGraph t cc isDAlloc lv blocks (reset_round c)))
       else Some (buildInterferenceGraph t cc isDAlloc lv blocks (reset_round c))) = Some c2" "coalesce_inv t g c2"
    using round_coalesced [OF wf g] by blast
  have f: "fresh_round t c2" by (rule coalesced_fresh [OF c2(2) m])
  obtain res where res: "color_graph lt t cc (spill_cost blocks) c2 = Some res"
    using color_graph_returns [OF f] by fast
  have run: "allocate_round lt t cc isDAlloc co lv blocks c = Some res"
    unfolding allocate_round_def Let_def c2(1) using res by simp
  have "res = ColorMissingClass \<longleftrightarrow> simplify lt t (spill_cost blocks) (evaluateInterferenceGraphDegree c2) = None"
    using res by (auto simp: color_graph_def split: option.splits)
  also have "\<dots> \<longleftrightarrow> (\<exists>v. has_node g v \<and> isVirtual v \<and> getClass t v = None)"
    unfolding simplify_None_iff evaluate_graph
  proof
    assume "\<exists>n. isVirtual n \<and> has_node (m_iGraph c2) n \<and> getClass t n = None"
    then show "\<exists>v. has_node g v \<and> isVirtual v \<and> getClass t v = None"
      using coalesce_invD(3) [OF c2(2)] by blast
  next
    assume "\<exists>v. has_node g v \<and> isVirtual v \<and> getClass t v = None"
    then obtain v where v: "has_node g v" "getClass t v = None" by blast
    then obtain l where l: "has_node (m_iGraph c2) l" "getClass t l = None"
      using coalesce_invD(4) [OF c2(2) v(1)] by auto
    then have "isVirtual l" using cls coalesce_invD(3) [OF c2(2) l(1)] by (auto simp: isPhysical_def)
    then show "\<exists>n. isVirtual n \<and> has_node (m_iGraph c2) n \<and> getClass t n = None" using l by blast
  qed
  finally show ?thesis using run res color_graph_no_class [OF f] by blast
qed

text \<open>C2: Every round of the allocator ends: coalescing stops, leader chains have no cycle, and
  simplification empties the graph even when no node has a low degree. The round fails before
  colouring exactly when some virtual register of the function has no register class, and
  colouring never meets such a register.\<close>

theorem allocation_round_returns:
  assumes "g = bs_graph (build_blocks t cc isDAlloc lv blocks [])" "fits_mask t g"
    and "\<forall>v. has_node g v \<and> isPhysical v \<longrightarrow> getClass t v \<noteq> None"
  shows "\<exists>res. allocate_round lt t cc isDAlloc co lv blocks c = Some res \<and>
    (res = ColorMissingClass \<longleftrightarrow> (\<exists>v. has_node g v \<and> isVirtual v \<and> getClass t v = None)) \<and>
    (\<forall>n. res \<noteq> ColorSelected (SelectNoClass n))"
  by (rule round_returns [OF assms])

theorem allocation_round_returns_witness:
  "\<exists>res. allocate_round (\<lambda>_ _. False) ra_sample_target None (\<lambda>_. False) True (empty_liveness\<lparr>m_liveOut := [2 \<mapsto> []]\<rparr>)
     ra_sample_blocks ra_empty = Some res \<and> res \<noteq> ColorMissingClass"
proof -
  let ?g = "bs_graph (build_blocks ra_sample_target None (\<lambda>_. False) (empty_liveness\<lparr>m_liveOut := [2 \<mapsto> []]\<rparr>) ra_sample_blocks [])"
  have g: "?g = ra_sample_built" by (rule ra_sample_graph_built) simp
  have cls: "getClass ra_sample_target v \<noteq> None" if "has_node ?g v" for v
    using that unfolding g by (auto simp: has_node_def ra_sample_built_def ra_sample_target_def split: if_splits)
  have "fits_mask ra_sample_target ?g" unfolding g by (rule ra_sample_fits)
  from allocation_round_returns [OF refl this, of "\<lambda>_ _. False" True ra_empty] cls show ?thesis by blast
qed


section \<open>Reserved registers\<close>

definition unreserved_targets :: "ra_ctx \<Rightarrow> bool" where
  "unreserved_targets c \<longleftrightarrow>
     (\<forall>v u. m_coalescedRegs c v = Some u \<longrightarrow> u \<notin> m_reservedRegs c) \<and>
     (\<forall>v ps p. m_affinity c v = Some ps \<longrightarrow> p \<in> set ps \<longrightarrow> p \<notin> m_reservedRegs c)"

lemma unreserved_targetsD:
  assumes "unreserved_targets c"
  shows "m_coalescedRegs c v = Some u \<Longrightarrow> u \<notin> m_reservedRegs c"
    "m_affinity c v = Some ps \<Longrightarrow> p \<in> set ps \<Longrightarrow> p \<notin> m_reservedRegs c"
  using assms unfolding unreserved_targets_def by blast+

lemma add_affinity_reserved:
  assumes "unreserved_targets c" "y \<notin> m_reservedRegs c"
  shows "unreserved_targets (add_affinity x y c)" "m_reservedRegs (add_affinity x y c) = m_reservedRegs c"
proof -
  have "p \<notin> m_reservedRegs c" if "m_affinity (add_affinity x y c) v = Some ps" "p \<in> set ps" for v ps p
    using that assms(2) unreserved_targetsD(2) [OF assms(1)]
    by (cases "m_affinity c x") (auto simp: add_affinity_def split: if_splits)
  then show "unreserved_targets (add_affinity x y c)"
    using unreserved_targetsD(1) [OF assms(1)] by (auto simp: unreserved_targets_def add_affinity_def)
qed (simp add: add_affinity_def)

lemma do_coalesce_reserved:
  assumes "unreserved_targets c" "u \<notin> m_reservedRegs c"
  shows "unreserved_targets (do_coalesce t cc u v c)"
  using do_coalesce_fields [of t cc u v c] assms unfolding unreserved_targets_def by auto

lemma try_candidate_reserved:
  assumes "try_candidate t cc cand c = Some (c', ch)" "unreserved_targets c"
  shows "unreserved_targets c' \<and> m_reservedRegs c' = m_reservedRegs c"
proof -
  obtain u0 v0 where l: "getCoalescedLeader (m_coalescedRegs c) (cand_dst cand) = Some u0"
    "getCoalescedLeader (m_coalescedRegs c) (cand_src cand) = Some v0"
    using assms(1) unfolding try_candidate_def by (auto split: option.splits)
  obtain u v where uv: "(if isVirtual u0 \<and> isPhysical v0 then (v0, u0) else (u0, v0)) = (u, v)" by (metis surj_pair)
  have "c' = c \<or> u \<notin> m_reservedRegs c \<and> v \<notin> m_reservedRegs c \<and>
      (c' = do_coalesce t cc u v c \<or> c' = add_affinity v u (add_affinity u v c))"
    using assms(1) l uv unfolding try_candidate_def by (simp split: if_splits)
  then show ?thesis
  proof (elim disjE conjE)
    assume a: "u \<notin> m_reservedRegs c" "v \<notin> m_reservedRegs c" "c' = add_affinity v u (add_affinity u v c)"
    note av = add_affinity_reserved [OF assms(2) a(2), of u]
    show ?thesis using add_affinity_reserved [OF av(1), of u v] av(2) a by simp
  qed (use assms(2) do_coalesce_reserved do_coalesce_fields [of t cc u v c] in auto)
qed

lemma scan_candidates_reserved:
  "scan_candidates t cc cands c = Some (c', ch) \<Longrightarrow> unreserved_targets c \<Longrightarrow>
     unreserved_targets c' \<and> m_reservedRegs c' = m_reservedRegs c"
proof (induction cands arbitrary: c)
  case (Cons cand cands)
  obtain c1 b where s: "try_candidate t cc cand c = Some (c1, b)"
    using Cons.prems(1) by (auto split: option.splits)
  note t = try_candidate_reserved [OF s Cons.prems(2)]
  show ?case using Cons.IH [of c1] Cons.prems(1) s t by (cases b) auto
qed simp

lemma coalesce_loop_reserved:
  assumes "coalesce_inv t g0 c" "unreserved_targets c" "coalesce_loop t cc cands any c = Some (c', b)"
  shows "unreserved_targets c' \<and> m_reservedRegs c' = m_reservedRegs c"
  using assms
proof (induction "graph_size c" arbitrary: c any rule: less_induct)
  case less
  obtain c1 ch where s: "scan_candidates t cc cands c = Some (c1, ch)" "coalesce_inv t g0 c1"
    "if ch then graph_size c1 < graph_size c else graph_size c1 \<le> graph_size c"
    using scan_candidates_correct [OF less.prems(1)] by blast
  note u = scan_candidates_reserved [OF s(1) less.prems(2)]
  show ?case
  proof (cases ch)
    case True
    then have "coalesce_loop t cc cands True c1 = Some (c', b)"
      using less.prems(3) s(1) by (subst (asm) coalesce_loop.simps) simp
    then show ?thesis using less.hyps [of c1 True] s u True by simp
  next
    case False
    then show ?thesis using less.prems(3) s(1) u by (subst (asm) coalesce_loop.simps) simp
  qed
qed

lemma leader_target:
  assumes "getCoalescedLeader m r = Some l"
  shows "l = r \<or> (\<exists>v. m v = Some l)"
proof (rule getCoalescedLeader.raw_induct [where P = "\<lambda>m r l. l = r \<or> (\<exists>v. m v = Some l)", OF _ assms])
  fix f and m :: "reg_ref \<rightharpoonup> reg_ref" and r l
  assume IH: "\<And>m r l. f m r = Some l \<Longrightarrow> l = r \<or> (\<exists>v. m v = Some l)"
    and e: "(case m r of None \<Rightarrow> Some r | Some s \<Rightarrow> if s = r then Some r else f m s) = Some l"
  then show "l = r \<or> (\<exists>v. m v = Some l)"
    using IH [of m _ l] by (cases "m r") (auto split: if_splits)
qed

lemma leader_unreserved:
  "unreserved_targets c \<Longrightarrow> getCoalescedLeader (m_coalescedRegs c) r = Some l \<Longrightarrow> r \<notin> m_reservedRegs c \<or> l \<noteq> r \<Longrightarrow>
     l \<notin> m_reservedRegs c"
  using leader_target unreserved_targetsD(1) by metis

lemma lock_reserved_member:
  assumes "PReg (Some cls) n \<in> m_reservedRegs c" "n \<in> set (tr_regs t cls)" "n < 64"
  shows "n \<in> lock_reserved t c cls"
proof -
  have "used \<subseteq> fold (\<lambda>n used. if PReg (Some cls) n \<in> m_reservedRegs c then markUsed n used else used) ns used \<and>
      (n \<in> set ns \<longrightarrow> n \<in> fold (\<lambda>n used. if PReg (Some cls) n \<in> m_reservedRegs c then markUsed n used else used) ns used)" for ns used
    using assms(1,3)
  proof (induction ns arbitrary: used)
    case (Cons m ns)
    then show ?case using markUsed_mono [of used m] by (fastforce simp: markUsed_def)
  qed simp
  then show ?thesis using assms(2) unfolding lock_reserved_def by blast
qed

lemma choose_color_unreserved:
  assumes ch: "choose_color t c cls node = Some (Some p)" and m: "\<forall>n cls. n \<in> set (tr_regs t cls) \<longrightarrow> n < 64"
    and u: "unreserved_targets c" and al: "\<And>v q. isVirtual v \<Longrightarrow> m_allocatedRegs c v = Some q \<Longrightarrow> q \<notin> m_reservedRegs c"
  shows "p \<notin> m_reservedRegs c"
proof -
  let ?ps = "case m_affinity c node of Some ps \<Rightarrow> ps | None \<Rightarrow> []"
  have ps: "q \<notin> m_reservedRegs c" if "q \<in> set ?ps" for q
    using that unreserved_targetsD(2) [OF u] by (cases "m_affinity c node") auto
  have aff: "q \<notin> m_reservedRegs c"
    if "affinity_color t c cls used qs = Some (Some q)" "set qs \<subseteq> set ?ps" for q qs used
    using that
  proof (induction qs)
    case (Cons x qs)
    obtain l where l: "getCoalescedLeader (m_coalescedRegs c) x = Some l"
      using Cons.prems(1) by (auto split: option.splits)
    have lr: "l \<notin> m_reservedRegs c" using leader_unreserved [OF u l] ps [of x] Cons.prems(2) by simp
    show ?case using Cons l lr al [of l] by (auto simp: isPhysical_def split: option.splits if_splits)
  qed simp
  show ?thesis
  proof (cases "affinity_color t c cls (used_colors t c cls node) ?ps")
    case (Some a)
    show ?thesis
    proof (cases a)
      case None
      then have "first_free t cls (used_colors t c cls node) = Some p" using ch Some by (simp add: choose_color_def Let_def)
      then obtain n where n: "p = PReg (Some cls) n" "n \<in> set (tr_regs t cls)" "\<not> isUsed (used_colors t c cls node) n"
        by (auto simp: first_free_def find_Some_iff)
      have "lock_reserved t c cls \<subseteq> used_colors t c cls node" unfolding used_colors_def by (rule fold_lock_mono)
      then show ?thesis using n lock_reserved_member [of cls n c t] m by (auto simp: isUsed_def)
    next
      case (Some b)
      then show ?thesis using ch aff \<open>affinity_color _ _ _ _ _ = Some a\<close> by (auto simp: choose_color_def Let_def)
    qed
  qed (use ch in \<open>simp add: choose_color_def Let_def\<close>)
qed

lemma select_loop_unreserved:
  assumes "select_loop t cc stack spilled c = Some (SelectOk c')" "\<forall>n cls. n \<in> set (tr_regs t cls) \<longrightarrow> n < 64"
    and "unreserved_targets c" "\<And>v q. isVirtual v \<Longrightarrow> m_allocatedRegs c v = Some q \<Longrightarrow> q \<notin> m_reservedRegs c"
    and "isVirtual v" "m_allocatedRegs c' v = Some q"
  shows "q \<notin> m_reservedRegs c"
  using assms(1,3,4)
proof (induction stack arbitrary: spilled c)
  case Nil
  then have "m_allocatedRegs c v = Some q" using assms(6) by (auto split: if_splits)
  then show ?case using Nil.prems(3) assms(5) by blast
next
  case (Cons node stack)
  obtain cls r where cls: "getClass t node = Some cls" and r: "choose_color t c cls node = Some r"
    using Cons.prems(1) by (auto split: option.splits)
  show ?case
  proof (cases r)
    case None
    then show ?thesis using Cons.IH [of _ c] Cons.prems cls r by (auto split: if_splits)
  next
    case (Some p)
    obtain u where u: "note_callee_saved t cc (Some cls) p c = c\<lparr>m_physRegUses := u\<rparr>"
      using note_callee_saved_fields by blast
    have p: "p \<notin> m_reservedRegs c"
      using choose_color_unreserved [OF r [unfolded Some] assms(2) Cons.prems(2,3)] .
    let ?c = "c\<lparr>m_physRegUses := u, m_allocatedRegs := (m_allocatedRegs c)(node \<mapsto> p), m_removedNodes := m_removedNodes c - {node}\<rparr>"
    have "select_loop t cc stack spilled ?c = Some (SelectOk c')"
      using Cons.prems(1) cls r Some u by simp
    moreover have "unreserved_targets ?c" using Cons.prems(2) by (simp add: unreserved_targets_def)
    moreover have "\<And>x y. isVirtual x \<Longrightarrow> m_allocatedRegs ?c x = Some y \<Longrightarrow> y \<notin> m_reservedRegs ?c"
      using Cons.prems(3) p by (auto split: if_splits)
    ultimately have "q \<notin> m_reservedRegs ?c" by (rule Cons.IH)
    then show ?thesis by simp
  qed
qed


lemma simplify_fields:
  assumes f: "fresh_round t c" and s: "simplify lt t cost (evaluateInterferenceGraphDegree c) = Some c1"
  shows "\<exists>D s A. c1 = c\<lparr>m_degree := D, m_allocatedRegs := A, m_selectStack := s,
    m_removedNodes := set (virtual_nodes (m_iGraph c))\<rparr> \<and> (\<forall>v. isVirtual v \<longrightarrow> A v = None)"
proof -
  obtain D where D: "evaluateInterferenceGraphDegree c = c\<lparr>m_degree := D,
     m_allocatedRegs := (\<lambda>v. if isPhysical v \<and> v \<in> fst ` set (m_iGraph c) then Some v else None), m_removedNodes := {}\<rparr>"
    "fst ` set D = fst ` set (m_iGraph c)"
    using eval_fold [of "m_iGraph c" "c\<lparr>m_degree := []\<rparr>"] f
    by (auto simp: evaluateInterferenceGraphDegree_def fresh_round_def cong: if_cong)
  define e where "e = evaluateInterferenceGraphDegree c"
  have e: "igraph_wf (m_iGraph e)" "m_removedNodes e = {}" "m_selectStack e = []" "m_iGraph e = m_iGraph c"
    "fst ` set (m_degree e) \<subseteq> igraph_nodes (m_iGraph e)"
    using f D by (simp_all add: e_def fresh_round_def igraph_nodes_def)
  have cls: "\<forall>n \<in> set (virtual_nodes (m_iGraph e)). getClass t n \<noteq> None"
    using s simplify_None_iff [of lt t cost e] by (auto simp: e_def evaluate_graph virtual_nodes_iff)
  obtain D' st where "simplify lt t cost e = Some (e\<lparr>m_degree := D', m_selectStack := st,
      m_removedNodes := m_removedNodes e \<union> set (virtual_nodes (m_iGraph e))\<rparr>)"
    using simplify_correct [OF e(1) _ e(3,5) cls, of lt cost] e(2) by auto
  then have "c1 = e\<lparr>m_degree := D', m_selectStack := st, m_removedNodes := set (virtual_nodes (m_iGraph c))\<rparr>"
    using s e(2,4) by (simp add: e_def)
  then show ?thesis
    unfolding e_def D(1)
    by (intro exI [of _ D'] exI [of _ st] exI [of _ "\<lambda>v. if isPhysical v \<and> v \<in> fst ` set (m_iGraph c) then Some v else None"])
      (simp add: isPhysical_def)
qed

lemma color_graph_unreserved:
  assumes f: "fresh_round t c" and u: "unreserved_targets c"
    and run: "color_graph lt t cc cost c = Some (ColorSelected (SelectOk c'))"
    and v: "isVirtual v" "m_allocatedRegs c' v = Some q"
  shows "q \<notin> m_reservedRegs c"
proof -
  obtain c1 where s: "simplify lt t cost (evaluateInterferenceGraphDegree c) = Some c1"
    and sel: "select_loop t cc (m_selectStack c1) [] c1 = Some (SelectOk c')"
    using run by (auto simp: color_graph_def selectColors_def split: option.splits)
  obtain D st A where c1: "c1 = c\<lparr>m_degree := D, m_allocatedRegs := A, m_selectStack := st,
    m_removedNodes := set (virtual_nodes (m_iGraph c))\<rparr>" "\<forall>v. isVirtual v \<longrightarrow> A v = None"
    using simplify_fields [OF f s] by blast
  have "\<forall>n cls. n \<in> set (tr_regs t cls) \<longrightarrow> n < 64" using f by (simp add: fresh_round_def small_ids_def)
  moreover have "unreserved_targets c1" using u by (simp add: c1(1) unreserved_targets_def)
  moreover have "\<And>v q. isVirtual v \<Longrightarrow> m_allocatedRegs c1 v = Some q \<Longrightarrow> q \<notin> m_reservedRegs c1" using c1 by simp
  ultimately have "q \<notin> m_reservedRegs c1" by (rule select_loop_unreserved [OF sel _ _ _ v])
  then show ?thesis by (simp add: c1(1))
qed

lemma reserved_unused:
  assumes g: "g = bs_graph (build_blocks t cc isDAlloc lv blocks [])" and m: "fits_mask t g"
    and run: "allocate_round lt t cc isDAlloc co lv blocks c = Some (ColorSelected (SelectOk c'))"
    and v: "isVirtual v" "has_node g v"
  shows "\<exists>p. rewrite_ref c' v = Some p \<and> isPhysical p \<and> getClass t p = getClass t v \<and>
    p \<notin> m_reservedRegs c \<union> set (reserved_regs t cc [])"
proof -
  let ?c = "buildInterferenceGraph t cc isDAlloc lv blocks (reset_round c)"
  have wf: "igraph_wf g" unfolding g by (rule build_blocks_wf)
  have start: "unreserved_targets ?c" "m_reservedRegs ?c = m_reservedRegs c \<union> set (reserved_regs t cc [])"
    by (simp_all add: unreserved_targets_def buildInterferenceGraph_def reset_round_def)
  have inv0: "coalesce_inv t g ?c" using round_start wf unfolding g by blast
  obtain c2 where c2: "(if co then map_option fst (coalesce t cc blocks ?c) else Some ?c) = Some c2" "coalesce_inv t g c2"
    using round_coalesced [OF wf g] by blast
  have u: "unreserved_targets c2 \<and> m_reservedRegs c2 = m_reservedRegs ?c"
  proof (cases co)
    case True
    then obtain b where "coalesce_loop t cc (candidates blocks) False ?c = Some (c2, b)"
      using c2(1) by (auto simp: coalesce_def)
    from coalesce_loop_reserved [OF inv0 start(1) this] show ?thesis .
  next
    case False
    then show ?thesis using c2(1) start(1) by simp
  qed
  have f: "fresh_round t c2" by (rule coalesced_fresh [OF c2(2) m])
  have col: "color_graph lt t cc (spill_cost blocks) c2 = Some (ColorSelected (SelectOk c'))"
    using run unfolding allocate_round_def Let_def c2(1) by simp
  obtain l p where l: "getCoalescedLeader (m_coalescedRegs c2) v = Some l" "m_allocatedRegs c' l = Some p"
    "rewrite_ref c' v = Some p" "isPhysical p" "getClass t p = getClass t v" "isPhysical l \<Longrightarrow> p = l"
    using colored_register [OF c2(2) f col v(2)] by metis
  have "p \<notin> m_reservedRegs c2"
  proof (cases "isVirtual l")
    case True
    show ?thesis by (rule color_graph_unreserved [OF f _ col True l(2)]) (use u in blast)
  next
    case False
    then have "p = l" "l \<noteq> v" using l(6) v(1) by (auto simp: isPhysical_def)
    then show ?thesis using leader_unreserved [OF _ l(1)] u by blast
  qed
  then show ?thesis using l u start(2) by auto
qed

text \<open>C3: After a round that succeeds every virtual register of the graph is rewritten to a
  physical register of its own class that is not reserved: the frame pointer, the stack pointer
  and their names in the other classes of their bank are never handed out, neither by colouring,
  nor by an affinity, nor by coalescing with a physical register.\<close>

theorem reserved_registers_unused:
  assumes "g = bs_graph (build_blocks t cc isDAlloc lv blocks [])" "fits_mask t g"
    and "allocate_round lt t cc isDAlloc co lv blocks c = Some (ColorSelected (SelectOk c'))"
    and "isVirtual v" "has_node g v"
  shows "\<exists>p. rewrite_ref c' v = Some p \<and> isPhysical p \<and> getClass t p = getClass t v \<and>
    p \<notin> m_reservedRegs c \<union> set (reserved_regs t cc [])"
  by (rule reserved_unused [OF assms])

theorem reserved_registers_unused_witness:
  "\<exists>c' p. allocate_round (\<lambda>_ _. False) ra_sample_target None (\<lambda>_. False) True (empty_liveness\<lparr>m_liveOut := [2 \<mapsto> []]\<rparr>)
     ra_sample_blocks ra_empty = Some (ColorSelected (SelectOk c')) \<and> rewrite_ref c' (VReg 8) = Some p \<and> isPhysical p"
proof -
  let ?lv = "empty_liveness\<lparr>m_liveOut := [2 \<mapsto> []]\<rparr>"
  have lv: "m_liveOut ?lv 2 = Some []" by simp
  obtain c' where run: "allocate_round (\<lambda>_ _. False) ra_sample_target None (\<lambda>_. False) True ?lv ra_sample_blocks ra_empty =
      Some (ColorSelected (SelectOk c'))"
    using ra_sample_round [OF lv] by metis
  note g = ra_sample_graph_built [OF lv]
  have "isVirtual (VReg 8)" "has_node ra_sample_built (VReg 8)" by (simp_all add: has_node_def ra_sample_built_def)
  from reserved_registers_unused [OF g [symmetric] ra_sample_fits run this] run show ?thesis by blast
qed


section \<open>The bound and the exception\<close>

text \<open>The colour mask has 64 bits and numbers above it are ignored: a class whose first register
  has such a number hands it to every node, whatever its neighbours hold.\<close>

lemma large_numbers_not_masked:
  assumes "tr_regs t cls = n # ns" "n \<ge> 64" "m_affinity c node = None"
  shows "choose_color t c cls node = Some (Some (PReg (Some cls) n))"
  using assms by (simp add: choose_color_def first_free_def isUsed_def)

text \<open>George's test looks at names, not at hardware: register 7, which interferes with the second
  name of hardware register 5, is merged with its first name.\<close>

definition alias_target :: target_regs where
  "alias_target = \<lparr>tr_bank = \<lambda>_. Some 9, tr_regs = \<lambda>_. [5, 6], tr_bankClasses = \<lambda>_. [2, 3], tr_vclass = \<lambda>_. Some 2\<rparr>"

lemma alias_coalesced:
  "\<exists>c'. try_candidate alias_target None \<lparr>cand_dst = VReg 7, cand_src = PReg (Some 2) 5, cand_isCopy = True\<rparr>
      (ra_empty\<lparr>m_iGraph := [(VReg 7, [PReg (Some 3) 5]), (PReg (Some 2) 5, [PReg (Some 3) 5]),
         (PReg (Some 3) 5, [VReg 7, PReg (Some 2) 5])]\<rparr>) = Some (c', True) \<and>
    m_coalescedRegs c' = [VReg 7 \<mapsto> PReg (Some 2) 5] \<and> phys_conflict alias_target (PReg (Some 2) 5) (PReg (Some 3) 5)"
proof -
  let ?c = "ra_empty\<lparr>m_iGraph := [(VReg 7, [PReg (Some 3) 5]), (PReg (Some 2) 5, [PReg (Some 3) 5]),
         (PReg (Some 3) 5, [VReg 7, PReg (Some 2) 5])]\<rparr>"
  have l: "getCoalescedLeader (m_coalescedRegs ?c) r = Some r" for r
    by (rule leader_self) (simp add: is_leader_def ra_empty_def)
  have g: "satisfies_george alias_target ?c (PReg (Some 2) 5) (VReg 7)"
    by (simp add: satisfies_george_def neighbors_def)
  have "try_candidate alias_target None \<lparr>cand_dst = VReg 7, cand_src = PReg (Some 2) 5, cand_isCopy = True\<rparr> ?c =
      Some (do_coalesce alias_target None (PReg (Some 2) 5) (VReg 7) ?c, True)"
    unfolding try_candidate_def coalesce_candidate.select_convs l
    using g by (simp add: isPhysical_def alias_target_def has_node_def neighbors_def) (simp add: ra_empty_def)
  moreover have "m_coalescedRegs (do_coalesce alias_target None (PReg (Some 2) 5) (VReg 7) ?c) = [VReg 7 \<mapsto> PReg (Some 2) 5]"
    using do_coalesce_fields [of alias_target None "PReg (Some 2) 5" "VReg 7" ?c] by (simp add: ra_empty_def)
  moreover have "phys_conflict alias_target (PReg (Some 2) 5) (PReg (Some 3) 5)"
    by (simp add: phys_conflict_def isSameBank_def alias_target_def)
  ultimately show ?thesis by blast
qed

end
