(* ===== verification/Dominators.thy ===== *)
theory Dominators
  imports CodeFlow
begin

text \<open>
  Walks, dominance and dominator trees of a rooted graph. The locale \<open>numbered_graph\<close> is what
  the dominator computation of the SSA pass needs of a depth-first numbering: distinct numbers,
  and for every node but the root a predecessor with a larger number. A dominator tree is a
  partial map to parents; its chains are compared with the sets of dominators.
\<close>

section \<open>Walks from the root\<close>

text \<open>The nodes of a walk, the last one first.\<close>

inductive walk :: "('v \<Rightarrow> 'v \<Rightarrow> bool) \<Rightarrow> 'v \<Rightarrow> 'v list \<Rightarrow> 'v \<Rightarrow> bool" for edge root where
  start: "walk edge root [root] root"
| step: "walk edge root xs u \<Longrightarrow> edge u v \<Longrightarrow> walk edge root (v # xs) v"

definition reachable :: "('v \<Rightarrow> 'v \<Rightarrow> bool) \<Rightarrow> 'v \<Rightarrow> 'v \<Rightarrow> bool" where
  "reachable edge root v \<longleftrightarrow> (\<exists>xs. walk edge root xs v)"

definition dominates :: "('v \<Rightarrow> 'v \<Rightarrow> bool) \<Rightarrow> 'v \<Rightarrow> 'v \<Rightarrow> 'v \<Rightarrow> bool" where
  "dominates edge root a b \<longleftrightarrow> reachable edge root b \<and> (\<forall>xs. walk edge root xs b \<longrightarrow> a \<in> set xs)"

abbreviation sdom :: "('v \<Rightarrow> 'v \<Rightarrow> bool) \<Rightarrow> 'v \<Rightarrow> 'v \<Rightarrow> 'v \<Rightarrow> bool" where
  "sdom edge root a b \<equiv> dominates edge root a b \<and> a \<noteq> b"

text \<open>The immediate dominator: the strict dominator that all others dominate.\<close>

definition is_idom :: "('v \<Rightarrow> 'v \<Rightarrow> bool) \<Rightarrow> 'v \<Rightarrow> 'v \<Rightarrow> 'v \<Rightarrow> bool" where
  "is_idom edge root d b \<longleftrightarrow> sdom edge root d b \<and> (\<forall>a. sdom edge root a b \<longrightarrow> dominates edge root a d)"

lemma walk_hd: "walk edge root xs v \<Longrightarrow> xs \<noteq> [] \<and> hd xs = v"
  by (induction rule: walk.induct) auto

lemma walk_self: "walk edge root xs v \<Longrightarrow> v \<in> set xs"
  using walk_hd hd_in_set by metis

lemma walk_root: "walk edge root xs v \<Longrightarrow> root \<in> set xs"
  by (induction rule: walk.induct) auto

lemma walk_suffix:
  "walk edge root xs v \<Longrightarrow> d \<in> set xs \<Longrightarrow> \<exists>ys zs. xs = ys @ zs \<and> walk edge root zs d"
proof (induction rule: walk.induct)
  case start
  then show ?case by (intro exI [of _ "[]"] exI [of _ "[root]"]) (auto intro: walk.start)
next
  case (step xs u v)
  show ?case
  proof (cases "d = v")
    case True
    then show ?thesis using walk.step [OF step.hyps(1,2)] by (intro exI [of _ "[]"] exI [of _ "v # xs"]) simp
  next
    case False
    then obtain ys zs where "xs = ys @ zs" "walk edge root zs d" using step by auto
    then show ?thesis by (intro exI [of _ "v # ys"] exI [of _ zs]) simp
  qed
qed

lemma walk_Cons_cases:
  assumes "walk edge root (v # xs) w"
  obtains "w = v" "v = root" "xs = []" | u where "w = v" "walk edge root xs u" "edge u v"
  using assms by (cases rule: walk.cases) auto

lemma reachable_root [simp]: "reachable edge root root"
  unfolding reachable_def using walk.start by fast

lemma reachable_step: "reachable edge root u \<Longrightarrow> edge u v \<Longrightarrow> reachable edge root v"
  unfolding reachable_def using walk.step by fast

lemma walk_reachable: "walk edge root xs v \<Longrightarrow> x \<in> set xs \<Longrightarrow> reachable edge root x"
  unfolding reachable_def using walk_suffix by metis

lemma reachable_induct [consumes 1, case_names root step]:
  assumes "reachable edge root v" "P root" "\<And>u v. reachable edge root u \<Longrightarrow> edge u v \<Longrightarrow> P u \<Longrightarrow> P v"
  shows "P v"
proof -
  obtain xs where "walk edge root xs v" using assms(1) unfolding reachable_def by blast
  then show ?thesis
    by (induction rule: walk.induct) (use assms(2,3) in \<open>auto simp: reachable_def\<close>)
qed

section \<open>Dominance\<close>

lemma dominatesD: "dominates edge root a b \<Longrightarrow> walk edge root xs b \<Longrightarrow> a \<in> set xs"
  by (simp add: dominates_def)

lemma dominates_self: "reachable edge root b \<Longrightarrow> dominates edge root b b"
  by (simp add: dominates_def walk_self)

lemma dominates_root: "reachable edge root b \<Longrightarrow> dominates edge root root b"
  by (simp add: dominates_def walk_root)

lemma dominates_reachable: "dominates edge root a b \<Longrightarrow> reachable edge root a \<and> reachable edge root b"
  unfolding dominates_def reachable_def using walk_suffix by metis

lemma dominates_only_root: "dominates edge root a root \<Longrightarrow> a = root"
  using dominatesD [OF _ walk.start] by fastforce

lemma dominates_trans: "dominates edge root a b \<Longrightarrow> dominates edge root b c \<Longrightarrow> dominates edge root a c"
  unfolding dominates_def using walk_suffix by (metis Un_iff set_append)

lemma dominates_pred:
  assumes "sdom edge root a b" "edge p b" "reachable edge root p"
  shows "dominates edge root a p"
proof -
  have "a \<in> set xs" if "walk edge root xs p" for xs
    using dominatesD [OF conjunct1 [OF assms(1)] walk.step [OF that assms(2)]] assms(1) by simp
  then show ?thesis using assms(3) by (simp add: dominates_def)
qed

text \<open>Conversely, what dominates every reachable predecessor dominates the node.\<close>

lemma dominates_all_preds:
  assumes "reachable edge root b" "b \<noteq> root" "\<And>p. edge p b \<Longrightarrow> reachable edge root p \<Longrightarrow> dominates edge root a p"
  shows "dominates edge root a b"
proof -
  have "a \<in> set xs" if w: "walk edge root xs b" for xs
    using w
  proof (cases rule: walk.cases)
    case start
    then show ?thesis using assms(2) by simp
  next
    case (step xs' u)
    then have "reachable edge root u" by (auto simp: reachable_def)
    then show ?thesis using assms(3) [OF step(3)] dominatesD step by fastforce
  qed
  then show ?thesis using assms(1) by (simp add: dominates_def)
qed

text \<open>The strict dominators are what the predecessors have in common.\<close>

lemma dominates_preds_iff:
  assumes "reachable edge root b" "b \<noteq> root"
  shows "(\<forall>p. edge p b \<and> reachable edge root p \<longrightarrow> dominates edge root a p) \<longleftrightarrow> sdom edge root a b"
proof
  assume all: "\<forall>p. edge p b \<and> reachable edge root p \<longrightarrow> dominates edge root a p"
  have "a \<noteq> b"
  proof
    assume ab: "a = b"
    obtain xs where xs: "walk edge root xs b" "\<And>ys. walk edge root ys b \<Longrightarrow> length xs \<le> length ys"
      using assms(1) ex_has_least_nat [of "\<lambda>xs. walk edge root xs b" _ length] unfolding reachable_def by blast
    from xs(1) show False
    proof (cases rule: walk.cases)
      case (step xs' u)
      have "reachable edge root u" using step(2) by (auto simp: reachable_def)
      then have "dominates edge root b u" using all step(3) ab by blast
      then have "b \<in> set xs'" using dominatesD step(2) by metis
      then obtain ys zs where z: "xs' = ys @ zs" "walk edge root zs b" using walk_suffix [OF step(2)] by blast
      then show False using xs(2) [OF z(2)] step(1) by simp
    qed (use assms(2) in blast)
  qed
  moreover have "dominates edge root a b" by (rule dominates_all_preds [OF assms]) (use all in blast)
  ultimately show "sdom edge root a b" by blast
next
  assume s: "sdom edge root a b"
  show "\<forall>p. edge p b \<and> reachable edge root p \<longrightarrow> dominates edge root a p"
    by (intro allI impI) (elim conjE, rule dominates_pred [OF s])
qed

lemma not_dominates_walk:
  "reachable edge root b \<Longrightarrow> \<not> dominates edge root a b \<Longrightarrow> \<exists>xs. walk edge root xs b \<and> a \<notin> set xs"
  by (auto simp: dominates_def)

lemma walk_extend:
  assumes "walk edge root zs d" "walk edge root (ys @ d # ws) b"
  shows "walk edge root (ys @ zs) b"
  using assms(2)
proof (induction ys arbitrary: b)
  case Nil
  then have "b = d" using walk_hd by fastforce
  then show ?case using assms(1) by simp
next
  case (Cons y ys)
  from Cons.prems obtain u where u: "b = y" "walk edge root (ys @ d # ws) u" "edge u y"
    by (auto elim: walk_Cons_cases)
  show ?case unfolding u(1) append_Cons by (rule walk.step [OF Cons.IH [OF u(2)] u(3)])
qed

text \<open>A walk can be cut so that it meets a given node of it once only.\<close>

lemma walk_first_visit:
  "walk edge root xs v \<Longrightarrow> d \<in> set xs \<Longrightarrow> \<exists>ys zs. xs = ys @ d # zs \<and> d \<notin> set ys"
  by (meson split_list_first)

lemma dominates_antisym:
  assumes "dominates edge root a b" "dominates edge root b a"
  shows "a = b"
proof -
  have "\<exists>xs. walk edge root xs b" using assms(1) by (auto simp: dominates_def reachable_def)
  then obtain xs where xs: "walk edge root xs b" "\<And>ys. walk edge root ys b \<Longrightarrow> length xs \<le> length ys"
    using ex_has_least_nat [of "\<lambda>xs. walk edge root xs b" _ length] by blast
  obtain ys zs where a: "xs = ys @ zs" "walk edge root zs a"
    using walk_suffix [OF xs(1) dominatesD [OF assms(1) xs(1)]] by blast
  obtain us ws where b: "zs = us @ ws" "walk edge root ws b"
    using walk_suffix [OF a(2) dominatesD [OF assms(2) a(2)]] by blast
  from xs(2) [OF b(2)] have "ys = []" "us = []" using a(1) b(1) by auto
  then have "walk edge root xs a" using a by simp
  then show ?thesis using walk_hd xs(1) by metis
qed

text \<open>The dominators of a node form a chain.\<close>

lemma dominates_linear:
  assumes "dominates edge root a c" "dominates edge root b c"
  shows "dominates edge root a b \<or> dominates edge root b a"
proof (rule ccontr)
  assume n: "\<not> (dominates edge root a b \<or> dominates edge root b a)"
  obtain ua where ua: "walk edge root ua a" "b \<notin> set ua"
    using n dominates_reachable [OF assms(1)] not_dominates_walk by metis
  obtain ub where ub: "walk edge root ub b" "a \<notin> set ub"
    using n dominates_reachable [OF assms(2)] not_dominates_walk by metis
  obtain xs where xs: "walk edge root xs c" using assms(1) by (auto simp: dominates_def reachable_def)
  have "a \<in> set xs" "b \<in> set xs" using assms xs dominatesD by metis+
  then obtain ys d zs where split: "xs = ys @ d # zs" "d \<in> {a, b}" "a \<notin> set ys" "b \<notin> set ys"
    using split_list_first_prop [of xs "\<lambda>x. x \<in> {a, b}"] by auto
  show False
  proof (cases "d = a")
    case True
    have "walk edge root (ys @ ua) c" by (rule walk_extend [OF ua(1)]) (use xs split(1) True in simp)
    from dominatesD [OF assms(2) this] show False using split(4) ua(2) by simp
  next
    case False
    then have "d = b" using split(2) by simp
    have "walk edge root (ys @ ub) c" by (rule walk_extend [OF ub(1)]) (use xs split(1) \<open>d = b\<close> in simp)
    from dominatesD [OF assms(1) this] show False using split(3) ub(2) by simp
  qed
qed

section \<open>Numbered graphs\<close>

text \<open>The number of steps of a walk that do not go to a smaller number.\<close>

fun retreats :: "('v \<Rightarrow> nat) \<Rightarrow> 'v list \<Rightarrow> nat" where
  "retreats num (v # u # xs) = (if num v < num u then 0 else 1) + retreats num (u # xs)"
| "retreats num xs = 0"

lemma retreats_append: "retreats num zs \<le> retreats num (ys @ zs)"
proof (induction ys)
  case (Cons y ys)
  have "retreats num (ys @ zs) \<le> retreats num (y # ys @ zs)" by (cases "ys @ zs") simp_all
  then show ?case using Cons.IH by simp
qed simp

lemma retreats_step:
  "walk edge root xs u \<Longrightarrow> retreats num (v # xs) = (if num v < num u then 0 else 1) + retreats num xs"
  using walk_hd [of edge root xs u] by (cases xs) auto

locale numbered_graph =
  fixes inv :: "'g \<Rightarrow> bool"
    and edge :: "'g \<Rightarrow> 'v \<Rightarrow> 'v \<Rightarrow> bool"
    and root :: "'g \<Rightarrow> 'v"
    and num :: "'g \<Rightarrow> 'v \<Rightarrow> nat"
  assumes finite_reachable: "inv g \<Longrightarrow> finite {v. reachable (edge g) (root g) v}"
    and num_inj: "inv g \<Longrightarrow> reachable (edge g) (root g) u \<Longrightarrow> reachable (edge g) (root g) v \<Longrightarrow>
      num g u = num g v \<Longrightarrow> u = v"
    and num_parent: "inv g \<Longrightarrow> reachable (edge g) (root g) v \<Longrightarrow> v \<noteq> root g \<Longrightarrow>
      \<exists>u. reachable (edge g) (root g) u \<and> edge g u v \<and> num g v < num g u"
begin

abbreviation reach :: "'g \<Rightarrow> 'v \<Rightarrow> bool" where
  "reach g \<equiv> reachable (edge g) (root g)"

abbreviation dom :: "'g \<Rightarrow> 'v \<Rightarrow> 'v \<Rightarrow> bool" where
  "dom g \<equiv> dominates (edge g) (root g)"

lemma num_bound:
  assumes "inv g"
  obtains N where "\<forall>v. reach g v \<longrightarrow> num g v < N"
proof -
  have "finite (num g ` {v. reach g v})" using finite_reachable [OF assms] by simp
  then obtain N where N: "\<forall>n \<in> num g ` {v. reach g v}. n < N"
    using finite_nat_set_iff_bounded by blast
  then have "\<forall>v. reach g v \<longrightarrow> num g v < N" by blast
  then show thesis by (rule that)
qed

text \<open>Every node has a walk along which the numbers only go down.\<close>

lemma descending_walk:
  assumes i: "inv g" and v: "reach g v"
  shows "\<exists>xs. walk (edge g) (root g) xs v \<and> retreats (num g) xs = 0 \<and> (\<forall>x \<in> set xs. x = v \<or> num g v < num g x)"
proof -
  obtain N where N: "\<forall>v. reach g v \<longrightarrow> num g v < N" by (rule num_bound [OF i])
  show ?thesis
    using v
  proof (induction "N - num g v" arbitrary: v rule: less_induct)
    case less
    show ?case
    proof (cases "v = root g")
      case True
      then show ?thesis by (intro exI [of _ "[root g]"]) (simp add: walk.start)
    next
      case False
      obtain u where u: "reach g u" "edge g u v" "num g v < num g u" using num_parent [OF i less.prems False] by blast
      have "N - num g u < N - num g v" using u(1,3) N by (meson diff_less_mono2 dual_order.strict_trans)
      from less.hyps [OF this u(1)] obtain xs where
        xs: "walk (edge g) (root g) xs u" "retreats (num g) xs = 0" "\<forall>x \<in> set xs. x = u \<or> num g u < num g x" by blast
      then show ?thesis
        using u(3) walk.step [of "edge g" "root g" xs u v, OF xs(1) u(2)] retreats_step [OF xs(1), of "num g" v]
        by (intro exI [of _ "v # xs"]) auto
    qed
  qed
qed

lemma sdom_num: "inv g \<Longrightarrow> dom g a b \<Longrightarrow> a = b \<or> num g b < num g a"
  using descending_walk [of g b] dominatesD dominates_reachable by metis

lemma root_num: "inv g \<Longrightarrow> reach g v \<Longrightarrow> v = root g \<or> num g v < num g (root g)"
  using sdom_num dominates_root by metis

text \<open>A dominator tree in the making: a partial map to parents with larger numbers.\<close>

definition tree_ok :: "'g \<Rightarrow> ('v \<rightharpoonup> 'v) \<Rightarrow> bool" where
  "tree_ok g D \<longleftrightarrow> D (root g) = Some (root g) \<and>
     (\<forall>v d. D v = Some d \<longrightarrow> reach g v \<and> D d \<noteq> None \<and> (v \<noteq> root g \<longrightarrow> num g v < num g d))"

lemma tree_okD:
  assumes "tree_ok g D"
  shows "D (root g) = Some (root g)" "D v = Some d \<Longrightarrow> reach g v" "D v = Some d \<Longrightarrow> D d \<noteq> None"
    "D v = Some d \<Longrightarrow> v \<noteq> root g \<Longrightarrow> num g v < num g d"
  using assms unfolding tree_ok_def by blast+

end

text \<open>The chain of a node: the nodes met by following the parents.\<close>

inductive on_chain :: "('v \<rightharpoonup> 'v) \<Rightarrow> 'v \<Rightarrow> 'v \<Rightarrow> bool" for D where
  self: "D v = Some d \<Longrightarrow> on_chain D v v"
| up: "D v = Some d \<Longrightarrow> d \<noteq> v \<Longrightarrow> on_chain D d y \<Longrightarrow> on_chain D v y"

inductive_cases on_chainE: "on_chain D v y"

lemma on_chain_defined: "on_chain D v y \<Longrightarrow> D v \<noteq> None \<and> D y \<noteq> None"
  by (induction rule: on_chain.induct) auto

lemma on_chain_trans: "on_chain D u v \<Longrightarrow> on_chain D v y \<Longrightarrow> on_chain D u y"
  by (induction rule: on_chain.induct) (auto intro: on_chain.up)

lemma on_chain_iff: "D v = Some d \<Longrightarrow> on_chain D v y \<longleftrightarrow> y = v \<or> d \<noteq> v \<and> on_chain D d y"
  by (auto elim: on_chainE intro: on_chain.intros)

lemma on_chain_linear: "on_chain D v y \<Longrightarrow> on_chain D v z \<Longrightarrow> on_chain D y z \<or> on_chain D z y"
proof (induction rule: on_chain.induct)
  case (up v d y)
  show ?case
  proof (cases "z = v")
    case True
    then show ?thesis using up.hyps by (blast intro: on_chain.up)
  next
    case False
    then have "on_chain D d z" using up.prems up.hyps(1) by (auto elim: on_chainE)
    then show ?thesis by (rule up.IH)
  qed
qed simp

context numbered_graph
begin

lemma chain_num:
  assumes t: "tree_ok g D"
  shows "on_chain D v y \<Longrightarrow> y = v \<or> num g v < num g y"
proof (induction rule: on_chain.induct)
  case (up v d y)
  have "v \<noteq> root g" using up.hyps(1,2) tree_okD(1) [OF t] by auto
  then show ?case using up tree_okD(4) [OF t up.hyps(1)] by auto
qed simp

lemma chain_reach: "tree_ok g D \<Longrightarrow> on_chain D v y \<Longrightarrow> reach g y"
  using on_chain_defined tree_okD(2) by fastforce

lemma chain_parent:
  assumes "tree_ok g D" "D v = Some d" "v \<noteq> root g"
  shows "on_chain D v y \<longleftrightarrow> y = v \<or> on_chain D d y"
proof -
  have "d \<noteq> v" using tree_okD(4) [OF assms] by auto
  then show ?thesis using on_chain_iff [where D = D and v = v and d = d] assms(2) by blast
qed

lemma chain_root: "tree_ok g D \<Longrightarrow> on_chain D (root g) y \<longleftrightarrow> y = root g"
  using on_chain_iff [of D "root g" "root g"] tree_okD(1) by blast

text \<open>Above a node, its chain is the chain of every node it meets.\<close>

lemma chain_above:
  assumes t: "tree_ok g D" and "on_chain D v y" "on_chain D v z" "num g y \<le> num g z"
  shows "on_chain D y z"
  using on_chain_linear [OF assms(2,3)]
proof
  assume "on_chain D z y"
  then show ?thesis using chain_num [OF t] assms(4) by fastforce
qed

lemma chain_determines:
  assumes t: "tree_ok g D" and "D a \<noteq> None" "D b \<noteq> None" "\<And>y. on_chain D a y \<longleftrightarrow> on_chain D b y"
  shows "a = b"
proof -
  have "on_chain D a a" "on_chain D b b" using assms(2,3) on_chain.self [of D] by blast+
  then have "on_chain D a b" "on_chain D b a" by (simp_all add: assms(4))
  then show ?thesis using chain_num [OF t, of a b] chain_num [OF t, of b a] by auto
qed

text \<open>A parent is a lower bound: every strict dominator of a node dominates its parent.\<close>

definition sound :: "'g \<Rightarrow> ('v \<rightharpoonup> 'v) \<Rightarrow> bool" where
  "sound g D \<longleftrightarrow> (\<forall>v d x. D v = Some d \<longrightarrow> v \<noteq> root g \<longrightarrow> dom g x v \<longrightarrow> x \<noteq> v \<longrightarrow> dom g x d)"

lemma soundD: "sound g D \<Longrightarrow> D v = Some d \<Longrightarrow> v \<noteq> root g \<Longrightarrow> dom g x v \<Longrightarrow> x \<noteq> v \<Longrightarrow> dom g x d"
  unfolding sound_def by blast

lemma dominators_on_chain:
  assumes i: "inv g" and t: "tree_ok g D" and s: "sound g D"
  shows "D v = Some d \<Longrightarrow> dom g x v \<Longrightarrow> on_chain D v x"
proof -
  obtain N where N: "\<forall>v. reach g v \<longrightarrow> num g v < N" by (rule num_bound [OF i])
  show "D v = Some d \<Longrightarrow> dom g x v \<Longrightarrow> on_chain D v x"
  proof (induction "N - num g v" arbitrary: v d rule: less_induct)
    case less
    show ?case
    proof (cases "x = v \<or> v = root g")
      case True
      then have "x = v" using less.prems(2) dominates_only_root by auto
      then show ?thesis using on_chain.self [of D v d] less.prems(1) by simp
    next
      case False
      have d: "num g v < num g d" "D d \<noteq> None" using tree_okD(3,4) [OF t less.prems(1)] False by auto
      then obtain e where e: "D d = Some e" by blast
      have "num g d < N" using N tree_okD(2) [OF t e] by blast
      then have "N - num g d < N - num g v" using d(1) by linarith
      moreover have "dom g x d" using soundD [OF s less.prems(1)] less.prems(2) False by blast
      ultimately show ?thesis using less.hyps [OF _ e] chain_parent [OF t less.prems(1)] False by blast
    qed
  qed
qed

text \<open>A dominator of a node dominates everything on the chain below it.\<close>

lemma dominator_below:
  assumes t: "tree_ok g D" and s: "sound g D"
  shows "on_chain D p n \<Longrightarrow> dom g x p \<Longrightarrow> num g n \<le> num g x \<Longrightarrow> dom g x n"
proof (induction rule: on_chain.induct)
  case (up p d n)
  have r: "p \<noteq> root g" using up.hyps(1,2) tree_okD(1) [OF t] by auto
  have "num g p < num g n" using tree_okD(4) [OF t up.hyps(1) r] chain_num [OF t up.hyps(3)] by auto
  then have "x \<noteq> p" using up.prems(2) by auto
  then have "dom g x d" using soundD [OF s up.hyps(1) r up.prems(1)] by blast
  then show ?case using up by blast
qed simp

text \<open>\<open>n\<close> is the meeting point of the chains of the predecessors of \<open>b\<close> that have one.\<close>

definition meets :: "'g \<Rightarrow> ('v \<rightharpoonup> 'v) \<Rightarrow> 'v \<Rightarrow> 'v \<Rightarrow> bool" where
  "meets g D b n \<longleftrightarrow> D n \<noteq> None \<and>
     (\<forall>y. on_chain D n y \<longleftrightarrow> (\<forall>p. edge g p b \<and> D p \<noteq> None \<longrightarrow> on_chain D p y))"

lemma meetsD:
  assumes "meets g D b n"
  shows "D n \<noteq> None" "edge g p b \<Longrightarrow> D p \<noteq> None \<Longrightarrow> on_chain D n y \<Longrightarrow> on_chain D p y"
    "(\<And>p. edge g p b \<Longrightarrow> D p \<noteq> None \<Longrightarrow> on_chain D p y) \<Longrightarrow> on_chain D n y"
  using assms unfolding meets_def by blast+

lemma meets_on_chain: "meets g D b n \<Longrightarrow> edge g p b \<Longrightarrow> D p \<noteq> None \<Longrightarrow> on_chain D p n"
  using meetsD [of g D b n] on_chain.self [of D n] by blast

lemma meets_num:
  assumes t: "tree_ok g D" and m: "meets g D b n" and q: "edge g q b" "D q \<noteq> None" "num g b < num g q"
  shows "num g b < num g n"
  using chain_num [OF t meets_on_chain [OF m q(1,2)]] q(3) by auto

end

text \<open>Chains after a change of the parent of \<open>b\<close>.\<close>

lemma on_chain_update_other:
  "on_chain D v y \<Longrightarrow> \<not> on_chain D v b \<Longrightarrow> on_chain (D(b \<mapsto> n)) v y"
proof (induction rule: on_chain.induct)
  case (self v d)
  have "v \<noteq> b" using self on_chain.self [of D v d] by blast
  then have "(D(b \<mapsto> n)) v = Some d" using self.hyps by simp
  then show ?case by (rule on_chain.self)
next
  case (up v d y)
  have "v \<noteq> b" using up.prems on_chain.self [of D v d] up.hyps(1) by blast
  then have "(D(b \<mapsto> n)) v = Some d" using up.hyps(1) by simp
  moreover have "\<not> on_chain D d b" using up.prems on_chain.up [of D v d b] up.hyps(1,2) by blast
  ultimately show ?case using up.IH up.hyps(2) by (blast intro: on_chain.up)
qed

lemma on_chain_update_cases:
  "on_chain (D(b \<mapsto> n)) v y \<Longrightarrow> D v \<noteq> None \<or> v = b \<Longrightarrow> (\<And>u d. D u = Some d \<Longrightarrow> D d \<noteq> None) \<Longrightarrow>
     on_chain D v y \<or> (v = b \<or> on_chain D v b) \<and> on_chain (D(b \<mapsto> n)) b y"
proof (induction rule: on_chain.induct)
  case (self v d)
  show ?case
  proof (cases "v = b")
    case True
    have "on_chain (D(b \<mapsto> n)) b b" by (rule on_chain.self [of _ b n]) simp
    then show ?thesis using True by blast
  next
    case False
    then show ?thesis using self.hyps on_chain.self [of D v d] by simp
  qed
next
  case (up v d y)
  show ?case
  proof (cases "v = b")
    case True
    then show ?thesis using on_chain.up [of "D(b \<mapsto> n)" v d y] up.hyps by blast
  next
    case False
    then have d: "D v = Some d" using up.hyps(1) by simp
    obtain e where e: "D d = Some e" using up.prems(2) [OF d] by blast
    have "on_chain D d y \<or> (d = b \<or> on_chain D d b) \<and> on_chain (D(b \<mapsto> n)) b y"
      by (rule up.IH) (simp add: e, rule up.prems(2))
    then show ?thesis
    proof (elim disjE conjE)
      assume "on_chain D d y"
      then show ?thesis using on_chain.up [of D v d y] d up.hyps(2) by simp
    next
      assume "d = b" "on_chain (D(b \<mapsto> n)) b y"
      moreover have "on_chain D v b"
        using on_chain.up [of D v d b] on_chain.self [of D d e] d e up.hyps(2) \<open>d = b\<close> by simp
      ultimately show ?thesis by blast
    next
      assume "on_chain D d b" "on_chain (D(b \<mapsto> n)) b y"
      then show ?thesis using on_chain.up [of D v d b] d up.hyps(2) by blast
    qed
  qed
qed

context numbered_graph
begin

text \<open>Reassigning the parent of one node keeps the invariants of the tree.\<close>

lemma update_tree:
  assumes i: "inv g" and t: "tree_ok g D" and s: "sound g D" and b: "reach g b" "b \<noteq> root g"
    and m: "meets g D b n" and q: "edge g q b" "D q \<noteq> None" "num g b < num g q"
  shows "tree_ok g (D(b \<mapsto> n))" "sound g (D(b \<mapsto> n))"
    "on_chain (D(b \<mapsto> n)) b y \<longleftrightarrow> y = b \<or> on_chain D n y"
proof -
  have num: "num g b < num g n" by (rule meets_num [OF t m q])
  show t': "tree_ok g (D(b \<mapsto> n))"
    unfolding tree_ok_def using tree_okD [OF t] b num meetsD(1) [OF m] by auto
  have nb: "\<not> on_chain D n b" using chain_num [OF t, of n b] num by auto
  have up: "on_chain (D(b \<mapsto> n)) n y \<longleftrightarrow> on_chain D n y" for y
  proof
    assume "on_chain (D(b \<mapsto> n)) n y"
    moreover have "n \<noteq> b" using num by auto
    ultimately show "on_chain D n y"
      using on_chain_update_cases [of D b n n y] meetsD(1) [OF m] tree_okD(3) [OF t] nb by blast
  qed (rule on_chain_update_other [OF _ nb])
  show "on_chain (D(b \<mapsto> n)) b y \<longleftrightarrow> y = b \<or> on_chain D n y"
    using chain_parent [OF t', of b n y] b(2) up by simp
  have "dom g x n" if x: "dom g x b" "x \<noteq> b" for x
  proof -
    have p: "dom g x p" if "edge g p b" "D p \<noteq> None" for p
      using dominates_pred [OF conjI [OF x] that(1)] tree_okD(2) [OF t] that(2) by blast
    have "on_chain D n x"
      by (rule meetsD(3) [OF m]) (use p dominators_on_chain [OF i t s] in blast)
    then have "num g n \<le> num g x" using chain_num [OF t] by fastforce
    then show ?thesis by (rule dominator_below [OF t s meets_on_chain [OF m q(1,2)] p [OF q(1,2)]])
  qed
  then show "sound g (D(b \<mapsto> n))" using s unfolding sound_def by auto
qed

section \<open>Sweeps\<close>

text \<open>What \<open>m\<close> full sweeps and a sweep over the nodes \<open>K\<close> have achieved: a node that can be avoided
  on the way to \<open>v\<close> by a walk with fewer than \<open>m\<close> retreats (or \<open>m\<close>, for \<open>v\<close> in \<open>K\<close>) is not on
  the chain of \<open>v\<close>.\<close>

definition avoided :: "'g \<Rightarrow> nat \<Rightarrow> 'v set \<Rightarrow> ('v \<rightharpoonup> 'v) \<Rightarrow> bool" where
  "avoided g m K D \<longleftrightarrow> (\<forall>v y xs. walk (edge g) (root g) xs v \<longrightarrow> y \<notin> set xs \<longrightarrow>
     retreats (num g) xs < m \<or> retreats (num g) xs = m \<and> v \<in> K \<longrightarrow> \<not> on_chain D v y)"

lemma avoidedD: "avoided g m K D \<Longrightarrow> walk (edge g) (root g) xs v \<Longrightarrow> y \<notin> set xs \<Longrightarrow>
    retreats (num g) xs < m \<or> retreats (num g) xs = m \<and> v \<in> K \<Longrightarrow> \<not> on_chain D v y"
  unfolding avoided_def by blast

definition sweep_inv :: "'g \<Rightarrow> nat \<Rightarrow> 'v set \<Rightarrow> ('v \<rightharpoonup> 'v) \<Rightarrow> bool" where
  "sweep_inv g m K D \<longleftrightarrow> tree_ok g D \<and> sound g D \<and> (\<forall>v. reach g v \<longrightarrow> 0 < m \<or> v \<in> K \<longrightarrow> D v \<noteq> None) \<and> avoided g m K D"

lemma sweep_invD:
  assumes "sweep_inv g m K D"
  shows "tree_ok g D" "sound g D" "reach g v \<Longrightarrow> 0 < m \<or> v \<in> K \<Longrightarrow> D v \<noteq> None" "avoided g m K D"
  using assms unfolding sweep_inv_def by blast+

lemma sweep_start: "sweep_inv g 0 {} [root g \<mapsto> root g]"
  by (simp add: sweep_inv_def tree_ok_def sound_def avoided_def)

lemma sweep_end: "sweep_inv g m {v. reach g v} D \<Longrightarrow> sweep_inv g (Suc m) {} D"
proof -
  assume s: "sweep_inv g m {v. reach g v} D"
  have "\<not> on_chain D v y" if "walk (edge g) (root g) xs v" "y \<notin> set xs" "retreats (num g) xs < Suc m" for v y xs
    using avoidedD [OF sweep_invD(4) [OF s] that(1,2)] that by (auto simp: less_Suc_eq reachable_def)
  then show ?thesis using sweep_invD(1-3) [OF s] by (auto simp: sweep_inv_def avoided_def)
qed

lemma sweep_root:
  assumes "sweep_inv g m {} D"
  shows "sweep_inv g m {root g} D"
proof -
  note t = sweep_invD(1) [OF assms]
  have "avoided g m {root g} D"
    unfolding avoided_def
  proof (intro allI impI)
    fix v y xs
    assume w: "walk (edge g) (root g) xs v" "y \<notin> set xs"
      "retreats (num g) xs < m \<or> retreats (num g) xs = m \<and> v \<in> {root g}"
    show "\<not> on_chain D v y"
    proof (cases "v = root g")
      case True
      then show ?thesis using chain_root [OF t] walk_root [OF w(1)] w(2) by auto
    next
      case False
      then show ?thesis using avoidedD [OF sweep_invD(4) [OF assms] w(1,2)] w(3) by simp
    qed
  qed
  then show ?thesis using assms tree_okD(1) [OF t] unfolding sweep_inv_def by auto
qed

lemma sweep_step:
  assumes i: "inv g" and inv: "sweep_inv g m {v. reach g v \<and> num g b < num g v} D" and b: "reach g b" "b \<noteq> root g"
    and m: "meets g D b n"
  shows "sweep_inv g m (insert b {v. reach g v \<and> num g b < num g v}) (D(b \<mapsto> n))"
proof -
  let ?D = "D(b \<mapsto> n)" and ?K = "{v. reach g v \<and> num g b < num g v}"
  note s = sweep_invD [OF inv]
  obtain q where q: "reach g q" "edge g q b" "num g b < num g q" using num_parent [OF i b] by blast
  have "D q \<noteq> None" using s(3) q by blast
  note u = update_tree [OF i s(1,2) b m q(2) this q(3)]
  have chain_b: "\<not> on_chain ?D b y" if w: "walk (edge g) (root g) xs b" "y \<notin> set xs" "retreats (num g) xs \<le> m" for xs y
    using w(1)
  proof (cases rule: walk.cases)
    case (step xs' v)
    have v: "reach g v" using step(2) by (auto simp: reachable_def)
    have r: "retreats (num g) xs' < m \<or> retreats (num g) xs' = m \<and> v \<in> ?K"
      using retreats_step [OF step(2), of "num g" b] w(3) step(1) v by (auto split: if_splits)
    have "0 < m \<or> v \<in> ?K" using r by auto
    then have "D v \<noteq> None" using s(3) v by blast
    moreover have "\<not> on_chain D v y" by (rule avoidedD [OF s(4) step(2) _ r]) (use w(2) step(1) in simp)
    ultimately have "\<not> on_chain D n y" using meetsD(2) [OF m step(3)] by blast
    then show ?thesis using u(3) w(2) step(1) by auto
  qed (use b(2) in blast)
  have "avoided g m (insert b ?K) ?D"
    unfolding avoided_def
  proof (intro allI impI notI)
    fix v y xs
    assume w: "walk (edge g) (root g) xs v" "y \<notin> set xs"
      "retreats (num g) xs < m \<or> retreats (num g) xs = m \<and> v \<in> insert b ?K" and y: "on_chain ?D v y"
    show False
    proof (cases "v = b")
      case True
      then show False using chain_b [of xs y] w y by auto
    next
      case False
      then have w': "retreats (num g) xs < m \<or> retreats (num g) xs = m \<and> v \<in> ?K" using w(3) by blast
      have "D v \<noteq> None" using on_chain_defined [OF y] False by simp
      then have "on_chain D v y \<or> on_chain D v b \<and> on_chain ?D b y"
        using on_chain_update_cases [OF y] tree_okD(3) [OF s(1)] False by blast
      then show False
      proof
        assume "on_chain D v y"
        then show False using avoidedD [OF s(4) w(1,2) w'] by blast
      next
        assume c: "on_chain D v b \<and> on_chain ?D b y"
        then have "b \<in> set xs" using avoidedD [OF s(4) w(1) _ w', of b] by blast
        then obtain ys zs where z: "xs = ys @ zs" "walk (edge g) (root g) zs b" using walk_suffix [OF w(1)] by blast
        have "retreats (num g) zs \<le> m" using retreats_append [of "num g" zs ys] z(1) w' by auto
        then show False using chain_b [OF z(2)] w(2) z(1) c by auto
      qed
    qed
  qed
  then show ?thesis
    using u(1,2) s(3) unfolding sweep_inv_def by auto
qed

section \<open>Exact trees\<close>

definition exact_tree :: "'g \<Rightarrow> ('v \<rightharpoonup> 'v) \<Rightarrow> bool" where
  "exact_tree g D \<longleftrightarrow> tree_ok g D \<and> (\<forall>v. reach g v \<longrightarrow> D v \<noteq> None) \<and>
     (\<forall>v y. reach g v \<longrightarrow> (on_chain D v y \<longleftrightarrow> dom g y v))"

text \<open>From some number of sweeps on, the chains are the dominators.\<close>

lemma enough_sweeps:
  assumes i: "inv g"
  shows "\<exists>M. \<forall>m \<ge> M. \<forall>D. sweep_inv g m {} D \<longrightarrow> exact_tree g D"
proof -
  let ?R = "{v. reach g v}"
  have "\<exists>k. \<forall>p \<in> ?R \<times> ?R. \<not> dom g (snd p) (fst p) \<longrightarrow>
      (\<exists>xs. walk (edge g) (root g) xs (fst p) \<and> snd p \<notin> set xs \<and> retreats (num g) xs < k)"
  proof -
    have "\<forall>p \<in> ?R \<times> ?R. \<exists>k. \<not> dom g (snd p) (fst p) \<longrightarrow>
      (\<exists>xs. walk (edge g) (root g) xs (fst p) \<and> snd p \<notin> set xs \<and> retreats (num g) xs < k)"
    proof (intro ballI)
      fix p assume p: "p \<in> ?R \<times> ?R"
      show "\<exists>k. \<not> dom g (snd p) (fst p) \<longrightarrow>
        (\<exists>xs. walk (edge g) (root g) xs (fst p) \<and> snd p \<notin> set xs \<and> retreats (num g) xs < k)"
      proof (cases "dom g (snd p) (fst p)")
        case False
        then obtain xs where "walk (edge g) (root g) xs (fst p)" "snd p \<notin> set xs"
          using not_dominates_walk [of "edge g" "root g" "fst p" "snd p"] p by auto
        then show ?thesis by (intro exI [of _ "Suc (retreats (num g) xs)"] impI exI [of _ xs]) simp
      qed simp
    qed
    then obtain f where f: "\<forall>p \<in> ?R \<times> ?R. \<not> dom g (snd p) (fst p) \<longrightarrow>
      (\<exists>xs. walk (edge g) (root g) xs (fst p) \<and> snd p \<notin> set xs \<and> retreats (num g) xs < f p)" by metis
    have "finite (f ` (?R \<times> ?R))" using finite_reachable [OF i] by blast
    then obtain k where k: "\<forall>n \<in> f ` (?R \<times> ?R). n \<le> k" using finite_nat_set_iff_bounded_le by blast
    show ?thesis
    proof (intro exI [of _ k] ballI impI)
      fix p assume p: "p \<in> ?R \<times> ?R" "\<not> dom g (snd p) (fst p)"
      then obtain xs where "walk (edge g) (root g) xs (fst p)" "snd p \<notin> set xs" "retreats (num g) xs < f p" using f by blast
      moreover have "f p \<le> k" using k p(1) by blast
      ultimately show "\<exists>xs. walk (edge g) (root g) xs (fst p) \<and> snd p \<notin> set xs \<and> retreats (num g) xs < k" by fastforce
    qed
  qed
  then obtain k where k: "\<And>v y. reach g v \<Longrightarrow> reach g y \<Longrightarrow> \<not> dom g y v \<Longrightarrow>
      \<exists>xs. walk (edge g) (root g) xs v \<and> y \<notin> set xs \<and> retreats (num g) xs < k" by force
  show ?thesis
  proof (intro exI [of _ "Suc k"] allI impI)
    fix m D assume m: "Suc k \<le> m" and inv: "sweep_inv g m {} D"
    note s = sweep_invD [OF inv]
    have def: "D v \<noteq> None" if "reach g v" for v using s(3) that m by simp
    have "on_chain D v y \<longleftrightarrow> dom g y v" if v: "reach g v" for v y
    proof
      assume "dom g y v"
      then show "on_chain D v y" using dominators_on_chain [OF i s(1,2)] def [OF v] by blast
    next
      assume y: "on_chain D v y"
      show "dom g y v"
      proof (rule ccontr)
        assume "\<not> dom g y v"
        then obtain xs where "walk (edge g) (root g) xs v" "y \<notin> set xs" "retreats (num g) xs < k"
          using k [OF v chain_reach [OF s(1) y]] by blast
        then show False using avoidedD [OF s(4)] m y by fastforce
      qed
    qed
    then show "exact_tree g D" using s(1) def by (simp add: exact_tree_def)
  qed
qed

text \<open>In an exact tree the parents are the immediate dominators, and the meeting points too.\<close>

lemma exact_idom:
  assumes x: "exact_tree g D" and v: "D v = Some d" "v \<noteq> root g"
  shows "is_idom (edge g) (root g) d v"
proof -
  have t: "tree_ok g D" using x by (simp add: exact_tree_def)
  have r: "reach g v" "reach g d" using tree_okD(2,3) [OF t] v(1) by fastforce+
  have c: "dom g y v \<longleftrightarrow> y = v \<or> dom g y d" for y
    using chain_parent [OF t v, of y] x r by (simp add: exact_tree_def)
  moreover have "d \<noteq> v" using tree_okD(4) [OF t v] by auto
  ultimately show ?thesis using dominates_self [OF r(2)] unfolding is_idom_def by blast
qed

lemma exact_meets:
  assumes x: "exact_tree g D" and v: "D v = Some d" "v \<noteq> root g" and m: "meets g D v n"
  shows "n = d"
proof -
  have t: "tree_ok g D" using x by (simp add: exact_tree_def)
  have r: "reach g v" "reach g d" using tree_okD(2,3) [OF t] v(1) by fastforce+
  have e: "on_chain D u y \<longleftrightarrow> dom g y u" if "reach g u" for u y using x that by (simp add: exact_tree_def)
  have def: "D u \<noteq> None \<longleftrightarrow> reach g u" for u using x tree_okD(2) [OF t] by (auto simp: exact_tree_def)
  have "on_chain D n y \<longleftrightarrow> on_chain D d y" for y
  proof -
    have "on_chain D n y \<longleftrightarrow> (\<forall>p. edge g p v \<and> reach g p \<longrightarrow> on_chain D p y)"
      using m unfolding meets_def def by blast
    also have "\<dots> \<longleftrightarrow> (\<forall>p. edge g p v \<and> reach g p \<longrightarrow> dom g y p)"
      using e by simp
    also have "\<dots> \<longleftrightarrow> dom g y v \<and> y \<noteq> v" by (rule dominates_preds_iff [OF r(1) v(2)])
    also have "\<dots> \<longleftrightarrow> (y = v \<or> on_chain D d y) \<and> y \<noteq> v"
      using chain_parent [OF t v, of y] e [OF r(1)] by simp
    also have "\<dots> \<longleftrightarrow> on_chain D d y"
      using tree_okD(4) [OF t v] chain_num [OF t, of d y] by auto
    finally show ?thesis .
  qed
  then show ?thesis using chain_determines [OF t, of n d] meetsD(1) [OF m] tree_okD(3) [OF t v(1)] by blast
qed

end

section \<open>Dominance frontiers\<close>

definition dominance_frontier :: "('v \<Rightarrow> 'v \<Rightarrow> bool) \<Rightarrow> 'v \<Rightarrow> 'v \<Rightarrow> 'v \<Rightarrow> bool" where
  "dominance_frontier edge root x b \<longleftrightarrow> (\<exists>p. edge p b \<and> dominates edge root x p) \<and> \<not> sdom edge root x b"

text \<open>A step that stays away from a node.\<close>

abbreviation step_avoiding :: "('v \<Rightarrow> 'v \<Rightarrow> bool) \<Rightarrow> 'v \<Rightarrow> 'v \<Rightarrow> 'v \<Rightarrow> bool" where
  "step_avoiding edge d u v \<equiv> edge u v \<and> u \<noteq> d \<and> v \<noteq> d"

lemma walk_along:
  assumes "(step_avoiding edge d)\<^sup>+\<^sup>+ x b" "walk edge root xs x" "d \<notin> set xs"
  shows "\<exists>ys. walk edge root ys b \<and> d \<notin> set ys"
  using assms
proof (induction rule: tranclp_induct)
  case (base y)
  then show ?case using walk.step [of edge root xs x y] by (intro exI [of _ "y # xs"]) auto
next
  case (step y z)
  then obtain ys where "walk edge root ys y" "d \<notin> set ys" by blast
  then show ?case using walk.step [of edge root ys y z] step.hyps(2) by (intro exI [of _ "z # ys"]) auto
qed

lemma frontier_of_path:
  assumes i: "is_idom edge root d b" and path: "(step_avoiding edge d)\<^sup>+\<^sup>+ x b" and "reachable edge root x"
  shows "x \<noteq> root" "\<not> sdom edge root x b"
proof -
  have db: "dominates edge root d b" and all: "\<And>a. sdom edge root a b \<Longrightarrow> dominates edge root a d"
    using i by (auto simp: is_idom_def)
  have xd: "x \<noteq> d" using tranclpD [OF path] by blast
  have away: False if w: "walk edge root xs x" "d \<notin> set xs" for xs
  proof -
    obtain ys where "walk edge root ys b" "d \<notin> set ys" using walk_along [OF path w] by blast
    then show False using dominatesD [OF db] by blast
  qed
  show "x \<noteq> root"
  proof
    assume "x = root"
    then have "walk edge root [root] x" by (simp add: walk.start)
    from away [OF this] show False using xd \<open>x = root\<close> by simp
  qed
  show "\<not> sdom edge root x b"
  proof
    assume "sdom edge root x b"
    then have "dominates edge root x d" by (rule all)
    then have "\<not> dominates edge root d x" using dominates_antisym [of edge root x d] xd by blast
    from not_dominates_walk [OF assms(3) this] show False using away by blast
  qed
qed

text \<open>The criterion for placing a merge: when the set \<open>P\<close> contains the frontiers of \<open>A\<close> and of
  itself, a block of \<open>P\<close> or \<open>A\<close> that reaches \<open>b\<close> without passing the immediate dominator of \<open>b\<close>
  puts \<open>b\<close> into \<open>P\<close>.\<close>

lemma frontier_closed_path:
  assumes i: "is_idom edge root d b"
    and closed: "\<And>x z. x \<in> A \<union> P \<Longrightarrow> dominance_frontier edge root x z \<Longrightarrow> z \<noteq> root \<Longrightarrow> z \<in> P"
    and path: "(step_avoiding edge d)\<^sup>+\<^sup>+ x b" and x: "x \<in> A \<union> P" "reachable edge root x"
  shows "b \<in> P"
proof -
  have b: "b \<noteq> root" using i dominates_only_root unfolding is_idom_def by metis
  have "b \<in> P" if "(step_avoiding edge d)\<^sup>+\<^sup>+ w b" "dominates edge root x w" "x \<in> A \<union> P"
      "(step_avoiding edge d)\<^sup>+\<^sup>+ x b" for x w
    using that
  proof (induction arbitrary: x rule: converse_tranclp_induct)
    case (base w)
    have "reachable edge root x" using dominates_reachable [OF base.prems(1)] by blast
    then have "dominance_frontier edge root x b"
      using frontier_of_path(2) [OF i base.prems(3)] base.hyps base.prems(1) by (auto simp: dominance_frontier_def)
    then show ?case using closed base.prems(2) b by blast
  next
    case (step w z)
    have rz: "reachable edge root z"
      using dominates_reachable [OF step.prems(1)] step.hyps(1) reachable_step by metis
    show ?case
    proof (cases "sdom edge root x z")
      case True
      then show ?thesis using step.IH [of x] step.prems by blast
    next
      case False
      have "z \<noteq> root" using frontier_of_path(1) [OF i step.hyps(2) rz] .
      moreover have "dominance_frontier edge root x z"
        using False step.hyps(1) step.prems(1) by (auto simp: dominance_frontier_def)
      ultimately have "z \<in> P" using closed step.prems(2) by blast
      then show ?thesis using step.IH [of z] dominates_self [OF rz] step.hyps(2) by blast
    qed
  qed
  from this [OF path dominates_self [OF x(2)] x(1) path] show ?thesis .
qed

end
