(* ===== verification/SsaDominators.thy ===== *)
theory SsaDominators
  imports Dominators
begin

text \<open>
  The analyses of \<open>NonSsaToSsaPass\<close> (EzMir/src/MirPasses/Passes/NonSsaToSsaPass.cpp):
  \<open>buildPostOrderIndexList\<close> (depth-first post-order), \<open>buildImmDomTree\<close> (the iterative algorithm
  of Cooper, Harvey and Kennedy on the parent map) and \<open>buildDominanceFrontier\<close>. The numbering
  interprets \<open>numbered_graph\<close>; the theorems show that the parent map is the immediate dominator
  relation, that the iteration ends, and that the frontiers are the dominance frontiers.
\<close>

section \<open>Post-order\<close>

text \<open>The recursive visit of the code, with the loop over the successors of a block as the list of
  blocks still to visit. The state holds the visited blocks and the post-order so far.\<close>

partial_function (option) dfs_visit ::
  "(mir_id \<Rightarrow> mir_id list) \<Rightarrow> mir_id list \<Rightarrow> mir_id set \<times> mir_id list \<Rightarrow> (mir_id set \<times> mir_id list) option" where
  "dfs_visit succs todo st =
     (case todo of
        [] \<Rightarrow> Some st
      | v # vs \<Rightarrow>
          if v \<in> fst st then dfs_visit succs vs st
          else Option.bind (dfs_visit succs (succs v) (insert v (fst st), snd st))
                 (\<lambda>st1. dfs_visit succs vs (fst st1, snd st1 @ [v])))"

definition buildPostOrder :: "code_flow_result \<Rightarrow> mir_id \<Rightarrow> mir_id list option" where
  "buildPostOrder cfg entry = map_option snd (dfs_visit (getSuccessors cfg) [entry] ({}, []))"

definition postOrderIndexes :: "mir_id list \<Rightarrow> mir_id \<rightharpoonup> nat" where
  "postOrderIndexes xs = fold (\<lambda>i m. m(xs ! i \<mapsto> i)) [0..<length xs] Map.empty"

section \<open>Immediate dominators\<close>

partial_function (option) intersect ::
  "(mir_id \<rightharpoonup> nat) \<Rightarrow> (mir_id \<rightharpoonup> mir_id) \<Rightarrow> mir_id \<Rightarrow> mir_id \<Rightarrow> mir_id option" where
  "intersect po D finger1 finger2 =
     (if finger1 = finger2 then Some finger1
      else case po finger1 of
        None \<Rightarrow> Some finger1
      | Some i \<Rightarrow>
          (case po finger2 of
             None \<Rightarrow> Some finger1
           | Some j \<Rightarrow>
               if i < j then
                 (case D finger1 of
                    None \<Rightarrow> Some finger1
                  | Some n \<Rightarrow> if n = finger1 then Some finger1 else intersect po D n finger2)
               else
                 (case D finger2 of
                    None \<Rightarrow> Some finger1
                  | Some n \<Rightarrow> if n = finger2 then Some finger1 else intersect po D finger1 n)))"

text \<open>The scan of the predecessors; the accumulator is \<open>None\<close> until one with a parent is found.\<close>

fun meet_preds :: "(mir_id \<rightharpoonup> nat) \<Rightarrow> (mir_id \<rightharpoonup> mir_id) \<Rightarrow> mir_id list \<Rightarrow> mir_id option \<Rightarrow> mir_id option option" where
  "meet_preds po D [] acc = Some acc"
| "meet_preds po D (p # ps) acc =
     (if D p = None then meet_preds po D ps acc
      else case acc of
        None \<Rightarrow> meet_preds po D ps (Some p)
      | Some newIdom \<Rightarrow>
          Option.bind (intersect po D p newIdom) (\<lambda>k. meet_preds po D ps (Some k)))"

text \<open>One block of a sweep. Reading \<open>domTree[blockId]\<close> inserts the invalid id when there is no
  entry yet.\<close>

definition update_idom ::
  "(mir_id \<Rightarrow> mir_id list) \<Rightarrow> (mir_id \<rightharpoonup> nat) \<Rightarrow> mir_id \<Rightarrow> mir_id \<Rightarrow> (mir_id \<rightharpoonup> mir_id) \<times> bool \<Rightarrow> ((mir_id \<rightharpoonup> mir_id) \<times> bool) option" where
  "update_idom preds po entry b st =
     (case st of (D, changed) \<Rightarrow>
        if b = entry then Some (D, changed)
        else
          Option.bind (meet_preds po D (preds b) None)
            (\<lambda>found. case found of
               None \<Rightarrow> Some (D, changed)
             | Some newIdom \<Rightarrow>
                 let D1 = (if D b = None then D(b \<mapsto> MIRID_INVALID) else D) in
                 if D1 b \<noteq> Some newIdom then Some (D1(b \<mapsto> newIdom), True) else Some (D1, changed)))"

fun sweep_blocks ::
  "(mir_id \<Rightarrow> mir_id list) \<Rightarrow> (mir_id \<rightharpoonup> nat) \<Rightarrow> mir_id \<Rightarrow> mir_id list \<Rightarrow> (mir_id \<rightharpoonup> mir_id) \<times> bool \<Rightarrow> ((mir_id \<rightharpoonup> mir_id) \<times> bool) option" where
  "sweep_blocks preds po entry [] st = Some st"
| "sweep_blocks preds po entry (b # bs) st =
     Option.bind (update_idom preds po entry b st) (sweep_blocks preds po entry bs)"

partial_function (option) sweep_loop ::
  "(mir_id \<Rightarrow> mir_id list) \<Rightarrow> (mir_id \<rightharpoonup> nat) \<Rightarrow> mir_id \<Rightarrow> mir_id list \<Rightarrow> (mir_id \<rightharpoonup> mir_id) \<Rightarrow> (mir_id \<rightharpoonup> mir_id) option" where
  "sweep_loop preds po entry order D =
     Option.bind (sweep_blocks preds po entry order (D, False))
       (\<lambda>(D', changed). if changed then sweep_loop preds po entry order D' else Some D')"

definition buildImmDomTree :: "code_flow_result \<Rightarrow> mir_id \<Rightarrow> mir_id list \<Rightarrow> (mir_id \<rightharpoonup> mir_id) option" where
  "buildImmDomTree cfg entry postOrderNodes =
     sweep_loop (getPredecessors cfg) (postOrderIndexes postOrderNodes) entry (rev postOrderNodes) [entry \<mapsto> entry]"

section \<open>Depth-first search\<close>

lemma postorder_split:
  assumes parent: "\<And>xs w ys. new1 = xs @ w # ys \<Longrightarrow> w \<in> set (succs v) \<or> (\<exists>u \<in> set ys. w \<in> set (succs u))"
      "\<And>xs w ys. new2 = xs @ w # ys \<Longrightarrow> w \<in> set vs \<or> (\<exists>u \<in> set ys. w \<in> set (succs u))"
    and e: "new1 @ v # new2 = xs @ w # ys"
  shows "w = v \<or> w \<in> set vs \<or> (\<exists>u \<in> set ys. w \<in> set (succs u))"
proof -
  from e consider us where "new1 = xs @ us" "us @ v # new2 = w # ys" | us where "new1 @ us = xs" "v # new2 = us @ w # ys"
    by (auto simp: append_eq_append_conv2)
  then show ?thesis
  proof cases
    case 1
    show ?thesis
    proof (cases us)
      case Nil
      then show ?thesis using 1 by simp
    next
      case (Cons u us')
      then have "new1 = xs @ w # us'" "ys = us' @ v # new2" using 1 by simp_all
      then show ?thesis using parent(1) by fastforce
    qed
  next
    case 2
    show ?thesis
    proof (cases us)
      case Nil
      then show ?thesis using 2 by simp
    next
      case (Cons u us')
      then have "new2 = us' @ w # ys" using 2 by simp
      then show ?thesis using parent(2) by blast
    qed
  qed
qed

lemma dfs_visit_correct:
  assumes U: "finite U" "\<And>v. v \<in> U \<Longrightarrow> set (succs v) \<subseteq> U"
  shows "V \<subseteq> U \<Longrightarrow> set todo \<subseteq> U \<Longrightarrow>
    \<exists>V' new. dfs_visit succs todo (V, out) = Some (V', out @ new) \<and> V \<union> set todo \<subseteq> V' \<and> V' \<subseteq> U \<and>
      distinct new \<and> set new = V' - V \<and> (\<forall>v \<in> set new. set (succs v) \<subseteq> V') \<and>
      (\<forall>xs v ys. new = xs @ v # ys \<longrightarrow> v \<in> set todo \<or> (\<exists>u \<in> set ys. v \<in> set (succs u)))"
proof (induction "card (U - V)" arbitrary: V todo out rule: less_induct)
  case less
  note IH = less.hyps
  show ?case
    using less.prems(2)
  proof (induction todo)
    case Nil
    show ?case
      by (intro exI [of _ V] exI [of _ "[]"]) (simp add: dfs_visit.simps less.prems(1))
  next
    case (Cons v vs)
    show ?case
    proof (cases "v \<in> V")
      case True
      have "dfs_visit succs (v # vs) (V, out) = dfs_visit succs vs (V, out)"
        using True by (subst dfs_visit.simps) simp
      then show ?thesis using Cons.IH Cons.prems True by auto
    next
      case False
      have v: "v \<in> U" and vs: "set vs \<subseteq> U" using Cons.prems by simp_all
      have fin: "finite (U - V)" using U(1) by blast
      have c1: "card (U - insert v V) < card (U - V)"
        using False v by (intro psubset_card_mono [OF fin]) blast
      obtain V1 new1 where n1: "dfs_visit succs (succs v) (insert v V, out) = Some (V1, out @ new1)"
        "insert v V \<union> set (succs v) \<subseteq> V1" "V1 \<subseteq> U" "distinct new1" "set new1 = V1 - insert v V"
        "\<forall>w \<in> set new1. set (succs w) \<subseteq> V1"
        "\<And>xs w ys. new1 = xs @ w # ys \<Longrightarrow> w \<in> set (succs v) \<or> (\<exists>u \<in> set ys. w \<in> set (succs u))"
        using IH [OF c1, of "succs v" out] less.prems(1) v U(2) [OF v] by auto
      have c2: "card (U - V1) < card (U - V)"
        using False v n1(2) by (intro psubset_card_mono [OF fin]) blast
      obtain V2 new2 where n2: "dfs_visit succs vs (V1, out @ new1 @ [v]) = Some (V2, (out @ new1 @ [v]) @ new2)"
        "V1 \<union> set vs \<subseteq> V2" "V2 \<subseteq> U" "distinct new2" "set new2 = V2 - V1"
        "\<forall>w \<in> set new2. set (succs w) \<subseteq> V2"
        "\<And>xs w ys. new2 = xs @ w # ys \<Longrightarrow> w \<in> set vs \<or> (\<exists>u \<in> set ys. w \<in> set (succs u))"
        using IH [OF c2 n1(3) vs, of "out @ new1 @ [v]"] by auto
      have run: "dfs_visit succs (v # vs) (V, out) = Some (V2, out @ new1 @ v # new2)"
        using False n1(1) n2(1) by (subst dfs_visit.simps) simp
      have "distinct (new1 @ v # new2)" using n1(2,4,5) n2(4,5) by auto
      moreover have "set (new1 @ v # new2) = V2 - V" using n1(2,5) n2(2,5) False by auto
      moreover have "\<forall>w \<in> set (new1 @ v # new2). set (succs w) \<subseteq> V2" using n1(2,6) n2(2,6) by auto
      moreover have "w \<in> set (v # vs) \<or> (\<exists>u \<in> set ys. w \<in> set (succs u))" if "new1 @ v # new2 = xs @ w # ys" for xs w ys
        using postorder_split [OF n1(7) n2(7) that] by auto
      ultimately show ?thesis
        using run n1(2) n2(2,3) by (intro exI [of _ V2] exI [of _ "new1 @ v # new2"]) auto
    qed
  qed
qed

text \<open>The edges of a flow graph and its depth-first numbers.\<close>

definition flow_edge :: "code_flow_result \<Rightarrow> mir_id \<Rightarrow> mir_id \<Rightarrow> bool" where
  "flow_edge cfg u v \<longleftrightarrow> v \<in> set (getSuccessors cfg u)"

lemma finite_cfr_nodes: "cfr_wf r \<Longrightarrow> finite (cfr_nodes r)"
proof -
  assume "cfr_wf r"
  then have "slots_ok r" by (simp add: cfr_wf_def)
  then have "cfr_nodes r \<subseteq> set (m_blockIds r)"
    by (auto simp: cfr_nodes_def cfr_contains_def slots_ok_def)
  then show ?thesis by (rule finite_subset) simp
qed

lemma buildPostOrder_correct:
  assumes wf: "cfr_wf cfg"
  shows "\<exists>order. buildPostOrder cfg entry = Some order \<and> distinct order \<and>
    set order = {v. reachable (flow_edge cfg) entry v} \<and>
    (\<forall>xs v ys. order = xs @ v # ys \<longrightarrow> v = entry \<or> (\<exists>u \<in> set ys. flow_edge cfg u v))"
proof -
  let ?U = "insert entry (cfr_nodes cfg)"
  have U: "finite ?U" "\<And>v. v \<in> ?U \<Longrightarrow> set (getSuccessors cfg v) \<subseteq> ?U"
    using finite_cfr_nodes [OF wf] cfr_wfD(5) [OF wf] by (auto simp: cfr_nodes_def)
  obtain V order where o: "dfs_visit (getSuccessors cfg) [entry] ({}, []) = Some (V, [] @ order)"
    "{} \<union> set [entry] \<subseteq> V" "V \<subseteq> ?U" "distinct order" "set order = V - {}"
    "\<forall>v \<in> set order. set (getSuccessors cfg v) \<subseteq> V"
    "\<forall>xs v ys. order = xs @ v # ys \<longrightarrow> v \<in> set [entry] \<or> (\<exists>u \<in> set ys. v \<in> set (getSuccessors cfg u))"
    using dfs_visit_correct [where succs = "getSuccessors cfg", OF U, where V = "{}" and todo = "[entry]" and out = "[]"] by auto
  have "v \<in> V" if "reachable (flow_edge cfg) entry v" for v
    using that by (induction rule: reachable_induct) (use o in \<open>auto simp: flow_edge_def\<close>)
  moreover have "reachable (flow_edge cfg) entry v" if "order = xs @ v # ys" for xs v ys
    using that
  proof (induction "length ys" arbitrary: xs v ys rule: less_induct)
    case less
    from o(7) less.prems have "v = entry \<or> (\<exists>u \<in> set ys. flow_edge cfg u v)" by (simp add: flow_edge_def)
    then show ?case
    proof
      assume "\<exists>u \<in> set ys. flow_edge cfg u v"
      then obtain u as bs where u: "flow_edge cfg u v" "ys = as @ u # bs" by (meson split_list)
      have "reachable (flow_edge cfg) entry u"
        by (rule less.hyps [of bs "xs @ v # as"]) (simp_all add: u(2) less.prems)
      then show ?thesis using u(1) by (rule reachable_step)
    qed simp
  qed
  then have "reachable (flow_edge cfg) entry v" if "v \<in> V" for v
    using that o(5) by (metis Diff_empty split_list)
  ultimately show ?thesis
    using o by (intro exI [of _ order]) (auto simp: buildPostOrder_def flow_edge_def)
qed

section \<open>The numbering\<close>

lemma postOrderIndexes_nth:
  assumes "distinct xs"
  shows "i < length xs \<Longrightarrow> postOrderIndexes xs (xs ! i) = Some i" "v \<notin> set xs \<Longrightarrow> postOrderIndexes xs v = None"
proof -
  have f: "fold (\<lambda>i m. m(xs ! i \<mapsto> i)) [0..<n] Map.empty v =
      (if \<exists>i < n. xs ! i = v then Some (THE i. i < n \<and> xs ! i = v) else None)" if "n \<le> length xs" for n v
    using that
  proof (induction n)
    case (Suc n)
    show ?case
    proof (cases "xs ! n = v")
      case True
      have "(THE i. i < Suc n \<and> xs ! i = v) = n"
        using Suc.prems True assms by (intro the_equality) (auto simp: nth_eq_iff_index_eq)
      then show ?thesis using True by auto
    next
      case False
      have "(i < Suc n \<and> xs ! i = v) \<longleftrightarrow> (i < n \<and> xs ! i = v)" for i using False by (auto simp: less_Suc_eq)
      then show ?thesis using False Suc by auto
    qed
  qed simp
  show "postOrderIndexes xs (xs ! i) = Some i" if "i < length xs"
  proof -
    have "(THE j. j < length xs \<and> xs ! j = xs ! i) = i"
      using that assms by (intro the_equality) (auto simp: nth_eq_iff_index_eq)
    then show ?thesis using f [of "length xs" "xs ! i"] that by (auto simp: postOrderIndexes_def)
  qed
  show "postOrderIndexes xs v = None" if "v \<notin> set xs"
    using f [of "length xs" v] that nth_mem by (fastforce simp: postOrderIndexes_def)
qed

definition post_number :: "code_flow_result \<times> mir_id \<Rightarrow> mir_id \<Rightarrow> nat" where
  "post_number g v =
     (case buildPostOrder (fst g) (snd g) of
        None \<Rightarrow> 0
      | Some order \<Rightarrow> (case postOrderIndexes order v of Some i \<Rightarrow> i | None \<Rightarrow> 0))"

lemma post_number_nth:
  assumes "buildPostOrder cfg entry = Some order" "distinct order" "i < length order"
  shows "post_number (cfg, entry) (order ! i) = i"
  using assms postOrderIndexes_nth(1) [OF assms(2,3)] by (simp add: post_number_def)

lemma post_order_parent:
  assumes wf: "cfr_wf cfg" and v: "reachable (flow_edge cfg) entry v" "v \<noteq> entry"
  shows "\<exists>u. reachable (flow_edge cfg) entry u \<and> flow_edge cfg u v \<and> post_number (cfg, entry) v < post_number (cfg, entry) u"
proof -
  obtain order where o: "buildPostOrder cfg entry = Some order" "distinct order" "set order = {v. reachable (flow_edge cfg) entry v}"
    "\<forall>xs v ys. order = xs @ v # ys \<longrightarrow> v = entry \<or> (\<exists>u \<in> set ys. flow_edge cfg u v)"
    using buildPostOrder_correct [OF wf] by blast
  have "v \<in> set order" using v(1) o(3) by simp
  then obtain i where i: "i < length order" "order ! i = v" by (auto simp: in_set_conv_nth)
  have "order = take i order @ v # drop (Suc i) order" using id_take_nth_drop [OF i(1)] i(2) by simp
  then obtain u where u: "u \<in> set (drop (Suc i) order)" "flow_edge cfg u v" using o(4) v(2) by blast
  then obtain j where j: "j < length (drop (Suc i) order)" "drop (Suc i) order ! j = u" by (auto simp: in_set_conv_nth)
  then have "Suc i + j < length order" "order ! (Suc i + j) = u" by simp_all
  then have "post_number (cfg, entry) u = Suc i + j" "reachable (flow_edge cfg) entry u"
    using post_number_nth [OF o(1,2)] o(3) nth_mem by fastforce+
  then show ?thesis using u(2) post_number_nth [OF o(1,2) i(1)] i(2) by auto
qed

interpretation ssa: numbered_graph "\<lambda>g. cfr_wf (fst g)" "\<lambda>g. flow_edge (fst g)" snd post_number
proof (unfold_locales, goal_cases)
  case (1 g)
  then obtain order where "set order = {v. reachable (flow_edge (fst g)) (snd g) v}"
    using buildPostOrder_correct by blast
  then show ?case using finite_set by metis
next
  case (2 g u v)
  obtain order where o: "buildPostOrder (fst g) (snd g) = Some order" "distinct order"
    "set order = {v. reachable (flow_edge (fst g)) (snd g) v}"
    using buildPostOrder_correct [OF 2(1)] by blast
  then obtain i j where "i < length order" "order ! i = u" "j < length order" "order ! j = v"
    using 2(2,3) by (metis in_set_conv_nth mem_Collect_eq)
  then show ?case using post_number_nth [OF o(1,2)] 2(4) by auto
next
  case (3 g v)
  then show ?case using post_order_parent [of "fst g" "snd g" v] by simp
qed

section \<open>Meeting points\<close>

lemma post_index:
  assumes wf: "cfr_wf cfg" and o: "buildPostOrder cfg entry = Some order" and v: "reachable (flow_edge cfg) entry v"
  shows "postOrderIndexes order v = Some (post_number (cfg, entry) v)"
proof -
  have d: "distinct order" "set order = {v. reachable (flow_edge cfg) entry v}"
    using buildPostOrder_correct [OF wf, of entry] o by auto
  then obtain i where "i < length order" "order ! i = v" using v by (metis in_set_conv_nth mem_Collect_eq)
  then show ?thesis using postOrderIndexes_nth(1) [OF d(1)] post_number_nth [OF o d(1)] by fastforce
qed

lemma intersect_correct:
  assumes wf: "cfr_wf cfg" and o: "buildPostOrder cfg entry = Some order" and t: "ssa.tree_ok (cfg, entry) D"
  shows "D a \<noteq> None \<Longrightarrow> D b \<noteq> None \<Longrightarrow>
    \<exists>k. intersect (postOrderIndexes order) D a b = Some k \<and> D k \<noteq> None \<and>
      (\<forall>y. on_chain D k y \<longleftrightarrow> on_chain D a y \<and> on_chain D b y)"
proof -
  let ?num = "post_number (cfg, entry)" and ?po = "postOrderIndexes order"
  obtain N where N: "\<forall>v. ssa.reach (cfg, entry) v \<longrightarrow> ?num v < N"
    by (rule ssa.num_bound [of "(cfg, entry)"]) (use wf in simp)
  have step: "D v = Some d \<Longrightarrow> v \<noteq> entry \<Longrightarrow> ?num v < ?num d \<and> ?num d < N \<and> D d \<noteq> None \<and> d \<noteq> v" for v d
    using ssa.tree_okD(3,4) [OF t, of v d] ssa.tree_okD(2) [OF t, of d] N by fastforce
  have chain: "D v = Some d \<Longrightarrow> v \<noteq> entry \<Longrightarrow> on_chain D v y \<longleftrightarrow> y = v \<or> on_chain D d y" for v d y
    using ssa.chain_parent [OF t, of v d y] by simp
  show "D a \<noteq> None \<Longrightarrow> D b \<noteq> None \<Longrightarrow>
    \<exists>k. intersect ?po D a b = Some k \<and> D k \<noteq> None \<and> (\<forall>y. on_chain D k y \<longleftrightarrow> on_chain D a y \<and> on_chain D b y)"
  proof (induction "(N - ?num a) + (N - ?num b)" arbitrary: a b rule: less_induct)
    case less
    show ?case
    proof (cases "a = b")
      case True
      then show ?thesis using less.prems by (subst intersect.simps) auto
    next
      case False
      have ra: "reachable (flow_edge cfg) entry a" and rb: "reachable (flow_edge cfg) entry b"
        using less.prems ssa.tree_okD(2) [OF t] by fastforce+
      have po: "?po a = Some (?num a)" "?po b = Some (?num b)" using post_index [OF wf o] ra rb by blast+
      have ne: "?num a \<noteq> ?num b" using ssa.num_inj [of "(cfg, entry)" a b] wf ra rb False by auto
      have top: "v \<noteq> entry" if "?num v < ?num w" "reachable (flow_edge cfg) entry w" for v w
        using ssa.root_num [of "(cfg, entry)" w] wf that by auto
      show ?thesis
      proof (cases "?num a < ?num b")
        case True
        obtain d where d: "D a = Some d" using less.prems(1) by blast
        note s = step [OF d top [OF True rb]]
        have "intersect ?po D a b = intersect ?po D d b"
          using False True po d s by (subst intersect.simps) simp
        moreover have "N - ?num d < N - ?num a" using s by linarith
        then have "\<exists>k. intersect ?po D d b = Some k \<and> D k \<noteq> None \<and> (\<forall>y. on_chain D k y \<longleftrightarrow> on_chain D d y \<and> on_chain D b y)"
          using less.hyps [of d b] s less.prems(2) by simp
        moreover have "\<not> on_chain D b a" using ssa.chain_num [OF t, of b a] True False by auto
        ultimately show ?thesis using chain [OF d top [OF True rb]] by auto
      next
        case nb: False
        then have lt: "?num b < ?num a" using ne by simp
        obtain d where d: "D b = Some d" using less.prems(2) by blast
        note s = step [OF d top [OF lt ra]]
        have "intersect ?po D a b = intersect ?po D a d"
          using False nb po d s by (subst intersect.simps) simp
        moreover have "N - ?num d < N - ?num b" using s by linarith
        then have "\<exists>k. intersect ?po D a d = Some k \<and> D k \<noteq> None \<and> (\<forall>y. on_chain D k y \<longleftrightarrow> on_chain D a y \<and> on_chain D d y)"
          using less.hyps [of a d] s less.prems(1) by simp
        moreover have "\<not> on_chain D a b" using ssa.chain_num [OF t, of a b] lt False by auto
        ultimately show ?thesis using chain [OF d top [OF lt ra]] by auto
      qed
    qed
  qed
qed


lemma meet_preds_found:
  assumes wf: "cfr_wf cfg" and o: "buildPostOrder cfg entry = Some order" and t: "ssa.tree_ok (cfg, entry) D"
  shows "D n0 \<noteq> None \<Longrightarrow> \<exists>n. meet_preds (postOrderIndexes order) D ps (Some n0) = Some (Some n) \<and> D n \<noteq> None \<and>
    (\<forall>y. on_chain D n y \<longleftrightarrow> on_chain D n0 y \<and> (\<forall>p \<in> set ps. D p \<noteq> None \<longrightarrow> on_chain D p y))"
proof (induction ps arbitrary: n0)
  case Nil
  then show ?case by (intro exI [of _ n0]) simp
next
  case (Cons p ps)
  show ?case
  proof (cases "D p = None")
    case True
    then show ?thesis using Cons.IH [OF Cons.prems] by simp
  next
    case False
    obtain k where k: "intersect (postOrderIndexes order) D p n0 = Some k" "D k \<noteq> None"
      "\<forall>y. on_chain D k y \<longleftrightarrow> on_chain D p y \<and> on_chain D n0 y"
      using intersect_correct [OF wf o t False Cons.prems] by blast
    from Cons.IH [OF k(2)] obtain n where n: "meet_preds (postOrderIndexes order) D ps (Some k) = Some (Some n)" "D n \<noteq> None"
      "\<forall>y. on_chain D n y \<longleftrightarrow> on_chain D k y \<and> (\<forall>p \<in> set ps. D p \<noteq> None \<longrightarrow> on_chain D p y)" by blast
    have "\<forall>y. on_chain D n y \<longleftrightarrow> on_chain D n0 y \<and> (\<forall>q \<in> set (p # ps). D q \<noteq> None \<longrightarrow> on_chain D q y)"
      using n(3) k(3) False by auto
    moreover have "meet_preds (postOrderIndexes order) D (p # ps) (Some n0) = Some (Some n)"
      using k(1) n(1) False by auto
    ultimately show ?thesis using n(2) by blast
  qed
qed

lemma meet_preds_correct:
  assumes wf: "cfr_wf cfg" and o: "buildPostOrder cfg entry = Some order" and t: "ssa.tree_ok (cfg, entry) D"
  shows "\<exists>p \<in> set ps. D p \<noteq> None \<Longrightarrow> \<exists>n. meet_preds (postOrderIndexes order) D ps None = Some (Some n) \<and> D n \<noteq> None \<and>
    (\<forall>y. on_chain D n y \<longleftrightarrow> (\<forall>p \<in> set ps. D p \<noteq> None \<longrightarrow> on_chain D p y))"
proof (induction ps)
  case (Cons p ps)
  show ?case
  proof (cases "D p = None")
    case True
    then show ?thesis using Cons by simp
  next
    case False
    then obtain d where "D p = Some d" by blast
    then show ?thesis using meet_preds_found [OF wf o t, of p ps] by simp
  qed
qed simp

section \<open>Sweeps over the blocks\<close>

lemma update_idom_correct:
  assumes wf: "cfr_wf cfg" and o: "buildPostOrder cfg entry = Some order" and b: "reachable (flow_edge cfg) entry b" "b \<noteq> entry"
    and inv: "ssa.sweep_inv (cfg, entry) m {v. reachable (flow_edge cfg) entry v \<and> post_number (cfg, entry) b < post_number (cfg, entry) v} D"
    and zero: "\<not> reachable (flow_edge cfg) entry MIRID_INVALID"
  shows "\<exists>n. ssa.meets (cfg, entry) D b n \<and>
    update_idom (getPredecessors cfg) (postOrderIndexes order) entry b (D, changed) =
      Some (D(b \<mapsto> n), changed \<or> D b \<noteq> Some n)"
proof -
  note s = ssa.sweep_invD [OF inv]
  have preds: "p \<in> set (getPredecessors cfg b) \<longleftrightarrow> flow_edge cfg p b" for p
    using cfr_wfD(4) [OF wf, of b p] by (simp add: flow_edge_def)
  obtain q where q: "reachable (flow_edge cfg) entry q" "flow_edge cfg q b" "post_number (cfg, entry) b < post_number (cfg, entry) q"
    using post_order_parent [OF wf b] by blast
  have "D q \<noteq> None" using s(3) [of q] q by simp
  then have "\<exists>p \<in> set (getPredecessors cfg b). D p \<noteq> None" using preds q(2) by blast
  from meet_preds_correct [OF wf o s(1) this] obtain n where
    n: "meet_preds (postOrderIndexes order) D (getPredecessors cfg b) None = Some (Some n)" "D n \<noteq> None"
    "\<forall>y. on_chain D n y \<longleftrightarrow> (\<forall>p \<in> set (getPredecessors cfg b). D p \<noteq> None \<longrightarrow> on_chain D p y)" by blast
  have m: "ssa.meets (cfg, entry) D b n"
    unfolding ssa.meets_def fst_conv using n(2,3) preds by blast
  have "reachable (flow_edge cfg) entry n" using n(2) ssa.tree_okD(2) [OF s(1)] by fastforce
  then have nz: "n \<noteq> MIRID_INVALID" using zero by blast
  have "update_idom (getPredecessors cfg) (postOrderIndexes order) entry b (D, changed) =
      Some (D(b \<mapsto> n), changed \<or> D b \<noteq> Some n)"
  proof (cases "D b = Some n")
    case True
    then have "D(b \<mapsto> n) = D" by auto
    then show ?thesis using b(2) n(1) True by (simp add: update_idom_def)
  next
    case False
    then show ?thesis using b(2) n(1) nz by (cases "D b") (auto simp: update_idom_def Let_def)
  qed
  then show ?thesis using m by blast
qed

text \<open>The nodes of a suffix of the post-order, and a sweep over its reversal.\<close>

lemma post_order_above:
  assumes o: "buildPostOrder cfg entry = Some order" "distinct order" "set order = {v. reachable (flow_edge cfg) entry v}"
    and s: "order = xs @ b # ys"
  shows "{v. reachable (flow_edge cfg) entry v \<and> post_number (cfg, entry) b < post_number (cfg, entry) v} = set ys"
proof -
  have num: "post_number (cfg, entry) (order ! i) = i" if "i < length order" for i
    by (rule post_number_nth [OF o(1,2) that])
  have b: "post_number (cfg, entry) b = length xs" using num [of "length xs"] s by simp
  have "v \<in> set ys \<longleftrightarrow> (\<exists>i < length order. order ! i = v \<and> length xs < i)" for v
  proof
    assume "v \<in> set ys"
    then obtain j where "j < length ys" "ys ! j = v" by (auto simp: in_set_conv_nth)
    then show "\<exists>i < length order. order ! i = v \<and> length xs < i"
      by (intro exI [of _ "Suc (length xs + j)"]) (simp add: s nth_append)
  next
    assume "\<exists>i < length order. order ! i = v \<and> length xs < i"
    then obtain i where i: "i < length order" "order ! i = v" "length xs < i" by blast
    then obtain j where j: "i = Suc (length xs + j)" by (metis less_iff_Suc_add)
    then have "order ! i = ys ! j" "j < length ys" using i(1) by (simp_all add: s nth_append)
    then show "v \<in> set ys" using i(2) nth_mem by fastforce
  qed
  moreover have "reachable (flow_edge cfg) entry v \<longleftrightarrow> (\<exists>i < length order. order ! i = v)" for v
    using o(3) by (metis in_set_conv_nth mem_Collect_eq)
  ultimately show ?thesis using num b by auto
qed

lemma sweep_blocks_correct:
  assumes wf: "cfr_wf cfg" and o: "buildPostOrder cfg entry = Some order"
    and zero: "\<not> reachable (flow_edge cfg) entry MIRID_INVALID"
  shows "order = rev bs @ ys \<Longrightarrow> ssa.sweep_inv (cfg, entry) m (set ys) D \<Longrightarrow>
    \<exists>D' ch. sweep_blocks (getPredecessors cfg) (postOrderIndexes order) entry bs (D, changed) = Some (D', ch) \<and>
      ssa.sweep_inv (cfg, entry) m (set order) D' \<and> (changed \<longrightarrow> ch) \<and>
      (ssa.exact_tree (cfg, entry) D \<longrightarrow> D' = D \<and> ch = changed) \<and> (\<not> ch \<longrightarrow> D' = D)"
proof (induction bs arbitrary: ys D changed)
  case Nil
  then show ?case by simp
next
  case (Cons b bs)
  have d: "distinct order" "set order = {v. reachable (flow_edge cfg) entry v}"
    using buildPostOrder_correct [OF wf, of entry] o by auto
  have split: "order = rev bs @ b # ys" using Cons.prems(1) by simp
  have above: "{v. reachable (flow_edge cfg) entry v \<and> post_number (cfg, entry) b < post_number (cfg, entry) v} = set ys"
    by (rule post_order_above [OF o d split])
  have b: "reachable (flow_edge cfg) entry b" using d(2) split by auto
  show ?case
  proof (cases "b = entry")
    case True
    have "ys = []"
    proof (rule ccontr)
      assume "ys \<noteq> []"
      then obtain v where v: "v \<in> set ys" by (cases ys) auto
      then have "reachable (flow_edge cfg) entry v" "post_number (cfg, entry) entry < post_number (cfg, entry) v"
        using above True by auto
      then show False using ssa.root_num [of "(cfg, entry)" v] wf by auto
    qed
    then have "ssa.sweep_inv (cfg, entry) m (set (b # ys)) D"
      using ssa.sweep_root [of "(cfg, entry)" m D] Cons.prems(2) True by simp
    from Cons.IH [OF split this] True show ?thesis by (simp add: update_idom_def)
  next
    case False
    obtain n where m: "ssa.meets (cfg, entry) D b n"
      and u: "update_idom (getPredecessors cfg) (postOrderIndexes order) entry b (D, changed) =
        Some (D(b \<mapsto> n), changed \<or> D b \<noteq> Some n)"
      using update_idom_correct [OF wf o b False Cons.prems(2) [folded above] zero] by blast
    have inv': "ssa.sweep_inv (cfg, entry) m (set (b # ys)) (D(b \<mapsto> n))"
      using ssa.sweep_step [of "(cfg, entry)" m b D n] wf Cons.prems(2) above b False m by simp
    have same: "D(b \<mapsto> n) = D" if "D b = Some n" using that by auto
    have ex: "D b = Some n" if e: "ssa.exact_tree (cfg, entry) D"
    proof -
      obtain d where d: "D b = Some d" using e b by (auto simp: ssa.exact_tree_def)
      from ssa.exact_meets [OF e d] m False d show ?thesis by simp
    qed
    obtain D' ch where r: "sweep_blocks (getPredecessors cfg) (postOrderIndexes order) entry bs (D(b \<mapsto> n), changed \<or> D b \<noteq> Some n) = Some (D', ch)"
      "ssa.sweep_inv (cfg, entry) m (set order) D'" "changed \<or> D b \<noteq> Some n \<longrightarrow> ch"
      "ssa.exact_tree (cfg, entry) (D(b \<mapsto> n)) \<longrightarrow> D' = D(b \<mapsto> n) \<and> ch = (changed \<or> D b \<noteq> Some n)" "\<not> ch \<longrightarrow> D' = D(b \<mapsto> n)"
      using Cons.IH [OF split inv', of "changed \<or> D b \<noteq> Some n"] by blast
    have run: "sweep_blocks (getPredecessors cfg) (postOrderIndexes order) entry (b # bs) (D, changed) = Some (D', ch)"
      using u r(1) by simp
    have e: "D' = D \<and> ch = changed" if e: "ssa.exact_tree (cfg, entry) D"
    proof -
      have "ssa.exact_tree (cfg, entry) (D(b \<mapsto> n))" "D(b \<mapsto> n) = D" using e unfolding same [OF ex [OF e]] by simp_all
      then show ?thesis using r(4) ex [OF e] by simp
    qed
    have "D' = D" if "\<not> ch"
    proof -
      have "D b = Some n" using r(3) that by blast
      then show ?thesis using r(5) that same by simp
    qed
    then show ?thesis
      using run r(2,3) e by (intro exI [of _ D'] exI [of _ ch]) blast
  qed
qed


section \<open>The iteration\<close>

lemma sweep_loop_exact:
  assumes wf: "cfr_wf cfg" and o: "buildPostOrder cfg entry = Some order"
    and zero: "\<not> reachable (flow_edge cfg) entry MIRID_INVALID"
    and M: "\<And>m D. M \<le> m \<Longrightarrow> ssa.sweep_inv (cfg, entry) m {} D \<Longrightarrow> ssa.exact_tree (cfg, entry) D"
  shows "ssa.sweep_inv (cfg, entry) m {} D \<Longrightarrow>
    \<exists>D'. sweep_loop (getPredecessors cfg) (postOrderIndexes order) entry (rev order) D = Some D' \<and>
      ssa.exact_tree (cfg, entry) D'"
proof (induction "Suc M - m" arbitrary: m D rule: less_induct)
  case less
  let ?sweep = "\<lambda>D. sweep_blocks (getPredecessors cfg) (postOrderIndexes order) entry (rev order) (D, False)"
  have all: "set order = {v. reachable (flow_edge cfg) entry v}"
    using buildPostOrder_correct [OF wf, of entry] o by auto
  have sweep: "\<exists>D' ch. ?sweep D = Some (D', ch) \<and> ssa.sweep_inv (cfg, entry) (Suc m) {} D' \<and>
      (ssa.exact_tree (cfg, entry) D \<longrightarrow> D' = D \<and> \<not> ch) \<and> (\<not> ch \<longrightarrow> D' = D)"
    if inv: "ssa.sweep_inv (cfg, entry) m {} D" for m D
  proof -
    have "ssa.sweep_inv (cfg, entry) m (set []) D" using inv by simp
    from sweep_blocks_correct [OF wf o zero _ this, of "rev order" False] obtain D' ch where
      s: "?sweep D = Some (D', ch)" "ssa.sweep_inv (cfg, entry) m (set order) D'"
      "ssa.exact_tree (cfg, entry) D \<longrightarrow> D' = D \<and> ch = False" "\<not> ch \<longrightarrow> D' = D" by auto
    have "ssa.sweep_inv (cfg, entry) (Suc m) {} D'"
      using ssa.sweep_end [of "(cfg, entry)" m D'] s(2) all by simp
    then show ?thesis using s by blast
  qed
  obtain D1 ch where s: "?sweep D = Some (D1, ch)" "ssa.sweep_inv (cfg, entry) (Suc m) {} D1"
    "ssa.exact_tree (cfg, entry) D \<longrightarrow> D1 = D \<and> \<not> ch" "\<not> ch \<longrightarrow> D1 = D"
    using sweep [OF less.prems] by blast
  show ?case
  proof (cases ch)
    case True
    have "\<not> M \<le> m" using M [OF _ less.prems] s(3) True by blast
    then have "Suc M - Suc m < Suc M - m" by linarith
    from less.hyps [OF this s(2)] True s(1) show ?thesis by (subst sweep_loop.simps) simp
  next
    case False
    have stay: "ssa.sweep_inv (cfg, entry) (m + j) {} D" for j
    proof (induction j)
      case (Suc j)
      from sweep [OF Suc.IH] s(1,4) False show ?case by auto
    qed (simp add: less.prems)
    have "ssa.exact_tree (cfg, entry) D" by (rule M [OF _ stay [of M]]) simp
    then show ?thesis using False s(1,4) by (subst sweep_loop.simps) simp
  qed
qed

lemma idom_tree_exact:
  assumes wf: "cfr_wf cfg" and zero: "\<not> reachable (flow_edge cfg) entry MIRID_INVALID"
  shows "\<exists>order D. buildPostOrder cfg entry = Some order \<and> buildImmDomTree cfg entry order = Some D \<and>
    distinct order \<and> set order = {v. reachable (flow_edge cfg) entry v} \<and> ssa.exact_tree (cfg, entry) D"
proof -
  obtain order where o: "buildPostOrder cfg entry = Some order" "distinct order"
    "set order = {v. reachable (flow_edge cfg) entry v}"
    using buildPostOrder_correct [OF wf, of entry] by blast
  obtain M where M: "\<And>m D. M \<le> m \<Longrightarrow> ssa.sweep_inv (cfg, entry) m {} D \<Longrightarrow> ssa.exact_tree (cfg, entry) D"
    using ssa.enough_sweeps [of "(cfg, entry)"] wf by auto
  have "ssa.sweep_inv (cfg, entry) 0 {} [entry \<mapsto> entry]" using ssa.sweep_start [of "(cfg, entry)"] by simp
  from sweep_loop_exact [OF wf o(1) zero M this] show ?thesis
    using o by (auto simp: buildImmDomTree_def)
qed

lemma exact_tree_idom:
  assumes x: "ssa.exact_tree (cfg, entry) D"
  shows "D entry = Some entry" "D b \<noteq> None \<longleftrightarrow> reachable (flow_edge cfg) entry b"
    "b \<noteq> entry \<Longrightarrow> D b = Some d \<longleftrightarrow> is_idom (flow_edge cfg) entry d b"
proof -
  have t: "ssa.tree_ok (cfg, entry) D" using x by (simp add: ssa.exact_tree_def)
  show "D entry = Some entry" using ssa.tree_okD(1) [OF t] by simp
  show def: "D b \<noteq> None \<longleftrightarrow> reachable (flow_edge cfg) entry b" for b
    using x ssa.tree_okD(2) [OF t, of b] by (auto simp: ssa.exact_tree_def)
  show "D b = Some d \<longleftrightarrow> is_idom (flow_edge cfg) entry d b" if b: "b \<noteq> entry"
  proof
    assume "D b = Some d"
    then show "is_idom (flow_edge cfg) entry d b" using ssa.exact_idom [OF x, of b d] b by simp
  next
    assume i: "is_idom (flow_edge cfg) entry d b"
    then have "reachable (flow_edge cfg) entry b" by (auto simp: is_idom_def dominates_def)
    then obtain e where e: "D b = Some e" using def by blast
    then have "is_idom (flow_edge cfg) entry e b" using ssa.exact_idom [OF x, of b e] b by simp
    then have "d = e" using i dominates_antisym unfolding is_idom_def by metis
    then show "D b = Some d" using e by simp
  qed
qed

section \<open>Properties of the dominator tree\<close>

text \<open>\<open>buildPostOrderIndexList\<close> returns, and lists exactly the blocks that can be reached from
  the entry, each once, every block but the entry before one of its predecessors.\<close>

theorem post_order_exact:
  assumes "cfr_wf cfg"
  shows "\<exists>order. buildPostOrder cfg entry = Some order \<and> distinct order \<and>
    set order = {v. reachable (flow_edge cfg) entry v} \<and>
    (\<forall>xs v ys. order = xs @ v # ys \<longrightarrow> v = entry \<or> (\<exists>u \<in> set ys. flow_edge cfg u v))"
  by (rule buildPostOrder_correct [OF assms])

text \<open>C11: \<open>buildImmDomTree\<close> terminates on every flow graph of valid block ids, reducible or not, and
  computes the dominator tree: the entry is its own parent, exactly the reachable blocks have a
  parent, and the parent of every other block is its immediate dominator.\<close>

theorem imm_dom_tree_exact:
  assumes "cfr_wf cfg" "\<not> reachable (flow_edge cfg) entry MIRID_INVALID"
  shows "\<exists>order D. buildPostOrder cfg entry = Some order \<and> buildImmDomTree cfg entry order = Some D \<and>
    D entry = Some entry \<and> (\<forall>b. D b \<noteq> None \<longleftrightarrow> reachable (flow_edge cfg) entry b) \<and>
    (\<forall>b d. b \<noteq> entry \<longrightarrow> (D b = Some d \<longleftrightarrow> is_idom (flow_edge cfg) entry d b))"
proof -
  obtain order D where o: "buildPostOrder cfg entry = Some order" "buildImmDomTree cfg entry order = Some D"
    "ssa.exact_tree (cfg, entry) D"
    using idom_tree_exact [OF assms] by blast
  from exact_tree_idom [OF o(3)] o(1,2) show ?thesis by blast
qed

section \<open>An example\<close>

text \<open>The flow graph of a conditional: 2 branches to 3 and 4, which join in 5.\<close>

definition diamond_cfg :: code_flow_result where
  "diamond_cfg = cfr_addEdge (cfr_addEdge (cfr_addEdge (cfr_addEdge cfr_empty 2 3) 2 4) 3 5) 4 5"

lemma diamond_wf: "cfr_wf diamond_cfg"
  unfolding diamond_cfg_def by (intro cfr_wf_addEdge cfr_wf_empty)

lemma diamond_edge: "flow_edge diamond_cfg u v \<longleftrightarrow> (u, v) \<in> {(2, 3), (2, 4), (3, 5), (4, 5)}"
proof -
  have "getSuccessors cfr_empty u = []" by (simp add: getSuccessors_def cfr_empty_def)
  then have "set (getSuccessors diamond_cfg u) = (if u = 2 then {3, 4} else if u = 3 \<or> u = 4 then {5} else {})"
    by (simp add: diamond_cfg_def cfr.succs_add cfr_wf_addEdge cfr_wf_empty insert_commute)
  then show ?thesis by (auto simp: flow_edge_def)
qed

lemma diamond_walks:
  assumes "walk (flow_edge diamond_cfg) 2 xs v"
  shows "(v, xs) \<in> {(2, [2]), (3, [3, 2]), (4, [4, 2]), (5, [5, 3, 2]), (5, [5, 4, 2])}"
  using assms
proof (induction rule: walk.induct)
  case (step xs u v)
  from step.IH step.hyps(2) show ?case
    by (simp only: diamond_edge insert_iff empty_iff prod.inject) (elim disjE conjE FalseE; hypsubst; simp)
qed simp

lemma diamond_walk: "walk (flow_edge diamond_cfg) 2 xs v \<longleftrightarrow>
    (v, xs) \<in> {(2, [2]), (3, [3, 2]), (4, [4, 2]), (5, [5, 3, 2]), (5, [5, 4, 2])}"
proof
  have w: "walk (flow_edge diamond_cfg) 2 [2] 2" by (rule walk.start)
  then have "walk (flow_edge diamond_cfg) 2 [3, 2] 3" "walk (flow_edge diamond_cfg) 2 [4, 2] 4"
    using walk.step [OF w] by (simp_all add: diamond_edge)
  moreover have "walk (flow_edge diamond_cfg) 2 [5, 3, 2] 5" "walk (flow_edge diamond_cfg) 2 [5, 4, 2] 5"
    using walk.step [OF calculation(1), of 5] walk.step [OF calculation(2), of 5] by (simp_all add: diamond_edge)
  moreover assume "(v, xs) \<in> {(2, [2]), (3, [3, 2]), (4, [4, 2]), (5, [5, 3, 2]), (5, [5, 4, 2])}"
  ultimately show "walk (flow_edge diamond_cfg) 2 xs v" using w by (elim insertE emptyE) simp_all
qed (rule diamond_walks)

lemma diamond_reachable: "reachable (flow_edge diamond_cfg) 2 v \<longleftrightarrow> v \<in> {2, 3, 4, 5}"
  by (auto simp: reachable_def diamond_walk)

lemma diamond_dominates: "dominates (flow_edge diamond_cfg) 2 a 3 \<longleftrightarrow> a = 2 \<or> a = 3"
  "dominates (flow_edge diamond_cfg) 2 a 4 \<longleftrightarrow> a = 2 \<or> a = 4"
  "dominates (flow_edge diamond_cfg) 2 a 5 \<longleftrightarrow> a = 2 \<or> a = 5" "dominates (flow_edge diamond_cfg) 2 a 2 \<longleftrightarrow> a = 2"
  by (auto simp: dominates_def diamond_reachable diamond_walk all_conj_distrib)

lemma diamond_idom: "is_idom (flow_edge diamond_cfg) 2 2 5"
  by (auto simp: is_idom_def diamond_dominates)

theorem post_order_exact_witness:
  "cfr_wf diamond_cfg \<and> (\<exists>order. buildPostOrder diamond_cfg 2 = Some order \<and> distinct order \<and> set order = {2, 3, 4, 5})"
proof -
  obtain order where "buildPostOrder diamond_cfg 2 = Some order" "distinct order"
    "set order = {v. reachable (flow_edge diamond_cfg) 2 v}"
    using post_order_exact [OF diamond_wf, of 2] by (elim exE conjE) (rule that)
  then show ?thesis by (auto simp: diamond_wf diamond_reachable)
qed

theorem imm_dom_tree_exact_witness:
  "\<exists>order D. buildPostOrder diamond_cfg 2 = Some order \<and> buildImmDomTree diamond_cfg 2 order = Some D \<and> D 5 = Some 2 \<and> D 6 = None"
proof -
  have zero: "\<not> reachable (flow_edge diamond_cfg) 2 MIRID_INVALID" by (simp add: diamond_reachable MIRID_INVALID_def)
  obtain order D where o: "buildPostOrder diamond_cfg 2 = Some order" "buildImmDomTree diamond_cfg 2 order = Some D"
    and def: "\<And>b. D b \<noteq> None \<longleftrightarrow> reachable (flow_edge diamond_cfg) 2 b"
    and idom: "\<forall>b d. b \<noteq> 2 \<longrightarrow> (D b = Some d \<longleftrightarrow> is_idom (flow_edge diamond_cfg) 2 d b)"
    using imm_dom_tree_exact [OF diamond_wf zero] by (elim exE conjE) (rule that, assumption+, erule spec, assumption)
  have "D 5 = Some 2" using idom diamond_idom by simp
  moreover have "D 6 = None" using def [of 6] by (simp add: diamond_reachable)
  ultimately show ?thesis using o by blast
qed

end
