(* ===== verification/SsaPhi.thy ===== *)
theory SsaPhi
  imports SsaDominators
begin

text \<open>
  The placement of phi instructions by \<open>NonSsaToSsaPass\<close>
  (EzMir/src/MirPasses/Passes/NonSsaToSsaPass.cpp): \<open>buildVirtualRegDefPlaces\<close>,
  \<open>buildDominanceFrontier\<close> and \<open>insertPhiNodes\<close>. The frontiers are proved exact, the worklist is
  proved to compute the iterated frontier of the definitions, and the placement is shown to be
  sufficient: where two definitions can meet, there is a phi.
\<close>

section \<open>Definition sites\<close>

text \<open>The blocks that define a virtual register; parameters are defined in the entry.\<close>

definition buildVirtualRegDefPlaces :: "mir_id option \<Rightarrow> reg_ref list \<Rightarrow> mir_block list \<Rightarrow> mir_id \<Rightarrow> mir_id set" where
  "buildVirtualRegDefPlaces entry params blocks reg =
     (case entry of None \<Rightarrow> {} | Some e \<Rightarrow> if VReg reg \<in> set params then {e} else {}) \<union>
     mb_id ` {b \<in> set blocks. \<exists>i \<in> set (mb_insts b). VReg reg \<in> set (getDefinedRegisters i)}"

section \<open>Dominance frontiers\<close>

text \<open>The walk of one predecessor towards the immediate dominator of the join block.\<close>

partial_function (option) frontier_runner ::
  "(mir_id \<rightharpoonup> mir_id) \<Rightarrow> mir_id \<Rightarrow> mir_id \<Rightarrow> mir_id \<Rightarrow> (mir_id \<Rightarrow> mir_id set) \<Rightarrow> (mir_id \<Rightarrow> mir_id set) option" where
  "frontier_runner idom b bIdom runner DF =
     (if runner = bIdom then Some DF
      else case idom runner of
        None \<Rightarrow> Some DF
      | Some next_runner \<Rightarrow>
          let DF' = DF(runner := insert b (DF runner)) in
          if next_runner = runner then Some DF' else frontier_runner idom b bIdom next_runner DF')"

fun frontier_preds ::
  "(mir_id \<rightharpoonup> mir_id) \<Rightarrow> mir_id \<Rightarrow> mir_id \<Rightarrow> mir_id list \<Rightarrow> (mir_id \<Rightarrow> mir_id set) \<Rightarrow> (mir_id \<Rightarrow> mir_id set) option" where
  "frontier_preds idom b bIdom [] DF = Some DF"
| "frontier_preds idom b bIdom (p # ps) DF =
     Option.bind (frontier_runner idom b bIdom p DF) (frontier_preds idom b bIdom ps)"

fun frontier_blocks ::
  "(mir_id \<Rightarrow> mir_id list) \<Rightarrow> (mir_id \<rightharpoonup> mir_id) \<Rightarrow> mir_id list \<Rightarrow> (mir_id \<Rightarrow> mir_id set) \<Rightarrow> (mir_id \<Rightarrow> mir_id set) option" where
  "frontier_blocks preds idom [] DF = Some DF"
| "frontier_blocks preds idom (b # bs) DF =
     (case idom b of
        None \<Rightarrow> frontier_blocks preds idom bs DF
      | Some bIdom \<Rightarrow>
          if length (preds b) < 2 then frontier_blocks preds idom bs DF
          else Option.bind (frontier_preds idom b bIdom (preds b) DF) (frontier_blocks preds idom bs))"

definition buildDominanceFrontier ::
  "code_flow_result \<Rightarrow> (mir_id \<rightharpoonup> mir_id) \<Rightarrow> mir_block list \<Rightarrow> (mir_id \<Rightarrow> mir_id set) option" where
  "buildDominanceFrontier cfg idom blocks = frontier_blocks (getPredecessors cfg) idom (map mb_id blocks) (\<lambda>_. {})"

section \<open>Phi placement\<close>

text \<open>The worklist of one register (its back at the head of the list) with the blocks on it and
  the blocks that have a phi; the last component lists the insertions.\<close>

record phi_state =
  ph_worklist :: "mir_id list"
  ph_inWorklist :: "mir_id set"
  ph_hasPhi :: "mir_id set"
  ph_inserted :: "mir_id list"

definition phi_visit :: "(mir_id \<Rightarrow> bool) \<Rightarrow> mir_id set \<Rightarrow> mir_id \<Rightarrow> phi_state \<Rightarrow> phi_state" where
  "phi_visit is_block definingBlocks d s =
     (if d \<in> ph_hasPhi s then s
      else
        let s1 = s\<lparr>ph_hasPhi := insert d (ph_hasPhi s)\<rparr> in
        if \<not> is_block d then s1
        else
          let s2 = s1\<lparr>ph_inserted := ph_inserted s1 @ [d]\<rparr> in
          if d \<notin> definingBlocks \<and> d \<notin> ph_inWorklist s2
          then s2\<lparr>ph_worklist := d # ph_worklist s2, ph_inWorklist := insert d (ph_inWorklist s2)\<rparr>
          else s2)"

partial_function (option) phi_loop ::
  "(mir_id \<Rightarrow> bool) \<Rightarrow> (mir_id \<Rightarrow> mir_id set) \<Rightarrow> mir_id set \<Rightarrow> phi_state \<Rightarrow> phi_state option" where
  "phi_loop is_block DF definingBlocks s =
     (case ph_worklist s of
        [] \<Rightarrow> Some s
      | cur # rest \<Rightarrow>
          phi_loop is_block DF definingBlocks
            (fold (phi_visit is_block definingBlocks) (sorted_list_of_set (DF cur))
               (s\<lparr>ph_worklist := rest, ph_inWorklist := ph_inWorklist s - {cur}\<rparr>)))"

definition phi_blocks :: "(mir_id \<Rightarrow> bool) \<Rightarrow> (mir_id \<Rightarrow> mir_id set) \<Rightarrow> mir_id set \<Rightarrow> mir_id list option" where
  "phi_blocks is_block DF definingBlocks =
     map_option ph_inserted
       (phi_loop is_block DF definingBlocks
          \<lparr>ph_worklist = rev (sorted_list_of_set definingBlocks), ph_inWorklist = definingBlocks, ph_hasPhi = {},
           ph_inserted = []\<rparr>)"

text \<open>All insertions: registers in increasing order, each with its blocks and operand counts.\<close>

fun insert_phis ::
  "code_flow_result \<Rightarrow> (mir_id \<Rightarrow> bool) \<Rightarrow> (mir_id \<Rightarrow> mir_id set) \<Rightarrow> (mir_id \<Rightarrow> mir_id set) \<Rightarrow> mir_id list \<Rightarrow>
   (mir_id \<times> mir_id \<times> nat) list option" where
  "insert_phis cfg is_block DF defSites [] = Some []"
| "insert_phis cfg is_block DF defSites (reg # regs) =
     Option.bind (phi_blocks is_block DF (defSites reg))
       (\<lambda>bs. map_option (\<lambda>rest. map (\<lambda>b. (reg, b, length (getPredecessors cfg b))) bs @ rest)
               (insert_phis cfg is_block DF defSites regs))"

section \<open>The frontiers are exact\<close>

lemma frontier_runner_correct:
  assumes wf: "cfr_wf cfg" and t: "ssa.tree_ok (cfg, entry) D"
  shows "on_chain D runner bIdom \<Longrightarrow> \<exists>DF'. frontier_runner D b bIdom runner DF = Some DF' \<and>
    (\<forall>x. DF' x = DF x \<union> (if on_chain D runner x \<and> \<not> on_chain D bIdom x then {b} else {}))"
proof -
  let ?num = "post_number (cfg, entry)"
  obtain N where N: "\<forall>v. ssa.reach (cfg, entry) v \<longrightarrow> ?num v < N"
    by (rule ssa.num_bound [of "(cfg, entry)"]) (use wf in simp)
  show "on_chain D runner bIdom \<Longrightarrow> \<exists>DF'. frontier_runner D b bIdom runner DF = Some DF' \<and>
    (\<forall>x. DF' x = DF x \<union> (if on_chain D runner x \<and> \<not> on_chain D bIdom x then {b} else {}))"
  proof (induction "N - ?num runner" arbitrary: runner DF rule: less_induct)
    case less
    show ?case
    proof (cases "runner = bIdom")
      case True
      then show ?thesis by (subst frontier_runner.simps) simp
    next
      case False
      obtain d where d: "D runner = Some d" using on_chain_defined [OF less.prems] by blast
      have up: "d \<noteq> runner" "on_chain D d bIdom"
        using less.prems False on_chain_iff [of D runner d bIdom] d by auto
      have chain: "on_chain D runner x \<longleftrightarrow> x = runner \<or> on_chain D d x" for x
        using on_chain_iff [of D runner d x] d up(1) by blast
      have ne: "runner \<noteq> entry" using d up(1) ssa.tree_okD(1) [OF t] by auto
      have lt: "?num runner < ?num d" using ssa.tree_okD(4) [OF t, of runner d] d ne by simp
      obtain e where "D d = Some e" using ssa.tree_okD(3) [OF t d] by blast
      then have "?num d < N" using N ssa.tree_okD(2) [OF t, of d e] by blast
      then have "N - ?num d < N - ?num runner" using lt by linarith
      from less.hyps [OF this up(2), of "DF(runner := insert b (DF runner))"] obtain DF' where
        DF': "frontier_runner D b bIdom d (DF(runner := insert b (DF runner))) = Some DF'"
        "\<forall>x. DF' x = (DF(runner := insert b (DF runner))) x \<union> (if on_chain D d x \<and> \<not> on_chain D bIdom x then {b} else {})" by blast
      have run: "frontier_runner D b bIdom runner DF = Some DF'"
        using DF'(1) False d up(1) by (subst frontier_runner.simps) simp
      have nb: "\<not> on_chain D bIdom runner"
        using ssa.chain_num [OF t, of bIdom runner] ssa.chain_num [OF t, of runner bIdom] less.prems False by auto
      have "DF' x = DF x \<union> (if on_chain D runner x \<and> \<not> on_chain D bIdom x then {b} else {})" for x
        using DF'(2) nb chain [of x] by (cases "x = runner") auto
      then show ?thesis using run by blast
    qed
  qed
qed

lemma frontier_preds_correct:
  assumes wf: "cfr_wf cfg" and t: "ssa.tree_ok (cfg, entry) D"
  shows "(\<forall>p \<in> set ps. D p \<noteq> None \<longrightarrow> on_chain D p bIdom) \<Longrightarrow> \<exists>DF'. frontier_preds D b bIdom ps DF = Some DF' \<and>
    (\<forall>x. DF' x = DF x \<union> (if \<exists>p \<in> set ps. on_chain D p x \<and> \<not> on_chain D bIdom x then {b} else {}))"
proof (induction ps arbitrary: DF)
  case (Cons p ps)
  obtain DF1 where DF1: "frontier_runner D b bIdom p DF = Some DF1"
    "\<forall>x. DF1 x = DF x \<union> (if on_chain D p x \<and> \<not> on_chain D bIdom x then {b} else {})"
  proof (cases "D p = None")
    case True
    have "frontier_runner D b bIdom p DF = Some DF" by (subst frontier_runner.simps) (simp add: True)
    moreover have "\<not> on_chain D p x" for x using on_chain_defined [of D p x] True by blast
    ultimately show ?thesis using that by simp
  next
    case False
    then show ?thesis using that frontier_runner_correct [OF wf t, of p bIdom b DF] Cons.prems by auto
  qed
  obtain DF2 where DF2: "frontier_preds D b bIdom ps DF1 = Some DF2"
    "\<forall>x. DF2 x = DF1 x \<union> (if \<exists>p \<in> set ps. on_chain D p x \<and> \<not> on_chain D bIdom x then {b} else {})"
    using Cons.IH [of DF1] Cons.prems by auto
  have "\<forall>x. DF2 x = DF x \<union> (if \<exists>p \<in> set (p # ps). on_chain D p x \<and> \<not> on_chain D bIdom x then {b} else {})"
    using DF1(2) DF2(2) by auto
  then show ?case using DF1(1) DF2(1) by auto
qed simp

text \<open>What one block adds to the frontiers.\<close>

definition adds_frontier :: "code_flow_result \<Rightarrow> mir_id \<Rightarrow> (mir_id \<rightharpoonup> mir_id) \<Rightarrow> mir_id \<Rightarrow> mir_id \<Rightarrow> bool" where
  "adds_frontier cfg entry D b x \<longleftrightarrow>
     (\<exists>bIdom. D b = Some bIdom \<and> 2 \<le> length (getPredecessors cfg b) \<and>
        (\<exists>p \<in> set (getPredecessors cfg b). on_chain D p x \<and> \<not> on_chain D bIdom x))"

lemma idom_on_chain:
  assumes wf: "cfr_wf cfg" and x: "ssa.exact_tree (cfg, entry) D"
    and b: "D b = Some bIdom" and p: "p \<in> set (getPredecessors cfg b)" "D p \<noteq> None"
  shows "on_chain D p bIdom"
proof -
  have t: "ssa.tree_ok (cfg, entry) D" using x by (simp add: ssa.exact_tree_def)
  have rp: "reachable (flow_edge cfg) entry p" using p(2) exact_tree_idom(2) [OF x] by blast
  have e: "flow_edge cfg p b" using cfr_wfD(4) [OF wf, of b p] p(1) by (simp add: flow_edge_def)
  have "dominates (flow_edge cfg) entry bIdom p"
  proof (cases "b = entry")
    case True
    then show ?thesis using b exact_tree_idom(1) [OF x] dominates_root [OF rp] by simp
  next
    case False
    then have "is_idom (flow_edge cfg) entry bIdom b" using b exact_tree_idom(3) [OF x] by blast
    then show ?thesis using dominates_pred [OF _ e rp] by (auto simp: is_idom_def)
  qed
  then show ?thesis using x rp by (simp add: ssa.exact_tree_def)
qed

lemma frontier_blocks_correct:
  assumes wf: "cfr_wf cfg" and x: "ssa.exact_tree (cfg, entry) D"
  shows "\<exists>DF'. frontier_blocks (getPredecessors cfg) D bs DF = Some DF' \<and>
    (\<forall>x. DF' x = DF x \<union> {b \<in> set bs. adds_frontier cfg entry D b x})"
proof (induction bs arbitrary: DF)
  case (Cons b bs)
  have t: "ssa.tree_ok (cfg, entry) D" using x by (simp add: ssa.exact_tree_def)
  show ?case
  proof (cases "D b")
    case None
    then have "\<not> adds_frontier cfg entry D b x" for x by (simp add: adds_frontier_def)
    then show ?thesis using Cons.IH [of DF] None by (auto cong: conj_cong)
  next
    case (Some bIdom)
    show ?thesis
    proof (cases "length (getPredecessors cfg b) < 2")
      case True
      then have "\<not> adds_frontier cfg entry D b x" for x by (simp add: adds_frontier_def)
      then show ?thesis using Cons.IH [of DF] Some True by (auto cong: conj_cong)
    next
      case False
      obtain DF1 where DF1: "frontier_preds D b bIdom (getPredecessors cfg b) DF = Some DF1"
        "\<forall>x. DF1 x = DF x \<union> (if \<exists>p \<in> set (getPredecessors cfg b). on_chain D p x \<and> \<not> on_chain D bIdom x then {b} else {})"
        using frontier_preds_correct [OF wf t, of "getPredecessors cfg b" bIdom b DF] idom_on_chain [OF wf x Some] by blast
      obtain DF2 where DF2: "frontier_blocks (getPredecessors cfg) D bs DF1 = Some DF2"
        "\<forall>x. DF2 x = DF1 x \<union> {b \<in> set bs. adds_frontier cfg entry D b x}"
        using Cons.IH by blast
      have "adds_frontier cfg entry D b x \<longleftrightarrow> (\<exists>p \<in> set (getPredecessors cfg b). on_chain D p x \<and> \<not> on_chain D bIdom x)" for x
        using Some False by (simp add: adds_frontier_def)
      then have "DF2 x = DF x \<union> {c \<in> set (b # bs). adds_frontier cfg entry D c x}" for x
        using DF1(2) DF2(2) by auto
      moreover have "frontier_blocks (getPredecessors cfg) D (b # bs) DF = Some DF2" using Some False DF1(1) DF2(1) by simp
      ultimately show ?thesis by blast
    qed
  qed
qed simp

text \<open>For every block but the entry this is the dominance frontier.\<close>

lemma adds_frontier_iff:
  assumes wf: "cfr_wf cfg" and x: "ssa.exact_tree (cfg, entry) D" and b: "b \<noteq> entry"
  shows "adds_frontier cfg entry D b y \<longleftrightarrow> dominance_frontier (flow_edge cfg) entry y b"
proof -
  have pred: "p \<in> set (getPredecessors cfg b) \<longleftrightarrow> flow_edge cfg p b" for p
    using cfr_wfD(4) [OF wf, of b p] by (simp add: flow_edge_def)
  have chain: "on_chain D p y \<longleftrightarrow> dominates (flow_edge cfg) entry y p" if "reachable (flow_edge cfg) entry p" for p y
    using x that by (simp add: ssa.exact_tree_def)
  have none: "\<not> on_chain D p y" if "\<not> reachable (flow_edge cfg) entry p" for p y
    using on_chain_defined [of D p y] exact_tree_idom(2) [OF x, of p] that by blast
  have sd: "on_chain D d y \<longleftrightarrow> sdom (flow_edge cfg) entry y b" if d: "D b = Some d" for d y
  proof -
    have i: "is_idom (flow_edge cfg) entry d b" using exact_tree_idom(3) [OF x b] d by blast
    then have r: "reachable (flow_edge cfg) entry d" using dominates_reachable unfolding is_idom_def by metis
    have "dominates (flow_edge cfg) entry y d \<longleftrightarrow> sdom (flow_edge cfg) entry y b"
      using i dominates_trans dominates_antisym unfolding is_idom_def by metis
    then show ?thesis using chain [OF r] by simp
  qed
  show ?thesis
  proof
    assume "adds_frontier cfg entry D b y"
    then obtain d p where d: "D b = Some d" and p: "flow_edge cfg p b" "on_chain D p y" "\<not> on_chain D d y"
      using pred by (auto simp: adds_frontier_def)
    have "dominates (flow_edge cfg) entry y p" using p(2) chain none by blast
    then show "dominance_frontier (flow_edge cfg) entry y b"
      using p sd [OF d] unfolding dominance_frontier_def by blast
  next
    assume f: "dominance_frontier (flow_edge cfg) entry y b"
    then obtain p where p: "flow_edge cfg p b" "dominates (flow_edge cfg) entry y p"
      and ns: "\<not> sdom (flow_edge cfg) entry y b" unfolding dominance_frontier_def by blast
    have rp: "reachable (flow_edge cfg) entry p" using dominates_reachable [OF p(2)] by blast
    have rb: "reachable (flow_edge cfg) entry b" by (rule reachable_step [OF rp p(1)])
    then obtain d where d: "D b = Some d" using exact_tree_idom(2) [OF x, of b] by blast
    have "2 \<le> length (getPredecessors cfg b)"
    proof (rule ccontr)
      assume "\<not> 2 \<le> length (getPredecessors cfg b)"
      then have "length (getPredecessors cfg b) = 0 \<or> length (getPredecessors cfg b) = Suc 0" by linarith
      then have "getPredecessors cfg b = [] \<or> (\<exists>z. getPredecessors cfg b = [z])" by (auto simp: length_Suc_conv)
      moreover have "p \<in> set (getPredecessors cfg b)" using pred p(1) by blast
      ultimately have only: "set (getPredecessors cfg b) = {p}" by auto
      have "\<And>q. flow_edge cfg q b \<Longrightarrow> q = p" using pred unfolding only by blast
      then have "sdom (flow_edge cfg) entry y b"
        using dominates_preds_iff [OF rb b, of y] p(2) by blast
      then show False using ns by blast
    qed
    then show "adds_frontier cfg entry D b y"
      using d p pred chain [OF rp] sd [OF d] ns unfolding adds_frontier_def by blast
  qed
qed

lemma frontier_exact:
  assumes wf: "cfr_wf cfg" and x: "ssa.exact_tree (cfg, entry) D"
  shows "\<exists>DF. buildDominanceFrontier cfg D blocks = Some DF \<and>
    (\<forall>x. DF x = {b \<in> mb_id ` set blocks. adds_frontier cfg entry D b x}) \<and>
    (\<forall>x b. b \<noteq> entry \<longrightarrow> (b \<in> DF x \<longleftrightarrow> b \<in> mb_id ` set blocks \<and> dominance_frontier (flow_edge cfg) entry x b))"
proof -
  obtain DF where DF: "frontier_blocks (getPredecessors cfg) D (map mb_id blocks) (\<lambda>_. {}) = Some DF"
    "\<forall>x. DF x = {} \<union> {b \<in> set (map mb_id blocks). adds_frontier cfg entry D b x}"
    using frontier_blocks_correct [OF wf x, of "map mb_id blocks" "\<lambda>_. {}"] by blast
  then show ?thesis
    using adds_frontier_iff [OF wf x] by (intro exI [of _ DF]) (auto simp: buildDominanceFrontier_def)
qed

section \<open>The worklist computes the iterated frontier\<close>

inductive iterated_frontier :: "(mir_id \<Rightarrow> mir_id set) \<Rightarrow> mir_id set \<Rightarrow> mir_id \<Rightarrow> bool" for DF defs where
  base: "x \<in> defs \<Longrightarrow> d \<in> DF x \<Longrightarrow> iterated_frontier DF defs d"
| step: "iterated_frontier DF defs x \<Longrightarrow> d \<in> DF x \<Longrightarrow> iterated_frontier DF defs d"

definition phi_inv :: "(mir_id \<Rightarrow> mir_id set) \<Rightarrow> mir_id set \<Rightarrow> mir_id set \<Rightarrow> phi_state \<Rightarrow> bool" where
  "phi_inv DF defs B s \<longleftrightarrow>
     ph_inWorklist s \<subseteq> set (ph_worklist s) \<and> set (ph_worklist s) \<subseteq> defs \<union> ph_hasPhi s \<and>
     ph_hasPhi s \<subseteq> B \<inter> {d. iterated_frontier DF defs d} \<and>
     set (ph_inserted s) = ph_hasPhi s \<and> distinct (ph_inserted s)"

text \<open>All known definitions but those in \<open>C\<close> are on the worklist or have been processed.\<close>

definition phi_pending :: "(mir_id \<Rightarrow> mir_id set) \<Rightarrow> mir_id set \<Rightarrow> mir_id set \<Rightarrow> phi_state \<Rightarrow> bool" where
  "phi_pending DF defs C s \<longleftrightarrow> (\<forall>x \<in> defs \<union> ph_hasPhi s - C. x \<in> set (ph_worklist s) \<or> DF x \<subseteq> ph_hasPhi s)"

lemma phi_visit_correct:
  assumes inv: "phi_inv DF defs B s" and pend: "phi_pending DF defs C s"
    and d: "d \<in> B" "iterated_frontier DF defs d" and fin: "finite B" "\<forall>b \<in> B. is_block b"
  shows "phi_inv DF defs B (phi_visit is_block defs d s) \<and> phi_pending DF defs C (phi_visit is_block defs d s) \<and>
    ph_hasPhi (phi_visit is_block defs d s) = insert d (ph_hasPhi s) \<and>
    2 * card (B - ph_hasPhi (phi_visit is_block defs d s)) + length (ph_worklist (phi_visit is_block defs d s)) \<le>
      2 * card (B - ph_hasPhi s) + length (ph_worklist s)"
proof (cases "d \<in> ph_hasPhi s")
  case True
  then show ?thesis using inv pend by (auto simp: phi_visit_def)
next
  case False
  have B: "is_block d" using d(1) fin(2) by blast
  have h: "card (B - insert d (ph_hasPhi s)) < card (B - ph_hasPhi s)"
    using d(1) False fin(1) by (intro psubset_card_mono) auto
  let ?s = "phi_visit is_block defs d s"
  have e: "ph_hasPhi ?s = insert d (ph_hasPhi s)" "ph_inserted ?s = ph_inserted s @ [d]"
    "ph_worklist ?s = (if d \<notin> defs \<and> d \<notin> ph_inWorklist s then d # ph_worklist s else ph_worklist s)"
    "ph_inWorklist ?s = (if d \<notin> defs \<and> d \<notin> ph_inWorklist s then insert d (ph_inWorklist s) else ph_inWorklist s)"
    using False B by (simp_all add: phi_visit_def Let_def)
  have "phi_inv DF defs B ?s"
    using inv d False unfolding phi_inv_def e by auto
  moreover have "phi_pending DF defs C ?s"
    using pend inv unfolding phi_pending_def phi_inv_def e by auto
  moreover have "length (ph_worklist ?s) \<le> Suc (length (ph_worklist s))" by (simp add: e)
  then have "2 * card (B - ph_hasPhi ?s) + length (ph_worklist ?s) \<le> 2 * card (B - ph_hasPhi s) + length (ph_worklist s)"
    using h unfolding e(1) by linarith
  ultimately show ?thesis using e(1) by blast
qed

lemma phi_visits_correct:
  assumes fin: "finite B" "\<forall>b \<in> B. is_block b"
  shows "phi_inv DF defs B s \<Longrightarrow> phi_pending DF defs C s \<Longrightarrow> (\<forall>d \<in> set ds. d \<in> B \<and> iterated_frontier DF defs d) \<Longrightarrow>
    phi_inv DF defs B (fold (phi_visit is_block defs) ds s) \<and> phi_pending DF defs C (fold (phi_visit is_block defs) ds s) \<and>
    ph_hasPhi (fold (phi_visit is_block defs) ds s) = set ds \<union> ph_hasPhi s \<and>
    2 * card (B - ph_hasPhi (fold (phi_visit is_block defs) ds s)) + length (ph_worklist (fold (phi_visit is_block defs) ds s)) \<le>
      2 * card (B - ph_hasPhi s) + length (ph_worklist s)"
proof (induction ds arbitrary: s)
  case (Cons d ds)
  have d: "d \<in> B" "iterated_frontier DF defs d" using Cons.prems(3) by simp_all
  note v = phi_visit_correct [OF Cons.prems(1,2) d fin]
  show ?case using Cons.IH [of "phi_visit is_block defs d s"] v Cons.prems(3) by auto
qed simp

lemma phi_loop_correct:
  assumes fin: "finite B" "\<forall>b \<in> B. is_block b" "\<And>x. DF x \<subseteq> B"
  shows "phi_inv DF defs B s \<Longrightarrow> phi_pending DF defs {} s \<Longrightarrow>
    \<exists>s'. phi_loop is_block DF defs s = Some s' \<and> phi_inv DF defs B s' \<and> phi_pending DF defs {} s' \<and> ph_worklist s' = []"
proof (induction "2 * card (B - ph_hasPhi s) + length (ph_worklist s)" arbitrary: s rule: less_induct)
  case less
  show ?case
  proof (cases "ph_worklist s")
    case Nil
    then show ?thesis using less.prems by (subst phi_loop.simps) simp
  next
    case (Cons cur rest)
    let ?s = "s\<lparr>ph_worklist := rest, ph_inWorklist := ph_inWorklist s - {cur}\<rparr>"
    let ?s' = "fold (phi_visit is_block defs) (sorted_list_of_set (DF cur)) ?s"
    have fc: "finite (DF cur)" using fin(1,3) finite_subset by blast
    have inv: "phi_inv DF defs B ?s" using less.prems(1) Cons by (auto simp: phi_inv_def)
    have pend: "phi_pending DF defs {cur} ?s" using less.prems(2) Cons by (auto simp: phi_pending_def)
    have "cur \<in> defs \<or> iterated_frontier DF defs cur" using less.prems(1) Cons by (auto simp: phi_inv_def)
    then have ds: "\<forall>d \<in> set (sorted_list_of_set (DF cur)). d \<in> B \<and> iterated_frontier DF defs d"
      using fin(3) fc iterated_frontier.intros by auto
    note v = phi_visits_correct [OF fin(1,2) inv pend ds]
    have has: "ph_hasPhi ?s' = DF cur \<union> ph_hasPhi s" using v fc by simp
    have "phi_pending DF defs {} ?s'"
      using v has unfolding phi_pending_def by auto
    moreover have "2 * card (B - ph_hasPhi ?s') + length (ph_worklist ?s') < 2 * card (B - ph_hasPhi s) + length (ph_worklist s)"
    proof -
      have "2 * card (B - ph_hasPhi ?s') + length (ph_worklist ?s') \<le> 2 * card (B - ph_hasPhi ?s) + length (ph_worklist ?s)"
        using v by blast
      then show ?thesis by (simp add: Cons)
    qed
    ultimately obtain s' where "phi_loop is_block DF defs ?s' = Some s'" "phi_inv DF defs B s'" "phi_pending DF defs {} s'"
      "ph_worklist s' = []"
      using less.hyps [of ?s'] v by blast
    then show ?thesis using Cons by (subst phi_loop.simps) simp
  qed
qed

lemma phi_blocks_exact:
  assumes fin: "finite B" "\<forall>b \<in> B. is_block b" "\<And>x. DF x \<subseteq> B" "finite defs"
  shows "\<exists>bs. phi_blocks is_block DF defs = Some bs \<and> distinct bs \<and> set bs = {d. iterated_frontier DF defs d}"
proof -
  let ?s = "\<lparr>ph_worklist = rev (sorted_list_of_set defs), ph_inWorklist = defs, ph_hasPhi = {}, ph_inserted = []\<rparr>"
  have "phi_inv DF defs B ?s" "phi_pending DF defs {} ?s" using fin(4) by (simp_all add: phi_inv_def phi_pending_def)
  then obtain s' where s: "phi_loop is_block DF defs ?s = Some s'" "phi_inv DF defs B s'" "phi_pending DF defs {} s'"
    "ph_worklist s' = []"
    using phi_loop_correct [where DF = DF and is_block = is_block, OF fin(1-3), of defs ?s] by blast
  have closed: "\<And>x. x \<in> defs \<union> ph_hasPhi s' \<Longrightarrow> DF x \<subseteq> ph_hasPhi s'" using s(3,4) by (simp add: phi_pending_def)
  have "d \<in> ph_hasPhi s'" if "iterated_frontier DF defs d" for d
    using that by (induction rule: iterated_frontier.induct) (use closed in blast)+
  moreover have "ph_hasPhi s' \<subseteq> {d. iterated_frontier DF defs d}" "set (ph_inserted s') = ph_hasPhi s'" "distinct (ph_inserted s')"
    using s(2) by (auto simp: phi_inv_def)
  ultimately show ?thesis using s(1) by (auto simp: phi_blocks_def)
qed


lemma insert_phis_exact:
  assumes fin: "finite B" "\<forall>b \<in> B. is_block b" "\<And>x. DF x \<subseteq> B" "\<And>r. finite (defSites r)"
  shows "\<exists>ins. insert_phis cfg is_block DF defSites regs = Some ins \<and> (distinct regs \<longrightarrow> distinct ins) \<and>
    (\<forall>r b n. (r, b, n) \<in> set ins \<longleftrightarrow>
       r \<in> set regs \<and> iterated_frontier DF (defSites r) b \<and> n = length (getPredecessors cfg b))"
proof (induction regs)
  case (Cons reg regs)
  then obtain ins where ins: "insert_phis cfg is_block DF defSites regs = Some ins" "distinct regs \<longrightarrow> distinct ins"
    "\<forall>r b n. (r, b, n) \<in> set ins \<longleftrightarrow> r \<in> set regs \<and> iterated_frontier DF (defSites r) b \<and> n = length (getPredecessors cfg b)"
    by blast
  obtain bs where bs: "phi_blocks is_block DF (defSites reg) = Some bs" "distinct bs"
    "set bs = {d. iterated_frontier DF (defSites reg) d}"
    using phi_blocks_exact [where DF = DF and is_block = is_block, OF fin(1-3) fin(4) [of reg]] by blast
  let ?new = "map (\<lambda>b. (reg, b, length (getPredecessors cfg b))) bs"
  have "distinct ?new" using bs(2) by (simp add: distinct_map inj_on_def)
  then have "distinct (?new @ ins)" if "distinct (reg # regs)" using ins(2,3) that by auto
  moreover have "\<forall>r b n. (r, b, n) \<in> set (?new @ ins) \<longleftrightarrow>
      r \<in> set (reg # regs) \<and> iterated_frontier DF (defSites r) b \<and> n = length (getPredecessors cfg b)"
    using ins(3) bs(3) by auto
  ultimately show ?case using ins(1) bs(1) by auto
qed simp

section \<open>Where definitions meet\<close>

lemma finite_def_places: "finite (buildVirtualRegDefPlaces entry params blocks reg)"
  by (auto simp: buildVirtualRegDefPlaces_def split: option.split)

lemma iterated_frontier_sufficient:
  assumes DF: "\<And>x z. z \<noteq> entry \<Longrightarrow> z \<in> DF x \<longleftrightarrow> z \<in> B \<and> dominance_frontier (flow_edge cfg) entry x z"
    and B: "{v. reachable (flow_edge cfg) entry v} \<subseteq> B"
    and i: "is_idom (flow_edge cfg) entry d b" and path: "(step_avoiding (flow_edge cfg) d)\<^sup>+\<^sup>+ x b"
    and x: "x \<in> defs \<or> iterated_frontier DF defs x" "reachable (flow_edge cfg) entry x"
  shows "iterated_frontier DF defs b"
proof -
  have closed: "z \<in> {y. iterated_frontier DF defs y}"
    if y: "y \<in> defs \<union> {y. iterated_frontier DF defs y}" and f: "dominance_frontier (flow_edge cfg) entry y z" and z: "z \<noteq> entry" for y z
  proof -
    obtain p where "flow_edge cfg p z" "dominates (flow_edge cfg) entry y p"
      using f unfolding dominance_frontier_def by blast
    then have "reachable (flow_edge cfg) entry z" using dominates_reachable reachable_step by metis
    then have "z \<in> DF y" using DF [OF z] B f by blast
    then show ?thesis using y iterated_frontier.intros by blast
  qed
  have "b \<in> {y. iterated_frontier DF defs y}"
    by (rule frontier_closed_path [OF i closed path]) (use x in blast)+
  then show ?thesis by simp
qed

section \<open>Properties of the phi placement\<close>

text \<open>\<open>buildDominanceFrontier\<close> terminates, and records exactly the dominance frontiers: for every
  block \<open>b\<close> of the function but the entry, \<open>b\<close> is in the set of \<open>x\<close> if and only if \<open>x\<close> dominates a
  predecessor of \<open>b\<close> and does not strictly dominate \<open>b\<close>.\<close>

theorem dominance_frontier_exact:
  assumes "cfr_wf cfg" "\<not> reachable (flow_edge cfg) entry MIRID_INVALID"
  shows "\<exists>order D DF. buildPostOrder cfg entry = Some order \<and> buildImmDomTree cfg entry order = Some D \<and>
    buildDominanceFrontier cfg D blocks = Some DF \<and>
    (\<forall>x b. b \<noteq> entry \<longrightarrow> (b \<in> DF x \<longleftrightarrow> b \<in> mb_id ` set blocks \<and> dominance_frontier (flow_edge cfg) entry x b))"
proof -
  obtain order D where o: "buildPostOrder cfg entry = Some order" "buildImmDomTree cfg entry order = Some D"
    "ssa.exact_tree (cfg, entry) D"
    using idom_tree_exact [OF assms(1,2)] by (elim exE conjE) (rule that)
  obtain DF where "buildDominanceFrontier cfg D blocks = Some DF"
    "\<forall>x b. b \<noteq> entry \<longrightarrow> (b \<in> DF x \<longleftrightarrow> b \<in> mb_id ` set blocks \<and> dominance_frontier (flow_edge cfg) entry x b)"
    using frontier_exact [OF assms(1) o(3), of blocks] by (elim exE conjE) (rule that)
  then show ?thesis using o(1,2) by (intro exI conjI)
qed

text \<open>C10: The phi placement terminates and is sufficient. The insertions are, once each, a phi for
  every register in every block of the iterated dominance frontier of its definition sites, with
  one operand per predecessor. Wherever a definition or a phi of a register can reach a block
  \<open>b\<close> on a path that does not pass the immediate dominator of \<open>b\<close>, there is a phi in \<open>b\<close>: a block
  without one is reached only by what reaches the end of its immediate dominator.\<close>

theorem phi_placement_sufficient:
  assumes "cfr_wf cfg" "\<not> reachable (flow_edge cfg) entry MIRID_INVALID"
    and "{v. reachable (flow_edge cfg) entry v} \<subseteq> mb_id ` set blocks"
    and "distinct regs"
  shows "\<exists>order D DF ins. buildPostOrder cfg entry = Some order \<and> buildImmDomTree cfg entry order = Some D \<and>
    buildDominanceFrontier cfg D blocks = Some DF \<and>
    insert_phis cfg (\<lambda>b. b \<in> mb_id ` set blocks) DF (buildVirtualRegDefPlaces (Some entry) params blocks) regs = Some ins \<and>
    distinct ins \<and>
    (\<forall>r b n. (r, b, n) \<in> set ins \<longleftrightarrow> r \<in> set regs \<and> n = length (getPredecessors cfg b) \<and>
       iterated_frontier DF (buildVirtualRegDefPlaces (Some entry) params blocks r) b) \<and>
    (\<forall>r x d b. r \<in> set regs \<and> reachable (flow_edge cfg) entry x \<and> is_idom (flow_edge cfg) entry d b \<and>
       (x \<in> buildVirtualRegDefPlaces (Some entry) params blocks r \<or> (\<exists>n. (r, x, n) \<in> set ins)) \<and>
       (step_avoiding (flow_edge cfg) d)\<^sup>+\<^sup>+ x b \<longrightarrow> (r, b, length (getPredecessors cfg b)) \<in> set ins)"
proof -
  let ?B = "mb_id ` set blocks" and ?defs = "buildVirtualRegDefPlaces (Some entry) params blocks"
  obtain order D where o: "buildPostOrder cfg entry = Some order" "buildImmDomTree cfg entry order = Some D"
    "ssa.exact_tree (cfg, entry) D"
    using idom_tree_exact [OF assms(1,2)] by blast
  obtain DF where DF: "buildDominanceFrontier cfg D blocks = Some DF"
    "\<And>x. DF x = {b \<in> ?B. adds_frontier cfg entry D b x}"
    "\<And>x b. b \<noteq> entry \<Longrightarrow> b \<in> DF x \<longleftrightarrow> b \<in> ?B \<and> dominance_frontier (flow_edge cfg) entry x b"
    using frontier_exact [OF assms(1) o(3), of blocks] by blast
  have sub: "\<And>x. DF x \<subseteq> ?B" unfolding DF(2) by blast
  have fB: "finite ?B" "\<forall>b \<in> ?B. b \<in> ?B" by simp_all
  obtain ins where ins: "insert_phis cfg (\<lambda>b. b \<in> ?B) DF ?defs regs = Some ins" "distinct regs \<longrightarrow> distinct ins"
    "\<forall>r b n. (r, b, n) \<in> set ins \<longleftrightarrow> r \<in> set regs \<and> iterated_frontier DF (?defs r) b \<and> n = length (getPredecessors cfg b)"
    using insert_phis_exact [where DF = DF and is_block = "\<lambda>b. b \<in> ?B" and defSites = ?defs, OF fB sub finite_def_places, of cfg regs]
    by blast
  have "(r, b, length (getPredecessors cfg b)) \<in> set ins"
    if r: "r \<in> set regs" and x: "reachable (flow_edge cfg) entry x" "x \<in> ?defs r \<or> (\<exists>n. (r, x, n) \<in> set ins)"
      and i: "is_idom (flow_edge cfg) entry d b" and path: "(step_avoiding (flow_edge cfg) d)\<^sup>+\<^sup>+ x b" for r x d b
  proof -
    have via: "x \<in> ?defs r \<or> iterated_frontier DF (?defs r) x" using x(2) ins(3) by blast
    note suff = iterated_frontier_sufficient [where DF = DF and B = ?B and cfg = cfg and entry = entry
        and defs = "?defs r" and x = x and b = b and d = d]
    have "iterated_frontier DF (?defs r) b" 
      by (rule suff [OF DF(3) assms(3) i path via x(1)])
    then show ?thesis using ins(3) r by blast
  qed
  then have suff: "\<forall>r x d b. r \<in> set regs \<and> reachable (flow_edge cfg) entry x \<and> is_idom (flow_edge cfg) entry d b \<and>
       (x \<in> ?defs r \<or> (\<exists>n. (r, x, n) \<in> set ins)) \<and>
       (step_avoiding (flow_edge cfg) d)\<^sup>+\<^sup>+ x b \<longrightarrow> (r, b, length (getPredecessors cfg b)) \<in> set ins" by blast
  have "distinct ins" using ins(2) assms(4) by blast
  moreover have "\<forall>r b n. (r, b, n) \<in> set ins \<longleftrightarrow> r \<in> set regs \<and> n = length (getPredecessors cfg b) \<and> iterated_frontier DF (?defs r) b"
    using ins(3) by blast
  ultimately show ?thesis using o(1,2) DF(1) ins(1) suff by blast
qed

section \<open>An example\<close>

text \<open>Both arms of the conditional write register 9.\<close>

definition write_9 :: mir_inst where
  "write_9 = \<lparr>mi_opcode = MOV, mi_flags = IsMove, mi_slots = [\<lparr>slot_flags = Write, slot_variadic = False\<rparr>], mi_desc = None,
     mi_operands = [Some (OpReg (VReg 9))]\<rparr>"

definition diamond_blocks :: "mir_block list" where
  "diamond_blocks = [\<lparr>mb_id = 2, mb_insts = []\<rparr>, \<lparr>mb_id = 3, mb_insts = [write_9]\<rparr>, \<lparr>mb_id = 4, mb_insts = [write_9]\<rparr>,
     \<lparr>mb_id = 5, mb_insts = []\<rparr>]"

lemma write_9_defs: "getDefinedRegisters write_9 = [VReg 9]"
  by code_simp

lemma diamond_zero: "\<not> reachable (flow_edge diamond_cfg) 2 MIRID_INVALID"
  by (simp add: diamond_reachable MIRID_INVALID_def)

theorem dominance_frontier_exact_witness:
  "\<exists>order D DF. buildPostOrder diamond_cfg 2 = Some order \<and> buildImmDomTree diamond_cfg 2 order = Some D \<and>
    buildDominanceFrontier diamond_cfg D diamond_blocks = Some DF \<and> 5 \<in> DF 3 \<and> 5 \<notin> DF 2"
proof -
  obtain order D DF where o: "buildPostOrder diamond_cfg 2 = Some order" "buildImmDomTree diamond_cfg 2 order = Some D"
    "buildDominanceFrontier diamond_cfg D diamond_blocks = Some DF"
    and DF: "\<forall>x b. b \<noteq> 2 \<longrightarrow> (b \<in> DF x \<longleftrightarrow> b \<in> mb_id ` set diamond_blocks \<and> dominance_frontier (flow_edge diamond_cfg) 2 x b)"
    using dominance_frontier_exact [OF diamond_wf diamond_zero, of diamond_blocks] by (elim exE conjE) (rule that)
  have "5 \<in> mb_id ` set diamond_blocks" by (simp add: diamond_blocks_def)
  moreover have "dominance_frontier (flow_edge diamond_cfg) 2 3 5" "\<not> dominance_frontier (flow_edge diamond_cfg) 2 2 5"
    by (auto simp: dominance_frontier_def diamond_edge diamond_dominates)
  ultimately show ?thesis using o DF by auto
qed

theorem phi_placement_sufficient_witness:
  "\<exists>order D DF ins. buildPostOrder diamond_cfg 2 = Some order \<and> buildImmDomTree diamond_cfg 2 order = Some D \<and>
    buildDominanceFrontier diamond_cfg D diamond_blocks = Some DF \<and>
    insert_phis diamond_cfg (\<lambda>b. b \<in> mb_id ` set diamond_blocks) DF (buildVirtualRegDefPlaces (Some 2) [] diamond_blocks) [9] = Some ins \<and>
    (9, 5, length (getPredecessors diamond_cfg 5)) \<in> set ins"
proof -
  have r: "{v. reachable (flow_edge diamond_cfg) 2 v} \<subseteq> mb_id ` set diamond_blocks"
    by (auto simp: diamond_reachable diamond_blocks_def)
  have def: "3 \<in> buildVirtualRegDefPlaces (Some 2) [] diamond_blocks 9"
    unfolding buildVirtualRegDefPlaces_def diamond_blocks_def
    by (intro UnI2 image_eqI [of _ _ "\<lparr>mb_id = 3, mb_insts = [write_9]\<rparr>"]) (simp_all add: write_9_defs)
  have path: "(step_avoiding (flow_edge diamond_cfg) 2)\<^sup>+\<^sup>+ 3 5" by (rule tranclp.r_into_trancl) (simp add: diamond_edge)
  obtain order D DF ins where o: "buildPostOrder diamond_cfg 2 = Some order" "buildImmDomTree diamond_cfg 2 order = Some D"
    "buildDominanceFrontier diamond_cfg D diamond_blocks = Some DF"
    "insert_phis diamond_cfg (\<lambda>b. b \<in> mb_id ` set diamond_blocks) DF (buildVirtualRegDefPlaces (Some 2) [] diamond_blocks) [9] = Some ins"
    and suff: "\<forall>r x d b. r \<in> set [9] \<and> reachable (flow_edge diamond_cfg) 2 x \<and> is_idom (flow_edge diamond_cfg) 2 d b \<and>
       (x \<in> buildVirtualRegDefPlaces (Some 2) [] diamond_blocks r \<or> (\<exists>n. (r, x, n) \<in> set ins)) \<and>
       (step_avoiding (flow_edge diamond_cfg) d)\<^sup>+\<^sup>+ x b \<longrightarrow> (r, b, length (getPredecessors diamond_cfg b)) \<in> set ins"
    using phi_placement_sufficient [where regs = "[9]" and params = "[]", OF diamond_wf diamond_zero r distinct_singleton]
    by (elim exE conjE) (rule that)
  have "(9, 5, length (getPredecessors diamond_cfg 5)) \<in> set ins"
    by (rule suff [rule_format, of 9 3 2 5, OF conjI, OF _ conjI, OF _ _ conjI, OF _ _ _ conjI])
      (simp_all add: def path diamond_idom diamond_reachable)
  then show ?thesis using o by blast
qed

end
