(* ===== verification/SsaRename.thy ===== *)
theory SsaRename
  imports SsaPhi
begin

text \<open>
  The renaming walk of \<open>NonSsaToSsaPass\<close> (\<open>createPhiInstruction\<close> and \<open>renameVariables\<close> in
  EzMir/src/MirPasses/Passes/NonSsaToSsaPass.cpp). Virtual registers are their ids, the stacks
  hold ids with the top at the head, and the instructions of the function are lists by block id,
  so a phi is the pair of its block and its index, the key of \<open>phiOriginalReg\<close>. Operands are values:
  no two instructions share a memory operand. The names built for diagnostics, and with them
  the counters per register, have no part in the result.
\<close>

section \<open>Inserting the phi instructions\<close>

text \<open>The metadata row of the opcode is generated at build time and is an argument.\<close>

definition createPhiInstruction :: "u32 \<times> meta_slot list \<Rightarrow> mir_id \<Rightarrow> nat \<Rightarrow> mir_inst" where
  "createPhiInstruction row regId numPredecessors =
     \<lparr>mi_opcode = PHI, mi_flags = fst row, mi_slots = snd row, mi_desc = None,
      mi_operands = Some (OpReg (VReg regId)) # replicate numPredecessors (Some (OpReg (VReg regId)))\<rparr>"

text \<open>Each phi goes before the first instruction of its block.\<close>

definition place_phis :: "u32 \<times> meta_slot list \<Rightarrow> (mir_id \<times> mir_id \<times> nat) list \<Rightarrow> mir_block list \<Rightarrow> mir_id \<Rightarrow> mir_inst list" where
  "place_phis row ins blocks =
     fold (\<lambda>(reg, b, n) insts. insts(b := createPhiInstruction row reg n # insts b)) ins
       (\<lambda>b. case map_of (map (\<lambda>blk. (mb_id blk, mb_insts blk)) blocks) b of Some is \<Rightarrow> is | None \<Rightarrow> [])"

section \<open>State of the walk\<close>

record rename_ctx =
  rc_cfg :: code_flow_result
  rc_entry :: mir_id
  rc_params :: "reg_ref list"
  rc_isBlock :: "mir_id \<Rightarrow> bool"
  rc_domChildren :: "mir_id \<Rightarrow> mir_id list"
  rc_phiOriginalReg :: "mir_id \<Rightarrow> nat \<Rightarrow> mir_id option"

record rename_state =
  rs_nextId :: mir_id
  rs_varStacks :: "mir_id \<Rightarrow> mir_id list"
  rs_undefRegs :: "mir_id \<rightharpoonup> mir_id"
  rs_insts :: "mir_id \<Rightarrow> mir_inst list"

definition dom_children :: "(mir_id \<rightharpoonup> mir_id) \<Rightarrow> mir_id list \<Rightarrow> mir_id \<Rightarrow> mir_id list" where
  "dom_children idom blockIds p = filter (\<lambda>b. idom b = Some p \<and> p \<noteq> b) blockIds"

text \<open>The virtual register in operand 0 of every phi.\<close>

definition virtual_dst :: "mir_inst \<Rightarrow> mir_id option" where
  "virtual_dst i = (case mi_operands i of Some (OpReg (VReg r)) # _ \<Rightarrow> Some r | _ \<Rightarrow> None)"

definition phi_originals :: "(mir_id \<Rightarrow> mir_inst list) \<Rightarrow> mir_id \<Rightarrow> nat \<Rightarrow> mir_id option" where
  "phi_originals insts b k =
     (if k < length (insts b) \<and> mi_opcode (insts b ! k) = PHI then virtual_dst (insts b ! k) else None)"

section \<open>Registers\<close>

definition push_reg :: "mir_id \<Rightarrow> mir_id \<Rightarrow> rename_state \<Rightarrow> rename_state" where
  "push_reg r n st = st\<lparr>rs_varStacks := (rs_varStacks st)(r := n # rs_varStacks st r)\<rparr>"

definition pop_reg :: "mir_id \<Rightarrow> rename_state \<Rightarrow> rename_state" where
  "pop_reg r st = st\<lparr>rs_varStacks := (rs_varStacks st)(r := tl (rs_varStacks st r))\<rparr>"

text \<open>A new register, pushed as the current definition of \<open>r\<close>.\<close>

definition fresh_def :: "mir_id \<Rightarrow> rename_state \<Rightarrow> mir_id \<times> rename_state" where
  "fresh_def r st = (rs_nextId st, push_reg r (rs_nextId st) (st\<lparr>rs_nextId := Suc (rs_nextId st)\<rparr>))"

text \<open>The reaching definition of \<open>r\<close>, or its undefined register, built on first use.\<close>

definition reaching_def :: "mir_id \<Rightarrow> rename_state \<Rightarrow> mir_id \<times> rename_state" where
  "reaching_def r st =
     (case rs_varStacks st r of
        n # _ \<Rightarrow> (n, st)
      | [] \<Rightarrow>
          (case rs_undefRegs st r of
             Some u \<Rightarrow> (u, st)
           | None \<Rightarrow> (rs_nextId st, st\<lparr>rs_nextId := Suc (rs_nextId st), rs_undefRegs := (rs_undefRegs st)(r \<mapsto> rs_nextId st)\<rparr>)))"

definition renameReadReg :: "reg_ref \<Rightarrow> rename_state \<Rightarrow> reg_ref \<times> rename_state" where
  "renameReadReg op st =
     (case op of PReg c n \<Rightarrow> (op, st) | VReg r \<Rightarrow> (let (n, st') = reaching_def r st in (VReg n, st')))"

definition rename_reg_opt :: "reg_ref option \<Rightarrow> rename_state \<Rightarrow> reg_ref option \<times> rename_state" where
  "rename_reg_opt op st =
     (case op of None \<Rightarrow> (None, st) | Some r \<Rightarrow> (let (r', st') = renameReadReg r st in (Some r', st')))"

section \<open>Instructions\<close>

definition rename_operand :: "operand_flag \<Rightarrow> mir_operand option \<Rightarrow> rename_state \<Rightarrow> mir_operand option \<times> rename_state" where
  "rename_operand flag op st =
     (case op of
        Some (OpReg r) \<Rightarrow>
          if has_read flag then (let (r', st') = renameReadReg r st in (Some (OpReg r'), st')) else (op, st)
      | Some (OpMem base index) \<Rightarrow>
          (let (base', st1) = rename_reg_opt base st;
               (index', st2) = rename_reg_opt index st1
           in (Some (OpMem base' index'), st2))
      | _ \<Rightarrow> (op, st))"

definition rename_read_at :: "nat \<Rightarrow> mir_inst \<times> rename_state \<Rightarrow> mir_inst \<times> rename_state" where
  "rename_read_at k s =
     (case s of (i, st) \<Rightarrow>
        let (op, st') = rename_operand (getOperandFlag i k) (mi_operands i ! k) st
        in (i\<lparr>mi_operands := (mi_operands i)[k := op]\<rparr>, st'))"

definition rename_reads :: "mir_inst \<Rightarrow> rename_state \<Rightarrow> mir_inst \<times> rename_state" where
  "rename_reads i st = fold rename_read_at [0..<length (mi_operands i)] (i, st)"

text \<open>Pure writes get a new register; the list collects the registers pushed.\<close>

definition rename_write_at :: "nat \<Rightarrow> mir_inst \<times> rename_state \<times> mir_id list \<Rightarrow> mir_inst \<times> rename_state \<times> mir_id list" where
  "rename_write_at k s =
     (case s of (i, st, pushed) \<Rightarrow>
        if has_write (getOperandFlag i k) \<and> \<not> has_read (getOperandFlag i k) then
          (case mi_operands i ! k of
             Some (OpReg (VReg r)) \<Rightarrow>
               (let (n, st') = fresh_def r st
                in (i\<lparr>mi_operands := (mi_operands i)[k := Some (OpReg (VReg n))]\<rparr>, st', pushed @ [r]))
           | _ \<Rightarrow> (i, st, pushed))
        else (i, st, pushed))"

definition rename_writes :: "mir_inst \<Rightarrow> rename_state \<Rightarrow> mir_inst \<times> rename_state \<times> mir_id list" where
  "rename_writes i st = fold rename_write_at [0..<length (mi_operands i)] (i, st, [])"

section \<open>Blocks\<close>

text \<open>The destinations of the leading phis, from index \<open>k\<close>.\<close>

fun rename_phis :: "(nat \<Rightarrow> mir_id option) \<Rightarrow> nat \<Rightarrow> mir_inst list \<Rightarrow> rename_state \<Rightarrow> mir_inst list \<times> rename_state \<times> mir_id list" where
  "rename_phis orig k [] st = ([], st, [])"
| "rename_phis orig k (i # is) st =
     (if mi_opcode i \<noteq> PHI then (i # is, st, [])
      else case virtual_dst i of
        None \<Rightarrow> (let (is', st', pushed) = rename_phis orig (Suc k) is st in (i # is', st', pushed))
      | Some _ \<Rightarrow>
          (let origReg = (case orig k of Some r \<Rightarrow> r | None \<Rightarrow> MIRID_INVALID);
               (n, st1) = fresh_def origReg st;
               (is', st', pushed) = rename_phis orig (Suc k) is st1
           in (i\<lparr>mi_operands := (mi_operands i)[0 := Some (OpReg (VReg n))]\<rparr> # is', st', origReg # pushed)))"

fun rename_body :: "mir_inst list \<Rightarrow> rename_state \<Rightarrow> mir_inst list \<times> rename_state \<times> mir_id list" where
  "rename_body [] st = ([], st, [])"
| "rename_body (i # is) st =
     (if mi_opcode i = PHI then (let (is', st', pushed) = rename_body is st in (i # is', st', pushed))
      else
        (let (i1, st1) = rename_reads i st;
             (i2, st2, pushed1) = rename_writes i1 st1;
             (is', st3, pushed2) = rename_body is st2
         in (i2 # is', st3, pushed1 @ pushed2)))"

text \<open>The operands of the leading phis of a successor that stand for one predecessor.\<close>

fun fill_phis :: "(nat \<Rightarrow> mir_id option) \<Rightarrow> nat \<Rightarrow> nat \<Rightarrow> mir_inst list \<Rightarrow> rename_state \<Rightarrow> mir_inst list \<times> rename_state" where
  "fill_phis orig predIndex k [] st = ([], st)"
| "fill_phis orig predIndex k (i # is) st =
     (if mi_opcode i \<noteq> PHI then (i # is, st)
      else case orig k of
        None \<Rightarrow> (let (is', st') = fill_phis orig predIndex (Suc k) is st in (i # is', st'))
      | Some r \<Rightarrow>
          (let (n, st1) = reaching_def r st;
               i' = (if 1 + predIndex < length (mi_operands i)
                     then i\<lparr>mi_operands := (mi_operands i)[1 + predIndex := Some (OpReg (VReg n))]\<rparr> else i);
               (is', st') = fill_phis orig predIndex (Suc k) is st1
           in (i' # is', st')))"

definition pred_index :: "mir_id list \<Rightarrow> mir_id \<Rightarrow> nat" where
  "pred_index preds b = length (takeWhile (\<lambda>p. p \<noteq> b) preds)"

definition fill_succ :: "rename_ctx \<Rightarrow> mir_id \<Rightarrow> mir_id \<Rightarrow> rename_state \<Rightarrow> rename_state" where
  "fill_succ c b s st =
     (if \<not> rc_isBlock c s then st
      else
        let preds = getPredecessors (rc_cfg c) s; predIndex = pred_index preds b in
        if predIndex = length preds then st
        else
          let (insts, st') = fill_phis (rc_phiOriginalReg c s) predIndex 0 (rs_insts st s) st
          in st'\<lparr>rs_insts := (rs_insts st')(s := insts)\<rparr>)"

definition push_params :: "rename_ctx \<Rightarrow> mir_id \<Rightarrow> rename_state \<Rightarrow> rename_state \<times> mir_id list" where
  "push_params c b st =
     (if b = rc_entry c then
        let ids = map reg_id (filter isVirtual (rc_params c)) in (fold (\<lambda>p. push_reg p p) ids st, ids)
      else (st, []))"

text \<open>The visit of one block, up to the recursion over the dominator tree.\<close>

definition visit_block :: "rename_ctx \<Rightarrow> mir_id \<Rightarrow> rename_state \<Rightarrow> rename_state \<times> mir_id list" where
  "visit_block c b st =
     (let (st0, pushed0) = push_params c b st;
          (insts1, st1, pushed1) = rename_phis (rc_phiOriginalReg c b) 0 (rs_insts st0 b) st0;
          (insts2, st2, pushed2) = rename_body insts1 st1;
          st3 = st2\<lparr>rs_insts := (rs_insts st2)(b := insts2)\<rparr>;
          st4 = fold (fill_succ c b) (getSuccessors (rc_cfg c) b) st3
      in (st4, pushed0 @ pushed1 @ pushed2))"

partial_function (option) rename_blocks :: "rename_ctx \<Rightarrow> mir_id list \<Rightarrow> rename_state \<Rightarrow> rename_state option" where
  "rename_blocks c todo st =
     (case todo of
        [] \<Rightarrow> Some st
      | b # bs \<Rightarrow>
          if \<not> rc_isBlock c b then rename_blocks c bs st
          else
            let (st1, pushed) = visit_block c b st in
            Option.bind (rename_blocks c (rc_domChildren c b) st1)
              (\<lambda>st2. rename_blocks c bs (fold pop_reg pushed st2)))"

definition renameVariables ::
  "code_flow_result \<Rightarrow> mir_id \<Rightarrow> reg_ref list \<Rightarrow> mir_id list \<Rightarrow> (mir_id \<rightharpoonup> mir_id) \<Rightarrow> (mir_id \<Rightarrow> mir_inst list) \<Rightarrow> mir_id \<Rightarrow> rename_state option" where
  "renameVariables cfg entry params blockIds idom insts nextId =
     rename_blocks
       \<lparr>rc_cfg = cfg, rc_entry = entry, rc_params = params, rc_isBlock = (\<lambda>b. b \<in> set blockIds),
        rc_domChildren = dom_children idom blockIds, rc_phiOriginalReg = phi_originals insts\<rparr>
       [entry]
       \<lparr>rs_nextId = nextId, rs_varStacks = (\<lambda>_. []), rs_undefRegs = Map.empty, rs_insts = insts\<rparr>"

text \<open>The registers that have a definition site, in increasing order.\<close>

definition defined_ids :: "reg_ref list \<Rightarrow> mir_block list \<Rightarrow> mir_id list" where
  "defined_ids params blocks =
     sorted_list_of_set (reg_id ` set (filter isVirtual (params @ concat (map getDefinedRegisters (concat (map mb_insts blocks))))))"

text \<open>The whole construction, on a function without phis: the blocks after it and the counter.\<close>

definition run_NonSsaToSsa ::
  "u32 \<times> meta_slot list \<Rightarrow> code_flow_result \<Rightarrow> mir_id \<Rightarrow> reg_ref list \<Rightarrow> mir_block list \<Rightarrow> mir_id \<Rightarrow> rename_state option" where
  "run_NonSsaToSsa row cfg entry params blocks nextId =
     (if \<exists>b \<in> set blocks. \<exists>i \<in> set (mb_insts b). mi_opcode i = PHI
      then Some \<lparr>rs_nextId = nextId, rs_varStacks = (\<lambda>_. []), rs_undefRegs = Map.empty, rs_insts = place_phis row [] blocks\<rparr>
      else
        Option.bind (buildPostOrder cfg entry) (\<lambda>order.
        Option.bind (buildImmDomTree cfg entry order) (\<lambda>idom.
        Option.bind (buildDominanceFrontier cfg idom blocks) (\<lambda>DF.
        Option.bind (insert_phis cfg (\<lambda>b. b \<in> mb_id ` set blocks) DF (buildVirtualRegDefPlaces (Some entry) params blocks) (defined_ids params blocks)) (\<lambda>ins.
          renameVariables cfg entry params (map mb_id blocks) idom (place_phis row ins blocks) nextId)))))"

end
