(* ===== verification/SsaSteps.thy ===== *)
theory SsaSteps
  imports SsaRename
begin

text \<open>
  The steps of the renaming walk: which names a state uses, what each step does to the stacks and
  to the instruction, and that a renamed instruction simulates the original one.
\<close>

section \<open>Names\<close>

definition reg_names :: "rename_state \<Rightarrow> mir_id \<Rightarrow> mir_id set" where
  "reg_names st r = set (rs_varStacks st r) \<union> set_option (rs_undefRegs st r)"

text \<open>No name stands for two registers; a register of the original function stands for itself.\<close>

definition names_ok :: "mir_id \<Rightarrow> rename_state \<Rightarrow> bool" where
  "names_ok n0 st \<longleftrightarrow> n0 \<le> rs_nextId st \<and>
     (\<forall>r. \<forall>n \<in> reg_names st r. n < rs_nextId st \<and> (n < n0 \<longrightarrow> n = r)) \<and>
     (\<forall>r r' n. n \<in> reg_names st r \<longrightarrow> n \<in> reg_names st r' \<longrightarrow> r = r')"

text \<open>What may happen between two states: new ids and new undefined registers.\<close>

definition grows_to :: "rename_state \<Rightarrow> rename_state \<Rightarrow> bool" where
  "grows_to st st' \<longleftrightarrow> rs_nextId st \<le> rs_nextId st' \<and> rs_undefRegs st \<subseteq>\<^sub>m rs_undefRegs st' \<and>
     (\<forall>r u. rs_undefRegs st r = None \<longrightarrow> rs_undefRegs st' r = Some u \<longrightarrow> rs_nextId st \<le> u)"

text \<open>A table of undefined registers that a later state can have.\<close>

definition later_undef :: "rename_state \<Rightarrow> (mir_id \<rightharpoonup> mir_id) \<Rightarrow> bool" where
  "later_undef st U \<longleftrightarrow> rs_undefRegs st \<subseteq>\<^sub>m U \<and>
     (\<forall>r u. rs_undefRegs st r = None \<longrightarrow> U r = Some u \<longrightarrow> rs_nextId st \<le> u) \<and>
     (\<forall>r r' u. U r = Some u \<longrightarrow> U r' = Some u \<longrightarrow> r = r')"

text \<open>The name a register has: the top of its stack, or its undefined register.\<close>

definition name_of :: "(mir_id \<rightharpoonup> mir_id) \<Rightarrow> (mir_id \<Rightarrow> mir_id list) \<Rightarrow> mir_id \<Rightarrow> mir_id" where
  "name_of U S r = (case S r of n # _ \<Rightarrow> n | [] \<Rightarrow> (case U r of Some u \<Rightarrow> u | None \<Rightarrow> r))"

fun name_ref :: "(mir_id \<Rightarrow> mir_id) \<Rightarrow> reg_ref \<Rightarrow> reg_ref" where
  "name_ref N (VReg r) = VReg (N r)"
| "name_ref N (PReg c n) = PReg c n"

lemma name_of_cong: "S r = S' r \<Longrightarrow> name_of U S r = name_of U S' r"
  by (simp add: name_of_def)

lemma grows_refl [simp, intro]: "grows_to st st"
  by (simp add: grows_to_def)

lemma grows_trans: "grows_to a b \<Longrightarrow> grows_to b c \<Longrightarrow> grows_to a c"
  unfolding grows_to_def
proof (intro conjI allI impI)
  assume a: "rs_nextId a \<le> rs_nextId b \<and> rs_undefRegs a \<subseteq>\<^sub>m rs_undefRegs b \<and>
      (\<forall>r u. rs_undefRegs a r = None \<longrightarrow> rs_undefRegs b r = Some u \<longrightarrow> rs_nextId a \<le> u)"
    and b: "rs_nextId b \<le> rs_nextId c \<and> rs_undefRegs b \<subseteq>\<^sub>m rs_undefRegs c \<and>
      (\<forall>r u. rs_undefRegs b r = None \<longrightarrow> rs_undefRegs c r = Some u \<longrightarrow> rs_nextId b \<le> u)"
  show "rs_nextId a \<le> rs_nextId c" using a b by simp
  show "rs_undefRegs a \<subseteq>\<^sub>m rs_undefRegs c" using a b map_le_trans by blast
  fix r u assume n: "rs_undefRegs a r = None" and u: "rs_undefRegs c r = Some u"
  show "rs_nextId a \<le> u"
  proof (cases "rs_undefRegs b r")
    case None
    then have "rs_nextId b \<le> u" using b u by blast
    then show ?thesis using a by simp
  next
    case (Some w)
    then have "rs_undefRegs c r = Some w" using b by (force simp: map_le_def dom_def)
    then show ?thesis using a n u Some by simp
  qed
qed

lemma later_undef_grows: "grows_to st st' \<Longrightarrow> later_undef st' U \<Longrightarrow> later_undef st U"
  unfolding later_undef_def
proof (intro conjI allI impI)
  assume g: "grows_to st st'" and l: "rs_undefRegs st' \<subseteq>\<^sub>m U \<and>
     (\<forall>r u. rs_undefRegs st' r = None \<longrightarrow> U r = Some u \<longrightarrow> rs_nextId st' \<le> u) \<and>
     (\<forall>r r' u. U r = Some u \<longrightarrow> U r' = Some u \<longrightarrow> r = r')"
  show "rs_undefRegs st \<subseteq>\<^sub>m U" using g l map_le_trans unfolding grows_to_def by blast
  show "r = r'" if "U r = Some u" "U r' = Some u" for r r' u using l that by blast
  fix r u assume n: "rs_undefRegs st r = None" and u: "U r = Some u"
  show "rs_nextId st \<le> u"
  proof (cases "rs_undefRegs st' r")
    case None
    then have "rs_nextId st' \<le> u" using l u by blast
    then show ?thesis using g by (simp add: grows_to_def)
  next
    case (Some w)
    then have "U r = Some w" using l by (force simp: map_le_def dom_def)
    then show ?thesis using g n u Some by (simp add: grows_to_def)
  qed
qed

lemma name_of_inj:
  assumes ok: "names_ok n0 st" and U: "later_undef st U"
  shows "inj_on (name_of U (rs_varStacks st)) {..<n0}"
proof (rule inj_onI)
  fix r r' assume r: "r \<in> {..<n0}" "r' \<in> {..<n0}" and e: "name_of U (rs_varStacks st) r = name_of U (rs_varStacks st) r'"
  have c: "name_of U (rs_varStacks st) q \<in> reg_names st q \<or>
      (rs_undefRegs st q = None \<and> U q = Some (name_of U (rs_varStacks st) q) \<and> rs_nextId st \<le> name_of U (rs_varStacks st) q) \<or>
      name_of U (rs_varStacks st) q = q" for q
  proof (cases "rs_varStacks st q")
    case (Cons n ns)
    then show ?thesis by (simp add: name_of_def reg_names_def)
  next
    case Nil
    show ?thesis
    proof (cases "rs_undefRegs st q")
      case None
      then show ?thesis using Nil U by (cases "U q") (auto simp: name_of_def later_undef_def)
    next
      case (Some u)
      then have "U q = Some u" using U by (force simp: later_undef_def map_le_def dom_def)
      then show ?thesis using Nil Some by (simp add: name_of_def reg_names_def)
    qed
  qed
  have small: "n < rs_nextId st" "n < n0 \<Longrightarrow> n = q" if "n \<in> reg_names st q" for n q
    using ok that by (auto simp: names_ok_def)
  have dis: "n \<in> reg_names st q \<Longrightarrow> n \<in> reg_names st q' \<Longrightarrow> q = q'" for n q q'
    using ok unfolding names_ok_def by blast
  have inU: "U q = Some u \<Longrightarrow> U q' = Some u \<Longrightarrow> q = q'" for q q' u using U unfolding later_undef_def by blast
  have n0: "n0 \<le> rs_nextId st" using ok by (simp add: names_ok_def)
  let ?n = "name_of U (rs_varStacks st) r'"
  have lt: "r < n0" "r' < n0" using r by simp_all
  from c [of r, unfolded e] c [of r'] show "r = r'"
  proof (elim disjE conjE)
    assume "?n \<in> reg_names st r" "?n \<in> reg_names st r'"
    then show ?thesis by (rule dis)
  next
    assume "U r = Some ?n" "U r' = Some ?n"
    then show ?thesis by (rule inU)
  next
    assume "?n \<in> reg_names st r" "?n = r'"
    then show ?thesis using small(2) [of ?n r] lt by simp
  next
    assume "?n = r" "?n \<in> reg_names st r'"
    then show ?thesis using small(2) [of ?n r'] lt by simp
  next
    assume "?n \<in> reg_names st r" "rs_nextId st \<le> ?n"
    then show ?thesis using small(1) [of ?n r] by simp
  next
    assume "?n \<in> reg_names st r'" "rs_nextId st \<le> ?n"
    then show ?thesis using small(1) [of ?n r'] by simp
  next
    assume "?n = r" "rs_nextId st \<le> ?n"
    then show ?thesis using n0 lt by simp
  next
    assume "?n = r'" "rs_nextId st \<le> ?n"
    then show ?thesis using n0 lt by simp
  next
    assume "?n = r" "?n = r'"
    then show ?thesis by simp
  qed
qed

section \<open>Quiet steps\<close>

text \<open>A step that reads definitions only.\<close>

definition quiet :: "mir_id \<Rightarrow> rename_state \<Rightarrow> rename_state \<Rightarrow> bool" where
  "quiet n0 st st' \<longleftrightarrow> grows_to st st' \<and> rs_varStacks st' = rs_varStacks st \<and> rs_insts st' = rs_insts st \<and>
     (names_ok n0 st \<longrightarrow> names_ok n0 st')"

lemma quiet_refl [simp, intro]: "quiet n0 st st"
  by (simp add: quiet_def)

lemma quiet_trans: "quiet n0 a b \<Longrightarrow> quiet n0 b c \<Longrightarrow> quiet n0 a c"
  using grows_trans unfolding quiet_def by metis

lemma quietD:
  assumes "quiet n0 st st'"
  shows "grows_to st st'" "rs_varStacks st' = rs_varStacks st" "rs_insts st' = rs_insts st" "names_ok n0 st \<Longrightarrow> names_ok n0 st'"
  using assms by (simp_all add: quiet_def)

lemma map_le_at: "m \<subseteq>\<^sub>m U \<Longrightarrow> m r = Some u \<Longrightarrow> U r = Some u"
  by (force simp: map_le_def dom_def)

lemma reaching_def_correct:
  assumes "reaching_def r st = (n, st')"
  shows "quiet n0 st st'" "rs_undefRegs st' \<subseteq>\<^sub>m U \<Longrightarrow> n = name_of U (rs_varStacks st) r"
proof -
  consider (stack) ns where "rs_varStacks st r = n # ns" "st' = st"
    | (undef) "rs_varStacks st r = []" "rs_undefRegs st r = Some n" "st' = st"
    | (new) "rs_varStacks st r = []" "rs_undefRegs st r = None" "n = rs_nextId st"
        "st' = st\<lparr>rs_nextId := Suc (rs_nextId st), rs_undefRegs := (rs_undefRegs st)(r \<mapsto> rs_nextId st)\<rparr>"
    using assms by (auto simp: reaching_def_def split: list.splits option.splits)
  note cases = this
  from cases show "quiet n0 st st'"
  proof cases
    case new
    have "names_ok n0 st'" if ok: "names_ok n0 st"
    proof -
      have nm: "reg_names st' q = (if q = r then insert (rs_nextId st) (reg_names st q) else reg_names st q)" for q
        using new by (auto simp: reg_names_def)
      have lt: "m < rs_nextId st" if "m \<in> reg_names st q" for m q using ok that by (auto simp: names_ok_def)
      have "m < Suc (rs_nextId st) \<and> (m < n0 \<longrightarrow> m = q)" if "m \<in> reg_names st' q" for m q
        using that ok less_SucI [OF lt, of m q] by (auto simp: nm names_ok_def split: if_splits)
      moreover have "q = q'" if "m \<in> reg_names st' q" "m \<in> reg_names st' q'" for m q q'
        using that ok lt [of m q] lt [of m q'] unfolding nm names_ok_def by (auto split: if_splits)
      moreover have "n0 \<le> rs_nextId st" using ok by (simp add: names_ok_def)
      ultimately show ?thesis unfolding names_ok_def new(4) by simp
    qed
    then show ?thesis using new by (auto simp: quiet_def grows_to_def map_le_def)
  qed simp_all
  show "n = name_of U (rs_varStacks st) r" if "rs_undefRegs st' \<subseteq>\<^sub>m U"
    using cases by cases (use map_le_at [OF that] in \<open>auto simp: name_of_def\<close>)
qed

section \<open>Shapes\<close>

text \<open>An instruction without the numbers of its virtual registers.\<close>

fun ref_kind :: "reg_ref \<Rightarrow> reg_ref" where
  "ref_kind (VReg _) = VReg 0"
| "ref_kind (PReg c n) = PReg c n"

definition op_kind :: "mir_operand option \<Rightarrow> mir_operand option" where
  "op_kind op =
     (case op of
        Some (OpReg r) \<Rightarrow> Some (OpReg (ref_kind r))
      | Some (OpMem b i) \<Rightarrow> Some (OpMem (map_option ref_kind b) (map_option ref_kind i))
      | _ \<Rightarrow> op)"

definition shape :: "mir_inst \<Rightarrow> mir_inst" where
  "shape i = i\<lparr>mi_operands := map op_kind (mi_operands i)\<rparr>"

lemma shape_simps [simp]:
  "mi_opcode (shape i) = mi_opcode i" "mi_flags (shape i) = mi_flags i" "mi_slots (shape i) = mi_slots i"
  "mi_desc (shape i) = mi_desc i" "mi_operands (shape i) = map op_kind (mi_operands i)"
  by (simp_all add: shape_def)

lemma op_kind_reg: "(\<exists>r. op_kind op = Some (OpReg r)) \<longleftrightarrow> (\<exists>r. op = Some (OpReg r))"
  by (auto simp: op_kind_def split: option.splits mir_operand.splits)

lemma call_has_dst_iff: "call_has_dst i \<longleftrightarrow> (\<exists>op ops. mi_operands i = op # ops \<and> (\<exists>r. op = Some (OpReg r)))"
  by (auto simp: call_has_dst_def split: list.splits option.splits mir_operand.splits)

lemma getOperandFlag_shape [simp]: "getOperandFlag (shape i) k = getOperandFlag i k"
proof -
  have "call_has_dst (shape i) = call_has_dst i"
    by (cases "mi_operands i") (auto simp: call_has_dst_iff op_kind_reg)
  then show ?thesis by (auto simp: getOperandFlag_def isSelected_def)
qed

lemma shape_flag: "shape i = shape i' \<Longrightarrow> getOperandFlag i k = getOperandFlag i' k"
  using getOperandFlag_shape by metis

lemma shape_fields:
  assumes "shape i = shape i'"
  shows "mi_opcode i = mi_opcode i'" "mi_desc i = mi_desc i'" "length (mi_operands i) = length (mi_operands i')"
    "map op_kind (mi_operands i) = map op_kind (mi_operands i')"
  using arg_cong [OF assms, of mi_opcode] arg_cong [OF assms, of mi_desc] arg_cong [OF assms, of "\<lambda>x. length (mi_operands x)"]
    arg_cong [OF assms, of mi_operands] by simp_all

lemma same_shape_update:
  "map op_kind ops = map op_kind (mi_operands i) \<Longrightarrow> shape (i\<lparr>mi_operands := ops\<rparr>) = shape i"
  by (simp add: shape_def)

lemma shape_operands: "shape i' = shape i \<Longrightarrow> i' = i\<lparr>mi_operands := mi_operands i'\<rparr>"
  by (cases i; cases i') (simp add: shape_def)

section \<open>Reads\<close>

definition read_op :: "(mir_id \<Rightarrow> mir_id) \<Rightarrow> operand_flag \<Rightarrow> mir_operand option \<Rightarrow> mir_operand option" where
  "read_op N flag op =
     (case op of
        Some (OpReg r) \<Rightarrow> if has_read flag then Some (OpReg (name_ref N r)) else op
      | Some (OpMem b i) \<Rightarrow> Some (OpMem (map_option (name_ref N) b) (map_option (name_ref N) i))
      | _ \<Rightarrow> op)"

lemma ref_kind_name [simp]: "ref_kind (name_ref N r) = ref_kind r"
  by (cases r) simp_all

lemma op_kind_read [simp]: "op_kind (read_op N flag op) = op_kind op"
  by (auto simp: read_op_def op_kind_def option.map_comp comp_def split: option.split mir_operand.split)

lemma renameReadReg_correct:
  assumes "renameReadReg r st = (r', st')"
  shows "quiet n0 st st'" "rs_undefRegs st' \<subseteq>\<^sub>m U \<Longrightarrow> r' = name_ref (name_of U (rs_varStacks st)) r"
  using assms reaching_def_correct by (auto simp: renameReadReg_def split: reg_ref.splits prod.splits)

lemma rename_reg_opt_correct:
  assumes "rename_reg_opt r st = (r', st')"
  shows "quiet n0 st st'" "rs_undefRegs st' \<subseteq>\<^sub>m U \<Longrightarrow> r' = map_option (name_ref (name_of U (rs_varStacks st))) r"
  using assms renameReadReg_correct by (auto simp: rename_reg_opt_def split: option.splits prod.splits)

lemma quiet_undef: "quiet n0 st st' \<Longrightarrow> rs_undefRegs st' \<subseteq>\<^sub>m U \<Longrightarrow> rs_undefRegs st \<subseteq>\<^sub>m U"
  using map_le_trans by (auto simp: quiet_def grows_to_def)

lemma rename_operand_correct:
  assumes "rename_operand flag op st = (op', st')"
  shows "quiet n0 st st'" "rs_undefRegs st' \<subseteq>\<^sub>m U \<Longrightarrow> op' = read_op (name_of U (rs_varStacks st)) flag op"
proof -
  have "quiet n0 st st' \<and> (rs_undefRegs st' \<subseteq>\<^sub>m U \<longrightarrow> op' = read_op (name_of U (rs_varStacks st)) flag op)"
  proof (cases "\<exists>b i. op = Some (OpMem b i)")
    case True
    then obtain b i where op: "op = Some (OpMem b i)" by blast
    obtain b' st1 where b: "rename_reg_opt b st = (b', st1)" by (cases "rename_reg_opt b st")
    obtain i' st2 where i: "rename_reg_opt i st1 = (i', st2)" by (cases "rename_reg_opt i st1")
    have r: "op' = Some (OpMem b' i')" "st' = st2" using assms by (simp_all add: rename_operand_def op b i)
    note qb = rename_reg_opt_correct(1) [OF b, of n0] and qi = rename_reg_opt_correct(1) [OF i, of n0]
    show ?thesis
      using quiet_trans [OF qb qi] quiet_undef [OF qi] rename_reg_opt_correct(2) [OF b] rename_reg_opt_correct(2) [OF i]
        quietD(2) [OF qb] by (auto simp: r op read_op_def)
  next
    case False
    then show ?thesis
      using assms renameReadReg_correct
      by (auto simp: rename_operand_def read_op_def split: option.splits mir_operand.splits prod.splits if_splits)
  qed
  then show "quiet n0 st st'" "rs_undefRegs st' \<subseteq>\<^sub>m U \<Longrightarrow> op' = read_op (name_of U (rs_varStacks st)) flag op" by blast+
qed

definition read_inst :: "(mir_id \<Rightarrow> mir_id) \<Rightarrow> mir_inst \<Rightarrow> mir_inst" where
  "read_inst N i = i\<lparr>mi_operands := map (\<lambda>k. read_op N (getOperandFlag i k) (mi_operands i ! k)) [0..<length (mi_operands i)]\<rparr>"

lemma shape_read_inst [simp]: "shape (read_inst N i) = shape i"
  unfolding read_inst_def by (rule same_shape_update) (auto intro: nth_equalityI)

lemma rename_reads_prefix:
  assumes "m \<le> length (mi_operands i)"
  shows "\<exists>i' st'. fold rename_read_at [0..<m] (i, st) = (i', st') \<and> quiet n0 st st' \<and> shape i' = shape i \<and>
    (\<forall>k < length (mi_operands i). m \<le> k \<longrightarrow> mi_operands i' ! k = mi_operands i ! k) \<and>
    (\<forall>U. rs_undefRegs st' \<subseteq>\<^sub>m U \<longrightarrow>
      (\<forall>k < m. mi_operands i' ! k = read_op (name_of U (rs_varStacks st)) (getOperandFlag i k) (mi_operands i ! k)))"
  using assms
proof (induction m)
  case (Suc m)
  then obtain i1 st1 where 1: "fold rename_read_at [0..<m] (i, st) = (i1, st1)" "quiet n0 st st1" "shape i1 = shape i"
    "\<forall>k < length (mi_operands i). m \<le> k \<longrightarrow> mi_operands i1 ! k = mi_operands i ! k"
    "\<And>U. rs_undefRegs st1 \<subseteq>\<^sub>m U \<Longrightarrow>
      (\<forall>k < m. mi_operands i1 ! k = read_op (name_of U (rs_varStacks st)) (getOperandFlag i k) (mi_operands i ! k))"
    by auto
  obtain op st2 where 2: "rename_operand (getOperandFlag i1 m) (mi_operands i1 ! m) st1 = (op, st2)"
    by (cases "rename_operand (getOperandFlag i1 m) (mi_operands i1 ! m) st1")
  have len: "length (mi_operands i1) = length (mi_operands i)" by (rule shape_fields(3) [OF 1(3)])
  have m: "m < length (mi_operands i)" using Suc.prems by simp
  have flag: "getOperandFlag i1 m = getOperandFlag i m" by (rule shape_flag [OF 1(3)])
  have op1: "mi_operands i1 ! m = mi_operands i ! m" using 1(4) m by simp
  note q = rename_operand_correct(1) [OF 2, of n0]
  note opU = rename_operand_correct(2) [OF 2, unfolded quietD(2) [OF 1(2)] flag op1]
  let ?i = "i1\<lparr>mi_operands := (mi_operands i1)[m := op]\<rparr>"
  have "op_kind op = op_kind (mi_operands i1 ! m)"
    using opU [OF map_le_refl] op1 by simp
  then have sh: "shape ?i = shape i1"
    using m len by (intro same_shape_update nth_equalityI) (auto simp: nth_list_update)
  have "fold rename_read_at [0..<Suc m] (i, st) = (?i, st2)" using 1(1) 2 by (simp add: rename_read_at_def)
  moreover have "mi_operands ?i ! k = read_op (name_of U (rs_varStacks st)) (getOperandFlag i k) (mi_operands i ! k)"
    if "rs_undefRegs st2 \<subseteq>\<^sub>m U" "k < Suc m" for U k
    using that opU [OF that(1)] 1(5) [OF quiet_undef [OF q that(1)]] m len by (cases "k = m") (auto simp: less_Suc_eq)
  moreover have "mi_operands ?i ! k = mi_operands i ! k" if "k < length (mi_operands i)" "Suc m \<le> k" for k
    using 1(4) that by simp
  ultimately show ?case using quiet_trans [OF 1(2) q] sh 1(3) by auto
qed auto

lemma rename_reads_correct:
  assumes "rename_reads i st = (i', st')"
  shows "quiet n0 st st'" "shape i' = shape i" "rs_undefRegs st' \<subseteq>\<^sub>m U \<Longrightarrow> i' = read_inst (name_of U (rs_varStacks st)) i"
proof -
  have e: "fold rename_read_at [0..<length (mi_operands i)] (i, st) = (i', st')" using assms by (simp add: rename_reads_def)
  obtain i2 st2 where r: "fold rename_read_at [0..<length (mi_operands i)] (i, st) = (i2, st2)" "quiet n0 st st2" "shape i2 = shape i"
    "\<forall>U. rs_undefRegs st2 \<subseteq>\<^sub>m U \<longrightarrow> (\<forall>k < length (mi_operands i). mi_operands i2 ! k =
      read_op (name_of U (rs_varStacks st)) (getOperandFlag i k) (mi_operands i ! k))"
    using rename_reads_prefix [OF order_refl, of i st n0] by blast
  have same: "i2 = i'" "st2 = st'" using e r(1) by simp_all
  show "quiet n0 st st'" "shape i' = shape i" using r(2,3) same by simp_all
  assume U: "rs_undefRegs st' \<subseteq>\<^sub>m U"
  have "mi_operands i' = map (\<lambda>k. read_op (name_of U (rs_varStacks st)) (getOperandFlag i k) (mi_operands i ! k)) [0..<length (mi_operands i)]"
    using r(4) U shape_fields(3) [OF r(3)] by (intro nth_equalityI) (auto simp: same)
  then show "i' = read_inst (name_of U (rs_varStacks st)) i"
    using shape_operands [OF r(3)] by (simp add: same read_inst_def)
qed

section \<open>Writes\<close>

text \<open>The stacks after pushes for the registers of a list.\<close>

definition pushed_on :: "(mir_id \<Rightarrow> mir_id list) \<Rightarrow> (mir_id \<Rightarrow> mir_id list) \<Rightarrow> mir_id list \<Rightarrow> bool" where
  "pushed_on S S' pushed \<longleftrightarrow> (\<forall>r. \<exists>new. S' r = new @ S r \<and> length new = count_list pushed r)"

lemma pushed_on_refl [simp, intro]: "pushed_on S S []"
  by (simp add: pushed_on_def)

lemma pushed_on_trans:
  assumes "pushed_on S S1 p1" "pushed_on S1 S2 p2"
  shows "pushed_on S S2 (p1 @ p2)"
  unfolding pushed_on_def
proof
  fix r
  obtain n1 n2 where "S1 r = n1 @ S r" "length n1 = count_list p1 r" "S2 r = n2 @ S1 r" "length n2 = count_list p2 r"
    using assms unfolding pushed_on_def by metis
  then show "\<exists>new. S2 r = new @ S r \<and> length new = count_list (p1 @ p2) r" by (intro exI [of _ "n2 @ n1"]) simp
qed

lemma pushed_on_other: "pushed_on S S' p \<Longrightarrow> r \<notin> set p \<Longrightarrow> S' r = S r"
  unfolding pushed_on_def by (metis append_Nil count_list_0_iff length_0_conv)

lemma pop_all: "rs_varStacks (fold pop_reg pushed st) r = drop (count_list pushed r) (rs_varStacks st r)"
  by (induction pushed arbitrary: st) (auto simp: pop_reg_def drop_Suc)

lemma pop_fields: "rs_nextId (fold pop_reg pushed st) = rs_nextId st" "rs_undefRegs (fold pop_reg pushed st) = rs_undefRegs st"
  "rs_insts (fold pop_reg pushed st) = rs_insts st"
  by (induction pushed arbitrary: st) (simp_all add: pop_reg_def)

lemma pushed_on_pop:
  assumes "pushed_on S (rs_varStacks st) pushed"
  shows "rs_varStacks (fold pop_reg pushed st) = S"
proof
  fix r
  obtain new where "rs_varStacks st r = new @ S r" "length new = count_list pushed r" using assms unfolding pushed_on_def by blast
  then show "rs_varStacks (fold pop_reg pushed st) r = S r" by (simp add: pop_all)
qed

text \<open>A step that pushes new definitions.\<close>

definition new_defs :: "mir_id \<Rightarrow> rename_state \<Rightarrow> rename_state \<Rightarrow> mir_id list \<Rightarrow> bool" where
  "new_defs n0 st st' pushed \<longleftrightarrow> grows_to st st' \<and> pushed_on (rs_varStacks st) (rs_varStacks st') pushed \<and>
     rs_insts st' = rs_insts st \<and> (names_ok n0 st \<longrightarrow> names_ok n0 st')"

lemma new_defsD:
  assumes "new_defs n0 st st' pushed"
  shows "grows_to st st'" "pushed_on (rs_varStacks st) (rs_varStacks st') pushed" "rs_insts st' = rs_insts st"
    "names_ok n0 st \<Longrightarrow> names_ok n0 st'"
  using assms by (simp_all add: new_defs_def)

lemma new_defs_refl [simp, intro]: "new_defs n0 st st []"
  by (simp add: new_defs_def)

lemma quiet_new_defs: "quiet n0 st st' \<Longrightarrow> new_defs n0 st st' []"
  by (simp add: new_defs_def quiet_def)

lemma new_defs_trans: "new_defs n0 a b p \<Longrightarrow> new_defs n0 b c q \<Longrightarrow> new_defs n0 a c (p @ q)"
  using grows_trans pushed_on_trans unfolding new_defs_def by metis

lemma fresh_def_correct:
  assumes "fresh_def r st = (n, st')"
  shows "new_defs n0 st st' [r]" "n = rs_nextId st" "rs_nextId st' = Suc n" "rs_varStacks st' = (rs_varStacks st)(r := n # rs_varStacks st r)"
    "rs_undefRegs st' = rs_undefRegs st"
proof -
  have s: "n = rs_nextId st" "st' = push_reg r n (st\<lparr>rs_nextId := Suc n\<rparr>)" using assms by (auto simp: fresh_def_def)
  show "n = rs_nextId st" "rs_nextId st' = Suc n" "rs_varStacks st' = (rs_varStacks st)(r := n # rs_varStacks st r)"
    "rs_undefRegs st' = rs_undefRegs st"
    by (simp_all add: s push_reg_def)
  have nm: "reg_names st' q = (if q = r then insert n (reg_names st q) else reg_names st q)" for q
    by (auto simp: reg_names_def s push_reg_def)
  have "names_ok n0 st'" if ok: "names_ok n0 st"
  proof -
    have lt: "m < n" if "m \<in> reg_names st q" for m q using ok that by (auto simp: names_ok_def s)
    have "m < Suc n \<and> (m < n0 \<longrightarrow> m = q)" if "m \<in> reg_names st' q" for m q
      using that [unfolded nm] ok less_SucI [OF lt, of m q] s(1) by (auto simp: names_ok_def split: if_splits)
    moreover have "q = q'" if "m \<in> reg_names st' q" "m \<in> reg_names st' q'" for m q q'
      using that ok lt [of m q] lt [of m q'] unfolding nm names_ok_def by (auto split: if_splits)
    moreover have "n0 \<le> n" using ok by (simp add: names_ok_def s)
    ultimately show ?thesis unfolding names_ok_def by (simp add: s push_reg_def)
  qed
  moreover have "pushed_on (rs_varStacks st) (rs_varStacks st') [r]"
    unfolding pushed_on_def by (auto simp: s push_reg_def)
  ultimately show "new_defs n0 st st' [r]"
    by (auto simp: new_defs_def grows_to_def s push_reg_def)
qed

definition pure_target :: "operand_flag \<Rightarrow> mir_operand option \<Rightarrow> mir_id option" where
  "pure_target flag op =
     (if has_write flag \<and> \<not> has_read flag then (case op of Some (OpReg (VReg r)) \<Rightarrow> Some r | _ \<Rightarrow> None) else None)"

definition pure_target_at :: "mir_inst \<Rightarrow> nat \<Rightarrow> mir_id option" where
  "pure_target_at i k = pure_target (getOperandFlag i k) (mi_operands i ! k)"

definition pure_writes :: "mir_inst \<Rightarrow> nat \<Rightarrow> mir_id list" where
  "pure_writes i m = concat (map (\<lambda>k. case pure_target_at i k of Some r \<Rightarrow> [r] | None \<Rightarrow> []) [0..<m])"

lemma pure_writes_Suc: "pure_writes i (Suc m) = pure_writes i m @ (case pure_target_at i m of Some r \<Rightarrow> [r] | None \<Rightarrow> [])"
  by (simp add: pure_writes_def)

lemma pure_writes_member: "r \<in> set (pure_writes i m) \<longleftrightarrow> (\<exists>k < m. pure_target_at i k = Some r)"
  by (force simp: pure_writes_def split: option.splits)

lemma rename_write_at_cases:
  "rename_write_at k (i, st, pushed) =
     (case pure_target_at i k of
        Some r \<Rightarrow> (let (n, st') = fresh_def r st in (i\<lparr>mi_operands := (mi_operands i)[k := Some (OpReg (VReg n))]\<rparr>, st', pushed @ [r]))
      | None \<Rightarrow> (i, st, pushed))"
  by (auto simp: rename_write_at_def pure_target_at_def pure_target_def Let_def
      split: option.splits mir_operand.splits reg_ref.splits prod.splits)

text \<open>What the writes leave in operand \<open>k\<close>.\<close>

definition written_op :: "mir_inst \<Rightarrow> (mir_id \<Rightarrow> mir_id list) \<Rightarrow> nat \<Rightarrow> mir_operand option" where
  "written_op i S k = (case pure_target_at i k of Some r \<Rightarrow> Some (OpReg (VReg (hd (S r)))) | None \<Rightarrow> mi_operands i ! k)"

lemma rename_writes_prefix:
  assumes "m \<le> length (mi_operands i)" "distinct (pure_writes i m)"
  shows "\<exists>i' st'. fold rename_write_at [0..<m] (i, st, []) = (i', st', pure_writes i m) \<and> new_defs n0 st st' (pure_writes i m) \<and>
    rs_undefRegs st' = rs_undefRegs st \<and> shape i' = shape i \<and>
    (\<forall>k < length (mi_operands i). mi_operands i' ! k = (if k < m then written_op i (rs_varStacks st') k else mi_operands i ! k)) \<and>
    (\<forall>r \<in> set (pure_writes i m). rs_nextId st \<le> hd (rs_varStacks st' r) \<and> hd (rs_varStacks st' r) < rs_nextId st' \<and>
       rs_varStacks st' r = hd (rs_varStacks st' r) # rs_varStacks st r) \<and>
    inj_on (\<lambda>r. hd (rs_varStacks st' r)) (set (pure_writes i m))"
  using assms
proof (induction m)
  case 0
  show ?case by (intro exI [of _ i] exI [of _ st]) (simp add: pure_writes_def)
next
  case (Suc m)
  have d: "distinct (pure_writes i m)" using Suc.prems(2) by (simp add: pure_writes_Suc)
  with Suc obtain i1 st1 where 1: "fold rename_write_at [0..<m] (i, st, []) = (i1, st1, pure_writes i m)" "new_defs n0 st st1 (pure_writes i m)"
    "rs_undefRegs st1 = rs_undefRegs st" "shape i1 = shape i"
    "\<forall>k < length (mi_operands i). mi_operands i1 ! k = (if k < m then written_op i (rs_varStacks st1) k else mi_operands i ! k)"
    "\<forall>r \<in> set (pure_writes i m). rs_nextId st \<le> hd (rs_varStacks st1 r) \<and> hd (rs_varStacks st1 r) < rs_nextId st1 \<and>
       rs_varStacks st1 r = hd (rs_varStacks st1 r) # rs_varStacks st r"
    "inj_on (\<lambda>r. hd (rs_varStacks st1 r)) (set (pure_writes i m))"
    by auto
  have m: "m < length (mi_operands i)" using Suc.prems by simp
  have len: "length (mi_operands i1) = length (mi_operands i)" by (rule shape_fields(3) [OF 1(4)])
  have t: "pure_target_at i1 m = pure_target_at i m"
    using 1(5) m shape_flag [OF 1(4)] by (simp add: pure_target_at_def)
  show ?case
  proof (cases "pure_target_at i m")
    case None
    have w: "written_op i (rs_varStacks st1) m = mi_operands i ! m" by (simp add: written_op_def None)
    have "fold rename_write_at [0..<Suc m] (i, st, []) = (i1, st1, pure_writes i (Suc m))"
      using 1(1) t None by (simp add: rename_write_at_cases pure_writes_Suc)
    moreover have "\<forall>k < length (mi_operands i). mi_operands i1 ! k = (if k < Suc m then written_op i (rs_varStacks st1) k else mi_operands i ! k)"
      using 1(5) w by (auto simp: less_Suc_eq)
    moreover have "pure_writes i (Suc m) = pure_writes i m" by (simp add: pure_writes_Suc None)
    ultimately show ?thesis using 1 by auto
  next
    case (Some r)
    have ps: "pure_writes i (Suc m) = pure_writes i m @ [r]" by (simp add: pure_writes_Suc Some)
    then have new: "r \<notin> set (pure_writes i m)" using Suc.prems(2) by simp
    obtain n st2 where f: "fresh_def r st1 = (n, st2)" by (cases "fresh_def r st1")
    note fd = fresh_def_correct [OF f]
    let ?i = "i1\<lparr>mi_operands := (mi_operands i1)[m := Some (OpReg (VReg n))]\<rparr>"
    have run: "fold rename_write_at [0..<Suc m] (i, st, []) = (?i, st2, pure_writes i (Suc m))"
      using 1(1) t Some f by (simp add: rename_write_at_cases ps)
    have df: "new_defs n0 st st2 (pure_writes i (Suc m))" unfolding ps by (rule new_defs_trans [OF 1(2) fd(1)])
    have "mi_operands i ! m = Some (OpReg (VReg r))"
      using Some by (auto simp: pure_target_at_def pure_target_def split: if_splits option.splits mir_operand.splits reg_ref.splits)
    then have "op_kind (mi_operands i1 ! m) = Some (OpReg (VReg 0))" using 1(5) m by (simp add: op_kind_def)
    then have sh: "shape ?i = shape i1"
      using m len by (intro same_shape_update nth_equalityI) (auto simp: nth_list_update op_kind_def)
    have S: "rs_varStacks st2 q = (if q = r then n # rs_varStacks st1 r else rs_varStacks st1 q)" for q by (simp add: fd(4))
    have old: "rs_varStacks st1 r = rs_varStacks st r" by (rule pushed_on_other [OF new_defsD(2) [OF 1(2)] new])
    have wo: "written_op i (rs_varStacks st2) k = written_op i (rs_varStacks st1) k" if "k < m" for k
    proof (cases "pure_target_at i k")
      case s: (Some q)
      then have "q \<noteq> r" using new that pure_writes_member by metis
      then show ?thesis by (simp add: written_op_def s S)
    qed (simp add: written_op_def)
    have wm: "written_op i (rs_varStacks st2) m = Some (OpReg (VReg n))" by (simp add: written_op_def Some S)
    have ops: "\<forall>k < length (mi_operands i). mi_operands ?i ! k = (if k < Suc m then written_op i (rs_varStacks st2) k else mi_operands i ! k)"
      using 1(5) wo wm m len by (auto simp: nth_list_update less_Suc_eq)
    have bound: "rs_nextId st \<le> n" using new_defsD(1) [OF 1(2)] fd(2) by (simp add: grows_to_def)
    have rng: "\<forall>q \<in> set (pure_writes i (Suc m)). rs_nextId st \<le> hd (rs_varStacks st2 q) \<and> hd (rs_varStacks st2 q) < rs_nextId st2 \<and>
       rs_varStacks st2 q = hd (rs_varStacks st2 q) # rs_varStacks st q"
      using 1(6) new bound fd(2,3) old by (auto simp: ps S)
    have "hd (rs_varStacks st1 q) < n" if "q \<in> set (pure_writes i m)" for q
      using 1(6) that fd(2) by simp
    then have "n \<notin> (\<lambda>q. hd (rs_varStacks st1 q)) ` set (pure_writes i m)" by blast
    moreover have "inj_on (\<lambda>r. hd (rs_varStacks st2 r)) (set (pure_writes i m))"
      using 1(7) new by (auto simp: inj_on_def S)
    moreover have "(\<lambda>q. hd (rs_varStacks st2 q)) ` set (pure_writes i m) = (\<lambda>q. hd (rs_varStacks st1 q)) ` set (pure_writes i m)"
      using new by (intro image_cong) (auto simp: S)
    ultimately have "inj_on (\<lambda>r. hd (rs_varStacks st2 r)) (set (pure_writes i (Suc m)))"
      using new by (simp add: ps inj_on_insert S)
    then show ?thesis using run df ops rng sh 1(3,4) fd(5) by auto
  qed
qed

section \<open>One instruction\<close>

text \<open>No two operands of the instruction write the same virtual register.\<close>

definition single_writes :: "mir_inst \<Rightarrow> bool" where
  "single_writes i \<longleftrightarrow>
     (\<forall>k < length (mi_operands i). \<forall>k' < length (mi_operands i). \<forall>r.
        has_write (getOperandFlag i k) \<and> mi_operands i ! k = Some (OpReg (VReg r)) \<and>
        has_write (getOperandFlag i k') \<and> mi_operands i ! k' = Some (OpReg (VReg r)) \<longrightarrow> k = k')"

text \<open>The registers a descriptor reads and writes implicitly are physical.\<close>

definition implicit_physical :: "mir_inst \<Rightarrow> bool" where
  "implicit_physical i \<longleftrightarrow>
     (\<forall>d r. mi_desc i = Some d \<longrightarrow> r \<in> set (td_implicitDefs d) \<union> set (td_implicitUses d) \<longrightarrow> isPhysical r)"

definition op_used :: "operand_flag \<Rightarrow> mir_operand option \<Rightarrow> reg_ref list" where
  "op_used flag op = map fst (filter (\<lambda>(r, f). has_read f) (visitOperandRegisters op flag))"

definition op_defined :: "operand_flag \<Rightarrow> mir_operand option \<Rightarrow> reg_ref list" where
  "op_defined flag op = map fst (filter (\<lambda>(r, f). has_write f) (visitOperandRegisters op flag))"

lemma used_operands:
  "getUsedRegisters i = concat (map (\<lambda>k. op_used (getOperandFlag i k) (mi_operands i ! k)) [0..<length (mi_operands i)]) @
     (case mi_desc i of Some d \<Rightarrow> td_implicitUses d | None \<Rightarrow> [])"
  by (simp add: getUsedRegisters_def explicit_registers_def op_used_def filter_concat map_concat comp_def)

lemma defined_operands:
  "getDefinedRegisters i = concat (map (\<lambda>k. op_defined (getOperandFlag i k) (mi_operands i ! k)) [0..<length (mi_operands i)]) @
     (case mi_desc i of Some d \<Rightarrow> td_implicitDefs d | None \<Rightarrow> [])"
  by (simp add: getDefinedRegisters_def explicit_registers_def op_defined_def filter_concat map_concat comp_def)

lemma op_used_simps [simp]:
  "op_used flag (Some (OpReg r)) = (if has_read flag then [r] else [])"
  "op_used flag (Some (OpMem b i)) = (case b of Some r \<Rightarrow> [r] | None \<Rightarrow> []) @ (case i of Some r \<Rightarrow> [r] | None \<Rightarrow> [])"
  "op_used flag (Some (OpRef n)) = []" "op_used flag (Some OpOther) = []" "op_used flag None = []"
  by (simp_all add: op_used_def visitOperandRegisters_def split: option.split)

lemma op_defined_simps [simp]:
  "op_defined flag (Some (OpReg r)) = (if has_write flag then [r] else [])"
  "op_defined flag (Some (OpMem b i)) = []"
  "op_defined flag (Some (OpRef n)) = []" "op_defined flag (Some OpOther) = []" "op_defined flag None = []"
  by (simp_all add: op_defined_def visitOperandRegisters_def split: option.split)

lemma op_used_read: "op_used flag (read_op N flag op) = map (name_ref N) (op_used flag op)"
proof (cases op)
  case (Some x)
  then show ?thesis by (cases x) (auto simp: read_op_def split: option.split)
qed (simp add: read_op_def)

lemma name_ref_physical: "isPhysical r \<Longrightarrow> name_ref N r = r"
  by (cases r) simp_all

lemma name_ref_not_virtual: "\<forall>n. r \<noteq> VReg n \<Longrightarrow> name_ref N r = r"
  by (cases r) simp_all

lemma implicit_map:
  assumes "implicit_physical i"
  shows "map (name_ref N) (case mi_desc i of Some d \<Rightarrow> td_implicitUses d | None \<Rightarrow> []) = (case mi_desc i of Some d \<Rightarrow> td_implicitUses d | None \<Rightarrow> [])"
    "map (name_ref N) (case mi_desc i of Some d \<Rightarrow> td_implicitDefs d | None \<Rightarrow> []) = (case mi_desc i of Some d \<Rightarrow> td_implicitDefs d | None \<Rightarrow> [])"
  using assms by (auto simp: implicit_physical_def name_ref_physical intro!: map_idI split: option.split)

lemma concat_map_upt_cong: "(\<And>k. k < n \<Longrightarrow> f k = g k) \<Longrightarrow> concat (map f [0..<n]) = concat (map g [0..<n])"
  by (intro arg_cong [of _ _ concat] map_cong) simp_all

lemma pure_writes_distinct:
  assumes "single_writes i" "m \<le> length (mi_operands i)"
  shows "distinct (pure_writes i m)"
  using assms(2)
proof (induction m)
  case (Suc m)
  have "r \<notin> set (pure_writes i m)" if r: "pure_target_at i m = Some r" for r
  proof
    assume "r \<in> set (pure_writes i m)"
    then obtain k where k: "k < m" "pure_target_at i k = Some r" by (auto simp: pure_writes_member)
    have w: "has_write (getOperandFlag i j) \<and> mi_operands i ! j = Some (OpReg (VReg r))" if "pure_target_at i j = Some r" for j
      using that by (auto simp: pure_target_at_def pure_target_def split: if_splits option.splits mir_operand.splits reg_ref.splits)
    have "k = m" using assms(1) w [OF k(2)] w [OF r] k(1) Suc.prems unfolding single_writes_def by (meson Suc_le_lessD less_trans)
    then show False using k(1) by simp
  qed
  then show ?case using Suc by (auto simp: pure_writes_Suc split: option.split)
qed (simp add: pure_writes_def)

lemma pure_target_read:
  "pure_target_at (read_inst N i) k = pure_target_at i k" if "k < length (mi_operands i)"
proof -
  have "getOperandFlag (read_inst N i) k = getOperandFlag i k" by (rule shape_flag) simp
  then show ?thesis
    using that by (auto simp: pure_target_at_def pure_target_def read_inst_def read_op_def split: option.split mir_operand.split)
qed

text \<open>The renamed instruction reads the names before it and writes the names after it.\<close>

definition rename_inst :: "mir_inst \<Rightarrow> rename_state \<Rightarrow> mir_inst \<times> rename_state \<times> mir_id list" where
  "rename_inst i st = (let (i1, st1) = rename_reads i st in rename_writes i1 st1)"

lemma rename_inst_correct:
  assumes r: "rename_inst i st = (i', st', pushed)" and sw: "single_writes i" and ip: "implicit_physical i"
  shows "new_defs n0 st st' pushed \<and> shape i' = shape i \<and>
    (\<forall>r \<in> set pushed. VReg r \<in> set (getDefinedRegisters i)) \<and>
    (\<forall>U. rs_undefRegs st' \<subseteq>\<^sub>m U \<longrightarrow>
       getUsedRegisters i' = map (name_ref (name_of U (rs_varStacks st))) (getUsedRegisters i) \<and>
       getDefinedRegisters i' = map (name_ref (name_of U (rs_varStacks st'))) (getDefinedRegisters i)) \<and>
    (\<exists>f. (\<forall>k < length (mi_operands i). \<forall>r. pure_target_at i k = Some r \<longrightarrow>
         mi_operands i' ! k = Some (OpReg (VReg (f r))) \<and> rs_nextId st \<le> f r \<and> f r < rs_nextId st') \<and>
       inj_on f (set pushed) \<and> pushed = pure_writes i (length (mi_operands i)))"
proof -
  let ?n = "length (mi_operands i)"
  obtain i1 st1 where r1: "rename_reads i st = (i1, st1)" by (cases "rename_reads i st")
  note q = rename_reads_correct(1) [OF r1, of n0] and sh1 = rename_reads_correct(2) [OF r1]
  have i1: "i1 = read_inst (name_of U (rs_varStacks st)) i" if "rs_undefRegs st1 \<subseteq>\<^sub>m U" for U
    by (rule rename_reads_correct(3) [OF r1 that])
  have len: "length (mi_operands i1) = ?n" by (rule shape_fields(3) [OF sh1])
  have pt: "pure_target_at i1 k = pure_target_at i k" if "k < ?n" for k
    using pure_target_read [OF that] i1 [OF map_le_refl] by simp
  then have pw: "pure_writes i1 ?n = pure_writes i ?n"
    unfolding pure_writes_def by (intro concat_map_upt_cong) simp
  have d: "distinct (pure_writes i1 (length (mi_operands i1)))" using pure_writes_distinct [OF sw order_refl] by (simp add: len pw)
  obtain i2 st2 where r2: "fold rename_write_at [0..<length (mi_operands i1)] (i1, st1, []) = (i2, st2, pure_writes i1 (length (mi_operands i1)))"
    "new_defs n0 st1 st2 (pure_writes i1 (length (mi_operands i1)))" "rs_undefRegs st2 = rs_undefRegs st1" "shape i2 = shape i1"
    "\<forall>k < length (mi_operands i1). mi_operands i2 ! k = (if k < length (mi_operands i1) then written_op i1 (rs_varStacks st2) k else mi_operands i1 ! k)"
    "\<forall>r \<in> set (pure_writes i1 (length (mi_operands i1))). rs_nextId st1 \<le> hd (rs_varStacks st2 r) \<and> hd (rs_varStacks st2 r) < rs_nextId st2 \<and>
       rs_varStacks st2 r = hd (rs_varStacks st2 r) # rs_varStacks st1 r"
    "inj_on (\<lambda>r. hd (rs_varStacks st2 r)) (set (pure_writes i1 (length (mi_operands i1))))"
    using rename_writes_prefix [OF order_refl d, of st1 n0] by blast
  have e: "i' = i2" "st' = st2" "pushed = pure_writes i ?n"
    using r r1 r2(1) by (simp_all add: rename_inst_def rename_writes_def len pw)
  note w = r2(2-7) [unfolded len pw]
  have ops: "mi_operands i' ! k = (case pure_target_at i k of Some r \<Rightarrow> Some (OpReg (VReg (hd (rs_varStacks st2 r)))) | None \<Rightarrow> mi_operands i1 ! k)"
    if "k < ?n" for k
    using w(4) that by (simp add: e written_op_def pt)
  have D: "new_defs n0 st st' pushed"
    using new_defs_trans [OF quiet_new_defs [OF q] w(1)] by (simp add: e)
  have sh: "shape i' = shape i" using w(3) sh1 by (simp add: e)
  have flag: "getOperandFlag i' k = getOperandFlag i k" for k by (rule shape_flag [OF sh])
  have len': "length (mi_operands i') = ?n" by (rule shape_fields(3) [OF sh])
  have desc: "mi_desc i' = mi_desc i" by (rule shape_fields(2) [OF sh])
  have target: "has_write (getOperandFlag i k) \<and> \<not> has_read (getOperandFlag i k) \<and> mi_operands i ! k = Some (OpReg (VReg r))"
    if "pure_target_at i k = Some r" for k r
    using that by (auto simp: pure_target_at_def pure_target_def split: if_splits option.splits mir_operand.splits reg_ref.splits)
  have defd: "\<forall>r \<in> set pushed. VReg r \<in> set (getDefinedRegisters i)"
  proof
    fix r assume "r \<in> set pushed"
    then obtain k where k: "k < ?n" "pure_target_at i k = Some r" by (auto simp: e pure_writes_member)
    then show "VReg r \<in> set (getDefinedRegisters i)"
      using target [OF k(2)] by (auto simp: defined_operands intro!: bexI [of _ k])
  qed
  have names: "getUsedRegisters i' = map (name_ref (name_of U (rs_varStacks st))) (getUsedRegisters i) \<and>
       getDefinedRegisters i' = map (name_ref (name_of U (rs_varStacks st'))) (getDefinedRegisters i)"
    if U: "rs_undefRegs st' \<subseteq>\<^sub>m U" for U
  proof
    let ?N = "name_of U (rs_varStacks st)" and ?N' = "name_of U (rs_varStacks st')"
    have U1: "rs_undefRegs st1 \<subseteq>\<^sub>m U" using U w(2) by (simp add: e)
    have op1: "mi_operands i1 ! k = read_op ?N (getOperandFlag i k) (mi_operands i ! k)" if "k < ?n" for k
      using that by (simp add: i1 [OF U1] read_inst_def)
    have "op_used (getOperandFlag i k) (mi_operands i' ! k) = map (name_ref ?N) (op_used (getOperandFlag i k) (mi_operands i ! k))" if k: "k < ?n" for k
    proof (cases "pure_target_at i k")
      case None
      then show ?thesis using ops [OF k] op1 [OF k] by (simp add: op_used_read)
    next
      case (Some r)
      then show ?thesis using ops [OF k] target [OF Some] by simp
    qed
    then have "concat (map (\<lambda>k. op_used (getOperandFlag i k) (mi_operands i' ! k)) [0..<?n]) =
        concat (map (\<lambda>k. map (name_ref ?N) (op_used (getOperandFlag i k) (mi_operands i ! k))) [0..<?n])"
      by (rule concat_map_upt_cong)
    then show "getUsedRegisters i' = map (name_ref ?N) (getUsedRegisters i)"
      unfolding used_operands [of i'] used_operands [of i] map_append implicit_map(1) [OF ip] flag len' desc
      by (simp add: map_concat comp_def)
    have "op_defined (getOperandFlag i k) (mi_operands i' ! k) = map (name_ref ?N') (op_defined (getOperandFlag i k) (mi_operands i ! k))" if k: "k < ?n" for k
    proof (cases "pure_target_at i k")
      case None
      show ?thesis
      proof (cases "\<exists>r. mi_operands i ! k = Some (OpReg (VReg r)) \<and> has_write (getOperandFlag i k)")
        case True
        then obtain r where op: "mi_operands i ! k = Some (OpReg (VReg r))" and hw: "has_write (getOperandFlag i k)" by blast
        then have hr: "has_read (getOperandFlag i k)" using None by (auto simp: pure_target_at_def pure_target_def split: if_splits)
        have "r \<notin> set pushed"
        proof
          assume "r \<in> set pushed"
          then obtain k' where k': "k' < ?n" "pure_target_at i k' = Some r" by (auto simp: e pure_writes_member)
          have "k' = k" using sw target [OF k'(2)] op hw k k'(1) unfolding single_writes_def by blast
          then show False using None k'(2) by simp
        qed
        then have "?N' r = ?N r" using pushed_on_other [OF new_defsD(2) [OF D]] by (intro name_of_cong)
        then show ?thesis using ops [OF k] op1 [OF k] None op hw hr by (simp add: read_op_def)
      next
        case False
        then show ?thesis
          using ops [OF k] op1 [OF k] None
          by (cases "mi_operands i ! k") (auto simp: read_op_def name_ref_not_virtual split: mir_operand.splits)
      qed
    next
      case (Some r)
      then have "r \<in> set (pure_writes i ?n)" using k pure_writes_member by metis
      then have "rs_varStacks st2 r = hd (rs_varStacks st2 r) # rs_varStacks st1 r" using w(5) by blast
      then have "?N' r = hd (rs_varStacks st2 r)" by (cases "rs_varStacks st2 r") (simp_all add: name_of_def e)
      then show ?thesis using ops [OF k] target [OF Some] Some by simp
    qed
    then have "concat (map (\<lambda>k. op_defined (getOperandFlag i k) (mi_operands i' ! k)) [0..<?n]) =
        concat (map (\<lambda>k. map (name_ref ?N') (op_defined (getOperandFlag i k) (mi_operands i ! k))) [0..<?n])"
      by (rule concat_map_upt_cong)
    then show "getDefinedRegisters i' = map (name_ref ?N') (getDefinedRegisters i)"
      unfolding defined_operands [of i'] defined_operands [of i] map_append implicit_map(2) [OF ip] flag len' desc
      by (simp add: map_concat comp_def)
  qed
  have "rs_nextId st \<le> rs_nextId st1" using quietD(1) [OF q] by (simp add: grows_to_def)
  then have "\<forall>k < ?n. \<forall>r. pure_target_at i k = Some r \<longrightarrow>
      mi_operands i' ! k = Some (OpReg (VReg (hd (rs_varStacks st2 r)))) \<and> rs_nextId st \<le> hd (rs_varStacks st2 r) \<and> hd (rs_varStacks st2 r) < rs_nextId st'"
    using ops w(5) by (force simp: e pure_writes_member)
  moreover have "inj_on (\<lambda>r. hd (rs_varStacks st2 r)) (set pushed)" using w(6) by (simp add: e)
  ultimately show ?thesis using D sh defd names e(3) by (intro conjI allI impI exI [of _ "\<lambda>r. hd (rs_varStacks st2 r)"]) blast+
qed

section \<open>Execution\<close>

text \<open>The effect of an instruction is an argument: from the instruction without its virtual register
  numbers, the values it reads in order, and everything else (memory, flags, the outputs and the
  decisions of branches), it gives the values it writes, by position, and the rest.\<close>

type_synonym ('v, 'm) inst_sem = "mir_inst \<Rightarrow> 'v list \<Rightarrow> 'm \<Rightarrow> (nat \<Rightarrow> 'v) \<times> 'm"

fun write_regs :: "reg_ref list \<Rightarrow> (nat \<Rightarrow> 'v) \<Rightarrow> nat \<Rightarrow> (reg_ref \<Rightarrow> 'v) \<Rightarrow> reg_ref \<Rightarrow> 'v" where
  "write_regs [] vals k s = s"
| "write_regs (r # rs) vals k s = write_regs rs vals (Suc k) (s(r := vals k))"

definition exec_inst :: "('v, 'm) inst_sem \<Rightarrow> mir_inst \<Rightarrow> (reg_ref \<Rightarrow> 'v) \<times> 'm \<Rightarrow> (reg_ref \<Rightarrow> 'v) \<times> 'm" where
  "exec_inst sem i c =
     (let (vals, m') = sem (shape i) (map (fst c) (getUsedRegisters i)) (snd c)
      in (write_regs (getDefinedRegisters i) vals 0 (fst c), m'))"

definition exec_insts :: "('v, 'm) inst_sem \<Rightarrow> mir_inst list \<Rightarrow> (reg_ref \<Rightarrow> 'v) \<times> 'm \<Rightarrow> (reg_ref \<Rightarrow> 'v) \<times> 'm" where
  "exec_insts sem is c = fold (exec_inst sem) is c"

text \<open>The renamed state holds the value of every register under its name.\<close>

definition same_values :: "mir_id \<Rightarrow> (mir_id \<Rightarrow> mir_id) \<Rightarrow> (reg_ref \<Rightarrow> 'v) \<Rightarrow> (reg_ref \<Rightarrow> 'v) \<Rightarrow> bool" where
  "same_values n0 N s t \<longleftrightarrow> (\<forall>r < n0. s (VReg r) = t (VReg (N r))) \<and> (\<forall>c n. s (PReg c n) = t (PReg c n))"

definition small_regs :: "mir_id \<Rightarrow> mir_inst \<Rightarrow> bool" where
  "small_regs n0 i \<longleftrightarrow> (\<forall>r. VReg r \<in> set (getUsedRegisters i) \<union> set (getDefinedRegisters i) \<longrightarrow> r < n0)"

lemma write_regs_same:
  assumes "inj_on f Q"
  shows "set rs \<subseteq> Q \<Longrightarrow> (\<And>q. q \<in> Q \<Longrightarrow> q \<notin> set rs \<Longrightarrow> s q = t (f q)) \<Longrightarrow> q \<in> Q \<Longrightarrow>
    write_regs rs vals k s q = write_regs (map f rs) vals k t (f q)"
proof (induction rs arbitrary: s t k)
  case (Cons r rs)
  have "(s(r := vals k)) p = (t(f r := vals k)) (f p)" if "p \<in> Q" "p \<notin> set rs" for p
    using Cons.prems(1,2) that assms by (cases "p = r") (auto dest: inj_onD)
  then show ?case using Cons.IH [of "s(r := vals k)" "t(f r := vals k)" "Suc k"] Cons.prems(1,3) by (simp del: fun_upd_apply)
qed simp

lemma exec_inst_same:
  assumes st: "same_values n0 N s t" and sh: "shape i' = shape i" and sm: "small_regs n0 i"
    and used: "getUsedRegisters i' = map (name_ref N) (getUsedRegisters i)"
    and defd: "getDefinedRegisters i' = map (name_ref N') (getDefinedRegisters i)"
    and inj: "inj_on N' {..<n0}" and keep: "\<And>r. VReg r \<notin> set (getDefinedRegisters i) \<Longrightarrow> N' r = N r"
  shows "snd (exec_inst sem i' (t, m)) = snd (exec_inst sem i (s, m)) \<and>
    same_values n0 N' (fst (exec_inst sem i (s, m))) (fst (exec_inst sem i' (t, m)))"
proof -
  let ?Q = "VReg ` {..<n0} \<union> {r. isPhysical r}"
  have val: "s q = t (name_ref N q)" if "q \<in> ?Q" for q
    using st that by (cases q) (auto simp: same_values_def)
  have mem: "set (getUsedRegisters i) \<subseteq> ?Q" "set (getDefinedRegisters i) \<subseteq> ?Q"
    using sm unfolding small_regs_def by (auto simp: isPhysical_def elim: isVirtual.elims)
  have u: "map t (getUsedRegisters i') = map s (getUsedRegisters i)"
    using val mem(1) unfolding used by (auto simp: subset_eq)
  obtain vals m' where e: "sem (shape i) (map s (getUsedRegisters i)) m = (vals, m')" by (cases "sem (shape i) (map s (getUsedRegisters i)) m")
  have injQ: "inj_on (name_ref N') ?Q"
  proof (rule inj_onI)
    fix p q assume "p \<in> ?Q" "q \<in> ?Q" "name_ref N' p = name_ref N' q"
    then show "p = q" using inj by (cases p; cases q) (auto dest: inj_onD)
  qed
  have k: "s q = t (name_ref N' q)" if "q \<in> ?Q" "q \<notin> set (getDefinedRegisters i)" for q
    using val [OF that(1)] keep that(2) by (cases q) auto
  have w: "write_regs (getDefinedRegisters i) vals 0 s q = write_regs (map (name_ref N') (getDefinedRegisters i)) vals 0 t (name_ref N' q)"
    if "q \<in> ?Q" for q
    by (rule write_regs_same [where f = "name_ref N'" and s = s and t = t, OF injQ mem(2) k that])
  have "same_values n0 N' (write_regs (getDefinedRegisters i) vals 0 s) (write_regs (map (name_ref N') (getDefinedRegisters i)) vals 0 t)"
    using w [of "VReg _"] w [of "PReg _ _"] by (simp add: same_values_def)
  then show ?thesis by (simp add: exec_inst_def u sh e defd)
qed

section \<open>The body of a block\<close>

text \<open>What the construction needs of an instruction of the original function.\<close>

definition inst_ok :: "mir_id \<Rightarrow> mir_inst \<Rightarrow> bool" where
  "inst_ok n0 i \<longleftrightarrow> mi_opcode i \<noteq> PHI \<and> single_writes i \<and> implicit_physical i \<and> small_regs n0 i"

lemma rename_body_Cons:
  "mi_opcode i \<noteq> PHI \<Longrightarrow> rename_inst i st = (i2, st2, p1) \<Longrightarrow> rename_body is st2 = (is', st3, p2) \<Longrightarrow>
    rename_body (i # is) st = (i2 # is', st3, p1 @ p2)"
  by (auto simp: rename_inst_def split: prod.splits)

lemma rename_body_skip: "\<forall>i \<in> set phis. mi_opcode i = PHI \<Longrightarrow>
    rename_body (phis @ is) st = (case rename_body is st of (is', st', p) \<Rightarrow> (phis @ is', st', p))"
  by (induction phis) (simp_all split: prod.split)

text \<open>The pure write of operand \<open>j\<close> of instruction \<open>k\<close>.\<close>

definition pure_slot :: "mir_inst list \<Rightarrow> nat \<Rightarrow> nat \<Rightarrow> bool" where
  "pure_slot is k j \<longleftrightarrow> k < length is \<and> j < length (mi_operands (is ! k)) \<and> pure_target_at (is ! k) j \<noteq> None"

definition slot_reg :: "mir_inst list \<Rightarrow> nat \<Rightarrow> nat \<Rightarrow> mir_id" where
  "slot_reg is k j = (case mi_operands (is ! k) ! j of Some (OpReg r) \<Rightarrow> reg_id r | _ \<Rightarrow> 0)"

lemma pure_slot_Cons [simp]:
  "pure_slot (i # is) (Suc k) j \<longleftrightarrow> pure_slot is k j" "slot_reg (i # is) (Suc k) j = slot_reg is k j"
  by (simp_all add: pure_slot_def slot_reg_def)

lemma rename_body_correct:
  assumes "\<forall>i \<in> set is. inst_ok n0 i"
  shows "\<exists>is' st' pushed. rename_body is st = (is', st', pushed) \<and> new_defs n0 st st' pushed \<and> map shape is' = map shape is \<and>
    (\<forall>r \<in> set pushed. \<exists>i \<in> set is. VReg r \<in> set (getDefinedRegisters i)) \<and>
    (\<forall>k j. pure_slot is k j \<longrightarrow> mi_operands (is' ! k) ! j = Some (OpReg (VReg (slot_reg is' k j))) \<and>
       rs_nextId st \<le> slot_reg is' k j \<and> slot_reg is' k j < rs_nextId st') \<and>
    (\<forall>k j k' j'. pure_slot is k j \<and> pure_slot is k' j' \<and> slot_reg is' k j = slot_reg is' k' j' \<longrightarrow> k = k' \<and> j = j')"
  using assms
proof (induction "is" arbitrary: st)
  case Nil
  show ?case by (auto simp: pure_slot_def)
next
  case (Cons i "is")
  have ok: "mi_opcode i \<noteq> PHI" "single_writes i" "implicit_physical i" using Cons.prems by (simp_all add: inst_ok_def)
  obtain i2 st2 p1 where r: "rename_inst i st = (i2, st2, p1)" by (cases "rename_inst i st")
  from rename_inst_correct [OF r ok(2,3), of n0]
  obtain f where I: "new_defs n0 st st2 p1" "shape i2 = shape i" "\<forall>r \<in> set p1. VReg r \<in> set (getDefinedRegisters i)"
    and F: "\<forall>k < length (mi_operands i). \<forall>r. pure_target_at i k = Some r \<longrightarrow>
         mi_operands i2 ! k = Some (OpReg (VReg (f r))) \<and> rs_nextId st \<le> f r \<and> f r < rs_nextId st2"
    and inj: "inj_on f (set p1)" and p1: "p1 = pure_writes i (length (mi_operands i))"
    by (elim conjE exE) (rule that)
  have "\<forall>i \<in> set is. inst_ok n0 i" using Cons.prems by simp
  from Cons.IH [OF this, of st2] obtain is' st' p2 where B: "rename_body is st2 = (is', st', p2)" "new_defs n0 st2 st' p2" "map shape is' = map shape is"
    "\<forall>r \<in> set p2. \<exists>i \<in> set is. VReg r \<in> set (getDefinedRegisters i)"
    "\<forall>k j. pure_slot is k j \<longrightarrow> mi_operands (is' ! k) ! j = Some (OpReg (VReg (slot_reg is' k j))) \<and>
       rs_nextId st2 \<le> slot_reg is' k j \<and> slot_reg is' k j < rs_nextId st'"
    "\<forall>k j k' j'. pure_slot is k j \<and> pure_slot is k' j' \<and> slot_reg is' k j = slot_reg is' k' j' \<longrightarrow> k = k' \<and> j = j'"
    by (elim conjE exE) (rule that)
  have le: "rs_nextId st \<le> rs_nextId st2" "rs_nextId st2 \<le> rs_nextId st'"
    using new_defsD(1) [OF I(1)] new_defsD(1) [OF B(2)] by (simp_all add: grows_to_def)
  have here: "mi_operands i2 ! j = Some (OpReg (VReg (slot_reg (i2 # is') 0 j)))" "rs_nextId st \<le> slot_reg (i2 # is') 0 j"
    "slot_reg (i2 # is') 0 j < rs_nextId st2" if s: "pure_slot (i # is) 0 j" for j
  proof -
    obtain q where q: "j < length (mi_operands i)" "pure_target_at i j = Some q" using s by (auto simp: pure_slot_def)
    from F q have "mi_operands i2 ! j = Some (OpReg (VReg (f q)))" "rs_nextId st \<le> f q" "f q < rs_nextId st2" by blast+
    then show "mi_operands i2 ! j = Some (OpReg (VReg (slot_reg (i2 # is') 0 j)))" "rs_nextId st \<le> slot_reg (i2 # is') 0 j"
      "slot_reg (i2 # is') 0 j < rs_nextId st2" by (simp_all add: slot_reg_def)
  qed
  have same_inst: "j = j'" if s: "pure_slot (i # is) 0 j" "pure_slot (i # is) 0 j'" "slot_reg (i2 # is') 0 j = slot_reg (i2 # is') 0 j'" for j j'
  proof -
    obtain q q' where q: "j < length (mi_operands i)" "pure_target_at i j = Some q" "j' < length (mi_operands i)" "pure_target_at i j' = Some q'"
      using s(1,2) by (auto simp: pure_slot_def)
    have "f q = f q'" using F q s(3) by (simp add: slot_reg_def)
    moreover have "q \<in> set p1" "q' \<in> set p1" using q pure_writes_member p1 by metis+
    ultimately have "q = q'" using inj by (auto dest: inj_onD)
    moreover have "has_write (getOperandFlag i k) \<and> mi_operands i ! k = Some (OpReg (VReg r))" if "pure_target_at i k = Some r" for k r
      using that by (auto simp: pure_target_at_def pure_target_def split: if_splits option.splits mir_operand.splits reg_ref.splits)
    ultimately show "j = j'" using ok(2) q unfolding single_writes_def by metis
  qed
  have slots: "mi_operands ((i2 # is') ! k) ! j = Some (OpReg (VReg (slot_reg (i2 # is') k j))) \<and>
       rs_nextId st \<le> slot_reg (i2 # is') k j \<and> slot_reg (i2 # is') k j < rs_nextId st'" if "pure_slot (i # is) k j" for k j
  proof (cases k)
    case 0
    then show ?thesis using here [of j] that le by simp
  next
    case (Suc a)
    have "rs_nextId st2 \<le> slot_reg is' a j \<and> mi_operands (is' ! a) ! j = Some (OpReg (VReg (slot_reg is' a j))) \<and> slot_reg is' a j < rs_nextId st'"
      using B(5) that Suc by simp
    then show ?thesis using le Suc by simp
  qed
  have uniq: "k = k' \<and> j = j'"
    if s: "pure_slot (i # is) k j" "pure_slot (i # is) k' j'" "slot_reg (i2 # is') k j = slot_reg (i2 # is') k' j'" for k j k' j'
  proof (cases k; cases k')
    fix a b assume k: "k = Suc a" "k' = Suc b"
    have "pure_slot is a j" "pure_slot is b j'" "slot_reg is' a j = slot_reg is' b j'" using s unfolding k pure_slot_Cons by blast+
    then have "a = b \<and> j = j'" using B(6) by blast
    then show ?thesis by (simp add: k)
  next
    fix b assume k: "k = 0" "k' = Suc b"
    have "pure_slot is b j'" using s(2) unfolding k pure_slot_Cons .
    then have "rs_nextId st2 \<le> slot_reg is' b j'" using B(5) by blast
    then show ?thesis using here(3) [OF s(1) [unfolded k(1)]] s(3) unfolding k pure_slot_Cons by linarith
  next
    fix a assume k: "k = Suc a" "k' = 0"
    have "pure_slot is a j" using s(1) unfolding k pure_slot_Cons .
    then have "rs_nextId st2 \<le> slot_reg is' a j" using B(5) by blast
    then show ?thesis using here(3) [OF s(2) [unfolded k(2)]] s(3) unfolding k pure_slot_Cons by linarith
  next
    assume "k = 0" "k' = 0"
    then show ?thesis using same_inst s by simp
  qed
  have run: "rename_body (i # is) st = (i2 # is', st', p1 @ p2)" by (rule rename_body_Cons [OF ok(1) r B(1)])
  have nd: "new_defs n0 st st' (p1 @ p2)" by (rule new_defs_trans [OF I(1) B(2)])
  have shp: "map shape (i2 # is') = map shape (i # is)" using I(2) B(3) by simp
  have dd: "\<forall>r \<in> set (p1 @ p2). \<exists>j \<in> set (i # is). VReg r \<in> set (getDefinedRegisters j)" using I(3) B(4) by auto
  have S: "\<forall>k j. pure_slot (i # is) k j \<longrightarrow> mi_operands ((i2 # is') ! k) ! j = Some (OpReg (VReg (slot_reg (i2 # is') k j))) \<and>
       rs_nextId st \<le> slot_reg (i2 # is') k j \<and> slot_reg (i2 # is') k j < rs_nextId st'"
    by (intro allI impI) (rule slots)
  have Q: "\<forall>k j k' j'. pure_slot (i # is) k j \<and> pure_slot (i # is) k' j' \<and> slot_reg (i2 # is') k j = slot_reg (i2 # is') k' j' \<longrightarrow> k = k' \<and> j = j'"
    by (intro allI impI, elim conjE) (rule uniq)
  show ?case by (intro exI conjI) (rule run nd shp dd S Q)+
qed

lemma rename_body_sim:
  fixes sem :: "('v, 'm) inst_sem"
  assumes "\<forall>i \<in> set is. inst_ok n0 i"
  shows "rename_body is st = (is', st', pushed) \<Longrightarrow> names_ok n0 st \<Longrightarrow> later_undef st' U \<Longrightarrow>
    same_values n0 (name_of U (rs_varStacks st)) s t \<Longrightarrow>
    snd (exec_insts sem is' (t, m)) = snd (exec_insts sem is (s, m)) \<and>
    same_values n0 (name_of U (rs_varStacks st')) (fst (exec_insts sem is (s, m))) (fst (exec_insts sem is' (t, m)))"
  using assms
proof (induction "is" arbitrary: st is' pushed s t m)
  case Nil
  then show ?case by (auto simp: exec_insts_def)
next
  case (Cons i "is")
  have ok: "mi_opcode i \<noteq> PHI" "single_writes i" "implicit_physical i" "small_regs n0 i"
    and oks: "\<forall>i \<in> set is. inst_ok n0 i" using Cons.prems(5) by (simp_all add: inst_ok_def)
  obtain i2 st2 p1 where r: "rename_inst i st = (i2, st2, p1)" by (cases "rename_inst i st")
  obtain is2 st3 p2 where b: "rename_body is st2 = (is2, st3, p2)" by (cases "rename_body is st2")
  have e: "is' = i2 # is2" "st3 = st'" using Cons.prems(1) rename_body_Cons [OF ok(1) r b] by simp_all
  note I = rename_inst_correct [OF r ok(2,3), of n0]
  have nd: "new_defs n0 st st2 p1" and sh: "shape i2 = shape i" and p1: "\<forall>r \<in> set p1. VReg r \<in> set (getDefinedRegisters i)"
    using I by blast+
  obtain is3 st4 p3 where "rename_body is st2 = (is3, st4, p3)" "new_defs n0 st2 st4 p3"
    using rename_body_correct [OF oks, of st2] by (elim exE conjE) (rule that)
  then have g2: "grows_to st2 st'" using b e(2) by (simp add: new_defs_def)
  have l2: "later_undef st2 U" by (rule later_undef_grows [OF g2 Cons.prems(3)])
  then have "rs_undefRegs st2 \<subseteq>\<^sub>m U" by (simp add: later_undef_def)
  then have nm: "getUsedRegisters i2 = map (name_ref (name_of U (rs_varStacks st))) (getUsedRegisters i)"
    "getDefinedRegisters i2 = map (name_ref (name_of U (rs_varStacks st2))) (getDefinedRegisters i)"
    using I by blast+
  have n2: "names_ok n0 st2" by (rule new_defsD(4) [OF nd Cons.prems(2)])
  have keep: "name_of U (rs_varStacks st2) r = name_of U (rs_varStacks st) r" if "VReg r \<notin> set (getDefinedRegisters i)" for r
    using pushed_on_other [OF new_defsD(2) [OF nd], of r] p1 that by (intro name_of_cong) blast
  note step = exec_inst_same [OF Cons.prems(4) sh ok(4) nm name_of_inj [OF n2 l2] keep, of sem m]
  obtain s1 m1 where s1: "exec_inst sem i (s, m) = (s1, m1)" by (cases "exec_inst sem i (s, m)")
  obtain t1 m2 where t1: "exec_inst sem i2 (t, m) = (t1, m2)" by (cases "exec_inst sem i2 (t, m)")
  have m: "m2 = m1" and sv: "same_values n0 (name_of U (rs_varStacks st2)) s1 t1" using step by (simp_all add: s1 t1)
  have "rename_body is st2 = (is2, st', p2)" using b e(2) by simp
  from Cons.IH [OF this n2 Cons.prems(3) sv oks, of m1] show ?case
    by (simp add: exec_insts_def e(1) s1 t1 m)
qed

end
