(* ===== verification/SsaVisit.thy ===== *)
theory SsaVisit
  imports SsaSteps
begin

text \<open>
  The visit of one block by the renaming walk: what it does to the stacks, which operands of which
  blocks it changes, and what it writes there.
\<close>

section \<open>Steps that change stacks and names only\<close>

definition moves :: "mir_id \<Rightarrow> rename_state \<Rightarrow> rename_state \<Rightarrow> mir_id list \<Rightarrow> bool" where
  "moves n0 st st' pushed \<longleftrightarrow> grows_to st st' \<and> pushed_on (rs_varStacks st) (rs_varStacks st') pushed \<and>
     (names_ok n0 st \<longrightarrow> names_ok n0 st')"

lemma movesD:
  assumes "moves n0 st st' pushed"
  shows "grows_to st st'" "pushed_on (rs_varStacks st) (rs_varStacks st') pushed" "names_ok n0 st \<Longrightarrow> names_ok n0 st'"
  using assms by (simp_all add: moves_def)

lemma moves_refl [simp, intro]: "moves n0 st st []"
  by (simp add: moves_def)

lemma moves_trans: "moves n0 a b p \<Longrightarrow> moves n0 b c q \<Longrightarrow> moves n0 a c (p @ q)"
  using grows_trans pushed_on_trans unfolding moves_def by metis

lemma new_defs_moves: "new_defs n0 st st' p \<Longrightarrow> moves n0 st st' p"
  by (simp add: new_defs_def moves_def)

lemma reg_names_insts [simp]: "reg_names (st\<lparr>rs_insts := I\<rparr>) = reg_names st"
  by (simp add: reg_names_def fun_eq_iff)

lemma names_ok_insts [simp]: "names_ok n0 (st\<lparr>rs_insts := I\<rparr>) \<longleftrightarrow> names_ok n0 st"
  by (simp add: names_ok_def)

lemma grows_insts [simp]: "grows_to (st\<lparr>rs_insts := I\<rparr>) st' \<longleftrightarrow> grows_to st st'" "grows_to st (st'\<lparr>rs_insts := I\<rparr>) \<longleftrightarrow> grows_to st st'"
  by (simp_all add: grows_to_def)

lemma moves_insts [simp]: "moves n0 (st\<lparr>rs_insts := I\<rparr>) st' p \<longleftrightarrow> moves n0 st st' p" "moves n0 st (st'\<lparr>rs_insts := I\<rparr>) p \<longleftrightarrow> moves n0 st st' p"
  by (simp_all add: moves_def)

section \<open>The phis of a block\<close>

text \<open>\<open>R b\<close> lists the registers of the phis of block \<open>b\<close>, which come first in the block.\<close>

definition phi_shaped :: "(mir_id \<Rightarrow> mir_id list) \<Rightarrow> code_flow_result \<Rightarrow> (mir_id \<Rightarrow> mir_inst list) \<Rightarrow> bool" where
  "phi_shaped R cfg insts \<longleftrightarrow>
     (\<forall>b. length (R b) \<le> length (insts b) \<and> distinct (R b) \<and>
        (\<forall>k < length (insts b). mi_opcode (insts b ! k) = PHI \<longleftrightarrow> k < length (R b)) \<and>
        (\<forall>k < length (R b). map op_kind (mi_operands (insts b ! k)) =
           replicate (Suc (length (getPredecessors cfg b))) (Some (OpReg (VReg 0)))))"

lemma phi_kinds:
  assumes "map op_kind (mi_operands i) = replicate (Suc n) (Some (OpReg (VReg 0)))"
  shows "virtual_dst i \<noteq> None" "length (mi_operands i) = Suc n"
    "j \<le> n \<Longrightarrow> op_kind (mi_operands i ! j) = Some (OpReg (VReg 0))"
proof -
  show l: "length (mi_operands i) = Suc n" using arg_cong [OF assms, of length] by simp
  show "op_kind (mi_operands i ! j) = Some (OpReg (VReg 0))" if "j \<le> n" for j
    using arg_cong [OF assms, of "\<lambda>xs. xs ! j"] that l by (simp del: replicate_Suc)
  from this [of 0] l show "virtual_dst i \<noteq> None"
    by (cases "mi_operands i")
      (auto simp: virtual_dst_def op_kind_def split: option.splits mir_operand.splits reg_ref.splits elim: ref_kind.elims)
qed

lemma phi_shaped_cong:
  assumes "phi_shaped R cfg insts" "\<And>b. map shape (insts' b) = map shape (insts b)"
  shows "phi_shaped R cfg insts'"
proof -
  have l: "length (insts' b) = length (insts b)" for b using arg_cong [OF assms(2), of length b] by simp
  have s: "shape (insts' b ! k) = shape (insts b ! k)" if "k < length (insts b)" for b k
    using arg_cong [OF assms(2), of "\<lambda>xs. xs ! k" b] that l [of b] by simp
  show ?thesis
    unfolding phi_shaped_def
  proof (intro allI conjI impI)
    fix b
    note p = assms(1) [unfolded phi_shaped_def, rule_format, of b]
    show "length (R b) \<le> length (insts' b)" "distinct (R b)" using p l by simp_all
    show "mi_opcode (insts' b ! k) = PHI \<longleftrightarrow> k < length (R b)" if "k < length (insts' b)" for k
      using p l that shape_fields(1) [OF s] by simp
    show "map op_kind (mi_operands (insts' b ! k)) = replicate (Suc (length (getPredecessors cfg b))) (Some (OpReg (VReg 0)))"
      if "k < length (R b)" for k
      using p that shape_fields(4) [OF s, of k b] by simp
  qed
qed

lemma rename_phis_correct:
  assumes "length rs = length phis" "\<forall>i \<in> set phis. mi_opcode i = PHI \<and> virtual_dst i \<noteq> None"
    "rest = [] \<or> mi_opcode (hd rest) \<noteq> PHI" "\<forall>j < length rs. orig (k + j) = Some (rs ! j)" "distinct rs"
  shows "\<exists>phis' st'. rename_phis orig k (phis @ rest) st = (phis' @ rest, st', rs) \<and> new_defs n0 st st' rs \<and>
    length phis' = length phis \<and>
    (\<forall>j < length phis. phis' ! j = (phis ! j)\<lparr>mi_operands := (mi_operands (phis ! j))[0 := Some (OpReg (VReg (hd (rs_varStacks st' (rs ! j)))))]\<rparr>) \<and>
    (\<forall>r \<in> set rs. rs_varStacks st' r \<noteq> [] \<and> rs_nextId st \<le> hd (rs_varStacks st' r) \<and> hd (rs_varStacks st' r) < rs_nextId st') \<and>
    inj_on (\<lambda>r. hd (rs_varStacks st' r)) (set rs)"
  using assms
proof (induction phis arbitrary: rs k st)
  case Nil
  then have "rename_phis orig k rest st = (rest, st, [])" by (cases rest) auto
  then show ?case using Nil by (intro exI [of _ "[]"] exI [of _ st]) simp
next
  case (Cons i phis)
  then obtain r rs1 where rs: "rs = r # rs1" by (cases rs) auto
  have o: "orig k = Some r" using Cons.prems(4) by (auto simp: rs)
  have o1: "\<forall>j < length rs1. orig (Suc k + j) = Some (rs1 ! j)" using Cons.prems(4) by (force simp: rs)
  have new: "r \<notin> set rs1" "distinct rs1" using Cons.prems(5) by (simp_all add: rs)
  obtain n st1 where f: "fresh_def r st = (n, st1)" by (cases "fresh_def r st")
  note fd = fresh_def_correct [OF f]
  have l1: "length rs1 = length phis" and p1: "\<forall>i \<in> set phis. mi_opcode i = PHI \<and> virtual_dst i \<noteq> None" using Cons.prems(1,2) by (simp_all add: rs)
  from Cons.IH [OF l1 p1 Cons.prems(3) o1 new(2), of st1] obtain phis' st' where
    I: "rename_phis orig (Suc k) (phis @ rest) st1 = (phis' @ rest, st', rs1)" "new_defs n0 st1 st' rs1" "length phis' = length phis"
    "\<forall>j < length phis. phis' ! j = (phis ! j)\<lparr>mi_operands := (mi_operands (phis ! j))[0 := Some (OpReg (VReg (hd (rs_varStacks st' (rs1 ! j)))))]\<rparr>"
    "\<forall>r \<in> set rs1. rs_varStacks st' r \<noteq> [] \<and> rs_nextId st1 \<le> hd (rs_varStacks st' r) \<and> hd (rs_varStacks st' r) < rs_nextId st'"
    "inj_on (\<lambda>r. hd (rs_varStacks st' r)) (set rs1)"
    by (elim exE conjE) (rule that)
  have S: "rs_varStacks st' r = n # rs_varStacks st r" using pushed_on_other [OF new_defsD(2) [OF I(2)] new(1)] by (simp add: fd(4))
  let ?i = "i\<lparr>mi_operands := (mi_operands i)[0 := Some (OpReg (VReg n))]\<rparr>"
  obtain v where "virtual_dst i = Some v" "mi_opcode i = PHI" using Cons.prems(2) by auto
  then have run: "rename_phis orig k ((i # phis) @ rest) st = ((?i # phis') @ rest, st', rs)"
    using o f I(1) by (simp add: rs)
  have nd: "new_defs n0 st st' rs" using new_defs_trans [OF fd(1) I(2)] by (simp add: rs)
  have le: "rs_nextId st1 \<le> rs_nextId st'" using new_defsD(1) [OF I(2)] by (simp add: grows_to_def)
  have rng: "\<forall>q \<in> set rs. rs_varStacks st' q \<noteq> [] \<and> rs_nextId st \<le> hd (rs_varStacks st' q) \<and> hd (rs_varStacks st' q) < rs_nextId st'"
    using I(5) le S fd(2,3) by (auto simp: rs)
  have "n \<notin> (\<lambda>q. hd (rs_varStacks st' q)) ` set rs1" using I(5) fd(3) by auto
  then have inj: "inj_on (\<lambda>r. hd (rs_varStacks st' r)) (set rs)" using I(6) new(1) S by (simp add: rs inj_on_insert)
  have ops: "\<forall>j < length (i # phis). (?i # phis') ! j =
      ((i # phis) ! j)\<lparr>mi_operands := (mi_operands ((i # phis) ! j))[0 := Some (OpReg (VReg (hd (rs_varStacks st' (rs ! j)))))]\<rparr>"
    using I(4) S by (auto simp: rs nth_Cons split: nat.split)
  show ?case using run nd I(3) ops rng inj by (intro exI [of _ "?i # phis'"] exI [of _ st'] conjI) simp_all
qed

lemma fill_phis_correct:
  assumes "length rs = length phis" "\<forall>i \<in> set phis. mi_opcode i = PHI \<and> 1 + pi < length (mi_operands i)"
    "rest = [] \<or> mi_opcode (hd rest) \<noteq> PHI" "\<forall>j < length rs. orig (k + j) = Some (rs ! j)"
  shows "\<exists>phis' st'. fill_phis orig pi k (phis @ rest) st = (phis' @ rest, st') \<and> quiet n0 st st' \<and> length phis' = length phis \<and>
    (\<forall>j < length phis. \<exists>n. phis' ! j = (phis ! j)\<lparr>mi_operands := (mi_operands (phis ! j))[Suc pi := Some (OpReg (VReg n))]\<rparr> \<and>
      (\<forall>U. rs_undefRegs st' \<subseteq>\<^sub>m U \<longrightarrow> n = name_of U (rs_varStacks st) (rs ! j)))"
  using assms
proof (induction phis arbitrary: rs k st)
  case Nil
  then have "fill_phis orig pi k rest st = (rest, st)" by (cases rest) auto
  then show ?case using Nil by (intro exI [of _ "[]"] exI [of _ st]) simp
next
  case (Cons i phis)
  then obtain r rs1 where rs: "rs = r # rs1" by (cases rs) auto
  have o: "orig k = Some r" using Cons.prems(4) by (auto simp: rs)
  have o1: "\<forall>j < length rs1. orig (Suc k + j) = Some (rs1 ! j)" using Cons.prems(4) by (force simp: rs)
  obtain n st1 where f: "reaching_def r st = (n, st1)" by (cases "reaching_def r st")
  note fd = reaching_def_correct(1) [OF f, of n0] reaching_def_correct(2) [OF f]
  have l1: "length rs1 = length phis" and p1: "\<forall>i \<in> set phis. mi_opcode i = PHI \<and> 1 + pi < length (mi_operands i)" using Cons.prems(1,2) by (simp_all add: rs)
  from Cons.IH [OF l1 p1 Cons.prems(3) o1, of st1] obtain phis' st' where
    I: "fill_phis orig pi (Suc k) (phis @ rest) st1 = (phis' @ rest, st')" "quiet n0 st1 st'" "length phis' = length phis"
    "\<forall>j < length phis. \<exists>n. phis' ! j = (phis ! j)\<lparr>mi_operands := (mi_operands (phis ! j))[Suc pi := Some (OpReg (VReg n))]\<rparr> \<and>
      (\<forall>U. rs_undefRegs st' \<subseteq>\<^sub>m U \<longrightarrow> n = name_of U (rs_varStacks st1) (rs1 ! j))"
    by (elim exE conjE) (rule that)
  let ?i = "i\<lparr>mi_operands := (mi_operands i)[Suc pi := Some (OpReg (VReg n))]\<rparr>"
  have run: "fill_phis orig pi k ((i # phis) @ rest) st = ((?i # phis') @ rest, st')"
    using Cons.prems(2) o f I(1) by simp
  have S: "rs_varStacks st1 = rs_varStacks st" by (rule quietD(2) [OF fd(1)])
  have "\<exists>n. (?i # phis') ! j = ((i # phis) ! j)\<lparr>mi_operands := (mi_operands ((i # phis) ! j))[Suc pi := Some (OpReg (VReg n))]\<rparr> \<and>
      (\<forall>U. rs_undefRegs st' \<subseteq>\<^sub>m U \<longrightarrow> n = name_of U (rs_varStacks st) (rs ! j))" if "j < length (i # phis)" for j
  proof (cases j)
    case 0
    then show ?thesis using fd(2) quiet_undef [OF I(2)] by (intro exI [of _ n]) (simp add: rs)
  next
    case (Suc a)
    then show ?thesis using I(4) that S by (simp add: rs)
  qed
  then show ?case using run quiet_trans [OF fd(1) I(2)] I(3) by (intro exI [of _ "?i # phis'"] exI [of _ st'] conjI) simp_all
qed

section \<open>Filling the phis of the successors\<close>

definition opat :: "(mir_id \<Rightarrow> mir_inst list) \<Rightarrow> mir_id \<Rightarrow> nat \<Rightarrow> nat \<Rightarrow> mir_operand option" where
  "opat insts b k j = mi_operands (insts b ! k) ! j"

lemma opat_update_other: "b \<noteq> b' \<Longrightarrow> opat (insts(b := is)) b' k j = opat insts b' k j"
  by (simp add: opat_def)

text \<open>The context fits the phis: \<open>phiOriginalReg\<close> knows their registers.\<close>

definition ctx_fits :: "(mir_id \<Rightarrow> mir_id list) \<Rightarrow> rename_ctx \<Rightarrow> bool" where
  "ctx_fits R c \<longleftrightarrow> cfr_wf (rc_cfg c) \<and> (\<forall>b. \<forall>k < length (R b). rc_phiOriginalReg c b k = Some (R b ! k)) \<and>
     (\<forall>p s. reachable (flow_edge (rc_cfg c)) (rc_entry c) p \<longrightarrow> flow_edge (rc_cfg c) p s \<longrightarrow> rc_isBlock c s)"

lemma pred_index_less: "b \<in> set preds \<Longrightarrow> pred_index preds b < length preds"
  by (induction preds) (auto simp: pred_index_def)

lemma nth_pred_index: "b \<in> set preds \<Longrightarrow> preds ! pred_index preds b = b"
  by (induction preds) (auto simp: pred_index_def)

lemma moves_nil: "moves n0 st st' [] \<Longrightarrow> rs_varStacks st' = rs_varStacks st"
  using pushed_on_other by (auto simp: moves_def fun_eq_iff)

lemma same_shape_nth: "map shape xs = map shape ys \<Longrightarrow> k < length ys \<Longrightarrow> shape (xs ! k) = shape (ys ! k)"
  by (metis length_map nth_map)

text \<open>The operand slot of a phi for one predecessor.\<close>

abbreviation pred_slot :: "rename_ctx \<Rightarrow> mir_id \<Rightarrow> mir_id \<Rightarrow> nat" where
  "pred_slot c p s \<equiv> Suc (pred_index (getPredecessors (rc_cfg c) s) p)"

lemma phi_split:
  assumes "phi_shaped R cfg insts"
  shows "length (R b) = length (take (length (R b)) (insts b))"
    "\<forall>i \<in> set (take (length (R b)) (insts b)). mi_opcode i = PHI \<and> virtual_dst i \<noteq> None \<and>
       length (mi_operands i) = Suc (length (getPredecessors cfg b))"
    "\<forall>i \<in> set (drop (length (R b)) (insts b)). mi_opcode i \<noteq> PHI"
    "distinct (R b)" "length (R b) \<le> length (insts b)"
    "k < length (R b) \<Longrightarrow> j \<le> length (getPredecessors cfg b) \<Longrightarrow> op_kind (mi_operands (insts b ! k) ! j) = Some (OpReg (VReg 0))"
    "k < length (R b) \<Longrightarrow> length (mi_operands (insts b ! k)) = Suc (length (getPredecessors cfg b))"
proof -
  note p = assms(1) [unfolded phi_shaped_def, rule_format, of b]
  show "length (R b) = length (take (length (R b)) (insts b))" "distinct (R b)" "length (R b) \<le> length (insts b)" using p by simp_all
  have "mi_opcode (insts b ! k) = PHI \<and> virtual_dst (insts b ! k) \<noteq> None \<and>
       length (mi_operands (insts b ! k)) = Suc (length (getPredecessors cfg b))" if "k < length (R b)" for k
    using p that phi_kinds [of "insts b ! k"] by simp
  then show "\<forall>i \<in> set (take (length (R b)) (insts b)). mi_opcode i = PHI \<and> virtual_dst i \<noteq> None \<and>
       length (mi_operands i) = Suc (length (getPredecessors cfg b))" "k < length (R b) \<Longrightarrow> length (mi_operands (insts b ! k)) = Suc (length (getPredecessors cfg b))"
    using p by (auto simp: in_set_conv_nth)
  show "\<forall>i \<in> set (drop (length (R b)) (insts b)). mi_opcode i \<noteq> PHI"
    using p by (auto simp: in_set_conv_nth)
  show "op_kind (mi_operands (insts b ! k) ! j) = Some (OpReg (VReg 0))" if "k < length (R b)" "j \<le> length (getPredecessors cfg b)"
    using p that phi_kinds(3) by blast
qed

lemma map_shape_eqI:
  "length xs = length ys \<Longrightarrow> (\<And>k. k < length ys \<Longrightarrow> shape (xs ! k) = shape (ys ! k)) \<Longrightarrow> map shape xs = map shape ys"
  by (intro nth_equalityI) simp_all

lemma shape_set_operand:
  "op_kind op = op_kind (mi_operands i ! j) \<Longrightarrow> j < length (mi_operands i) \<Longrightarrow>
    shape (i\<lparr>mi_operands := (mi_operands i)[j := op]\<rparr>) = shape i"
  by (intro same_shape_update nth_equalityI) (auto simp: nth_list_update)

lemma fill_succ_correct:
  assumes sh: "phi_shaped R (rc_cfg c) (rs_insts st)" and fit: "ctx_fits R c"
    and rp: "reachable (flow_edge (rc_cfg c)) (rc_entry c) p" and e: "flow_edge (rc_cfg c) p s"
  shows "moves n0 st (fill_succ c p s st) [] \<and> (\<forall>b. map shape (rs_insts (fill_succ c p s st) b) = map shape (rs_insts st b)) \<and>
    (\<forall>b k j. \<not> (b = s \<and> k < length (R s) \<and> j = pred_slot c p s) \<longrightarrow> k < length (rs_insts st b) \<longrightarrow>
       opat (rs_insts (fill_succ c p s st)) b k j = opat (rs_insts st) b k j) \<and>
    (\<forall>k < length (R s). \<forall>U. rs_undefRegs (fill_succ c p s st) \<subseteq>\<^sub>m U \<longrightarrow>
       opat (rs_insts (fill_succ c p s st)) s k (pred_slot c p s) = Some (OpReg (VReg (name_of U (rs_varStacks st) (R s ! k)))))"
proof -
  let ?preds = "getPredecessors (rc_cfg c) s" and ?phis = "take (length (R s)) (rs_insts st s)" and ?rest = "drop (length (R s)) (rs_insts st s)"
  note split = phi_split [OF sh, where b = s]
  have blk: "rc_isBlock c s" and o: "\<forall>j < length (R s). rc_phiOriginalReg c s (0 + j) = Some (R s ! j)"
    using fit rp e by (auto simp: ctx_fits_def)
  have "p \<in> set ?preds" using fit e cfr_wfD(4) [of "rc_cfg c" s p] by (auto simp: ctx_fits_def flow_edge_def)
  then have lt: "pred_index ?preds p < length ?preds" by (rule pred_index_less)
  have ph': "\<forall>i \<in> set ?phis. mi_opcode i = PHI \<and> 1 + pred_index ?preds p < length (mi_operands i)" using split(2) lt by simp
  have re': "?rest = [] \<or> mi_opcode (hd ?rest) \<noteq> PHI" using split(3) hd_in_set by blast
  obtain phis' st1 where f: "fill_phis (rc_phiOriginalReg c s) (pred_index ?preds p) 0 (?phis @ ?rest) st = (phis' @ ?rest, st1)"
    "quiet n0 st st1" "length phis' = length ?phis"
    "\<forall>j < length ?phis. \<exists>n. phis' ! j = (?phis ! j)\<lparr>mi_operands := (mi_operands (?phis ! j))[pred_slot c p s := Some (OpReg (VReg n))]\<rparr> \<and>
      (\<forall>U. rs_undefRegs st1 \<subseteq>\<^sub>m U \<longrightarrow> n = name_of U (rs_varStacks st) (R s ! j))"
    using fill_phis_correct [where rest = ?rest, OF split(1) ph' re' o, of st n0] by (elim exE conjE) (rule that)
  have run: "fill_succ c p s st = st1\<lparr>rs_insts := (rs_insts st1)(s := phis' @ ?rest)\<rparr>"
    using blk lt f(1) by (simp add: fill_succ_def)
  have I: "rs_insts (fill_succ c p s st) = (rs_insts st)(s := phis' @ ?rest)" using quietD(3) [OF f(2)] by (simp add: run)
  have mv: "moves n0 st (fill_succ c p s st) []" using quiet_new_defs [OF f(2)] by (simp add: new_defs_moves run)
  have phi: "\<exists>n. phis' ! k = (rs_insts st s ! k)\<lparr>mi_operands := (mi_operands (rs_insts st s ! k))[pred_slot c p s := Some (OpReg (VReg n))]\<rparr> \<and>
      (\<forall>U. rs_undefRegs st1 \<subseteq>\<^sub>m U \<longrightarrow> n = name_of U (rs_varStacks st) (R s ! k))" if "k < length (R s)" for k
    using f(4) split(1) that by simp
  have slot: "pred_slot c p s < length (mi_operands (rs_insts st s ! k))" if "k < length (R s)" for k
    using split(7) that lt by simp
  have l: "length (phis' @ ?rest) = length (rs_insts st s)" using f(3) split(5) by simp
  have lp: "length phis' = length (R s)" using f(3) split(1) by simp
  have nth: "(phis' @ ?rest) ! k = (if k < length (R s) then phis' ! k else rs_insts st s ! k)" if "k < length (rs_insts st s)" for k
    using that lp by (auto simp: nth_append)
  have "shape ((phis' @ ?rest) ! k) = shape (rs_insts st s ! k)" if k: "k < length (rs_insts st s)" for k
  proof (cases "k < length (R s)")
    case True
    obtain n where n: "phis' ! k = (rs_insts st s ! k)\<lparr>mi_operands := (mi_operands (rs_insts st s ! k))[pred_slot c p s := Some (OpReg (VReg n))]\<rparr>"
      using phi [OF True] by blast
    show ?thesis
      unfolding nth [OF k] using True split(6) [OF True, of "pred_slot c p s"] lt
      by (simp add: n) (rule shape_set_operand [OF _ slot [OF True]], simp add: op_kind_def)
  qed (simp add: nth [OF k])
  then have "map shape (phis' @ ?rest) = map shape (rs_insts st s)" by (rule map_shape_eqI [OF l])
  then have shapes: "\<forall>b. map shape (rs_insts (fill_succ c p s st) b) = map shape (rs_insts st b)" by (simp add: I)
  have other: "opat (rs_insts (fill_succ c p s st)) b k j = opat (rs_insts st) b k j"
    if nb: "\<not> (b = s \<and> k < length (R s) \<and> j = pred_slot c p s)" and k: "k < length (rs_insts st b)" for b k j
  proof (cases "b = s \<and> k < length (R s)")
    case True
    then obtain n where "phis' ! k = (rs_insts st s ! k)\<lparr>mi_operands := (mi_operands (rs_insts st s ! k))[pred_slot c p s := Some (OpReg (VReg n))]\<rparr>"
      using phi by blast
    then show ?thesis using True nb nth [of k] k by (simp add: I opat_def)
  next
    case False
    then show ?thesis using nth [of k] k by (auto simp: I opat_def)
  qed
  have here: "opat (rs_insts (fill_succ c p s st)) s k (pred_slot c p s) = Some (OpReg (VReg (name_of U (rs_varStacks st) (R s ! k))))"
    if k: "k < length (R s)" and U: "rs_undefRegs (fill_succ c p s st) \<subseteq>\<^sub>m U" for k U
  proof -
    obtain n where n: "phis' ! k = (rs_insts st s ! k)\<lparr>mi_operands := (mi_operands (rs_insts st s ! k))[pred_slot c p s := Some (OpReg (VReg n))]\<rparr>"
      "\<forall>U. rs_undefRegs st1 \<subseteq>\<^sub>m U \<longrightarrow> n = name_of U (rs_varStacks st) (R s ! k)" using phi [OF k] by blast
    have "n = name_of U (rs_varStacks st) (R s ! k)" using n(2) U by (simp add: run)
    moreover have "k < length (rs_insts st s)" using k split(5) by simp
    ultimately show ?thesis using nth [of k] k slot [OF k] by (simp add: I opat_def n(1))
  qed
  show ?thesis using mv shapes other here by blast
qed

lemma fill_succs_correct:
  assumes fit: "ctx_fits R c" and rp: "reachable (flow_edge (rc_cfg c)) (rc_entry c) p"
  shows "\<forall>s \<in> set ss. flow_edge (rc_cfg c) p s \<Longrightarrow> distinct ss \<Longrightarrow> phi_shaped R (rc_cfg c) (rs_insts st) \<Longrightarrow>
    moves n0 st (fold (fill_succ c p) ss st) [] \<and> (\<forall>b. map shape (rs_insts (fold (fill_succ c p) ss st) b) = map shape (rs_insts st b)) \<and>
    (\<forall>b k j. \<not> (b \<in> set ss \<and> k < length (R b) \<and> j = pred_slot c p b) \<longrightarrow> k < length (rs_insts st b) \<longrightarrow>
       opat (rs_insts (fold (fill_succ c p) ss st)) b k j = opat (rs_insts st) b k j) \<and>
    (\<forall>s \<in> set ss. \<forall>k < length (R s). \<forall>U. rs_undefRegs (fold (fill_succ c p) ss st) \<subseteq>\<^sub>m U \<longrightarrow>
       opat (rs_insts (fold (fill_succ c p) ss st)) s k (pred_slot c p s) = Some (OpReg (VReg (name_of U (rs_varStacks st) (R s ! k)))))"
proof (induction ss arbitrary: st)
  case (Cons s ss)
  let ?st1 = "fill_succ c p s st"
  let ?st' = "fold (fill_succ c p) ss ?st1"
  have e: "flow_edge (rc_cfg c) p s" "\<forall>s \<in> set ss. flow_edge (rc_cfg c) p s" "distinct ss" "s \<notin> set ss" using Cons.prems(1,2) by simp_all
  note f = fill_succ_correct [OF Cons.prems(3) fit rp e(1), of n0]
  have sh1: "\<And>b. map shape (rs_insts ?st1 b) = map shape (rs_insts st b)" using f by blast
  have ps1: "phi_shaped R (rc_cfg c) (rs_insts ?st1)" by (rule phi_shaped_cong [OF Cons.prems(3) sh1])
  note I = Cons.IH [OF e(2,3) ps1]
  have len: "length (rs_insts ?st1 b) = length (rs_insts st b)" for b using arg_cong [OF sh1, of length b] by simp
  have S: "rs_varStacks ?st1 = rs_varStacks st" by (rule moves_nil) (use f in blast)
  have mv: "moves n0 st ?st' []" using moves_trans [of n0 st ?st1 "[]" ?st' "[]"] f I by simp
  have shp: "map shape (rs_insts ?st' b) = map shape (rs_insts st b)" for b using I sh1 by simp
  have other: "opat (rs_insts ?st') b k j = opat (rs_insts st) b k j"
    if n: "\<not> (b \<in> set (s # ss) \<and> k < length (R b) \<and> j = pred_slot c p b)" and k: "k < length (rs_insts st b)" for b k j
  proof -
    have "\<not> (b \<in> set ss \<and> k < length (R b) \<and> j = pred_slot c p b)" "\<not> (b = s \<and> k < length (R s) \<and> j = pred_slot c p s)" using n by auto
    moreover have "k < length (rs_insts ?st1 b)" using k len by simp
    ultimately have "opat (rs_insts ?st') b k j = opat (rs_insts ?st1) b k j" "opat (rs_insts ?st1) b k j = opat (rs_insts st) b k j"
      using conjunct1 [OF conjunct2 [OF conjunct2 [OF I]], rule_format, of b k j]
        conjunct1 [OF conjunct2 [OF conjunct2 [OF f]], rule_format, of b k j] k by simp_all
    then show ?thesis by simp
  qed
  have here: "opat (rs_insts ?st') q k (pred_slot c p q) = Some (OpReg (VReg (name_of U (rs_varStacks st) (R q ! k))))"
    if q: "q \<in> set (s # ss)" and k: "k < length (R q)" and U: "rs_undefRegs ?st' \<subseteq>\<^sub>m U" for q k U
  proof (cases "q = s")
    case True
    have "grows_to ?st1 ?st'" using I by (simp add: moves_def)
    then have U1: "rs_undefRegs ?st1 \<subseteq>\<^sub>m U" using U map_le_trans by (auto simp: grows_to_def)
    have "k < length (rs_insts st s)" using k phi_split(5) [OF Cons.prems(3), where b = s] True by simp
    then have "opat (rs_insts ?st') s k (pred_slot c p s) = opat (rs_insts ?st1) s k (pred_slot c p s)" using I e(4) len by simp
    then show ?thesis using f True k U1 by simp
  next
    case False
    then show ?thesis using I q k U S by simp
  qed
  show ?case using mv shp other here by simp
qed simp

section \<open>The visit\<close>

lemma push_params_fields:
  "rs_nextId (fold (\<lambda>p. push_reg p p) ids st) = rs_nextId st" "rs_undefRegs (fold (\<lambda>p. push_reg p p) ids st) = rs_undefRegs st"
  "rs_insts (fold (\<lambda>p. push_reg p p) ids st) = rs_insts st"
  "rs_varStacks (fold (\<lambda>p. push_reg p p) ids st) r = replicate (count_list ids r) r @ rs_varStacks st r"
  by (induction ids arbitrary: st) (simp_all add: push_reg_def replicate_app_Cons_same)

lemma push_params_correct:
  assumes p: "push_params c x st = (st0, pushed)"
    and first: "x = rc_entry c \<longrightarrow> (\<forall>r. reg_names st r = {}) \<and> (\<forall>p. VReg p \<in> set (rc_params c) \<longrightarrow> p < n0)"
  shows "moves n0 st st0 pushed" "rs_insts st0 = rs_insts st" "rs_nextId st0 = rs_nextId st" "rs_undefRegs st0 = rs_undefRegs st"
    "x \<noteq> rc_entry c \<Longrightarrow> st0 = st"
    "x = rc_entry c \<Longrightarrow> rs_varStacks st0 r = replicate (count_list pushed r) r \<and> (r \<in> set pushed \<longleftrightarrow> VReg r \<in> set (rc_params c))"
proof -
  let ?ids = "map reg_id (filter isVirtual (rc_params c))"
  have e: "st0 = (if x = rc_entry c then fold (\<lambda>p. push_reg p p) ?ids st else st)" "pushed = (if x = rc_entry c then ?ids else [])"
    using p by (auto simp: push_params_def Let_def split: if_splits)
  show "rs_insts st0 = rs_insts st" "rs_nextId st0 = rs_nextId st" "rs_undefRegs st0 = rs_undefRegs st" "x \<noteq> rc_entry c \<Longrightarrow> st0 = st"
    by (simp_all add: e push_params_fields)
  have ids: "r \<in> set ?ids \<longleftrightarrow> VReg r \<in> set (rc_params c)" for r
    by (force elim: isVirtual.elims)
  have empty: "rs_varStacks st r = [] \<and> rs_undefRegs st r = None" if "x = rc_entry c" for r
    using first that by (simp add: reg_names_def)
  show st: "rs_varStacks st0 r = replicate (count_list pushed r) r \<and> (r \<in> set pushed \<longleftrightarrow> VReg r \<in> set (rc_params c))"
    if "x = rc_entry c" for r
    using empty [OF that] that ids by (simp add: e push_params_fields)
  have "names_ok n0 st0" if ok: "names_ok n0 st"
  proof (cases "x = rc_entry c")
    case True
    have nm: "n \<in> reg_names st0 r \<Longrightarrow> n = r \<and> r < n0" for n r
      using empty [OF True] mp [OF first True] ids by (auto simp: reg_names_def e True push_params_fields count_list_0_iff)
    have nx: "n0 \<le> rs_nextId st" using ok by (simp add: names_ok_def)
    have e': "rs_nextId st0 = rs_nextId st" by (simp add: e push_params_fields)
    show ?thesis
      unfolding names_ok_def e'
    proof (intro conjI allI ballI impI)
      fix r n assume "n \<in> reg_names st0 r"
      from nm [OF this] show "n < rs_nextId st" "n = r" using nx by simp_all
    next
      fix r r' n assume "n \<in> reg_names st0 r" "n \<in> reg_names st0 r'"
      then show "r = r'" using nm by blast
    qed (rule nx)
  qed (simp add: e ok)
  moreover have "pushed_on (rs_varStacks st) (rs_varStacks st0) pushed"
    unfolding pushed_on_def
  proof
    fix r
    show "\<exists>new. rs_varStacks st0 r = new @ rs_varStacks st r \<and> length new = count_list pushed r"
      by (cases "x = rc_entry c") (simp_all add: e push_params_fields)
  qed
  moreover have "grows_to st st0" by (simp add: grows_to_def e push_params_fields)
  ultimately show "moves n0 st st0 pushed" by (simp add: moves_def)
qed

lemma inst_eqI:
  assumes "shape i' = shape i" "\<And>j. j < length (mi_operands i) \<Longrightarrow> mi_operands i' ! j = mi_operands i ! j"
  shows "i' = i"
proof -
  have "mi_operands i' = mi_operands i" using assms(2) shape_fields(3) [OF assms(1)] by (intro nth_equalityI) simp_all
  then show ?thesis using shape_operands [OF assms(1)] by simp
qed

text \<open>The operands the visit of \<open>x\<close> may change.\<close>

definition visit_slot :: "(mir_id \<Rightarrow> mir_id list) \<Rightarrow> rename_ctx \<Rightarrow> mir_id \<Rightarrow> mir_id \<Rightarrow> nat \<Rightarrow> nat \<Rightarrow> bool" where
  "visit_slot R c x b k j \<longleftrightarrow>
     b = x \<and> (k < length (R b) \<longrightarrow> j = 0) \<or> flow_edge (rc_cfg c) x b \<and> k < length (R b) \<and> j = pred_slot c x b"

lemma visit_block_correct:
  assumes fit: "ctx_fits R c" and rx: "reachable (flow_edge (rc_cfg c)) (rc_entry c) x" and sh: "phi_shaped R (rc_cfg c) (rs_insts st)"
    and ok: "\<forall>i \<in> set (drop (length (R x)) (rs_insts st x)). inst_ok n0 i"
    and first: "x = rc_entry c \<longrightarrow> (\<forall>r. reg_names st r = {}) \<and> (\<forall>p. VReg p \<in> set (rc_params c) \<longrightarrow> p < n0)"
    and v: "visit_block c x st = (st', pushed)"
  shows "\<exists>st0 st1 st2 p0 p2. push_params c x st = (st0, p0) \<and> moves n0 st0 st1 (R x) \<and>
    (\<forall>k < length (R x). rs_varStacks st1 (R x ! k) \<noteq> [] \<and> rs_nextId st \<le> hd (rs_varStacks st1 (R x ! k)) \<and>
       hd (rs_varStacks st1 (R x ! k)) < rs_nextId st1 \<and>
       opat (rs_insts st') x k 0 = Some (OpReg (VReg (hd (rs_varStacks st1 (R x ! k)))))) \<and>
    inj_on (\<lambda>r. hd (rs_varStacks st1 r)) (set (R x)) \<and>
    rename_body (drop (length (R x)) (rs_insts st x)) st1 = (drop (length (R x)) (rs_insts st' x), st2, p2) \<and>
    moves n0 st1 st2 p2 \<and> moves n0 st2 st' [] \<and> pushed = p0 @ R x @ p2 \<and>
    (\<forall>b. map shape (rs_insts st' b) = map shape (rs_insts st b)) \<and>
    (\<forall>b k j. \<not> visit_slot R c x b k j \<longrightarrow> k < length (rs_insts st b) \<longrightarrow> opat (rs_insts st') b k j = opat (rs_insts st) b k j) \<and>
    (\<forall>s \<in> set (getSuccessors (rc_cfg c) x). \<forall>k < length (R s). \<forall>U. rs_undefRegs st' \<subseteq>\<^sub>m U \<longrightarrow>
       opat (rs_insts st') s k (pred_slot c x s) = Some (OpReg (VReg (name_of U (rs_varStacks st') (R s ! k)))))"
proof -
  let ?phis = "take (length (R x)) (rs_insts st x)" and ?rest = "drop (length (R x)) (rs_insts st x)"
  note split = phi_split [OF sh, where b = x]
  obtain st0 p0 where p: "push_params c x st = (st0, p0)" by (cases "push_params c x st")
  note P = push_params_correct [OF p first]
  have o: "\<forall>j < length (R x). rc_phiOriginalReg c x (0 + j) = Some (R x ! j)" using fit by (simp add: ctx_fits_def)
  have ph: "\<forall>i \<in> set ?phis. mi_opcode i = PHI \<and> virtual_dst i \<noteq> None" using split(2) by blast
  have re: "?rest = [] \<or> mi_opcode (hd ?rest) \<noteq> PHI" using split(3) hd_in_set by blast
  obtain phis' st1 where A: "rename_phis (rc_phiOriginalReg c x) 0 (?phis @ ?rest) st0 = (phis' @ ?rest, st1, R x)" "new_defs n0 st0 st1 (R x)"
    "length phis' = length ?phis"
    "\<forall>j < length ?phis. phis' ! j = (?phis ! j)\<lparr>mi_operands := (mi_operands (?phis ! j))[0 := Some (OpReg (VReg (hd (rs_varStacks st1 (R x ! j)))))]\<rparr>"
    "\<forall>r \<in> set (R x). rs_varStacks st1 r \<noteq> [] \<and> rs_nextId st0 \<le> hd (rs_varStacks st1 r) \<and> hd (rs_varStacks st1 r) < rs_nextId st1"
    "inj_on (\<lambda>r. hd (rs_varStacks st1 r)) (set (R x))"
    using rename_phis_correct [where rest = ?rest, OF split(1) ph re o split(4), of st0 n0] by (elim exE conjE) (rule that)
  obtain body' st2 p2 where B: "rename_body ?rest st1 = (body', st2, p2)" "new_defs n0 st1 st2 p2" "map shape body' = map shape ?rest"
    using rename_body_correct [OF ok, of st1] by (elim exE conjE) (rule that)
  have l: "length phis' = length (R x)" using A(3) split(1) by simp
  have phis': "mi_opcode (phis' ! j) = PHI" "shape (phis' ! j) = shape (?phis ! j)" if "j < length (R x)" for j
  proof -
    have j: "j < length ?phis" "?phis ! j = rs_insts st x ! j" using that split(5) by simp_all
    show "mi_opcode (phis' ! j) = PHI" using A(4) j ph nth_mem [OF j(1)] by simp
    show "shape (phis' ! j) = shape (?phis ! j)"
      using A(4) j that split(6) [OF that, of 0] split(7) [OF that]
      by simp (rule shape_set_operand, simp_all add: op_kind_def)
  qed
  have "\<forall>i \<in> set phis'. mi_opcode i = PHI" using phis'(1) l by (auto simp: in_set_conv_nth)
  then have B': "rename_body (phis' @ ?rest) st1 = (phis' @ body', st2, p2)" using B(1) by (simp add: rename_body_skip)
  let ?st3 = "st2\<lparr>rs_insts := (rs_insts st2)(x := phis' @ body')\<rparr>"
  have I2: "rs_insts st2 = rs_insts st" using new_defsD(3) [OF A(2)] new_defsD(3) [OF B(2)] P(2) by simp
  have st': "st' = fold (fill_succ c x) (getSuccessors (rc_cfg c) x) ?st3" and pushed: "pushed = p0 @ R x @ p2"
    using v p A(1) B' P(2) by (simp_all add: visit_block_def)
  have lb: "length body' = length ?rest" using arg_cong [OF B(3), of length] by simp
  have len: "length (phis' @ body') = length (rs_insts st x)" using l lb split(5) by simp
  have "shape ((phis' @ body') ! k) = shape (rs_insts st x ! k)" if "k < length (rs_insts st x)" for k
  proof (cases "k < length (R x)")
    case True
    then show ?thesis using phis'(2) [OF True] l by (simp add: nth_append)
  next
    case False
    then have "shape (body' ! (k - length (R x))) = shape (?rest ! (k - length (R x)))"
      using that split(5) by (intro same_shape_nth [OF B(3)]) simp
    then show ?thesis using False l that by (simp add: nth_append)
  qed
  then have sx: "map shape (phis' @ body') = map shape (rs_insts st x)" by (rule map_shape_eqI [OF len])
  have s3: "map shape (rs_insts ?st3 b) = map shape (rs_insts st b)" for b using sx by (simp add: I2)
  have ps3: "phi_shaped R (rc_cfg c) (rs_insts ?st3)" by (rule phi_shaped_cong [OF sh s3])
  have succ: "\<forall>s \<in> set (getSuccessors (rc_cfg c) x). flow_edge (rc_cfg c) x s" "distinct (getSuccessors (rc_cfg c) x)"
    using fit cfr_wfD(2) [of "rc_cfg c" x] by (auto simp: flow_edge_def ctx_fits_def strict_sorted_iff)
  note F = fill_succs_correct [OF fit rx succ ps3, of n0, folded st']
  note F1 = conjunct1 [OF F] and F2 = conjunct1 [OF conjunct2 [OF F]] and F3 = conjunct1 [OF conjunct2 [OF conjunct2 [OF F]]]
    and F4 = conjunct2 [OF conjunct2 [OF conjunct2 [OF F]]]
  have len3: "length (rs_insts ?st3 b) = length (rs_insts st b)" for b using arg_cong [OF s3, of length b] by simp
  have shapes: "\<forall>b. map shape (rs_insts st' b) = map shape (rs_insts st b)" using F2 s3 by simp
  have dst: "opat (rs_insts st') x k 0 = Some (OpReg (VReg (hd (rs_varStacks st1 (R x ! k)))))" if k: "k < length (R x)" for k
  proof -
    have "opat (rs_insts st') x k 0 = opat (rs_insts ?st3) x k 0" using F3 k split(5) len3 by simp
    then show ?thesis using A(4) k l split(5,7) by (simp add: opat_def nth_append)
  qed
  have body: "drop (length (R x)) (rs_insts st' x) = body'"
  proof (rule nth_equalityI)
    have len': "length (rs_insts st' x) = length (rs_insts st x)" using arg_cong [OF shapes [rule_format], of length x] by simp
    show lr: "length (drop (length (R x)) (rs_insts st' x)) = length body'" using len' lb by simp
    fix a assume "a < length (drop (length (R x)) (rs_insts st' x))"
    then have a: "length (R x) + a < length (rs_insts st x)" using len' by simp
    have b: "rs_insts ?st3 x ! (length (R x) + a) = body' ! a" using l by (simp add: nth_append)
    have "rs_insts st' x ! (length (R x) + a) = rs_insts ?st3 x ! (length (R x) + a)"
    proof (rule inst_eqI)
      show "shape (rs_insts st' x ! (length (R x) + a)) = shape (rs_insts ?st3 x ! (length (R x) + a))"
        using F2 a len3 [of x] by (intro same_shape_nth) (simp_all del: fun_upd_apply)
      show "mi_operands (rs_insts st' x ! (length (R x) + a)) ! j = mi_operands (rs_insts ?st3 x ! (length (R x) + a)) ! j" for j
        using F3 [rule_format, of x "length (R x) + a" j] a len3 [of x] len by (simp add: opat_def)
    qed
    then show "drop (length (R x)) (rs_insts st' x) ! a = body' ! a" using b len' a by simp
  qed
  have frame: "opat (rs_insts st') b k j = opat (rs_insts st) b k j" if n: "\<not> visit_slot R c x b k j" and k: "k < length (rs_insts st b)" for b k j
  proof -
    have "opat (rs_insts st') b k j = opat (rs_insts ?st3) b k j"
      using F3 [rule_format, of b k j] n k len3 by (auto simp: visit_slot_def flow_edge_def)
    moreover have "opat (rs_insts ?st3) b k j = opat (rs_insts st) b k j"
    proof (cases "b = x")
      case True
      then have "k < length (R x)" "j \<noteq> 0" using n by (auto simp: visit_slot_def)
      then show ?thesis using True A(4) l split(1,5) by (simp add: opat_def nth_append)
    next
      case False
      then show ?thesis by (simp add: opat_def I2)
    qed
    ultimately show ?thesis by simp
  qed
  have S: "rs_varStacks st' = rs_varStacks st2" using moves_nil [OF F1] by simp
  have fills: "\<forall>s \<in> set (getSuccessors (rc_cfg c) x). \<forall>k < length (R s). \<forall>U. rs_undefRegs st' \<subseteq>\<^sub>m U \<longrightarrow>
       opat (rs_insts st') s k (pred_slot c x s) = Some (OpReg (VReg (name_of U (rs_varStacks st') (R s ! k))))"
    using F4 S by simp
  have phis: "\<forall>k < length (R x). rs_varStacks st1 (R x ! k) \<noteq> [] \<and> rs_nextId st \<le> hd (rs_varStacks st1 (R x ! k)) \<and>
       hd (rs_varStacks st1 (R x ! k)) < rs_nextId st1 \<and>
       opat (rs_insts st') x k 0 = Some (OpReg (VReg (hd (rs_varStacks st1 (R x ! k)))))"
    using A(5) dst P(3) by simp
  have m: "moves n0 st2 st' []" using F1 by simp
  show ?thesis
    using new_defs_moves [OF A(2)] phis A(6) B(1) body new_defs_moves [OF B(2)] m pushed shapes frame fills p
    by (intro exI [of _ st0] exI [of _ st1] exI [of _ st2] exI [of _ p0] exI [of _ p2] conjI) (assumption | simp | blast)+
qed

end
