(* ===== verification/SsaWalk.thy ===== *)
theory SsaWalk
  imports SsaVisit
begin

text \<open>
  The renaming walk over the dominator tree: it returns, visits every block of the tree once, and
  every operand it changes keeps what the visit that owns it wrote.
\<close>

section \<open>Subtrees\<close>

definition subtree :: "(mir_id \<rightharpoonup> mir_id) \<Rightarrow> mir_id list \<Rightarrow> mir_id set" where
  "subtree D tops = {x. \<exists>q \<in> set tops. on_chain D x q}"

definition antichain :: "(mir_id \<rightharpoonup> mir_id) \<Rightarrow> mir_id list \<Rightarrow> bool" where
  "antichain D tops \<longleftrightarrow> distinct tops \<and> (\<forall>q \<in> set tops. \<forall>q' \<in> set tops. on_chain D q q' \<longrightarrow> q = q')"

lemma subtree_Nil [simp]: "subtree D [] = {}"
  by (simp add: subtree_def)

lemma subtree_Cons: "subtree D (b # bs) = subtree D [b] \<union> subtree D bs"
  by (auto simp: subtree_def)

lemma subtree_disjoint: "antichain D (b # bs) \<Longrightarrow> subtree D [b] \<inter> subtree D bs = {}"
  using on_chain_linear unfolding antichain_def subtree_def by fastforce

lemma antichain_Cons: "antichain D (b # bs) \<Longrightarrow> antichain D bs"
  by (auto simp: antichain_def)

text \<open>The context knows the children of the tree.\<close>

definition tree_ctx :: "(mir_id \<rightharpoonup> mir_id) \<Rightarrow> rename_ctx \<Rightarrow> bool" where
  "tree_ctx D c \<longleftrightarrow> ssa.tree_ok (rc_cfg c, rc_entry c) D \<and>
     (\<forall>b. D b \<noteq> None \<longrightarrow> rc_isBlock c b) \<and>
     (\<forall>b. distinct (rc_domChildren c b)) \<and>
     (\<forall>b y. y \<in> set (rc_domChildren c b) \<longleftrightarrow> D y = Some b \<and> b \<noteq> y)"

lemma tree_ctxD:
  assumes "tree_ctx D c"
  shows "ssa.tree_ok (rc_cfg c, rc_entry c) D" "D b \<noteq> None \<Longrightarrow> rc_isBlock c b" "distinct (rc_domChildren c b)"
    "y \<in> set (rc_domChildren c b) \<longleftrightarrow> D y = Some b \<and> b \<noteq> y"
  using assms unfolding tree_ctx_def by blast+

lemma child_num:
  assumes t: "tree_ctx D c" and y: "D y = Some b" "b \<noteq> y"
  shows "post_number (rc_cfg c, rc_entry c) y < post_number (rc_cfg c, rc_entry c) b" "y \<noteq> rc_entry c"
proof -
  note k = ssa.tree_okD [OF tree_ctxD(1) [OF t]]
  show e: "y \<noteq> rc_entry c" using k(1) y by auto
  show "post_number (rc_cfg c, rc_entry c) y < post_number (rc_cfg c, rc_entry c) b" using k(4) [OF y(1)] e by simp
qed

lemma not_above_child:
  assumes t: "tree_ctx D c" and y: "D y = Some b" "b \<noteq> y"
  shows "\<not> on_chain D b y"
  using ssa.chain_num [OF tree_ctxD(1) [OF t], of b y] child_num(1) [OF t y] y(2) by auto

lemma children_antichain:
  assumes t: "tree_ctx D c"
  shows "antichain D (rc_domChildren c b)"
  unfolding antichain_def
proof (intro conjI ballI impI)
  show "distinct (rc_domChildren c b)" by (rule tree_ctxD(3) [OF t])
  fix q q' assume q: "q \<in> set (rc_domChildren c b)" "q' \<in> set (rc_domChildren c b)" "on_chain D q q'"
  then have d: "D q = Some b" "D q' = Some b" "b \<noteq> q" "b \<noteq> q'" using tree_ctxD(4) [OF t] by blast+
  then show "q = q'" using on_chain_iff [of D q b q'] not_above_child [OF t d(2,4)] q(3) by blast
qed

lemma subtree_node:
  assumes t: "tree_ctx D c" and b: "D b \<noteq> None"
  shows "subtree D [b] = insert b (subtree D (rc_domChildren c b))" "b \<notin> subtree D (rc_domChildren c b)"
proof -
  obtain d where d: "D b = Some d" using b by blast
  have self: "on_chain D b b" by (rule on_chain.self [of D b d, OF d])
  show "b \<notin> subtree D (rc_domChildren c b)"
    using not_above_child [OF t] tree_ctxD(4) [OF t] unfolding subtree_def by blast
  have "x = b \<or> x \<in> subtree D (rc_domChildren c b)" if x: "on_chain D x b" for x
    using x
  proof (induction rule: on_chain.induct)
    case (up v d y)
    from up.IH show ?case
    proof
      assume "d = y"
      then have "v \<in> set (rc_domChildren c y)" using up.hyps tree_ctxD(4) [OF t] by blast
      moreover have "on_chain D v v" by (rule on_chain.self [of D v d, OF up.hyps(1)])
      ultimately show ?thesis unfolding subtree_def by blast
    next
      assume "d \<in> subtree D (rc_domChildren c y)"
      then show ?thesis using on_chain.up [of D v d, OF up.hyps(1,2)] unfolding subtree_def by blast
    qed
  qed simp
  moreover have "on_chain D x b" if x: "x \<in> subtree D (rc_domChildren c b)" for x
  proof -
    obtain q where q: "q \<in> set (rc_domChildren c b)" "on_chain D x q" using x unfolding subtree_def by blast
    then have "D q = Some b" "b \<noteq> q" using tree_ctxD(4) [OF t] by blast+
    then have "on_chain D q b" using on_chain.up [of D q b, OF _ _ self] by blast
    then show ?thesis by (rule on_chain_trans [OF q(2)])
  qed
  ultimately show "subtree D [b] = insert b (subtree D (rc_domChildren c b))"
    using self by (auto simp: subtree_def)
qed

lemma entry_subtree:
  assumes t: "tree_ctx D c" and e: "rc_entry c \<notin> set tops"
  shows "rc_entry c \<notin> subtree D tops"
  using ssa.chain_root [OF tree_ctxD(1) [OF t]] e by (auto simp: subtree_def)

text \<open>A subtree contains the children of its nodes.\<close>

lemma subtree_closed: "x \<in> subtree D tops \<Longrightarrow> D y = Some x \<Longrightarrow> x \<noteq> y \<Longrightarrow> y \<in> subtree D tops"
  unfolding subtree_def by (blast intro: on_chain.up)

section \<open>Slots\<close>

lemma visit_slots_disjoint:
  assumes fit: "ctx_fits R c" and s: "visit_slot R c x b k j" "visit_slot R c y b k j"
  shows "x = y"
proof (rule ccontr)
  assume ne: "x \<noteq> y"
  have pred: "p \<in> set (getPredecessors (rc_cfg c) b)" if "flow_edge (rc_cfg c) p b" for p
    using fit that cfr_wfD(4) [of "rc_cfg c" b p] by (auto simp: ctx_fits_def flow_edge_def)
  from s ne have "flow_edge (rc_cfg c) x b \<and> flow_edge (rc_cfg c) y b \<and> pred_slot c x b = pred_slot c y b"
    by (auto simp: visit_slot_def)
  then show False using ne nth_pred_index [OF pred] by (metis nat.inject)
qed

section \<open>What a walk does\<close>

abbreviation visited :: "rename_ctx \<Rightarrow> (mir_id \<Rightarrow> rename_state) \<Rightarrow> mir_id \<Rightarrow> rename_state" where
  "visited c v x \<equiv> fst (visit_block c x (v x))"

text \<open>\<open>v x\<close> is the state at the start of the visit of \<open>x\<close>, for the blocks of \<open>T\<close>.\<close>

definition same_at :: "(mir_id \<Rightarrow> mir_inst list) \<Rightarrow> (mir_id \<Rightarrow> mir_inst list) \<Rightarrow> mir_id \<Rightarrow> nat \<Rightarrow> nat \<Rightarrow> bool" where
  "same_at I I' b k j \<longleftrightarrow> (k < length (I b) \<longrightarrow> opat I' b k j = opat I b k j)"

definition walked ::
  "(mir_id \<Rightarrow> mir_id list) \<Rightarrow> rename_ctx \<Rightarrow> (mir_id \<rightharpoonup> mir_id) \<Rightarrow> mir_id \<Rightarrow> mir_id set \<Rightarrow> mir_id list \<Rightarrow>
   rename_state \<Rightarrow> rename_state \<Rightarrow> (mir_id \<Rightarrow> rename_state) \<Rightarrow> bool" where
  "walked R c D n0 T tops st st' v \<longleftrightarrow>
     moves n0 st st' [] \<and> (\<forall>b. map shape (rs_insts st' b) = map shape (rs_insts st b)) \<and>
     (\<forall>x \<in> T. grows_to st (v x) \<and> (names_ok n0 st \<longrightarrow> names_ok n0 (v x)) \<and> grows_to (visited c v x) st' \<and>
        (\<forall>b. map shape (rs_insts (v x) b) = map shape (rs_insts st b) \<and>
           map shape (rs_insts (visited c v x) b) = map shape (rs_insts st b))) \<and>
     (\<forall>q \<in> set tops. rs_varStacks (v q) = rs_varStacks st) \<and>
     (\<forall>x \<in> T. \<forall>y. D y = Some x \<longrightarrow> x \<noteq> y \<longrightarrow> rs_varStacks (v y) = rs_varStacks (visited c v x)) \<and>
     (\<forall>x \<in> T. \<forall>y \<in> T. x \<noteq> y \<longrightarrow>
        rs_nextId (visited c v x) \<le> rs_nextId (v y) \<or> rs_nextId (visited c v y) \<le> rs_nextId (v x)) \<and>
     (\<forall>b k j. (\<forall>x \<in> T. \<not> visit_slot R c x b k j) \<longrightarrow> same_at (rs_insts st) (rs_insts st') b k j) \<and>
     (\<forall>x \<in> T. \<forall>b k j. visit_slot R c x b k j \<longrightarrow>
        same_at (rs_insts st) (rs_insts (v x)) b k j \<and> same_at (rs_insts (visited c v x)) (rs_insts st') b k j) \<and>
     (rc_entry c \<in> T \<longrightarrow> reg_names (v (rc_entry c)) = reg_names st)"

lemma walkedD:
  assumes "walked R c D n0 T tops st st' v"
  shows "moves n0 st st' []" "map shape (rs_insts st' b) = map shape (rs_insts st b)"
    "x \<in> T \<Longrightarrow> grows_to st (v x)" "x \<in> T \<Longrightarrow> names_ok n0 st \<Longrightarrow> names_ok n0 (v x)" "x \<in> T \<Longrightarrow> grows_to (visited c v x) st'"
    "x \<in> T \<Longrightarrow> map shape (rs_insts (v x) b) = map shape (rs_insts st b)"
    "q \<in> set tops \<Longrightarrow> rs_varStacks (v q) = rs_varStacks st"
    "x \<in> T \<Longrightarrow> D y = Some x \<Longrightarrow> x \<noteq> y \<Longrightarrow> rs_varStacks (v y) = rs_varStacks (visited c v x)"
    "x \<in> T \<Longrightarrow> y \<in> T \<Longrightarrow> x \<noteq> y \<Longrightarrow>
        rs_nextId (visited c v x) \<le> rs_nextId (v y) \<or> rs_nextId (visited c v y) \<le> rs_nextId (v x)"
    "\<forall>x \<in> T. \<not> visit_slot R c x b k j \<Longrightarrow> same_at (rs_insts st) (rs_insts st') b k j"
    "x \<in> T \<Longrightarrow> visit_slot R c x b k j \<Longrightarrow> same_at (rs_insts st) (rs_insts (v x)) b k j"
    "x \<in> T \<Longrightarrow> visit_slot R c x b k j \<Longrightarrow> same_at (rs_insts (visited c v x)) (rs_insts st') b k j"
    "rc_entry c \<in> T \<Longrightarrow> reg_names (v (rc_entry c)) = reg_names st"
    "x \<in> T \<Longrightarrow> map shape (rs_insts (visited c v x) b) = map shape (rs_insts st b)"
  using assms unfolding walked_def by blast+

lemma walked_empty: "walked R c D n0 {} [] st st v"
  by (simp add: walked_def same_at_def)

lemma walked_append:
  assumes fit: "ctx_fits R c"
    and 1: "walked R c D n0 T1 tops1 st st1 v1" and 2: "walked R c D n0 T2 tops2 st1 st2 v2"
    and dis: "T1 \<inter> T2 = {}" and tops: "set tops1 \<subseteq> T1" "set tops2 \<subseteq> T2"
    and closed: "\<And>x y. x \<in> T1 \<Longrightarrow> D y = Some x \<Longrightarrow> x \<noteq> y \<Longrightarrow> y \<in> T1"
      "\<And>x y. x \<in> T2 \<Longrightarrow> D y = Some x \<Longrightarrow> x \<noteq> y \<Longrightarrow> y \<in> T2"
    and entry: "rc_entry c \<notin> T2"
  shows "walked R c D n0 (T1 \<union> T2) (tops1 @ tops2) st st2 (\<lambda>x. if x \<in> T1 then v1 x else v2 x)"
proof -
  let ?v = "\<lambda>x. if x \<in> T1 then v1 x else v2 x"
  note w1 = walkedD [OF 1] and w2 = walkedD [OF 2]
  have v2: "x \<in> T2 \<Longrightarrow> ?v x = v2 x" for x using dis by auto
  have S1: "rs_varStacks st1 = rs_varStacks st" by (rule moves_nil [OF w1(1)])
  have len: "length (rs_insts st1 b) = length (rs_insts st b)" for b using arg_cong [OF w1(2), of length b] by simp
  have g1: "grows_to st st1" and g2: "grows_to st1 st2" using w1(1) w2(1) by (simp_all add: moves_def)
  have via: "same_at A C b k j" if "same_at A B b k j" "same_at B C b k j" "length (B b) = length (A b)" for A B C :: "mir_id \<Rightarrow> mir_inst list" and b k j
    using that by (simp add: same_at_def)
  have lenv: "length (rs_insts (visited c v1 x) b) = length (rs_insts st1 b)" if "x \<in> T1" for x b
    using arg_cong [OF w1(14) [OF that], of length b] len by simp
  show ?thesis
    unfolding walked_def
  proof (intro conjI allI ballI impI)
    show "moves n0 st st2 []" using moves_trans [OF w1(1) w2(1)] by simp
    show "map shape (rs_insts st2 b) = map shape (rs_insts st b)" for b using w1(2) w2(2) by simp
  next
    fix x assume x: "x \<in> T1 \<union> T2"
    show "grows_to st (?v x)" using x w1(3) grows_trans [OF g1 w2(3)] by auto
    show "names_ok n0 st \<Longrightarrow> names_ok n0 (?v x)" using x w1(4) w2(4) movesD(3) [OF w1(1)] by auto
    show "grows_to (visited c ?v x) st2" using x grows_trans [OF w1(5) g2] w2(5) by auto
    show "map shape (rs_insts (?v x) b) = map shape (rs_insts st b)" for b using x w1(2,6) w2(6) by auto
    show "map shape (rs_insts (visited c ?v x) b) = map shape (rs_insts st b)" for b using x w1(2,14) w2(14) by auto
  next
    fix q assume "q \<in> set (tops1 @ tops2)"
    then show "rs_varStacks (?v q) = rs_varStacks st" using w1(7) w2(7) S1 tops dis by auto
  next
    fix x y assume x: "x \<in> T1 \<union> T2" and y: "D y = Some x" "x \<noteq> y"
    show "rs_varStacks (?v y) = rs_varStacks (visited c ?v x)"
    proof (cases "x \<in> T1")
      case True
      then show ?thesis using closed(1) [OF True y] w1(8) [OF True y] by simp
    next
      case False
      then have "x \<in> T2" using x by blast
      then show ?thesis using closed(2) [OF _ y] w2(8) [OF _ y] v2 False by simp
    qed
  next
    fix x y assume x: "x \<in> T1 \<union> T2" "y \<in> T1 \<union> T2" "x \<noteq> y"
    have across: "rs_nextId (visited c v1 a) \<le> rs_nextId (v2 b)" if "a \<in> T1" "b \<in> T2" for a b
      using w1(5) [OF that(1)] w2(3) [OF that(2)] by (simp add: grows_to_def)
    show "rs_nextId (visited c ?v x) \<le> rs_nextId (?v y) \<or> rs_nextId (visited c ?v y) \<le> rs_nextId (?v x)"
      using x w1(9) w2(9) across by auto
  next
    fix b k j assume n: "\<forall>x \<in> T1 \<union> T2. \<not> visit_slot R c x b k j"
    show "same_at (rs_insts st) (rs_insts st2) b k j"
      using via [OF w1(10) w2(10) len] n by blast
  next
    fix x b k j assume x: "x \<in> T1 \<union> T2" and s: "visit_slot R c x b k j"
    have none: "\<not> visit_slot R c y b k j" if "y \<noteq> x" for y using visit_slots_disjoint [OF fit s] that by blast
    show "same_at (rs_insts st) (rs_insts (?v x)) b k j"
    proof (cases "x \<in> T1")
      case True
      then show ?thesis using w1(11) [OF True s] by simp
    next
      case False
      then have "same_at (rs_insts st1) (rs_insts (v2 x)) b k j" using w2(11) [OF _ s] x by blast
      moreover have "same_at (rs_insts st) (rs_insts st1) b k j" using w1(10) none False by metis
      ultimately show ?thesis using via len False by simp
    qed
    show "same_at (rs_insts (visited c ?v x)) (rs_insts st2) b k j"
    proof (cases "x \<in> T1")
      case True
      have "same_at (rs_insts st1) (rs_insts st2) b k j" using w2(10) none True dis by (metis disjoint_iff)
      moreover have "same_at (rs_insts (visited c v1 x)) (rs_insts st1) b k j" by (rule w1(12) [OF True s])
      ultimately show ?thesis using lenv [OF True, of b] True by (simp add: same_at_def)
    next
      case False
      then show ?thesis using w2(12) [OF _ s] x by simp
    qed
  next
    assume "rc_entry c \<in> T1 \<union> T2"
    then show "reg_names (?v (rc_entry c)) = reg_names st" using entry w1(13) by simp
  qed
qed

lemma reg_names_pop: "reg_names (fold pop_reg pushed st) r \<subseteq> reg_names st r"
  using set_drop_subset by (auto simp: reg_names_def pop_all pop_fields) fastforce

lemma names_ok_pop:
  assumes "names_ok n0 st"
  shows "names_ok n0 (fold pop_reg pushed st)"
  using assms reg_names_pop unfolding names_ok_def pop_fields by (meson subsetD)

text \<open>The facts of a visit that the walk needs.\<close>

definition visit_ok :: "(mir_id \<Rightarrow> mir_id list) \<Rightarrow> rename_ctx \<Rightarrow> mir_id \<Rightarrow> mir_id \<Rightarrow> rename_state \<Rightarrow> rename_state \<Rightarrow> mir_id list \<Rightarrow> bool" where
  "visit_ok R c n0 b st st1 pushed \<longleftrightarrow> moves n0 st st1 pushed \<and> (\<forall>a. map shape (rs_insts st1 a) = map shape (rs_insts st a)) \<and>
     (\<forall>a k j. \<not> visit_slot R c b a k j \<longrightarrow> same_at (rs_insts st) (rs_insts st1) a k j)"

lemma visit_block_ok:
  assumes fit: "ctx_fits R c" and rx: "reachable (flow_edge (rc_cfg c)) (rc_entry c) x" and sh: "phi_shaped R (rc_cfg c) (rs_insts st)"
    and ok: "\<forall>i \<in> set (drop (length (R x)) (rs_insts st x)). inst_ok n0 i"
    and first: "x = rc_entry c \<longrightarrow> (\<forall>r. reg_names st r = {}) \<and> (\<forall>p. VReg p \<in> set (rc_params c) \<longrightarrow> p < n0)"
    and v: "visit_block c x st = (st', pushed)"
  shows "visit_ok R c n0 x st st' pushed"
proof -
  obtain st0 st1 st2 p0 p2 where V: "push_params c x st = (st0, p0)" "moves n0 st0 st1 (R x)" "moves n0 st1 st2 p2" "moves n0 st2 st' []"
    "pushed = p0 @ R x @ p2" "\<forall>b. map shape (rs_insts st' b) = map shape (rs_insts st b)"
    "\<forall>b k j. \<not> visit_slot R c x b k j \<longrightarrow> k < length (rs_insts st b) \<longrightarrow> opat (rs_insts st') b k j = opat (rs_insts st) b k j"
    using visit_block_correct [OF fit rx sh ok first v] by (elim exE conjE) (rule that)
  have "moves n0 st st0 p0" by (rule push_params_correct(1) [OF V(1) first])
  from moves_trans [OF moves_trans [OF moves_trans [OF this V(2)] V(3)] V(4)] have "moves n0 st st' pushed" by (simp add: V(5))
  then show ?thesis using V(6,7) by (simp add: visit_ok_def same_at_def)
qed

lemma walked_node:
  assumes fit: "ctx_fits R c" and v: "visit_block c b st = (st1, pushed)" "visit_ok R c n0 b st st1 pushed"
    and w: "walked R c D n0 T tops st1 st2 v1" and b: "b \<notin> T" and tops: "\<And>y. y \<in> set tops \<longleftrightarrow> D y = Some b \<and> b \<noteq> y"
    and entry: "rc_entry c \<notin> T" and closed: "\<And>x y. x \<in> T \<Longrightarrow> D y = Some x \<Longrightarrow> x \<noteq> y \<Longrightarrow> y \<in> T" "set tops \<subseteq> T"
  shows "walked R c D n0 (insert b T) [b] st (fold pop_reg pushed st2) (v1(b := st))"
proof -
  let ?v = "v1(b := st)" and ?st' = "fold pop_reg pushed st2"
  note w = walkedD [OF w]
  have m: "moves n0 st st1 pushed" and sh: "\<And>a. map shape (rs_insts st1 a) = map shape (rs_insts st a)"
    and fr: "\<And>a k j. \<not> visit_slot R c b a k j \<Longrightarrow> same_at (rs_insts st) (rs_insts st1) a k j"
    using v(2) by (simp_all add: visit_ok_def)
  have vb: "visited c ?v b = st1" using v(1) by simp
  have vx: "?v x = v1 x" if "x \<in> T" for x using that b by auto
  have vis: "visited c ?v x = visited c v1 x" if "x \<in> T" for x using vx [OF that] by simp
  have S: "rs_varStacks st2 = rs_varStacks st1" by (rule moves_nil [OF w(1)])
  have S': "rs_varStacks ?st' = rs_varStacks st" by (rule pushed_on_pop) (use movesD(2) [OF m] S in simp)
  have g1: "grows_to st st1" and g2: "grows_to st1 st2" using m w(1) by (simp_all add: moves_def)
  have pop: "grows_to a ?st' \<longleftrightarrow> grows_to a st2" for a by (simp add: grows_to_def pop_fields)
  have len: "length (rs_insts st1 a) = length (rs_insts st a)" for a using arg_cong [OF sh, of length a] by simp
  have via: "same_at A C a k j" if "same_at A B a k j" "same_at B C a k j" "length (B a) = length (A a)" for A B C :: "mir_id \<Rightarrow> mir_inst list" and a k j
    using that by (simp add: same_at_def)
  have N: "names_ok n0 st \<Longrightarrow> names_ok n0 ?st'" using movesD(3) [OF m] movesD(3) [OF w(1)] names_ok_pop by blast
  show ?thesis
    unfolding walked_def
  proof (intro conjI allI ballI impI)
    show "moves n0 st ?st' []" using grows_trans [OF g1 g2] S' N by (simp add: moves_def pop pushed_on_def)
    show "map shape (rs_insts ?st' a) = map shape (rs_insts st a)" for a using w(2) sh by (simp add: pop_fields)
  next
    fix x assume x: "x \<in> insert b T"
    show "grows_to st (?v x)" using x w(3) grows_trans [OF g1] vx by auto
    show "names_ok n0 st \<Longrightarrow> names_ok n0 (?v x)" using x w(4) movesD(3) [OF m] vx by auto
    show "grows_to (visited c ?v x) ?st'" using x g2 w(5) vis vb by (auto simp: pop)
    show "map shape (rs_insts (?v x) a) = map shape (rs_insts st a)" for a using x w(6) sh vx by auto
    show "map shape (rs_insts (visited c ?v x) a) = map shape (rs_insts st a)" for a using x w(14) sh vb vis by (metis insertE)
  next
    fix q assume "q \<in> set [b]"
    then show "rs_varStacks (?v q) = rs_varStacks st" by simp
  next
    fix x y assume x: "x \<in> insert b T" and y: "D y = Some x" "x \<noteq> y"
    show "rs_varStacks (?v y) = rs_varStacks (visited c ?v x)"
    proof (cases "x = b")
      case True
      then have "y \<in> set tops" "y \<in> T" using y tops closed(2) by auto
      then show ?thesis using w(7) vx [of y] vb True by simp
    next
      case False
      then have "x \<in> T" "y \<in> T" using x closed(1) y by blast+
      then show ?thesis using w(8) [OF _ y] vx [of y] vis by simp
    qed
  next
    fix x y assume x: "x \<in> insert b T" "y \<in> insert b T" "x \<noteq> y"
    have lo: "rs_nextId st1 \<le> rs_nextId (v1 a)" if "a \<in> T" for a using w(3) [OF that] by (simp add: grows_to_def)
    show "rs_nextId (visited c ?v x) \<le> rs_nextId (?v y) \<or> rs_nextId (visited c ?v y) \<le> rs_nextId (?v x)"
    proof (cases "x = b \<or> y = b")
      case True
      then show ?thesis using x lo vb vx by auto
    next
      case False
      then have "x \<in> T" "y \<in> T" using x by auto
      then show ?thesis using w(9) [OF _ _ x(3)] vx vis by simp
    qed
  next
    fix a k j assume n: "\<forall>x \<in> insert b T. \<not> visit_slot R c x a k j"
    then have "same_at (rs_insts st) (rs_insts st1) a k j" "same_at (rs_insts st1) (rs_insts st2) a k j" using fr w(10) by blast+
    then show "same_at (rs_insts st) (rs_insts ?st') a k j" using via len by (simp add: pop_fields)
  next
    fix x a k j assume x: "x \<in> insert b T" and s: "visit_slot R c x a k j"
    have none: "\<not> visit_slot R c y a k j" if "y \<noteq> x" for y using visit_slots_disjoint [OF fit s] that by blast
    show "same_at (rs_insts st) (rs_insts (?v x)) a k j"
    proof (cases "x = b")
      case True
      then show ?thesis by (simp add: same_at_def)
    next
      case False
      then have "x \<in> T" using x by blast
      then have "same_at (rs_insts st1) (rs_insts (v1 x)) a k j" by (rule w(11) [OF _ s])
      moreover have "same_at (rs_insts st) (rs_insts st1) a k j" using fr none [of b] False by blast
      ultimately show ?thesis using via len False by simp
    qed
    show "same_at (rs_insts (visited c ?v x)) (rs_insts ?st') a k j"
    proof (cases "x = b")
      case True
      have "\<not> visit_slot R c y a k j" if "y \<in> T" for y
        by (rule none) (use that b True in blast)
      then show ?thesis using w(10) vb True by (simp add: pop_fields)
    next
      case False
      then have "x \<in> T" using x by blast
      then show ?thesis using w(12) [OF _ s] vis by (simp add: pop_fields)
    qed
  next
    assume "rc_entry c \<in> insert b T"
    then show "reg_names (?v (rc_entry c)) = reg_names st" using entry by auto
  qed
qed

section \<open>The walk returns\<close>

text \<open>The bodies of the blocks to visit are those of the start: nothing else writes them.\<close>

lemma body_same:
  assumes sh: "map shape (I' b) = map shape (I b)" and s: "\<And>k j. length (R b) \<le> k \<Longrightarrow> same_at I I' b k j"
  shows "drop (length (R b)) (I' b) = drop (length (R b)) (I b)"
proof (rule nth_equalityI)
  have l: "length (I' b) = length (I b)" using arg_cong [OF sh, of length] by simp
  then show "length (drop (length (R b)) (I' b)) = length (drop (length (R b)) (I b))" by simp
  fix a assume "a < length (drop (length (R b)) (I' b))"
  then have a: "length (R b) + a < length (I b)" using l by simp
  have "I' b ! (length (R b) + a) = I b ! (length (R b) + a)"
  proof (rule inst_eqI)
    show "shape (I' b ! (length (R b) + a)) = shape (I b ! (length (R b) + a))" by (rule same_shape_nth [OF sh a])
    show "mi_operands (I' b ! (length (R b) + a)) ! j = mi_operands (I b ! (length (R b) + a)) ! j" for j
      using s [of "length (R b) + a" j] a by (simp add: same_at_def opat_def)
  qed
  then show "drop (length (R b)) (I' b) ! a = drop (length (R b)) (I b) ! a" using a l by simp
qed

lemma own_slot: "length (R b) \<le> k \<Longrightarrow> visit_slot R c b b k j"
  by (simp add: visit_slot_def)

lemma rename_blocks_walk:
  assumes fit: "ctx_fits R c" and t: "tree_ctx D c" and small: "\<forall>p. VReg p \<in> set (rc_params c) \<longrightarrow> p < n0"
  shows "(\<forall>q \<in> set todo. D q \<noteq> None \<and> post_number (rc_cfg c, rc_entry c) q < n) \<Longrightarrow> antichain D todo \<Longrightarrow>
    (rc_entry c \<in> set todo \<longrightarrow> todo = [rc_entry c] \<and> (\<forall>r. reg_names st r = {})) \<Longrightarrow>
    phi_shaped R (rc_cfg c) (rs_insts st) \<Longrightarrow>
    (\<forall>x \<in> subtree D todo. \<forall>i \<in> set (drop (length (R x)) (rs_insts st x)). inst_ok n0 i) \<Longrightarrow>
    \<exists>st' v. rename_blocks c todo st = Some st' \<and> walked R c D n0 (subtree D todo) todo st st' v"
proof (induction n arbitrary: todo st)
  case 0
  then have "todo = []" by (cases todo) auto
  then show ?case using walked_empty by (auto simp: rename_blocks.simps)
next
  case (Suc n)
  note IH = Suc.IH
  show ?case
    using Suc.prems
  proof (induction todo arbitrary: st)
    case Nil
    then show ?case using walked_empty by (auto simp: rename_blocks.simps)
  next
    case (Cons b bs)
    let ?num = "post_number (rc_cfg c, rc_entry c)"
    have b: "D b \<noteq> None" "?num b < Suc n" using Cons.prems(1) by simp_all
    have blk: "rc_isBlock c b" by (rule tree_ctxD(2) [OF t b(1)])
    note node = subtree_node [OF t b(1)]
    have rb: "reachable (flow_edge (rc_cfg c)) (rc_entry c) b"
      using ssa.tree_okD(2) [OF tree_ctxD(1) [OF t]] b(1) by fastforce
    obtain st1 pushed where v: "visit_block c b st = (st1, pushed)" by (cases "visit_block c b st")
    have okb: "\<forall>i \<in> set (drop (length (R b)) (rs_insts st b)). inst_ok n0 i" using Cons.prems(5) node(1) subtree_Cons [of D b bs] by auto
    have first: "b = rc_entry c \<longrightarrow> (\<forall>r. reg_names st r = {}) \<and> (\<forall>p. VReg p \<in> set (rc_params c) \<longrightarrow> p < n0)"
      using Cons.prems(3) small by simp
    note vo = visit_block_ok [OF fit rb Cons.prems(4) okb first v]
    have sh1: "\<And>a. map shape (rs_insts st1 a) = map shape (rs_insts st a)"
      and fr1: "\<And>a k j. \<not> visit_slot R c b a k j \<Longrightarrow> same_at (rs_insts st) (rs_insts st1) a k j" using vo by (simp_all add: visit_ok_def)
    have ch: "\<forall>q \<in> set (rc_domChildren c b). D q \<noteq> None \<and> ?num q < n"
      using tree_ctxD(4) [OF t] child_num(1) [OF t] b(2) by fastforce
    have noentry: "rc_entry c \<notin> set (rc_domChildren c b)" using tree_ctxD(4) [OF t] child_num(2) [OF t] by blast
    have ne: "x \<noteq> b" if "x \<in> subtree D (rc_domChildren c b)" for x using that node(2) by blast
    have ok1: "\<forall>x \<in> subtree D (rc_domChildren c b). \<forall>i \<in> set (drop (length (R x)) (rs_insts st1 x)). inst_ok n0 i"
    proof
      fix x assume x: "x \<in> subtree D (rc_domChildren c b)"
      have "same_at (rs_insts st) (rs_insts st1) x k j" if "length (R x) \<le> k" for k j
        using fr1 visit_slots_disjoint [OF fit own_slot [of R x k c j, OF that], of b] ne [OF x] by blast
      then have "drop (length (R x)) (rs_insts st1 x) = drop (length (R x)) (rs_insts st x)" by (rule body_same [OF sh1])
      moreover have "x \<in> subtree D (b # bs)" using x node(1) subtree_Cons [of D b bs] by blast
      ultimately show "\<forall>i \<in> set (drop (length (R x)) (rs_insts st1 x)). inst_ok n0 i" using bspec [OF Cons.prems(5)] by simp
    qed
    obtain st2 v1 where w1: "rename_blocks c (rc_domChildren c b) st1 = Some st2"
      "walked R c D n0 (subtree D (rc_domChildren c b)) (rc_domChildren c b) st1 st2 v1"
      using IH [OF ch children_antichain [OF t] _ phi_shaped_cong [OF Cons.prems(4) sh1] ok1] noentry by blast
    have selfs: "q \<in> subtree D qs" if "q \<in> set qs" "D q \<noteq> None" for q qs
      using that on_chain.self [of D q] unfolding subtree_def by blast
    have e1: "rc_entry c \<notin> subtree D (rc_domChildren c b)" by (rule entry_subtree [OF t noentry])
    have W: "walked R c D n0 (subtree D [b]) [b] st (fold pop_reg pushed st2) (v1(b := st))"
      unfolding node(1)
      by (rule walked_node [OF fit v vo w1(2) node(2) tree_ctxD(4) [OF t] e1]) (use subtree_closed selfs ch in blast)+
    let ?st3 = "fold pop_reg pushed st2"
    note wd = walkedD [OF W]
    have dis: "subtree D [b] \<inter> subtree D bs = {}" by (rule subtree_disjoint [OF Cons.prems(2)])
    have ok3: "\<forall>x \<in> subtree D bs. \<forall>i \<in> set (drop (length (R x)) (rs_insts ?st3 x)). inst_ok n0 i"
    proof
      fix x assume x: "x \<in> subtree D bs"
      have "same_at (rs_insts st) (rs_insts ?st3) x k j" if "length (R x) \<le> k" for k j
      proof (rule wd(10), rule ballI)
        fix y assume "y \<in> subtree D [b]"
        then have "y \<noteq> x" using x dis by blast
        then show "\<not> visit_slot R c y x k j" using visit_slots_disjoint [OF fit own_slot [of R x k c j, OF that], of y] by blast
      qed
      then have "drop (length (R x)) (rs_insts ?st3 x) = drop (length (R x)) (rs_insts st x)" by (rule body_same [OF wd(2)])
      moreover have "x \<in> subtree D (b # bs)" using x subtree_Cons [of D b bs] by blast
      ultimately show "\<forall>i \<in> set (drop (length (R x)) (rs_insts ?st3 x)). inst_ok n0 i" using bspec [OF Cons.prems(5)] by simp
    qed
    have bs: "\<forall>q \<in> set bs. D q \<noteq> None \<and> ?num q < Suc n" using Cons.prems(1) by simp
    have nob: "rc_entry c \<notin> set bs" using Cons.prems(2,3) by (cases bs) (auto simp: antichain_def)
    obtain st4 v2 where w2: "rename_blocks c bs ?st3 = Some st4" "walked R c D n0 (subtree D bs) bs ?st3 st4 v2"
      using Cons.IH [OF bs antichain_Cons [OF Cons.prems(2)] _ phi_shaped_cong [OF Cons.prems(4) wd(2)] ok3] nob by blast
    have run: "rename_blocks c (b # bs) st = Some st4"
      using blk v w1(1) w2(1) by (subst rename_blocks.simps) simp
    have e2: "rc_entry c \<notin> subtree D bs" by (rule entry_subtree [OF t nob])
    have "walked R c D n0 (subtree D [b] \<union> subtree D bs) ([b] @ bs) st st4 (\<lambda>x. if x \<in> subtree D [b] then (v1(b := st)) x else v2 x)"
    proof (rule walked_append [OF fit W w2(2) dis _ _ _ _ e2])
      show "set [b] \<subseteq> subtree D [b]" using selfs [of b "[b]"] b by simp
      show "set bs \<subseteq> subtree D bs" using selfs bs by blast
    qed (rule subtree_closed; assumption)+
    then show ?case using run by (intro exI conjI) (assumption, simp add: subtree_Cons [of D b bs])
  qed
qed

end
