(* ===== verification/SsaConstruction.thy ===== *)
theory SsaConstruction
  imports SsaWalk
begin

text \<open>
  The whole SSA construction: it returns, the constructed function computes what the original one
  does on every path, and every definition of it writes a register of its own.
\<close>

section \<open>The input\<close>

text \<open>The functions the pass is correct for: the blocks are those of the flow graph, the entry has
  no predecessor, registers are numbered below the id counter, and no instruction writes one
  virtual register through two operands or an implicit one.\<close>

definition ssa_input :: "code_flow_result \<Rightarrow> mir_id \<Rightarrow> reg_ref list \<Rightarrow> mir_block list \<Rightarrow> mir_id \<Rightarrow> bool" where
  "ssa_input cfg entry params blocks n0 \<longleftrightarrow>
     cfr_wf cfg \<and> \<not> reachable (flow_edge cfg) entry MIRID_INVALID \<and>
     {v. reachable (flow_edge cfg) entry v} \<subseteq> mb_id ` set blocks \<and> distinct (map mb_id blocks) \<and>
     getPredecessors cfg entry = [] \<and>
     (\<forall>b \<in> set blocks. \<forall>i \<in> set (mb_insts b). inst_ok n0 i) \<and> (\<forall>p. VReg p \<in> set params \<longrightarrow> p < n0)"

lemma ssa_inputD:
  assumes "ssa_input cfg entry params blocks n0"
  shows "cfr_wf cfg" "\<not> reachable (flow_edge cfg) entry MIRID_INVALID"
    "{v. reachable (flow_edge cfg) entry v} \<subseteq> mb_id ` set blocks" "distinct (map mb_id blocks)"
    "getPredecessors cfg entry = []" "b \<in> set blocks \<Longrightarrow> i \<in> set (mb_insts b) \<Longrightarrow> inst_ok n0 i"
    "VReg p \<in> set params \<Longrightarrow> p < n0"
  using assms unfolding ssa_input_def by blast+

definition block_insts :: "mir_block list \<Rightarrow> mir_id \<Rightarrow> mir_inst list" where
  "block_insts blocks b =
     (case map_of (map (\<lambda>blk. (mb_id blk, mb_insts blk)) blocks) b of Some is \<Rightarrow> is | None \<Rightarrow> [])"

lemma block_insts_member: "i \<in> set (block_insts blocks b) \<Longrightarrow> \<exists>blk \<in> set blocks. mb_id blk = b \<and> i \<in> set (mb_insts blk)"
proof -
  assume "i \<in> set (block_insts blocks b)"
  then obtain "is" where m: "map_of (map (\<lambda>blk. (mb_id blk, mb_insts blk)) blocks) b = Some is" "i \<in> set is"
    by (cases "map_of (map (\<lambda>blk. (mb_id blk, mb_insts blk)) blocks) b") (simp_all add: block_insts_def)
  from map_of_SomeD [OF m(1)] m(2) show ?thesis by auto
qed

section \<open>The placed phis\<close>

text \<open>The registers of the phis of a block, the last one inserted first.\<close>

definition phi_regs :: "(mir_id \<times> mir_id \<times> nat) list \<Rightarrow> mir_id \<Rightarrow> mir_id list" where
  "phi_regs ins b = rev (map fst (filter (\<lambda>(r, b', n). b' = b) ins))"

lemma place_phis_block:
  assumes "\<forall>(r, b, n) \<in> set ins. n = preds b"
  shows "place_phis row ins blocks b = map (\<lambda>r. createPhiInstruction row r (preds b)) (phi_regs ins b) @ block_insts blocks b"
proof -
  have "fold (\<lambda>(reg, b, n) insts. insts(b := createPhiInstruction row reg n # insts b)) ins f b =
      map (\<lambda>r. createPhiInstruction row r (preds b)) (phi_regs ins b) @ f b" for f
    using assms by (induction ins arbitrary: f) (auto simp: phi_regs_def)
  then show ?thesis by (simp add: place_phis_def block_insts_def)
qed

lemma phi_regs_member: "r \<in> set (phi_regs ins b) \<longleftrightarrow> (\<exists>n. (r, b, n) \<in> set ins)"
  by (force simp: phi_regs_def)

lemma phi_regs_distinct:
  assumes "distinct ins" "\<forall>(r, b, n) \<in> set ins. n = preds b"
  shows "distinct (phi_regs ins b)"
proof -
  have "inj_on fst (set (filter (\<lambda>(r, b', n). b' = b) ins))"
  proof (rule inj_onI)
    fix x y assume "x \<in> set (filter (\<lambda>(r, b', n). b' = b) ins)" "y \<in> set (filter (\<lambda>(r, b', n). b' = b) ins)" "fst x = fst y"
    then have "snd x = (b, preds b)" "snd y = (b, preds b)" "fst x = fst y" using assms(2) by auto
    then show "x = y" by (simp add: prod_eq_iff)
  qed
  then show ?thesis using assms(1) by (simp add: phi_regs_def distinct_map)
qed

lemma placed_shaped:
  assumes ins: "distinct ins" "\<forall>(r, b, n) \<in> set ins. n = length (getPredecessors cfg b)"
    and ok: "\<forall>b. \<forall>i \<in> set (block_insts blocks b). mi_opcode i \<noteq> PHI"
  shows "phi_shaped (phi_regs ins) cfg (place_phis row ins blocks)"
    "k < length (phi_regs ins b) \<Longrightarrow> phi_originals (place_phis row ins blocks) b k = Some (phi_regs ins b ! k)"
    "drop (length (phi_regs ins b)) (place_phis row ins blocks b) = block_insts blocks b"
proof -
  note pl = place_phis_block [of ins "\<lambda>b. length (getPredecessors cfg b)", OF ins(2)]
  have op: "mi_opcode (place_phis row ins blocks b ! k) = PHI \<longleftrightarrow> k < length (phi_regs ins b)" if "k < length (place_phis row ins blocks b)" for b k
  proof (cases "k < length (phi_regs ins b)")
    case True
    then show ?thesis by (simp add: pl nth_append createPhiInstruction_def)
  next
    case False
    then have "place_phis row ins blocks b ! k \<in> set (block_insts blocks b)" using that by (simp add: pl nth_append)
    then show ?thesis using ok False by blast
  qed
  have kinds: "map op_kind (mi_operands (place_phis row ins blocks b ! k)) = replicate (Suc (length (getPredecessors cfg b))) (Some (OpReg (VReg 0)))"
    if "k < length (phi_regs ins b)" for b k
    using that by (simp add: pl nth_append createPhiInstruction_def op_kind_def)
  show "phi_shaped (phi_regs ins) cfg (place_phis row ins blocks)"
    unfolding phi_shaped_def
  proof (intro allI conjI impI)
    show "length (phi_regs ins b) \<le> length (place_phis row ins blocks b)" for b by (simp add: pl)
    show "distinct (phi_regs ins b)" for b by (rule phi_regs_distinct [OF ins])
  qed (use op kinds in simp_all)
  show "phi_originals (place_phis row ins blocks) b k = Some (phi_regs ins b ! k)" if "k < length (phi_regs ins b)"
    using that by (simp add: phi_originals_def pl nth_append createPhiInstruction_def virtual_dst_def)
  show "drop (length (phi_regs ins b)) (place_phis row ins blocks b) = block_insts blocks b" by (simp add: pl)
qed

lemma set_defined_ids:
  "r \<in> set (defined_ids params blocks) \<longleftrightarrow>
     VReg r \<in> set params \<or> (\<exists>b \<in> set blocks. \<exists>i \<in> set (mb_insts b). VReg r \<in> set (getDefinedRegisters i))"
proof -
  have "r \<in> reg_id ` set (filter isVirtual xs) \<longleftrightarrow> VReg r \<in> set xs" for xs
    by (force elim: isVirtual.elims)
  from this [of "params @ concat (map getDefinedRegisters (concat (map mb_insts blocks)))"] show ?thesis
    unfolding defined_ids_def by (simp del: filter_append set_append set_filter) auto
qed

section \<open>The run\<close>

abbreviation ssa_ctx :: "code_flow_result \<Rightarrow> mir_id \<Rightarrow> reg_ref list \<Rightarrow> mir_id list \<Rightarrow> (mir_id \<rightharpoonup> mir_id) \<Rightarrow> (mir_id \<Rightarrow> mir_inst list) \<Rightarrow> rename_ctx" where
  "ssa_ctx cfg entry params ids D insts \<equiv>
     \<lparr>rc_cfg = cfg, rc_entry = entry, rc_params = params, rc_isBlock = (\<lambda>b. b \<in> set ids),
      rc_domChildren = dom_children D ids, rc_phiOriginalReg = phi_originals insts\<rparr>"

abbreviation ssa_start :: "mir_id \<Rightarrow> (mir_id \<Rightarrow> mir_inst list) \<Rightarrow> rename_state" where
  "ssa_start n0 insts \<equiv> \<lparr>rs_nextId = n0, rs_varStacks = (\<lambda>_. []), rs_undefRegs = Map.empty, rs_insts = insts\<rparr>"

text \<open>A register without a phi in \<open>b\<close> is neither defined nor merged between \<open>b\<close> and its parent.\<close>

definition untouched :: "(mir_id \<Rightarrow> mir_id list) \<Rightarrow> code_flow_result \<Rightarrow> mir_id \<Rightarrow> (mir_id \<rightharpoonup> mir_id) \<Rightarrow> mir_block list \<Rightarrow> bool" where
  "untouched R cfg entry D blocks \<longleftrightarrow>
     (\<forall>p b d y r. flow_edge cfg p b \<longrightarrow> b \<noteq> entry \<longrightarrow> D b = Some d \<longrightarrow> on_chain D p y \<longrightarrow> on_chain D y d \<longrightarrow> y \<noteq> d \<longrightarrow>
        r \<notin> set (R b) \<longrightarrow> r \<notin> set (R y) \<and> (\<forall>i \<in> set (block_insts blocks y). VReg r \<notin> set (getDefinedRegisters i)))"

lemma construction_runs:
  assumes inp: "ssa_input cfg entry params blocks n0"
  obtains ins D st' v where
    "run_NonSsaToSsa row cfg entry params blocks n0 = Some st'"
    "ssa.exact_tree (cfg, entry) D"
    "ctx_fits (phi_regs ins) (ssa_ctx cfg entry params (map mb_id blocks) D (place_phis row ins blocks))"
    "phi_shaped (phi_regs ins) cfg (place_phis row ins blocks)"
    "walked (phi_regs ins) (ssa_ctx cfg entry params (map mb_id blocks) D (place_phis row ins blocks)) D n0
       {x. reachable (flow_edge cfg) entry x} [entry] (ssa_start n0 (place_phis row ins blocks)) st' v"
    "untouched (phi_regs ins) cfg entry D blocks" "phi_regs ins entry = []" "\<forall>b. \<forall>r \<in> set (phi_regs ins b). r < n0"
    "\<forall>b. drop (length (phi_regs ins b)) (place_phis row ins blocks b) = block_insts blocks b"
proof -
  note i = ssa_inputD [OF inp]
  let ?B = "mb_id ` set blocks" and ?defs = "buildVirtualRegDefPlaces (Some entry) params blocks" and ?regs = "defined_ids params blocks"
  obtain order D where o: "buildPostOrder cfg entry = Some order" "buildImmDomTree cfg entry order = Some D"
    "ssa.exact_tree (cfg, entry) D"
    using idom_tree_exact [OF i(1,2)] by blast
  obtain DF where DF: "buildDominanceFrontier cfg D blocks = Some DF"
    "\<And>x. DF x = {b \<in> ?B. adds_frontier cfg entry D b x}"
    "\<And>x b. b \<noteq> entry \<Longrightarrow> b \<in> DF x \<longleftrightarrow> b \<in> ?B \<and> dominance_frontier (flow_edge cfg) entry x b"
    using frontier_exact [OF i(1) o(3), of blocks] by blast
  have sub: "\<And>x. DF x \<subseteq> ?B" unfolding DF(2) by blast
  have fB: "finite ?B" "\<forall>b \<in> ?B. b \<in> ?B" by simp_all
  obtain ins where ins: "insert_phis cfg (\<lambda>b. b \<in> ?B) DF ?defs ?regs = Some ins" "distinct ?regs \<longrightarrow> distinct ins"
    "\<forall>r b n. (r, b, n) \<in> set ins \<longleftrightarrow> r \<in> set ?regs \<and> iterated_frontier DF (?defs r) b \<and> n = length (getPredecessors cfg b)"
    using insert_phis_exact [where DF = DF and is_block = "\<lambda>b. b \<in> ?B" and defSites = ?defs, OF fB sub finite_def_places, of cfg ?regs]
    by blast
  let ?I = "place_phis row ins blocks" and ?R = "phi_regs ins"
  let ?c = "ssa_ctx cfg entry params (map mb_id blocks) D ?I"
  have dist: "distinct ins" using ins(2) by (simp add: defined_ids_def)
  have np: "\<forall>(r, b, n) \<in> set ins. n = length (getPredecessors cfg b)" using ins(3) by auto
  have member: "r \<in> set (?R b) \<longleftrightarrow> r \<in> set ?regs \<and> iterated_frontier DF (?defs r) b" for r b
    using ins(3) by (simp add: phi_regs_member)
  have nophi: "\<forall>b. \<forall>i \<in> set (block_insts blocks b). mi_opcode i \<noteq> PHI"
    using block_insts_member i(6) unfolding inst_ok_def by blast
  note pl = placed_shaped [where row = row and blocks = blocks and cfg = cfg, OF dist np nophi]
  have chains: "on_chain D x entry \<longleftrightarrow> reachable (flow_edge cfg) entry x" for x
    using o(3) dominates_root [of "flow_edge cfg" entry x] exact_tree_idom(2) [OF o(3), of x] on_chain_defined [of D x entry]
    unfolding ssa.exact_tree_def by fastforce
  then have sub_eq: "subtree D [entry] = {x. reachable (flow_edge cfg) entry x}" by (simp add: subtree_def)
  have fit: "ctx_fits ?R ?c"
    unfolding ctx_fits_def
  proof (simp, intro conjI allI impI)
    show "cfr_wf cfg" by (rule i(1))
    show "phi_originals ?I b k = Some (?R b ! k)" if "k < length (?R b)" for b k by (rule pl(2) [OF that])
    show "s \<in> mb_id ` set blocks" if "reachable (flow_edge cfg) entry p" "flow_edge cfg p s" for p s
      using reachable_step [OF that] i(3) by blast
  qed
  have tc: "tree_ctx D ?c"
    unfolding tree_ctx_def
  proof (simp, intro conjI allI impI)
    show "ssa.tree_ok (cfg, entry) D" using o(3) by (simp add: ssa.exact_tree_def)
    show "b \<in> mb_id ` set blocks" if "\<exists>y. D b = Some y" for b
      using that exact_tree_idom(2) [OF o(3), of b] i(3) by auto
    show "distinct (dom_children D (map mb_id blocks) b)" for b using i(4) by (simp add: dom_children_def)
    show "y \<in> set (dom_children D (map mb_id blocks) b) \<longleftrightarrow> D y = Some b \<and> b \<noteq> y" for b y
      using exact_tree_idom(2) [OF o(3), of y] i(3) by (auto simp: dom_children_def)
  qed
  have ent: "D entry = Some entry" by (rule exact_tree_idom(1) [OF o(3)])
  have top: "\<forall>q \<in> set [entry]. D q \<noteq> None \<and> post_number (rc_cfg ?c, rc_entry ?c) q < Suc (post_number (cfg, entry) entry)"
    using ent by simp
  have anti: "antichain D [entry]" by (simp add: antichain_def)
  have start: "rc_entry ?c \<in> set [entry] \<longrightarrow> [entry] = [rc_entry ?c] \<and> (\<forall>r. reg_names (ssa_start n0 ?I) r = {})"
    by (simp add: reg_names_def)
  have shp: "phi_shaped ?R (rc_cfg ?c) (rs_insts (ssa_start n0 ?I))" using pl(1) by simp
  have ok: "\<forall>x \<in> subtree D [entry]. \<forall>j \<in> set (drop (length (?R x)) (rs_insts (ssa_start n0 ?I) x)). inst_ok n0 j"
    using block_insts_member i(6) by (fastforce simp: pl(3))
  have small: "\<forall>p. VReg p \<in> set (rc_params ?c) \<longrightarrow> p < n0" using i(7) by simp
  obtain st' v where w: "rename_blocks ?c [entry] (ssa_start n0 ?I) = Some st'"
    "walked ?R ?c D n0 (subtree D [entry]) [entry] (ssa_start n0 ?I) st' v"
    using rename_blocks_walk [OF fit tc small top anti start shp ok] by blast
  have noPhi: "\<not> (\<exists>b \<in> set blocks. \<exists>j \<in> set (mb_insts b). mi_opcode j = PHI)" using i(6) by (auto simp: inst_ok_def)
  have run: "run_NonSsaToSsa row cfg entry params blocks n0 = Some st'"
    using noPhi o(1,2) DF(1) ins(1) w(1) by (simp add: run_NonSsaToSsa_def renameVariables_def)
  have none: "?R entry = []"
  proof (rule ccontr)
    assume "?R entry \<noteq> []"
    then obtain r where "r \<in> set (?R entry)" by (cases "?R entry") auto
    then have "iterated_frontier DF (?defs r) entry" using member by blast
    then obtain x where "entry \<in> DF x" by (auto elim: iterated_frontier.cases)
    then show False using i(5) by (simp add: DF(2) adds_frontier_def)
  qed
  have rsmall: "\<forall>b. \<forall>r \<in> set (?R b). r < n0"
    using member set_defined_ids [of _ params blocks] i(6,7) unfolding inst_ok_def small_regs_def by blast
  have unt: "untouched ?R cfg entry D blocks"
    unfolding untouched_def
  proof (intro allI impI)
    fix p b d y r
    assume e: "flow_edge cfg p b" "b \<noteq> entry" "D b = Some d" and y: "on_chain D p y" "on_chain D y d" "y \<noteq> d" and r: "r \<notin> set (?R b)"
    have rp: "reachable (flow_edge cfg) entry p" using on_chain_defined [OF y(1)] exact_tree_idom(2) [OF o(3), of p] by simp
    have dom: "dominates (flow_edge cfg) entry y p" using o(3) rp y(1) by (simp add: ssa.exact_tree_def)
    have rb: "reachable (flow_edge cfg) entry b" by (rule reachable_step [OF rp e(1)])
    have idom: "is_idom (flow_edge cfg) entry d b" using exact_tree_idom(3) [OF o(3) e(2)] e(3) by blast
    have "\<not> sdom (flow_edge cfg) entry y b"
    proof
      assume "sdom (flow_edge cfg) entry y b"
      then have yd: "dominates (flow_edge cfg) entry y d" using idom by (simp add: is_idom_def)
      have "reachable (flow_edge cfg) entry y" using dominates_reachable [OF dom] by blast
      then have "dominates (flow_edge cfg) entry d y" using o(3) y(2) by (simp add: ssa.exact_tree_def)
      then show False using dominates_antisym [OF yd] y(3) by blast
    qed
    then have "dominance_frontier (flow_edge cfg) entry y b" using e(1) dom unfolding dominance_frontier_def by blast
    then have f: "b \<in> DF y" using DF(3) [OF e(2)] rb i(3) by blast
    have no: "\<not> iterated_frontier DF (?defs r) b \<or> r \<notin> set ?regs" using r member by blast
    have "r \<notin> set (?R y)" using no f member iterated_frontier.step [of DF "?defs r" y b] by blast
    moreover have "VReg r \<notin> set (getDefinedRegisters j)" if j: "j \<in> set (block_insts blocks y)" for j
    proof
      assume d: "VReg r \<in> set (getDefinedRegisters j)"
      obtain blk where blk: "blk \<in> set blocks" "mb_id blk = y" "j \<in> set (mb_insts blk)" using block_insts_member [OF j] by blast
      then have "r \<in> set ?regs" using d set_defined_ids by blast
      moreover have "y \<in> ?defs r" using blk d unfolding buildVirtualRegDefPlaces_def by blast
      then have "iterated_frontier DF (?defs r) b" using f by (rule iterated_frontier.base)
      ultimately show False using no by blast
    qed
    ultimately show "r \<notin> set (?R y) \<and> (\<forall>j \<in> set (block_insts blocks y). VReg r \<notin> set (getDefinedRegisters j))" by blast
  qed
  have bodies: "\<forall>b. drop (length (?R b)) (?I b) = block_insts blocks b" using pl(3) by blast
  show thesis by (rule that [OF run o(3) fit pl(1) w(2) [unfolded sub_eq] unt none rsmall bodies])
qed

section \<open>A block of the constructed function\<close>

lemma later_undef_final: "names_ok n0 st \<Longrightarrow> later_undef st (rs_undefRegs st)"
  unfolding names_ok_def later_undef_def reg_names_def by (auto simp: elem_set)

text \<open>\<open>S0\<close>, \<open>S1\<close> and \<open>S2\<close> are the stacks at the start of the block, after its phis and at its end.\<close>

lemma constructed_block:
  assumes fit: "ctx_fits R c" and sh: "phi_shaped R (rc_cfg c) I"
    and w: "walked R c D n0 T [rc_entry c] (ssa_start n0 I) st' v" and T: "T = {x. reachable (flow_edge (rc_cfg c)) (rc_entry c) x}"
    and body: "drop (length (R x)) (I x) = is" and ok: "\<forall>i \<in> set is. inst_ok n0 i"
    and small: "\<forall>p. VReg p \<in> set (rc_params c) \<longrightarrow> p < n0" and x: "x \<in> T"
  shows "\<exists>st0 st1 st2 p0 p2. push_params c x (v x) = (st0, p0) \<and> moves n0 (v x) st0 p0 \<and> moves n0 st0 st1 (R x) \<and>
    (\<forall>k < length (R x). rs_varStacks st1 (R x ! k) \<noteq> [] \<and> rs_nextId (v x) \<le> hd (rs_varStacks st1 (R x ! k)) \<and>
       hd (rs_varStacks st1 (R x ! k)) < rs_nextId st1 \<and>
       opat (rs_insts st') x k 0 = Some (OpReg (VReg (hd (rs_varStacks st1 (R x ! k)))))) \<and>
    inj_on (\<lambda>r. hd (rs_varStacks st1 r)) (set (R x)) \<and>
    rename_body is st1 = (drop (length (R x)) (rs_insts st' x), st2, p2) \<and> new_defs n0 st1 st2 p2 \<and>
    rs_varStacks (visited c v x) = rs_varStacks st2 \<and> grows_to st2 (visited c v x) \<and>
    names_ok n0 (v x) \<and> later_undef (visited c v x) (rs_undefRegs st') \<and>
    (\<forall>s. flow_edge (rc_cfg c) x s \<longrightarrow> (\<forall>k < length (R s).
       opat (rs_insts st') s k (pred_slot c x s) = Some (OpReg (VReg (name_of (rs_undefRegs st') (rs_varStacks st2) (R s ! k))))))"
proof -
  note W = walkedD [OF w]
  have rx: "reachable (flow_edge (rc_cfg c)) (rc_entry c) x" using x T by simp
  have shv: "\<And>b. map shape (rs_insts (v x) b) = map shape (I b)" using W(6) [OF x] by simp
  have she: "\<And>b. map shape (rs_insts (visited c v x) b) = map shape (I b)" using W(14) [OF x] by simp
  have shf: "\<And>b. map shape (rs_insts st' b) = map shape (I b)" using W(2) by simp
  have lenf: "length (rs_insts (visited c v x) b) = length (I b)" for b using arg_cong [OF she, of length b] by simp
  have sv: "phi_shaped R (rc_cfg c) (rs_insts (v x))" by (rule phi_shaped_cong [OF sh shv])
  have bv: "drop (length (R x)) (rs_insts (v x) x) = is"
    using body_same [of "rs_insts (v x)" x I R, OF shv] W(11) [OF x own_slot] body by simp
  have bf: "drop (length (R x)) (rs_insts st' x) = drop (length (R x)) (rs_insts (visited c v x) x)"
    by (rule body_same) (use shf she W(12) [OF x own_slot] in simp_all)
  have okv: "\<forall>i \<in> set (drop (length (R x)) (rs_insts (v x) x)). inst_ok n0 i" using ok bv by simp
  have empty: "\<And>r. reg_names (ssa_start n0 I) r = {}" by (simp add: reg_names_def)
  have first: "x = rc_entry c \<longrightarrow> (\<forall>r. reg_names (v x) r = {}) \<and> (\<forall>p. VReg p \<in> set (rc_params c) \<longrightarrow> p < n0)"
    using W(13) x small empty by auto
  obtain e pushed where vis: "visit_block c x (v x) = (e, pushed)" by (cases "visit_block c x (v x)")
  then have e: "visited c v x = e" by simp
  obtain st0 st1 st2 p0 p2 where V: "push_params c x (v x) = (st0, p0)" "moves n0 st0 st1 (R x)"
    "\<forall>k < length (R x). rs_varStacks st1 (R x ! k) \<noteq> [] \<and> rs_nextId (v x) \<le> hd (rs_varStacks st1 (R x ! k)) \<and>
       hd (rs_varStacks st1 (R x ! k)) < rs_nextId st1 \<and>
       opat (rs_insts e) x k 0 = Some (OpReg (VReg (hd (rs_varStacks st1 (R x ! k)))))"
    "inj_on (\<lambda>r. hd (rs_varStacks st1 r)) (set (R x))"
    "rename_body (drop (length (R x)) (rs_insts (v x) x)) st1 = (drop (length (R x)) (rs_insts e x), st2, p2)"
    "moves n0 st2 e []"
    "\<forall>s \<in> set (getSuccessors (rc_cfg c) x). \<forall>k < length (R s). \<forall>U. rs_undefRegs e \<subseteq>\<^sub>m U \<longrightarrow>
       opat (rs_insts e) s k (pred_slot c x s) = Some (OpReg (VReg (name_of U (rs_varStacks e) (R s ! k))))"
    using visit_block_correct [OF fit rx sv okv first vis] by (elim exE conjE) (rule that)
  have P: "moves n0 (v x) st0 p0" by (rule push_params_correct(1) [OF V(1) first])
  have B: "rename_body is st1 = (drop (length (R x)) (rs_insts st' x), st2, p2)" using V(5) bv bf e by simp
  obtain is' st3 p3 where "rename_body is st1 = (is', st3, p3)" "new_defs n0 st1 st3 p3"
    using rename_body_correct [OF ok, of st1] by (elim exE conjE) (rule that)
  then have nd: "new_defs n0 st1 st2 p2" using B by simp
  have n0: "names_ok n0 (ssa_start n0 I)" by (simp add: names_ok_def reg_names_def)
  have nv: "names_ok n0 (v x)" by (rule W(4) [OF x n0])
  have nf: "names_ok n0 st'" by (rule movesD(3) [OF W(1) n0])
  have le: "later_undef (visited c v x) (rs_undefRegs st')"
    by (rule later_undef_grows [OF W(5) [OF x] later_undef_final [OF nf]])
  then have sub: "rs_undefRegs e \<subseteq>\<^sub>m rs_undefRegs st'" by (simp add: later_undef_def e)
  have S: "rs_varStacks e = rs_varStacks st2" by (rule moves_nil [OF V(6)])
  have dst: "opat (rs_insts st') x k 0 = opat (rs_insts e) x k 0" if "k < length (R x)" for k
    using W(12) [OF x, of x k 0] phi_split(5) [OF sh, where b = x] lenf that by (simp add: visit_slot_def same_at_def e)
  have fill: "opat (rs_insts st') s k (pred_slot c x s) = Some (OpReg (VReg (name_of (rs_undefRegs st') (rs_varStacks st2) (R s ! k))))"
    if s: "flow_edge (rc_cfg c) x s" and k: "k < length (R s)" for s k
  proof -
    have "opat (rs_insts st') s k (pred_slot c x s) = opat (rs_insts e) s k (pred_slot c x s)"
      using W(12) [OF x, of s k "pred_slot c x s"] s k phi_split(5) [OF sh, where b = s] lenf by (simp add: visit_slot_def same_at_def e)
    then show ?thesis using V(7) s k sub S by (simp add: flow_edge_def)
  qed
  have g: "grows_to st2 (visited c v x)" using V(6) e by (simp add: moves_def)
  have phis: "\<forall>k < length (R x). rs_varStacks st1 (R x ! k) \<noteq> [] \<and> rs_nextId (v x) \<le> hd (rs_varStacks st1 (R x ! k)) \<and>
       hd (rs_varStacks st1 (R x ! k)) < rs_nextId st1 \<and>
       opat (rs_insts st') x k 0 = Some (OpReg (VReg (hd (rs_varStacks st1 (R x ! k)))))"
    using V(3) dst by simp
  have S': "rs_varStacks (visited c v x) = rs_varStacks st2" using S e by simp
  have fills: "\<forall>s. flow_edge (rc_cfg c) x s \<longrightarrow> (\<forall>k < length (R s).
       opat (rs_insts st') s k (pred_slot c x s) = Some (OpReg (VReg (name_of (rs_undefRegs st') (rs_varStacks st2) (R s ! k)))))"
    using fill by blast
  show ?thesis by (intro exI conjI) (rule V(1) P V(2) phis V(4) B nd S' g nv le fills)+
qed

section \<open>Execution along a path\<close>

definition op_reg :: "mir_operand option \<Rightarrow> reg_ref" where
  "op_reg op = (case op of Some (OpReg r) \<Rightarrow> r | _ \<Rightarrow> VReg 0)"

definition block_phis :: "mir_inst list \<Rightarrow> mir_inst list" where
  "block_phis is = takeWhile (\<lambda>i. mi_opcode i = PHI) is"

definition block_body :: "mir_inst list \<Rightarrow> mir_inst list" where
  "block_body is = dropWhile (\<lambda>i. mi_opcode i = PHI) is"

text \<open>The phis of \<open>b\<close> when control comes from \<open>p\<close>: all sources are read first.\<close>

definition exec_phis :: "code_flow_result \<Rightarrow> (mir_id \<Rightarrow> mir_inst list) \<Rightarrow> mir_id \<Rightarrow> mir_id \<Rightarrow> (reg_ref \<Rightarrow> 'v) \<Rightarrow> reg_ref \<Rightarrow> 'v" where
  "exec_phis cfg insts p b t =
     write_regs (map (\<lambda>i. op_reg (mi_operands i ! 0)) (block_phis (insts b)))
       (\<lambda>k. t (op_reg (mi_operands (block_phis (insts b) ! k) ! Suc (pred_index (getPredecessors cfg b) p)))) 0 t"

fun run_from ::
  "('v, 'm) inst_sem \<Rightarrow> code_flow_result \<Rightarrow> (mir_id \<Rightarrow> mir_inst list) \<Rightarrow> mir_id \<Rightarrow> mir_id list \<Rightarrow>
   (reg_ref \<Rightarrow> 'v) \<times> 'm \<Rightarrow> (reg_ref \<Rightarrow> 'v) \<times> 'm" where
  "run_from sem cfg insts p [] c = c"
| "run_from sem cfg insts p (b # bs) c =
     run_from sem cfg insts b bs (exec_insts sem (block_body (insts b)) (exec_phis cfg insts p b (fst c), snd c))"

text \<open>The blocks of a path from the entry, each executed to its end.\<close>

definition run_path ::
  "('v, 'm) inst_sem \<Rightarrow> code_flow_result \<Rightarrow> (mir_id \<Rightarrow> mir_inst list) \<Rightarrow> mir_id \<Rightarrow> mir_id list \<Rightarrow>
   (reg_ref \<Rightarrow> 'v) \<times> 'm \<Rightarrow> (reg_ref \<Rightarrow> 'v) \<times> 'm" where
  "run_path sem cfg insts entry bs c = run_from sem cfg insts entry bs (exec_insts sem (block_body (insts entry)) c)"

fun is_path :: "code_flow_result \<Rightarrow> mir_id \<Rightarrow> mir_id list \<Rightarrow> bool" where
  "is_path cfg p [] \<longleftrightarrow> True"
| "is_path cfg p (b # bs) \<longleftrightarrow> flow_edge cfg p b \<and> is_path cfg b bs"

lemma shaped_phis:
  assumes "phi_shaped R cfg insts"
  shows "block_phis (insts b) = take (length (R b)) (insts b)" "block_body (insts b) = drop (length (R b)) (insts b)"
proof -
  note s = phi_split [OF assms, where b = b]
  have "takeWhile (\<lambda>i. mi_opcode i = PHI) (take (length (R b)) (insts b) @ drop (length (R b)) (insts b)) = take (length (R b)) (insts b) @ []"
    using s(2,3) by (subst takeWhile_append2) (auto simp: takeWhile_eq_Nil_iff intro: hd_in_set)
  then show phis: "block_phis (insts b) = take (length (R b)) (insts b)" by (simp add: block_phis_def)
  have "block_phis (insts b) @ block_body (insts b) = insts b" by (simp add: block_phis_def block_body_def)
  then have "block_phis (insts b) @ block_body (insts b) = block_phis (insts b) @ drop (length (R b)) (insts b)"
    by (simp add: phis)
  then show "block_body (insts b) = drop (length (R b)) (insts b)" by simp
qed

lemma no_phis: "(\<And>i. i \<in> set is \<Longrightarrow> mi_opcode i \<noteq> PHI) \<Longrightarrow> block_phis is = [] \<and> block_body is = is"
  by (cases "is") (auto simp: block_phis_def block_body_def)

lemma write_same: "(\<And>k. k < length rs \<Longrightarrow> vals (j + k) = s (rs ! k)) \<Longrightarrow> write_regs rs vals j s = s"
proof (induction rs arbitrary: j)
  case (Cons r rs)
  have r: "vals j = s r" using Cons.prems [of 0] by simp
  have "vals (Suc j + k) = s (rs ! k)" if "k < length rs" for k using Cons.prems [of "Suc k"] that by simp
  from Cons.IH [OF this] show ?case by (simp add: r)
qed simp

lemma write_regs_cong: "(\<And>k. k < length rs \<Longrightarrow> vals (j + k) = vals' (j + k)) \<Longrightarrow> write_regs rs vals j s = write_regs rs vals' j s"
proof (induction rs arbitrary: j s)
  case (Cons r rs)
  have r: "vals j = vals' j" using Cons.prems [of 0] by simp
  have "vals (Suc j + k) = vals' (Suc j + k)" if "k < length rs" for k using Cons.prems [of "Suc k"] that by simp
  from Cons.IH [OF this] show ?case by (simp add: r)
qed simp

text \<open>Phis take the values from the names at the end of the predecessor to the names after them.\<close>

lemma exec_phis_same:
  assumes sv: "same_values n0 N s t" and sh: "phi_shaped R cfg insts" and small: "\<forall>r \<in> set (R b). r < n0"
    and dst: "\<And>k. k < length (R b) \<Longrightarrow> opat insts b k 0 = Some (OpReg (VReg (N' (R b ! k))))"
    and arg: "\<And>k. k < length (R b) \<Longrightarrow> opat insts b k (Suc (pred_index (getPredecessors cfg b) p)) = Some (OpReg (VReg (N (R b ! k))))"
    and inj: "inj_on N' {..<n0}" and keep: "\<And>r. r \<notin> set (R b) \<Longrightarrow> N' r = N r"
  shows "same_values n0 N' s (exec_phis cfg insts p b t)"
proof -
  let ?Q = "VReg ` {..<n0} \<union> {r. isPhysical r}" and ?rs = "map VReg (R b)"
  let ?vals = "\<lambda>k. s (VReg (R b ! k))"
  note ph = shaped_phis(1) [OF sh, of b] and l = phi_split(5) [OF sh, where b = b]
  have len: "length (block_phis (insts b)) = length (R b)" using ph l by simp
  have nth: "block_phis (insts b) ! k = insts b ! k" if "k < length (R b)" for k using that by (simp add: ph)
  have "map (\<lambda>i. op_reg (mi_operands i ! 0)) (block_phis (insts b)) = map (name_ref N') ?rs"
    using dst nth len by (intro nth_equalityI) (simp_all add: op_reg_def opat_def)
  then have e: "exec_phis cfg insts p b t = write_regs (map (name_ref N') ?rs)
      (\<lambda>k. t (op_reg (mi_operands (block_phis (insts b) ! k) ! Suc (pred_index (getPredecessors cfg b) p)))) 0 t"
    by (simp add: exec_phis_def)
  have "t (op_reg (mi_operands (block_phis (insts b) ! k) ! Suc (pred_index (getPredecessors cfg b) p))) = ?vals k" if "k < length (R b)" for k
    using arg [OF that] nth [OF that] sv small that by (simp add: op_reg_def opat_def same_values_def)
  then have e2: "exec_phis cfg insts p b t = write_regs (map (name_ref N') ?rs) ?vals 0 t"
    unfolding e by (intro write_regs_cong) simp
  have injQ: "inj_on (name_ref N') ?Q"
  proof (rule inj_onI)
    fix p q assume "p \<in> ?Q" "q \<in> ?Q" "name_ref N' p = name_ref N' q"
    then show "p = q" using inj by (cases p; cases q) (auto dest: inj_onD)
  qed
  have sub: "set ?rs \<subseteq> ?Q" using small by auto
  have k: "s q = t (name_ref N' q)" if "q \<in> ?Q" "q \<notin> set ?rs" for q
  proof (cases q)
    case (VReg r)
    then have "r < n0" "r \<notin> set (R b)" using that by auto
    then show ?thesis using sv keep [of r] by (simp add: VReg same_values_def)
  next
    case (PReg c n)
    then show ?thesis using sv by (simp add: same_values_def)
  qed
  have "s q = write_regs (map (name_ref N') ?rs) ?vals 0 t (name_ref N' q)" if "q \<in> ?Q" for q
    using write_regs_same [where f = "name_ref N'" and s = s and t = t and vals = ?vals and k = 0, OF injQ sub k that]
      write_same [of ?rs ?vals 0 s] by simp
  from this [of "VReg _"] this [of "PReg _ _"] show ?thesis by (simp add: same_values_def e2)
qed

section \<open>Simulation\<close>

text \<open>What \<open>construction_runs\<close> gives, for the proofs that follow.\<close>

definition constructed ::
  "code_flow_result \<Rightarrow> mir_id \<Rightarrow> reg_ref list \<Rightarrow> mir_block list \<Rightarrow> mir_id \<Rightarrow> (mir_id \<rightharpoonup> mir_id) \<Rightarrow> (mir_id \<Rightarrow> mir_id list) \<Rightarrow>
   rename_ctx \<Rightarrow> (mir_id \<Rightarrow> mir_inst list) \<Rightarrow> rename_state \<Rightarrow> (mir_id \<Rightarrow> rename_state) \<Rightarrow> bool" where
  "constructed cfg entry params blocks n0 D R c I st' v \<longleftrightarrow>
     ssa_input cfg entry params blocks n0 \<and> ssa.exact_tree (cfg, entry) D \<and>
     rc_cfg c = cfg \<and> rc_entry c = entry \<and> rc_params c = params \<and> ctx_fits R c \<and> phi_shaped R cfg I \<and>
     walked R c D n0 {x. reachable (flow_edge cfg) entry x} [entry] (ssa_start n0 I) st' v \<and>
     untouched R cfg entry D blocks \<and> R entry = [] \<and> (\<forall>b. \<forall>r \<in> set (R b). r < n0) \<and>
     (\<forall>b. drop (length (R b)) (I b) = block_insts blocks b)"

lemma constructedD:
  assumes "constructed cfg entry params blocks n0 D R c I st' v"
  shows "ssa_input cfg entry params blocks n0" "ssa.exact_tree (cfg, entry) D" "rc_cfg c = cfg" "rc_entry c = entry" "rc_params c = params"
    "ctx_fits R c" "phi_shaped R cfg I"
    "walked R c D n0 {x. reachable (flow_edge cfg) entry x} [entry] (ssa_start n0 I) st' v"
    "untouched R cfg entry D blocks" "R entry = []" "\<forall>r \<in> set (R b). r < n0" "drop (length (R b)) (I b) = block_insts blocks b"
  using assms unfolding constructed_def by blast+

lemma construction_constructed:
  assumes "ssa_input cfg entry params blocks n0"
  shows "\<exists>D R c I st' v. run_NonSsaToSsa row cfg entry params blocks n0 = Some st' \<and> constructed cfg entry params blocks n0 D R c I st' v"
proof -
  obtain ins D st' v where r: "run_NonSsaToSsa row cfg entry params blocks n0 = Some st'"
    and k: "ssa.exact_tree (cfg, entry) D"
    "ctx_fits (phi_regs ins) (ssa_ctx cfg entry params (map mb_id blocks) D (place_phis row ins blocks))"
    "phi_shaped (phi_regs ins) cfg (place_phis row ins blocks)"
    "walked (phi_regs ins) (ssa_ctx cfg entry params (map mb_id blocks) D (place_phis row ins blocks)) D n0
       {x. reachable (flow_edge cfg) entry x} [entry] (ssa_start n0 (place_phis row ins blocks)) st' v"
    "untouched (phi_regs ins) cfg entry D blocks" "phi_regs ins entry = []" "\<forall>b. \<forall>r \<in> set (phi_regs ins b). r < n0"
    "\<forall>b. drop (length (phi_regs ins b)) (place_phis row ins blocks b) = block_insts blocks b"
    by (rule construction_runs [OF assms, of row]) (rule that)
  have "constructed cfg entry params blocks n0 D (phi_regs ins)
      (ssa_ctx cfg entry params (map mb_id blocks) D (place_phis row ins blocks)) (place_phis row ins blocks) st' v"
    unfolding constructed_def using assms k by simp
  then show ?thesis using r by blast
qed

lemma constructed_facts:
  assumes C: "constructed cfg entry params blocks n0 D R c I st' v" and x: "reachable (flow_edge cfg) entry x"
  obtains st0 st1 st2 p0 p2 where
    "push_params c x (v x) = (st0, p0)" "moves n0 (v x) st0 p0" "moves n0 st0 st1 (R x)"
    "\<forall>k < length (R x). rs_varStacks st1 (R x ! k) \<noteq> [] \<and> rs_nextId (v x) \<le> hd (rs_varStacks st1 (R x ! k)) \<and>
       hd (rs_varStacks st1 (R x ! k)) < rs_nextId st1 \<and>
       opat (rs_insts st') x k 0 = Some (OpReg (VReg (hd (rs_varStacks st1 (R x ! k)))))"
    "inj_on (\<lambda>r. hd (rs_varStacks st1 r)) (set (R x))"
    "rename_body (block_insts blocks x) st1 = (drop (length (R x)) (rs_insts st' x), st2, p2)" "new_defs n0 st1 st2 p2"
    "rs_varStacks (visited c v x) = rs_varStacks st2" "grows_to st2 (visited c v x)"
    "names_ok n0 (v x)" "later_undef (visited c v x) (rs_undefRegs st')"
    "\<forall>s. flow_edge cfg x s \<longrightarrow> (\<forall>k < length (R s).
       opat (rs_insts st') s k (Suc (pred_index (getPredecessors cfg s) x)) =
         Some (OpReg (VReg (name_of (rs_undefRegs st') (rs_varStacks st2) (R s ! k)))))"
    "\<forall>r \<in> set p2. \<exists>i \<in> set (block_insts blocks x). VReg r \<in> set (getDefinedRegisters i)"
    "\<forall>i \<in> set (block_insts blocks x). inst_ok n0 i"
proof -
  note K = constructedD [OF C]
  have ok: "\<forall>i \<in> set (block_insts blocks x). inst_ok n0 i" using block_insts_member ssa_inputD(6) [OF K(1)] by blast
  have small: "\<forall>p. VReg p \<in> set (rc_params c) \<longrightarrow> p < n0" using ssa_inputD(7) [OF K(1)] K(5) by simp
  have w: "walked R c D n0 {x. reachable (flow_edge cfg) entry x} [rc_entry c] (ssa_start n0 I) st' v" using K(4,8) by simp
  have sh: "phi_shaped R (rc_cfg c) I" and T: "{x. reachable (flow_edge cfg) entry x} = {x. reachable (flow_edge (rc_cfg c)) (rc_entry c) x}"
    using K(3,4,7) by simp_all
  have xT: "x \<in> {x. reachable (flow_edge cfg) entry x}" using x by simp
  obtain st0 st1 st2 p0 p2 where V: "push_params c x (v x) = (st0, p0)" "moves n0 (v x) st0 p0" "moves n0 st0 st1 (R x)"
    "\<forall>k < length (R x). rs_varStacks st1 (R x ! k) \<noteq> [] \<and> rs_nextId (v x) \<le> hd (rs_varStacks st1 (R x ! k)) \<and>
       hd (rs_varStacks st1 (R x ! k)) < rs_nextId st1 \<and>
       opat (rs_insts st') x k 0 = Some (OpReg (VReg (hd (rs_varStacks st1 (R x ! k)))))"
    "inj_on (\<lambda>r. hd (rs_varStacks st1 r)) (set (R x))"
    "rename_body (block_insts blocks x) st1 = (drop (length (R x)) (rs_insts st' x), st2, p2)" "new_defs n0 st1 st2 p2"
    "rs_varStacks (visited c v x) = rs_varStacks st2" "grows_to st2 (visited c v x)"
    "names_ok n0 (v x)" "later_undef (visited c v x) (rs_undefRegs st')"
    "\<forall>s. flow_edge (rc_cfg c) x s \<longrightarrow> (\<forall>k < length (R s).
       opat (rs_insts st') s k (pred_slot c x s) = Some (OpReg (VReg (name_of (rs_undefRegs st') (rs_varStacks st2) (R s ! k)))))"
    using constructed_block [OF K(6) sh w T K(12) ok small xT] by (elim exE conjE) (rule that)
  obtain is' st3 p3 where B: "rename_body (block_insts blocks x) st1 = (is', st3, p3)"
    "\<forall>r \<in> set p3. \<exists>i \<in> set (block_insts blocks x). VReg r \<in> set (getDefinedRegisters i)"
    using rename_body_correct [OF ok, of st1] by (elim exE conjE) (rule that)
  then have p2: "\<forall>r \<in> set p2. \<exists>i \<in> set (block_insts blocks x). VReg r \<in> set (getDefinedRegisters i)" using V(6) by simp
  show ?thesis by (rule that [OF V(1-11) V(12) [unfolded K(3)] p2 ok])
qed

lemma visit_keeps:
  assumes C: "constructed cfg entry params blocks n0 D R c I st' v" and x: "reachable (flow_edge cfg) entry x" "x \<noteq> entry"
    and r: "r \<notin> set (R x)" "\<forall>i \<in> set (block_insts blocks x). VReg r \<notin> set (getDefinedRegisters i)"
  shows "rs_varStacks (visited c v x) r = rs_varStacks (v x) r"
proof -
  obtain st0 st1 st2 p0 p2 where f: "push_params c x (v x) = (st0, p0)" "moves n0 st0 st1 (R x)" "new_defs n0 st1 st2 p2"
    "rs_varStacks (visited c v x) = rs_varStacks st2" "\<forall>r \<in> set p2. \<exists>i \<in> set (block_insts blocks x). VReg r \<in> set (getDefinedRegisters i)"
    by (rule constructed_facts [OF C x(1)]) (rule that)
  have "st0 = v x" using f(1) x(2) constructedD(4) [OF C] by (simp add: push_params_def)
  then have "rs_varStacks st1 r = rs_varStacks (v x) r" using pushed_on_other [OF movesD(2) [OF f(2)] r(1)] by simp
  moreover have "r \<notin> set p2" using f(5) r(2) by blast
  then have "rs_varStacks st2 r = rs_varStacks st1 r" by (rule pushed_on_other [OF new_defsD(2) [OF f(3)]])
  ultimately show ?thesis by (simp add: f(4))
qed

text \<open>Without a phi in \<open>b\<close>, a register has the same name at the end of every predecessor and at the
  end of the parent of \<open>b\<close>.\<close>

lemma names_kept:
  assumes C: "constructed cfg entry params blocks n0 D R c I st' v"
    and e: "flow_edge cfg p b" "reachable (flow_edge cfg) entry p" "b \<noteq> entry" and r: "r \<notin> set (R b)"
  shows "rs_varStacks (visited c v p) r = rs_varStacks (v b) r"
proof -
  note K = constructedD [OF C] and X = exact_tree_idom [OF constructedD(2) [OF C]]
  have wf: "cfr_wf cfg" by (rule ssa_inputD(1) [OF K(1)])
  have t: "ssa.tree_ok (cfg, entry) D" using K(2) by (simp add: ssa.exact_tree_def)
  have rb: "reachable (flow_edge cfg) entry b" by (rule reachable_step [OF e(2,1)])
  then obtain d where d: "D b = Some d" using X(2) by blast
  have db: "d \<noteq> b" using ssa.tree_okD(4) [OF t, of b d] d e(3) by auto
  have rd: "reachable (flow_edge cfg) entry d" using X(2) ssa.tree_okD(3) [OF t d] by blast
  have parent: "rs_varStacks (v b) = rs_varStacks (visited c v d)" by (rule walkedD(8) [OF K(8) _ d db]) (use rd in simp)
  have "p \<in> set (getPredecessors cfg b)" using cfr_wfD(4) [OF wf] e(1) by (simp add: flow_edge_def)
  then have chain: "on_chain D p d" by (rule idom_on_chain [OF wf K(2) d]) (use X(2) e(2) in blast)
  have step: "on_chain D y z \<Longrightarrow> z = d \<Longrightarrow> on_chain D p y \<Longrightarrow> rs_varStacks (visited c v y) r = rs_varStacks (visited c v d) r" for y z
  proof (induction rule: on_chain.induct)
    case (up y q z)
    obtain q' where q': "D q = Some q'" using on_chain_defined [OF up.hyps(3)] by blast
    have "on_chain D y q" by (rule on_chain.up [of D y q, OF up.hyps(1,2) on_chain.self [of D q q', OF q']])
    then have pq: "on_chain D p q" by (rule on_chain_trans [OF up.prems(2)])
    have ye: "y \<noteq> entry" using up.hyps(1,2) X(1) by auto
    have "y \<noteq> d"
    proof
      assume "y = d"
      then have "q = y \<or> post_number (cfg, entry) q < post_number (cfg, entry) y"
        using ssa.chain_num [OF t up.hyps(3)] up.prems(1) by auto
      then show False using ssa.tree_okD(4) [OF t up.hyps(1)] ye up.hyps(2) by simp
    qed
    have yd: "on_chain D y d" using on_chain.up [of D y q, OF up.hyps] up.prems(1) by simp
    have ry: "reachable (flow_edge cfg) entry y" using X(2) [of y] up.hyps(1) by simp
    have rq: "reachable (flow_edge cfg) entry q" using X(2) [of q] q' by simp
    have u: "r \<notin> set (R y)" "\<forall>i \<in> set (block_insts blocks y). VReg r \<notin> set (getDefinedRegisters i)"
      using K(9) e(1,3) d up.prems(2) yd \<open>y \<noteq> d\<close> r unfolding untouched_def by blast+
    have "rs_varStacks (visited c v y) r = rs_varStacks (v y) r" by (rule visit_keeps [OF C ry ye u])
    also have "rs_varStacks (v y) = rs_varStacks (visited c v q)" by (rule walkedD(8) [OF K(8) _ up.hyps(1,2)]) (use rq in simp)
    also have "rs_varStacks (visited c v q) r = rs_varStacks (visited c v d) r" by (rule up.IH [OF up.prems(1) pq])
    finally show ?case .
  qed simp
  obtain p' where "D p = Some p'" using X(2) e(2) by blast
  then have "on_chain D p p" by (rule on_chain.self [of D p])
  from step [OF chain refl this] parent show ?thesis by simp
qed

lemma name_of_top: "S r \<noteq> [] \<Longrightarrow> name_of U S r = hd (S r)"
  by (simp add: name_of_def split: list.split)

lemma constructed_shaped: "constructed cfg entry params blocks n0 D R c I st' v \<Longrightarrow> phi_shaped R cfg (rs_insts st')"
  using phi_shaped_cong [OF constructedD(7)] walkedD(2) [OF constructedD(8)] by force

text \<open>One step of a path: the phis for the edge, then the body.\<close>

lemma edge_sim:
  fixes sem :: "('v, 'm) inst_sem"
  assumes C: "constructed cfg entry params blocks n0 D R c I st' v"
    and e: "flow_edge cfg p b" "reachable (flow_edge cfg) entry p"
    and sv: "same_values n0 (name_of (rs_undefRegs st') (rs_varStacks (visited c v p))) s t"
  shows "snd (exec_insts sem (block_body (rs_insts st' b)) (exec_phis cfg (rs_insts st') p b t, m)) = snd (exec_insts sem (block_insts blocks b) (s, m)) \<and>
    same_values n0 (name_of (rs_undefRegs st') (rs_varStacks (visited c v b)))
      (fst (exec_insts sem (block_insts blocks b) (s, m)))
      (fst (exec_insts sem (block_body (rs_insts st' b)) (exec_phis cfg (rs_insts st') p b t, m)))"
proof -
  let ?U = "rs_undefRegs st'"
  note K = constructedD [OF C]
  have wf: "cfr_wf cfg" and noprev: "getPredecessors cfg entry = []" using ssa_inputD(1,5) [OF K(1)] by blast+
  have be: "b \<noteq> entry" using e(1) cfr_wfD(4) [OF wf, of entry p] noprev by (auto simp: flow_edge_def)
  have rb: "reachable (flow_edge cfg) entry b" by (rule reachable_step [OF e(2,1)])
  obtain st0 st1 st2 p0 p2 where b: "push_params c b (v b) = (st0, p0)" "moves n0 st0 st1 (R b)"
    "\<forall>k < length (R b). rs_varStacks st1 (R b ! k) \<noteq> [] \<and> rs_nextId (v b) \<le> hd (rs_varStacks st1 (R b ! k)) \<and>
       hd (rs_varStacks st1 (R b ! k)) < rs_nextId st1 \<and>
       opat (rs_insts st') b k 0 = Some (OpReg (VReg (hd (rs_varStacks st1 (R b ! k)))))"
    "rename_body (block_insts blocks b) st1 = (drop (length (R b)) (rs_insts st' b), st2, p2)" "new_defs n0 st1 st2 p2"
    "rs_varStacks (visited c v b) = rs_varStacks st2" "grows_to st2 (visited c v b)" "names_ok n0 (v b)" "later_undef (visited c v b) ?U"
    "\<forall>i \<in> set (block_insts blocks b). inst_ok n0 i"
    by (rule constructed_facts [OF C rb]) (rule that)
  obtain q0 q1 st2' r0 r2 where pf: "rename_body (block_insts blocks p) q1 = (drop (length (R p)) (rs_insts st' p), st2', r2)"
    "push_params c p (v p) = (q0, r0)" "rs_varStacks (visited c v p) = rs_varStacks st2'"
    "\<forall>s. flow_edge cfg p s \<longrightarrow> (\<forall>k < length (R s).
       opat (rs_insts st') s k (Suc (pred_index (getPredecessors cfg s) p)) = Some (OpReg (VReg (name_of ?U (rs_varStacks st2') (R s ! k)))))"
    by (rule constructed_facts [OF C e(2)]) (rule that)
  have st0: "st0 = v b" using b(1) be K(4) by (simp add: push_params_def)
  have n1: "names_ok n0 st1" using movesD(3) [OF b(2)] b(8) st0 by simp
  have l2: "later_undef st2 ?U" by (rule later_undef_grows [OF b(7,9)])
  have l1: "later_undef st1 ?U" by (rule later_undef_grows [OF new_defsD(1) [OF b(5)] l2])
  have dst: "opat (rs_insts st') b k 0 = Some (OpReg (VReg (name_of ?U (rs_varStacks st1) (R b ! k))))" if "k < length (R b)" for k
    using b(3) that by (simp add: name_of_top)
  have arg: "opat (rs_insts st') b k (Suc (pred_index (getPredecessors cfg b) p)) =
      Some (OpReg (VReg (name_of ?U (rs_varStacks (visited c v p)) (R b ! k))))" if "k < length (R b)" for k
    using pf(3,4) e(1) that by simp
  have keep: "name_of ?U (rs_varStacks st1) r = name_of ?U (rs_varStacks (visited c v p)) r" if r: "r \<notin> set (R b)" for r
    using pushed_on_other [OF movesD(2) [OF b(2)] r] names_kept [OF C e be r] st0 by (intro name_of_cong) simp
  have phis: "same_values n0 (name_of ?U (rs_varStacks st1)) s (exec_phis cfg (rs_insts st') p b t)"
    by (rule exec_phis_same [OF sv constructed_shaped [OF C] K(11) dst arg name_of_inj [OF n1 l1] keep])
  have body: "block_body (rs_insts st' b) = drop (length (R b)) (rs_insts st' b)" by (rule shaped_phis(2) [OF constructed_shaped [OF C]])
  show ?thesis unfolding body b(6) by (rule rename_body_sim [OF b(10) b(4) n1 l2 phis])
qed

lemma entry_sim:
  fixes sem :: "('v, 'm) inst_sem"
  assumes C: "constructed cfg entry params blocks n0 D R c I st' v"
    and t: "\<forall>r < n0. t (VReg r) = s (VReg r)" "\<forall>d n. t (PReg d n) = s (PReg d n)"
      "\<forall>r u. rs_undefRegs st' r = Some u \<longrightarrow> t (VReg u) = s (VReg r)"
  shows "snd (exec_insts sem (block_body (rs_insts st' entry)) (t, m)) = snd (exec_insts sem (block_insts blocks entry) (s, m)) \<and>
    same_values n0 (name_of (rs_undefRegs st') (rs_varStacks (visited c v entry)))
      (fst (exec_insts sem (block_insts blocks entry) (s, m)))
      (fst (exec_insts sem (block_body (rs_insts st' entry)) (t, m)))"
proof -
  let ?U = "rs_undefRegs st'"
  note K = constructedD [OF C]
  obtain st0 st1 st2 p0 p2 where b: "push_params c entry (v entry) = (st0, p0)" "moves n0 (v entry) st0 p0" "moves n0 st0 st1 (R entry)"
    "rename_body (block_insts blocks entry) st1 = (drop (length (R entry)) (rs_insts st' entry), st2, p2)" "new_defs n0 st1 st2 p2"
    "rs_varStacks (visited c v entry) = rs_varStacks st2" "grows_to st2 (visited c v entry)" "names_ok n0 (v entry)"
    "later_undef (visited c v entry) ?U" "\<forall>i \<in> set (block_insts blocks entry). inst_ok n0 i"
    by (rule constructed_facts [OF C reachable_root]) (rule that)
  have "rc_entry c \<in> {x. reachable (flow_edge cfg) entry x}" using K(4) by simp
  then have empty: "reg_names (v entry) r = {}" for r
    using walkedD(13) [OF K(8)] by (simp add: K(4) reg_names_def)
  have small: "\<forall>p. VReg p \<in> set (rc_params c) \<longrightarrow> p < n0" using ssa_inputD(7) [OF K(1)] by (simp add: K(5))
  have first: "entry = rc_entry c \<longrightarrow> (\<forall>r. reg_names (v entry) r = {}) \<and> (\<forall>p. VReg p \<in> set (rc_params c) \<longrightarrow> p < n0)"
    using empty small by blast
  have st0: "rs_varStacks st0 r = replicate (count_list p0 r) r" for r
    by (rule conjunct1 [OF push_params_correct(6) [OF b(1) first K(4) [symmetric], of r]])
  have st1: "rs_varStacks st1 = rs_varStacks st0" using moves_nil [of n0 st0 st1] b(3) K(10) by simp
  have n1: "names_ok n0 st1" using movesD(3) [OF b(3)] movesD(3) [OF b(2)] b(8) by blast
  have l2: "later_undef st2 ?U" by (rule later_undef_grows [OF b(7,9)])
  have named: "t (VReg (name_of ?U (rs_varStacks st1) r)) = s (VReg r)" if "r < n0" for r
  proof (cases "count_list p0 r")
    case 0
    then have e: "name_of ?U (rs_varStacks st1) r = (case ?U r of Some u \<Rightarrow> u | None \<Rightarrow> r)" by (simp add: name_of_def st1 st0)
    show ?thesis using t(1,3) that by (cases "?U r") (simp_all add: e)
  next
    case (Suc k)
    then show ?thesis using t(1) that by (simp add: name_of_def st1 st0)
  qed
  have same: "same_values n0 (name_of ?U (rs_varStacks st1)) s t"
    unfolding same_values_def using t(2) named by simp
  from rename_body_sim [OF b(10) b(4) n1 l2 same] show ?thesis
    unfolding b(6) using shaped_phis(2) [OF constructed_shaped [OF C], of entry] by simp
qed

lemma path_sim:
  fixes sem :: "('v, 'm) inst_sem"
  assumes C: "constructed cfg entry params blocks n0 D R c I st' v"
  shows "is_path cfg p bs \<Longrightarrow> reachable (flow_edge cfg) entry p \<Longrightarrow>
    same_values n0 (name_of (rs_undefRegs st') (rs_varStacks (visited c v p))) s t \<Longrightarrow>
    \<exists>N s' t' m'. run_from sem cfg (block_insts blocks) p bs (s, m) = (s', m') \<and>
      run_from sem cfg (rs_insts st') p bs (t, m) = (t', m') \<and> same_values n0 N s' t'"
proof (induction bs arbitrary: p s t m)
  case Nil
  then show ?case by auto
next
  case (Cons b bs)
  have e: "flow_edge cfg p b" "is_path cfg b bs" using Cons.prems(1) by simp_all
  have rb: "reachable (flow_edge cfg) entry b" by (rule reachable_step [OF Cons.prems(2) e(1)])
  have nophi: "mi_opcode i \<noteq> PHI" if "i \<in> set (block_insts blocks b)" for i
    using block_insts_member [OF that] ssa_inputD(6) [OF constructedD(1) [OF C]] by (auto simp: inst_ok_def)
  note np = no_phis [OF nophi]
  have orig: "exec_phis cfg (block_insts blocks) p b s = s" "block_body (block_insts blocks b) = block_insts blocks b"
    using np by (simp_all add: exec_phis_def)
  obtain s1 m1 where s1: "exec_insts sem (block_insts blocks b) (s, m) = (s1, m1)" by (cases "exec_insts sem (block_insts blocks b) (s, m)")
  obtain t1 m2 where t1: "exec_insts sem (block_body (rs_insts st' b)) (exec_phis cfg (rs_insts st') p b t, m) = (t1, m2)"
    by (cases "exec_insts sem (block_body (rs_insts st' b)) (exec_phis cfg (rs_insts st') p b t, m)")
  have sv: "m2 = m1" "same_values n0 (name_of (rs_undefRegs st') (rs_varStacks (visited c v b))) s1 t1"
    using edge_sim [OF C e(1) Cons.prems(2,3), of sem m] by (simp_all add: s1 t1)
  from Cons.IH [OF e(2) rb sv(2), of m1] show ?case by (simp add: orig s1 t1 sv(1))
qed

lemma construction_sim:
  fixes sem :: "('v, 'm) inst_sem"
  assumes C: "constructed cfg entry params blocks n0 D R c I st' v" and path: "is_path cfg entry bs"
    and t: "\<forall>r < n0. t (VReg r) = s (VReg r)" "\<forall>d n. t (PReg d n) = s (PReg d n)"
      "\<forall>r u. rs_undefRegs st' r = Some u \<longrightarrow> t (VReg u) = s (VReg r)"
  shows "snd (run_path sem cfg (rs_insts st') entry bs (t, m)) = snd (run_path sem cfg (block_insts blocks) entry bs (s, m)) \<and>
    (\<forall>d n. fst (run_path sem cfg (rs_insts st') entry bs (t, m)) (PReg d n) =
       fst (run_path sem cfg (block_insts blocks) entry bs (s, m)) (PReg d n))"
proof -
  have nophi: "mi_opcode i \<noteq> PHI" if "i \<in> set (block_insts blocks entry)" for i
    using block_insts_member [OF that] ssa_inputD(6) [OF constructedD(1) [OF C]] by (auto simp: inst_ok_def)
  have orig: "block_body (block_insts blocks entry) = block_insts blocks entry" using no_phis [OF nophi] by blast
  obtain s1 m1 where s1: "exec_insts sem (block_insts blocks entry) (s, m) = (s1, m1)" by (cases "exec_insts sem (block_insts blocks entry) (s, m)")
  obtain t1 m2 where t1: "exec_insts sem (block_body (rs_insts st' entry)) (t, m) = (t1, m2)"
    by (cases "exec_insts sem (block_body (rs_insts st' entry)) (t, m)")
  have sv: "m2 = m1" "same_values n0 (name_of (rs_undefRegs st') (rs_varStacks (visited c v entry))) s1 t1"
    using entry_sim [OF C t, of sem m] by (simp_all add: s1 t1)
  obtain N s' t' m' where "run_from sem cfg (block_insts blocks) entry bs (s1, m1) = (s', m')"
    "run_from sem cfg (rs_insts st') entry bs (t1, m1) = (t', m')" "same_values n0 N s' t'"
    using path_sim [OF C path reachable_root sv(2), of sem m1] by blast
  then show ?thesis by (simp add: run_path_def orig s1 t1 sv(1) same_values_def)
qed

text \<open>A start state of the constructed function: registers agree with the original one, and an
  undefined register holds what the register it stands for holds.\<close>

definition same_start :: "mir_id \<Rightarrow> rename_state \<Rightarrow> (reg_ref \<Rightarrow> 'v) \<Rightarrow> (reg_ref \<Rightarrow> 'v) \<Rightarrow> bool" where
  "same_start n0 st s t \<longleftrightarrow> (\<forall>r < n0. t (VReg r) = s (VReg r)) \<and> (\<forall>d n. t (PReg d n) = s (PReg d n)) \<and>
     (\<forall>r u. rs_undefRegs st r = Some u \<longrightarrow> t (VReg u) = s (VReg r))"

lemma same_start_exists:
  assumes "names_ok n0 st"
  shows "\<exists>t. same_start n0 st s t"
proof -
  let ?t = "\<lambda>q. if \<exists>r u. q = VReg u \<and> rs_undefRegs st r = Some u then s (VReg (THE r. rs_undefRegs st r = Some (reg_id q))) else s q"
  have names: "r = r'" "u < n0 \<longrightarrow> u = r" if "rs_undefRegs st r = Some u" "rs_undefRegs st r' = Some u" for r r' u
    using assms that unfolding names_ok_def reg_names_def by fastforce+
  have u: "?t (VReg u) = s (VReg r)" if "rs_undefRegs st r = Some u" for r u
  proof -
    have "(THE r. rs_undefRegs st r = Some u) = r" using that names(1) by blast
    then show ?thesis using that by auto
  qed
  moreover have "?t (VReg r) = s (VReg r)" if r: "r < n0" for r
  proof (cases "\<exists>q. rs_undefRegs st q = Some r")
    case True
    then obtain q where q: "rs_undefRegs st q = Some r" by blast
    then have "q = r" using names(2) r by blast
    then show ?thesis using u [OF q] by simp
  next
    case False
    then show ?thesis by auto
  qed
  ultimately have "same_start n0 st s ?t" unfolding same_start_def by simp
  then show ?thesis by blast
qed

section \<open>Single assignment\<close>

text \<open>The operands that define a register without reading it: destinations of phis and pure writes.\<close>

definition ssa_defs :: "code_flow_result \<Rightarrow> mir_id \<Rightarrow> (mir_id \<Rightarrow> mir_inst list) \<Rightarrow> (mir_id \<times> nat \<times> nat) set" where
  "ssa_defs cfg entry insts =
     {(b, k, j). reachable (flow_edge cfg) entry b \<and> k < length (insts b) \<and>
        (if mi_opcode (insts b ! k) = PHI then j = 0 else pure_slot (insts b) k j)}"

lemma pure_target_shape: "shape i = shape i' \<Longrightarrow> j < length (mi_operands i) \<Longrightarrow> (pure_target_at i j = None) = (pure_target_at i' j = None)"
proof -
  assume s: "shape i = shape i'" and j: "j < length (mi_operands i)"
  have "map op_kind (mi_operands i) ! j = map op_kind (mi_operands i') ! j" using shape_fields(4) [OF s] by simp
  then have "op_kind (mi_operands i ! j) = op_kind (mi_operands i' ! j)" using j shape_fields(3) [OF s] by simp
  then show ?thesis
    unfolding pure_target_at_def pure_target_def shape_flag [OF s]
    by (auto simp: op_kind_def split: option.splits mir_operand.splits reg_ref.splits)
qed

lemma pure_slot_shape:
  assumes "map shape is' = map shape is"
  shows "pure_slot is' k j \<longleftrightarrow> pure_slot is k j"
proof (cases "k < length is")
  case True
  then have s: "shape (is' ! k) = shape (is ! k)" by (rule same_shape_nth [OF assms])
  have l: "length is' = length is" using arg_cong [OF assms, of length] by simp
  show ?thesis using True l shape_fields(3) [OF s] pure_target_shape [OF s, of j] by (auto simp: pure_slot_def)
next
  case False
  then show ?thesis using arg_cong [OF assms, of length] by (simp add: pure_slot_def)
qed

lemma pure_slot_drop: "n \<le> k \<Longrightarrow> pure_slot is k j \<Longrightarrow> pure_slot (drop n is) (k - n) j"
  by (auto simp: pure_slot_def)

lemma constructed_defs:
  assumes C: "constructed cfg entry params blocks n0 D R c I st' v" and x: "reachable (flow_edge cfg) entry x"
  shows "\<exists>f. (\<forall>k j. (x, k, j) \<in> ssa_defs cfg entry (rs_insts st') \<longrightarrow> opat (rs_insts st') x k j = Some (OpReg (VReg (f k j))) \<and>
      n0 \<le> f k j \<and> rs_nextId (v x) \<le> f k j \<and> f k j < rs_nextId (visited c v x)) \<and>
    (\<forall>k j k' j'. (x, k, j) \<in> ssa_defs cfg entry (rs_insts st') \<longrightarrow> (x, k', j') \<in> ssa_defs cfg entry (rs_insts st') \<longrightarrow>
      f k j = f k' j' \<longrightarrow> k = k' \<and> j = j')"
proof -
  let ?I = "rs_insts st'" and ?m = "length (R x)"
  obtain st0 st1 st2 p0 p2 where b: "push_params c x (v x) = (st0, p0)" "moves n0 (v x) st0 p0" "moves n0 st0 st1 (R x)"
    "\<forall>k < length (R x). rs_varStacks st1 (R x ! k) \<noteq> [] \<and> rs_nextId (v x) \<le> hd (rs_varStacks st1 (R x ! k)) \<and>
       hd (rs_varStacks st1 (R x ! k)) < rs_nextId st1 \<and>
       opat (rs_insts st') x k 0 = Some (OpReg (VReg (hd (rs_varStacks st1 (R x ! k)))))"
    "inj_on (\<lambda>r. hd (rs_varStacks st1 r)) (set (R x))"
    "rename_body (block_insts blocks x) st1 = (drop (length (R x)) (rs_insts st' x), st2, p2)" "new_defs n0 st1 st2 p2"
    "grows_to st2 (visited c v x)" "names_ok n0 (v x)" "\<forall>i \<in> set (block_insts blocks x). inst_ok n0 i"
    by (rule constructed_facts [OF C x]) (rule that)
  obtain is' st3 p3 where X: "rename_body (block_insts blocks x) st1 = (is', st3, p3)" "map shape is' = map shape (block_insts blocks x)"
    "\<forall>k j. pure_slot (block_insts blocks x) k j \<longrightarrow> mi_operands (is' ! k) ! j = Some (OpReg (VReg (slot_reg is' k j))) \<and>
       rs_nextId st1 \<le> slot_reg is' k j \<and> slot_reg is' k j < rs_nextId st3"
    "\<forall>k j k' j'. pure_slot (block_insts blocks x) k j \<and> pure_slot (block_insts blocks x) k' j' \<and> slot_reg is' k j = slot_reg is' k' j' \<longrightarrow> k = k' \<and> j = j'"
    using rename_body_correct [OF b(10), of st1] by (elim exE conjE) (rule that)
  have B: "is' = drop ?m (?I x)" "st3 = st2" using X(1) b(6) by simp_all
  have slot: "mi_operands (is' ! k) ! j = Some (OpReg (VReg (slot_reg is' k j))) \<and>
       rs_nextId st1 \<le> slot_reg is' k j \<and> slot_reg is' k j < rs_nextId st2" if "pure_slot (block_insts blocks x) k j" for k j
    using X(3) that unfolding B(2) by blast
  have uniq: "k = k' \<and> j = j'" if "pure_slot (block_insts blocks x) k j" "pure_slot (block_insts blocks x) k' j'"
    "slot_reg is' k j = slot_reg is' k' j'" for k j k' j'
    using X(4) that by blast
  have ids: "n0 \<le> rs_nextId (v x)" "rs_nextId (v x) \<le> rs_nextId st1" "rs_nextId st1 \<le> rs_nextId st2" "rs_nextId st2 \<le> rs_nextId (visited c v x)"
    using b(9) movesD(1) [OF b(2)] movesD(1) [OF b(3)] new_defsD(1) [OF b(7)] b(8) by (simp_all add: names_ok_def grows_to_def)
  note S = constructed_shaped [OF C]
  have split: "k < ?m \<and> j = 0 \<or> ?m \<le> k \<and> pure_slot (block_insts blocks x) (k - ?m) j" if d: "(x, k, j) \<in> ssa_defs cfg entry ?I" for k j
  proof (cases "k < ?m")
    case True
    then have "mi_opcode (?I x ! k) = PHI" using S phi_split(5) [OF S, of x] unfolding phi_shaped_def by (meson less_le_trans)
    then show ?thesis using d True by (simp add: ssa_defs_def)
  next
    case False
    then have "mi_opcode (?I x ! k) \<noteq> PHI" using S d unfolding phi_shaped_def ssa_defs_def by auto
    then have "pure_slot (?I x) k j" using d by (simp add: ssa_defs_def)
    then have "pure_slot is' (k - ?m) j" using False unfolding B(1) by (intro pure_slot_drop) simp_all
    then show ?thesis using False pure_slot_shape [OF X(2)] by simp
  qed
  define f where "f k j = (if k < ?m then hd (rs_varStacks st1 (R x ! k)) else slot_reg is' (k - ?m) j)" for k j
  have phi: "opat ?I x k j = Some (OpReg (VReg (f k j))) \<and> rs_nextId (v x) \<le> f k j \<and> f k j < rs_nextId st1"
    if "(x, k, j) \<in> ssa_defs cfg entry ?I" "k < ?m" for k j
    using split [OF that(1)] that(2) b(4) by (simp add: f_def)
  have bod: "opat ?I x k j = Some (OpReg (VReg (f k j))) \<and> rs_nextId st1 \<le> f k j \<and> f k j < rs_nextId st2"
    if "(x, k, j) \<in> ssa_defs cfg entry ?I" "\<not> k < ?m" for k j
  proof -
    have "pure_slot (block_insts blocks x) (k - ?m) j" using split [OF that(1)] that(2) by simp
    note s = slot [OF this]
    have "is' ! (k - ?m) = ?I x ! k" using that(2) phi_split(5) [OF S, of x] by (simp add: B(1))
    then show ?thesis using s that(2) by (simp add: f_def opat_def)
  qed
  have range: "opat ?I x k j = Some (OpReg (VReg (f k j))) \<and> n0 \<le> f k j \<and> rs_nextId (v x) \<le> f k j \<and> f k j < rs_nextId (visited c v x)"
    if "(x, k, j) \<in> ssa_defs cfg entry ?I" for k j
    using phi [OF that] bod [OF that] ids by (cases "k < ?m") auto
  have inj: "k = k' \<and> j = j'" if d: "(x, k, j) \<in> ssa_defs cfg entry ?I" "(x, k', j') \<in> ssa_defs cfg entry ?I" and e: "f k j = f k' j'" for k j k' j'
  proof (cases "k < ?m"; cases "k' < ?m")
    assume k: "k < ?m" "k' < ?m"
    then have "R x ! k = R x ! k'" using e b(5) by (auto simp: f_def dest!: inj_onD)
    then have "k = k'" using k phi_split(4) [OF S, of x] by (simp add: nth_eq_iff_index_eq)
    then show ?thesis using split [OF d(1)] split [OF d(2)] k by simp
  next
    assume k: "k < ?m" "\<not> k' < ?m"
    then show ?thesis using phi [OF d(1) k(1)] bod [OF d(2) k(2)] e by linarith
  next
    assume k: "\<not> k < ?m" "k' < ?m"
    then show ?thesis using phi [OF d(2) k(2)] bod [OF d(1) k(1)] e by linarith
  next
    assume k: "\<not> k < ?m" "\<not> k' < ?m"
    then have "k - ?m = k' - ?m \<and> j = j'" using uniq [of "k - ?m" j "k' - ?m" j'] split [OF d(1)] split [OF d(2)] e by (simp add: f_def)
    then show ?thesis using k by linarith
  qed
  show ?thesis using range inj by (intro exI [of _ f] conjI allI impI) blast+
qed

lemma constructed_single:
  assumes C: "constructed cfg entry params blocks n0 D R c I st' v"
  shows "\<forall>(b, k, j) \<in> ssa_defs cfg entry (rs_insts st'). \<exists>n \<ge> n0. opat (rs_insts st') b k j = Some (OpReg (VReg n))"
    "inj_on (\<lambda>(b, k, j). opat (rs_insts st') b k j) (ssa_defs cfg entry (rs_insts st'))"
proof -
  let ?S = "ssa_defs cfg entry (rs_insts st')" and ?op = "opat (rs_insts st')"
  have r: "reachable (flow_edge cfg) entry b" if "(b, k, j) \<in> ?S" for b k j using that by (simp add: ssa_defs_def)
  have val: "\<exists>n. ?op b k j = Some (OpReg (VReg n)) \<and> n0 \<le> n \<and> rs_nextId (v b) \<le> n \<and> n < rs_nextId (visited c v b)" if "(b, k, j) \<in> ?S" for b k j
    using constructed_defs [OF C r [OF that]] that by blast
  show "\<forall>(b, k, j) \<in> ?S. \<exists>n \<ge> n0. ?op b k j = Some (OpReg (VReg n))" using val by blast
  have "b = b' \<and> k = k' \<and> j = j'" if s: "(b, k, j) \<in> ?S" "(b', k', j') \<in> ?S" and e: "?op b k j = ?op b' k' j'" for b k j b' k' j'
  proof (cases "b = b'")
    case True
    obtain f where "\<And>k j. (b, k, j) \<in> ?S \<Longrightarrow> ?op b k j = Some (OpReg (VReg (f k j)))"
      "\<And>k j k' j'. (b, k, j) \<in> ?S \<Longrightarrow> (b, k', j') \<in> ?S \<Longrightarrow> f k j = f k' j' \<Longrightarrow> k = k' \<and> j = j'"
      using constructed_defs [OF C r [OF s(1)]] by blast
    then show ?thesis using s e True by (metis mir_operand.inject(1) option.inject reg_ref.inject(1))
  next
    case False
    have "rs_nextId (visited c v b) \<le> rs_nextId (v b') \<or> rs_nextId (visited c v b') \<le> rs_nextId (v b)"
      by (rule walkedD(9) [OF constructedD(8) [OF C] _ _ False]) (use r [OF s(1)] r [OF s(2)] in simp_all)
    then show ?thesis using val [OF s(1)] val [OF s(2)] e by auto
  qed
  then show "inj_on (\<lambda>(b, k, j). ?op b k j) ?S" by (auto intro!: inj_onI)
qed

section \<open>Properties\<close>

text \<open>C5: SSA construction returns, and the function it builds computes what the original one does:
  from every state of the original function there is a start state of the constructed one, and from
  every such state, along every path of the flow graph, both leave the same memory and outputs and
  the same values in the physical registers.\<close>

theorem ssa_construction_correct:
  fixes sem :: "('v, 'm) inst_sem"
  assumes "ssa_input cfg entry params blocks n0"
  shows "\<exists>st'. run_NonSsaToSsa row cfg entry params blocks n0 = Some st' \<and> (\<forall>s. \<exists>t :: reg_ref \<Rightarrow> 'v. same_start n0 st' s t) \<and>
    (\<forall>bs s t m. is_path cfg entry bs \<longrightarrow> same_start n0 st' s t \<longrightarrow>
       snd (run_path sem cfg (rs_insts st') entry bs (t, m)) = snd (run_path sem cfg (block_insts blocks) entry bs (s, m)) \<and>
       (\<forall>d n. fst (run_path sem cfg (rs_insts st') entry bs (t, m)) (PReg d n) =
          fst (run_path sem cfg (block_insts blocks) entry bs (s, m)) (PReg d n)))"
proof -
  obtain D R c I st' v where r: "run_NonSsaToSsa row cfg entry params blocks n0 = Some st'"
    and C: "constructed cfg entry params blocks n0 D R c I st' v"
    using construction_constructed [OF assms] by blast
  have "names_ok n0 (ssa_start n0 I)" by (simp add: names_ok_def reg_names_def)
  then have nf: "names_ok n0 st'" by (rule movesD(3) [OF walkedD(1) [OF constructedD(8) [OF C]]])
  have start: "\<forall>s. \<exists>t :: reg_ref \<Rightarrow> 'v. same_start n0 st' s t" using same_start_exists [OF nf] by blast
  have sim: "snd (run_path sem cfg (rs_insts st') entry bs (t, m)) = snd (run_path sem cfg (block_insts blocks) entry bs (s, m)) \<and>
       (\<forall>d n. fst (run_path sem cfg (rs_insts st') entry bs (t, m)) (PReg d n) =
          fst (run_path sem cfg (block_insts blocks) entry bs (s, m)) (PReg d n))"
    if "is_path cfg entry bs" "same_start n0 st' s t" for bs s t m
    by (rule construction_sim [OF C that(1)]) (use that(2) in \<open>simp_all add: same_start_def\<close>)
  show ?thesis using r start sim by blast
qed

text \<open>C6: in the function SSA construction builds, the destinations of the phis and the operands that
  are written without being read hold new registers, and no register stands in two of them.\<close>

theorem ssa_single_assignment:
  assumes "ssa_input cfg entry params blocks n0"
  shows "\<exists>st'. run_NonSsaToSsa row cfg entry params blocks n0 = Some st' \<and>
    (\<forall>(b, k, j) \<in> ssa_defs cfg entry (rs_insts st'). \<exists>n \<ge> n0. opat (rs_insts st') b k j = Some (OpReg (VReg n))) \<and>
    inj_on (\<lambda>(b, k, j). opat (rs_insts st') b k j) (ssa_defs cfg entry (rs_insts st'))"
  using construction_constructed [OF assms, of row] constructed_single by (elim exE conjE) (intro exI conjI)

section \<open>Witnesses\<close>

definition read_9 :: mir_inst where
  "read_9 = \<lparr>mi_opcode = OtherOp 0, mi_flags = 0, mi_slots = [\<lparr>slot_flags = Read, slot_variadic = False\<rparr>], mi_desc = None,
     mi_operands = [Some (OpReg (VReg 9))]\<rparr>"

definition diamond_reads :: "mir_block list" where
  "diamond_reads = [\<lparr>mb_id = 2, mb_insts = []\<rparr>, \<lparr>mb_id = 3, mb_insts = [write_9]\<rparr>, \<lparr>mb_id = 4, mb_insts = [write_9]\<rparr>,
     \<lparr>mb_id = 5, mb_insts = [read_9]\<rparr>]"

definition sum_sem :: "(nat, nat) inst_sem" where
  "sum_sem i vals m = (\<lambda>_. 7, m + sum_list vals)"

lemma diamond_inst_ok: "inst_ok 10 write_9" "inst_ok 10 read_9"
proof -
  have "getDefinedRegisters write_9 = [VReg 9]" "getUsedRegisters write_9 = []" "getDefinedRegisters read_9 = []" "getUsedRegisters read_9 = [VReg 9]"
    by code_simp+
  then show "inst_ok 10 write_9" "inst_ok 10 read_9"
    unfolding inst_ok_def small_regs_def single_writes_def implicit_physical_def
    by (simp_all add: write_9_def read_9_def)
qed

lemma diamond_input: "ssa_input diamond_cfg 2 [] diamond_reads 10"
proof -
  have "getPredecessors diamond_cfg 2 = []" by code_simp
  moreover have "{v. reachable (flow_edge diamond_cfg) 2 v} \<subseteq> mb_id ` set diamond_reads"
    by (auto simp: diamond_reachable diamond_reads_def)
  moreover have "\<forall>b \<in> set diamond_reads. \<forall>i \<in> set (mb_insts b). inst_ok 10 i" "distinct (map mb_id diamond_reads)"
    using diamond_inst_ok by (simp_all add: diamond_reads_def)
  ultimately show ?thesis unfolding ssa_input_def using diamond_wf diamond_zero by simp
qed

theorem ssa_construction_correct_witness:
  "\<exists>st' t. run_NonSsaToSsa (0, []) diamond_cfg 2 [] diamond_reads 10 = Some st' \<and>
    snd (run_path sum_sem diamond_cfg (rs_insts st') 2 [3, 5] (t, 0)) = 7"
proof -
  let ?s = "\<lambda>_ :: reg_ref. 0 :: nat"
  obtain st' where run: "run_NonSsaToSsa (0, []) diamond_cfg 2 [] diamond_reads 10 = Some st'" and start: "\<forall>s. \<exists>t :: reg_ref \<Rightarrow> nat. same_start 10 st' s t"
    and same: "\<forall>bs s t m. is_path diamond_cfg 2 bs \<longrightarrow> same_start 10 st' s t \<longrightarrow>
       snd (run_path sum_sem diamond_cfg (rs_insts st') 2 bs (t, m)) = snd (run_path sum_sem diamond_cfg (block_insts diamond_reads) 2 bs (s, m)) \<and>
       (\<forall>d n. fst (run_path sum_sem diamond_cfg (rs_insts st') 2 bs (t, m)) (PReg d n) =
          fst (run_path sum_sem diamond_cfg (block_insts diamond_reads) 2 bs (s, m)) (PReg d n))"
    using ssa_construction_correct [OF diamond_input, of "(0, [])" sum_sem] by (elim exE conjE) (rule that)
  have path: "is_path diamond_cfg 2 [3, 5]" by (simp add: diamond_edge)
  obtain t where t: "same_start 10 st' ?s t" using start by blast
  have "snd (run_path sum_sem diamond_cfg (block_insts diamond_reads) 2 [3, 5] (?s, 0)) = 7" by code_simp
  then have "snd (run_path sum_sem diamond_cfg (rs_insts st') 2 [3, 5] (t, 0)) = 7" using same path t by metis
  then show ?thesis using run by blast
qed

theorem ssa_single_assignment_witness:
  "\<exists>st'. run_NonSsaToSsa (0, []) diamond_cfg 2 [] diamond_reads 10 = Some st' \<and>
    inj_on (\<lambda>(b, k, j). opat (rs_insts st') b k j) (ssa_defs diamond_cfg 2 (rs_insts st'))"
  using ssa_single_assignment [OF diamond_input, of "(0, [])"] by blast

end
