(* ===== verification/FrameLayout.thy ===== *)
theory FrameLayout
  imports Prelude
begin

text \<open>
  The stack frame of a function: the objects of \<open>MirFunctionStackFrame\<close> (EzMir/src/Function) and
  their offsets, assigned by \<open>MirFrameLowerer::calculateFrameLayout\<close>
  (EzTriple/src/FrameLowerer/MirFrameLowerer.cpp). Sizes, alignments and offsets are 64-bit
  words; an offset is a signed displacement from the frame pointer.
\<close>

section \<open>Stack objects\<close>

record frame_type =
  ft_sizeInBits :: u64
  ft_maxAlignmentInBits :: u64

definition getTotalSizeInBytes :: "frame_type \<Rightarrow> u64" where
  "getTotalSizeInBytes t = ft_sizeInBits t div 8"

datatype frame_source = Parameter | Variable | Spill

record frame_object =
  fo_offset :: u64
  fo_type :: frame_type
  fo_id :: nat
  fo_source :: frame_source

definition frame_create :: "u64 \<Rightarrow> frame_type \<Rightarrow> frame_source \<Rightarrow> frame_object list \<Rightarrow> frame_object list" where
  "frame_create offset t source frame =
     frame @ [\<lparr>fo_offset = offset, fo_type = t, fo_id = length frame, fo_source = source\<rparr>]"

definition createStaticStackObj :: "frame_type \<Rightarrow> frame_object list \<Rightarrow> frame_object list" where
  "createStaticStackObj t = frame_create 0 t Variable"

definition createStackSpill :: "frame_type \<Rightarrow> frame_object list \<Rightarrow> frame_object list" where
  "createStackSpill t = frame_create 0 t Spill"

definition createStackParam :: "frame_type \<Rightarrow> frame_object list \<Rightarrow> frame_object list" where
  "createStackParam t = frame_create 0 t Parameter"

definition getObjectFromId :: "frame_object list \<Rightarrow> mir_id \<Rightarrow> frame_object option" where
  "getObjectFromId frame i = (if i < length frame then Some (frame ! i) else None)"

text \<open>An object is found under the number it was created with.\<close>

definition frame_ids :: "frame_object list \<Rightarrow> bool" where
  "frame_ids frame \<longleftrightarrow> (\<forall>k < length frame. fo_id (frame ! k) = k)"

lemma frame_ids_create: "frame_ids frame \<Longrightarrow> frame_ids (frame_create offset t source frame)"
  by (auto simp: frame_ids_def frame_create_def nth_append less_Suc_eq)

lemma getObjectFromId_id: "frame_ids frame \<Longrightarrow> getObjectFromId frame i = Some obj \<Longrightarrow> fo_id obj = i"
  by (auto simp: frame_ids_def getObjectFromId_def split: if_splits)

section \<open>The layout\<close>

text \<open>What the target descriptor and the calling convention say.\<close>

record frame_abi =
  fa_slotSize :: u64
  fa_stackAlignment :: u64
  fa_shadowSpace :: u64
  fa_growsDown :: bool

definition object_align :: "frame_abi \<Rightarrow> frame_type \<Rightarrow> u64" where
  "object_align abi t = max ((ft_maxAlignmentInBits t + 7) div 8) (fa_slotSize abi)"

text \<open>One object: the current offset and the offset of the next incoming parameter are threaded.\<close>

definition layout_object :: "frame_abi \<Rightarrow> frame_object \<Rightarrow> u64 \<times> u64 \<Rightarrow> frame_object \<times> u64 \<times> u64" where
  "layout_object abi obj s =
     (case s of (currentOffset, incomingParamOffset) \<Rightarrow>
        let objSize = getTotalSizeInBytes (fo_type obj); objAlign = object_align abi (fo_type obj) in
        if fo_source obj = Parameter then
          let off = align_up incomingParamOffset objAlign
          in (obj\<lparr>fo_offset := off\<rparr>, currentOffset, off + max objSize (fa_slotSize abi))
        else if fa_growsDown abi then
          let off = align_up (currentOffset + objSize) objAlign
          in (obj\<lparr>fo_offset := - off\<rparr>, off, incomingParamOffset)
        else
          let off = align_up currentOffset objAlign
          in (obj\<lparr>fo_offset := off\<rparr>, off + objSize, incomingParamOffset))"

fun layout_objects :: "frame_abi \<Rightarrow> frame_object list \<Rightarrow> u64 \<times> u64 \<Rightarrow> frame_object list \<times> u64 \<times> u64" where
  "layout_objects abi [] s = ([], s)"
| "layout_objects abi (obj # objs) s =
     (let (obj', s1) = layout_object abi obj s; (objs', s2) = layout_objects abi objs s1 in (obj' # objs', s2))"

record frame_layout =
  fl_objects :: "frame_object list"
  fl_calleeSavedAreaSize :: u64
  fl_totalFrameSize :: u64

definition calculateFrameLayout :: "frame_abi \<Rightarrow> nat \<Rightarrow> frame_object list \<Rightarrow> frame_layout" where
  "calculateFrameLayout abi numCallees objs =
     (let area = of_nat numCallees * fa_slotSize abi;
          (objs', currentOffset, _) = layout_objects abi objs (area, 16 + fa_shadowSpace abi)
      in \<lparr>fl_objects = objs', fl_calleeSavedAreaSize = area,
          fl_totalFrameSize = align_up (currentOffset + fa_shadowSpace abi) (fa_stackAlignment abi)\<rparr>)"

section \<open>What a layout promises\<close>

text \<open>The displacements of the bytes the layout reserves for an object, its size in bits rounded down
  to bytes, and of the bytes an access to it touches, the size rounded up. They are the same for a
  type of whole bytes.\<close>

definition reserved_bytes :: "frame_object \<Rightarrow> int set" where
  "reserved_bytes obj = {sint (fo_offset obj) ..< sint (fo_offset obj) + int (unat (ft_sizeInBits (fo_type obj)) div 8)}"

definition object_bytes :: "frame_object \<Rightarrow> int set" where
  "object_bytes obj = {sint (fo_offset obj) ..< sint (fo_offset obj) + int ((unat (ft_sizeInBits (fo_type obj)) + 7) div 8)}"

definition whole_bytes :: "frame_object \<Rightarrow> bool" where
  "whole_bytes obj \<longleftrightarrow> 8 dvd unat (ft_sizeInBits (fo_type obj))"

lemma object_bytes_whole: "whole_bytes obj \<Longrightarrow> object_bytes obj = reserved_bytes obj"
  by (auto simp: whole_bytes_def object_bytes_def reserved_bytes_def elim!: dvdE)

lemma object_bytes_part:
  assumes "\<not> whole_bytes obj"
  shows "object_bytes obj = insert (sint (fo_offset obj) + int (unat (ft_sizeInBits (fo_type obj)) div 8)) (reserved_bytes obj)"
proof -
  have "(n + 7) div 8 = Suc (n div 8)" if "\<not> 8 dvd n" for n :: nat using that by presburger
  then show ?thesis using assms by (auto simp: whole_bytes_def object_bytes_def reserved_bytes_def)
qed

definition pow2 :: "u64 \<Rightarrow> bool" where
  "pow2 a \<longleftrightarrow> (\<exists>k < 64. a = 2 ^ k)"

text \<open>The one condition on types: their alignment, at least a slot, is a power of two.\<close>

definition type_ok :: "frame_abi \<Rightarrow> frame_type \<Rightarrow> bool" where
  "type_ok abi t \<longleftrightarrow> pow2 (object_align abi t)"

text \<open>An upper bound of the space the objects need.\<close>

definition object_room :: "frame_abi \<Rightarrow> frame_object list \<Rightarrow> nat" where
  "object_room abi objs =
     (\<Sum>obj \<leftarrow> objs. unat (getTotalSizeInBytes (fo_type obj)) + unat (object_align abi (fo_type obj)) + unat (fa_slotSize abi))"

definition same_object :: "frame_object \<Rightarrow> frame_object \<Rightarrow> bool" where
  "same_object a b \<longleftrightarrow> fo_type a = fo_type b \<and> fo_id a = fo_id b \<and> fo_source a = fo_source b"

definition apart :: "frame_object \<Rightarrow> frame_object \<Rightarrow> bool" where
  "apart a b \<longleftrightarrow> reserved_bytes a \<inter> reserved_bytes b = {}"

text \<open>An object placed between two bounds: locals below the frame pointer, parameters above.\<close>

definition placed :: "frame_abi \<Rightarrow> int \<Rightarrow> int \<Rightarrow> int \<Rightarrow> frame_object \<Rightarrow> bool" where
  "placed abi low high params obj \<longleftrightarrow>
     int (unat (object_align abi (fo_type obj))) dvd sint (fo_offset obj) \<and>
     (if fo_source obj = Parameter then reserved_bytes obj \<subseteq> {params ..} \<and> params \<le> sint (fo_offset obj)
      else reserved_bytes obj \<subseteq> {low ..< high} \<and> low \<le> sint (fo_offset obj))"

lemma placed_widen: "placed abi low high params obj \<Longrightarrow> low' \<le> low \<Longrightarrow> high \<le> high' \<Longrightarrow> params' \<le> params \<Longrightarrow> placed abi low' high' params' obj"
  by (auto simp: placed_def split: if_splits)

lemma two_powers: "(2 :: nat) ^ 63 = 9223372036854775808" "(2 :: nat) ^ 64 = 18446744073709551616"
  by simp_all

lemma sint_word64: "- (2 ^ 63) \<le> d \<Longrightarrow> d < 2 ^ 63 \<Longrightarrow> sint (word_of_int d :: u64) = d"
  by (simp add: signed_of_int signed_take_bit_int_eq_self)

lemma sint_small:
  fixes w :: u64
  assumes "unat w < 2 ^ 63"
  shows "sint w = int (unat w)"
proof -
  have "int (unat w) < int (2 ^ 63)" using assms by (simp only: of_nat_less_iff)
  then have "int (unat w) < 2 ^ 63" by (simp only: of_nat_power of_nat_numeral)
  moreover have "- (2 ^ 63) \<le> int (unat w)" by (rule order_trans [of _ 0]) simp_all
  ultimately have "sint (word_of_int (int (unat w)) :: u64) = int (unat w)" by (intro sint_word64)
  then show ?thesis by simp
qed

lemma sint_minus_small:
  fixes w :: u64
  assumes "unat w < 2 ^ 63"
  shows "sint (- w) = - int (unat w)"
proof -
  have "int (unat w) < int (2 ^ 63)" using assms by (simp only: of_nat_less_iff)
  then have "int (unat w) < 2 ^ 63" by (simp only: of_nat_power of_nat_numeral)
  then have "- (2 ^ 63) \<le> - int (unat w)" "- int (unat w) < 2 ^ 63" by linarith+
  then have "sint (word_of_int (- int (unat w)) :: u64) = - int (unat w)" by (rule sint_word64)
  moreover have "word_of_int (- int (unat w)) = - w" by simp
  ultimately show ?thesis by simp
qed

lemma pow2_pos: "pow2 a \<Longrightarrow> 0 < a"
  by (auto simp: pow2_def word_gt_0 exp_eq_zero_iff)

lemma pow2_align: "pow2 a \<Longrightarrow> int (unat a) dvd int (unat (align_up x a))"
proof -
  assume "pow2 a"
  then obtain k where k: "k < 64" "a = 2 ^ k" by (auto simp: pow2_def)
  have "(2 :: nat) ^ k < 2 ^ 64" using k(1) by (intro power_strict_increasing) simp_all
  moreover have "a = of_nat (2 ^ k)" using k(2) by simp
  ultimately have "unat a = 2 ^ k" by (simp only: unat_of_nat) simp
  then show ?thesis using align_up_multiple [OF k(2,1)] by (simp only: int_dvd_int_iff)
qed

lemma reserved_bytes_size:
  "reserved_bytes obj = {sint (fo_offset obj) ..< sint (fo_offset obj) + int (unat (getTotalSizeInBytes (fo_type obj)))}"
  by (simp add: reserved_bytes_def getTotalSizeInBytes_def unat_div)

text \<open>One object moves one of the two offsets past its bytes.\<close>

lemma layout_object_placed:
  assumes abi: "fa_growsDown abi" "0 < fa_slotSize abi" and ok: "type_ok abi (fo_type obj)"
    and room: "unat cur + object_room abi [obj] < 2 ^ 63" "unat inc + object_room abi [obj] < 2 ^ 63"
    and run: "layout_object abi obj (cur, inc) = (obj', cur', inc')"
  shows "same_object obj' obj \<and> unat cur \<le> unat cur' \<and> unat cur' \<le> unat cur + object_room abi [obj] \<and>
    unat inc \<le> unat inc' \<and> unat inc' \<le> unat inc + object_room abi [obj] \<and>
    placed abi (- int (unat cur')) (- int (unat cur)) (int (unat inc)) obj' \<and>
    (fo_source obj = Parameter \<longrightarrow> reserved_bytes obj' \<subseteq> {..< int (unat inc')})"
proof -
  let ?s = "getTotalSizeInBytes (fo_type obj)" and ?a = "object_align abi (fo_type obj)"
  have p: "pow2 ?a" using ok by (simp add: type_ok_def)
  have a0: "0 < ?a" by (rule pow2_pos [OF p])
  have r: "object_room abi [obj] = unat ?s + unat ?a + unat (fa_slotSize abi)" by (simp add: object_room_def)
  note room = room [unfolded r two_powers]
  show ?thesis
  proof (cases "fo_source obj = Parameter")
    case True
    let ?off = "align_up inc ?a"
    have o: "obj' = obj\<lparr>fo_offset := ?off\<rparr>" "cur' = cur" "inc' = ?off + max ?s (fa_slotSize abi)"
      using run True by (auto simp: layout_object_def Let_def)
    have up: "unat inc \<le> unat ?off" "unat ?off < unat inc + unat ?a" using align_up_range [OF a0, of inc] room by auto
    have m: "unat (max ?s (fa_slotSize abi)) \<le> unat ?s + unat (fa_slotSize abi)" "unat ?s \<le> unat (max ?s (fa_slotSize abi))"
      by (auto simp: max_def word_le_nat_alt)
    have i: "unat inc' = unat ?off + unat (max ?s (fa_slotSize abi))" unfolding o(3)
      by (rule unat_add_word, unfold two_powers) (use up m room in linarith)
    have s: "sint ?off = int (unat ?off)" by (rule sint_small, unfold two_powers) (use up room in linarith)
    have b: "reserved_bytes obj' = {int (unat ?off) ..< int (unat ?off) + int (unat ?s)}"
      by (simp add: reserved_bytes_size o(1) s)
    have os: "fo_offset obj' = ?off" by (simp add: o(1))
    then have "int (unat ?a) dvd sint (fo_offset obj')" using s pow2_align [OF p, of inc] by (simp only:)
    moreover have "reserved_bytes obj' \<subseteq> {int (unat inc) ..}" "reserved_bytes obj' \<subseteq> {..< int (unat inc')}"
      unfolding b i using up m by (auto simp del: of_nat_unat)
    ultimately show ?thesis using True up m i room r os s by (simp add: same_object_def placed_def o(1,2) del: of_nat_unat)
  next
    case False
    let ?off = "align_up (cur + ?s) ?a"
    have o: "obj' = obj\<lparr>fo_offset := - ?off\<rparr>" "cur' = ?off" "inc' = inc"
      using run False abi(1) by (auto simp: layout_object_def Let_def)
    have c: "unat (cur + ?s) = unat cur + unat ?s" by (rule unat_add_word, unfold two_powers) (use room in linarith)
    have up: "unat cur + unat ?s \<le> unat ?off" "unat ?off < unat cur + unat ?s + unat ?a"
      using align_up_range [OF a0, of "cur + ?s"] room c by auto
    have s: "sint (- ?off) = - int (unat ?off)" by (rule sint_minus_small, unfold two_powers) (use up room in linarith)
    have b: "reserved_bytes obj' = {- int (unat ?off) ..< - int (unat ?off) + int (unat ?s)}"
      by (simp add: reserved_bytes_size o(1) s)
    have "fo_offset obj' = - ?off" by (simp add: o(1))
    then have "int (unat ?a) dvd sint (fo_offset obj')" using s pow2_align [OF p, of "cur + ?s"] by (simp only: dvd_minus_iff)
    moreover have "reserved_bytes obj' \<subseteq> {- int (unat ?off) ..< - int (unat cur)}" unfolding b using up by (auto simp del: of_nat_unat)
    ultimately show ?thesis using False up room r s by (simp add: same_object_def placed_def o del: of_nat_unat)
  qed
qed

lemma apart_within: "reserved_bytes a \<subseteq> A \<Longrightarrow> reserved_bytes b \<subseteq> B \<Longrightarrow> A \<inter> B = {} \<Longrightarrow> apart a b \<and> apart b a"
  unfolding apart_def by blast

lemma placed_apart: "placed abi low high params a \<Longrightarrow> placed abi low' high' params' b \<Longrightarrow> low \<ge> high' \<Longrightarrow>
    fo_source a \<noteq> Parameter \<Longrightarrow> fo_source b \<noteq> Parameter \<Longrightarrow> apart a b"
  using apart_within [of a "{low ..< high}" b "{low' ..< high'}"] by (simp add: placed_def)

lemma placed_apart_param: "placed abi low high params a \<Longrightarrow> placed abi low' high' params' b \<Longrightarrow> high \<le> params' \<Longrightarrow>
    fo_source a \<noteq> Parameter \<Longrightarrow> fo_source b = Parameter \<Longrightarrow> apart a b \<and> apart b a"
proof -
  assume p: "placed abi low high params a" "placed abi low' high' params' b" "high \<le> params'" "fo_source a \<noteq> Parameter" "fo_source b = Parameter"
  have "{low ..< high} \<inter> {params' ..} = {}" using p(3) by auto
  then show ?thesis using p apart_within [of a "{low ..< high}" b "{params' ..}"] by (simp add: placed_def)
qed

lemma object_room_Cons: "object_room abi (obj # objs) = object_room abi [obj] + object_room abi objs"
  by (simp add: object_room_def)

lemma layout_objects_placed:
  assumes abi: "fa_growsDown abi" "0 < fa_slotSize abi"
  shows "\<forall>obj \<in> set objs. type_ok abi (fo_type obj) \<Longrightarrow>
    unat cur + object_room abi objs < 2 ^ 63 \<Longrightarrow> unat inc + object_room abi objs < 2 ^ 63 \<Longrightarrow>
    layout_objects abi objs (cur, inc) = (objs', cur', inc') \<Longrightarrow>
    list_all2 same_object objs' objs \<and> unat cur \<le> unat cur' \<and> unat cur' \<le> unat cur + object_room abi objs \<and>
    (\<forall>obj \<in> set objs'. placed abi (- int (unat cur')) (- int (unat cur)) (int (unat inc)) obj) \<and> sorted_wrt apart objs'"
proof (induction objs arbitrary: cur inc objs')
  case Nil
  then show ?case by simp
next
  case (Cons obj objs)
  obtain o1 c1 i1 where h: "layout_object abi obj (cur, inc) = (o1, c1, i1)" by (cases "layout_object abi obj (cur, inc)")
  obtain os c2 i2 where t: "layout_objects abi objs (c1, i1) = (os, c2, i2)" by (cases "layout_objects abi objs (c1, i1)")
  have e: "objs' = o1 # os" "cur' = c2" "inc' = i2" using Cons.prems(4) by (simp_all add: h t)
  note room = Cons.prems(2,3) [unfolded object_room_Cons [of abi obj objs]]
  have H: "same_object o1 obj" "unat cur \<le> unat c1" "unat c1 \<le> unat cur + object_room abi [obj]" "unat inc \<le> unat i1"
    "unat i1 \<le> unat inc + object_room abi [obj]" "placed abi (- int (unat c1)) (- int (unat cur)) (int (unat inc)) o1"
    "fo_source obj = Parameter \<longrightarrow> reserved_bytes o1 \<subseteq> {..< int (unat i1)}"
    using layout_object_placed [OF abi _ _ _ h] Cons.prems(1) room by (simp_all del: of_nat_unat)
  have T: "list_all2 same_object os objs" "unat c1 \<le> unat c2" "unat c2 \<le> unat c1 + object_room abi objs"
    "\<forall>obj \<in> set os. placed abi (- int (unat c2)) (- int (unat c1)) (int (unat i1)) obj" "sorted_wrt apart os"
    using Cons.IH [OF _ _ _ t [folded e(2,3)]] Cons.prems(1) H(3,5) room by (simp_all add: e del: of_nat_unat)
  have ap: "apart o1 ob" if "ob \<in> set os" for ob
  proof -
    note p = T(4) [rule_format, OF that]
    show ?thesis
    proof (cases "fo_source o1 = Parameter"; cases "fo_source ob = Parameter")
      assume "fo_source o1 \<noteq> Parameter" "fo_source ob \<noteq> Parameter"
      then show ?thesis by (intro placed_apart [OF H(6) p]) simp_all
    next
      assume "fo_source o1 \<noteq> Parameter" "fo_source ob = Parameter"
      then show ?thesis using placed_apart_param [OF H(6) p] by (simp del: of_nat_unat)
    next
      assume "fo_source o1 = Parameter" "fo_source ob \<noteq> Parameter"
      then show ?thesis using placed_apart_param [OF p H(6)] by (simp del: of_nat_unat)
    next
      assume s: "fo_source o1 = Parameter" "fo_source ob = Parameter"
      then have "reserved_bytes o1 \<subseteq> {..< int (unat i1)}" "reserved_bytes ob \<subseteq> {int (unat i1) ..}"
        using H(1,7) p by (simp_all add: same_object_def placed_def)
      moreover have "{..< int (unat i1)} \<inter> {int (unat i1) ..} = {}" by auto
      ultimately show ?thesis using apart_within by blast
    qed
  qed
  have "placed abi (- int (unat c2)) (- int (unat cur)) (int (unat inc)) ob" if "ob \<in> set (o1 # os)" for ob
    using that T(4) placed_widen [OF H(6), of "- int (unat c2)" "- int (unat cur)" "int (unat inc)"]
      placed_widen [of abi "- int (unat c2)" "- int (unat c1)" "int (unat i1)" ob "- int (unat c2)" "- int (unat cur)" "int (unat inc)"] H(2,4) T(2)
    by (auto simp del: of_nat_unat)
  then show ?case using H(1-3) T(1-3,5) ap unfolding e by (simp add: object_room_Cons [of abi obj objs] del: of_nat_unat)
qed

section \<open>The frame\<close>

text \<open>What the layout is correct for: the stack grows down, slots and stack alignment are powers of
  two, and everything fits in 63 bits.\<close>

definition layout_input :: "frame_abi \<Rightarrow> nat \<Rightarrow> frame_object list \<Rightarrow> bool" where
  "layout_input abi numCallees objs \<longleftrightarrow>
     fa_growsDown abi \<and> pow2 (fa_slotSize abi) \<and> pow2 (fa_stackAlignment abi) \<and> (\<forall>obj \<in> set objs. type_ok abi (fo_type obj)) \<and>
     numCallees * unat (fa_slotSize abi) + object_room abi objs + unat (fa_shadowSpace abi) + unat (fa_stackAlignment abi) + 16 < 2 ^ 63"

lemma layout_correct:
  assumes inp: "layout_input abi numCallees objs" and L: "L = calculateFrameLayout abi numCallees objs"
  shows "list_all2 same_object (fl_objects L) objs" "sorted_wrt apart (fl_objects L)"
    "unat (fl_calleeSavedAreaSize L) = numCallees * unat (fa_slotSize abi)"
    "unat (fa_stackAlignment abi) dvd unat (fl_totalFrameSize L)" "unat (fl_totalFrameSize L) + 16 < 2 ^ 63"
    "\<forall>obj \<in> set (fl_objects L). placed abi (int (unat (fa_shadowSpace abi)) - int (unat (fl_totalFrameSize L)))
       (- int (unat (fl_calleeSavedAreaSize L))) (int (unat (fa_shadowSpace abi)) + 16) obj"
    "unat (fl_calleeSavedAreaSize L) + unat (fa_shadowSpace abi) \<le> unat (fl_totalFrameSize L)"
proof -
  have a: "fa_growsDown abi" "pow2 (fa_slotSize abi)" "pow2 (fa_stackAlignment abi)" "\<forall>obj \<in> set objs. type_ok abi (fo_type obj)"
    and room: "numCallees * unat (fa_slotSize abi) + object_room abi objs + unat (fa_shadowSpace abi) + unat (fa_stackAlignment abi) + 16 < 9223372036854775808"
    using inp [unfolded layout_input_def two_powers] by blast+
  let ?area = "of_nat numCallees * fa_slotSize abi :: u64" and ?inc = "16 + fa_shadowSpace abi :: u64"
  obtain os c i where run: "layout_objects abi objs (?area, ?inc) = (os, c, i)" by (cases "layout_objects abi objs (?area, ?inc)")
  have l: "fl_objects L = os" "fl_calleeSavedAreaSize L = ?area" "fl_totalFrameSize L = align_up (c + fa_shadowSpace abi) (fa_stackAlignment abi)"
    unfolding L by (simp_all add: calculateFrameLayout_def run)
  have "?area = of_nat (numCallees * unat (fa_slotSize abi))" by simp
  then have "unat ?area = take_bit 64 (numCallees * unat (fa_slotSize abi))" by (simp only: unsigned_of_nat) simp
  then have area: "unat ?area = numCallees * unat (fa_slotSize abi)" using room by (simp add: take_bit_nat_eq_self)
  have inc: "unat ?inc = 16 + unat (fa_shadowSpace abi)" by (subst unat_add_word) (use room in simp_all)
  have P: "list_all2 same_object os objs" "unat ?area \<le> unat c" "unat c \<le> unat ?area + object_room abi objs"
    "\<forall>obj \<in> set os. placed abi (- int (unat c)) (- int (unat ?area)) (int (unat ?inc)) obj" "sorted_wrt apart os"
    using layout_objects_placed [OF a(1) pow2_pos [OF a(2)] a(4) _ _ run, unfolded two_powers area inc] room area inc
    by (simp_all del: of_nat_unat)
  have cs: "unat (c + fa_shadowSpace abi) = unat c + unat (fa_shadowSpace abi)"
    by (rule unat_add_word, unfold two_powers) (use P(3) area room in linarith)
  have up: "unat c + unat (fa_shadowSpace abi) \<le> unat (fl_totalFrameSize L)"
    "unat (fl_totalFrameSize L) < unat c + unat (fa_shadowSpace abi) + unat (fa_stackAlignment abi)"
    using align_up_range [OF pow2_pos [OF a(3)], of "c + fa_shadowSpace abi"] P(3) area room unfolding l(3) cs two_powers by linarith+
  show "list_all2 same_object (fl_objects L) objs" "sorted_wrt apart (fl_objects L)" using P(1,5) by (simp_all add: l(1))
  show "unat (fl_calleeSavedAreaSize L) = numCallees * unat (fa_slotSize abi)" unfolding l(2) by (rule area)
  show "unat (fa_stackAlignment abi) dvd unat (fl_totalFrameSize L)"
    using pow2_align [OF a(3), of "c + fa_shadowSpace abi"] unfolding l(3) by (simp only: int_dvd_int_iff)
  show "unat (fl_totalFrameSize L) + 16 < 2 ^ 63" unfolding two_powers using up P(3) area room by linarith
  show "unat (fl_calleeSavedAreaSize L) + unat (fa_shadowSpace abi) \<le> unat (fl_totalFrameSize L)" unfolding l(2) using up(1) P(2) by linarith
  show "\<forall>obj \<in> set (fl_objects L). placed abi (int (unat (fa_shadowSpace abi)) - int (unat (fl_totalFrameSize L)))
       (- int (unat (fl_calleeSavedAreaSize L))) (int (unat (fa_shadowSpace abi)) + 16) obj"
  proof
    fix obj assume "obj \<in> set (fl_objects L)"
    then have p: "placed abi (- int (unat c)) (- int (unat ?area)) (int (unat ?inc)) obj" using P(4) by (simp add: l(1))
    show "placed abi (int (unat (fa_shadowSpace abi)) - int (unat (fl_totalFrameSize L))) (- int (unat (fl_calleeSavedAreaSize L)))
        (int (unat (fa_shadowSpace abi)) + 16) obj"
      by (rule placed_widen [OF p]) (use up(1) inc l(2) in \<open>simp_all del: of_nat_unat\<close>)
  qed
qed


section \<open>Witness\<close>

definition sysv_abi :: frame_abi where
  "sysv_abi = \<lparr>fa_slotSize = 8, fa_stackAlignment = 16, fa_shadowSpace = 0, fa_growsDown = True\<rparr>"

definition int_type :: "u64 \<Rightarrow> frame_type" where
  "int_type n = \<lparr>ft_sizeInBits = n, ft_maxAlignmentInBits = n\<rparr>"

lemma pow2_lits: "pow2 8" "pow2 16"
  unfolding pow2_def by (rule exI [of _ 3], simp, rule exI [of _ 4], simp)

lemma sample_layout_input:
  "layout_input sysv_abi 1 (createStackSpill (int_type 64) [])" "layout_input sysv_abi 2 (createStackSpill (int_type 64) [])"
proof -
  have "object_align sysv_abi (int_type 64) = 8" "getTotalSizeInBytes (int_type 64) = 8" by code_simp+
  then show "layout_input sysv_abi 1 (createStackSpill (int_type 64) [])" "layout_input sysv_abi 2 (createStackSpill (int_type 64) [])"
    by (simp_all add: layout_input_def type_ok_def object_room_def createStackSpill_def frame_create_def pow2_lits)
      (simp_all add: sysv_abi_def int_type_def pow2_lits)
qed


end
