(* ===== verification/StackMachine.thy ===== *)
theory StackMachine
  imports MirTypes FrameLayout
begin

text \<open>
  The machine the frame code of the targets runs on: registers of 64 bits and a memory of bytes;
  and the interface of the code that saves registers on the stack and takes them back, with what
  follows from it for a whole list of registers.
\<close>

section \<open>Memory\<close>

record 'r machine =
  regs :: "'r \<Rightarrow> u64"
  mem :: "u64 \<Rightarrow> u8"

text \<open>The addresses of the \<open>n\<close> bytes from \<open>a\<close> on, modulo \<open>2^64\<close>.\<close>

definition within :: "u64 \<Rightarrow> nat \<Rightarrow> u64 \<Rightarrow> bool" where
  "within a n x \<longleftrightarrow> unat (x - a) < n"

definition store64 :: "u64 \<Rightarrow> u64 \<Rightarrow> (u64 \<Rightarrow> u8) \<Rightarrow> u64 \<Rightarrow> u8" where
  "store64 a v m = (\<lambda>x. if within a 8 x then le_bytes 8 v ! unat (x - a) else m x)"

definition load64 :: "(u64 \<Rightarrow> u8) \<Rightarrow> u64 \<Rightarrow> u64" where
  "load64 m a = le_word (map (\<lambda>i. m (a + of_nat i)) [0..<8])"

lemma unat_of_nat_small: "i < 2 ^ 64 \<Longrightarrow> unat (of_nat i :: u64) = i"
  by (simp add: unat_of_nat)

lemma within_at: "i < 8 \<Longrightarrow> within a 8 (a + of_nat i)" "i < 8 \<Longrightarrow> unat (a + of_nat i - a) = i" for a :: u64
  by (simp_all add: within_def unat_of_nat)

lemma load64_store64 [simp]: "load64 (store64 a v m) a = v"
proof -
  have "map (\<lambda>i. store64 a v m (a + of_nat i)) [0..<8] = le_bytes 8 v"
    by (rule nth_equalityI) (simp_all add: store64_def within_def unat_of_nat_small)
  moreover have "le_word (le_bytes 8 v) = v" by (rule le_word_le_bytes_full) simp
  ultimately show ?thesis by (simp only: load64_def)
qed

lemma load64_cong: "(\<And>x. within a 8 x \<Longrightarrow> m x = m' x) \<Longrightarrow> load64 m a = load64 m' a"
  unfolding load64_def by (intro arg_cong [where f = le_word] map_cong refl) (simp add: within_at)

lemma store64_other: "\<not> within a 8 x \<Longrightarrow> store64 a v m x = m x"
  by (simp add: store64_def)

text \<open>A range that starts inside another one, measured from the start of the first.\<close>

lemma within_next:
  assumes "a + b \<le> 2 ^ 64"
  shows "within (p + of_nat a) b x \<longleftrightarrow> a \<le> unat (x - p) \<and> unat (x - p) < a + b"
proof (cases "a = 2 ^ 64")
  case True
  then show ?thesis using assms unsigned_less [of "x - p", where 'a = nat] by (simp add: within_def)
next
  case False
  then have a: "unat (of_nat a :: u64) = a" using assms by (simp add: unat_of_nat)
  have e: "x - (p + of_nat a) = (x - p) - of_nat a" by simp
  have "unat (x - (p + of_nat a)) = (if a \<le> unat (x - p) then unat (x - p) - a else unat (x - p) + 2 ^ 64 - a)"
    unfolding e by (subst unat_sub_if') (simp add: a)
  then show ?thesis using assms by (auto simp: within_def)
qed

text \<open>Two words that do not overlap.\<close>

lemma load64_store64_apart:
  assumes "8 \<le> unat (b - a)" "unat (b - a) \<le> 2 ^ 64 - 8"
  shows "load64 (store64 a v m) b = load64 m b"
proof (rule load64_cong, rule store64_other)
  fix x assume "within b 8 x"
  moreover have "b = a + of_nat (unat (b - a))" by simp
  moreover have "unat (b - a) + 8 \<le> 2 ^ 64" using assms(2) by simp
  ultimately have "unat (b - a) \<le> unat (x - a)" using within_next [of "unat (b - a)" 8 a x] by metis
  then show "\<not> within a 8 x" using assms(1) by (simp add: within_def)
qed

lemma load64_zero [simp]: "load64 (\<lambda>_. 0) a = 0"
  by (simp add: load64_def upt_rec)

lemma within_prefix: "n \<le> m \<Longrightarrow> within a n x \<Longrightarrow> within a m x"
  by (simp add: within_def)

text \<open>The addresses of the bytes reserved for an object.\<close>

definition object_address :: "u64 \<Rightarrow> frame_object \<Rightarrow> u64 \<Rightarrow> bool" where
  "object_address fp obj x \<longleftrightarrow> (\<exists>d \<in> reserved_bytes obj. x = fp + word_of_int d)"

lemma local_object_within:
  assumes "reserved_bytes obj \<subseteq> {- int n ..< 0}" "n < 2 ^ 63" "object_address fp obj x"
  shows "within (fp - of_nat n) n x"
proof -
  obtain d where d: "d \<in> reserved_bytes obj" "x = fp + word_of_int d" using assms(3) by (auto simp: object_address_def)
  then have r: "- int n \<le> d" "d < 0" using assms(1) by auto
  have "x - (fp - of_nat n) = word_of_int (d + int n)" by (simp add: d(2))
  also have "\<dots> = of_nat (nat (d + int n))" using r by simp
  finally have "unat (x - (fp - of_nat n)) = unat (of_nat (nat (d + int n)) :: u64)" by (rule arg_cong)
  moreover have "nat (d + int n) < 2 ^ 64" using r assms(2) unfolding two_powers by linarith
  ultimately have "unat (x - (fp - of_nat n)) = nat (d + int n)" by (simp only: unat_of_nat_small)
  then show ?thesis using r by (simp add: within_def)
qed

section \<open>Operands and the setup of a frame\<close>

text \<open>Operands of target instructions: registers, immediates, memory at a displacement from a base,
  and references to stack objects.\<close>

datatype frame_operand =
    FReg reg_ref
  | FImm u64
  | FMem reg_ref u64
  | FStack mir_id
  | FOther

definition operand_at :: "frame_operand list \<Rightarrow> nat \<Rightarrow> frame_operand" where
  "operand_at ops k = (if k < length ops then ops ! k else FOther)"

definition operand_num :: "frame_operand list \<Rightarrow> nat \<Rightarrow> nat" where
  "operand_num ops k = (case operand_at ops k of FReg r \<Rightarrow> reg_id r | FMem b _ \<Rightarrow> reg_id b | _ \<Rightarrow> 0)"

definition operand_imm :: "frame_operand list \<Rightarrow> nat \<Rightarrow> u64" where
  "operand_imm ops k = (case operand_at ops k of FImm v \<Rightarrow> v | FMem _ v \<Rightarrow> v | _ \<Rightarrow> 0)"

text \<open>The value of an immediate field of \<open>n\<close> bits: the encoders keep the low bits of a wider
  immediate, and the processor extends their sign.\<close>

definition imm_field :: "nat \<Rightarrow> u64 \<Rightarrow> u64" where
  "imm_field n v = signed_take_bit (n - 1) v"

lemma imm_field_small: "n < 64 \<Longrightarrow> unat v < 2 ^ n \<Longrightarrow> imm_field (Suc n) v = v"
proof -
  assume n: "n < 64" and v: "unat v < 2 ^ n"
  have le: "(2 :: nat) ^ n \<le> 2 ^ 63" using n by (intro power_increasing) simp_all
  then have s: "sint v = int (unat v)" using v by (intro sint_small) linarith
  have "int (unat v) < int (2 ^ n)" using v by (simp only: of_nat_less_iff)
  then have "sint v < 2 ^ n" unfolding s by (simp only: of_nat_power of_nat_numeral)
  moreover have "- (2 ^ n) \<le> sint v" unfolding s by (rule order_trans [of _ 0]) simp_all
  ultimately show ?thesis using n unfolding imm_field_def by (intro signed_take_range) simp_all
qed

lemma imm_field_minus: "n < 64 \<Longrightarrow> unat v < 2 ^ n \<Longrightarrow> imm_field (Suc n) (- v) = - v"
proof -
  assume n: "n < 64" and v: "unat v < 2 ^ n"
  have le: "(2 :: nat) ^ n \<le> 2 ^ 63" using n by (intro power_increasing) simp_all
  then have s: "sint (- v) = - int (unat v)" using v by (intro sint_minus_small) linarith
  have "int (unat v) < int (2 ^ n)" using v by (simp only: of_nat_less_iff)
  then have "int (unat v) < 2 ^ n" by (simp only: of_nat_power of_nat_numeral)
  then have "- (2 ^ n) \<le> sint (- v)" "sint (- v) < 2 ^ n" unfolding s by linarith+
  then show ?thesis using n unfolding imm_field_def by (intro signed_take_range) simp_all
qed

lemma operand_simps [simp]:
  "operand_num (FReg r # ops) 0 = reg_id r" "operand_num (FMem b v # ops) 0 = reg_id b" "operand_num (op # ops) (Suc k) = operand_num ops k"
  "operand_imm (FImm v # ops) 0 = v" "operand_imm (FMem b v # ops) 0 = v" "operand_imm (op # ops) (Suc k) = operand_imm ops k"
  by (simp_all add: operand_num_def operand_imm_def operand_at_def)

text \<open>What prologue and epilogue are built from.\<close>

record frame_setup =
  fs_hasFP :: bool
  fs_fpRef :: reg_ref
  fs_spRef :: reg_ref
  fs_totalFrameSize :: u64
  fs_usedCallees :: "reg_ref list"

text \<open>The registers pushed and popped: the frame pointer has a place of its own.\<close>

definition saved_refs :: "frame_setup \<Rightarrow> reg_ref list" where
  "saved_refs s = filter (\<lambda>r. \<not> (fs_hasFP s \<and> r = fs_fpRef s)) (fs_usedCallees s)"

section \<open>Saving registers\<close>

text \<open>The interface: saving lowers the stack pointer by a fixed amount and stores the register at
  the new top; restoring loads it from there and raises the stack pointer again.\<close>

locale callee_saves =
  fixes save restore :: "'r \<Rightarrow> 'r machine \<Rightarrow> 'r machine" and sp :: 'r and stride :: nat
  assumes stride: "8 \<le> stride"
    and save_regs: "r \<noteq> sp \<Longrightarrow> regs (save r s) = (regs s)(sp := regs s sp - of_nat stride)"
    and save_mem: "r \<noteq> sp \<Longrightarrow> mem (save r s) = store64 (regs s sp - of_nat stride) (regs s r) (mem s)"
    and restore_regs: "r \<noteq> sp \<Longrightarrow> regs (restore r s) = (regs s)(r := load64 (mem s) (regs s sp), sp := regs s sp + of_nat stride)"
    and restore_mem: "r \<noteq> sp \<Longrightarrow> mem (restore r s) = mem s"
begin

lemma saves_regs: "sp \<notin> set rs \<Longrightarrow> regs (fold save rs s) = (regs s)(sp := regs s sp - of_nat (stride * length rs))"
  by (induction rs arbitrary: s) (auto simp: save_regs algebra_simps fun_eq_iff)

lemma saves_mem:
  "sp \<notin> set rs \<Longrightarrow> stride * length rs \<le> 2 ^ 64 \<Longrightarrow>
    \<not> within (regs s sp - of_nat (stride * length rs)) (stride * length rs) x \<Longrightarrow> mem (fold save rs s) x = mem s x"
proof (induction rs arbitrary: s)
  case (Cons r rs)
  let ?n = "stride * length rs" and ?p = "regs s sp - of_nat (stride * length (r # rs))"
  have r: "r \<noteq> sp" "sp \<notin> set rs" and room: "?n + stride \<le> 2 ^ 64" using Cons.prems(1,2) by auto
  have p: "regs s sp - of_nat stride = ?p + of_nat ?n" by (simp add: algebra_simps)
  have top: "regs (save r s) sp - of_nat ?n = ?p" by (simp add: save_regs [OF r(1)] algebra_simps)
  have out: "\<not> unat (x - ?p) < ?n + stride" using Cons.prems(3) by (simp add: within_def algebra_simps)
  have "\<not> within (regs (save r s) sp - of_nat ?n) ?n x" unfolding top within_def using out by linarith
  then have "mem (fold save rs (save r s)) x = mem (save r s) x" using room by (intro Cons.IH [OF r(2)]) simp
  also have "\<dots> = mem s x"
    unfolding save_mem [OF r(1)] p
    by (rule store64_other) (use room out stride within_next [of ?n 8 ?p x] in linarith)
  finally show ?case by simp
qed simp

text \<open>Registers taken back in the opposite order have the values they had, when the saved bytes
  are still there.\<close>

lemma restores_saves:
  "sp \<notin> set rs \<Longrightarrow> stride * length rs \<le> 2 ^ 64 \<Longrightarrow> s1 = fold save rs s \<Longrightarrow> regs s2 sp = regs s1 sp \<Longrightarrow>
    (\<And>x. within (regs s1 sp) (stride * length rs) x \<Longrightarrow> mem s2 x = mem s1 x) \<Longrightarrow>
    mem (fold restore (rev rs) s2) = mem s2 \<and>
    regs (fold restore (rev rs) s2) = (\<lambda>r. if r = sp then regs s sp else if r \<in> set rs then regs s r else regs s2 r)"
proof (induction rs arbitrary: s)
  case Nil
  then show ?case by (auto simp: fun_eq_iff)
next
  case (Cons r rs)
  let ?n = "stride * length rs" and ?sa = "save r s"
  have r: "r \<noteq> sp" "sp \<notin> set rs" and room: "?n + stride \<le> 2 ^ 64" using Cons.prems(1,2) by auto
  have s1: "s1 = fold save rs ?sa" using Cons.prems(3) by simp
  have sp1: "regs s1 sp = regs ?sa sp - of_nat ?n" unfolding s1 saves_regs [OF r(2)] by simp
  have keep: "mem s2 x = mem s1 x" if "unat (x - regs s1 sp) < ?n + stride" for x
    using Cons.prems(5) that by (simp add: within_def algebra_simps)
  have IH: "mem (fold restore (rev rs) s2) = mem s2"
    "regs (fold restore (rev rs) s2) = (\<lambda>q. if q = sp then regs ?sa sp else if q \<in> set rs then regs ?sa q else regs s2 q)"
    using Cons.IH [OF r(2) _ s1 Cons.prems(4)] room keep by (simp_all add: within_def)
  have a: "regs ?sa sp = regs s1 sp + of_nat ?n" by (simp add: sp1)
  have "load64 (mem s2) (regs ?sa sp) = load64 (mem ?sa) (regs ?sa sp)"
  proof (rule load64_cong)
    fix x assume "within (regs ?sa sp) 8 x"
    then have x: "?n \<le> unat (x - regs s1 sp)" "unat (x - regs s1 sp) < ?n + 8"
      using within_next [of ?n 8 "regs s1 sp" x] room stride unfolding a by auto
    have "mem s2 x = mem s1 x" by (rule keep) (use x(2) stride in linarith)
    also have "\<dots> = mem ?sa x" unfolding s1 by (rule saves_mem [OF r(2)]) (use room x(1) sp1 in \<open>simp_all add: within_def\<close>)
    finally show "mem s2 x = mem ?sa x" .
  qed
  also have "\<dots> = regs s r" by (simp add: save_mem [OF r(1)] save_regs [OF r(1)])
  finally have v: "load64 (mem s2) (regs ?sa sp) = regs s r" .
  have sa: "regs ?sa sp + of_nat stride = regs s sp" "\<And>q. q \<noteq> sp \<Longrightarrow> regs ?sa q = regs s q" by (simp_all add: save_regs [OF r(1)])
  let ?s3 = "fold restore (rev rs) s2"
  have "regs (restore r ?s3) = (regs ?s3)(r := regs s r, sp := regs s sp)"
    unfolding restore_regs [OF r(1)] IH(1) by (simp add: IH(2) v sa)
  then have "regs (restore r ?s3) = (\<lambda>q. if q = sp then regs s sp else if q \<in> set (r # rs) then regs s q else regs s2 q)"
    by (auto simp: fun_eq_iff IH(2) sa(2))
  then show ?case using IH(1) r(1) by (simp add: restore_mem)
qed

end

end
