(* ===== verification/X86_64Frame.thy ===== *)
theory X86_64Frame
  imports StackMachine
begin

text \<open>
  The frame lowerer of x86-64 (EzTargets/X86_64/src/FrameLowerer/X86_64FrameLowerer.cpp) and the
  pass that drives it (EzTriple/src/FrameLowerer). The calling convention and the target
  instruction table are generated at build time: what they answer is part of the setup, an
  instruction carries the name of its descriptor.
\<close>

section \<open>Instructions\<close>

text \<open>The flag of another instruction says whether it returns.\<close>

datatype x86_opcode =
    PUSH64r | POP64r | MOV64rr | SUB64ri | ADD64ri | LOAD64 | LEA64r | SUB64rr
  | ALLOC | DALLOC | RET | OtherInst nat bool

text \<open>\<open>xi_pointee\<close> is the type the first operand of an \<open>ALLOC\<close> points to, unless it is void.\<close>

record x86_inst =
  xi_op :: x86_opcode
  xi_operands :: "frame_operand list"
  xi_pointee :: "frame_type option"

definition buildTarget :: "x86_opcode \<Rightarrow> frame_operand list \<Rightarrow> x86_inst" where
  "buildTarget op ops = \<lparr>xi_op = op, xi_operands = ops, xi_pointee = None\<rparr>"

section \<open>Prologue and epilogue\<close>

definition probe_load :: "frame_setup \<Rightarrow> u64 \<Rightarrow> x86_inst" where
  "probe_load s offset = buildTarget LOAD64 [FReg (PReg (reg_class (fs_fpRef s)) 11), FMem (fs_spRef s) (- offset)]"

text \<open>Every multiple of 4096 below the frame size, then the frame size.\<close>

definition stack_probes :: "frame_setup \<Rightarrow> x86_inst list" where
  "stack_probes s =
     map (\<lambda>k. probe_load s (of_nat (4096 * k))) [1..<(unat (fs_totalFrameSize s) + 4095) div 4096] @
     [probe_load s (fs_totalFrameSize s)]"

definition x86_prologue :: "frame_setup \<Rightarrow> x86_inst list" where
  "x86_prologue s =
     (if fs_hasFP s then [buildTarget PUSH64r [FReg (fs_fpRef s)], buildTarget MOV64rr [FReg (fs_fpRef s), FReg (fs_spRef s)]] else []) @
     (if fs_totalFrameSize s > 0 then
        (if fs_totalFrameSize s \<ge> 4096 then stack_probes s else []) @
        [buildTarget SUB64ri [FReg (fs_spRef s), FReg (fs_spRef s), FImm (fs_totalFrameSize s)]]
      else []) @
     map (\<lambda>r. buildTarget PUSH64r [FReg r]) (saved_refs s)"

definition insertPrologue :: "frame_setup \<Rightarrow> x86_inst list list \<Rightarrow> x86_inst list list" where
  "insertPrologue s blocks = (case blocks of [] \<Rightarrow> [] | b # bs \<Rightarrow> (x86_prologue s @ b) # bs)"

definition x86_epilogue :: "frame_setup \<Rightarrow> x86_inst list" where
  "x86_epilogue s =
     map (\<lambda>r. buildTarget POP64r [FReg r]) (rev (saved_refs s)) @
     (if fs_hasFP s then [buildTarget MOV64rr [FReg (fs_spRef s), FReg (fs_fpRef s)], buildTarget POP64r [FReg (fs_fpRef s)]]
      else if fs_totalFrameSize s > 0 then [buildTarget ADD64ri [FReg (fs_spRef s), FReg (fs_spRef s), FImm (fs_totalFrameSize s)]]
      else [])"

definition is_return :: "x86_inst \<Rightarrow> bool" where
  "is_return i \<longleftrightarrow> (case xi_op i of RET \<Rightarrow> True | OtherInst _ ret \<Rightarrow> ret | _ \<Rightarrow> False)"

definition insertEpilogue :: "frame_setup \<Rightarrow> x86_inst list list \<Rightarrow> x86_inst list list" where
  "insertEpilogue s blocks = map (\<lambda>b. concat (map (\<lambda>i. if is_return i then x86_epilogue s @ [i] else [i]) b)) blocks"

section \<open>Allocations and references\<close>

text \<open>An \<open>ALLOC\<close> becomes the address of a new object; the type is \<open>i64\<close> by default.\<close>

definition lowerAlloc :: "frame_type \<Rightarrow> x86_inst \<Rightarrow> frame_object list \<Rightarrow> x86_inst \<times> frame_object list" where
  "lowerAlloc i64 i frame =
     (case xi_operands i of
        FReg dst # _ \<Rightarrow>
          (i\<lparr>xi_op := LEA64r, xi_operands := [FReg dst, FStack (length frame)]\<rparr>,
           createStaticStackObj (case xi_pointee i of Some t \<Rightarrow> t | None \<Rightarrow> i64) frame)
      | _ \<Rightarrow> (i, frame))"

definition lowerDAlloc :: "reg_ref \<Rightarrow> x86_inst \<Rightarrow> x86_inst list" where
  "lowerDAlloc sp i =
     (case xi_operands i of
        FReg dst # FReg src # _ \<Rightarrow>
          [buildTarget SUB64rr [FReg sp, FReg sp, FReg src], i\<lparr>xi_op := MOV64rr, xi_operands := [FReg dst, FReg sp]\<rparr>]
      | _ \<Rightarrow> [i])"

fun lower_allocs :: "frame_type \<Rightarrow> reg_ref \<Rightarrow> x86_inst list \<Rightarrow> frame_object list \<Rightarrow> x86_inst list \<times> frame_object list" where
  "lower_allocs i64 sp [] frame = ([], frame)"
| "lower_allocs i64 sp (i # is) frame =
     (if xi_op i = ALLOC then
        (let (i', frame1) = lowerAlloc i64 i frame; (is', frame2) = lower_allocs i64 sp is frame1 in (i' # is', frame2))
      else if xi_op i = DALLOC then
        (let (is', frame2) = lower_allocs i64 sp is frame in (lowerDAlloc sp i @ is', frame2))
      else (let (is', frame2) = lower_allocs i64 sp is frame in (i # is', frame2)))"

fun lower_alloc_blocks :: "frame_type \<Rightarrow> reg_ref \<Rightarrow> x86_inst list list \<Rightarrow> frame_object list \<Rightarrow> x86_inst list list \<times> frame_object list" where
  "lower_alloc_blocks i64 sp [] frame = ([], frame)"
| "lower_alloc_blocks i64 sp (b # bs) frame =
     (let (b', frame1) = lower_allocs i64 sp b frame; (bs', frame2) = lower_alloc_blocks i64 sp bs frame1 in (b' # bs', frame2))"

text \<open>A reference to an unknown object stays.\<close>

definition lower_stack_ref :: "reg_ref \<Rightarrow> frame_object list \<Rightarrow> frame_operand \<Rightarrow> frame_operand" where
  "lower_stack_ref base frame op =
     (case op of FStack n \<Rightarrow> (case getObjectFromId frame n of Some obj \<Rightarrow> FMem base (fo_offset obj) | None \<Rightarrow> op) | _ \<Rightarrow> op)"

definition lowerStackObjectReferences :: "frame_setup \<Rightarrow> frame_object list \<Rightarrow> x86_inst list list \<Rightarrow> x86_inst list list" where
  "lowerStackObjectReferences s frame blocks =
     map (map (\<lambda>i. i\<lparr>xi_operands := map (lower_stack_ref (if fs_hasFP s then fs_fpRef s else fs_spRef s) frame) (xi_operands i)\<rparr>)) blocks"

text \<open>The pass on one function. The convention's answer to \<open>hasFramePointer\<close> depends on the objects
  and is asked after the allocations are lowered.\<close>

record frame_conv =
  fv_abi :: frame_abi
  fv_hasFramePointer :: "frame_object list \<Rightarrow> bool"
  fv_fpRef :: reg_ref
  fv_spRef :: reg_ref

definition run_MirFrameLowerer ::
  "frame_conv \<Rightarrow> frame_type \<Rightarrow> reg_ref list \<Rightarrow> x86_inst list list \<Rightarrow> frame_object list \<Rightarrow> x86_inst list list \<times> frame_object list" where
  "run_MirFrameLowerer cc i64 callees blocks frame =
     (let (blocks1, frame1) = lower_alloc_blocks i64 (fv_spRef cc) blocks frame;
          L = calculateFrameLayout (fv_abi cc) (length callees) frame1;
          s = \<lparr>fs_hasFP = fv_hasFramePointer cc (fl_objects L), fs_fpRef = fv_fpRef cc, fs_spRef = fv_spRef cc,
               fs_totalFrameSize = fl_totalFrameSize L, fs_usedCallees = callees\<rparr>
      in (lowerStackObjectReferences s (fl_objects L) (insertEpilogue s (insertPrologue s blocks1)), fl_objects L))"

section \<open>Execution\<close>

text \<open>The hardware registers are those of the general-purpose bank, by number. Immediates and
  displacements are fields of 32 bits.\<close>

definition set_reg :: "nat \<Rightarrow> u64 \<Rightarrow> nat machine \<Rightarrow> nat machine" where
  "set_reg n v s = s\<lparr>regs := (regs s)(n := v)\<rparr>"

definition exec_x86 :: "nat \<Rightarrow> x86_opcode \<Rightarrow> frame_operand list \<Rightarrow> nat machine \<Rightarrow> nat machine" where
  "exec_x86 sp op ops s =
     (let num = operand_num ops; reg = (\<lambda>k. regs s (num k)); imm = (\<lambda>k. imm_field 32 (operand_imm ops k)) in
      case op of
        PUSH64r \<Rightarrow> s\<lparr>regs := (regs s)(sp := regs s sp - 8), mem := store64 (regs s sp - 8) (reg 0) (mem s)\<rparr>
      | POP64r \<Rightarrow> set_reg (num 0) (load64 (mem s) (regs s sp)) (set_reg sp (regs s sp + 8) s)
      | MOV64rr \<Rightarrow> set_reg (num 0) (reg 1) s
      | SUB64ri \<Rightarrow> set_reg (num 0) (reg 1 - imm 2) s
      | ADD64ri \<Rightarrow> set_reg (num 0) (reg 1 + imm 2) s
      | SUB64rr \<Rightarrow> set_reg (num 0) (reg 1 - reg 2) s
      | LOAD64 \<Rightarrow> set_reg (num 0) (load64 (mem s) (reg 1 + imm 1)) s
      | LEA64r \<Rightarrow> set_reg (num 0) (reg 1 + imm 1) s
      | _ \<Rightarrow> s)"

definition exec_code :: "nat \<Rightarrow> x86_inst list \<Rightarrow> nat machine \<Rightarrow> nat machine" where
  "exec_code sp is = fold (\<lambda>i. exec_x86 sp (xi_op i) (xi_operands i)) is"

lemma exec_code_simps [simp]:
  "exec_code sp [] s = s" "exec_code sp (i # is) s = exec_code sp is (exec_x86 sp (xi_op i) (xi_operands i) s)"
  "exec_code sp (xs @ ys) s = exec_code sp ys (exec_code sp xs s)"
  by (simp_all add: exec_code_def)

lemma buildTarget_simps [simp]: "xi_op (buildTarget op ops) = op" "xi_operands (buildTarget op ops) = ops"
  by (simp_all add: buildTarget_def)

definition push_num :: "nat \<Rightarrow> nat \<Rightarrow> nat machine \<Rightarrow> nat machine" where
  "push_num sp n s = s\<lparr>regs := (regs s)(sp := regs s sp - 8), mem := store64 (regs s sp - 8) (regs s n) (mem s)\<rparr>"

definition pop_num :: "nat \<Rightarrow> nat \<Rightarrow> nat machine \<Rightarrow> nat machine" where
  "pop_num sp n s = s\<lparr>regs := ((regs s)(sp := regs s sp + 8))(n := load64 (mem s) (regs s sp))\<rparr>"

interpretation x86_saves: callee_saves "push_num sp" "pop_num sp" sp 8 for sp
  by unfold_locales (auto simp: push_num_def pop_num_def fun_eq_iff)

lemma exec_pushes: "exec_code sp (map (\<lambda>r. buildTarget PUSH64r [FReg r]) rs) s = fold (push_num sp) (map reg_id rs) s"
  by (induction rs arbitrary: s) (simp_all add: push_num_def exec_x86_def Let_def)

lemma exec_pops: "exec_code sp (map (\<lambda>r. buildTarget POP64r [FReg r]) rs) s = fold (pop_num sp) (map reg_id rs) s"
  by (induction rs arbitrary: s) (simp_all add: pop_num_def exec_x86_def set_reg_def Let_def)

text \<open>The probes change the scratch register only.\<close>

lemma exec_probes:
  assumes "reg_id (fs_spRef s) = sp" "sp \<noteq> 11"
  shows "\<exists>v. exec_code sp (stack_probes s) m = m\<lparr>regs := (regs m)(11 := v)\<rparr>"
proof -
  have one: "\<exists>v. exec_x86 sp (xi_op (probe_load s d)) (xi_operands (probe_load s d)) m = m\<lparr>regs := (regs m)(11 := v)\<rparr>" for d m
    by (auto simp: probe_load_def exec_x86_def set_reg_def Let_def)
  have "\<exists>v. exec_code sp (map (probe_load s) ds) m = m\<lparr>regs := (regs m)(11 := v)\<rparr>" for ds m
  proof (induction ds arbitrary: m)
    case Nil
    show ?case by (rule exI [of _ "regs m 11"]) (simp del: fun_upd_apply)
  next
    case (Cons d ds)
    obtain v where "exec_x86 sp (xi_op (probe_load s d)) (xi_operands (probe_load s d)) m = m\<lparr>regs := (regs m)(11 := v)\<rparr>"
      using one [of d m] by blast
    moreover obtain va where "exec_code sp (map (probe_load s) ds) (m\<lparr>regs := (regs m)(11 := v)\<rparr>) =
        (m\<lparr>regs := (regs m)(11 := v)\<rparr>)\<lparr>regs := (regs (m\<lparr>regs := (regs m)(11 := v)\<rparr>))(11 := va)\<rparr>"
      using Cons.IH by blast
    ultimately show ?case by (intro exI [of _ va]) (simp del: fun_upd_apply)
  qed
  from this [of "map (\<lambda>k. of_nat (4096 * k)) [1..<(unat (fs_totalFrameSize s) + 4095) div 4096] @ [fs_totalFrameSize s]" m]
  show ?thesis by (simp add: stack_probes_def comp_def)
qed

lemma exec_inst_simps [simp]:
  "exec_x86 sp PUSH64r [FReg r] s = push_num sp (reg_id r) s"
  "exec_x86 sp POP64r [FReg r] s = pop_num sp (reg_id r) s"
  "exec_x86 sp MOV64rr [FReg d, FReg r] s = set_reg (reg_id d) (regs s (reg_id r)) s"
  "exec_x86 sp SUB64ri [FReg d, FReg r, FImm v] s = set_reg (reg_id d) (regs s (reg_id r) - imm_field 32 v) s"
  "exec_x86 sp ADD64ri [FReg d, FReg r, FImm v] s = set_reg (reg_id d) (regs s (reg_id r) + imm_field 32 v) s"
  "exec_x86 sp SUB64rr [FReg d, FReg r, FReg q] s = set_reg (reg_id d) (regs s (reg_id r) - regs s (reg_id q)) s"
  "exec_x86 sp LEA64r [FReg d, FMem b v] s = set_reg (reg_id d) (regs s (reg_id b) + imm_field 32 v) s"
  by (simp_all add: exec_x86_def set_reg_def push_num_def pop_num_def Let_def numeral_2_eq_2)

section \<open>The frame on the machine\<close>

text \<open>The registers of a setup: distinct, and neither the stack pointer nor the scratch register is
  among those saved.\<close>

definition setup_ok :: "frame_setup \<Rightarrow> bool" where
  "setup_ok s \<longleftrightarrow> reg_id (fs_spRef s) \<noteq> reg_id (fs_fpRef s) \<and> 11 \<notin> {reg_id (fs_spRef s), reg_id (fs_fpRef s)} \<and>
     (\<forall>r \<in> set (fs_usedCallees s). reg_id r \<noteq> reg_id (fs_spRef s) \<and> reg_id r \<noteq> 11)"

definition saved_size :: "frame_setup \<Rightarrow> nat" where
  "saved_size s = 8 * length (saved_refs s)"

text \<open>After the frame pointer is set up, and after the frame is allocated.\<close>

definition linked_state :: "frame_setup \<Rightarrow> nat machine \<Rightarrow> nat machine" where
  "linked_state s m =
     (if fs_hasFP s then set_reg (reg_id (fs_fpRef s)) (regs m (reg_id (fs_spRef s)) - 8) (push_num (reg_id (fs_spRef s)) (reg_id (fs_fpRef s)) m)
      else m)"

definition alloc_state :: "frame_setup \<Rightarrow> u64 \<Rightarrow> nat machine \<Rightarrow> nat machine" where
  "alloc_state s v m = set_reg (reg_id (fs_spRef s)) (regs m (reg_id (fs_spRef s)) - fs_totalFrameSize s) (set_reg 11 v m)"

lemma set_reg_simps [simp]: "mem (set_reg n v m) = mem m" "regs (set_reg n v m) = (regs m)(n := v)" "set_reg n (regs m n) m = m"
  by (simp_all add: set_reg_def)

lemma x86_prologue_exec:
  assumes ok: "setup_ok s" and sp: "sp = reg_id (fs_spRef s)" and small: "imm_field 32 (fs_totalFrameSize s) = fs_totalFrameSize s"
  shows "\<exists>v. exec_code sp (x86_prologue s) m = fold (push_num sp) (map reg_id (saved_refs s)) (alloc_state s v (linked_state s m))"
proof -
  let ?link = "if fs_hasFP s then [buildTarget PUSH64r [FReg (fs_fpRef s)], buildTarget MOV64rr [FReg (fs_fpRef s), FReg (fs_spRef s)]] else []"
  let ?alloc = "if fs_totalFrameSize s > 0 then (if fs_totalFrameSize s \<ge> 4096 then stack_probes s else []) @
        [buildTarget SUB64ri [FReg (fs_spRef s), FReg (fs_spRef s), FImm (fs_totalFrameSize s)]] else []"
  have sp11: "sp \<noteq> 11" using ok by (auto simp: setup_ok_def sp)
  have link: "exec_code sp ?link m = linked_state s m" by (simp add: linked_state_def sp push_num_def)
  have "\<exists>v. exec_code sp ?alloc e = alloc_state s v e" for e
  proof -
    consider "fs_totalFrameSize s = 0" | "fs_totalFrameSize s > 0" "fs_totalFrameSize s < 4096" | "fs_totalFrameSize s > 0" "fs_totalFrameSize s \<ge> 4096"
      using word_gt_0 by fastforce
    then show ?thesis
    proof cases
      case 1
      then show ?thesis by (intro exI [of _ "regs e 11"]) (simp add: alloc_state_def)
    next
      case 2
      then show ?thesis by (intro exI [of _ "regs e 11"]) (simp add: alloc_state_def sp small)
    next
      case 3
      obtain v where "exec_code sp (stack_probes s) e = e\<lparr>regs := (regs e)(11 := v)\<rparr>"
        using exec_probes [OF sp [symmetric] sp11] by blast
      then have "exec_code sp (stack_probes s) e = set_reg 11 v e" by (simp add: set_reg_def)
      then show ?thesis using 3 sp11 by (intro exI [of _ v]) (simp add: alloc_state_def sp small)
    qed
  qed
  then obtain v where "exec_code sp ?alloc (linked_state s m) = alloc_state s v (linked_state s m)" by blast
  then show ?thesis unfolding x86_prologue_def exec_code_simps link by (auto simp: exec_pushes)
qed

lemma x86_epilogue_exec:
  assumes small: "imm_field 32 (fs_totalFrameSize s) = fs_totalFrameSize s"
  shows "exec_code (reg_id (fs_spRef s)) (x86_epilogue s) m =
     (let u = fold (pop_num (reg_id (fs_spRef s))) (rev (map reg_id (saved_refs s))) m in
      if fs_hasFP s then pop_num (reg_id (fs_spRef s)) (reg_id (fs_fpRef s)) (set_reg (reg_id (fs_spRef s)) (regs u (reg_id (fs_fpRef s))) u)
      else set_reg (reg_id (fs_spRef s)) (regs u (reg_id (fs_spRef s)) + fs_totalFrameSize s) u)"
proof (cases "fs_hasFP s")
  case True
  then show ?thesis by (simp add: x86_epilogue_def exec_pops rev_map small Let_def)
next
  case False
  show ?thesis
  proof (cases "0 < fs_totalFrameSize s")
    case True
    then show ?thesis using False by (simp add: x86_epilogue_def exec_pops rev_map small Let_def)
  next
    case no: False
    then have "fs_totalFrameSize s = 0" by (simp add: word_gt_0)
    then show ?thesis using False by (simp add: x86_epilogue_def exec_pops rev_map small Let_def)
  qed
qed

text \<open>The bytes a prologue takes from the stack.\<close>

definition frame_size :: "frame_setup \<Rightarrow> nat" where
  "frame_size s = saved_size s + unat (fs_totalFrameSize s) + (if fs_hasFP s then 8 else 0)"

lemma saved_numbers:
  assumes "setup_ok s"
  shows "reg_id (fs_spRef s) \<notin> set (map reg_id (saved_refs s))" "11 \<notin> set (map reg_id (saved_refs s))"
    "r \<in> set (fs_usedCallees s) \<Longrightarrow> r \<in> set (saved_refs s) \<or> fs_hasFP s \<and> r = fs_fpRef s"
  using assms by (auto simp: setup_ok_def saved_refs_def)

lemma x86_prologue_state:
  assumes ok: "setup_ok s" and sp: "sp = reg_id (fs_spRef s)" and fp: "fp = reg_id (fs_fpRef s)"
    and small: "imm_field 32 (fs_totalFrameSize s) = fs_totalFrameSize s"
    and room: "frame_size s \<le> 2 ^ 64" and s1: "s1 = exec_code sp (x86_prologue s) s0"
  shows "regs s1 sp = regs s0 sp - of_nat (frame_size s)" "fs_hasFP s \<Longrightarrow> regs s1 fp = regs s0 sp - 8"
    "\<not> within (regs s1 sp) (frame_size s) x \<Longrightarrow> mem s1 x = mem s0 x"
    "fs_hasFP s \<Longrightarrow> load64 (mem s1) (regs s0 sp - 8) = regs s0 fp"
    "\<exists>a. s1 = fold (push_num sp) (map reg_id (saved_refs s)) a \<and> regs a sp = regs s1 sp + of_nat (saved_size s) \<and>
       (\<forall>n. n \<noteq> sp \<longrightarrow> n \<noteq> 11 \<longrightarrow> \<not> (fs_hasFP s \<and> n = fp) \<longrightarrow> regs a n = regs s0 n) \<and> (fs_hasFP s \<longrightarrow> regs a fp = regs s0 sp - 8)"
proof -
  have d: "sp \<noteq> fp" "sp \<noteq> 11" "fp \<noteq> 11" using ok by (auto simp: setup_ok_def sp fp)
  note S = saved_numbers [OF ok, folded sp]
  let ?rs = "map reg_id (saved_refs s)" and ?total = "fs_totalFrameSize s"
  obtain v where e: "s1 = fold (push_num sp) ?rs (alloc_state s v (linked_state s s0))"
    using x86_prologue_exec [OF ok sp small, of s0] s1 by auto
  let ?l = "linked_state s s0" and ?a = "alloc_state s v (linked_state s s0)"
  have len: "8 * length ?rs = saved_size s" by (simp add: saved_size_def)
  have room8: "8 * length ?rs \<le> 2 ^ 64" unfolding len using room by (simp add: frame_size_def)
  have l: "regs ?l sp = regs s0 sp - (if fs_hasFP s then 8 else 0)" "fs_hasFP s \<Longrightarrow> regs ?l fp = regs s0 sp - 8"
    "n \<noteq> sp \<Longrightarrow> \<not> (fs_hasFP s \<and> n = fp) \<Longrightarrow> regs ?l n = regs s0 n"
    "mem ?l = (if fs_hasFP s then store64 (regs s0 sp - 8) (regs s0 fp) (mem s0) else mem s0)" for n
    using d(1) by (auto simp: linked_state_def push_num_def sp fp)
  have a: "regs ?a sp = regs ?l sp - ?total" "mem ?a = mem ?l" "n \<noteq> sp \<Longrightarrow> n \<noteq> 11 \<Longrightarrow> regs ?a n = regs ?l n" for n
    by (simp_all add: alloc_state_def sp)
  have r1: "regs s1 = (regs ?a)(sp := regs ?a sp - of_nat (saved_size s))"
    unfolding e x86_saves.saves_regs [OF S(1)] len ..
  show sp1: "regs s1 sp = regs s0 sp - of_nat (frame_size s)" by (simp add: r1 a(1) l(1) frame_size_def algebra_simps)
  show fp1: "regs s1 fp = regs s0 sp - 8" if "fs_hasFP s" using that d a(3) [of fp] l(2) by (simp add: r1)
  have m1: "mem s1 x = mem ?a x" if "\<not> within (regs s1 sp) (saved_size s) x" for x
    unfolding e by (rule x86_saves.saves_mem [OF S(1) room8]) (use that r1 in \<open>simp add: saved_size_def\<close>)
  have link: "regs s0 sp - 8 = regs s1 sp + of_nat (saved_size s + unat ?total)" if "fs_hasFP s"
    using that by (simp add: sp1 frame_size_def algebra_simps)
  show "mem s1 x = mem s0 x" if x: "\<not> within (regs s1 sp) (frame_size s) x"
  proof -
    have "\<not> within (regs s1 sp) (saved_size s) x" using x by (auto simp: within_def frame_size_def)
    moreover have "\<not> within (regs s0 sp - 8) 8 x" if h: "fs_hasFP s"
      using x h room within_next [of "saved_size s + unat ?total" 8 "regs s1 sp" x] unfolding link [OF h]
      by (auto simp: within_def frame_size_def)
    ultimately show ?thesis using m1 by (simp add: a(2) l(4) store64_other)
  qed
  show "load64 (mem s1) (regs s0 sp - 8) = regs s0 fp" if h: "fs_hasFP s"
  proof -
    have "load64 (mem s1) (regs s0 sp - 8) = load64 (mem ?a) (regs s0 sp - 8)"
    proof (rule load64_cong, rule m1)
      fix x assume "within (regs s0 sp - 8) 8 x"
      then show "\<not> within (regs s1 sp) (saved_size s) x"
        using h room within_next [of "saved_size s + unat ?total" 8 "regs s1 sp" x] unfolding link [OF h]
        by (auto simp: within_def frame_size_def)
    qed
    then show ?thesis using h by (simp add: a(2) l(4))
  qed
  show "\<exists>a. s1 = fold (push_num sp) ?rs a \<and> regs a sp = regs s1 sp + of_nat (saved_size s) \<and>
       (\<forall>n. n \<noteq> sp \<longrightarrow> n \<noteq> 11 \<longrightarrow> \<not> (fs_hasFP s \<and> n = fp) \<longrightarrow> regs a n = regs s0 n) \<and> (fs_hasFP s \<longrightarrow> regs a fp = regs s0 sp - 8)"
    using e r1 a(3) l(2,3) d by (intro exI [of _ ?a]) simp
qed

lemma x86_epilogue_restores:
  assumes ok: "setup_ok s" and sp: "sp = reg_id (fs_spRef s)" and fp: "fp = reg_id (fs_fpRef s)"
    and small: "imm_field 32 (fs_totalFrameSize s) = fs_totalFrameSize s"
    and room: "frame_size s \<le> 2 ^ 64" and s1: "s1 = exec_code sp (x86_prologue s) s0"
    and body: "regs t sp = regs s1 sp" "fs_hasFP s \<longrightarrow> regs t fp = regs s1 fp"
    and saved: "\<And>x. within (regs s1 sp) (saved_size s) x \<Longrightarrow> mem t x = mem s1 x"
      "\<And>x. fs_hasFP s \<Longrightarrow> within (regs s0 sp - 8) 8 x \<Longrightarrow> mem t x = mem s1 x"
    and u: "u = exec_code sp (x86_epilogue s) t"
  shows "regs u sp = regs s0 sp" "fs_hasFP s \<Longrightarrow> regs u fp = regs s0 fp" "r \<in> set (fs_usedCallees s) \<Longrightarrow> regs u (reg_id r) = regs s0 (reg_id r)"
    "mem u = mem t" "n \<notin> insert sp (insert fp (reg_id ` set (fs_usedCallees s))) \<Longrightarrow> regs u n = regs t n"
proof -
  let ?rs = "map reg_id (saved_refs s)"
  have d: "sp \<noteq> fp" "sp \<noteq> 11" "fp \<noteq> 11" using ok by (auto simp: setup_ok_def sp fp)
  note S = saved_numbers [OF ok, folded sp] and P = x86_prologue_state [OF ok sp fp small room s1]
  obtain a where a: "s1 = fold (push_num sp) ?rs a" "regs a sp = regs s1 sp + of_nat (saved_size s)"
    "\<And>n. n \<noteq> sp \<Longrightarrow> n \<noteq> 11 \<Longrightarrow> \<not> (fs_hasFP s \<and> n = fp) \<Longrightarrow> regs a n = regs s0 n" "fs_hasFP s \<Longrightarrow> regs a fp = regs s0 sp - 8"
    using P(5) by blast
  have room8: "8 * length ?rs \<le> 2 ^ 64" using room by (simp add: frame_size_def saved_size_def)
  let ?p = "fold (pop_num sp) (rev ?rs) t"
  have pops: "mem ?p = mem t" "regs ?p = (\<lambda>r. if r = sp then regs a sp else if r \<in> set ?rs then regs a r else regs t r)"
    using x86_saves.restores_saves [OF S(1) room8 a(1) body(1)] saved(1) by (simp_all add: saved_size_def)
  have num: "reg_id r \<noteq> sp" "reg_id r \<noteq> 11" if "r \<in> set (fs_usedCallees s)" for r
    using ok that by (auto simp: setup_ok_def sp)
  have sub: "set ?rs \<subseteq> reg_id ` set (fs_usedCallees s)" by (auto simp: saved_refs_def)
  have uu: "u = (if fs_hasFP s then pop_num sp fp (set_reg sp (regs ?p fp) ?p) else set_reg sp (regs ?p sp + fs_totalFrameSize s) ?p)"
    unfolding u using x86_epilogue_exec [OF small, of t] by (simp add: sp fp Let_def)
  have fpP: "regs ?p fp = regs s0 sp - 8" if "fs_hasFP s" using that pops(2) a(4) d(1) body(2) P(2) by auto
  have old: "load64 (mem ?p) (regs s0 sp - 8) = regs s0 fp" if h: "fs_hasFP s"
    unfolding pops(1) P(4) [OF h, symmetric] by (rule load64_cong) (rule saved(2) [OF h])
  show "regs u sp = regs s0 sp"
  proof (cases "fs_hasFP s")
    case True
    then show ?thesis using fpP d(1) by (simp add: uu pop_num_def)
  next
    case False
    then show ?thesis using P(1) by (simp add: uu pops(2) a(2) frame_size_def)
  qed
  show fpu: "regs u fp = regs s0 fp" if "fs_hasFP s" using that fpP old d(1) by (simp add: uu pop_num_def)
  show "mem u = mem t" by (simp add: uu pops(1) pop_num_def)
  show "regs u n = regs t n" if "n \<notin> insert sp (insert fp (reg_id ` set (fs_usedCallees s)))"
    using that sub by (auto simp: uu pops(2) pop_num_def)
  show "regs u (reg_id r) = regs s0 (reg_id r)" if r: "r \<in> set (fs_usedCallees s)"
  proof (cases "fs_hasFP s \<and> reg_id r = fp")
    case True
    then show ?thesis using fpu by simp
  next
    case False
    then have "reg_id r \<in> set ?rs" using S(3) [OF r] fp by auto
    then have "regs ?p (reg_id r) = regs s0 (reg_id r)" using pops(2) num [OF r] a(3) False by simp
    then show ?thesis using num [OF r] False by (auto simp: uu pop_num_def)
  qed
qed

section \<open>Stack objects on the machine\<close>

text \<open>A body keeps the frame: it leaves both pointers as they are and writes memory only in the
  local objects and outside the frame.\<close>

definition keeps_frame :: "frame_setup \<Rightarrow> frame_object list \<Rightarrow> nat machine \<Rightarrow> nat machine \<Rightarrow> nat machine \<Rightarrow> bool" where
  "keeps_frame s objs s0 s1 t \<longleftrightarrow>
     regs t (reg_id (fs_spRef s)) = regs s1 (reg_id (fs_spRef s)) \<and>
     (fs_hasFP s \<longrightarrow> regs t (reg_id (fs_fpRef s)) = regs s1 (reg_id (fs_fpRef s))) \<and>
     (\<forall>x. mem t x \<noteq> mem s1 x \<longrightarrow>
        fs_hasFP s \<and> (\<exists>obj \<in> set objs. fo_source obj \<noteq> Parameter \<and> object_address (regs s1 (reg_id (fs_fpRef s))) obj x) \<or>
        \<not> within (regs s1 (reg_id (fs_spRef s))) (frame_size s) x)"

text \<open>C8: the x86-64 frame, for frames of less than two gigabytes, which the 32-bit immediates hold:
  after the prologue, a body that moves neither pointer and writes only into the bytes reserved for
  the local objects of the computed layout and outside the frame, and the epilogue, the stack
  pointer, the frame pointer and every callee-saved register the function uses have their old
  values, every other register has the value the body left, and memory is as the body left it.\<close>

theorem x86_frame_restores:
  assumes inp: "layout_input abi (length callees) objs" and L: "L = calculateFrameLayout abi (length callees) objs"
    and s: "fs_totalFrameSize s = fl_totalFrameSize L" "fs_usedCallees s = callees" and ok: "setup_ok s" and slot: "fa_slotSize abi = 8"
    and bound: "unat (fs_totalFrameSize s) < 2 ^ 31"
    and s1: "s1 = exec_code (reg_id (fs_spRef s)) (x86_prologue s) s0" and body: "keeps_frame s (fl_objects L) s0 s1 t"
    and u: "u = exec_code (reg_id (fs_spRef s)) (x86_epilogue s) t"
  shows "regs u (reg_id (fs_spRef s)) = regs s0 (reg_id (fs_spRef s)) \<and>
    (fs_hasFP s \<longrightarrow> regs u (reg_id (fs_fpRef s)) = regs s0 (reg_id (fs_fpRef s))) \<and>
    (\<forall>r \<in> set callees. regs u (reg_id r) = regs s0 (reg_id r)) \<and>
    (\<forall>n. n \<notin> insert (reg_id (fs_spRef s)) (insert (reg_id (fs_fpRef s)) (reg_id ` set callees)) \<longrightarrow> regs u n = regs t n) \<and>
    mem u = mem t"
proof -
  let ?sp = "reg_id (fs_spRef s)" and ?fp = "reg_id (fs_fpRef s)" and ?total = "unat (fs_totalFrameSize s)"
  note small = imm_field_small [of 31, OF _ bound, simplified]
  note l = layout_correct [OF inp L]
  have n8: "length callees * 8 \<le> ?total" and t63: "?total + 16 < 9223372036854775808"
    using l(3,5,7) by (simp_all add: s(1) slot)
  have "saved_size s \<le> 8 * length callees" by (simp add: saved_size_def saved_refs_def s(2) length_filter_le)
  then have room: "frame_size s \<le> 2 ^ 64" unfolding frame_size_def two_powers using n8 t63 by (cases "fs_hasFP s") simp_all
  note P = x86_prologue_state [OF ok refl refl small room s1]
  have b: "regs t ?sp = regs s1 ?sp" "fs_hasFP s \<longrightarrow> regs t ?fp = regs s1 ?fp"
    and wr: "\<And>x. mem t x \<noteq> mem s1 x \<Longrightarrow> fs_hasFP s \<and> (\<exists>obj \<in> set (fl_objects L). fo_source obj \<noteq> Parameter \<and> object_address (regs s1 ?fp) obj x) \<or>
        \<not> within (regs s1 ?sp) (frame_size s) x"
    using body by (simp_all add: keeps_frame_def)
  have obj: "saved_size s \<le> unat (x - regs s1 ?sp) \<and> unat (x - regs s1 ?sp) < saved_size s + ?total"
    if h: "fs_hasFP s" and o: "obj \<in> set (fl_objects L)" "fo_source obj \<noteq> Parameter" "object_address (regs s1 ?fp) obj x" for obj x
  proof -
    have "reserved_bytes obj \<subseteq> {int (unat (fa_shadowSpace abi)) - int ?total ..< - int (unat (fl_calleeSavedAreaSize L))}"
      using l(6) o(1,2) by (simp add: placed_def s(1))
    moreover have "{int (unat (fa_shadowSpace abi)) - int ?total ..< - int (unat (fl_calleeSavedAreaSize L))} \<subseteq> {- int ?total ..< 0}"
      by (auto simp del: of_nat_unat)
    ultimately have "reserved_bytes obj \<subseteq> {- int ?total ..< 0}" by (rule order_trans)
    then have w: "within (regs s1 ?fp - of_nat ?total) ?total x" by (rule local_object_within) (use t63 o(3) in simp_all)
    have "regs s0 ?sp = regs s1 ?sp + of_nat (saved_size s) + of_nat ?total + 8" using P(1) h by (simp add: frame_size_def)
    then have e: "regs s1 ?fp - of_nat ?total = regs s1 ?sp + of_nat (saved_size s)" by (simp add: P(2) [OF h])
    have "saved_size s + ?total \<le> 2 ^ 64" using room by (simp add: frame_size_def)
    then show ?thesis using w within_next [of "saved_size s" ?total "regs s1 ?sp" x] unfolding e by simp
  qed
  have saved1: "mem t x = mem s1 x" if x: "within (regs s1 ?sp) (saved_size s) x" for x
  proof (rule ccontr)
    assume "mem t x \<noteq> mem s1 x"
    from wr [OF this] show False using x obj [of _ x] by (auto simp: within_def frame_size_def)
  qed
  have saved2: "mem t x = mem s1 x" if h: "fs_hasFP s" and x: "within (regs s0 ?sp - 8) 8 x" for x
  proof (rule ccontr)
    assume ne: "mem t x \<noteq> mem s1 x"
    have "regs s0 ?sp - 8 = regs s1 ?sp + of_nat (saved_size s + ?total)" using P(1) h by (simp add: frame_size_def algebra_simps)
    then have "saved_size s + ?total \<le> unat (x - regs s1 ?sp)" "unat (x - regs s1 ?sp) < frame_size s"
      using x within_next [of "saved_size s + ?total" 8 "regs s1 ?sp" x] room h by (simp_all add: frame_size_def)
    then show False using wr [OF ne] obj [OF h, of _ x] by (auto simp: within_def)
  qed
  note E = x86_epilogue_restores [OF ok refl refl small room s1 b saved1 saved2 u]
  show ?thesis using E unfolding s(2) by blast
qed

section \<open>Calls\<close>

text \<open>The calling convention asks for a stack pointer that is a multiple of 16 before a call, and it
  is 8 above one on entry. It is kept exactly when the number of pushes is even with a frame
  pointer and odd without.\<close>

lemma pushes_parity: "(q + (8 * m + 16 * k)) mod 16 = 8 \<Longrightarrow> 16 dvd q \<longleftrightarrow> odd m" for q m k :: nat
proof -
  assume "(q + (8 * m + 16 * k)) mod 16 = 8"
  then have "(q + 8 * m) mod 16 = 8" by (simp add: add.assoc [symmetric])
  then show ?thesis by presburger
qed

theorem x86_prologue_alignment:
  assumes ok: "setup_ok s" and bound: "unat (fs_totalFrameSize s) < 2 ^ 31" and room: "frame_size s \<le> 2 ^ 64" and total: "16 dvd unat (fs_totalFrameSize s)"
    and entry: "unat (regs s0 (reg_id (fs_spRef s))) mod 16 = 8"
  shows "16 dvd unat (regs (exec_code (reg_id (fs_spRef s)) (x86_prologue s) s0) (reg_id (fs_spRef s))) \<longleftrightarrow>
    (fs_hasFP s \<longleftrightarrow> even (length (saved_refs s)))"
proof -
  note small = imm_field_small [of 31, OF _ bound, simplified]
  let ?sp = "regs s0 (reg_id (fs_spRef s))" and ?n = "length (saved_refs s)" and ?f = "frame_size s"
  have e: "regs (exec_code (reg_id (fs_spRef s)) (x86_prologue s) s0) (reg_id (fs_spRef s)) = ?sp - of_nat ?f"
    by (rule x86_prologue_state(1) [OF ok refl refl small room refl])
  let ?p = "?sp - of_nat ?f"
  obtain k where k: "unat (fs_totalFrameSize s) = 16 * k" using total by blast
  have f: "?f = 8 * (?n + (if fs_hasFP s then 1 else 0)) + 16 * k" by (simp add: frame_size_def saved_size_def k)
  have "unat (p + of_nat m) mod 16 = (unat p + m) mod 16" for p :: u64 and m
    by (simp add: unat_word_ariths unat_of_nat mod_add_right_eq mod_mod_cancel)
  from this [of ?p ?f] have "(unat ?p + ?f) mod 16 = 8" using entry by simp
  then have "(unat ?p + (8 * (?n + (if fs_hasFP s then 1 else 0)) + 16 * k)) mod 16 = 8" unfolding f [symmetric] .
  then have "16 dvd unat ?p \<longleftrightarrow> odd (?n + (if fs_hasFP s then 1 else 0))" by (rule pushes_parity)
  then show ?thesis unfolding e by auto
qed

section \<open>Witnesses and counterexamples\<close>

definition sample_setup :: frame_setup where
  "sample_setup = \<lparr>fs_hasFP = True, fs_fpRef = PReg None 5, fs_spRef = PReg None 4, fs_totalFrameSize = 16, fs_usedCallees = [PReg None 3]\<rparr>"

definition sample_machine :: "nat machine" where
  "sample_machine = \<lparr>regs = (\<lambda>n. if n = 4 then 1000 else if n = 3 then 77 else if n = 0 then 32 else 0), mem = (\<lambda>_. 0)\<rparr>"

definition dalloc_inst :: x86_inst where
  "dalloc_inst = \<lparr>xi_op = DALLOC, xi_operands = [FReg (PReg None 1), FReg (PReg None 0)], xi_pointee = None\<rparr>"

lemma imm_field_16: "imm_field 32 16 = 16"
  by (simp add: imm_field_def)

lemmas sample_code = sample_setup_def sample_machine_def dalloc_inst_def x86_prologue_def x86_epilogue_def saved_refs_def lowerDAlloc_def imm_field_16

text \<open>An object of one bit takes no bytes: it gets the offset of the object before it.\<close>

lemma one_bit_object_overlaps:
  "map fo_offset (fl_objects (calculateFrameLayout sysv_abi 0
     (createStackSpill (int_type 1) (createStackSpill (int_type 64) [])))) = [- 8, - 8]"
  by code_simp

text \<open>After a dynamic allocation the epilogue pops from the allocated space.\<close>

lemma dalloc_loses_saved_register:
  "regs (exec_code 4 (x86_epilogue sample_setup) (exec_code 4 (lowerDAlloc (PReg None 4) dalloc_inst)
     (exec_code 4 (x86_prologue sample_setup) sample_machine))) 3 = 0 \<and> regs sample_machine 3 = 77"
  by (simp add: sample_code pop_num_def push_num_def load64_store64_apart)

text \<open>A callee that uses the four words above its return address, as the Windows convention allows,
  overwrites the saved registers: they lie at the stack pointer.\<close>

lemma home_space_loses_saved_register:
  "let s1 = exec_code 4 (x86_prologue sample_setup) sample_machine
   in regs (exec_code 4 (x86_epilogue sample_setup) (s1\<lparr>mem := store64 (regs s1 4) 0 (mem s1)\<rparr>)) 3 = 0 \<and> regs sample_machine 3 = 77"
  by (simp add: sample_code pop_num_def push_num_def Let_def)

lemma sample_ok: "setup_ok sample_setup"
  by (simp add: setup_ok_def sample_setup_def)

theorem x86_frame_restores_witness:
  "\<exists>t u. mem t 976 = 9 \<and> u = exec_code 4 (x86_epilogue sample_setup) t \<and>
    regs u 4 = 1000 \<and> regs u 3 = 77 \<and> regs u 5 = 0 \<and> mem u 976 = 9"
proof -
  let ?objs = "createStackSpill (int_type 64) []" and ?s1 = "exec_code 4 (x86_prologue sample_setup) sample_machine"
  let ?L = "calculateFrameLayout sysv_abi 1 ?objs"
  let ?t = "?s1\<lparr>mem := (mem ?s1)(976 := 9)\<rparr>"
  have inp: "layout_input sysv_abi (length [PReg None 3]) ?objs" using sample_layout_input(1) by simp
  have L: "fl_objects ?L = [\<lparr>fo_offset = - 16, fo_type = int_type 64, fo_id = 0, fo_source = Spill\<rparr>]" "fl_totalFrameSize ?L = 16"
    by code_simp+
  have regs1: "regs ?s1 4 = 968" "regs ?s1 5 = 992" by (simp_all add: sample_code pop_num_def push_num_def)
  have "object_address 992 \<lparr>fo_offset = - 16, fo_type = int_type 64, fo_id = 0, fo_source = Spill\<rparr> 976"
    by (auto simp: object_address_def reserved_bytes_def int_type_def intro!: bexI [of _ "- 16"])
  then have body: "keeps_frame sample_setup (fl_objects ?L) sample_machine ?s1 ?t"
    unfolding keeps_frame_def L(1) using regs1 by (simp add: sample_setup_def)
  have "regs (exec_code 4 (x86_epilogue sample_setup) ?t) 4 = regs sample_machine 4 \<and>
    regs (exec_code 4 (x86_epilogue sample_setup) ?t) 5 = regs sample_machine 5 \<and>
    regs (exec_code 4 (x86_epilogue sample_setup) ?t) 3 = regs sample_machine 3 \<and>
    mem (exec_code 4 (x86_epilogue sample_setup) ?t) = mem ?t"
    using x86_frame_restores [OF inp refl _ _ sample_ok _ _ _ _ refl, of ?s1 sample_machine ?t] L(2) body
    by (simp add: sample_setup_def sysv_abi_def)
  then show ?thesis by (intro exI [of _ ?t] exI [of _ "exec_code 4 (x86_epilogue sample_setup) ?t"]) (simp add: sample_machine_def)
qed

theorem x86_prologue_alignment_witness:
  "\<not> 16 dvd unat (regs (exec_code 4 (x86_prologue sample_setup) sample_machine) 4)"
  using x86_prologue_alignment [OF sample_ok, of sample_machine]
  by (simp add: sample_setup_def sample_machine_def frame_size_def saved_size_def saved_refs_def)

end
