(* ===== verification/RiscV64Frame.thy ===== *)
theory RiscV64Frame
  imports StackMachine
begin

text \<open>
  The frame lowerer of RISC-V 64 (EzTargets/RiscV64/src/FrameLowerer/RiscV64FrameLowerer.cpp):
  prologue, epilogue, allocations, and what they do on the machine. Integer and floating-point
  registers are two files: a hardware register is a flag and a number.
\<close>

section \<open>Instructions\<close>

datatype rv_frame_opcode =
    RvADDI64ri | RvSD | RvLD | RvFSD | RvFLD | RvSUB64rr | RvALLOC | RvDALLOC | RvRET | RvOther nat bool

record rv_frame_inst =
  vi_op :: rv_frame_opcode
  vi_operands :: "frame_operand list"
  vi_pointee :: "frame_type option"

definition rv_build :: "rv_frame_opcode \<Rightarrow> frame_operand list \<Rightarrow> rv_frame_inst" where
  "rv_build op ops = \<lparr>vi_op = op, vi_operands = ops, vi_pointee = None\<rparr>"

section \<open>Prologue and epilogue\<close>

text \<open>\<open>isFprRef\<close> looks for \<open>FPR\<close> in the name of the register class; the classes are generated.\<close>

definition rv_addi :: "reg_ref \<Rightarrow> reg_ref \<Rightarrow> u64 \<Rightarrow> rv_frame_inst" where
  "rv_addi d r v = rv_build RvADDI64ri [FReg d, FReg r, FImm v]"

definition rv_ra :: "frame_setup \<Rightarrow> reg_ref" where
  "rv_ra s = PReg (reg_class (fs_spRef s)) 1"

definition rv_push :: "(reg_ref \<Rightarrow> bool) \<Rightarrow> reg_ref \<Rightarrow> reg_ref \<Rightarrow> rv_frame_inst list" where
  "rv_push isFprRef sp r = [rv_addi sp sp (- 16), rv_build (if isFprRef r then RvFSD else RvSD) [FReg r, FReg sp, FImm 0]]"

definition rv_pop :: "(reg_ref \<Rightarrow> bool) \<Rightarrow> reg_ref \<Rightarrow> reg_ref \<Rightarrow> rv_frame_inst list" where
  "rv_pop isFprRef sp r = [rv_build (if isFprRef r then RvFLD else RvLD) [FReg r, FReg sp, FImm 0], rv_addi sp sp 16]"

definition rv_frame_bytes :: "frame_setup \<Rightarrow> u64" where
  "rv_frame_bytes s = (fs_totalFrameSize s + 15) AND NOT 15"

definition rv_prologue :: "(reg_ref \<Rightarrow> bool) \<Rightarrow> frame_setup \<Rightarrow> rv_frame_inst list" where
  "rv_prologue isFprRef s =
     (let sp = fs_spRef s; fp = fs_fpRef s in
      (if fs_hasFP s then
         [rv_addi sp sp (- 16), rv_build RvSD [FReg (rv_ra s), FReg sp, FImm 8], rv_build RvSD [FReg fp, FReg sp, FImm 0], rv_addi fp sp 16]
       else []) @
      (if fs_totalFrameSize s > 0 then [rv_addi sp sp (- rv_frame_bytes s)] else []) @
      concat (map (rv_push isFprRef sp) (saved_refs s)))"

definition rv_insertPrologue :: "(reg_ref \<Rightarrow> bool) \<Rightarrow> frame_setup \<Rightarrow> rv_frame_inst list list \<Rightarrow> rv_frame_inst list list" where
  "rv_insertPrologue isFprRef s blocks = (case blocks of [] \<Rightarrow> [] | b # bs \<Rightarrow> (rv_prologue isFprRef s @ b) # bs)"

definition rv_epilogue :: "(reg_ref \<Rightarrow> bool) \<Rightarrow> frame_setup \<Rightarrow> rv_frame_inst list" where
  "rv_epilogue isFprRef s =
     (let sp = fs_spRef s; fp = fs_fpRef s in
      concat (map (rv_pop isFprRef sp) (rev (saved_refs s))) @
      (if fs_hasFP s then
         [rv_addi sp fp (- 16), rv_build RvLD [FReg fp, FReg sp, FImm 0], rv_build RvLD [FReg (rv_ra s), FReg sp, FImm 8], rv_addi sp sp 16]
       else if fs_totalFrameSize s > 0 then [rv_addi sp sp (rv_frame_bytes s)] else []))"

definition rv_is_return :: "rv_frame_inst \<Rightarrow> bool" where
  "rv_is_return i \<longleftrightarrow> (case vi_op i of RvRET \<Rightarrow> True | RvOther _ ret \<Rightarrow> ret | _ \<Rightarrow> False)"

definition rv_insertEpilogue :: "(reg_ref \<Rightarrow> bool) \<Rightarrow> frame_setup \<Rightarrow> rv_frame_inst list list \<Rightarrow> rv_frame_inst list list" where
  "rv_insertEpilogue isFprRef s blocks =
     map (\<lambda>b. concat (map (\<lambda>i. if rv_is_return i then rv_epilogue isFprRef s @ [i] else [i]) b)) blocks"

section \<open>Allocations\<close>

definition rv_lowerAlloc :: "frame_type \<Rightarrow> reg_ref \<Rightarrow> rv_frame_inst \<Rightarrow> frame_object list \<Rightarrow> rv_frame_inst \<times> frame_object list" where
  "rv_lowerAlloc i64 fp i frame =
     (case vi_operands i of
        FReg dst # _ \<Rightarrow>
          (i\<lparr>vi_op := RvADDI64ri, vi_operands := [FReg dst, FReg fp, FStack (length frame)]\<rparr>,
           createStaticStackObj (case vi_pointee i of Some t \<Rightarrow> t | None \<Rightarrow> i64) frame)
      | _ \<Rightarrow> (i, frame))"

definition rv_lowerDAlloc :: "reg_ref \<Rightarrow> rv_frame_inst \<Rightarrow> rv_frame_inst list" where
  "rv_lowerDAlloc sp i =
     (case vi_operands i of
        FReg dst # FReg src # _ \<Rightarrow>
          [rv_build RvSUB64rr [FReg sp, FReg sp, FReg src],
           i\<lparr>vi_op := RvADDI64ri, vi_operands := [FReg dst, FReg sp, FImm 0]\<rparr>]
      | _ \<Rightarrow> [i])"

section \<open>Execution\<close>

type_synonym rv_reg = "bool \<times> nat"

definition rv_set :: "rv_reg \<Rightarrow> u64 \<Rightarrow> rv_reg machine \<Rightarrow> rv_reg machine" where
  "rv_set n v s = s\<lparr>regs := (regs s)(n := v)\<rparr>"

definition rv_store :: "rv_reg \<Rightarrow> rv_reg \<Rightarrow> u64 \<Rightarrow> rv_reg machine \<Rightarrow> rv_reg machine" where
  "rv_store r b d s = s\<lparr>mem := store64 (regs s b + d) (regs s r) (mem s)\<rparr>"

definition rv_load :: "rv_reg \<Rightarrow> rv_reg \<Rightarrow> u64 \<Rightarrow> rv_reg machine \<Rightarrow> rv_reg machine" where
  "rv_load r b d s = rv_set r (load64 (mem s) (regs s b + d)) s"

text \<open>The immediates of I- and S-type instructions have 12 bits (\<open>bindField\<close> masks what it is given),
  and the processor extends their sign.\<close>

definition exec_rv :: "rv_frame_opcode \<Rightarrow> frame_operand list \<Rightarrow> rv_reg machine \<Rightarrow> rv_reg machine" where
  "exec_rv op ops s =
     (let num = operand_num ops; imm = imm_field 12 \<circ> operand_imm ops in
      case op of
        RvADDI64ri \<Rightarrow> rv_set (False, num 0) (regs s (False, num 1) + imm 2) s
      | RvSUB64rr \<Rightarrow> rv_set (False, num 0) (regs s (False, num 1) - regs s (False, num 2)) s
      | RvSD \<Rightarrow> rv_store (False, num 0) (False, num 1) (imm 2) s
      | RvFSD \<Rightarrow> rv_store (True, num 0) (False, num 1) (imm 2) s
      | RvLD \<Rightarrow> rv_load (False, num 0) (False, num 1) (imm 2) s
      | RvFLD \<Rightarrow> rv_load (True, num 0) (False, num 1) (imm 2) s
      | _ \<Rightarrow> s)"

definition rv_code :: "rv_frame_inst list \<Rightarrow> rv_reg machine \<Rightarrow> rv_reg machine" where
  "rv_code is = fold (\<lambda>i. exec_rv (vi_op i) (vi_operands i)) is"

lemma rv_code_simps [simp]:
  "rv_code [] s = s" "rv_code (i # is) s = rv_code is (exec_rv (vi_op i) (vi_operands i) s)"
  "rv_code (xs @ ys) s = rv_code ys (rv_code xs s)"
  by (simp_all add: rv_code_def)

lemma rv_build_simps [simp]: "vi_op (rv_build op ops) = op" "vi_operands (rv_build op ops) = ops"
  by (simp_all add: rv_build_def)

lemma imm12_simps [simp]: "imm_field 12 0 = 0" "imm_field 12 8 = 8" "imm_field 12 16 = 16" "imm_field 12 (- 16) = - 16"
  using imm_field_small [of 11 0] imm_field_small [of 11 8] imm_field_small [of 11 16] imm_field_minus [of 11 16] by simp_all

lemma exec_rv_simps [simp]:
  "exec_rv (vi_op (rv_addi d r v)) (vi_operands (rv_addi d r v)) s = rv_set (False, reg_id d) (regs s (False, reg_id r) + imm_field 12 v) s"
  "exec_rv RvSUB64rr [FReg d, FReg r, FReg q] s = rv_set (False, reg_id d) (regs s (False, reg_id r) - regs s (False, reg_id q)) s"
  "exec_rv RvADDI64ri [FReg d, FReg r, FImm v] s = rv_set (False, reg_id d) (regs s (False, reg_id r) + imm_field 12 v) s"
  "exec_rv RvSD [FReg r, FReg b, FImm v] s = rv_store (False, reg_id r) (False, reg_id b) (imm_field 12 v) s"
  "exec_rv RvFSD [FReg r, FReg b, FImm v] s = rv_store (True, reg_id r) (False, reg_id b) (imm_field 12 v) s"
  "exec_rv RvLD [FReg r, FReg b, FImm v] s = rv_load (False, reg_id r) (False, reg_id b) (imm_field 12 v) s"
  "exec_rv RvFLD [FReg r, FReg b, FImm v] s = rv_load (True, reg_id r) (False, reg_id b) (imm_field 12 v) s"
  by (simp_all add: exec_rv_def rv_addi_def Let_def numeral_2_eq_2)

lemma rv_state_simps [simp]:
  "regs (rv_set n v s) = (regs s)(n := v)" "mem (rv_set n v s) = mem s" "regs (rv_store r b d s) = regs s"
  "mem (rv_store r b d s) = store64 (regs s b + d) (regs s r) (mem s)"
  "regs (rv_load r b d s) = (regs s)(r := load64 (mem s) (regs s b + d))" "mem (rv_load r b d s) = mem s"
  by (simp_all add: rv_set_def rv_store_def rv_load_def)

definition rv_key :: "(reg_ref \<Rightarrow> bool) \<Rightarrow> reg_ref \<Rightarrow> rv_reg" where
  "rv_key isFprRef r = (isFprRef r, reg_id r)"

definition rv_save :: "rv_reg \<Rightarrow> rv_reg \<Rightarrow> rv_reg machine \<Rightarrow> rv_reg machine" where
  "rv_save sp r s = rv_store r sp 0 (rv_set sp (regs s sp + - 16) s)"

definition rv_restore :: "rv_reg \<Rightarrow> rv_reg \<Rightarrow> rv_reg machine \<Rightarrow> rv_reg machine" where
  "rv_restore sp r s = (let s1 = rv_load r sp 0 s in rv_set sp (regs s1 sp + 16) s1)"

interpretation rv_saves: callee_saves "rv_save sp" "rv_restore sp" sp 16 for sp
  by unfold_locales (auto simp: rv_save_def rv_restore_def Let_def fun_eq_iff)

lemma rv_pushes: "rv_code (concat (map (rv_push isFprRef sp) rs)) s = fold (rv_save (False, reg_id sp)) (map (rv_key isFprRef) rs) s"
  by (induction rs arbitrary: s) (simp_all add: rv_push_def rv_save_def rv_key_def)

lemma rv_pops: "rv_code (concat (map (rv_pop isFprRef sp) rs)) s = fold (rv_restore (False, reg_id sp)) (map (rv_key isFprRef) rs) s"
  by (induction rs arbitrary: s) (simp_all add: rv_pop_def rv_restore_def rv_key_def Let_def)

section \<open>The frame on the machine\<close>

definition rv_setup_ok :: "(reg_ref \<Rightarrow> bool) \<Rightarrow> frame_setup \<Rightarrow> bool" where
  "rv_setup_ok isFprRef s \<longleftrightarrow> distinct [reg_id (fs_spRef s), reg_id (fs_fpRef s), 1] \<and> \<not> isFprRef (fs_fpRef s) \<and>
     (\<forall>r \<in> set (fs_usedCallees s). rv_key isFprRef r \<noteq> (False, reg_id (fs_spRef s)))"

definition rv_saved_size :: "frame_setup \<Rightarrow> nat" where
  "rv_saved_size s = 16 * length (saved_refs s)"

definition rv_frame_size :: "frame_setup \<Rightarrow> nat" where
  "rv_frame_size s = rv_saved_size s + unat (rv_frame_bytes s) + (if fs_hasFP s then 16 else 0)"

definition rv_linked :: "frame_setup \<Rightarrow> rv_reg machine \<Rightarrow> rv_reg machine" where
  "rv_linked s m =
     (let sp = (False, reg_id (fs_spRef s)); fp = (False, reg_id (fs_fpRef s)); top = regs m sp - 16 in
      if fs_hasFP s then
        rv_set fp (regs m sp) (rv_set sp top (m\<lparr>mem := store64 top (regs m fp) (store64 (top + 8) (regs m (False, 1)) (mem m))\<rparr>))
      else m)"

definition rv_alloc :: "frame_setup \<Rightarrow> rv_reg machine \<Rightarrow> rv_reg machine" where
  "rv_alloc s m = rv_set (False, reg_id (fs_spRef s)) (regs m (False, reg_id (fs_spRef s)) - rv_frame_bytes s) m"

lemma rv_frame_bytes_0: "rv_frame_bytes s = 0" if "fs_totalFrameSize s = 0"
  by (simp add: rv_frame_bytes_def that)

lemma rv_prologue_exec:
  assumes ok: "rv_setup_ok isFprRef s" and small: "imm_field 12 (- rv_frame_bytes s) = - rv_frame_bytes s"
  shows "rv_code (rv_prologue isFprRef s) m =
    fold (rv_save (False, reg_id (fs_spRef s))) (map (rv_key isFprRef) (saved_refs s)) (rv_alloc s (rv_linked s m))"
proof -
  let ?sp = "fs_spRef s" and ?fp = "fs_fpRef s"
  have d: "reg_id ?sp \<noteq> reg_id ?fp" "reg_id ?sp \<noteq> 1" "reg_id ?fp \<noteq> 1" using ok by (auto simp: rv_setup_ok_def)
  have link: "rv_code (if fs_hasFP s then [rv_addi ?sp ?sp (- 16), rv_build RvSD [FReg (rv_ra s), FReg ?sp, FImm 8],
      rv_build RvSD [FReg ?fp, FReg ?sp, FImm 0], rv_addi ?fp ?sp 16] else []) m = rv_linked s m"
    using d by (auto simp: rv_linked_def rv_ra_def rv_set_def rv_store_def Let_def)
  have alloc: "rv_code (if fs_totalFrameSize s > 0 then [rv_addi ?sp ?sp (- rv_frame_bytes s)] else []) e = rv_alloc s e" for e
  proof (cases "fs_totalFrameSize s = 0")
    case True
    then show ?thesis by (simp add: rv_alloc_def rv_frame_bytes_0 rv_set_def)
  next
    case False
    then show ?thesis by (simp add: rv_alloc_def word_gt_0 small)
  qed
  show ?thesis by (simp only: rv_prologue_def Let_def rv_code_simps link alloc rv_pushes)
qed

lemma rv_epilogue_exec:
  assumes small: "imm_field 12 (rv_frame_bytes s) = rv_frame_bytes s"
  shows "rv_code (rv_epilogue isFprRef s) m =
     (let sp = (False, reg_id (fs_spRef s)); fp = (False, reg_id (fs_fpRef s));
          u = fold (rv_restore sp) (rev (map (rv_key isFprRef) (saved_refs s))) m in
      if fs_hasFP s then
        (let u1 = rv_load (False, 1) sp 8 (rv_load fp sp 0 (rv_set sp (regs u fp - 16) u)) in rv_set sp (regs u1 sp + 16) u1)
      else rv_set sp (regs u sp + rv_frame_bytes s) u)"
proof (cases "fs_hasFP s")
  case True
  then show ?thesis by (simp add: rv_epilogue_def rv_pops rev_map rv_ra_def Let_def)
next
  case no: False
  show ?thesis
  proof (cases "fs_totalFrameSize s = 0")
    case True
    then show ?thesis using no by (simp add: rv_epilogue_def rv_pops rev_map rv_frame_bytes_0 rv_set_def Let_def)
  next
    case False
    then show ?thesis using no by (simp add: rv_epilogue_def rv_pops rev_map word_gt_0 small Let_def)
  qed
qed

lemma rv_saved_keys:
  assumes "rv_setup_ok isFprRef s"
  shows "(False, reg_id (fs_spRef s)) \<notin> set (map (rv_key isFprRef) (saved_refs s))"
    "r \<in> set (fs_usedCallees s) \<Longrightarrow> r \<in> set (saved_refs s) \<or> fs_hasFP s \<and> r = fs_fpRef s"
  using assms by (auto simp: rv_setup_ok_def saved_refs_def)

lemma rv_prologue_state:
  assumes ok: "rv_setup_ok isFprRef s" and sp: "sp = (False, reg_id (fs_spRef s))" and fp: "fp = (False, reg_id (fs_fpRef s))"
    and small: "imm_field 12 (- rv_frame_bytes s) = - rv_frame_bytes s"
    and room: "rv_frame_size s \<le> 2 ^ 64" and s1: "s1 = rv_code (rv_prologue isFprRef s) s0"
  shows "regs s1 sp = regs s0 sp - of_nat (rv_frame_size s)" "fs_hasFP s \<Longrightarrow> regs s1 fp = regs s0 sp"
    "\<not> within (regs s1 sp) (rv_frame_size s) x \<Longrightarrow> mem s1 x = mem s0 x"
    "fs_hasFP s \<Longrightarrow> load64 (mem s1) (regs s0 sp - 16) = regs s0 fp"
    "fs_hasFP s \<Longrightarrow> load64 (mem s1) (regs s0 sp - 16 + 8) = regs s0 (False, 1)"
    "\<exists>a. s1 = fold (rv_save sp) (map (rv_key isFprRef) (saved_refs s)) a \<and> regs a sp = regs s1 sp + of_nat (rv_saved_size s) \<and>
       (\<forall>n. n \<noteq> sp \<longrightarrow> \<not> (fs_hasFP s \<and> n = fp) \<longrightarrow> regs a n = regs s0 n) \<and> (fs_hasFP s \<longrightarrow> regs a fp = regs s0 sp)"
proof -
  have d: "sp \<noteq> fp" "sp \<noteq> (False, 1)" "fp \<noteq> (False, 1)" using ok by (auto simp: rv_setup_ok_def sp fp)
  note S = rv_saved_keys [OF ok, folded sp]
  let ?rs = "map (rv_key isFprRef) (saved_refs s)" and ?total = "rv_frame_bytes s"
  let ?l = "rv_linked s s0" and ?a = "rv_alloc s (rv_linked s s0)"
  have e: "s1 = fold (rv_save sp) ?rs ?a" unfolding s1 sp by (rule rv_prologue_exec [OF ok small])
  have len: "16 * length ?rs = rv_saved_size s" by (simp add: rv_saved_size_def)
  have roomS: "16 * length ?rs \<le> 2 ^ 64" unfolding len using room by (simp add: rv_frame_size_def)
  have l: "regs ?l sp = regs s0 sp - (if fs_hasFP s then 16 else 0)" "fs_hasFP s \<Longrightarrow> regs ?l fp = regs s0 sp"
    "n \<noteq> sp \<Longrightarrow> \<not> (fs_hasFP s \<and> n = fp) \<Longrightarrow> regs ?l n = regs s0 n"
    "mem ?l = (if fs_hasFP s then store64 (regs s0 sp - 16) (regs s0 fp) (store64 (regs s0 sp - 16 + 8) (regs s0 (False, 1)) (mem s0)) else mem s0)" for n
    using d(1) by (auto simp: rv_linked_def sp fp Let_def)
  have a: "regs ?a sp = regs ?l sp - ?total" "mem ?a = mem ?l" "n \<noteq> sp \<Longrightarrow> regs ?a n = regs ?l n" for n
    by (simp_all add: rv_alloc_def sp)
  have r1: "regs s1 = (regs ?a)(sp := regs ?a sp - of_nat (rv_saved_size s))"
    unfolding e rv_saves.saves_regs [OF S(1)] len ..
  show sp1: "regs s1 sp = regs s0 sp - of_nat (rv_frame_size s)" by (simp add: r1 a(1) l(1) rv_frame_size_def algebra_simps)
  show fp1: "regs s1 fp = regs s0 sp" if "fs_hasFP s" using that d a(3) [of fp] l(2) by (simp add: r1)
  have m1: "mem s1 x = mem ?a x" if "\<not> within (regs s1 sp) (rv_saved_size s) x" for x
    unfolding e by (rule rv_saves.saves_mem [OF S(1) roomS]) (use that r1 in \<open>simp add: rv_saved_size_def\<close>)
  have link: "regs s0 sp - 16 = regs s1 sp + of_nat (rv_saved_size s + unat ?total)" if "fs_hasFP s"
    using that by (simp add: sp1 rv_frame_size_def algebra_simps)
  have link_at: "within (regs s0 sp - 16) 16 x \<longleftrightarrow> rv_saved_size s + unat ?total \<le> unat (x - regs s1 sp) \<and> unat (x - regs s1 sp) < rv_frame_size s"
    if h: "fs_hasFP s" for x
    using h room within_next [of "rv_saved_size s + unat ?total" 16 "regs s1 sp" x] unfolding link [OF h] by (auto simp: rv_frame_size_def)
  have lower: "within (regs s0 sp - 16) 16 x" if "within (regs s0 sp - 16) 8 x \<or> within (regs s0 sp - 16 + 8) 8 x" for x
    using that within_next [of 8 8 "regs s0 sp - 16" x] by (auto simp: within_def)
  show "mem s1 x = mem s0 x" if x: "\<not> within (regs s1 sp) (rv_frame_size s) x"
  proof -
    have "\<not> within (regs s1 sp) (rv_saved_size s) x" using x by (auto simp: within_def rv_frame_size_def)
    moreover have "\<not> within (regs s0 sp - 16) 8 x \<and> \<not> within (regs s0 sp - 16 + 8) 8 x" if h: "fs_hasFP s"
      using x lower link_at [OF h, of x] by (auto simp: within_def)
    ultimately show ?thesis using m1 by (simp add: a(2) l(4) store64_other)
  qed
  have at: "load64 (mem s1) b = load64 (mem ?l) b" if h: "fs_hasFP s" and b: "b = regs s0 sp - 16 \<or> b = regs s0 sp - 16 + 8" for b
    unfolding a(2) [symmetric]
  proof (rule load64_cong, rule m1)
    fix x assume "within b 8 x"
    then have "within (regs s0 sp - 16) 16 x" using b lower by blast
    then show "\<not> within (regs s1 sp) (rv_saved_size s) x" using link_at [OF h, of x] by (auto simp: within_def)
  qed
  show "load64 (mem s1) (regs s0 sp - 16) = regs s0 fp" if h: "fs_hasFP s"
    unfolding at [OF h disjI1 [OF refl]] using h by (simp add: l(4))
  show "load64 (mem s1) (regs s0 sp - 16 + 8) = regs s0 (False, 1)" if h: "fs_hasFP s"
  proof -
    have "unat ((regs s0 sp - 16 + 8) - (regs s0 sp - 16)) = 8" by simp
    then have "load64 (mem ?l) (regs s0 sp - 16 + 8) = regs s0 (False, 1)"
      using h load64_store64_apart [of "regs s0 sp - 16 + 8" "regs s0 sp - 16"] by (simp only: l(4)) simp
    then show ?thesis unfolding at [OF h disjI2 [OF refl]] .
  qed
  show "\<exists>a. s1 = fold (rv_save sp) ?rs a \<and> regs a sp = regs s1 sp + of_nat (rv_saved_size s) \<and>
       (\<forall>n. n \<noteq> sp \<longrightarrow> \<not> (fs_hasFP s \<and> n = fp) \<longrightarrow> regs a n = regs s0 n) \<and> (fs_hasFP s \<longrightarrow> regs a fp = regs s0 sp)"
    using e r1 a(3) l(2,3) d by (intro exI [of _ ?a]) simp
qed

lemma rv_epilogue_restores:
  assumes ok: "rv_setup_ok isFprRef s" and sp: "sp = (False, reg_id (fs_spRef s))" and fp: "fp = (False, reg_id (fs_fpRef s))"
    and small: "imm_field 12 (- rv_frame_bytes s) = - rv_frame_bytes s" "imm_field 12 (rv_frame_bytes s) = rv_frame_bytes s"
    and room: "rv_frame_size s \<le> 2 ^ 64" and s1: "s1 = rv_code (rv_prologue isFprRef s) s0"
    and body: "regs t sp = regs s1 sp" "fs_hasFP s \<longrightarrow> regs t fp = regs s1 fp"
    and saved: "\<And>x. within (regs s1 sp) (rv_saved_size s) x \<Longrightarrow> mem t x = mem s1 x"
      "\<And>x. fs_hasFP s \<Longrightarrow> within (regs s0 sp - 16) 16 x \<Longrightarrow> mem t x = mem s1 x"
    and u: "u = rv_code (rv_epilogue isFprRef s) t"
  shows "regs u sp = regs s0 sp" "fs_hasFP s \<Longrightarrow> regs u fp = regs s0 fp \<and> regs u (False, 1) = regs s0 (False, 1)"
    "r \<in> set (fs_usedCallees s) \<Longrightarrow> regs u (rv_key isFprRef r) = regs s0 (rv_key isFprRef r)" "mem u = mem t"
    "n \<notin> insert sp ((if fs_hasFP s then {fp, (False, 1)} else {}) \<union> rv_key isFprRef ` set (fs_usedCallees s)) \<Longrightarrow> regs u n = regs t n"
proof -
  let ?rs = "map (rv_key isFprRef) (saved_refs s)"
  have d: "sp \<noteq> fp" "sp \<noteq> (False, 1)" "fp \<noteq> (False, 1)" using ok by (auto simp: rv_setup_ok_def sp fp)
  note S = rv_saved_keys [OF ok, folded sp] and P = rv_prologue_state [OF ok sp fp small(1) room s1]
  obtain a where a: "s1 = fold (rv_save sp) ?rs a" "regs a sp = regs s1 sp + of_nat (rv_saved_size s)"
    "\<And>n. n \<noteq> sp \<Longrightarrow> \<not> (fs_hasFP s \<and> n = fp) \<Longrightarrow> regs a n = regs s0 n" "fs_hasFP s \<Longrightarrow> regs a fp = regs s0 sp"
    using P(6) by blast
  have roomS: "16 * length ?rs \<le> 2 ^ 64" using room by (simp add: rv_frame_size_def rv_saved_size_def)
  let ?p = "fold (rv_restore sp) (rev ?rs) t"
  have pops: "mem ?p = mem t" "regs ?p = (\<lambda>r. if r = sp then regs a sp else if r \<in> set ?rs then regs a r else regs t r)"
    using rv_saves.restores_saves [OF S(1) roomS a(1) body(1)] saved(1) by (simp_all add: rv_saved_size_def)
  have sub: "set ?rs \<subseteq> rv_key isFprRef ` set (fs_usedCallees s)" by (auto simp: saved_refs_def)
  have uu: "u = (if fs_hasFP s then
        (let u1 = rv_load (False, 1) sp 8 (rv_load fp sp 0 (rv_set sp (regs ?p fp - 16) ?p)) in rv_set sp (regs u1 sp + 16) u1)
      else rv_set sp (regs ?p sp + rv_frame_bytes s) ?p)"
    unfolding u rv_epilogue_exec [OF small(2)] by (simp only: Let_def sp fp)
  have fpP: "regs ?p fp = regs s0 sp" if "fs_hasFP s" using that pops(2) a(4) d(1) body(2) P(2) by auto
  have within8: "within (regs s0 sp - 16) 16 x" if "within (regs s0 sp - 16) 8 x \<or> within (regs s0 sp - 16 + 8) 8 x" for x
    using that within_next [of 8 8 "regs s0 sp - 16" x] by (auto simp: within_def)
  have old: "load64 (mem t) (regs s0 sp - 16) = regs s0 fp" "load64 (mem t) (regs s0 sp - 16 + 8) = regs s0 (False, 1)" if h: "fs_hasFP s"
  proof -
    have "load64 (mem t) b = load64 (mem s1) b" if "b = regs s0 sp - 16 \<or> b = regs s0 sp - 16 + 8" for b
      by (rule load64_cong, rule saved(2) [OF h]) (use that within8 in blast)
    then show "load64 (mem t) (regs s0 sp - 16) = regs s0 fp" "load64 (mem t) (regs s0 sp - 16 + 8) = regs s0 (False, 1)"
      using P(4,5) [OF h] by simp_all
  qed
  have regsU: "regs u = ((regs ?p)(fp := regs s0 fp, (False, 1) := regs s0 (False, 1)))(sp := regs s0 sp)" if h: "fs_hasFP s"
    unfolding uu Let_def using h d old [OF h] by (simp add: pops(1) fpP fun_eq_iff)
  have regsN: "regs u = (regs ?p)(sp := regs s0 sp)" if h: "\<not> fs_hasFP s"
    unfolding uu using h P(1) by (simp add: pops(2) a(2) rv_frame_size_def)
  show "regs u sp = regs s0 sp" using regsU regsN by (cases "fs_hasFP s") simp_all
  show "regs u fp = regs s0 fp \<and> regs u (False, 1) = regs s0 (False, 1)" if "fs_hasFP s" using regsU [OF that] d by simp
  show "mem u = mem t" by (simp add: uu pops(1) Let_def)
  show "regs u n = regs t n" if "n \<notin> insert sp ((if fs_hasFP s then {fp, (False, 1)} else {}) \<union> rv_key isFprRef ` set (fs_usedCallees s))"
    using that sub regsU regsN by (cases "fs_hasFP s") (auto simp: pops(2))
  show "regs u (rv_key isFprRef r) = regs s0 (rv_key isFprRef r)" if r: "r \<in> set (fs_usedCallees s)"
  proof -
    have ns: "rv_key isFprRef r \<noteq> sp" using ok r by (auto simp: rv_setup_ok_def sp)
    have "regs ?p (rv_key isFprRef r) = regs s0 (rv_key isFprRef r)" if "\<not> (fs_hasFP s \<and> rv_key isFprRef r = fp)"
    proof (cases "r \<in> set (saved_refs s)")
      case True
      then show ?thesis using pops(2) ns a(3) that by simp
    next
      case False
      then have h: "fs_hasFP s" "r = fs_fpRef s" using S(2) [OF r] by blast+
      then show ?thesis using that ok by (simp add: rv_setup_ok_def rv_key_def fp)
    qed
    then show ?thesis using regsU regsN ns by (cases "fs_hasFP s") auto
  qed
qed

section \<open>Stack objects on the machine\<close>

definition rv_keeps_frame :: "frame_setup \<Rightarrow> frame_object list \<Rightarrow> rv_reg machine \<Rightarrow> rv_reg machine \<Rightarrow> bool" where
  "rv_keeps_frame s objs s1 t \<longleftrightarrow>
     regs t (False, reg_id (fs_spRef s)) = regs s1 (False, reg_id (fs_spRef s)) \<and>
     (fs_hasFP s \<longrightarrow> regs t (False, reg_id (fs_fpRef s)) = regs s1 (False, reg_id (fs_fpRef s))) \<and>
     (\<forall>x. mem t x \<noteq> mem s1 x \<longrightarrow>
        fs_hasFP s \<and> (\<exists>obj \<in> set objs. fo_source obj \<noteq> Parameter \<and> object_address (regs s1 (False, reg_id (fs_fpRef s))) obj x) \<or>
        \<not> within (regs s1 (False, reg_id (fs_spRef s))) (rv_frame_size s) x)"

lemma rv_frame_bytes_eq: "16 dvd unat (fs_totalFrameSize s) \<Longrightarrow> unat (fs_totalFrameSize s) + 16 < 2 ^ 63 \<Longrightarrow> rv_frame_bytes s = fs_totalFrameSize s"
proof -
  assume d: "16 dvd unat (fs_totalFrameSize s)" and b: "unat (fs_totalFrameSize s) + 16 < 2 ^ 63"
  have e: "rv_frame_bytes s = align_up (fs_totalFrameSize s) 16" by (simp add: rv_frame_bytes_def align_up_def add.commute)
  have r: "unat (fs_totalFrameSize s) \<le> unat (rv_frame_bytes s)" "unat (rv_frame_bytes s) < unat (fs_totalFrameSize s) + 16"
    using align_up_range [of 16 "fs_totalFrameSize s"] b unfolding e by simp_all
  have "16 dvd unat (rv_frame_bytes s)" unfolding e using align_up_multiple [of 16 4 "fs_totalFrameSize s"] by simp
  then have "unat (rv_frame_bytes s) = unat (fs_totalFrameSize s)" using d r by presburger
  then show ?thesis by (simp only: word_unat_eq_iff)
qed


section \<open>Witness and counterexample\<close>

definition rv_sample :: "reg_ref list \<Rightarrow> u64 \<Rightarrow> frame_setup" where
  "rv_sample callees n = \<lparr>fs_hasFP = True, fs_fpRef = PReg None 8, fs_spRef = PReg None 2, fs_totalFrameSize = n, fs_usedCallees = callees\<rparr>"

definition rv_start :: "rv_reg machine" where
  "rv_start = \<lparr>regs = (\<lambda>r. if r = (False, 2) then 1000 else if r = (False, 1) then 55 else if r = (False, 9) then 77 else 0), mem = (\<lambda>_. 0)\<rparr>"

lemmas rv_sample_code = rv_sample_def rv_start_def rv_prologue_def rv_epilogue_def saved_refs_def rv_push_def rv_pop_def
  rv_key_def rv_ra_def rv_frame_bytes_def Let_def

text \<open>A frame of 4096 bytes is beyond the immediate: the field holds zero, and the prologue moves the
  stack pointer by nothing but the 16 bytes of the link. One of 2064 bytes moves it up.\<close>

lemma rv_large_frame_not_reserved:
  "regs (rv_code (rv_prologue (\<lambda>_. False) (rv_sample [] 4096)) rv_start) (False, 2) = regs rv_start (False, 2) - 16"
  "regs (rv_code (rv_prologue (\<lambda>_. False) (rv_sample [] 2064)) rv_start) (False, 2) = regs rv_start (False, 2) - 16 + 2032"
proof -
  have "imm_field 12 (- 4096) = 0" "imm_field 12 (- 2064) = 2032" by code_simp+
  then show "regs (rv_code (rv_prologue (\<lambda>_. False) (rv_sample [] 4096)) rv_start) (False, 2) = regs rv_start (False, 2) - 16"
    "regs (rv_code (rv_prologue (\<lambda>_. False) (rv_sample [] 2064)) rv_start) (False, 2) = regs rv_start (False, 2) - 16 + 2032"
    by (simp_all add: rv_sample_code)
qed

text \<open>Without saved registers the first local lies on the saved return address: a store to it is what
  the function returns to.\<close>

lemma rv_local_overwrites_return_address:
  "map fo_offset (fl_objects (calculateFrameLayout sysv_abi 0 (createStackSpill (int_type 64) []))) = [- 8] \<and>
   fl_totalFrameSize (calculateFrameLayout sysv_abi 0 (createStackSpill (int_type 64) [])) = 16 \<and>
   (let s = rv_sample [] 16; s1 = rv_code (rv_prologue (\<lambda>_. False) s) rv_start;
        t = s1\<lparr>mem := store64 (regs s1 (False, 8) + - 8) 9 (mem s1)\<rparr>
    in regs (rv_code (rv_epilogue (\<lambda>_. False) s) t) (False, 1) = 9 \<and> regs rv_start (False, 1) = 55)"
proof -
  have "map fo_offset (fl_objects (calculateFrameLayout sysv_abi 0 (createStackSpill (int_type 64) []))) = [- 8]"
    "fl_totalFrameSize (calculateFrameLayout sysv_abi 0 (createStackSpill (int_type 64) [])) = 16" by code_simp+
  moreover have "let s = rv_sample [] 16; s1 = rv_code (rv_prologue (\<lambda>_. False) s) rv_start;
        t = s1\<lparr>mem := store64 (regs s1 (False, 8) + - 8) 9 (mem s1)\<rparr>
    in regs (rv_code (rv_epilogue (\<lambda>_. False) s) t) (False, 1) = 9 \<and> regs rv_start (False, 1) = 55"
    by (simp add: rv_sample_code)
  ultimately show ?thesis by blast
qed


end
