(* ===== verification/ObjectFormat.thy ===== *)
theory ObjectFormat
  imports EmitterTypes
begin

text \<open>
  What the two object writers share (EzCodeEmitter/include/ObjectFormat/ObjectSymbol.h,
  IObjectWriter.h and the helper functions both writers define): symbol and relocation
  descriptors, alignment of file offsets, strings and fixed-size tables in a byte buffer, blocks
  placed in a file, and the locale \<open>object_writer\<close> for the interface the emission engine feeds.
  A name is a string; its bytes are those of its characters.
\<close>

section \<open>Descriptors\<close>

record object_symbol =
  os_name :: string
  os_section :: section_type
  os_offset :: u64
  os_size :: u64
  os_isGlobal :: bool
  os_isWeak :: bool
  os_isFunction :: bool

record object_reloc =
  or_section :: section_type
  or_offset :: u64
  or_symbolName :: string
  or_type :: reloc_type
  or_addend :: u64

text \<open>The two exceptions the writers throw.\<close>

datatype object_error = SymbolInMissingSection string | RelocInMissingSection

type_synonym section_map = "section_type \<rightharpoonup> code_section"

definition getData :: "code_section \<Rightarrow> u8 list" where
  "getData s = cs_buffer s"

definition getAlignment :: "code_section \<Rightarrow> nat" where
  "getAlignment s = cs_alignment s"

section \<open>Aligning an offset\<close>

definition obj_alignTo :: "u64 \<Rightarrow> u64 \<Rightarrow> u64" where
  "obj_alignTo offset alignment =
     (if alignment \<le> 1 then offset else (offset + alignment - 1) AND NOT (alignment - 1))"

text \<open>Aligning moves forward by less than the alignment, whatever the alignment; for a power of
  two the result is a multiple of it.\<close>

lemma obj_alignTo_up: "obj_alignTo offset alignment = (if alignment \<le> 1 then offset else align_up offset alignment)"
  by (simp add: obj_alignTo_def align_up_def)

lemma obj_alignTo_range:
  assumes "unat offset + unat alignment < 2 ^ 64"
  shows "unat offset \<le> unat (obj_alignTo offset alignment)" "unat (obj_alignTo offset alignment) \<le> unat offset + unat alignment"
proof -
  have "unat offset \<le> unat (obj_alignTo offset alignment) \<and> unat (obj_alignTo offset alignment) \<le> unat offset + unat alignment"
  proof (cases "alignment \<le> 1")
    case False
    then have "0 < alignment" by unat_arith
    then show ?thesis using align_up_range [of alignment offset] assms False by (simp add: obj_alignTo_up)
  qed (simp add: obj_alignTo_up)
  then show "unat offset \<le> unat (obj_alignTo offset alignment)" "unat (obj_alignTo offset alignment) \<le> unat offset + unat alignment"
    by simp_all
qed

lemma obj_alignTo_multiple:
  assumes "alignment = 2 ^ k" "k < 64"
  shows "2 ^ k dvd unat (obj_alignTo offset alignment)"
proof (cases "alignment \<le> 1")
  case True
  have "bit alignment k" using assms by (simp add: bit_exp_iff possible_bit_def)
  moreover have "alignment = 0 \<or> alignment = 1" using True by unat_arith
  ultimately have "k = 0" by (auto simp: bit_1_iff)
  then show ?thesis by simp
qed (use align_up_multiple [OF assms] in \<open>simp add: obj_alignTo_up\<close>)

section \<open>Strings in a table\<close>

definition str_bytes :: "string \<Rightarrow> u8 list" where
  "str_bytes s = map of_char s"

lemma length_str_bytes [simp]: "length (str_bytes s) = length s"
  by (simp add: str_bytes_def)

text \<open>The zero-terminated string at an offset, and the relation that it was put there.\<close>

definition read_cstring :: "u8 list \<Rightarrow> nat \<Rightarrow> u8 list" where
  "read_cstring tab off = takeWhile (\<lambda>b. b \<noteq> 0) (drop off tab)"

definition cstring_at :: "u8 list \<Rightarrow> nat \<Rightarrow> string \<Rightarrow> bool" where
  "cstring_at tab off s \<longleftrightarrow> (\<exists>pre post. tab = pre @ str_bytes s @ 0 # post \<and> length pre = off)"

definition nul_free :: "string \<Rightarrow> bool" where
  "nul_free s \<longleftrightarrow> 0 \<notin> set (str_bytes s)"

lemma cstring_at_append: "cstring_at tab off s \<Longrightarrow> cstring_at (tab @ rest) off s"
  unfolding cstring_at_def by (metis append.assoc append_Cons)

lemma cstring_at_read: "cstring_at tab off s \<Longrightarrow> nul_free s \<Longrightarrow> read_cstring tab off = str_bytes s"
  by (auto simp: cstring_at_def read_cstring_def nul_free_def takeWhile_append)

section \<open>Tables of fixed-size entries\<close>

lemma table_length: "(\<And>x. x \<in> set xs \<Longrightarrow> length (f x) = n) \<Longrightarrow> length (concat (map f xs)) = length xs * n"
  by (induction xs) auto

lemma table_entry:
  assumes "\<And>x. x \<in> set xs \<Longrightarrow> length (f x) = n" "i < length xs"
  shows "read_at (i * n) n (concat (map f xs)) = f (xs ! i)"
  using assms
proof (induction xs arbitrary: i)
  case Nil
  then show ?case by simp
next
  case (Cons x xs)
  show ?case
  proof (cases i)
    case 0
    then show ?thesis using Cons.prems(1) [of x] by (simp add: read_at_def)
  next
    case (Suc j)
    have "read_at (j * n) n (concat (map f xs)) = f (xs ! j)"
      by (rule Cons.IH) (use Cons.prems Suc in auto)
    then show ?thesis using Cons.prems(1) [of x] Suc by (simp add: read_at_def)
  qed
qed

lemma read_at_inner:
  "read_at off n buf = bs \<Longrightarrow> off + n \<le> length buf \<Longrightarrow> i + k \<le> n \<Longrightarrow> read_at (off + i) k buf = read_at i k bs"
  by (auto simp: read_at_def drop_take min_def add.commute)

text \<open>Little-endian fields of a file, for the readers.\<close>

definition file_u16 :: "u8 list \<Rightarrow> nat \<Rightarrow> u16" where "file_u16 f off = le_word (read_at off 2 f)"
definition file_u32 :: "u8 list \<Rightarrow> nat \<Rightarrow> u32" where "file_u32 f off = le_word (read_at off 4 f)"
definition file_u64 :: "u8 list \<Rightarrow> nat \<Rightarrow> u64" where "file_u64 f off = le_word (read_at off 8 f)"

section \<open>Placing blocks in a file\<close>

text \<open>The successive copies of byte ranges into the file buffer.\<close>

definition write_blocks :: "(nat \<times> 'b list) list \<Rightarrow> 'b list \<Rightarrow> 'b list" where
  "write_blocks blocks buf = fold (\<lambda>(off, bs) buf. write_at off bs buf) blocks buf"

definition blocks_fit :: "nat \<Rightarrow> (nat \<times> 'b list) list \<Rightarrow> bool" where
  "blocks_fit n blocks \<longleftrightarrow> (\<forall>(off, bs) \<in> set blocks. off + length bs \<le> n)"

definition blocks_disjoint :: "(nat \<times> 'b list) list \<Rightarrow> bool" where
  "blocks_disjoint blocks \<longleftrightarrow>
     sorted_wrt (\<lambda>(o1, b1) (o2, b2). o1 + length b1 \<le> o2 \<or> o2 + length b2 \<le> o1) blocks"

lemma write_blocks_simps [simp]:
  "write_blocks [] buf = buf" "write_blocks ((off, bs) # blocks) buf = write_blocks blocks (write_at off bs buf)"
  "write_blocks (xs @ ys) buf = write_blocks ys (write_blocks xs buf)"
  by (simp_all add: write_blocks_def)

lemma length_write_blocks [simp]: "blocks_fit (length buf) blocks \<Longrightarrow> length (write_blocks blocks buf) = length buf"
proof (induction blocks arbitrary: buf)
  case Nil
  then show ?case by simp
next
  case (Cons b blocks)
  obtain off bs where b: "b = (off, bs)" by (metis prod.exhaust)
  have "length (write_at off bs buf) = length buf" using Cons.prems by (simp add: b blocks_fit_def)
  then show ?case using Cons.IH [of "write_at off bs buf"] Cons.prems by (simp add: b blocks_fit_def)
qed

text \<open>A range that no block touches keeps its content.\<close>

lemma write_blocks_other:
  assumes "blocks_fit (length buf) blocks" "off + n \<le> length buf"
    "\<And>o' bs. (o', bs) \<in> set blocks \<Longrightarrow> off + n \<le> o' \<or> o' + length bs \<le> off"
  shows "read_at off n (write_blocks blocks buf) = read_at off n buf"
  using assms
proof (induction blocks arbitrary: buf)
  case Nil
  then show ?case by simp
next
  case (Cons b blocks)
  obtain o1 bs where b: "b = (o1, bs)" by (metis prod.exhaust)
  have l: "o1 + length bs \<le> length buf" "length (write_at o1 bs buf) = length buf"
    using Cons.prems by (simp_all add: b blocks_fit_def)
  have "read_at off n (write_blocks blocks (write_at o1 bs buf)) = read_at off n (write_at o1 bs buf)"
    by (rule Cons.IH) (use Cons.prems l in \<open>auto simp: b blocks_fit_def\<close>)
  also have "\<dots> = read_at off n buf"
    by (rule read_at_write_at_disjoint) (use Cons.prems l b in auto)
  finally show ?case by (simp add: b)
qed

text \<open>Disjoint blocks that fit can all be read back.\<close>

lemma write_blocks_read:
  assumes "blocks_fit (length buf) blocks" "blocks_disjoint blocks" "(off, bs) \<in> set blocks"
  shows "read_at off (length bs) (write_blocks blocks buf) = bs"
  using assms
proof (induction blocks arbitrary: buf)
  case Nil
  then show ?case by simp
next
  case (Cons b blocks)
  obtain o1 b1 where b: "b = (o1, b1)" by (metis prod.exhaust)
  have l: "o1 + length b1 \<le> length buf" "length (write_at o1 b1 buf) = length buf"
    using Cons.prems(1) by (simp_all add: b blocks_fit_def)
  have rest: "blocks_fit (length (write_at o1 b1 buf)) blocks" "blocks_disjoint blocks"
    using Cons.prems l by (simp_all add: b blocks_fit_def blocks_disjoint_def)
  show ?case
  proof (cases "(off, bs) \<in> set blocks")
    case True
    then show ?thesis using Cons.IH [OF rest] by (simp add: b)
  next
    case False
    then have e: "off = o1" "bs = b1" using Cons.prems(3) b by auto
    have "read_at o1 (length b1) (write_blocks blocks (write_at o1 b1 buf)) = read_at o1 (length b1) (write_at o1 b1 buf)"
      by (rule write_blocks_other [OF rest(1)]) (use Cons.prems(2) l b in \<open>auto simp: blocks_disjoint_def\<close>)
    then show ?thesis using l(1) by (simp add: b e)
  qed
qed

text \<open>Blocks in ascending order are disjoint.\<close>

definition blocks_sorted :: "(nat \<times> 'b list) list \<Rightarrow> bool" where
  "blocks_sorted blocks \<longleftrightarrow> sorted_wrt (\<lambda>(o1, b1) (o2, b2). o1 + length b1 \<le> o2) blocks"

definition blocks_within :: "nat \<Rightarrow> nat \<Rightarrow> (nat \<times> 'b list) list \<Rightarrow> bool" where
  "blocks_within lo hi blocks \<longleftrightarrow> (\<forall>(off, bs) \<in> set blocks. lo \<le> off \<and> off + length bs \<le> hi)"

lemma blocks_sorted_disjoint: "blocks_sorted blocks \<Longrightarrow> blocks_disjoint blocks"
  unfolding blocks_sorted_def blocks_disjoint_def by (erule sorted_wrt_mono_rel [rotated]) auto

lemma blocks_within_fit: "blocks_within lo hi blocks \<Longrightarrow> hi \<le> n \<Longrightarrow> blocks_fit n blocks"
  by (fastforce simp: blocks_within_def blocks_fit_def)

lemma blocks_within_widen: "blocks_within lo hi blocks \<Longrightarrow> lo' \<le> lo \<Longrightarrow> hi \<le> hi' \<Longrightarrow> blocks_within lo' hi' blocks"
  by (fastforce simp: blocks_within_def)

lemma blocks_nil [simp]: "blocks_sorted []" "blocks_within lo hi []"
  by (simp_all add: blocks_sorted_def blocks_within_def)

lemma blocks_single: "blocks_sorted [(off, bs)]" "lo \<le> off \<Longrightarrow> off + length bs \<le> hi \<Longrightarrow> blocks_within lo hi [(off, bs)]"
  by (simp_all add: blocks_sorted_def blocks_within_def)

lemma blocks_append:
  assumes "blocks_sorted xs" "blocks_within lo mid xs" "blocks_sorted ys" "blocks_within mid hi ys" "lo \<le> mid" "mid \<le> hi"
  shows "blocks_sorted (xs @ ys)" "blocks_within lo hi (xs @ ys)"
  using assms unfolding blocks_sorted_def blocks_within_def by (fastforce simp: sorted_wrt_append)+

end
