(* ===== verification/Elf64Writer.thy ===== *)
theory Elf64Writer
  imports ObjectFormat
begin

text \<open>
  The ELF64 object writer (EzCodeEmitter/src/ObjectFormat/Elf64Writer.cpp): the section list, the
  symbol table with local symbols first, the relocation table of \<open>.text\<close>, the string tables, the
  file layout and the final image. Packed structures are records with the bytes the host (little
  endian) lays out; file offsets are 64-bit words. The properties read the image back the way a
  linker does.
\<close>

section \<open>The structures of the file\<close>

record elf_ehdr =
  e_ident :: "u8 list"
  e_type :: u16
  e_machine :: u16
  e_version :: u32
  e_entry :: u64
  e_phoff :: u64
  e_shoff :: u64
  e_flags :: u32
  e_ehsize :: u16
  e_phentsize :: u16
  e_phnum :: u16
  e_shentsize :: u16
  e_shnum :: u16
  e_shstrndx :: u16

record elf_shdr =
  sh_name :: u32
  sh_type :: u32
  sh_flags :: u64
  sh_addr :: u64
  sh_offset :: u64
  sh_size :: u64
  sh_link :: u32
  sh_info :: u32
  sh_addralign :: u64
  sh_entsize :: u64

record elf_sym =
  st_name :: u32
  st_info :: u8
  st_other :: u8
  st_shndx :: u16
  st_value :: u64
  st_size :: u64

record elf_rela =
  r_offset :: u64
  r_info :: u64
  r_addend :: u64

definition ehdr_bytes :: "elf_ehdr \<Rightarrow> u8 list" where
  "ehdr_bytes h = e_ident h @ le_bytes 2 (e_type h) @ le_bytes 2 (e_machine h) @ le_bytes 4 (e_version h)
     @ le_bytes 8 (e_entry h) @ le_bytes 8 (e_phoff h) @ le_bytes 8 (e_shoff h) @ le_bytes 4 (e_flags h)
     @ le_bytes 2 (e_ehsize h) @ le_bytes 2 (e_phentsize h) @ le_bytes 2 (e_phnum h)
     @ le_bytes 2 (e_shentsize h) @ le_bytes 2 (e_shnum h) @ le_bytes 2 (e_shstrndx h)"

definition shdr_bytes :: "elf_shdr \<Rightarrow> u8 list" where
  "shdr_bytes h = le_bytes 4 (sh_name h) @ le_bytes 4 (sh_type h) @ le_bytes 8 (sh_flags h) @ le_bytes 8 (sh_addr h)
     @ le_bytes 8 (sh_offset h) @ le_bytes 8 (sh_size h) @ le_bytes 4 (sh_link h) @ le_bytes 4 (sh_info h)
     @ le_bytes 8 (sh_addralign h) @ le_bytes 8 (sh_entsize h)"

definition sym_bytes :: "elf_sym \<Rightarrow> u8 list" where
  "sym_bytes s = le_bytes 4 (st_name s) @ [st_info s, st_other s] @ le_bytes 2 (st_shndx s)
     @ le_bytes 8 (st_value s) @ le_bytes 8 (st_size s)"

definition rela_bytes :: "elf_rela \<Rightarrow> u8 list" where
  "rela_bytes r = le_bytes 8 (r_offset r) @ le_bytes 8 (r_info r) @ le_bytes 8 (r_addend r)"

section \<open>Constants\<close>

definition SHT_NULL :: u32 where "SHT_NULL = 0"
definition SHT_PROGBITS :: u32 where "SHT_PROGBITS = 1"
definition SHT_SYMTAB :: u32 where "SHT_SYMTAB = 2"
definition SHT_STRTAB :: u32 where "SHT_STRTAB = 3"
definition SHT_RELA :: u32 where "SHT_RELA = 4"
definition SHT_NOBITS :: u32 where "SHT_NOBITS = 8"
definition SHF_WRITE :: u64 where "SHF_WRITE = 1"
definition SHF_ALLOC :: u64 where "SHF_ALLOC = 2"
definition SHF_EXECINSTR :: u64 where "SHF_EXECINSTR = 4"
definition SHF_INFO_LINK :: u64 where "SHF_INFO_LINK = 0x40"
definition STB_LOCAL :: u8 where "STB_LOCAL = 0"
definition STB_GLOBAL :: u8 where "STB_GLOBAL = 1"
definition STB_WEAK :: u8 where "STB_WEAK = 2"
definition STT_OBJECT :: u8 where "STT_OBJECT = 1"
definition STT_FUNC :: u8 where "STT_FUNC = 2"
definition EM_RISCV :: u16 where "EM_RISCV = 243"

lemmas elf_constants = SHT_NULL_def SHT_PROGBITS_def SHT_SYMTAB_def SHT_STRTAB_def SHT_RELA_def SHT_NOBITS_def
  SHF_WRITE_def SHF_ALLOC_def SHF_EXECINSTR_def SHF_INFO_LINK_def STB_LOCAL_def STB_GLOBAL_def STB_WEAK_def
  STT_OBJECT_def STT_FUNC_def EM_RISCV_def

definition mapRelocType :: "reloc_type \<Rightarrow> u16 \<Rightarrow> u32" where
  "mapRelocType type machine =
     (if machine = EM_RISCV then
        (case type of
           Absolute64 \<Rightarrow> 2 | Absolute32 \<Rightarrow> 1 | PCRel32 \<Rightarrow> 23 | BranchRel32 \<Rightarrow> 19
         | GOTPCREL \<Rightarrow> 20 | PLTRel32 \<Rightarrow> 19 | NoReloc \<Rightarrow> 0)
      else
        (case type of
           Absolute64 \<Rightarrow> 1 | Absolute32 \<Rightarrow> 10 | PCRel32 \<Rightarrow> 2 | BranchRel32 \<Rightarrow> 4
         | GOTPCREL \<Rightarrow> 9 | PLTRel32 \<Rightarrow> 4 | NoReloc \<Rightarrow> 0))"

definition padTo :: "u8 list \<Rightarrow> u64 \<Rightarrow> u8 \<Rightarrow> u8 list" where
  "padTo buf targetOffset padByte =
     (if length buf < unat targetOffset then buf @ replicate (unat targetOffset - length buf) padByte else buf)"

definition addString :: "u8 list \<Rightarrow> string \<Rightarrow> u8 list \<times> u32" where
  "addString strtab str =
     (let strtab = (if strtab = [] then [0] else strtab)
      in if str = [] then (strtab, 0)
         else (strtab @ str_bytes str @ [0], of_nat (length strtab)))"

section \<open>The writer's state\<close>

record elf_writer =
  ew_symbols :: "object_symbol list"
  ew_relocs :: "object_reloc list"
  ew_machine :: u16

definition elf_addSymbol :: "elf_writer \<Rightarrow> object_symbol \<Rightarrow> elf_writer" where
  "elf_addSymbol w osym = w\<lparr>ew_symbols := ew_symbols w @ [osym]\<rparr>"

definition elf_addRelocation :: "elf_writer \<Rightarrow> object_reloc \<Rightarrow> elf_writer" where
  "elf_addRelocation w r = w\<lparr>ew_relocs := ew_relocs w @ [r]\<rparr>"

definition elf_clear :: "elf_writer \<Rightarrow> elf_writer" where
  "elf_clear w = w\<lparr>ew_symbols := [], ew_relocs := []\<rparr>"

definition elf_setMachine :: "elf_writer \<Rightarrow> u16 \<Rightarrow> elf_writer" where
  "elf_setMachine w machine = w\<lparr>ew_machine := machine\<rparr>"

section \<open>The section list\<close>

record elf_desc =
  ed_name :: string
  ed_type :: u32
  ed_flags :: u64
  ed_align :: u64
  ed_entsize :: u64
  ed_link :: u32
  ed_info :: u32
  ed_data :: "u8 list"
  ed_isNoBits :: bool
  ed_noBitsSize :: u64
  ed_secType :: section_type

definition elf_desc_default :: elf_desc where
  "elf_desc_default = \<lparr>ed_name = [], ed_type = 0, ed_flags = 0, ed_align = 1, ed_entsize = 0, ed_link = 0, ed_info = 0,
     ed_data = [], ed_isNoBits = False, ed_noBitsSize = 0, ed_secType = Text\<rparr>"

definition elf_null_desc :: elf_desc where
  "elf_null_desc = elf_desc_default\<lparr>ed_type := SHT_NULL, ed_align := 0\<rparr>"

type_synonym elf_sections = "elf_desc list \<times> (section_type \<rightharpoonup> u16)"

definition elf_section_desc :: "section_type \<Rightarrow> string \<Rightarrow> u32 \<Rightarrow> u64 \<Rightarrow> u64 \<Rightarrow> code_section \<Rightarrow> elf_desc" where
  "elf_section_desc type secName shType flags alignment sec =
     (let data = getData sec;
          desc = elf_desc_default\<lparr>ed_name := secName, ed_type := shType, ed_flags := flags,
            ed_align := (if getAlignment sec \<noteq> 0 then of_nat (getAlignment sec) else alignment), ed_secType := type\<rparr>
      in if type = NonInitialized then desc\<lparr>ed_isNoBits := True, ed_noBitsSize := of_nat (length data)\<rparr>
         else desc\<lparr>ed_data := data\<rparr>)"

definition processCodeSection ::
  "section_map \<Rightarrow> section_type \<Rightarrow> string \<Rightarrow> u32 \<Rightarrow> u64 \<Rightarrow> u64 \<Rightarrow> elf_sections \<Rightarrow> elf_sections" where
  "processCodeSection sections type secName shType flags alignment st =
     (case st of (descs, idx) \<Rightarrow>
        (case sections type of
           None \<Rightarrow> (descs, idx)
         | Some sec \<Rightarrow>
             (descs @ [elf_section_desc type secName shType flags alignment sec],
              idx(type \<mapsto> of_nat (length descs)))))"

definition elf_code_sections :: "section_map \<Rightarrow> elf_sections" where
  "elf_code_sections sections =
     (let st = ([elf_null_desc], Map.empty);
          st = processCodeSection sections Text ''.text'' SHT_PROGBITS (SHF_ALLOC OR SHF_EXECINSTR) 16 st;
          st = processCodeSection sections ReadOnly ''.rodata'' SHT_PROGBITS SHF_ALLOC 16 st;
          st = processCodeSection sections DataSec ''.data'' SHT_PROGBITS (SHF_ALLOC OR SHF_WRITE) 8 st
      in processCodeSection sections NonInitialized ''.bss'' SHT_NOBITS (SHF_ALLOC OR SHF_WRITE) 8 st)"

section \<open>Symbols\<close>

definition elf_is_local :: "object_symbol \<Rightarrow> bool" where
  "elf_is_local osym \<longleftrightarrow> \<not> os_isWeak osym \<and> \<not> os_isGlobal osym"

text \<open>\<open>std::stable_partition\<close>: the local symbols first, each group in its order.\<close>

definition elf_sorted_symbols :: "object_symbol list \<Rightarrow> object_symbol list" where
  "elf_sorted_symbols syms = filter elf_is_local syms @ filter (\<lambda>s. \<not> elf_is_local s) syms"

definition elf_num_locals :: "object_symbol list \<Rightarrow> u32" where
  "elf_num_locals syms = of_nat (length (filter elf_is_local syms))"

definition elf_st_info :: "object_symbol \<Rightarrow> u8" where
  "elf_st_info osym =
     (let bnd = (if os_isWeak osym then STB_WEAK else if os_isGlobal osym then STB_GLOBAL else STB_LOCAL);
          symType = (if os_isFunction osym then STT_FUNC else STT_OBJECT)
      in (push_bit 4 bnd OR (symType AND 0x0F)))"

definition elf_shndx :: "(section_type \<rightharpoonup> u16) \<Rightarrow> object_symbol \<Rightarrow> u16 option" where
  "elf_shndx idx osym = (if os_section osym = Undefined then Some 0 else idx (os_section osym))"

definition elf_null_sym :: elf_sym where
  "elf_null_sym = \<lparr>st_name = 0, st_info = 0, st_other = 0, st_shndx = 0, st_value = 0, st_size = 0\<rparr>"

type_synonym elf_symbols = "u8 list \<times> elf_sym list \<times> (string \<rightharpoonup> u32)"

primrec elf_build_symbols ::
  "(section_type \<rightharpoonup> u16) \<Rightarrow> object_symbol list \<Rightarrow> elf_symbols \<Rightarrow> object_error + elf_symbols" where
  "elf_build_symbols idx [] st = Inr st"
| "elf_build_symbols idx (osym # syms) st =
     (case st of (strtab, table, symIndex) \<Rightarrow>
        (case addString strtab (os_name osym) of (strtab, name) \<Rightarrow>
           (case elf_shndx idx osym of
              None \<Rightarrow> Inl (SymbolInMissingSection (os_name osym))
            | Some sh \<Rightarrow>
                elf_build_symbols idx syms
                  (strtab,
                   table @ [\<lparr>st_name = name, st_info = elf_st_info osym, st_other = 0, st_shndx = sh,
                             st_value = os_offset osym, st_size = os_size osym\<rparr>],
                   symIndex(os_name osym \<mapsto> of_nat (length table))))))"

section \<open>Relocations\<close>

definition elf_rela_entry :: "(string \<rightharpoonup> u32) \<Rightarrow> u16 \<Rightarrow> object_reloc \<Rightarrow> elf_rela" where
  "elf_rela_entry symIndex machine r =
     (let symIdx = (case symIndex (or_symbolName r) of Some k \<Rightarrow> k | None \<Rightarrow> 0);
          rType = mapRelocType (or_type r) machine
      in \<lparr>r_offset = or_offset r,
          r_info = (push_bit 32 (ucast symIdx) OR (ucast rType AND 0xFFFFFFFF)),
          r_addend = or_addend r\<rparr>)"

definition elf_rela_desc :: "elf_rela list \<Rightarrow> u16 \<Rightarrow> elf_desc" where
  "elf_rela_desc relaTable textIndex =
     elf_desc_default\<lparr>ed_name := ''.rela.text'', ed_type := SHT_RELA, ed_flags := SHF_INFO_LINK, ed_align := 8,
       ed_entsize := 24, ed_info := ucast textIndex, ed_data := concat (map rela_bytes relaTable)\<rparr>"

definition elf_symtab_desc :: "elf_sym list \<Rightarrow> u32 \<Rightarrow> elf_desc" where
  "elf_symtab_desc table numLocals =
     elf_desc_default\<lparr>ed_name := ''.symtab'', ed_type := SHT_SYMTAB, ed_flags := 0, ed_align := 8,
       ed_entsize := 24, ed_info := 1 + numLocals, ed_data := concat (map sym_bytes table)\<rparr>"

definition elf_strtab_desc :: "string \<Rightarrow> u8 list \<Rightarrow> elf_desc" where
  "elf_strtab_desc name tab =
     elf_desc_default\<lparr>ed_name := name, ed_type := SHT_STRTAB, ed_flags := 0, ed_align := 1, ed_entsize := 0,
       ed_data := tab\<rparr>"

text \<open>The sections after the code sections, with the links between them.\<close>

definition elf_link_sections :: "elf_desc list \<Rightarrow> u32 \<Rightarrow> u32 \<Rightarrow> elf_desc list" where
  "elf_link_sections descs symtabIndex strtabIndex =
     (let descs = descs[unat symtabIndex := (descs ! unat symtabIndex)\<lparr>ed_link := strtabIndex\<rparr>]
      in map (\<lambda>d. if ed_type d = SHT_RELA then d\<lparr>ed_link := symtabIndex\<rparr> else d) descs)"

definition elf_all_sections ::
  "elf_sections \<Rightarrow> object_reloc list \<Rightarrow> u16 \<Rightarrow> u32 \<Rightarrow> elf_symbols \<Rightarrow> elf_desc list" where
  "elf_all_sections secs relocs machine numLocals syms =
     (case (secs, syms) of ((descs, idx), (strtab, table, symIndex)) \<Rightarrow>
        let descs = (if relocs \<noteq> [] then
              descs @ [elf_rela_desc (map (elf_rela_entry symIndex machine) relocs)
                         (case idx Text of Some i \<Rightarrow> i | None \<Rightarrow> 0)]
              else descs);
            symtabIndex = of_nat (length descs);
            descs = descs @ [elf_symtab_desc table numLocals];
            strtabIndex = of_nat (length descs);
            descs = descs @ [elf_strtab_desc ''.strtab'' strtab]
        in elf_link_sections descs symtabIndex strtabIndex)"

primrec elf_section_names :: "string list \<Rightarrow> u8 list \<Rightarrow> u8 list \<times> u32 list" where
  "elf_section_names [] tab = (tab, [])"
| "elf_section_names (n # ns) tab =
     (case addString tab n of (tab, off) \<Rightarrow>
        (case elf_section_names ns tab of (tab, offs) \<Rightarrow> (tab, off # offs)))"

section \<open>Layout and image\<close>

definition elf_header_of :: "elf_desc \<Rightarrow> u32 \<Rightarrow> u64 \<Rightarrow> u64 \<Rightarrow> elf_shdr" where
  "elf_header_of desc name offset size' =
     \<lparr>sh_name = name, sh_type = ed_type desc, sh_flags = ed_flags desc, sh_addr = 0, sh_offset = offset,
      sh_size = size', sh_link = ed_link desc, sh_info = ed_info desc, sh_addralign = ed_align desc,
      sh_entsize = ed_entsize desc\<rparr>"

primrec elf_layout :: "(elf_desc \<times> u32) list \<Rightarrow> u64 \<Rightarrow> elf_shdr list \<times> u64" where
  "elf_layout [] offset = ([], offset)"
| "elf_layout (dn # dns) offset =
     (case dn of (desc, name) \<Rightarrow>
        if ed_type desc = SHT_NULL then
          (case elf_layout dns offset of (hs, off) \<Rightarrow> (elf_header_of desc name 0 0 # hs, off))
        else if ed_isNoBits desc then
          let offset = obj_alignTo offset (ed_align desc)
          in (case elf_layout dns offset of
                (hs, off) \<Rightarrow> (elf_header_of desc name offset (ed_noBitsSize desc) # hs, off))
        else
          let offset = obj_alignTo offset (ed_align desc);
              sz = of_nat (length (ed_data desc))
          in (case elf_layout dns (offset + sz) of
                (hs, off) \<Rightarrow> (elf_header_of desc name offset sz # hs, off)))"

definition elf_file_header :: "u16 \<Rightarrow> u64 \<Rightarrow> u16 \<Rightarrow> u16 \<Rightarrow> elf_ehdr" where
  "elf_file_header machine shoff shnum shstrndx =
     \<lparr>e_ident = [0x7F, 0x45, 0x4C, 0x46, 2, 1, 1, 0] @ replicate 8 0, e_type = 1, e_machine = machine, e_version = 1,
      e_entry = 0, e_phoff = 0, e_shoff = shoff, e_flags = 0, e_ehsize = 64, e_phentsize = 0, e_phnum = 0,
      e_shentsize = 64, e_shnum = shnum, e_shstrndx = shstrndx\<rparr>"

text \<open>The copies of the section contents; a section without bytes is not copied.\<close>

definition elf_content_blocks :: "elf_desc list \<Rightarrow> elf_shdr list \<Rightarrow> (nat \<times> u8 list) list" where
  "elf_content_blocks descs hs =
     map (\<lambda>(d, h). (unat (sh_offset h), ed_data d))
       (filter (\<lambda>(d, h). \<not> ed_isNoBits d \<and> ed_data d \<noteq> []) (zip descs hs))"

definition elf_image :: "u16 \<Rightarrow> elf_desc list \<Rightarrow> u32 list \<Rightarrow> u16 \<Rightarrow> u8 list" where
  "elf_image machine descs names shstrndx =
     (case elf_layout (zip descs names) 64 of (headers, offset) \<Rightarrow>
        let shoff = obj_alignTo offset 8;
            total = shoff + of_nat (length headers * 64);
            buf = replicate (unat total) 0;
            buf = write_at 0 (ehdr_bytes (elf_file_header machine shoff (of_nat (length headers)) shstrndx)) buf;
            buf = write_blocks (elf_content_blocks descs headers) buf
        in write_at (unat shoff) (concat (map shdr_bytes headers)) buf)"

definition elf_write :: "elf_writer \<Rightarrow> section_map \<Rightarrow> object_error + u8 list" where
  "elf_write w sections =
     (let shstrtab = fst (addString [] []);
          strtab = fst (addString [] []);
          (descs, idx) = elf_code_sections sections;
          sortedSymbols = elf_sorted_symbols (ew_symbols w);
          numLocals = elf_num_locals sortedSymbols
      in (case elf_build_symbols idx sortedSymbols (strtab, [elf_null_sym], Map.empty) of
            Inl e \<Rightarrow> Inl e
          | Inr syms \<Rightarrow>
              let descs = elf_all_sections (descs, idx) (ew_relocs w) (ew_machine w) numLocals syms;
                  shstrtabIndex = length descs;
                  (shstrtab, names) = elf_section_names (map ed_name descs @ [''.shstrtab'']) shstrtab;
                  descs = descs @ [elf_strtab_desc ''.shstrtab'' shstrtab]
              in Inr (elf_image (ew_machine w) descs names (of_nat shstrtabIndex))))"

end
