(* ===== verification/Elf64Proofs.thy ===== *)
theory Elf64Proofs
  imports Elf64Writer "HOL-Library.Multiset"
begin

text \<open>
  What the ELF64 writer produces, read back the way a linker does: the layout of the sections, the
  section header table, the symbol and relocation tables and the string tables.
\<close>

section \<open>Layout\<close>

text \<open>The space a list of sections can take at most: its bytes and the padding in front.\<close>

definition elf_need :: "elf_desc list \<Rightarrow> nat" where
  "elf_need descs = sum_list (map (\<lambda>d. unat (ed_align d) + length (ed_data d)) descs)"

lemma elf_need_simps [simp]:
  "elf_need [] = 0" "elf_need (d # ds) = unat (ed_align d) + length (ed_data d) + elf_need ds"
  "elf_need (xs @ ys) = elf_need xs + elf_need ys"
  by (simp_all add: elf_need_def)

text \<open>The size a section has: of its data, or in memory when it has none in the file.\<close>

definition elf_file_size :: "elf_desc \<Rightarrow> u64" where
  "elf_file_size d =
     (if ed_type d = SHT_NULL then 0 else if ed_isNoBits d then ed_noBitsSize d else of_nat (length (ed_data d)))"

text \<open>A header describes its section: its fields are the section's, and a section with a place in
  the file starts at a multiple of its alignment.\<close>

definition elf_header_ok :: "elf_desc \<Rightarrow> u32 \<Rightarrow> elf_shdr \<Rightarrow> bool" where
  "elf_header_ok d name h \<longleftrightarrow>
     (\<exists>off. h = elf_header_of d name off (elf_file_size d) \<and>
       (ed_type d \<noteq> SHT_NULL \<longrightarrow> (\<forall>k<64. ed_align d = 2 ^ k \<longrightarrow> 2 ^ k dvd unat off)))"

definition elf_desc_ok :: "elf_desc \<Rightarrow> bool" where
  "elf_desc_ok d \<longleftrightarrow> (ed_type d = SHT_NULL \<longrightarrow> ed_data d = [] \<and> \<not> ed_isNoBits d)"

lemma elf_content_blocks_cons:
  "elf_content_blocks (d # ds) (h # hs) =
     (if \<not> ed_isNoBits d \<and> ed_data d \<noteq> [] then [(unat (sh_offset h), ed_data d)] else []) @ elf_content_blocks ds hs"
  by (simp add: elf_content_blocks_def)

lemma elf_content_blocks_nil [simp]: "elf_content_blocks [] hs = []"
  by (simp add: elf_content_blocks_def)

lemma elf_layout_ok:
  assumes "elf_layout dns off = (hs, off')" "unat off + elf_need (map fst dns) < 2 ^ 64"
    "\<forall>d \<in> set (map fst dns). elf_desc_ok d"
  shows "list_all2 (\<lambda>(d, name) h. elf_header_ok d name h) dns hs \<and> unat off \<le> unat off' \<and>
    unat off' \<le> unat off + elf_need (map fst dns) \<and>
    (\<forall>(o1, bs) \<in> set (elf_content_blocks (map fst dns) hs). unat off \<le> o1 \<and> o1 + length bs \<le> unat off') \<and>
    sorted_wrt (\<lambda>(o1, b1) (o2, b2). o1 + length b1 \<le> o2) (elf_content_blocks (map fst dns) hs)"
  using assms
proof (induction dns arbitrary: off hs)
  case Nil
  then show ?case by simp
next
  case (Cons dn dns)
  obtain d name where dn: "dn = (d, name)" by (metis prod.exhaust)
  let ?o = "obj_alignTo off (ed_align d)"
  have r: "unat off \<le> unat ?o" "unat ?o \<le> unat off + unat (ed_align d)"
    using obj_alignTo_range [of off "ed_align d"] Cons.prems(2) by (simp_all add: dn)
  have m: "\<forall>k<64. ed_align d = 2 ^ k \<longrightarrow> 2 ^ k dvd unat ?o"
    using obj_alignTo_multiple by blast
  let ?nul = "ed_type d = SHT_NULL"
  let ?start = "if ?nul then off else ?o"
  let ?len = "if ?nul \<or> ed_isNoBits d then 0 else length (ed_data d)"
  have fit: "unat ?start + ?len < 2 ^ 64" "unat ?start + ?len \<le> unat off + unat (ed_align d) + length (ed_data d)"
    using r Cons.prems(2) by (simp_all add: dn)
  then have next_off: "unat (?start + of_nat ?len) = unat ?start + ?len"
    by (subst unat_add_word) (simp_all add: unat_of_nat)
  obtain ts where t: "elf_layout dns (?start + of_nat ?len) = (ts, off')" and
    h: "\<exists>h. hs = h # ts \<and> elf_header_ok d name h \<and> (\<not> ?nul \<longrightarrow> sh_offset h = ?o)"
    using Cons.prems(1) m
    by (auto simp: dn Let_def elf_header_ok_def elf_header_of_def elf_file_size_def split: prod.splits if_splits)
  then obtain h where h: "hs = h # ts" "elf_header_ok d name h" "\<not> ?nul \<Longrightarrow> sh_offset h = ?o" by blast
  have "unat (?start + of_nat ?len) + elf_need (map fst dns) < 2 ^ 64"
    using Cons.prems(2) fit(2) unfolding next_off by (simp add: dn)
  note IH = Cons.IH [OF t this, unfolded next_off]
  have blk: "elf_content_blocks (map fst (dn # dns)) hs =
      (if ?len = 0 then [] else [(unat ?start, ed_data d)]) @ elf_content_blocks (map fst dns) ts"
    using h(3) Cons.prems(3) by (auto simp: dn h(1) elf_content_blocks_cons elf_desc_ok_def)
  have len: "?len \<noteq> 0 \<Longrightarrow> ?len = length (ed_data d)" by (auto split: if_splits)
  have s: "unat off \<le> unat ?start" using r by simp
  from IH Cons.prems(3) have I: "list_all2 (\<lambda>(d, name) h. elf_header_ok d name h) dns ts"
    "unat ?start + ?len \<le> unat off'" "unat off' \<le> unat ?start + ?len + elf_need (map fst dns)"
    "\<forall>(o1, bs) \<in> set (elf_content_blocks (map fst dns) ts). unat ?start + ?len \<le> o1 \<and> o1 + length bs \<le> unat off'"
    "sorted_wrt (\<lambda>(o1, b1) (o2, b2). o1 + length b1 \<le> o2) (elf_content_blocks (map fst dns) ts)"
    by auto
  have a: "list_all2 (\<lambda>(d, name) h. elf_header_ok d name h) (dn # dns) hs"
    using I(1) h by (simp add: dn)
  have b: "unat off \<le> unat off'" "unat off' \<le> unat off + elf_need (map fst (dn # dns))"
    using I(2,3) s fit(2) by (simp_all add: dn)
  have c: "\<forall>(o1, bs) \<in> set (elf_content_blocks (map fst (dn # dns)) hs). unat off \<le> o1 \<and> o1 + length bs \<le> unat off'"
    unfolding blk using I(2,4) s len by (auto split: if_splits)
  have e: "sorted_wrt (\<lambda>(o1, b1) (o2, b2). o1 + length b1 \<le> o2) (elf_content_blocks (map fst (dn # dns)) hs)"
    unfolding blk using I(4,5) len by (auto split: if_splits)
  show ?case using a b c e by blast
qed

section \<open>Reading an image\<close>

text \<open>A reader of ELF64 files: the section table, the header and the content of section \<open>i\<close>.\<close>

definition elf_read_header :: "u8 list \<Rightarrow> nat \<Rightarrow> u8 list" where
  "elf_read_header file i = read_at (unat (file_u64 file 40) + i * 64) 64 file"

definition elf_read_content :: "u8 list \<Rightarrow> nat \<Rightarrow> u8 list" where
  "elf_read_content file i =
     (let h = elf_read_header file i
      in if file_u32 h 4 = SHT_NULL \<or> file_u32 h 4 = SHT_NOBITS then []
         else read_at (unat (file_u64 h 24)) (unat (file_u64 h 32)) file)"

text \<open>The name of section \<open>i\<close>, in the string table section the file header names.\<close>

definition elf_read_name :: "u8 list \<Rightarrow> nat \<Rightarrow> u8 list" where
  "elf_read_name file i =
     read_cstring (elf_read_content file (unat (file_u16 file 62))) (unat (file_u32 (elf_read_header file i) 0))"

lemma shdr_length [simp]: "length (shdr_bytes h) = 64"
  by (simp add: shdr_bytes_def)

lemma shdr_fields:
  "file_u32 (shdr_bytes h) 0 = sh_name h" "file_u32 (shdr_bytes h) 4 = sh_type h"
  "file_u64 (shdr_bytes h) 8 = sh_flags h" "file_u64 (shdr_bytes h) 16 = sh_addr h" "file_u64 (shdr_bytes h) 24 = sh_offset h"
  "file_u64 (shdr_bytes h) 32 = sh_size h" "file_u32 (shdr_bytes h) 40 = sh_link h"
  "file_u32 (shdr_bytes h) 44 = sh_info h" "file_u64 (shdr_bytes h) 48 = sh_addralign h"
  "file_u64 (shdr_bytes h) 56 = sh_entsize h"
  by (simp_all add: file_u32_def file_u64_def shdr_bytes_def read_at_def le_word_le_bytes_full)

lemma ehdr_length: "length (ehdr_bytes (elf_file_header m shoff n x)) = 64"
  by (simp add: ehdr_bytes_def elf_file_header_def)

lemma ehdr_fields:
  "read_at 0 4 (ehdr_bytes (elf_file_header m shoff n x)) = [0x7F, 0x45, 0x4C, 0x46]"
  "le_word (read_at 18 2 (ehdr_bytes (elf_file_header m shoff n x))) = m"
  "le_word (read_at 40 8 (ehdr_bytes (elf_file_header m shoff n x))) = shoff"
  "le_word (read_at 60 2 (ehdr_bytes (elf_file_header m shoff n x))) = n"
  "le_word (read_at 62 2 (ehdr_bytes (elf_file_header m shoff n x))) = x"
  by (simp_all add: ehdr_bytes_def elf_file_header_def read_at_def le_word_le_bytes_full numeral_eq_Suc)

text \<open>The image is the file header, the section contents and the section header table, in disjoint
  blocks that fill a buffer of exactly the size of the file.\<close>

lemma elf_image_blocks:
  assumes lay: "elf_layout (zip descs names) 64 = (hs, off)" and len: "length names = length descs"
    and small: "elf_need descs + 64 * length descs + 200 < 2 ^ 64" and ok: "\<forall>d \<in> set descs. elf_desc_ok d"
  shows "\<exists>total shoff blocks. elf_image m descs names x = write_blocks blocks (replicate total 0) \<and>
    blocks_fit total blocks \<and> blocks_disjoint blocks \<and>
    blocks = (0, ehdr_bytes (elf_file_header m shoff (of_nat (length descs)) x)) # elf_content_blocks descs hs @
      [(unat shoff, concat (map shdr_bytes hs))] \<and> total = unat shoff + 64 * length descs \<and>
    length hs = length descs"
proof -
  have z: "map fst (zip descs names) = descs" using len by (simp add: map_fst_zip)
  have "unat (64 :: u64) + elf_need (map fst (zip descs names)) < 2 ^ 64" using small z by simp
  from elf_layout_ok [OF lay this] ok z have L:
    "list_all2 (\<lambda>(d, name) h. elf_header_ok d name h) (zip descs names) hs" "64 \<le> unat off" "unat off \<le> 64 + elf_need descs"
    "\<forall>(o1, bs) \<in> set (elf_content_blocks descs hs). 64 \<le> o1 \<and> o1 + length bs \<le> unat off"
    "sorted_wrt (\<lambda>(o1, b1) (o2, b2). o1 + length b1 \<le> o2) (elf_content_blocks descs hs)"
    by auto
  have n: "length hs = length descs" using list_all2_lengthD [OF L(1)] len by simp
  let ?shoff = "obj_alignTo off 8" and ?tab = "concat (map shdr_bytes hs)"
  have s: "unat off \<le> unat ?shoff" "unat ?shoff \<le> unat off + 8"
    using obj_alignTo_range [of off 8] L(3) small by simp_all
  have tl: "length ?tab = 64 * length descs" using table_length [of hs shdr_bytes 64] n by simp
  have "unat (of_nat (length hs * 64) :: u64) = 64 * length descs"
    using small n by (subst unat_of_nat) simp
  then have tot: "unat (?shoff + of_nat (length hs * 64)) = unat ?shoff + 64 * length descs"
    using s L(3) small by (subst unat_add_word) simp_all
  let ?blocks = "(0, ehdr_bytes (elf_file_header m ?shoff (of_nat (length descs)) x)) # elf_content_blocks descs hs @
      [(unat ?shoff, ?tab)]"
  have img: "elf_image m descs names x = write_blocks ?blocks (replicate (unat ?shoff + 64 * length descs) 0)"
    unfolding elf_image_def lay by (simp add: Let_def n tot [unfolded n] del: of_nat_mult)
  have fit: "blocks_fit (unat ?shoff + 64 * length descs) ?blocks"
    using L(2,4) s tl by (auto simp: blocks_fit_def ehdr_length)
  have "blocks_disjoint (elf_content_blocks descs hs)"
    unfolding blocks_disjoint_def by (rule sorted_wrt_mono_rel [OF _ L(5)]) auto
  then have dis: "blocks_disjoint ?blocks"
    using L(2,4) s tl by (fastforce simp: blocks_disjoint_def ehdr_length sorted_wrt_append)
  show ?thesis
    by (rule exI [of _ "unat ?shoff + 64 * length descs"], rule exI [of _ ?shoff], rule exI [of _ ?blocks])
      (simp only: img fit dis n simp_thms)
qed

text \<open>Sizes and types that the reader relies on: a NOBITS section is one without bytes in the file.\<close>

definition elf_desc_readable :: "elf_desc \<Rightarrow> bool" where
  "elf_desc_readable d \<longleftrightarrow> elf_desc_ok d \<and> (ed_isNoBits d \<longleftrightarrow> ed_type d = SHT_NOBITS) \<and>
     (ed_isNoBits d \<longrightarrow> ed_data d = [])"

lemma elf_image_reads:
  assumes lay: "elf_layout (zip descs names) 64 = (hs, off)" and len: "length names = length descs"
    and small: "elf_need descs + 64 * length descs + 200 < 2 ^ 64" "length descs < 2 ^ 16"
    and ok: "\<forall>d \<in> set descs. elf_desc_readable d"
    and f: "f = elf_image m descs names x"
  shows "read_at 0 4 f = [0x7F, 0x45, 0x4C, 0x46] \<and> file_u16 f 18 = m \<and>
    unat (file_u16 f 60) = length descs \<and> file_u16 f 62 = x \<and>
    (\<forall>i < length descs. elf_read_header f i = shdr_bytes (hs ! i) \<and> elf_header_ok (descs ! i) (names ! i) (hs ! i) \<and>
      elf_read_content f i = ed_data (descs ! i))"
proof -
  have dok: "\<forall>d \<in> set descs. elf_desc_ok d" using ok by (simp add: elf_desc_readable_def)
  from elf_image_blocks [OF lay len small(1) dok, of m x] obtain total shoff blocks where
    b: "f = write_blocks blocks (replicate total 0)" "blocks_fit total blocks" "blocks_disjoint blocks"
      "blocks = (0, ehdr_bytes (elf_file_header m shoff (of_nat (length descs)) x)) # elf_content_blocks descs hs @
        [(unat shoff, concat (map shdr_bytes hs))]" "total = unat shoff + 64 * length descs" "length hs = length descs"
    unfolding f by blast
  let ?eh = "ehdr_bytes (elf_file_header m shoff (of_nat (length descs)) x)"
  have fl: "length f = total" using b(1,2) by simp
  have blk: "read_at o1 (length bs) f = bs" if "(o1, bs) \<in> set blocks" for o1 bs
    using write_blocks_read [of "replicate total 0" blocks o1 bs] b(1-3) that by simp
  have t64: "64 \<le> total" using b(2) by (auto simp: b(4) blocks_fit_def ehdr_length)
  have "read_at 0 64 f = ?eh" using blk [of 0 ?eh] by (simp add: b(4) ehdr_length)
  then have eh: "i + k \<le> 64 \<Longrightarrow> read_at i k f = read_at i k ?eh" for i k
    using read_at_inner [of 0 64 f ?eh i k] t64 fl by simp
  have shoff: "file_u64 f 40 = shoff" by (simp add: file_u64_def eh ehdr_fields)
  have fields: "read_at 0 4 f = [0x7F, 0x45, 0x4C, 0x46] \<and> file_u16 f 18 = m \<and>
      unat (file_u16 f 60) = length descs \<and> file_u16 f 62 = x"
    using small(2) by (simp add: file_u16_def eh ehdr_fields unat_of_nat)
  let ?tab = "concat (map shdr_bytes hs)"
  have tl: "length ?tab = 64 * length descs" using table_length [of hs shdr_bytes 64] b(6) by simp
  have tab: "read_at (unat shoff) (64 * length descs) f = ?tab" using blk [of "unat shoff" ?tab] tl by (simp add: b(4))
  have z: "map fst (zip descs names) = descs" using len by (simp add: map_fst_zip)
  have "unat (64 :: u64) + elf_need (map fst (zip descs names)) < 2 ^ 64" using small z by simp
  from elf_layout_ok [OF lay this] dok z have hok: "list_all2 (\<lambda>(d, name) h. elf_header_ok d name h) (zip descs names) hs"
    by auto
  have "elf_read_header f i = shdr_bytes (hs ! i) \<and> elf_header_ok (descs ! i) (names ! i) (hs ! i) \<and>
      elf_read_content f i = ed_data (descs ! i)" if i: "i < length descs" for i
  proof -
    let ?d = "descs ! i" and ?h = "hs ! i"
    have hd: "elf_read_header f i = shdr_bytes ?h"
    proof -
      have "read_at (unat shoff + i * 64) 64 f = read_at (i * 64) 64 ?tab"
        by (rule read_at_inner [OF tab]) (use i fl b(5) in auto)
      also have "\<dots> = shdr_bytes ?h" by (rule table_entry) (use i b(6) in auto)
      finally show ?thesis by (simp add: elf_read_header_def shoff)
    qed
    have ho: "elf_header_ok ?d (names ! i) ?h"
      using list_all2_nthD [OF hok, of i] i len by simp
    then have ty: "sh_type ?h = ed_type ?d" by (auto simp: elf_header_ok_def elf_header_of_def)
    have rd: "elf_desc_readable ?d" using ok i by simp
    have "elf_read_content f i = ed_data ?d"
    proof (cases "ed_type ?d = SHT_NULL \<or> ed_type ?d = SHT_NOBITS \<or> ed_data ?d = []")
      case True
      have "sh_size ?h = 0" if "ed_data ?d = []" "ed_type ?d \<noteq> SHT_NULL" "ed_type ?d \<noteq> SHT_NOBITS"
        using that ho rd by (auto simp: elf_header_ok_def elf_header_of_def elf_desc_readable_def elf_file_size_def)
      then show ?thesis
        using True rd by (auto simp: elf_read_content_def hd shdr_fields ty Let_def elf_desc_readable_def elf_desc_ok_def read_at_def)
    next
      case False
      then have "(?d, ?h) \<in> set (filter (\<lambda>(d, h). \<not> ed_isNoBits d \<and> ed_data d \<noteq> []) (zip descs hs))"
        using rd i b(6) by (auto simp: elf_desc_readable_def in_set_zip)
      then have "(unat (sh_offset ?h), ed_data ?d) \<in> set blocks"
        by (force simp: b(4) elf_content_blocks_def)
      note r = blk [OF this]
      have "length (ed_data ?d) < 2 ^ 64"
      proof -
        have "unat (ed_align ?d) + length (ed_data ?d) \<le> elf_need descs"
          unfolding elf_need_def by (rule member_le_sum_list) (use i in auto)
        then show ?thesis using small by simp
      qed
      then have "unat (sh_size ?h) = length (ed_data ?d)"
        using False ho rd by (auto simp: elf_header_ok_def elf_header_of_def elf_desc_readable_def elf_file_size_def unat_of_nat)
      then show ?thesis
        using False r by (simp add: elf_read_content_def hd shdr_fields ty Let_def)
    qed
    then show ?thesis using hd ho by blast
  qed
  then show ?thesis using fields by blast
qed

section \<open>String tables\<close>

lemma addString_ok:
  assumes "addString tab s = (tab', off)" "tab \<noteq> []" "hd tab = 0"
  shows "\<exists>rest. tab' = tab @ rest \<and> length rest \<le> length s + 1 \<and> (length tab < 2 ^ 32 \<longrightarrow> cstring_at tab' (unat off) s)"
proof (cases "s = []")
  case True
  have "cstring_at tab 0 []"
    unfolding cstring_at_def using assms(2,3) by (intro exI [of _ "[]"] exI [of _ "tl tab"]) (cases tab; simp add: str_bytes_def)
  then show ?thesis using True assms by (simp add: addString_def)
next
  case False
  have "cstring_at (tab @ str_bytes s @ [0]) (length tab) s"
    unfolding cstring_at_def by blast
  then show ?thesis using False assms by (auto simp: addString_def unat_of_nat)
qed

definition names_size :: "string list \<Rightarrow> nat" where
  "names_size ns = sum_list (map (\<lambda>n. length n + 1) ns)"

lemma names_size_simps [simp]: "names_size [] = 0" "names_size (n # ns) = length n + 1 + names_size ns"
  "names_size (xs @ ys) = names_size xs + names_size ys"
  by (simp_all add: names_size_def)

lemma elf_section_names_ok:
  assumes "elf_section_names ns tab = (tab', offs)" "tab \<noteq> []" "hd tab = 0" "length tab + names_size ns < 2 ^ 32"
  shows "length offs = length ns \<and> (\<exists>rest. tab' = tab @ rest \<and> length rest \<le> names_size ns) \<and>
    (\<forall>i < length ns. cstring_at tab' (unat (offs ! i)) (ns ! i))"
  using assms
proof (induction ns arbitrary: tab offs)
  case Nil
  then show ?case by simp
next
  case (Cons n ns)
  obtain tab1 o1 where a: "addString tab n = (tab1, o1)" by (metis prod.exhaust)
  from addString_ok [OF a Cons.prems(2,3)] obtain r1 where
    r1: "tab1 = tab @ r1" "length r1 \<le> length n + 1" and c1: "length tab < 2 ^ 32 \<longrightarrow> cstring_at tab1 (unat o1) n" by blast
  obtain offs' where o: "elf_section_names ns tab1 = (tab', offs')" "offs = o1 # offs'"
    using Cons.prems(1) a by (auto split: prod.splits)
  have "tab1 \<noteq> []" "hd tab1 = 0" "length tab1 + names_size ns < 2 ^ 32" using r1 Cons.prems by auto
  from Cons.IH [OF o(1) this] obtain r2 where
    I: "length offs' = length ns" "tab' = tab1 @ r2" "length r2 \<le> names_size ns"
      "\<forall>i < length ns. cstring_at tab' (unat (offs' ! i)) (ns ! i)" by blast
  have "cstring_at tab' (unat o1) n" using c1 Cons.prems(4) by (simp add: I(2) cstring_at_append)
  then show ?case using I r1 o(2) by (auto simp: nth_Cons split: nat.split)
qed

section \<open>The section list\<close>

text \<open>The sizes of the writer's inputs.\<close>

definition elf_section_size :: "section_map \<Rightarrow> section_type \<Rightarrow> nat" where
  "elf_section_size sections t = (case sections t of None \<Rightarrow> 0 | Some s \<Rightarrow> length (getData s) + getAlignment s)"

definition elf_input_size :: "elf_writer \<Rightarrow> section_map \<Rightarrow> nat" where
  "elf_input_size w sections =
     elf_section_size sections Text + elf_section_size sections ReadOnly + elf_section_size sections DataSec
     + elf_section_size sections NonInitialized + names_size (map os_name (ew_symbols w))
     + 24 * length (ew_symbols w) + 24 * length (ew_relocs w)"

definition elf_section_names_used :: "string set" where
  "elf_section_names_used = {[], ''.text'', ''.rodata'', ''.data'', ''.bss'', ''.rela.text'', ''.symtab'', ''.strtab'',
     ''.shstrtab''}"

lemma names_used: "n \<in> elf_section_names_used \<Longrightarrow> nul_free n \<and> length n \<le> 10"
  by (auto simp: elf_section_names_used_def nul_free_def str_bytes_def)

definition elf_code_desc :: "section_type \<Rightarrow> code_section \<Rightarrow> elf_desc" where
  "elf_code_desc t sec =
     (if t = Text then elf_section_desc Text ''.text'' SHT_PROGBITS (SHF_ALLOC OR SHF_EXECINSTR) 16 sec
      else if t = ReadOnly then elf_section_desc ReadOnly ''.rodata'' SHT_PROGBITS SHF_ALLOC 16 sec
      else if t = DataSec then elf_section_desc DataSec ''.data'' SHT_PROGBITS (SHF_ALLOC OR SHF_WRITE) 8 sec
      else elf_section_desc NonInitialized ''.bss'' SHT_NOBITS (SHF_ALLOC OR SHF_WRITE) 8 sec)"

abbreviation elf_emitted :: "section_type set" where
  "elf_emitted \<equiv> {Text, ReadOnly, DataSec, NonInitialized}"

lemma elf_section_desc_need:
  "getAlignment sec < 2 ^ 64 \<Longrightarrow>
   elf_need [elf_section_desc t n ty fl al sec] \<le> length (getData sec) + getAlignment sec + unat al"
  by (simp add: elf_section_desc_def elf_desc_default_def Let_def unat_of_nat)

definition elf_secs_ok :: "section_map \<Rightarrow> section_type set \<Rightarrow> elf_sections \<Rightarrow> bool" where
  "elf_secs_ok sections T st \<longleftrightarrow> (case st of (descs, idx) \<Rightarrow>
     length descs \<le> 1 + card T \<and> descs \<noteq> [] \<and>
     (\<forall>d \<in> set descs. elf_desc_readable d \<and> ed_name d \<in> elf_section_names_used) \<and>
     (\<forall>t. idx t \<noteq> None \<longleftrightarrow> t \<in> T \<and> sections t \<noteq> None) \<and>
     (\<forall>t i. idx t = Some i \<longrightarrow> unat i < length descs \<and> (\<exists>sec. sections t = Some sec \<and> descs ! unat i = elf_code_desc t sec)))"

lemma processCodeSection_ok:
  assumes "elf_secs_ok sections T st" "t \<notin> T" "finite T" "card T < 100"
    and "\<And>sec. elf_section_desc t n ty fl al sec = elf_code_desc t sec"
    and "\<And>sec. elf_desc_readable (elf_code_desc t sec) \<and> ed_name (elf_code_desc t sec) \<in> elf_section_names_used"
  shows "elf_secs_ok sections (insert t T) (processCodeSection sections t n ty fl al st)"
proof -
  obtain descs idx where st: "st = (descs, idx)" by (metis prod.exhaust)
  have u: "unat (of_nat (length descs) :: u16) = length descs"
    using assms(1,4) by (simp add: elf_secs_ok_def st unat_of_nat)
  show ?thesis
  proof (cases "sections t")
    case None
    then show ?thesis
      using assms(1-4) by (auto simp: elf_secs_ok_def st processCodeSection_def)
  next
    case (Some sec)
    show ?thesis
      using assms(1-4) u assms(6) [of sec]
      by (auto simp: elf_secs_ok_def st processCodeSection_def Some assms(5) nth_append less_Suc_eq)
  qed
qed

lemma elf_code_desc_ok:
  "elf_desc_readable (elf_code_desc t sec) \<and> ed_name (elf_code_desc t sec) \<in> elf_section_names_used"
  by (simp add: elf_code_desc_def elf_section_desc_def elf_desc_default_def elf_desc_readable_def elf_desc_ok_def
      elf_constants elf_section_names_used_def Let_def)

lemma elf_code_sections_shape: "elf_secs_ok sections elf_emitted (elf_code_sections sections)"
proof -
  have z: "elf_secs_ok sections {} ([elf_null_desc], Map.empty)"
    by (simp add: elf_secs_ok_def elf_null_desc_def elf_desc_default_def elf_desc_readable_def elf_desc_ok_def
        elf_constants elf_section_names_used_def)
  have e: "elf_emitted = insert NonInitialized (insert DataSec (insert ReadOnly (insert Text {})))" by auto
  show ?thesis
    unfolding elf_code_sections_def Let_def e
    by (intro processCodeSection_ok z elf_code_desc_ok) (simp_all add: elf_code_desc_def)
qed

lemma elf_code_sections_need:
  assumes "elf_code_sections sections = (descs, idx)" "\<forall>t \<in> elf_emitted. elf_section_size sections t < 2 ^ 64"
  shows "elf_need descs \<le> elf_section_size sections Text + elf_section_size sections ReadOnly
    + elf_section_size sections DataSec + elf_section_size sections NonInitialized + 64"
proof -
  have one: "elf_need (fst (processCodeSection sections t n ty fl al st)) \<le> elf_need (fst st) + elf_section_size sections t + 16"
    if "t \<in> elf_emitted" "unat al \<le> 16" for t n ty fl al st
  proof (cases "sections t")
    case None
    then show ?thesis by (cases st) (simp add: processCodeSection_def)
  next
    case (Some sec)
    have "getAlignment sec < 2 ^ 64" using assms(2) that(1) Some by (auto simp: elf_section_size_def)
    from elf_section_desc_need [OF this, of t n ty fl al] show ?thesis
      using that(2) by (cases st) (simp add: processCodeSection_def Some elf_section_size_def)
  qed
  define s0 :: elf_sections where "s0 = ([elf_null_desc], Map.empty)"
  define s1 where "s1 = processCodeSection sections Text ''.text'' SHT_PROGBITS (SHF_ALLOC OR SHF_EXECINSTR) 16 s0"
  define s2 where "s2 = processCodeSection sections ReadOnly ''.rodata'' SHT_PROGBITS SHF_ALLOC 16 s1"
  define s3 where "s3 = processCodeSection sections DataSec ''.data'' SHT_PROGBITS (SHF_ALLOC OR SHF_WRITE) 8 s2"
  define s4 where "s4 = processCodeSection sections NonInitialized ''.bss'' SHT_NOBITS (SHF_ALLOC OR SHF_WRITE) 8 s3"
  have "elf_need (fst s0) = 0" by (simp add: s0_def elf_null_desc_def elf_desc_default_def)
  moreover have "elf_need (fst s1) \<le> elf_need (fst s0) + elf_section_size sections Text + 16"
    unfolding s1_def by (rule one) simp_all
  moreover have "elf_need (fst s2) \<le> elf_need (fst s1) + elf_section_size sections ReadOnly + 16"
    unfolding s2_def by (rule one) simp_all
  moreover have "elf_need (fst s3) \<le> elf_need (fst s2) + elf_section_size sections DataSec + 16"
    unfolding s3_def by (rule one) simp_all
  moreover have "elf_need (fst s4) \<le> elf_need (fst s3) + elf_section_size sections NonInitialized + 16"
    unfolding s4_def by (rule one) simp_all
  moreover have "fst s4 = descs"
    using assms(1) by (simp add: elf_code_sections_def s0_def s1_def s2_def s3_def s4_def Let_def)
  ultimately show ?thesis by simp
qed

section \<open>The symbol table\<close>

definition elf_sym_entry :: "(section_type \<rightharpoonup> u16) \<Rightarrow> u8 list \<Rightarrow> object_symbol \<Rightarrow> elf_sym \<Rightarrow> bool" where
  "elf_sym_entry idx strtab s e \<longleftrightarrow>
     cstring_at strtab (unat (st_name e)) (os_name s) \<and> st_info e = elf_st_info s \<and> st_other e = 0 \<and>
     elf_shndx idx s = Some (st_shndx e) \<and> st_value e = os_offset s \<and> st_size e = os_size s"

lemma elf_sym_entry_append: "elf_sym_entry idx strtab s e \<Longrightarrow> elf_sym_entry idx (strtab @ rest) s e"
  by (simp add: elf_sym_entry_def cstring_at_append)

lemma elf_build_symbols_ok:
  assumes "elf_build_symbols idx syms (strtab, table, si) = Inr (strtab', table', si')" "strtab \<noteq> []" "hd strtab = 0"
    "length strtab + names_size (map os_name syms) < 2 ^ 32" "length table + length syms < 2 ^ 32"
  shows "\<exists>entries rest. table' = table @ entries \<and> strtab' = strtab @ rest \<and>
    length rest \<le> names_size (map os_name syms) \<and> list_all2 (elf_sym_entry idx strtab') syms entries \<and>
    (\<forall>n k. si' n = Some k \<longrightarrow> si n = Some k \<or> (\<exists>i < length syms. unat k = length table + i \<and> os_name (syms ! i) = n)) \<and>
    (\<forall>n. si' n \<noteq> None \<longleftrightarrow> si n \<noteq> None \<or> n \<in> os_name ` set syms)"
  using assms
proof (induction syms arbitrary: strtab table si)
  case Nil
  then show ?case by simp
next
  case (Cons s syms)
  obtain tab1 nm where a: "addString strtab (os_name s) = (tab1, nm)" by (metis prod.exhaust)
  from addString_ok [OF a Cons.prems(2,3)] Cons.prems(4) obtain r1 where
    r1: "tab1 = strtab @ r1" "length r1 \<le> length (os_name s) + 1" and c1: "cstring_at tab1 (unat nm) (os_name s)" by auto
  obtain sh where sh: "elf_shndx idx s = Some sh"
    using Cons.prems(1) a by (cases "elf_shndx idx s") auto
  define e where "e = \<lparr>st_name = nm, st_info = elf_st_info s, st_other = 0, st_shndx = sh, st_value = os_offset s,
    st_size = os_size s\<rparr>"
  define si1 where "si1 = si(os_name s \<mapsto> of_nat (length table))"
  have go: "elf_build_symbols idx syms (tab1, table @ [e], si1) = Inr (strtab', table', si')"
    using Cons.prems(1) a sh by (simp add: e_def si1_def)
  have "tab1 \<noteq> []" "hd tab1 = 0" "length tab1 + names_size (map os_name syms) < 2 ^ 32"
    "length (table @ [e]) + length syms < 2 ^ 32" using r1 Cons.prems by auto
  from Cons.IH [OF go this] obtain entries r2 where
    I: "table' = table @ e # entries" "strtab' = tab1 @ r2" "length r2 \<le> names_size (map os_name syms)"
      "list_all2 (elf_sym_entry idx strtab') syms entries"
      "\<And>n k. si' n = Some k \<Longrightarrow> si1 n = Some k \<or> (\<exists>i < length syms. unat k = length table + Suc i \<and> os_name (syms ! i) = n)"
      "\<And>n. si' n \<noteq> None \<longleftrightarrow> si1 n \<noteq> None \<or> n \<in> os_name ` set syms" by auto
  have "elf_sym_entry idx tab1 s e" using c1 sh by (simp add: elf_sym_entry_def e_def)
  then have ent: "elf_sym_entry idx strtab' s e" by (simp add: I(2) elf_sym_entry_append)
  have u: "unat (of_nat (length table) :: u32) = length table" using Cons.prems(5) by (simp add: unat_of_nat)
  have idx: "si n = Some k \<or> (\<exists>i < length (s # syms). unat k = length table + i \<and> os_name ((s # syms) ! i) = n)"
    if "si' n = Some k" for n k
    using I(5) [OF that]
  proof
    assume "si1 n = Some k"
    then show ?thesis using u by (auto simp: si1_def split: if_splits)
  next
    assume "\<exists>i < length syms. unat k = length table + Suc i \<and> os_name (syms ! i) = n"
    then obtain i where "i < length syms" "unat k = length table + Suc i" "os_name (syms ! i) = n" by blast
    then show ?thesis by (intro disjI2 exI [of _ "Suc i"]) simp
  qed
  have dm: "si' n \<noteq> None \<longleftrightarrow> si n \<noteq> None \<or> n \<in> os_name ` set (s # syms)" for n
    using I(6) [of n] by (auto simp: si1_def)
  have sz: "length (r1 @ r2) \<le> names_size (map os_name (s # syms))" using r1(2) I(3) by simp
  show ?case
    by (rule exI [of _ "e # entries"], rule exI [of _ "r1 @ r2"])
      (use I(1,2,4) r1(1) ent idx dm sz in \<open>simp del: names_size_simps\<close>)
qed

lemma elf_build_symbols_error:
  "(\<exists>e. elf_build_symbols idx syms st = Inl e) \<longleftrightarrow> (\<exists>s \<in> set syms. elf_shndx idx s = None)"
  by (induction syms arbitrary: st) (auto split: prod.splits option.splits)

lemma elf_sorted_set: "set (elf_sorted_symbols syms) = set syms" "length (elf_sorted_symbols syms) = length syms"
  by (auto simp: elf_sorted_symbols_def sum_length_filter_compl)

lemma elf_sorted_names: "names_size (map os_name (elf_sorted_symbols syms)) = names_size (map os_name syms)"
  by (induction syms) (auto simp: elf_sorted_symbols_def)

lemma elf_bind: "drop_bit 4 (elf_st_info s) = STB_LOCAL \<longleftrightarrow> elf_is_local s"
  by (simp add: elf_st_info_def elf_is_local_def elf_constants Let_def)

lemma elf_sorted_local:
  "i < length (elf_sorted_symbols syms) \<Longrightarrow>
   elf_is_local (elf_sorted_symbols syms ! i) \<longleftrightarrow> i < length (filter elf_is_local syms)"
proof -
  assume i: "i < length (elf_sorted_symbols syms)"
  let ?l = "filter elf_is_local syms" and ?g = "filter (\<lambda>s. \<not> elf_is_local s) syms"
  show ?thesis
  proof (cases "i < length ?l")
    case True
    then have "?l ! i \<in> set ?l" by (rule nth_mem)
    then show ?thesis using True by (simp add: elf_sorted_symbols_def nth_append)
  next
    case False
    then have "?g ! (i - length ?l) \<in> set ?g" using i by (intro nth_mem) (simp add: elf_sorted_symbols_def)
    then show ?thesis using False by (simp add: elf_sorted_symbols_def nth_append)
  qed
qed

lemma elf_sorted_num_locals:
  "length syms < 2 ^ 32 \<Longrightarrow> unat (elf_num_locals (elf_sorted_symbols syms)) = length (filter elf_is_local syms)"
proof -
  assume "length syms < 2 ^ 32"
  then have "length (filter elf_is_local syms) < 2 ^ 32"
    using length_filter_le [of elf_is_local syms] by linarith
  moreover have "filter elf_is_local (elf_sorted_symbols syms) = filter elf_is_local syms"
    by (simp add: elf_sorted_symbols_def filter_id_conv)
  ultimately show ?thesis by (simp add: elf_num_locals_def unat_of_nat)
qed

text \<open>The result of building the symbol table from an empty one.\<close>

lemma elf_symbols_built:
  assumes "elf_build_symbols idx (elf_sorted_symbols syms) ([0], [elf_null_sym], Map.empty) = Inr (strtab, table, si)"
    "names_size (map os_name syms) + 1 < 2 ^ 32" "length syms + 1 < 2 ^ 32"
  shows "length table = length syms + 1 \<and> table ! 0 = elf_null_sym \<and> length strtab \<le> 1 + names_size (map os_name syms) \<and>
    (\<forall>i < length syms. elf_sym_entry idx strtab (elf_sorted_symbols syms ! i) (table ! Suc i)) \<and>
    (\<forall>n k. si n = Some k \<longrightarrow> (\<exists>i < length syms. unat k = Suc i \<and> os_name (elf_sorted_symbols syms ! i) = n)) \<and>
    (\<forall>n. si n \<noteq> None \<longleftrightarrow> n \<in> os_name ` set syms)"
proof -
  from elf_build_symbols_ok [OF assms(1)] assms(2,3) obtain entries rest where
    "table = elf_null_sym # entries" "strtab = 0 # rest" "length rest \<le> names_size (map os_name syms)"
    "list_all2 (elf_sym_entry idx strtab) (elf_sorted_symbols syms) entries"
    "\<forall>n k. si n = Some k \<longrightarrow> (\<exists>i < length syms. unat k = Suc i \<and> os_name (elf_sorted_symbols syms ! i) = n)"
    "\<forall>n. si n \<noteq> None \<longleftrightarrow> n \<in> os_name ` set syms"
    by (auto simp: elf_sorted_names elf_sorted_set)
  then show ?thesis
    using list_all2_lengthD [of _ _ entries] by (auto simp: elf_sorted_set list_all2_conv_all_nth)
qed

section \<open>The complete section list\<close>

lemma elf_link_sections_map:
  assumes "\<And>d l. f (d\<lparr>ed_link := l\<rparr>) = f d"
  shows "map f (elf_link_sections descs a b) = map f descs"
proof -
  have "map f (descs[n := (descs ! n)\<lparr>ed_link := b\<rparr>]) = map f descs" for n
    by (cases "n < length descs") (simp_all add: map_update assms list_update_same_conv list_update_beyond)
  then show ?thesis
    by (simp add: elf_link_sections_def Let_def assms o_def if_distrib [of f] cong: if_cong)
qed

text \<open>Everything of a section but its link.\<close>

definition elf_view :: "elf_desc \<Rightarrow> string \<times> u32 \<times> u64 \<times> u64 \<times> u64 \<times> u32 \<times> u8 list \<times> bool \<times> u64" where
  "elf_view d = (ed_name d, ed_type d, ed_flags d, ed_align d, ed_entsize d, ed_info d, ed_data d, ed_isNoBits d,
     ed_noBitsSize d)"

lemma elf_view_link: "elf_view (d\<lparr>ed_link := l\<rparr>) = elf_view d"
  by (simp add: elf_view_def)

definition elf_tail ::
  "(section_type \<rightharpoonup> u16) \<Rightarrow> object_reloc list \<Rightarrow> u16 \<Rightarrow> u32 \<Rightarrow> elf_symbols \<Rightarrow> elf_desc list" where
  "elf_tail idx relocs machine numLocals syms =
     (case syms of (strtab, table, si) \<Rightarrow>
        (if relocs \<noteq> [] then [elf_rela_desc (map (elf_rela_entry si machine) relocs)
           (case idx Text of Some i \<Rightarrow> i | None \<Rightarrow> 0)] else [])
        @ [elf_symtab_desc table numLocals, elf_strtab_desc ''.strtab'' strtab])"

lemma elf_all_sections_view:
  "map elf_view (elf_all_sections (descs, idx) relocs machine numLocals syms) =
     map elf_view (descs @ elf_tail idx relocs machine numLocals syms)"
  unfolding elf_all_sections_def
  by (auto simp: Let_def elf_link_sections_map elf_view_link elf_tail_def split: prod.split)

lemma elf_view_need: "map elf_view xs = map elf_view ys \<Longrightarrow> elf_need xs = elf_need ys"
proof -
  assume e: "map elf_view xs = map elf_view ys"
  have "elf_need zs = sum_list (map (\<lambda>(n, ty, fl, al, en, inf, dat, nb, sz). unat al + length dat) (map elf_view zs))" for zs
    by (simp add: elf_need_def elf_view_def o_def)
  then show ?thesis by (simp only: e)
qed

lemma elf_view_readable: "elf_view d = elf_view d' \<Longrightarrow> elf_desc_readable d = elf_desc_readable d' \<and> ed_name d = ed_name d'"
  by (simp add: elf_view_def elf_desc_readable_def elf_desc_ok_def)

lemma sym_bytes_length [simp]: "length (sym_bytes s) = 24"
  by (simp add: sym_bytes_def)

lemma rela_bytes_length [simp]: "length (rela_bytes s) = 24"
  by (simp add: rela_bytes_def)

lemma elf_tail_ok:
  "d \<in> set (elf_tail idx relocs machine numLocals syms) \<Longrightarrow> elf_desc_readable d \<and> ed_name d \<in> elf_section_names_used"
  by (auto simp: elf_tail_def elf_rela_desc_def elf_symtab_desc_def elf_strtab_desc_def elf_desc_default_def
      elf_desc_readable_def elf_desc_ok_def elf_constants elf_section_names_used_def split: prod.splits if_splits)

lemma elf_tail_need:
  "elf_need (elf_tail idx relocs machine numLocals (strtab, table, si)) \<le> 24 * length relocs + 24 * length table + length strtab + 17"
  using table_length [of table sym_bytes 24] table_length [of "map (elf_rela_entry si machine) relocs" rela_bytes 24]
  by (simp add: elf_tail_def elf_rela_desc_def elf_symtab_desc_def elf_strtab_desc_def elf_desc_default_def o_def)

lemma elf_tail_length: "length (elf_tail idx relocs machine numLocals syms) \<le> 3"
  by (auto simp: elf_tail_def split: prod.split)

text \<open>The sections of a file: readable, with the names used, in a bounded number and space.\<close>

lemma elf_all_sections_ok:
  assumes code: "elf_code_sections sections = (descs, idx)" and size: "elf_input_size w sections < 2 ^ 31"
    and syms: "length strtab \<le> 1 + names_size (map os_name (ew_symbols w))" "length table = length (ew_symbols w) + 1"
    and all: "all = elf_all_sections (descs, idx) (ew_relocs w) m nl (strtab, table, si)"
  shows "length all \<le> 8 \<and> elf_need all < 2 ^ 31 + 200 \<and>
    (\<forall>d \<in> set all. elf_desc_readable d \<and> ed_name d \<in> elf_section_names_used)"
proof -
  let ?tail = "elf_tail idx (ew_relocs w) m nl (strtab, table, si)"
  have v: "map elf_view all = map elf_view (descs @ ?tail)" unfolding all by (rule elf_all_sections_view)
  have shape: "length descs \<le> 5" "\<forall>d \<in> set descs. elf_desc_readable d \<and> ed_name d \<in> elf_section_names_used"
    using elf_code_sections_shape [of sections] by (auto simp: code elf_secs_ok_def)
  have "length all = length descs + length ?tail" using arg_cong [OF v, of length] by simp
  then have len: "length all \<le> 8" using shape(1) elf_tail_length [of idx "ew_relocs w" m nl "(strtab, table, si)"] by linarith
  have nd: "elf_need descs \<le> elf_section_size sections Text + elf_section_size sections ReadOnly
      + elf_section_size sections DataSec + elf_section_size sections NonInitialized + 64"
    by (rule elf_code_sections_need [OF code]) (use size in \<open>auto simp: elf_input_size_def\<close>)
  have "elf_need all = elf_need descs + elf_need ?tail" using elf_view_need [OF v] by simp
  then have need: "elf_need all < 2 ^ 31 + 200"
    using nd elf_tail_need [of idx "ew_relocs w" m nl strtab table si] syms size by (simp add: elf_input_size_def)
  have "elf_desc_readable d \<and> ed_name d \<in> elf_section_names_used" if "d \<in> set all" for d
  proof -
    have "elf_view d \<in> set (map elf_view (descs @ ?tail))" unfolding v [symmetric] using that by simp
    then obtain d' where "d' \<in> set (descs @ ?tail)" "elf_view d = elf_view d'" by auto
    then show ?thesis using shape(2) elf_tail_ok elf_view_readable [of d d'] by auto
  qed
  then show ?thesis using len need by blast
qed

section \<open>Reading the file\<close>

text \<open>The reader finds section \<open>d\<close> at index \<open>i\<close>: its name, the fields of its header, its contents,
  and an offset that is a multiple of its alignment when that is a power of two.\<close>

definition elf_reads_as :: "u8 list \<Rightarrow> nat \<Rightarrow> elf_desc \<Rightarrow> bool" where
  "elf_reads_as f i d \<longleftrightarrow> (let h = elf_read_header f i in
     elf_read_name f i = str_bytes (ed_name d) \<and> elf_read_content f i = ed_data d \<and>
     file_u32 h 4 = ed_type d \<and> file_u64 h 8 = ed_flags d \<and> file_u64 h 16 = 0 \<and> file_u64 h 32 = elf_file_size d \<and>
     file_u32 h 40 = ed_link d \<and> file_u32 h 44 = ed_info d \<and> file_u64 h 48 = ed_align d \<and> file_u64 h 56 = ed_entsize d \<and>
     (ed_type d \<noteq> SHT_NULL \<longrightarrow> (\<forall>k<64. ed_align d = 2 ^ k \<longrightarrow> 2 ^ k dvd unat (file_u64 h 24))))"

lemma elf_reads_asI:
  assumes "elf_read_header f i = shdr_bytes h" "elf_header_ok d n h" "elf_read_content f i = ed_data d"
    "unat (file_u16 f 62) = k" "elf_read_content f k = tab" "cstring_at tab (unat n) (ed_name d)" "nul_free (ed_name d)"
  shows "elf_reads_as f i d"
proof -
  obtain off where h: "h = elf_header_of d n off (elf_file_size d)"
    "ed_type d \<noteq> SHT_NULL \<longrightarrow> (\<forall>k<64. ed_align d = 2 ^ k \<longrightarrow> 2 ^ k dvd unat off)"
    using assms(2) by (auto simp: elf_header_ok_def)
  have "elf_read_name f i = str_bytes (ed_name d)"
    using cstring_at_read [OF assms(6,7)] by (simp add: elf_read_name_def assms(1,4,5) shdr_fields h(1) elf_header_of_def)
  then show ?thesis
    using h(2) by (simp add: elf_reads_as_def Let_def assms(1,3) shdr_fields h(1) elf_header_of_def)
qed

text \<open>The image of a section list followed by the string table of its names.\<close>

lemma elf_named_image_reads:
  assumes nm: "elf_section_names (map ed_name all @ [''.shstrtab'']) [0] = (shstrtab, names)"
    and f: "f = elf_image m (all @ [elf_strtab_desc ''.shstrtab'' shstrtab]) names (of_nat (length all))"
    and all: "length all \<le> 8" "elf_need all < 2 ^ 31 + 200" "\<forall>d \<in> set all. elf_desc_readable d \<and> ed_name d \<in> elf_section_names_used"
  shows "read_at 0 4 f = [0x7F, 0x45, 0x4C, 0x46] \<and> file_u16 f 18 = m \<and> unat (file_u16 f 60) = length all + 1 \<and>
    (\<forall>i < length all. elf_reads_as f i (all ! i))"
proof -
  let ?ns = "map ed_name all @ [''.shstrtab'']"
  define full where "full = all @ [elf_strtab_desc ''.shstrtab'' shstrtab]"
  have "\<forall>n \<in> set ?ns. length n + 1 \<le> 11"
    using all(3) names_used by (auto simp: elf_section_names_used_def)
  then have "names_size ?ns \<le> sum_list (map (\<lambda>_. 11) ?ns)"
    unfolding names_size_def by (intro sum_list_mono) blast
  then have ns: "names_size ?ns \<le> 99" using all(1) by (simp add: o_def sum_list_triv)
  from elf_section_names_ok [OF nm] ns obtain rest where
    no: "length names = length all + 1" "shstrtab = [0] @ rest" "length rest \<le> 99"
      "\<forall>i < length all + 1. cstring_at shstrtab (unat (names ! i)) (?ns ! i)" by auto
  have rd: "\<forall>d \<in> set full. elf_desc_readable d"
    using all(3) by (auto simp: full_def elf_strtab_desc_def elf_desc_default_def elf_desc_readable_def elf_desc_ok_def elf_constants)
  have len: "length names = length full" "length full = length all + 1" using no(1) by (simp_all add: full_def)
  have "elf_need full < 2 ^ 31 + 400"
    using all(2) no(2,3) by (simp add: full_def elf_strtab_desc_def elf_desc_default_def)
  then have small: "elf_need full + 64 * length full + 200 < 2 ^ 64" "length full < 2 ^ 16" using all(1) len by simp_all
  obtain hs off where lay: "elf_layout (zip full names) 64 = (hs, off)" by (metis prod.exhaust)
  note R = elf_image_reads [OF lay len(1) small rd f [folded full_def]]
  have x: "unat (file_u16 f 62) = length all" using R all(1) by (simp add: unat_of_nat)
  have last: "elf_read_content f (length all) = shstrtab"
    using R len by (simp add: full_def elf_strtab_desc_def)
  have "elf_reads_as f i (all ! i)" if i: "i < length all" for i
  proof (rule elf_reads_asI [where tab = shstrtab and k = "length all" and n = "names ! i" and h = "hs ! i"])
    have d: "full ! i = all ! i" using i by (simp add: full_def nth_append)
    have "i < length full" using i len by simp
    with R d show "elf_read_header f i = shdr_bytes (hs ! i)" "elf_header_ok (all ! i) (names ! i) (hs ! i)"
      "elf_read_content f i = ed_data (all ! i)" by auto
    have "?ns ! i = ed_name (all ! i)" using i by (simp add: nth_append)
    moreover have "i < length all + 1" using i by simp
    ultimately show "cstring_at shstrtab (unat (names ! i)) (ed_name (all ! i))" using no(4) by metis
    show "nul_free (ed_name (all ! i))" using all(3) i names_used nth_mem by blast
  qed (use x last in simp_all)
  then show ?thesis using R len by simp
qed

text \<open>What the writer builds.\<close>

lemma elf_write_unfold:
  assumes "elf_code_sections sections = (descs, idx)"
  shows "elf_write w sections =
    (case elf_build_symbols idx (elf_sorted_symbols (ew_symbols w)) ([0], [elf_null_sym], Map.empty) of
      Inl e \<Rightarrow> Inl e | Inr syms \<Rightarrow>
      let all = elf_all_sections (descs, idx) (ew_relocs w) (ew_machine w) (elf_num_locals (elf_sorted_symbols (ew_symbols w))) syms;
          (shstrtab, names) = elf_section_names (map ed_name all @ [''.shstrtab'']) [0]
      in Inr (elf_image (ew_machine w) (all @ [elf_strtab_desc ''.shstrtab'' shstrtab]) names (of_nat (length all))))"
proof -
  have z: "addString [] [] = ([0], 0)" by (simp add: addString_def)
  show ?thesis unfolding elf_write_def assms(1) z
    by (cases "elf_build_symbols idx (elf_sorted_symbols (ew_symbols w)) ([0], [elf_null_sym], Map.empty)") (simp_all add: Let_def)
qed

lemma elf_write_parts:
  assumes "elf_write w sections = Inr f" "elf_code_sections sections = (descs, idx)"
  shows "\<exists>strtab table si all shstrtab names.
    elf_build_symbols idx (elf_sorted_symbols (ew_symbols w)) ([0], [elf_null_sym], Map.empty) = Inr (strtab, table, si) \<and>
    all = elf_all_sections (descs, idx) (ew_relocs w) (ew_machine w) (elf_num_locals (elf_sorted_symbols (ew_symbols w)))
            (strtab, table, si) \<and>
    elf_section_names (map ed_name all @ [''.shstrtab'']) [0] = (shstrtab, names) \<and>
    f = elf_image (ew_machine w) (all @ [elf_strtab_desc ''.shstrtab'' shstrtab]) names (of_nat (length all))"
proof -
  let ?b = "elf_build_symbols idx (elf_sorted_symbols (ew_symbols w)) ([0], [elf_null_sym], Map.empty)"
  let ?all = "\<lambda>syms. elf_all_sections (descs, idx) (ew_relocs w) (ew_machine w)
    (elf_num_locals (elf_sorted_symbols (ew_symbols w))) syms"
  note w = assms(1) [unfolded elf_write_unfold [OF assms(2)]]
  obtain syms where syms: "?b = Inr syms" using w by (cases ?b) simp_all
  obtain shstrtab names where nm: "elf_section_names (map ed_name (?all syms) @ [''.shstrtab'']) [0] = (shstrtab, names)"
    by (metis prod.exhaust)
  have "f = elf_image (ew_machine w) (?all syms @ [elf_strtab_desc ''.shstrtab'' shstrtab]) names (of_nat (length (?all syms)))"
    using w unfolding syms sum.case Let_def nm prod.case by simp
  then show ?thesis using syms nm by (cases syms) blast
qed

text \<open>The section of an emitted kind.\<close>

lemma elf_code_section_at:
  assumes "elf_code_sections sections = (descs, idx)" "idx t = Some i" "all = elf_all_sections (descs, idx) relocs m nl syms"
  shows "unat i < length all \<and> t \<in> elf_emitted \<and> (\<exists>sec. sections t = Some sec \<and>
    elf_view (all ! unat i) = elf_view (elf_code_desc t sec))"
proof -
  note shape = elf_code_sections_shape [of sections, unfolded assms(1) elf_secs_ok_def prod.case]
  then have "idx t \<noteq> None \<longleftrightarrow> t \<in> elf_emitted \<and> sections t \<noteq> None" by (elim conjE) (erule spec)
  then have em: "t \<in> elf_emitted" using assms(2) by simp
  from shape assms(2) obtain sec where
    s: "unat i < length descs" "sections t = Some sec" "descs ! unat i = elf_code_desc t sec"
    by (elim conjE) blast
  have v: "map elf_view all = map elf_view (descs @ elf_tail idx relocs m nl syms)"
    unfolding assms(3) by (rule elf_all_sections_view)
  have il: "unat i < length all" using s(1) arg_cong [OF v, of length] by simp
  have "elf_view (all ! unat i) = elf_view (descs ! unat i)"
    using arg_cong [OF v, of "\<lambda>xs. xs ! unat i"] il s(1) by (simp add: nth_append)
  then show ?thesis using il s em by simp
qed

text \<open>The sections of an object file by the ELF conventions: name, type and flags of each kind.\<close>

definition elf_kind :: "section_type \<Rightarrow> string \<times> u32 \<times> u64" where
  "elf_kind t =
     (if t = Text then (''.text'', 1, 6) else if t = ReadOnly then (''.rodata'', 1, 2)
      else if t = DataSec then (''.data'', 1, 3) else (''.bss'', 8, 3))"

definition elf_section_is :: "u8 list \<Rightarrow> nat \<Rightarrow> string \<times> u32 \<times> u64 \<Rightarrow> u64 \<Rightarrow> u8 list \<Rightarrow> bool" where
  "elf_section_is f i kind entsize content \<longleftrightarrow> (let h = elf_read_header f i in
     elf_read_name f i = str_bytes (fst kind) \<and> file_u32 h 4 = fst (snd kind) \<and> file_u64 h 8 = snd (snd kind) \<and>
     file_u64 h 16 = 0 \<and> file_u64 h 56 = entsize \<and> elf_read_content f i = content)"

lemma elf_view_fields:
  assumes "elf_view d = elf_view d'"
  shows "ed_name d = ed_name d'" "ed_type d = ed_type d'" "ed_flags d = ed_flags d'" "ed_entsize d = ed_entsize d'"
    "ed_data d = ed_data d'" "elf_file_size d = elf_file_size d'" "ed_align d = ed_align d'"
  using assms by (simp_all add: elf_view_def elf_file_size_def)

lemma elf_reads_as_is:
  "elf_reads_as f i d \<Longrightarrow> elf_section_is f i (ed_name d, ed_type d, ed_flags d) (ed_entsize d) (ed_data d)"
  by (simp add: elf_reads_as_def elf_section_is_def Let_def)

lemma elf_code_desc_fields:
  assumes "t \<in> elf_emitted"
  shows "(ed_name (elf_code_desc t sec), ed_type (elf_code_desc t sec), ed_flags (elf_code_desc t sec)) = elf_kind t"
    "ed_entsize (elf_code_desc t sec) = 0" "ed_data (elf_code_desc t sec) = (if t = NonInitialized then [] else getData sec)"
    "elf_file_size (elf_code_desc t sec) = of_nat (length (getData sec))"
    "getAlignment sec \<noteq> 0 \<Longrightarrow> ed_align (elf_code_desc t sec) = of_nat (getAlignment sec)"
  using assms
  by (auto simp: elf_code_desc_def elf_section_desc_def elf_desc_default_def elf_kind_def elf_file_size_def elf_constants Let_def)

text \<open>The tables behind the code sections.\<close>

lemma elf_tables_at:
  assumes "all = elf_all_sections (descs, idx) relocs m nl (strtab, table, si)" "length all \<le> 8"
  defines "k \<equiv> length all - 2"
  shows "Suc k < length all" "all ! k = (elf_symtab_desc table nl)\<lparr>ed_link := of_nat (Suc k)\<rparr>"
    "all ! Suc k = elf_strtab_desc ''.strtab'' strtab"
    "relocs \<noteq> [] \<Longrightarrow> 0 < k \<and> all ! (k - 1) =
       (elf_rela_desc (map (elf_rela_entry si m) relocs) (case idx Text of Some i \<Rightarrow> i | None \<Rightarrow> 0))\<lparr>ed_link := of_nat k\<rparr>"
proof -
  define front where "front = descs @ (if relocs \<noteq> [] then [elf_rela_desc (map (elf_rela_entry si m) relocs)
    (case idx Text of Some i \<Rightarrow> i | None \<Rightarrow> 0)] else [])"
  have all: "all = elf_link_sections ((front @ [elf_symtab_desc table nl]) @ [elf_strtab_desc ''.strtab'' strtab])
      (of_nat (length front)) (of_nat (Suc (length front)))"
    unfolding assms(1) elf_all_sections_def front_def by (simp add: Let_def add.commute)
  then have len: "length all = length front + 2" by (simp add: elf_link_sections_def Let_def)
  then have k: "k = length front" and n: "unat (of_nat (length front) :: u32) = length front"
    using assms(2) by (simp_all add: k_def unat_of_nat)
  note calc = all elf_link_sections_def Let_def n nth_append list_update_append elf_symtab_desc_def elf_strtab_desc_def
    elf_rela_desc_def elf_desc_default_def elf_constants
  show "Suc k < length all" using len k by simp
  show "all ! k = (elf_symtab_desc table nl)\<lparr>ed_link := of_nat (Suc k)\<rparr>" unfolding k by (simp add: calc)
  show "all ! Suc k = elf_strtab_desc ''.strtab'' strtab" unfolding k by (simp add: calc)
  show "0 < k \<and> all ! (k - 1) =
       (elf_rela_desc (map (elf_rela_entry si m) relocs) (case idx Text of Some i \<Rightarrow> i | None \<Rightarrow> 0))\<lparr>ed_link := of_nat k\<rparr>"
    if "relocs \<noteq> []"
  proof -
    have "front ! (length front - 1) = elf_rela_desc (map (elf_rela_entry si m) relocs) (case idx Text of Some i \<Rightarrow> i | None \<Rightarrow> 0)"
      "0 < length front"
      using that by (simp_all add: front_def)
    then show ?thesis unfolding k by (auto simp: calc)
  qed
qed

lemma elf_shndx_none:
  assumes "elf_code_sections sections = (descs, idx)"
  shows "elf_shndx idx s = None \<longleftrightarrow> os_section s \<noteq> Undefined \<and>
    (os_section s \<notin> elf_emitted \<or> sections (os_section s) = None)"
proof -
  have "idx t \<noteq> None \<longleftrightarrow> t \<in> elf_emitted \<and> sections t \<noteq> None" for t
    using elf_code_sections_shape [of sections, unfolded assms elf_secs_ok_def prod.case] by (elim conjE) (erule spec)
  from this [of "os_section s"] show ?thesis
    by (cases "os_section s = Undefined"; cases "idx (os_section s)") (auto simp: elf_shndx_def)
qed

lemma elf_write_error:
  "(\<exists>e. elf_write w sections = Inl e) \<longleftrightarrow> (\<exists>s \<in> set (ew_symbols w). os_section s \<noteq> Undefined \<and>
     (os_section s \<notin> elf_emitted \<or> sections (os_section s) = None))"
proof -
  obtain descs idx where code: "elf_code_sections sections = (descs, idx)" by (metis prod.exhaust)
  let ?b = "elf_build_symbols idx (elf_sorted_symbols (ew_symbols w)) ([0], [elf_null_sym], Map.empty)"
  have "(\<exists>e. elf_write w sections = Inl e) \<longleftrightarrow> (\<exists>e. ?b = Inl e)"
    unfolding elf_write_unfold [OF code] by (cases ?b) (simp_all add: Let_def split: prod.split)
  then show ?thesis
    by (simp only: elf_build_symbols_error elf_sorted_set elf_shndx_none [OF code])
qed

section \<open>Properties\<close>

text \<open>C29: reading the written file back. It starts with the ELF magic and names the machine; the
  header table has one entry per section of the writer, in which the reader finds the name, type,
  flags, address 0, size (in memory for a section without bytes), link, info, alignment and entry
  size, the contents, and an aligned offset. The section of an emitted kind has the name, type and
  flags of the ELF conventions, its bytes, size and alignment; the last two are the symbol table,
  whose link is the string table behind it, and the relocation table in front of it names both the
  symbol table and the text section.\<close>

theorem elf_write_reads:
  assumes "elf_write w sections = Inr f" "elf_input_size w sections < 2 ^ 31"
  shows "\<exists>descs idx strtab table si all k. elf_code_sections sections = (descs, idx) \<and>
    elf_build_symbols idx (elf_sorted_symbols (ew_symbols w)) ([0], [elf_null_sym], Map.empty) = Inr (strtab, table, si) \<and>
    all = elf_all_sections (descs, idx) (ew_relocs w) (ew_machine w) (elf_num_locals (elf_sorted_symbols (ew_symbols w)))
      (strtab, table, si) \<and>
    read_at 0 4 f = [0x7F, 0x45, 0x4C, 0x46] \<and> file_u16 f 18 = ew_machine w \<and>
    unat (file_u16 f 60) = length all + 1 \<and>
    (\<forall>i < length all. elf_reads_as f i (all ! i)) \<and>
    (\<forall>t i. idx t = Some i \<longrightarrow> (\<exists>sec. sections t = Some sec \<and>
       elf_section_is f (unat i) (elf_kind t) 0 (if t = NonInitialized then [] else getData sec) \<and>
       file_u64 (elf_read_header f (unat i)) 32 = of_nat (length (getData sec)) \<and>
       (getAlignment sec \<noteq> 0 \<longrightarrow> file_u64 (elf_read_header f (unat i)) 48 = of_nat (getAlignment sec)))) \<and>
    elf_section_is f k (''.symtab'', 2, 0) 24 (concat (map sym_bytes table)) \<and>
    file_u32 (elf_read_header f k) 40 = of_nat (Suc k) \<and>
    file_u32 (elf_read_header f k) 44 = 1 + elf_num_locals (elf_sorted_symbols (ew_symbols w)) \<and>
    elf_section_is f (Suc k) (''.strtab'', 3, 0) 0 strtab \<and>
    (ew_relocs w \<noteq> [] \<longrightarrow> 0 < k \<and>
       elf_section_is f (k - 1) (''.rela.text'', 4, 0x40) 24
         (concat (map (\<lambda>r. rela_bytes (elf_rela_entry si (ew_machine w) r)) (ew_relocs w))) \<and>
       file_u32 (elf_read_header f (k - 1)) 40 = of_nat k \<and>
       (\<forall>i. idx Text = Some i \<longrightarrow> file_u32 (elf_read_header f (k - 1)) 44 = ucast i))"
proof -
  let ?nl = "elf_num_locals (elf_sorted_symbols (ew_symbols w))"
  obtain descs idx where code: "elf_code_sections sections = (descs, idx)" by (metis prod.exhaust)
  from elf_write_parts [OF assms(1) code] obtain strtab table si all shstrtab names where
    syms: "elf_build_symbols idx (elf_sorted_symbols (ew_symbols w)) ([0], [elf_null_sym], Map.empty) = Inr (strtab, table, si)"
    and all: "all = elf_all_sections (descs, idx) (ew_relocs w) (ew_machine w) ?nl (strtab, table, si)"
    and nm: "elf_section_names (map ed_name all @ [''.shstrtab'']) [0] = (shstrtab, names)"
    and f: "f = elf_image (ew_machine w) (all @ [elf_strtab_desc ''.shstrtab'' shstrtab]) names (of_nat (length all))"
    by blast
  have sz: "names_size (map os_name (ew_symbols w)) + 1 < 2 ^ 32" "length (ew_symbols w) + 1 < 2 ^ 32"
    using assms(2) by (simp_all add: elf_input_size_def)
  note built = elf_symbols_built [OF syms sz]
  from elf_all_sections_ok [OF code assms(2) _ _ all] built have ok: "length all \<le> 8" "elf_need all < 2 ^ 31 + 200"
    "\<forall>d \<in> set all. elf_desc_readable d \<and> ed_name d \<in> elf_section_names_used" by blast+
  note R = elf_named_image_reads [OF nm f ok]
  then have reads: "elf_reads_as f i (all ! i)" if "i < length all" for i using that by blast
  have kinds: "\<exists>sec. sections t = Some sec \<and>
       elf_section_is f (unat i) (elf_kind t) 0 (if t = NonInitialized then [] else getData sec) \<and>
       file_u64 (elf_read_header f (unat i)) 32 = of_nat (length (getData sec)) \<and>
       (getAlignment sec \<noteq> 0 \<longrightarrow> file_u64 (elf_read_header f (unat i)) 48 = of_nat (getAlignment sec))"
    if ti: "idx t = Some i" for t i
  proof -
    from elf_code_section_at [OF code ti all] obtain sec where
      s: "unat i < length all" "t \<in> elf_emitted" "sections t = Some sec" "elf_view (all ! unat i) = elf_view (elf_code_desc t sec)"
      by blast
    let ?d = "all ! unat i"
    note c = elf_code_desc_fields [OF s(2), of sec]
    have v: "(ed_name ?d, ed_type ?d, ed_flags ?d) = elf_kind t" "ed_entsize ?d = 0"
      "ed_data ?d = (if t = NonInitialized then [] else getData sec)" "elf_file_size ?d = of_nat (length (getData sec))"
      "getAlignment sec \<noteq> 0 \<Longrightarrow> ed_align ?d = of_nat (getAlignment sec)"
      using c elf_view_fields [OF s(4)] by simp_all
    have "elf_section_is f (unat i) (elf_kind t) 0 (if t = NonInitialized then [] else getData sec)"
      using elf_reads_as_is [OF reads [OF s(1)]] unfolding v(1-3) .
    then show ?thesis using reads [OF s(1)] s(3) v(4,5) by (simp add: elf_reads_as_def Let_def)
  qed
  define k where "k = length all - 2"
  note T = elf_tables_at [OF all ok(1), folded k_def]
  have symtab: "elf_section_is f k (''.symtab'', 2, 0) 24 (concat (map sym_bytes table)) \<and>
      file_u32 (elf_read_header f k) 40 = of_nat (Suc k) \<and> file_u32 (elf_read_header f k) 44 = 1 + ?nl"
    using reads [of k] elf_reads_as_is [OF reads [of k]] T(1) unfolding T(2)
    by (simp add: elf_reads_as_def Let_def elf_symtab_desc_def elf_desc_default_def elf_constants)
  have strs: "elf_section_is f (Suc k) (''.strtab'', 3, 0) 0 strtab"
    using elf_reads_as_is [OF reads [OF T(1)]] unfolding T(3)
    by (simp add: elf_strtab_desc_def elf_desc_default_def elf_constants)
  have rela: "0 < k \<and>
       elf_section_is f (k - 1) (''.rela.text'', 4, 0x40) 24
         (concat (map (\<lambda>r. rela_bytes (elf_rela_entry si (ew_machine w) r)) (ew_relocs w))) \<and>
       file_u32 (elf_read_header f (k - 1)) 40 = of_nat k \<and>
       (\<forall>i. idx Text = Some i \<longrightarrow> file_u32 (elf_read_header f (k - 1)) 44 = ucast i)" if "ew_relocs w \<noteq> []"
    using reads [of "k - 1"] elf_reads_as_is [OF reads [of "k - 1"]] T(1) T(4) [OF that]
    by (auto simp: elf_reads_as_def Let_def elf_rela_desc_def elf_desc_default_def elf_constants o_def)
  show ?thesis
    by (intro exI [of _ descs] exI [of _ idx] exI [of _ strtab] exI [of _ "table"] exI [of _ si] exI [of _ all] exI [of _ k])
      (use code syms all R kinds symtab strs rela in blast)
qed

definition elf_demo_section :: code_section where
  "elf_demo_section = (new_section \<lparr>m_readable = True, m_writable = False, m_executable = True\<rparr> Text 16 Little 0x90 ''.text'')
     \<lparr>cs_buffer := [0x90, 0xC3]\<rparr>"

definition elf_demo_symbol :: "string \<Rightarrow> bool \<Rightarrow> object_symbol" where
  "elf_demo_symbol n g = \<lparr>os_name = n, os_section = Text, os_offset = 0, os_size = 2, os_isGlobal = g, os_isWeak = False,
     os_isFunction = True\<rparr>"

definition elf_demo_reloc :: "section_type \<Rightarrow> object_reloc" where
  "elf_demo_reloc t = \<lparr>or_section = t, or_offset = 1, or_symbolName = ''b'', or_type = PCRel32, or_addend = - 4\<rparr>"

definition elf_demo :: elf_writer where
  "elf_demo = \<lparr>ew_symbols = [elf_demo_symbol ''a'' True, elf_demo_symbol ''b'' False],
     ew_relocs = [elf_demo_reloc Text], ew_machine = 62\<rparr>"

lemma elf_demo_index: "snd (elf_code_sections [Text \<mapsto> elf_demo_section]) Text = Some 1"
  by (simp add: elf_code_sections_def processCodeSection_def Let_def)

theorem elf_write_reads_witness:
  "\<exists>f. elf_write elf_demo [Text \<mapsto> elf_demo_section] = Inr f \<and> elf_read_content f 1 = [0x90, 0xC3]"
proof -
  have "\<nexists>e. elf_write elf_demo [Text \<mapsto> elf_demo_section] = Inl e"
    unfolding elf_write_error by (simp add: elf_demo_def elf_demo_symbol_def)
  then obtain f where f: "elf_write elf_demo [Text \<mapsto> elf_demo_section] = Inr f"
    by (cases "elf_write elf_demo [Text \<mapsto> elf_demo_section]") auto
  have "elf_input_size elf_demo [Text \<mapsto> elf_demo_section] < 2 ^ 31"
    by (simp add: elf_input_size_def elf_section_size_def elf_demo_def elf_demo_symbol_def elf_demo_section_def
        new_section_def getData_def getAlignment_def)
  from elf_write_reads [OF f this] obtain descs idx where
    "elf_code_sections [Text \<mapsto> elf_demo_section] = (descs, idx)"
    "\<forall>t i. idx t = Some i \<longrightarrow> (\<exists>sec. [Text \<mapsto> elf_demo_section] t = Some sec \<and>
       elf_section_is f (unat i) (elf_kind t) 0 (if t = NonInitialized then [] else getData sec))" by metis
  then have "elf_section_is f 1 (elf_kind Text) 0 (getData elf_demo_section)"
    using elf_demo_index by fastforce
  then show ?thesis using f by (simp add: getData_def elf_demo_section_def elf_section_is_def Let_def)
qed

text \<open>C30: in the symbol table the local symbols come before the others, and the number stored in
  \<open>sh_info\<close> is the index of the first that is not local. Every registered symbol has an entry with
  its name in the string table, binding, section, value and size, and the index the writer keeps
  for a name is the index of an entry of that name.\<close>

theorem elf_symbol_table_correct:
  assumes "elf_build_symbols idx (elf_sorted_symbols syms) ([0], [elf_null_sym], Map.empty) = Inr (strtab, table, si)"
    "names_size (map os_name syms) + 1 < 2 ^ 32" "length syms + 1 < 2 ^ 32"
  shows "mset (elf_sorted_symbols syms) = mset syms \<and> length table = length syms + 1 \<and> table ! 0 = elf_null_sym \<and>
    (\<forall>i < length syms. elf_sym_entry idx strtab (elf_sorted_symbols syms ! i) (table ! Suc i) \<and>
       (drop_bit 4 (st_info (table ! Suc i)) = STB_LOCAL \<longleftrightarrow>
        Suc i < unat (ed_info (elf_symtab_desc table (elf_num_locals (elf_sorted_symbols syms)))))) \<and>
    (\<forall>n k. si n = Some k \<longrightarrow> (\<exists>i < length syms. unat k = Suc i \<and> os_name (elf_sorted_symbols syms ! i) = n)) \<and>
    (\<forall>s \<in> set syms. si (os_name s) \<noteq> None)"
proof -
  note b = elf_symbols_built [OF assms]
  have "length (filter elf_is_local syms) < 2 ^ 32 - 1"
    using length_filter_le [of elf_is_local syms] assms(3) by linarith
  then have info: "unat (ed_info (elf_symtab_desc table (elf_num_locals (elf_sorted_symbols syms)))) =
      1 + length (filter elf_is_local syms)"
    using elf_sorted_num_locals [of syms] assms(3)
    by (simp add: elf_symtab_desc_def elf_desc_default_def unat_word_ariths)
  have "drop_bit 4 (st_info (table ! Suc i)) = STB_LOCAL \<longleftrightarrow> i < length (filter elf_is_local syms)" if "i < length syms" for i
  proof -
    have "st_info (table ! Suc i) = elf_st_info (elf_sorted_symbols syms ! i)"
      using b that by (simp add: elf_sym_entry_def)
    then show ?thesis using elf_sorted_local [of i syms] that by (simp add: elf_bind elf_sorted_set)
  qed
  moreover have "mset (elf_sorted_symbols syms) = mset syms"
    unfolding elf_sorted_symbols_def by (induction syms) auto
  ultimately show ?thesis using b info by auto
qed

theorem elf_symbol_table_correct_witness:
  "\<exists>strtab table si. elf_build_symbols [Text \<mapsto> 1] (elf_sorted_symbols (ew_symbols elf_demo)) ([0], [elf_null_sym], Map.empty) =
     Inr (strtab, table, si) \<and> length table = 3 \<and> elf_sym_entry [Text \<mapsto> 1] strtab (elf_demo_symbol ''b'' False) (table ! 1)"
proof -
  have "\<not> isl (elf_build_symbols [Text \<mapsto> 1] (elf_sorted_symbols (ew_symbols elf_demo)) ([0], [elf_null_sym], Map.empty))"
    by code_simp
  then obtain strtab table si where
    b: "elf_build_symbols [Text \<mapsto> 1] (elf_sorted_symbols (ew_symbols elf_demo)) ([0], [elf_null_sym], Map.empty) = Inr (strtab, table, si)"
    by (metis isl_def old.sum.exhaust prod.exhaust)
  have "names_size (map os_name (ew_symbols elf_demo)) + 1 < 2 ^ 32" "length (ew_symbols elf_demo) + 1 < 2 ^ 32"
    by (simp_all add: elf_demo_def elf_demo_symbol_def)
  from elf_symbol_table_correct [OF b this] show ?thesis
    using b by (fastforce simp: elf_demo_def elf_sorted_symbols_def elf_is_local_def elf_demo_symbol_def)
qed

text \<open>C31: every relocation is written with its offset, its addend, the type number of its kind and
  the index of a symbol table entry that has its symbol's name; a relocation whose symbol was never
  registered gets index 0.\<close>

theorem elf_relocation_resolves:
  assumes "elf_build_symbols idx (elf_sorted_symbols syms) ([0], [elf_null_sym], Map.empty) = Inr (strtab, table, si)"
    "names_size (map os_name syms) + 1 < 2 ^ 32" "length syms + 1 < 2 ^ 32"
  shows "let e = elf_rela_entry si m r; k = unat (drop_bit 32 (r_info e)) in
    r_offset e = or_offset r \<and> r_addend e = or_addend r \<and>
    (ucast (r_info e) :: u32) = mapRelocType (or_type r) m \<and>
    (if or_symbolName r \<in> os_name ` set syms
     then 0 < k \<and> k \<le> length syms \<and> cstring_at strtab (unat (st_name (table ! k))) (or_symbolName r)
     else k = 0)"
proof -
  note b = elf_symbols_built [OF assms]
  let ?i = "case si (or_symbolName r) of Some k \<Rightarrow> k | None \<Rightarrow> 0" and ?t = "mapRelocType (or_type r) m"
  have hi: "drop_bit 32 (push_bit 32 (ucast x) OR (ucast y AND 0xFFFFFFFF)) = (ucast x :: u64)" for x y :: u32
    by (rule bit_word_eqI) (auto simp: mask_take word_bits dest: bit_imp_le_length)
  have lo: "(ucast (push_bit 32 (ucast x) OR (ucast y AND 0xFFFFFFFF) :: u64) :: u32) = y" for x y :: u32
    by (rule bit_word_eqI) (auto simp: mask_take word_bits)
  have up: "unat (ucast x :: u64) = unat x" for x :: u32
  proof -
    have "unat x < 2 ^ 64" by (rule order_less_le_trans [OF unsigned_less]) simp
    then show ?thesis by (simp add: unsigned_ucast_eq take_bit_nat_eq_self_iff)
  qed
  have k: "unat (drop_bit 32 (r_info (elf_rela_entry si m r))) = unat ?i"
    by (simp only: elf_rela_entry_def elf_rela.simps Let_def hi up)
  have ty: "(ucast (r_info (elf_rela_entry si m r)) :: u32) = ?t"
    by (simp only: elf_rela_entry_def elf_rela.simps Let_def lo)
  have off: "r_offset (elf_rela_entry si m r) = or_offset r" "r_addend (elf_rela_entry si m r) = or_addend r"
    by (simp_all add: elf_rela_entry_def)
  show ?thesis
  proof (cases "or_symbolName r \<in> os_name ` set syms")
    case True
    then obtain n where n: "si (or_symbolName r) = Some n" using b by blast
    with b obtain i where i: "i < length syms" "unat n = Suc i" "os_name (elf_sorted_symbols syms ! i) = or_symbolName r"
      by blast
    have "elf_sym_entry idx strtab (elf_sorted_symbols syms ! i) (table ! Suc i)" using b i(1) by blast
    then have "cstring_at strtab (unat (st_name (table ! Suc i))) (or_symbolName r)"
      using i(3) by (simp add: elf_sym_entry_def)
    then show ?thesis using True n i k ty off by (simp add: Let_def)
  next
    case False
    then have "si (or_symbolName r) = None" using b by blast
    then show ?thesis using False k ty off by (simp add: Let_def)
  qed
qed

theorem elf_relocation_resolves_witness:
  "\<exists>strtab table si. elf_build_symbols [Text \<mapsto> 1] (elf_sorted_symbols (ew_symbols elf_demo)) ([0], [elf_null_sym], Map.empty) =
     Inr (strtab, table, si) \<and> r_offset (elf_rela_entry si 62 (elf_demo_reloc Text)) = 1 \<and>
     0 < unat (drop_bit 32 (r_info (elf_rela_entry si 62 (elf_demo_reloc Text))))"
proof -
  have "\<not> isl (elf_build_symbols [Text \<mapsto> 1] (elf_sorted_symbols (ew_symbols elf_demo)) ([0], [elf_null_sym], Map.empty))"
    by code_simp
  then obtain strtab table si where
    b: "elf_build_symbols [Text \<mapsto> 1] (elf_sorted_symbols (ew_symbols elf_demo)) ([0], [elf_null_sym], Map.empty) = Inr (strtab, table, si)"
    by (metis isl_def old.sum.exhaust prod.exhaust)
  have "names_size (map os_name (ew_symbols elf_demo)) + 1 < 2 ^ 32" "length (ew_symbols elf_demo) + 1 < 2 ^ 32"
    by (simp_all add: elf_demo_def elf_demo_symbol_def)
  note R = elf_relocation_resolves [OF b this, of 62 "elf_demo_reloc Text"]
  have "or_symbolName (elf_demo_reloc Text) \<in> os_name ` set (ew_symbols elf_demo)"
    by (simp add: elf_demo_reloc_def elf_demo_def elf_demo_symbol_def)
  with R have "r_offset (elf_rela_entry si 62 (elf_demo_reloc Text)) = or_offset (elf_demo_reloc Text)"
    "0 < unat (drop_bit 32 (r_info (elf_rela_entry si 62 (elf_demo_reloc Text))))"
    unfolding Let_def by (simp_all only: if_True)
  then show ?thesis using b by (simp add: elf_demo_reloc_def)
qed

text \<open>C32: the writer fails exactly when a registered symbol is defined in a section that is not
  emitted: a kind other than text, read-only, data and bss, or one of these that is absent.\<close>

theorem elf_write_error_iff:
  "(\<exists>e. elf_write w sections = Inl e) \<longleftrightarrow>
   (\<exists>s \<in> set (ew_symbols w). os_section s \<noteq> Undefined \<and>
      (os_section s \<notin> {Text, ReadOnly, DataSec, NonInitialized} \<or> sections (os_section s) = None))"
  by (rule elf_write_error)

theorem elf_write_error_iff_witness:
  "(\<exists>e. elf_write elf_demo Map.empty = Inl e) \<and> (\<nexists>e. elf_write elf_demo [Text \<mapsto> elf_demo_section] = Inl e)"
  unfolding elf_write_error_iff by (simp add: elf_demo_def elf_demo_symbol_def)

text \<open>the section a relocation belongs to is ignored: every relocation is written to
  \<open>.rela.text\<close>, so the file is the same as if all of them were relocations of the text section.\<close>

theorem elf_relocation_section_ignored:
  "elf_write (w\<lparr>ew_relocs := map (\<lambda>r. r\<lparr>or_section := Text\<rparr>) (ew_relocs w)\<rparr>) sections = elf_write w sections"
proof -
  have e: "elf_rela_entry si m (r\<lparr>or_section := Text\<rparr>) = elf_rela_entry si m r" for si m r
    by (simp add: elf_rela_entry_def)
  have "elf_all_sections secs (map (\<lambda>r. r\<lparr>or_section := Text\<rparr>) rs) m nl syms = elf_all_sections secs rs m nl syms" for secs rs m nl syms
    by (cases secs; cases syms) (simp add: elf_all_sections_def o_def e)
  moreover obtain descs idx where code: "elf_code_sections sections = (descs, idx)" by (metis prod.exhaust)
  ultimately show ?thesis
    unfolding elf_write_unfold [OF code] by (cases w) (simp only: elf_writer.simps)
qed

end
