(* ===== verification/CoffWriter.thy ===== *)
theory CoffWriter
  imports ObjectFormat "HOL-Library.Multiset"
begin

text \<open>
  The COFF object writer (EzCodeEmitter/src/ObjectFormat/CoffWriter.cpp): the section list, the
  symbol table with short and long names, one relocation table per section, the layout with 32-bit
  offsets, and the file image.
\<close>

section \<open>The structures of the file\<close>

record coff_file_header =
  fh_Machine :: u16
  fh_NumberOfSections :: u16
  fh_TimeDateStamp :: u32
  fh_PointerToSymbolTable :: u32
  fh_NumberOfSymbols :: u32
  fh_SizeOfOptionalHeader :: u16
  fh_Characteristics :: u16

record coff_section_header =
  ch_Name :: "u8 list"
  ch_VirtualSize :: u32
  ch_VirtualAddress :: u32
  ch_SizeOfRawData :: u32
  ch_PointerToRawData :: u32
  ch_PointerToRelocations :: u32
  ch_PointerToLinenumbers :: u32
  ch_NumberOfRelocations :: u16
  ch_NumberOfLinenumbers :: u16
  ch_Characteristics :: u32

record coff_relocation =
  cr_VirtualAddress :: u32
  cr_SymbolTableIndex :: u32
  cr_Type :: u16

text \<open>The name field is a union of eight characters and of a zero word with an offset.\<close>

record coff_symbol =
  cy_Name :: "u8 list"
  cy_Value :: u32
  cy_SectionNumber :: u16
  cy_Type :: u16
  cy_StorageClass :: u8
  cy_NumberOfAuxSymbols :: u8

definition file_header_bytes :: "coff_file_header \<Rightarrow> u8 list" where
  "file_header_bytes h = le_bytes 2 (fh_Machine h) @ le_bytes 2 (fh_NumberOfSections h) @ le_bytes 4 (fh_TimeDateStamp h)
     @ le_bytes 4 (fh_PointerToSymbolTable h) @ le_bytes 4 (fh_NumberOfSymbols h)
     @ le_bytes 2 (fh_SizeOfOptionalHeader h) @ le_bytes 2 (fh_Characteristics h)"

definition section_header_bytes :: "coff_section_header \<Rightarrow> u8 list" where
  "section_header_bytes h = ch_Name h @ le_bytes 4 (ch_VirtualSize h) @ le_bytes 4 (ch_VirtualAddress h)
     @ le_bytes 4 (ch_SizeOfRawData h) @ le_bytes 4 (ch_PointerToRawData h) @ le_bytes 4 (ch_PointerToRelocations h)
     @ le_bytes 4 (ch_PointerToLinenumbers h) @ le_bytes 2 (ch_NumberOfRelocations h)
     @ le_bytes 2 (ch_NumberOfLinenumbers h) @ le_bytes 4 (ch_Characteristics h)"

definition coff_reloc_bytes :: "coff_relocation \<Rightarrow> u8 list" where
  "coff_reloc_bytes r = le_bytes 4 (cr_VirtualAddress r) @ le_bytes 4 (cr_SymbolTableIndex r) @ le_bytes 2 (cr_Type r)"

definition coff_sym_bytes :: "coff_symbol \<Rightarrow> u8 list" where
  "coff_sym_bytes s = cy_Name s @ le_bytes 4 (cy_Value s) @ le_bytes 2 (cy_SectionNumber s) @ le_bytes 2 (cy_Type s)
     @ [cy_StorageClass s, cy_NumberOfAuxSymbols s]"

section \<open>Constants\<close>

definition COFF_MACHINE_AMD64 :: u16 where "COFF_MACHINE_AMD64 = 0x8664"
definition SCN_TEXT :: u32 where "SCN_TEXT = 0x60500020"
definition SCN_RDATA :: u32 where "SCN_RDATA = 0x40500040"
definition SCN_DATA :: u32 where "SCN_DATA = 0xC0300040"
definition SCN_BSS :: u32 where "SCN_BSS = 0xC0300080"
definition COFF_REL_AMD64_ADDR64 :: u16 where "COFF_REL_AMD64_ADDR64 = 1"
definition COFF_REL_AMD64_ADDR32 :: u16 where "COFF_REL_AMD64_ADDR32 = 2"
definition COFF_REL_AMD64_REL32 :: u16 where "COFF_REL_AMD64_REL32 = 4"
definition COFF_SYM_CLASS_EXTERNAL :: u8 where "COFF_SYM_CLASS_EXTERNAL = 2"
definition COFF_SYM_CLASS_STATIC :: u8 where "COFF_SYM_CLASS_STATIC = 3"

primrec mapCoffRelocType :: "reloc_type \<Rightarrow> u16" where
  "mapCoffRelocType Absolute64 = COFF_REL_AMD64_ADDR64"
| "mapCoffRelocType Absolute32 = COFF_REL_AMD64_ADDR32"
| "mapCoffRelocType PCRel32 = COFF_REL_AMD64_REL32"
| "mapCoffRelocType BranchRel32 = COFF_REL_AMD64_REL32"
| "mapCoffRelocType PLTRel32 = COFF_REL_AMD64_REL32"
| "mapCoffRelocType GOTPCREL = COFF_REL_AMD64_REL32"
| "mapCoffRelocType NoReloc = 0"

section \<open>The writer's state\<close>

record coff_writer =
  cw_symbols :: "object_symbol list"
  cw_relocs :: "object_reloc list"

definition coff_addSymbol :: "coff_writer \<Rightarrow> object_symbol \<Rightarrow> coff_writer" where
  "coff_addSymbol w s = w\<lparr>cw_symbols := cw_symbols w @ [s]\<rparr>"

definition coff_addRelocation :: "coff_writer \<Rightarrow> object_reloc \<Rightarrow> coff_writer" where
  "coff_addRelocation w r = w\<lparr>cw_relocs := cw_relocs w @ [r]\<rparr>"

definition coff_clear :: "coff_writer \<Rightarrow> coff_writer" where
  "coff_clear w = w\<lparr>cw_symbols := [], cw_relocs := []\<rparr>"

section \<open>The section list\<close>

record coff_section_info =
  ci_name :: string
  ci_characteristics :: u32
  ci_alignment :: u32
  ci_data :: "u8 list"
  ci_isBss :: bool
  ci_secType :: section_type
  ci_relocs :: "coff_relocation list"

type_synonym coff_sections = "coff_section_info list \<times> (section_type \<rightharpoonup> u16)"

definition coff_section_info_of :: "section_type \<Rightarrow> string \<Rightarrow> u32 \<Rightarrow> u32 \<Rightarrow> code_section \<Rightarrow> coff_section_info" where
  "coff_section_info_of type name charact align sec =
     \<lparr>ci_name = name, ci_characteristics = charact,
      ci_alignment = (if getAlignment sec \<noteq> 0 then of_nat (getAlignment sec) else align),
      ci_data = (if type = NonInitialized then replicate (length (getData sec)) 0 else getData sec),
      ci_isBss = (type = NonInitialized), ci_secType = type, ci_relocs = []\<rparr>"

definition addSec :: "section_map \<Rightarrow> section_type \<Rightarrow> string \<Rightarrow> u32 \<Rightarrow> u32 \<Rightarrow> coff_sections \<Rightarrow> coff_sections" where
  "addSec sections type name charact align st =
     (case st of (infos, idx) \<Rightarrow>
        (case sections type of
           None \<Rightarrow> (infos, idx)
         | Some sec \<Rightarrow>
             let infos = infos @ [coff_section_info_of type name charact align sec]
             in (infos, idx(type \<mapsto> of_nat (length infos)))))"

definition coff_code_sections :: "section_map \<Rightarrow> coff_sections" where
  "coff_code_sections sections =
     (let st = ([], Map.empty);
          st = addSec sections Text ''.text'' SCN_TEXT 16 st;
          st = addSec sections ReadOnly ''.rdata'' SCN_RDATA 16 st;
          st = addSec sections DataSec ''.data'' SCN_DATA 8 st
      in addSec sections NonInitialized ''.bss'' SCN_BSS 8 st)"

section \<open>Symbols\<close>

definition addCoffString :: "u8 list \<Rightarrow> string \<Rightarrow> u8 list \<times> u32" where
  "addCoffString strtab str = (strtab @ str_bytes str @ [0], of_nat (length strtab))"

text \<open>The name field of a symbol: at most eight bytes in place, a longer name in the string table.\<close>

definition coff_symbol_name :: "u8 list \<Rightarrow> string \<Rightarrow> u8 list \<times> u8 list" where
  "coff_symbol_name strtab name =
     (if length name \<le> 8 then (strtab, str_bytes name @ replicate (8 - length name) 0)
      else (case addCoffString strtab name of (strtab, off) \<Rightarrow> (strtab, le_bytes 4 (0 :: u32) @ le_bytes 4 off)))"

definition coff_section_number :: "(section_type \<rightharpoonup> u16) \<Rightarrow> object_symbol \<Rightarrow> u16 option" where
  "coff_section_number idx s = (if os_section s = Undefined then Some 0 else idx (os_section s))"

definition coff_symbol_of :: "object_symbol \<Rightarrow> u8 list \<Rightarrow> u16 \<Rightarrow> coff_symbol" where
  "coff_symbol_of s name number =
     \<lparr>cy_Name = name, cy_Value = ucast (os_offset s), cy_SectionNumber = number,
      cy_Type = (if os_isFunction s then 0x20 else 0),
      cy_StorageClass = (if os_isGlobal s then COFF_SYM_CLASS_EXTERNAL else COFF_SYM_CLASS_STATIC),
      cy_NumberOfAuxSymbols = 0\<rparr>"

type_synonym coff_symbols = "u8 list \<times> coff_symbol list \<times> (string \<rightharpoonup> u32)"

primrec coff_build_symbols ::
  "(section_type \<rightharpoonup> u16) \<Rightarrow> object_symbol list \<Rightarrow> coff_symbols \<Rightarrow> object_error + coff_symbols" where
  "coff_build_symbols idx [] st = Inr st"
| "coff_build_symbols idx (s # syms) st =
     (case st of (strtab, records, symIndex) \<Rightarrow>
        (case coff_symbol_name strtab (os_name s) of (strtab, name) \<Rightarrow>
           (case coff_section_number idx s of
              None \<Rightarrow> Inl (SymbolInMissingSection (os_name s))
            | Some number \<Rightarrow>
                coff_build_symbols idx syms
                  (strtab, records @ [coff_symbol_of s name number], symIndex(os_name s \<mapsto> of_nat (length records))))))"

text \<open>The first four bytes of the string table hold its size.\<close>

definition coff_string_table :: "u8 list \<Rightarrow> u8 list" where
  "coff_string_table strtab = write_at 0 (le_bytes 4 (of_nat (length strtab) :: u32)) strtab"

section \<open>Relocations\<close>

definition coff_relocation_of :: "(string \<rightharpoonup> u32) \<Rightarrow> object_reloc \<Rightarrow> coff_relocation" where
  "coff_relocation_of symIndex r =
     \<lparr>cr_VirtualAddress = ucast (or_offset r),
      cr_SymbolTableIndex = (case symIndex (or_symbolName r) of Some k \<Rightarrow> k | None \<Rightarrow> 0),
      cr_Type = mapCoffRelocType (or_type r)\<rparr>"

primrec coff_add_relocs ::
  "(section_type \<rightharpoonup> u16) \<Rightarrow> (string \<rightharpoonup> u32) \<Rightarrow> object_reloc list \<Rightarrow> coff_section_info list \<Rightarrow>
   object_error + coff_section_info list" where
  "coff_add_relocs idx symIndex [] infos = Inr infos"
| "coff_add_relocs idx symIndex (r # rs) infos =
     (case idx (or_section r) of
        None \<Rightarrow> Inl RelocInMissingSection
      | Some n \<Rightarrow>
          let secIdx = unat (n - 1);
              infos = infos[secIdx := (infos ! secIdx)\<lparr>ci_relocs := ci_relocs (infos ! secIdx) @ [coff_relocation_of symIndex r]\<rparr>]
          in coff_add_relocs idx symIndex rs infos)"

section \<open>Layout and image\<close>

text \<open>An offset is aligned in 64 bits and truncated to 32.\<close>

definition coff_align4 :: "u32 \<Rightarrow> u32" where
  "coff_align4 off = ucast (obj_alignTo (ucast off) 4)"

definition coff_header_name :: "string \<Rightarrow> u8 list" where
  "coff_header_name name = take 8 (str_bytes name) @ replicate (8 - length name) 0"

text \<open>The raw data of the sections: the pairs are \<open>SizeOfRawData\<close> and \<open>PointerToRawData\<close>.\<close>

primrec coff_layout_data :: "coff_section_info list \<Rightarrow> u32 \<Rightarrow> (u32 \<times> u32) list \<times> u32" where
  "coff_layout_data [] off = ([], off)"
| "coff_layout_data (i # is) off =
     (let sz = of_nat (length (ci_data i))
      in if ci_isBss i then
           (case coff_layout_data is off of (ps, off') \<Rightarrow> ((sz, 0) # ps, off'))
         else
           let off = coff_align4 off
           in (case coff_layout_data is (off + sz) of
                 (ps, off') \<Rightarrow> ((sz, if ci_data i = [] then 0 else off) # ps, off')))"

text \<open>The relocation tables: the pairs are \<open>NumberOfRelocations\<close> and \<open>PointerToRelocations\<close>.\<close>

primrec coff_layout_relocs :: "coff_section_info list \<Rightarrow> u32 \<Rightarrow> (u16 \<times> u32) list \<times> u32" where
  "coff_layout_relocs [] off = ([], off)"
| "coff_layout_relocs (i # is) off =
     (if ci_relocs i \<noteq> [] then
        let off = coff_align4 off
        in (case coff_layout_relocs is (off + of_nat (length (ci_relocs i) * 10)) of
              (ps, off') \<Rightarrow> ((of_nat (length (ci_relocs i)), off) # ps, off'))
      else (case coff_layout_relocs is off of (ps, off') \<Rightarrow> ((0, 0) # ps, off')))"

definition coff_section_header_of :: "coff_section_info \<Rightarrow> u32 \<times> u32 \<Rightarrow> u16 \<times> u32 \<Rightarrow> coff_section_header" where
  "coff_section_header_of i dat rel =
     \<lparr>ch_Name = coff_header_name (ci_name i), ch_VirtualSize = 0, ch_VirtualAddress = 0, ch_SizeOfRawData = fst dat,
      ch_PointerToRawData = snd dat, ch_PointerToRelocations = snd rel, ch_PointerToLinenumbers = 0,
      ch_NumberOfRelocations = fst rel, ch_NumberOfLinenumbers = 0, ch_Characteristics = ci_characteristics i\<rparr>"

definition coff_data_blocks :: "coff_section_info list \<Rightarrow> (u32 \<times> u32) list \<Rightarrow> (nat \<times> u8 list) list" where
  "coff_data_blocks infos ps =
     map (\<lambda>(i, p). (unat (snd p), ci_data i))
       (filter (\<lambda>(i, p). \<not> ci_isBss i \<and> snd p \<noteq> 0 \<and> ci_data i \<noteq> []) (zip infos ps))"

definition coff_reloc_blocks :: "coff_section_info list \<Rightarrow> (u16 \<times> u32) list \<Rightarrow> (nat \<times> u8 list) list" where
  "coff_reloc_blocks infos ps =
     map (\<lambda>(i, p). (unat (snd p), concat (map coff_reloc_bytes (ci_relocs i))))
       (filter (\<lambda>(i, p). snd p \<noteq> 0 \<and> ci_relocs i \<noteq> []) (zip infos ps))"

definition coff_image :: "coff_section_info list \<Rightarrow> coff_symbol list \<Rightarrow> u8 list \<Rightarrow> u8 list" where
  "coff_image infos records stringTable =
     (let headerSize = 20 + of_nat (length infos * 40);
          (dat, currentOffset) = coff_layout_data infos headerSize;
          (rel, currentOffset) = coff_layout_relocs infos currentOffset;
          currentOffset = coff_align4 currentOffset;
          symTableOffset = (if records = [] then 0 else currentOffset);
          symSize = of_nat (length records * 18) :: u32;
          total = currentOffset + symSize + of_nat (length stringTable);
          headers = map (\<lambda>(i, d, r). coff_section_header_of i d r) (zip infos (zip dat rel));
          fileHeader = \<lparr>fh_Machine = COFF_MACHINE_AMD64, fh_NumberOfSections = of_nat (length infos),
            fh_TimeDateStamp = 0, fh_PointerToSymbolTable = symTableOffset, fh_NumberOfSymbols = of_nat (length records),
            fh_SizeOfOptionalHeader = 0, fh_Characteristics = 0\<rparr>
      in write_blocks
           ([(0, file_header_bytes fileHeader), (20, concat (map section_header_bytes headers))]
            @ coff_data_blocks infos dat @ coff_reloc_blocks infos rel
            @ (if symTableOffset \<noteq> 0 \<and> records \<noteq> [] then [(unat symTableOffset, concat (map coff_sym_bytes records))] else [])
            @ (if symTableOffset \<noteq> 0 then [(unat (symTableOffset + symSize), stringTable)] else []))
           (replicate (unat total) 0))"

definition coff_write :: "coff_writer \<Rightarrow> section_map \<Rightarrow> object_error + u8 list" where
  "coff_write w sections =
     (case coff_code_sections sections of (infos, idx) \<Rightarrow>
        (case coff_build_symbols idx (cw_symbols w) (replicate 4 0, [], Map.empty) of
           Inl e \<Rightarrow> Inl e
         | Inr (strtab, records, symIndex) \<Rightarrow>
             (case coff_add_relocs idx symIndex (cw_relocs w) infos of
                Inl e \<Rightarrow> Inl e
              | Inr infos \<Rightarrow> Inr (coff_image infos records (coff_string_table strtab)))))"

end
