(* ===== verification/CoffProofs.thy ===== *)
theory CoffProofs
  imports CoffWriter
begin

text \<open>
  What the COFF writer produces, read back the way a linker does: the layout with 32-bit offsets,
  the section headers, raw data, relocation tables, the symbol table and the string table.
\<close>

section \<open>Layout\<close>

lemma unat_ucast_32_64: "unat (ucast x :: u64) = unat x" for x :: u32
proof -
  have "unat x < 2 ^ 64" by (rule order_less_le_trans [OF unsigned_less]) simp
  then show ?thesis by (simp add: unsigned_ucast_eq take_bit_nat_eq_self_iff)
qed

lemma unat_ucast_64_32: "unat x < 2 ^ 32 \<Longrightarrow> unat (ucast x :: u32) = unat x" for x :: u64
  by (simp add: unsigned_ucast_eq take_bit_nat_eq_self_iff)

lemma coff_align4_ok:
  assumes "unat off + 4 < 2 ^ 32"
  shows "unat off \<le> unat (coff_align4 off) \<and> unat (coff_align4 off) \<le> unat off + 4 \<and> 4 dvd unat (coff_align4 off)"
proof -
  let ?x = "obj_alignTo (ucast off) 4"
  have r: "unat off \<le> unat ?x" "unat ?x \<le> unat off + 4"
    using obj_alignTo_range [of "ucast off" 4] assms by (simp_all add: unat_ucast_32_64)
  have "2 ^ 2 dvd unat ?x" by (rule obj_alignTo_multiple) simp_all
  moreover have "unat (coff_align4 off) = unat ?x"
    using r assms by (simp add: coff_align4_def unat_ucast_64_32)
  ultimately show ?thesis using r by simp
qed

lemma unat_add_32: "unat a + n < 2 ^ 32 \<Longrightarrow> unat (a + of_nat n) = unat a + n" for a :: u32
  by (simp add: unat_word_ariths unat_of_nat)

definition coff_need :: "coff_section_info list \<Rightarrow> nat" where
  "coff_need infos = sum_list (map (\<lambda>i. length (ci_data i) + 10 * length (ci_relocs i) + 8) infos)"

lemma coff_need_simps [simp]:
  "coff_need [] = 0" "coff_need (i # js) = length (ci_data i) + 10 * length (ci_relocs i) + 8 + coff_need js"
  by (simp_all add: coff_need_def)

definition data_need :: "coff_section_info list \<Rightarrow> nat" where
  "data_need infos = sum_list (map (\<lambda>i. length (ci_data i) + 4) infos)"

definition reloc_need :: "coff_section_info list \<Rightarrow> nat" where
  "reloc_need infos = sum_list (map (\<lambda>i. 10 * length (ci_relocs i) + 4) infos)"

lemma coff_need_split: "coff_need infos = data_need infos + reloc_need infos"
  by (induction infos) (simp_all add: data_need_def reloc_need_def)

lemma coff_reloc_length [simp]: "length (coff_reloc_bytes r) = 10"
  by (simp add: coff_reloc_bytes_def)

lemma relocs_length: "length (concat (map coff_reloc_bytes rs)) = length rs * 10"
  by (rule table_length) simp

text \<open>A data pair and a relocation pair describe their section.\<close>

definition data_ok :: "coff_section_info \<Rightarrow> u32 \<times> u32 \<Rightarrow> bool" where
  "data_ok i p \<longleftrightarrow> fst p = of_nat (length (ci_data i)) \<and>
     (\<not> ci_isBss i \<and> ci_data i \<noteq> [] \<longrightarrow> snd p \<noteq> 0 \<and> 4 dvd unat (snd p))"

definition reloc_ok :: "coff_section_info \<Rightarrow> u16 \<times> u32 \<Rightarrow> bool" where
  "reloc_ok i p \<longleftrightarrow> fst p = of_nat (length (ci_relocs i)) \<and> (ci_relocs i \<noteq> [] \<longrightarrow> snd p \<noteq> 0 \<and> 4 dvd unat (snd p))"

lemma coff_data_blocks_cons:
  "coff_data_blocks (i # js) (p # ps) =
     (if \<not> ci_isBss i \<and> snd p \<noteq> 0 \<and> ci_data i \<noteq> [] then [(unat (snd p), ci_data i)] else []) @ coff_data_blocks js ps"
  by (simp add: coff_data_blocks_def)

lemma coff_reloc_blocks_cons:
  "coff_reloc_blocks (i # js) (p # ps) =
     (if snd p \<noteq> 0 \<and> ci_relocs i \<noteq> [] then [(unat (snd p), concat (map coff_reloc_bytes (ci_relocs i)))] else [])
     @ coff_reloc_blocks js ps"
  by (simp add: coff_reloc_blocks_def)

lemma coff_layout_data_ok:
  assumes "coff_layout_data infos off = (ps, off')" "unat off + data_need infos < 2 ^ 32" "off \<noteq> 0"
  shows "list_all2 data_ok infos ps \<and> unat off \<le> unat off' \<and> unat off' \<le> unat off + data_need infos \<and>
    blocks_within (unat off) (unat off') (coff_data_blocks infos ps) \<and> blocks_sorted (coff_data_blocks infos ps)"
  using assms
proof (induction infos arbitrary: off ps)
  case Nil
  then show ?case by (simp add: data_need_def coff_data_blocks_def)
next
  case (Cons i js)
  let ?o = "coff_align4 off" and ?n = "length (ci_data i)"
  have room: "unat off + (?n + 4) + data_need js < 2 ^ 32" using Cons.prems(2) by (simp add: data_need_def)
  then have al: "unat off \<le> unat ?o" "unat ?o \<le> unat off + 4" "4 dvd unat ?o"
    using coff_align4_ok [of off] by simp_all
  have pos: "0 < unat off" using Cons.prems(3) by (simp add: unat_gt_0)
  show ?case
  proof (cases "ci_isBss i")
    case True
    then obtain qs where q: "coff_layout_data js off = (qs, off')" "ps = (of_nat ?n, 0) # qs"
      using Cons.prems(1) by (auto simp: Let_def split: prod.splits)
    have "unat off + data_need js < 2 ^ 32" using room by simp
    note Cons.IH [OF q(1) this Cons.prems(3)]
    then show ?thesis using True q(2) by (auto simp: data_ok_def data_need_def coff_data_blocks_cons)
  next
    case False
    then obtain qs where q: "coff_layout_data js (?o + of_nat ?n) = (qs, off')"
      "ps = (of_nat ?n, if ci_data i = [] then 0 else ?o) # qs"
      using Cons.prems(1) by (auto simp: Let_def split: prod.splits)
    have u: "unat (?o + of_nat ?n) = unat ?o + ?n" by (rule unat_add_32) (use room al in simp)
    have "unat (?o + of_nat ?n) + data_need js < 2 ^ 32" "?o + of_nat ?n \<noteq> 0" "?o \<noteq> 0"
      using u room al pos by (auto simp flip: unat_gt_0)
    note IH = Cons.IH [OF q(1) this(1,2), unfolded u]
    have blk: "coff_data_blocks (i # js) ps = (if ci_data i = [] then [] else [(unat ?o, ci_data i)]) @ coff_data_blocks js qs"
      using False \<open>?o \<noteq> 0\<close> by (simp add: q(2) coff_data_blocks_cons)
    have one: "blocks_sorted (if ci_data i = [] then [] else [(unat ?o, ci_data i)])"
      "blocks_within (unat off) (unat ?o + ?n) (if ci_data i = [] then [] else [(unat ?o, ci_data i)])"
      using al by (simp_all add: blocks_single)
    note ap = blocks_append [OF one _ _ _ , where ys = "coff_data_blocks js qs" and hi = "unat off'"]
    show ?thesis
      using IH False al room ap \<open>?o \<noteq> 0\<close> unfolding blk by (auto simp: data_ok_def data_need_def q(2))
  qed
qed

lemma coff_layout_relocs_ok:
  assumes "coff_layout_relocs infos off = (ps, off')" "unat off + reloc_need infos < 2 ^ 32" "off \<noteq> 0"
  shows "list_all2 reloc_ok infos ps \<and> unat off \<le> unat off' \<and> unat off' \<le> unat off + reloc_need infos \<and>
    blocks_within (unat off) (unat off') (coff_reloc_blocks infos ps) \<and> blocks_sorted (coff_reloc_blocks infos ps)"
  using assms
proof (induction infos arbitrary: off ps)
  case Nil
  then show ?case by (simp add: reloc_need_def coff_reloc_blocks_def)
next
  case (Cons i js)
  let ?o = "coff_align4 off" and ?n = "length (ci_relocs i) * 10"
  have room: "unat off + (?n + 4) + reloc_need js < 2 ^ 32" using Cons.prems(2) by (simp add: reloc_need_def)
  then have al: "unat off \<le> unat ?o" "unat ?o \<le> unat off + 4" "4 dvd unat ?o"
    using coff_align4_ok [of off] by simp_all
  have pos: "0 < unat off" using Cons.prems(3) by (simp add: unat_gt_0)
  show ?case
  proof (cases "ci_relocs i = []")
    case True
    then obtain qs where q: "coff_layout_relocs js off = (qs, off')" "ps = (0, 0) # qs"
      using Cons.prems(1) by (auto simp: Let_def split: prod.splits)
    have "unat off + reloc_need js < 2 ^ 32" using room by simp
    note Cons.IH [OF q(1) this Cons.prems(3)]
    then show ?thesis using True q(2) by (auto simp: reloc_ok_def reloc_need_def coff_reloc_blocks_cons)
  next
    case False
    then obtain qs where q: "coff_layout_relocs js (?o + of_nat ?n) = (qs, off')"
      "ps = (of_nat (length (ci_relocs i)), ?o) # qs"
      using Cons.prems(1) by (auto simp: Let_def split: prod.splits)
    have u: "unat (?o + of_nat ?n) = unat ?o + ?n" by (rule unat_add_32) (use room al in simp)
    have nz: "unat (?o + of_nat ?n) + reloc_need js < 2 ^ 32" "?o + of_nat ?n \<noteq> 0" "?o \<noteq> 0"
      using u room al pos by (auto simp flip: unat_gt_0)
    note IH = Cons.IH [OF q(1) nz(1,2), unfolded u]
    have blk: "coff_reloc_blocks (i # js) ps =
        [(unat ?o, concat (map coff_reloc_bytes (ci_relocs i)))] @ coff_reloc_blocks js qs"
      using False nz(3) by (simp add: q(2) coff_reloc_blocks_cons)
    have one: "blocks_sorted [(unat ?o, concat (map coff_reloc_bytes (ci_relocs i)))]"
      "blocks_within (unat off) (unat ?o + ?n) [(unat ?o, concat (map coff_reloc_bytes (ci_relocs i)))]"
      using al by (simp_all add: blocks_single relocs_length del: length_concat)
    note ap = blocks_append [OF one _ _ _ , where ys = "coff_reloc_blocks js qs" and hi = "unat off'"]
    show ?thesis
      using IH False al room ap nz(3) unfolding blk by (auto simp: reloc_ok_def reloc_need_def q(2))
  qed
qed

section \<open>Reading an image\<close>

definition coff_info_ok :: "coff_section_info \<Rightarrow> bool" where
  "coff_info_ok i \<longleftrightarrow> length (ci_data i) < 2 ^ 32 \<and> length (ci_relocs i) < 2 ^ 16"

lemma coff_section_header_length: "length (section_header_bytes (coff_section_header_of i d r)) = 40"
  by (simp add: section_header_bytes_def coff_section_header_of_def coff_header_name_def)

lemma coff_file_header_length: "length (file_header_bytes h) = 20"
  by (simp add: file_header_bytes_def)

lemma coff_sym_length: "length (cy_Name s) = 8 \<Longrightarrow> length (coff_sym_bytes s) = 18"
  by (simp add: coff_sym_bytes_def)

lemma coff_header_name_length [simp]: "length (coff_header_name n) = 8"
  by (simp add: coff_header_name_def)

lemma coff_section_header_fields:
  fixes i d r
  defines "h \<equiv> section_header_bytes (coff_section_header_of i d r)"
  shows "read_at 0 8 h = coff_header_name (ci_name i)" "file_u32 h 16 = fst d" "file_u32 h 20 = snd d"
    "file_u32 h 24 = snd r" "file_u16 h 32 = fst r" "file_u32 h 36 = ci_characteristics i"
  by (simp_all add: h_def section_header_bytes_def coff_section_header_of_def read_at_def file_u32_def file_u16_def
      le_word_le_bytes_full)

text \<open>Section \<open>j\<close> of the file is \<open>i\<close>: its name, attributes, raw data and relocation table.\<close>

definition coff_reads_as :: "u8 list \<Rightarrow> nat \<Rightarrow> coff_section_info \<Rightarrow> bool" where
  "coff_reads_as f j i \<longleftrightarrow> (let h = read_at (20 + j * 40) 40 f in
     read_at 0 8 h = coff_header_name (ci_name i) \<and> file_u32 h 36 = ci_characteristics i \<and>
     unat (file_u32 h 16) = length (ci_data i) \<and>
     (\<not> ci_isBss i \<longrightarrow> read_at (unat (file_u32 h 20)) (length (ci_data i)) f = ci_data i \<and>
        (ci_data i \<noteq> [] \<longrightarrow> 4 dvd unat (file_u32 h 20))) \<and>
     unat (file_u16 h 32) = length (ci_relocs i) \<and>
     read_at (unat (file_u32 h 24)) (10 * length (ci_relocs i)) f = concat (map coff_reloc_bytes (ci_relocs i)))"

lemma coff_reads_asI:
  assumes h: "read_at (20 + j * 40) 40 f = section_header_bytes (coff_section_header_of i d r)"
    and ok: "data_ok i d" "reloc_ok i r" "coff_info_ok i"
    and dat: "\<not> ci_isBss i \<Longrightarrow> ci_data i \<noteq> [] \<Longrightarrow> read_at (unat (snd d)) (length (ci_data i)) f = ci_data i"
    and rel: "ci_relocs i \<noteq> [] \<Longrightarrow>
      read_at (unat (snd r)) (10 * length (ci_relocs i)) f = concat (map coff_reloc_bytes (ci_relocs i))"
  shows "coff_reads_as f j i"
proof -
  have "unat (fst d) = length (ci_data i)" "unat (fst r) = length (ci_relocs i)"
    using ok by (simp_all add: data_ok_def reloc_ok_def coff_info_ok_def unat_of_nat)
  moreover have "read_at (unat (snd d)) (length (ci_data i)) f = ci_data i" if "\<not> ci_isBss i"
    using dat [OF that] by (cases "ci_data i = []") (simp_all add: read_at_def)
  moreover have "read_at (unat (snd r)) (10 * length (ci_relocs i)) f = concat (map coff_reloc_bytes (ci_relocs i))"
    using rel by (cases "ci_relocs i = []") (simp_all add: read_at_def)
  moreover have "ci_data i \<noteq> [] \<longrightarrow> \<not> ci_isBss i \<longrightarrow> 4 dvd unat (snd d)" using ok(1) by (simp add: data_ok_def)
  ultimately show ?thesis
    by (simp add: coff_reads_as_def Let_def h coff_section_header_fields)
qed

text \<open>The blocks of an image lie in ascending order in a buffer of exactly the size of the file.\<close>

lemma coff_image_blocks:
  assumes small: "coff_need infos + 40 * length infos + 18 * length records + length tab + 64 < 2 ^ 32"
    and names: "\<forall>s \<in> set records. length (cy_Name s) = 8"
  shows "\<exists>fh dat rel o2 blocks total. coff_image infos records tab = write_blocks blocks (replicate total 0) \<and>
    blocks = [(0, file_header_bytes fh),
        (20, concat (map section_header_bytes (map (\<lambda>(i, d, r). coff_section_header_of i d r) (zip infos (zip dat rel)))))]
      @ coff_data_blocks infos dat @ coff_reloc_blocks infos rel
      @ (if records \<noteq> [] then [(unat o2, concat (map coff_sym_bytes records)), (unat o2 + 18 * length records, tab)] else []) \<and>
    blocks_sorted blocks \<and> blocks_fit total blocks \<and> list_all2 data_ok infos dat \<and> list_all2 reloc_ok infos rel \<and>
    fh_Machine fh = COFF_MACHINE_AMD64 \<and> fh_NumberOfSections fh = of_nat (length infos) \<and>
    fh_PointerToSymbolTable fh = (if records = [] then 0 else o2) \<and> fh_NumberOfSymbols fh = of_nat (length records)"
proof -
  define hs :: u32 where "hs = 20 + of_nat (length infos * 40)"
  have hs: "unat hs = 20 + 40 * length infos"
    using unat_add_32 [of 20 "length infos * 40"] small by (simp add: hs_def del: of_nat_mult)
  obtain dat o0 where d: "coff_layout_data infos hs = (dat, o0)" by (metis prod.exhaust)
  obtain rel o1 where r: "coff_layout_relocs infos o0 = (rel, o1)" by (metis prod.exhaust)
  have n: "data_need infos + reloc_need infos = coff_need infos" by (simp add: coff_need_split)
  have "unat hs + data_need infos < 2 ^ 32" "hs \<noteq> 0" using hs small n by (auto simp flip: unat_gt_0)
  note D = coff_layout_data_ok [OF d this]
  have "unat o0 + reloc_need infos < 2 ^ 32" "o0 \<noteq> 0" using D hs small n by (auto simp flip: unat_gt_0)
  note R = coff_layout_relocs_ok [OF r this]
  define o2 where "o2 = coff_align4 o1"
  have o1: "unat o1 \<le> unat hs + coff_need infos" using D R n by linarith
  have o2: "unat o1 \<le> unat o2" "unat o2 \<le> unat o1 + 4" using coff_align4_ok [of o1] o1 hs small by (simp_all add: o2_def)
  have o2nz: "o2 \<noteq> 0" using o2 hs D R by (auto simp flip: unat_gt_0)
  let ?sy = "of_nat (length records * 18) :: u32" and ?syms = "concat (map coff_sym_bytes records)"
  let ?hd = "map (\<lambda>(i, d, r). coff_section_header_of i d r) (zip infos (zip dat rel))"
  have sl: "length ?syms = 18 * length records"
    using table_length [of records coff_sym_bytes 18] names by (simp add: coff_sym_length)
  have so: "unat (o2 + ?sy) = unat o2 + 18 * length records"
    using unat_add_32 [of o2 "length records * 18"] o1 o2 hs small by (simp del: of_nat_mult)
  have tot: "unat (o2 + ?sy + of_nat (length tab)) = unat o2 + 18 * length records + length tab"
    using unat_add_32 [of "o2 + ?sy" "length tab"] so o1 o2 hs small by (simp del: of_nat_mult)
  have ll: "length dat = length infos" "length rel = length infos"
    using D R list_all2_lengthD by fastforce+
  have hl: "length (concat (map section_header_bytes ?hd)) = 40 * length infos"
  proof -
    have "length (section_header_bytes x) = 40" if "x \<in> set ?hd" for x
      using that by (auto simp: coff_section_header_length)
    from table_length [of ?hd section_header_bytes, OF this] ll show ?thesis by simp
  qed
  define fh where "fh = \<lparr>fh_Machine = COFF_MACHINE_AMD64, fh_NumberOfSections = of_nat (length infos),
      fh_TimeDateStamp = 0, fh_PointerToSymbolTable = (if records = [] then 0 else o2),
      fh_NumberOfSymbols = of_nat (length records), fh_SizeOfOptionalHeader = 0, fh_Characteristics = 0\<rparr>"
  let ?pre = "[(0, file_header_bytes fh), (20, concat (map section_header_bytes ?hd))]"
  let ?tail = "if records \<noteq> [] then [(unat o2, ?syms), (unat o2 + 18 * length records, tab)] else []"
  let ?blocks = "?pre @ coff_data_blocks infos dat @ coff_reloc_blocks infos rel @ ?tail"
  let ?total = "unat o2 + 18 * length records + length tab"
  have pre: "blocks_sorted ?pre" "blocks_within 0 (unat hs) ?pre"
    using hl hs by (simp_all add: blocks_sorted_def blocks_within_def coff_file_header_length)
  have tail: "blocks_sorted ?tail" "blocks_within (unat o1) ?total ?tail"
    using sl o2 by (auto simp: blocks_sorted_def blocks_within_def simp del: length_concat)
  have le: "unat hs \<le> unat o0" "unat o0 \<le> unat o1" "unat o1 \<le> ?total" using D R o2 by simp_all
  have le2: "unat o0 \<le> ?total" "unat hs \<le> ?total" "0 \<le> unat hs" using le by linarith+
  have R': "blocks_sorted (coff_reloc_blocks infos rel)" "blocks_within (unat o0) (unat o1) (coff_reloc_blocks infos rel)"
    and D': "blocks_sorted (coff_data_blocks infos dat)" "blocks_within (unat hs) (unat o0) (coff_data_blocks infos dat)"
    using R D by blast+
  note rt = blocks_append [OF R' tail le(2,3)]
  note drt = blocks_append [OF D' rt le(1) le2(1)]
  note all = blocks_append [OF pre drt le2(3) le2(2)]
  have img: "coff_image infos records tab = write_blocks ?blocks (replicate ?total 0)"
    unfolding coff_image_def hs_def [symmetric] d r Let_def prod.case o2_def [symmetric] tot so
    using o2nz so by (simp add: fh_def Let_def del: of_nat_mult)
  show ?thesis
    by (rule exI [of _ fh], rule exI [of _ dat], rule exI [of _ rel], rule exI [of _ o2], rule exI [of _ ?blocks],
        rule exI [of _ ?total])
      (intro conjI img refl all(1) blocks_within_fit [OF all(2)] D [THEN conjunct1] R [THEN conjunct1]; simp add: fh_def)
qed

lemma file_header_fields:
  "file_u16 (file_header_bytes h) 0 = fh_Machine h" "file_u16 (file_header_bytes h) 2 = fh_NumberOfSections h"
  "file_u32 (file_header_bytes h) 8 = fh_PointerToSymbolTable h" "file_u32 (file_header_bytes h) 12 = fh_NumberOfSymbols h"
  by (simp_all add: file_u16_def file_u32_def file_header_bytes_def read_at_def le_word_le_bytes_full)

lemma file_field_inner:
  assumes "read_at off n f = h" "off + n \<le> length f"
  shows "i + 2 \<le> n \<Longrightarrow> file_u16 f (off + i) = file_u16 h i" "i + 4 \<le> n \<Longrightarrow> file_u32 f (off + i) = file_u32 h i"
  by (simp_all add: file_u16_def file_u32_def read_at_inner [OF assms])

text \<open>The symbol table and the string table behind it.\<close>

definition coff_symbols_read_as :: "u8 list \<Rightarrow> coff_symbol list \<Rightarrow> u8 list \<Rightarrow> bool" where
  "coff_symbols_read_as f records tab \<longleftrightarrow> (let p = unat (file_u32 f 8) in
     unat (file_u32 f 12) = length records \<and>
     (records \<noteq> [] \<longrightarrow> read_at p (18 * length records) f = concat (map coff_sym_bytes records) \<and>
        read_at (p + 18 * length records) (length tab) f = tab))"

lemma coff_image_reads:
  assumes small: "coff_need infos + 40 * length infos + 18 * length records + length tab + 64 < 2 ^ 32"
    and names: "\<forall>s \<in> set records. length (cy_Name s) = 8" and n: "length infos < 2 ^ 16"
    and ok: "\<forall>i \<in> set infos. coff_info_ok i" and f: "f = coff_image infos records tab"
  shows "file_u16 f 0 = COFF_MACHINE_AMD64 \<and> unat (file_u16 f 2) = length infos \<and>
    (\<forall>j < length infos. coff_reads_as f j (infos ! j)) \<and> coff_symbols_read_as f records tab"
proof -
  let ?hd = "\<lambda>dat rel. map (\<lambda>(i, d, r). coff_section_header_of i d r) (zip infos (zip dat rel))"
  from coff_image_blocks [OF small names] obtain fh dat rel o2 blocks total where
    b: "f = write_blocks blocks (replicate total 0)" "blocks_sorted blocks" "blocks_fit total blocks"
      "blocks = [(0, file_header_bytes fh), (20, concat (map section_header_bytes (?hd dat rel)))]
      @ coff_data_blocks infos dat @ coff_reloc_blocks infos rel
      @ (if records \<noteq> [] then [(unat o2, concat (map coff_sym_bytes records)), (unat o2 + 18 * length records, tab)] else [])"
    and D: "list_all2 data_ok infos dat" and R: "list_all2 reloc_ok infos rel"
    and F: "fh_Machine fh = COFF_MACHINE_AMD64" "fh_NumberOfSections fh = of_nat (length infos)"
      "fh_PointerToSymbolTable fh = (if records = [] then 0 else o2)" "fh_NumberOfSymbols fh = of_nat (length records)"
    unfolding f by blast
  have fl: "length f = total" using b(1,3) by simp
  have blk: "read_at o1 (length bs) f = bs" if "(o1, bs) \<in> set blocks" for o1 bs
    using write_blocks_read [of "replicate total 0" blocks o1 bs] b(1,3) blocks_sorted_disjoint [OF b(2)] that by simp
  have "read_at 0 20 f = file_header_bytes fh"
    using blk [of 0 "file_header_bytes fh"] by (simp add: b(4) coff_file_header_length)
  moreover have "20 \<le> total" using b(3) by (auto simp: b(4) blocks_fit_def coff_file_header_length)
  ultimately have hf: "i + 2 \<le> 20 \<Longrightarrow> file_u16 f i = file_u16 (file_header_bytes fh) i"
    "i + 4 \<le> 20 \<Longrightarrow> file_u32 f i = file_u32 (file_header_bytes fh) i" for i
    using file_field_inner [of 0 20 f "file_header_bytes fh" i] fl by simp_all
  have nr: "length records < 2 ^ 32" using small by simp
  have A: "file_u16 f 0 = COFF_MACHINE_AMD64 \<and> unat (file_u16 f 2) = length infos"
    using n by (simp add: hf file_header_fields F unat_of_nat)
  have "unat (file_u32 f 12) = length records" using nr by (simp add: hf file_header_fields F unat_of_nat)
  moreover have "records \<noteq> [] \<Longrightarrow> unat (file_u32 f 8) = unat o2" by (simp add: hf file_header_fields F)
  moreover have "length (concat (map coff_sym_bytes records)) = 18 * length records"
    using table_length [of records coff_sym_bytes 18] names by (simp add: coff_sym_length)
  ultimately have B: "coff_symbols_read_as f records tab"
    using blk [of "unat o2" "concat (map coff_sym_bytes records)"] blk [of "unat o2 + 18 * length records" tab]
    by (simp add: coff_symbols_read_as_def Let_def b(4))
  have ll: "length dat = length infos" "length rel = length infos"
    using list_all2_lengthD [OF D] list_all2_lengthD [OF R] by simp_all
  have hl: "length (section_header_bytes x) = 40" if "x \<in> set (?hd dat rel)" for x
    using that by (auto simp: coff_section_header_length)
  have tabl: "length (concat (map section_header_bytes (?hd dat rel))) = length infos * 40"
    using table_length [of "?hd dat rel" section_header_bytes, OF hl] ll by simp
  have tab: "read_at 20 (length infos * 40) f = concat (map section_header_bytes (?hd dat rel))"
    using blk [of 20 "concat (map section_header_bytes (?hd dat rel))"] tabl by (simp add: b(4))
  have tot: "20 + length infos * 40 \<le> length f"
    using b(3) tabl fl by (auto simp: b(4) blocks_fit_def simp del: length_concat)
  have "coff_reads_as f j (infos ! j)" if j: "j < length infos" for j
  proof (rule coff_reads_asI)
    have "read_at (20 + j * 40) 40 f = read_at (j * 40) 40 (concat (map section_header_bytes (?hd dat rel)))"
      by (rule read_at_inner [OF tab tot]) (use j in simp)
    also have "\<dots> = section_header_bytes (?hd dat rel ! j)"
      by (rule table_entry [OF hl]) (use j ll in simp_all)
    finally show "read_at (20 + j * 40) 40 f = section_header_bytes (coff_section_header_of (infos ! j) (dat ! j) (rel ! j))"
      using j ll by simp
    show dk: "data_ok (infos ! j) (dat ! j)" and rk: "reloc_ok (infos ! j) (rel ! j)"
      using list_all2_nthD [OF D j] list_all2_nthD [OF R j] .
    show "coff_info_ok (infos ! j)" using ok j by simp
    show "read_at (unat (snd (dat ! j))) (length (ci_data (infos ! j))) f = ci_data (infos ! j)"
      if "\<not> ci_isBss (infos ! j)" "ci_data (infos ! j) \<noteq> []"
    proof (rule blk)
      have "(infos ! j, dat ! j) \<in> set (filter (\<lambda>(i, p). \<not> ci_isBss i \<and> snd p \<noteq> 0 \<and> ci_data i \<noteq> []) (zip infos dat))"
        using that dk j ll by (auto simp: data_ok_def in_set_zip)
      then show "(unat (snd (dat ! j)), ci_data (infos ! j)) \<in> set blocks"
        by (force simp: b(4) coff_data_blocks_def)
    qed
    show "read_at (unat (snd (rel ! j))) (10 * length (ci_relocs (infos ! j))) f =
        concat (map coff_reloc_bytes (ci_relocs (infos ! j)))" if "ci_relocs (infos ! j) \<noteq> []"
    proof -
      have "(infos ! j, rel ! j) \<in> set (filter (\<lambda>(i, p). snd p \<noteq> 0 \<and> ci_relocs i \<noteq> []) (zip infos rel))"
        using that rk j ll by (auto simp: reloc_ok_def in_set_zip)
      then have "(unat (snd (rel ! j)), concat (map coff_reloc_bytes (ci_relocs (infos ! j)))) \<in> set blocks"
        by (force simp: b(4) coff_reloc_blocks_def)
      from blk [OF this] show ?thesis by (simp add: relocs_length mult.commute del: length_concat)
    qed
  qed
  then show ?thesis using A B by blast
qed

section \<open>The section list\<close>

definition coff_section_size :: "section_map \<Rightarrow> section_type \<Rightarrow> nat" where
  "coff_section_size sections t = (case sections t of None \<Rightarrow> 0 | Some s \<Rightarrow> length (getData s))"

abbreviation coff_emitted :: "section_type set" where
  "coff_emitted \<equiv> {NonInitialized, DataSec, ReadOnly, Text}"

definition coff_code_info :: "section_type \<Rightarrow> code_section \<Rightarrow> coff_section_info" where
  "coff_code_info t sec =
     (if t = Text then coff_section_info_of Text ''.text'' SCN_TEXT 16 sec
      else if t = ReadOnly then coff_section_info_of ReadOnly ''.rdata'' SCN_RDATA 16 sec
      else if t = DataSec then coff_section_info_of DataSec ''.data'' SCN_DATA 8 sec
      else coff_section_info_of NonInitialized ''.bss'' SCN_BSS 8 sec)"

lemma coff_code_info_fields:
  "ci_relocs (coff_code_info t sec) = []" "length (ci_data (coff_code_info t sec)) = length (getData sec)"
  "t \<in> coff_emitted \<Longrightarrow> ci_secType (coff_code_info t sec) = t"
  by (auto simp: coff_code_info_def coff_section_info_of_def)

definition coff_secs_ok :: "section_map \<Rightarrow> section_type set \<Rightarrow> coff_sections \<Rightarrow> bool" where
  "coff_secs_ok sections T st \<longleftrightarrow> (case st of (infos, idx) \<Rightarrow>
     length infos \<le> card T \<and> data_need infos \<le> (\<Sum>t\<in>T. coff_section_size sections t + 4) \<and>
     (\<forall>i \<in> set infos. ci_relocs i = []) \<and>
     (\<forall>t. idx t \<noteq> None \<longleftrightarrow> t \<in> T \<and> sections t \<noteq> None) \<and>
     (\<forall>t n. idx t = Some n \<longrightarrow>
        (\<exists>k sec. unat n = Suc k \<and> k < length infos \<and> sections t = Some sec \<and> infos ! k = coff_code_info t sec)))"

lemma addSec_ok:
  assumes "coff_secs_ok sections T st" "t \<notin> T" "finite T" "card T < 100"
    and "\<And>sec. coff_section_info_of t n ch al sec = coff_code_info t sec"
  shows "coff_secs_ok sections (insert t T) (addSec sections t n ch al st)"
proof -
  obtain infos idx where st: "st = (infos, idx)" by (metis prod.exhaust)
  have u: "unat (of_nat (Suc (length infos)) :: u16) = Suc (length infos)"
    using assms(1,4) by (simp add: coff_secs_ok_def st unat_of_nat del: of_nat_Suc)
  show ?thesis
  proof (cases "sections t")
    case None
    then show ?thesis
      using assms(1-4) by (auto simp: coff_secs_ok_def st addSec_def)
  next
    case (Some sec)
    let ?infos = "infos @ [coff_code_info t sec]" and ?idx = "idx(t \<mapsto> of_nat (Suc (length infos)))"
    have e: "addSec sections t n ch al st = (?infos, ?idx)" by (simp add: st addSec_def Some assms(5) Let_def)
    note old = assms(1) [unfolded coff_secs_ok_def st prod.case]
    have "\<exists>k s. unat m = Suc k \<and> k < length ?infos \<and> sections u = Some s \<and> ?infos ! k = coff_code_info u s"
      if m: "?idx u = Some m" for u m
    proof (cases "u = t")
      case True
      then show ?thesis using m u Some by (intro exI [of _ "length infos"] exI [of _ sec]) (auto simp del: of_nat_Suc)
    next
      case False
      then have "idx u = Some m" using m by simp
      with old obtain k s where "unat m = Suc k" "k < length infos" "sections u = Some s" "infos ! k = coff_code_info u s"
        by blast
      then show ?thesis by (intro exI [of _ k] exI [of _ s]) (simp add: nth_append)
    qed
    moreover have "data_need ?infos \<le> (\<Sum>t\<in>insert t T. coff_section_size sections t + 4)"
      using old assms(2,3) Some by (simp add: data_need_def coff_code_info_fields coff_section_size_def)
    moreover have "\<forall>u. ?idx u \<noteq> None \<longleftrightarrow> u \<in> insert t T \<and> sections u \<noteq> None" using old Some by auto
    ultimately show ?thesis
      using old assms(2,3) unfolding e coff_secs_ok_def prod.case by (auto simp: coff_code_info_fields)
  qed
qed

lemma coff_code_sections_ok: "coff_secs_ok sections coff_emitted (coff_code_sections sections)"
proof -
  have z: "coff_secs_ok sections {} ([], Map.empty)"
    by (simp add: coff_secs_ok_def data_need_def)
  show ?thesis
    unfolding coff_code_sections_def Let_def
    by (intro addSec_ok z) (simp_all add: coff_code_info_def)
qed

section \<open>Relocations by section\<close>

definition coff_view :: "coff_section_info \<Rightarrow> string \<times> u32 \<times> u32 \<times> u8 list \<times> bool \<times> section_type" where
  "coff_view i = (ci_name i, ci_characteristics i, ci_alignment i, ci_data i, ci_isBss i, ci_secType i)"

definition reloc_count :: "coff_section_info list \<Rightarrow> nat" where
  "reloc_count infos = sum_list (map (\<lambda>i. length (ci_relocs i)) infos)"

lemma reloc_need_count: "reloc_need infos = 10 * reloc_count infos + 4 * length infos"
  by (induction infos) (simp_all add: reloc_need_def reloc_count_def)

lemma reloc_count_update:
  "k < length infos \<Longrightarrow> reloc_count (infos[k := i]) + length (ci_relocs (infos ! k)) = reloc_count infos + length (ci_relocs i)"
  by (induction infos arbitrary: k) (auto simp: reloc_count_def split: nat.split)

lemma reloc_count_member: "i \<in> set infos \<Longrightarrow> length (ci_relocs i) \<le> reloc_count infos"
  unfolding reloc_count_def by (rule member_le_sum_list) auto

lemma pred_word: "0 < unat m \<Longrightarrow> unat (m - 1) = unat m - 1" for m :: u16
  by (subst unat_sub) (simp_all add: word_le_nat_alt)

text \<open>Each relocation is appended to the table of its own section; nothing else changes.\<close>

lemma coff_add_relocs_ok:
  assumes "coff_add_relocs idx si rs infos = Inr infos'"
    "\<And>t n. idx t = Some n \<Longrightarrow> 0 < unat n \<and> unat n \<le> length infos"
    "\<And>t u n. idx t = Some n \<Longrightarrow> idx u = Some n \<Longrightarrow> t = u"
  shows "map coff_view infos' = map coff_view infos \<and> reloc_count infos' = reloc_count infos + length rs \<and>
    (\<forall>t n. idx t = Some n \<longrightarrow> ci_relocs (infos' ! (unat n - 1)) =
       ci_relocs (infos ! (unat n - 1)) @ map (coff_relocation_of si) (filter (\<lambda>r. or_section r = t) rs))"
  using assms
proof (induction rs arbitrary: infos)
  case Nil
  then show ?case by simp
next
  case (Cons r rs)
  obtain n where n: "idx (or_section r) = Some n"
    using Cons.prems(1) by (cases "idx (or_section r)") auto
  define k where "k = unat n - 1"
  have pos: "0 < unat n" "unat n \<le> length infos" using Cons.prems(2) [OF n] by simp_all
  define infos1 where "infos1 = infos[k := (infos ! k)\<lparr>ci_relocs := ci_relocs (infos ! k) @ [coff_relocation_of si r]\<rparr>]"
  have go: "coff_add_relocs idx si rs infos1 = Inr infos'"
    using Cons.prems(1) pos by (simp add: n infos1_def k_def pred_word Let_def)
  have l: "length infos1 = length infos" by (simp add: infos1_def)
  note IH = Cons.IH [OF go, unfolded l, OF Cons.prems(2,3)]
  have kl: "k < length infos" using pos by (simp add: k_def)
  have rel: "ci_relocs (infos' ! (unat m - 1)) =
      ci_relocs (infos ! (unat m - 1)) @ map (coff_relocation_of si) (filter (\<lambda>r. or_section r = t) (r # rs))"
    if m: "idx t = Some m" for t m
  proof -
    have "unat m - 1 < length infos" using Cons.prems(2) [OF m] by linarith
    moreover have "unat m - 1 = k \<longleftrightarrow> or_section r = t"
    proof
      assume "unat m - 1 = k"
      then have "unat m = unat n" using Cons.prems(2) [OF m] pos unfolding k_def by linarith
      then have "m = n" by (simp add: word_unat_eq_iff)
      then show "or_section r = t" using Cons.prems(3) [OF n] m by simp
    qed (use m n in \<open>simp add: k_def\<close>)
    ultimately show ?thesis using IH m by (auto simp: infos1_def nth_list_update)
  qed
  have "map coff_view infos1 = map coff_view infos"
    using kl by (simp add: infos1_def map_update coff_view_def list_update_same_conv)
  moreover have "reloc_count infos1 = Suc (reloc_count infos)"
    using reloc_count_update [OF kl, of "(infos ! k)\<lparr>ci_relocs := ci_relocs (infos ! k) @ [coff_relocation_of si r]\<rparr>"]
    by (simp add: infos1_def)
  ultimately show ?case using IH rel by simp
qed

lemma coff_add_relocs_error:
  "(\<exists>e. coff_add_relocs idx si rs infos = Inl e) \<longleftrightarrow> (\<exists>r \<in> set rs. idx (or_section r) = None)"
  by (induction rs arbitrary: infos) (auto simp: Let_def split: option.splits)

section \<open>Symbols\<close>

text \<open>A name field for a name: the name itself, or the offset of the name in the string table.\<close>

definition coff_name_ok :: "u8 list \<Rightarrow> u8 list \<Rightarrow> string \<Rightarrow> bool" where
  "coff_name_ok tab nm name \<longleftrightarrow>
     (if length name \<le> 8 then nm = str_bytes name @ replicate (8 - length name) 0
      else \<exists>off. nm = le_bytes 4 (0 :: u32) @ le_bytes 4 (off :: u32) \<and> 4 \<le> unat off \<and> cstring_at tab (unat off) name)"

definition coff_sym_entry :: "(section_type \<rightharpoonup> u16) \<Rightarrow> u8 list \<Rightarrow> object_symbol \<Rightarrow> coff_symbol \<Rightarrow> bool" where
  "coff_sym_entry idx tab s e \<longleftrightarrow>
     (\<exists>number. coff_section_number idx s = Some number \<and> e = coff_symbol_of s (cy_Name e) number) \<and>
     coff_name_ok tab (cy_Name e) (os_name s)"

lemma coff_sym_entry_append: "coff_sym_entry idx tab s e \<Longrightarrow> coff_sym_entry idx (tab @ rest) s e"
  by (auto simp: coff_sym_entry_def coff_name_ok_def intro: cstring_at_append split: if_splits)

lemma coff_name_ok_length: "coff_name_ok tab nm name \<Longrightarrow> length nm = 8"
  by (auto simp: coff_name_ok_def split: if_splits)

definition coff_names_size :: "object_symbol list \<Rightarrow> nat" where
  "coff_names_size syms = sum_list (map (\<lambda>s. length (os_name s) + 1) syms)"

lemma coff_symbol_name_ok:
  assumes "coff_symbol_name tab name = (tab', nm)" "4 \<le> length tab" "length tab < 2 ^ 32"
  shows "\<exists>rest. tab' = tab @ rest \<and> length rest \<le> length name + 1 \<and> coff_name_ok tab' nm name"
proof (cases "length name \<le> 8")
  case True
  then show ?thesis using assms by (simp add: coff_symbol_name_def coff_name_ok_def)
next
  case False
  have "cstring_at (tab @ str_bytes name @ [0]) (length tab) name" unfolding cstring_at_def by blast
  moreover have "tab' = tab @ str_bytes name @ [0]" "nm = le_bytes 4 (0 :: u32) @ le_bytes 4 (of_nat (length tab) :: u32)"
    using assms(1) False by (auto simp: coff_symbol_name_def addCoffString_def)
  ultimately show ?thesis
    using False assms(2,3)
    by (intro exI [of _ "str_bytes name @ [0]"]) (auto simp: coff_name_ok_def unat_of_nat intro!: exI [of _ "of_nat (length tab)"])
qed

lemma coff_build_symbols_ok:
  assumes "coff_build_symbols idx syms (tab, records, si) = Inr (tab', records', si')" "4 \<le> length tab"
    "length tab + coff_names_size syms < 2 ^ 32" "length records + length syms < 2 ^ 32"
  shows "\<exists>entries rest. records' = records @ entries \<and> tab' = tab @ rest \<and> length rest \<le> coff_names_size syms \<and>
    list_all2 (coff_sym_entry idx tab') syms entries \<and>
    (\<forall>n k. si' n = Some k \<longrightarrow> si n = Some k \<or> (\<exists>i < length syms. unat k = length records + i \<and> os_name (syms ! i) = n)) \<and>
    (\<forall>n. si' n \<noteq> None \<longleftrightarrow> si n \<noteq> None \<or> n \<in> os_name ` set syms)"
  using assms
proof (induction syms arbitrary: tab records si)
  case Nil
  then show ?case by simp
next
  case (Cons s syms)
  obtain tab1 nm where a: "coff_symbol_name tab (os_name s) = (tab1, nm)" by (metis prod.exhaust)
  have "length tab < 2 ^ 32" using Cons.prems(3) by simp
  from coff_symbol_name_ok [OF a Cons.prems(2) this] obtain r1 where
    r1: "tab1 = tab @ r1" "length r1 \<le> length (os_name s) + 1" and c1: "coff_name_ok tab1 nm (os_name s)" by blast
  obtain number where num: "coff_section_number idx s = Some number"
    using Cons.prems(1) a by (cases "coff_section_number idx s") auto
  define e where "e = coff_symbol_of s nm number"
  define si1 where "si1 = si(os_name s \<mapsto> of_nat (length records))"
  have go: "coff_build_symbols idx syms (tab1, records @ [e], si1) = Inr (tab', records', si')"
    using Cons.prems(1) a num by (simp add: e_def si1_def)
  have "4 \<le> length tab1" "length tab1 + coff_names_size syms < 2 ^ 32" "length (records @ [e]) + length syms < 2 ^ 32"
    using r1 Cons.prems by (auto simp: coff_names_size_def)
  from Cons.IH [OF go this] obtain entries r2 where
    I: "records' = records @ e # entries" "tab' = tab1 @ r2" "length r2 \<le> coff_names_size syms"
      "list_all2 (coff_sym_entry idx tab') syms entries"
      "\<And>n k. si' n = Some k \<Longrightarrow> si1 n = Some k \<or> (\<exists>i < length syms. unat k = length records + Suc i \<and> os_name (syms ! i) = n)"
      "\<And>n. si' n \<noteq> None \<longleftrightarrow> si1 n \<noteq> None \<or> n \<in> os_name ` set syms" by auto
  have "coff_sym_entry idx tab1 s e" using c1 num by (simp add: coff_sym_entry_def e_def coff_symbol_of_def)
  then have ent: "coff_sym_entry idx tab' s e" by (simp add: I(2) coff_sym_entry_append)
  have u: "unat (of_nat (length records) :: u32) = length records" using Cons.prems(4) by (simp add: unat_of_nat)
  have idx: "si n = Some k \<or> (\<exists>i < length (s # syms). unat k = length records + i \<and> os_name ((s # syms) ! i) = n)"
    if "si' n = Some k" for n k
    using I(5) [OF that]
  proof
    assume "si1 n = Some k"
    then show ?thesis using u by (auto simp: si1_def split: if_splits)
  next
    assume "\<exists>i < length syms. unat k = length records + Suc i \<and> os_name (syms ! i) = n"
    then obtain i where "i < length syms" "unat k = length records + Suc i" "os_name (syms ! i) = n" by blast
    then show ?thesis by (intro disjI2 exI [of _ "Suc i"]) simp
  qed
  have dm: "si' n \<noteq> None \<longleftrightarrow> si n \<noteq> None \<or> n \<in> os_name ` set (s # syms)" for n
    using I(6) [of n] by (auto simp: si1_def)
  have sz: "length (r1 @ r2) \<le> coff_names_size (s # syms)" using r1(2) I(3) by (simp add: coff_names_size_def)
  show ?case
    by (rule exI [of _ "e # entries"], rule exI [of _ "r1 @ r2"])
      (use I(1,2,4) r1(1) ent idx dm sz in simp)
qed

lemma coff_build_symbols_error:
  "(\<exists>e. coff_build_symbols idx syms st = Inl e) \<longleftrightarrow> (\<exists>s \<in> set syms. coff_section_number idx s = None)"
  by (induction syms arbitrary: st) (auto split: prod.splits option.splits)

text \<open>A linker's reading of a name field.\<close>

definition coff_read_name :: "u8 list \<Rightarrow> u8 list \<Rightarrow> u8 list" where
  "coff_read_name tab nm =
     (if take 4 nm = [0, 0, 0, 0] then read_cstring tab (unat (le_word (drop 4 nm) :: u32))
      else takeWhile (\<lambda>b. b \<noteq> 0) nm)"

lemma coff_read_name_ok:
  assumes "coff_name_ok tab nm name" "nul_free name" "name \<noteq> []" "4 \<le> length tab"
  shows "coff_read_name (coff_string_table tab) nm = str_bytes name"
proof (cases "length name \<le> 8")
  case True
  then have nm: "nm = str_bytes name @ replicate (8 - length name) 0" using assms(1) by (simp add: coff_name_ok_def)
  have "hd nm \<noteq> 0" using assms(2,3) by (cases name) (auto simp: nm nul_free_def str_bytes_def)
  then have "take 4 nm \<noteq> [0, 0, 0, 0]" by (cases nm) auto
  moreover have "takeWhile (\<lambda>b. b \<noteq> 0) nm = str_bytes name"
    using assms(2) by (auto simp: nm nul_free_def takeWhile_append takeWhile_replicate)
  ultimately show ?thesis by (simp add: coff_read_name_def)
next
  case False
  then obtain off :: u32 where off: "nm = le_bytes 4 (0 :: u32) @ le_bytes 4 off" "4 \<le> unat off" "cstring_at tab (unat off) name"
    using assms(1) by (auto simp: coff_name_ok_def)
  have z: "le_bytes 4 (0 :: u32) = [0, 0, 0, 0]" by (simp add: le_bytes_def upt_conv_Cons)
  have "drop (unat off) (coff_string_table tab) = drop (unat off) tab"
    using off(2) assms(4) by (simp add: coff_string_table_def write_at_def)
  then have "read_cstring (coff_string_table tab) (unat off) = read_cstring tab (unat off)" by (simp add: read_cstring_def)
  then show ?thesis
    using cstring_at_read [OF off(3) assms(2)] by (simp add: coff_read_name_def off(1) z le_word_le_bytes_full)
qed

section \<open>What the writer builds\<close>

lemma coff_view_eq: "coff_view i = coff_view j \<Longrightarrow> i = j\<lparr>ci_relocs := ci_relocs i\<rparr>"
  by (cases i; cases j) (simp add: coff_view_def)

lemma coff_index_ok:
  assumes "coff_code_sections sections = (infos, idx)"
  shows "idx t = Some n \<Longrightarrow> 0 < unat n \<and> unat n \<le> length infos \<and>
      (\<exists>sec. sections t = Some sec \<and> infos ! (unat n - 1) = coff_code_info t sec)"
    "idx t = Some n \<Longrightarrow> idx u = Some n \<Longrightarrow> t = u"
    "idx t = None \<longleftrightarrow> t \<notin> coff_emitted \<or> sections t = None"
    "length infos \<le> 4" "data_need infos \<le> (\<Sum>t\<in>coff_emitted. coff_section_size sections t) + 16"
    "\<forall>i \<in> set infos. ci_relocs i = []"
proof -
  note S = coff_code_sections_ok [of sections, unfolded assms coff_secs_ok_def prod.case]
  have at: "\<exists>k sec. unat n = Suc k \<and> k < length infos \<and> sections t = Some sec \<and> infos ! k = coff_code_info t sec"
    if "idx t = Some n" for t n using S that by (elim conjE) blast
  have dom: "idx t \<noteq> None \<longleftrightarrow> t \<in> coff_emitted \<and> sections t \<noteq> None" for t
    using S by (elim conjE) (erule spec)
  then show "idx t = None \<longleftrightarrow> t \<notin> coff_emitted \<or> sections t = None" by blast
  show "0 < unat n \<and> unat n \<le> length infos \<and>
      (\<exists>sec. sections t = Some sec \<and> infos ! (unat n - 1) = coff_code_info t sec)" if t: "idx t = Some n"
    using at [OF t] by auto
  show "t = u" if t: "idx t = Some n" and u: "idx u = Some n"
  proof -
    from at [OF t] at [OF u] obtain s s' where "coff_code_info t s = coff_code_info u s'" by auto
    moreover have "t \<in> coff_emitted" "u \<in> coff_emitted" using dom [of t] dom [of u] t u by auto
    ultimately show ?thesis using coff_code_info_fields(3) by metis
  qed
  show "length infos \<le> 4" "\<forall>i \<in> set infos. ci_relocs i = []" using S by simp_all
  show "data_need infos \<le> (\<Sum>t\<in>coff_emitted. coff_section_size sections t) + 16" using S by simp
qed

lemma coff_write_parts:
  assumes "coff_write w sections = Inr f"
  shows "\<exists>infos idx tab records si infos'. coff_code_sections sections = (infos, idx) \<and>
    coff_build_symbols idx (cw_symbols w) (replicate 4 0, [], Map.empty) = Inr (tab, records, si) \<and>
    coff_add_relocs idx si (cw_relocs w) infos = Inr infos' \<and> f = coff_image infos' records (coff_string_table tab)"
  using assms by (auto simp: coff_write_def split: prod.splits sum.splits)

definition coff_input_size :: "coff_writer \<Rightarrow> section_map \<Rightarrow> nat" where
  "coff_input_size w sections =
     (\<Sum>t\<in>coff_emitted. coff_section_size sections t) + coff_names_size (cw_symbols w)
     + 18 * length (cw_symbols w) + 10 * length (cw_relocs w)"

lemma coff_records_length: "list_all2 (coff_sym_entry idx tab) syms entries \<Longrightarrow> \<forall>s \<in> set entries. length (cy_Name s) = 8"
  by (induction rule: list_all2_induct) (auto simp: coff_sym_entry_def dest: coff_name_ok_length)

lemma coff_symbols_built:
  assumes "coff_build_symbols idx syms (replicate 4 0, [], Map.empty) = Inr (tab, records, si)"
    "coff_names_size syms + 4 < 2 ^ 32" "length syms < 2 ^ 32"
  shows "list_all2 (coff_sym_entry idx tab) syms records \<and> 4 \<le> length tab \<and> length tab \<le> 4 + coff_names_size syms \<and>
    (\<forall>n k. si n = Some k \<longrightarrow> (\<exists>i < length syms. unat k = i \<and> os_name (syms ! i) = n)) \<and>
    (\<forall>n. si n \<noteq> None \<longleftrightarrow> n \<in> os_name ` set syms)"
  using coff_build_symbols_ok [OF assms(1)] assms(2,3) by auto

section \<open>The alignment is not used\<close>

definition strip :: "coff_section_info \<Rightarrow> coff_section_info" where
  "strip i = i\<lparr>ci_alignment := 0\<rparr>"

lemma strip_fields [simp]:
  "ci_name (strip i) = ci_name i" "ci_characteristics (strip i) = ci_characteristics i" "ci_data (strip i) = ci_data i"
  "ci_isBss (strip i) = ci_isBss i" "ci_relocs (strip i) = ci_relocs i"
  by (simp_all add: strip_def)

lemma coff_layout_strip:
  "coff_layout_data (map strip infos) off = coff_layout_data infos off"
  "coff_layout_relocs (map strip infos) off = coff_layout_relocs infos off"
  by (induction infos arbitrary: off) (simp_all add: Let_def)

lemma coff_blocks_strip:
  "coff_data_blocks (map strip infos) ps = coff_data_blocks infos ps"
  "coff_reloc_blocks (map strip infos) qs = coff_reloc_blocks infos qs"
  by (simp_all add: coff_data_blocks_def coff_reloc_blocks_def zip_map1 filter_map o_def split_def)

lemma coff_headers_strip:
  "map (\<lambda>(i, d, r). coff_section_header_of i d r) (zip (map strip infos) ps) =
   map (\<lambda>(i, d, r). coff_section_header_of i d r) (zip infos ps)"
  by (simp add: zip_map1 o_def split_def coff_section_header_of_def)

lemma coff_image_strip: "map strip xs = map strip ys \<Longrightarrow> coff_image xs records tab = coff_image ys records tab"
proof -
  have "coff_image (map strip zs) records tab = coff_image zs records tab" for zs
    unfolding coff_image_def coff_layout_strip coff_blocks_strip coff_headers_strip length_map by (rule refl)
  then show "map strip xs = map strip ys \<Longrightarrow> ?thesis" by metis
qed

lemma coff_add_relocs_strip:
  "map strip xs = map strip ys \<Longrightarrow>
   rel_sum (=) (\<lambda>a b. map strip a = map strip b) (coff_add_relocs idx si rs xs) (coff_add_relocs idx si rs ys)"
proof (induction rs arbitrary: xs ys)
  case Nil
  then show ?case by simp
next
  case (Cons r rs)
  show ?case
  proof (cases "idx (or_section r)")
    case None
    then show ?thesis by simp
  next
    case (Some n)
    let ?k = "unat (n - 1)"
    let ?up = "\<lambda>zs. zs[?k := (zs ! ?k)\<lparr>ci_relocs := ci_relocs (zs ! ?k) @ [coff_relocation_of si r]\<rparr>]"
    have len: "length xs = length ys" using arg_cong [OF Cons.prems, of length] by simp
    have "map strip (?up xs) = map strip (?up ys)"
    proof (cases "?k < length xs")
      case True
      then have "strip (xs ! ?k) = strip (ys ! ?k)"
        using arg_cong [OF Cons.prems, of "\<lambda>zs. zs ! ?k"] len by simp
      then have "strip ((xs ! ?k)\<lparr>ci_relocs := ci_relocs (xs ! ?k) @ [coff_relocation_of si r]\<rparr>) =
          strip ((ys ! ?k)\<lparr>ci_relocs := ci_relocs (ys ! ?k) @ [coff_relocation_of si r]\<rparr>)"
        by (cases "xs ! ?k"; cases "ys ! ?k") (simp add: strip_def)
      then show ?thesis using Cons.prems by (simp add: map_update)
    next
      case False
      then show ?thesis using Cons.prems len by (simp add: list_update_beyond)
    qed
    from Cons.IH [OF this] show ?thesis by (simp add: Some Let_def)
  qed
qed

lemma addSec_strip:
  "map strip (fst st) = map strip (fst st') \<and> snd st = snd st' \<Longrightarrow>
   map strip (fst (addSec (\<lambda>t. map_option (\<lambda>s. s\<lparr>cs_alignment := n\<rparr>) (sections t)) t m ch al st)) =
     map strip (fst (addSec sections t m ch al st')) \<and>
   snd (addSec (\<lambda>t. map_option (\<lambda>s. s\<lparr>cs_alignment := n\<rparr>) (sections t)) t m ch al st) = snd (addSec sections t m ch al st')"
  by (cases st; cases st'; cases "sections t")
    (auto simp: addSec_def Let_def coff_section_info_of_def strip_def getData_def dest: map_eq_imp_length_eq)

lemma coff_code_sections_strip:
  "map strip (fst (coff_code_sections (\<lambda>t. map_option (\<lambda>s. s\<lparr>cs_alignment := n\<rparr>) (sections t)))) =
     map strip (fst (coff_code_sections sections)) \<and>
   snd (coff_code_sections (\<lambda>t. map_option (\<lambda>s. s\<lparr>cs_alignment := n\<rparr>) (sections t))) = snd (coff_code_sections sections)"
  unfolding coff_code_sections_def Let_def by (intro addSec_strip) simp

section \<open>Properties\<close>

text \<open>C33: reading the written COFF file back gives its contents: the AMD64 machine number, one header
  per emitted section with the section's name, attributes, size and bytes, for each section the
  table of exactly its own relocations in their order, and behind them the symbol table and the
  string table.\<close>

theorem coff_write_reads:
  assumes "coff_write w sections = Inr f" "coff_input_size w sections < 2 ^ 31" "length (cw_relocs w) < 2 ^ 16"
  shows "\<exists>infos idx tab records si. coff_code_sections sections = (infos, idx) \<and>
    coff_build_symbols idx (cw_symbols w) (replicate 4 0, [], Map.empty) = Inr (tab, records, si) \<and>
    file_u16 f 0 = COFF_MACHINE_AMD64 \<and> unat (file_u16 f 2) = length infos \<and>
    coff_symbols_read_as f records (coff_string_table tab) \<and>
    (\<forall>t n. idx t = Some n \<longrightarrow> (\<exists>sec. sections t = Some sec \<and>
       coff_reads_as f (unat n - 1)
         ((coff_code_info t sec)\<lparr>ci_relocs := map (coff_relocation_of si) (filter (\<lambda>r. or_section r = t) (cw_relocs w))\<rparr>)))"
proof -
  from coff_write_parts [OF assms(1)] obtain infos idx tab records si infos' where
    code: "coff_code_sections sections = (infos, idx)" and
    syms: "coff_build_symbols idx (cw_symbols w) (replicate 4 0, [], Map.empty) = Inr (tab, records, si)" and
    rel: "coff_add_relocs idx si (cw_relocs w) infos = Inr infos'" and
    f: "f = coff_image infos' records (coff_string_table tab)" by blast
  note I = coff_index_ok [OF code]
  have "coff_names_size (cw_symbols w) + 4 < 2 ^ 32" "length (cw_symbols w) < 2 ^ 32"
    using assms(2) by (simp_all add: coff_input_size_def)
  note B = coff_symbols_built [OF syms this]
  have R: "map coff_view infos' = map coff_view infos \<and> reloc_count infos' = reloc_count infos + length (cw_relocs w) \<and>
    (\<forall>t n. idx t = Some n \<longrightarrow> ci_relocs (infos' ! (unat n - 1)) =
       ci_relocs (infos ! (unat n - 1)) @ map (coff_relocation_of si) (filter (\<lambda>r. or_section r = t) (cw_relocs w)))"
    by (rule coff_add_relocs_ok [OF rel]) (use I(1) in blast, rule I(2))
  have len: "length infos' = length infos" using arg_cong [OF R [THEN conjunct1], of length] by simp
  have data: "map ci_data infos' = map ci_data infos"
    using R [THEN conjunct1, THEN arg_cong, of "map (\<lambda>(n, c, a, d, b, t). d)"] by (simp add: coff_view_def o_def)
  have dn: "data_need infos' = data_need infos"
    using arg_cong [OF data, of "\<lambda>ds. sum_list (map (\<lambda>d. length d + 4) ds)"] by (simp add: data_need_def o_def)
  have c0: "reloc_count infos = 0" using I(6) by (simp add: reloc_count_def)
  then have cnt: "reloc_count infos' = length (cw_relocs w)" using R by simp
  have tab: "length (coff_string_table tab) = length tab"
    using B by (simp add: coff_string_table_def)
  have rl: "length records = length (cw_symbols w)" using B list_all2_lengthD by fastforce
  have small: "coff_need infos' + 40 * length infos' + 18 * length records + length (coff_string_table tab) + 64 < 2 ^ 32"
    using I(4,5) B assms(2) dn cnt len
    by (simp add: coff_need_split reloc_need_count coff_input_size_def rl tab)
  have iok: "\<forall>i \<in> set infos'. coff_info_ok i"
  proof
    fix i assume i: "i \<in> set infos'"
    have "length (ci_data i) + 4 \<le> data_need infos'"
      unfolding data_need_def by (rule member_le_sum_list) (use i in auto)
    then show "coff_info_ok i"
      using reloc_count_member [OF i] cnt assms(2,3) dn I(5) by (simp add: coff_info_ok_def coff_input_size_def)
  qed
  have n16: "length infos' < 2 ^ 16" using I(4) len by simp
  note F = coff_image_reads [OF small coff_records_length [OF B [THEN conjunct1]] n16 iok f]
  have "\<exists>sec. sections t = Some sec \<and> coff_reads_as f (unat n - 1)
      ((coff_code_info t sec)\<lparr>ci_relocs := map (coff_relocation_of si) (filter (\<lambda>r. or_section r = t) (cw_relocs w))\<rparr>)"
    if t: "idx t = Some n" for t n
  proof -
    from I(1) [OF t] obtain sec where s: "0 < unat n" "unat n \<le> length infos" "sections t = Some sec"
      "infos ! (unat n - 1) = coff_code_info t sec" by blast
    have k: "unat n - 1 < length infos" using s by linarith
    have v: "coff_view (infos' ! (unat n - 1)) = coff_view (coff_code_info t sec)"
      using arg_cong [OF R [THEN conjunct1], of "\<lambda>xs. xs ! (unat n - 1)"] k len s(4) by simp
    have "ci_relocs (infos' ! (unat n - 1)) = map (coff_relocation_of si) (filter (\<lambda>r. or_section r = t) (cw_relocs w))"
      using R t s(4) by (simp add: coff_code_info_fields)
    with coff_view_eq [OF v] have e: "infos' ! (unat n - 1) = (coff_code_info t sec)
        \<lparr>ci_relocs := map (coff_relocation_of si) (filter (\<lambda>r. or_section r = t) (cw_relocs w))\<rparr>" by simp
    have "coff_reads_as f (unat n - 1) (infos' ! (unat n - 1))" using F B k len by auto
    then show ?thesis using s(3) unfolding e by blast
  qed
  note sec = this
  show ?thesis
  proof (rule exI [of _ infos], rule exI [of _ idx], rule exI [of _ tab], rule exI [of _ records], rule exI [of _ si],
      intro conjI allI impI)
    show "coff_code_sections sections = (infos, idx)" by (rule code)
    show "coff_build_symbols idx (cw_symbols w) (replicate 4 0, [], Map.empty) = Inr (tab, records, si)" by (rule syms)
    show "file_u16 f 0 = COFF_MACHINE_AMD64" "unat (file_u16 f 2) = length infos"
      "coff_symbols_read_as f records (coff_string_table tab)" using F len by simp_all
  qed (rule sec)
qed

definition coff_demo_section :: code_section where
  "coff_demo_section = (new_section \<lparr>m_readable = True, m_writable = False, m_executable = True\<rparr> Text 16 Little 0x90 ''.text'')
     \<lparr>cs_buffer := [0x90, 0xC3]\<rparr>"

definition coff_demo_symbol :: "string \<Rightarrow> object_symbol" where
  "coff_demo_symbol n = \<lparr>os_name = n, os_section = Text, os_offset = 1, os_size = 1, os_isGlobal = True, os_isWeak = False,
     os_isFunction = True\<rparr>"

definition coff_demo :: coff_writer where
  "coff_demo = \<lparr>cw_symbols = [coff_demo_symbol ''main'', coff_demo_symbol ''long_symbol''],
     cw_relocs = [\<lparr>or_section = Text, or_offset = 0, or_symbolName = ''main'', or_type = PCRel32, or_addend = 0\<rparr>]\<rparr>"

theorem coff_write_reads_witness:
  "\<exists>f. coff_write coff_demo [Text \<mapsto> coff_demo_section] = Inr f \<and> read_at (unat (file_u32 (read_at 20 40 f) 20)) 2 f = [0x90, 0xC3]"
proof -
  let ?s = "[Text \<mapsto> coff_demo_section]"
  have "\<not> isl (coff_write coff_demo ?s)" by code_simp
  then obtain f where f: "coff_write coff_demo ?s = Inr f" by (cases "coff_write coff_demo ?s") auto
  have "coff_input_size coff_demo ?s < 2 ^ 31" "length (cw_relocs coff_demo) < 2 ^ 16"
    by (simp_all add: coff_input_size_def coff_section_size_def coff_names_size_def coff_demo_def coff_demo_symbol_def
        coff_demo_section_def new_section_def getData_def)
  from coff_write_reads [OF f this] obtain infos idx si where
    c: "coff_code_sections ?s = (infos, idx)" and
    r: "\<forall>t n. idx t = Some n \<longrightarrow> (\<exists>sec. ?s t = Some sec \<and> coff_reads_as f (unat n - 1)
         ((coff_code_info t sec)\<lparr>ci_relocs := map (coff_relocation_of si) (filter (\<lambda>r. or_section r = t) (cw_relocs coff_demo))\<rparr>))"
    by blast
  have "idx Text = Some 1"
    using c by (auto simp: coff_code_sections_def addSec_def Let_def)
  with r obtain rs where "coff_reads_as f 0 ((coff_code_info Text coff_demo_section)\<lparr>ci_relocs := rs\<rparr>)" by fastforce
  then show ?thesis
    using f by (simp add: coff_reads_as_def Let_def coff_code_info_def coff_section_info_of_def coff_demo_section_def getData_def
        numeral_2_eq_2)
qed

text \<open>C34: every registered symbol has its record in order: its name, whether kept in the record or in
  the string table, is the one a linker reads; its value, section number, type and storage class
  are those of the symbol; and the index the writer keeps for a name is that of a record of that
  name.\<close>

theorem coff_symbol_table_correct:
  assumes "coff_build_symbols idx syms (replicate 4 0, [], Map.empty) = Inr (tab, records, si)"
    "coff_names_size syms + 4 < 2 ^ 32" "length syms < 2 ^ 32" "\<forall>s \<in> set syms. nul_free (os_name s) \<and> os_name s \<noteq> []"
  shows "length records = length syms \<and>
    (\<forall>i < length syms. let s = syms ! i; e = records ! i in
       coff_read_name (coff_string_table tab) (cy_Name e) = str_bytes (os_name s) \<and>
       coff_section_number idx s = Some (cy_SectionNumber e) \<and> cy_Value e = ucast (os_offset s) \<and>
       (cy_StorageClass e = COFF_SYM_CLASS_EXTERNAL \<longleftrightarrow> os_isGlobal s) \<and> (cy_Type e = 0x20 \<longleftrightarrow> os_isFunction s)) \<and>
    (\<forall>s \<in> set syms. \<exists>k. si (os_name s) = Some k \<and> unat k < length syms \<and> os_name (syms ! unat k) = os_name s)"
proof -
  note B = coff_symbols_built [OF assms(1-3)]
  have "let s = syms ! i; e = records ! i in
       coff_read_name (coff_string_table tab) (cy_Name e) = str_bytes (os_name s) \<and>
       coff_section_number idx s = Some (cy_SectionNumber e) \<and> cy_Value e = ucast (os_offset s) \<and>
       (cy_StorageClass e = COFF_SYM_CLASS_EXTERNAL \<longleftrightarrow> os_isGlobal s) \<and> (cy_Type e = 0x20 \<longleftrightarrow> os_isFunction s)"
    if i: "i < length syms" for i
  proof -
    have "coff_sym_entry idx tab (syms ! i) (records ! i)" using B i by (meson list_all2_nthD)
    then obtain number where e: "coff_section_number idx (syms ! i) = Some number"
      "records ! i = coff_symbol_of (syms ! i) (cy_Name (records ! i)) number"
      "coff_name_ok tab (cy_Name (records ! i)) (os_name (syms ! i))"
      by (auto simp: coff_sym_entry_def)
    have "nul_free (os_name (syms ! i))" "os_name (syms ! i) \<noteq> []" using assms(4) i by auto
    then have n: "coff_read_name (coff_string_table tab) (cy_Name (records ! i)) = str_bytes (os_name (syms ! i))"
      using coff_read_name_ok [OF e(3)] B by blast
    define nm where "nm = cy_Name (records ! i)"
    have r: "records ! i = coff_symbol_of (syms ! i) nm number" using e(2) by (simp add: nm_def)
    show ?thesis using n e(1) unfolding Let_def r
      by (simp add: coff_symbol_of_def COFF_SYM_CLASS_EXTERNAL_def COFF_SYM_CLASS_STATIC_def)
  qed
  moreover have "\<exists>k. si (os_name s) = Some k \<and> unat k < length syms \<and> os_name (syms ! unat k) = os_name s" if "s \<in> set syms" for s
  proof -
    have "si (os_name s) \<noteq> None" using B that by blast
    then obtain k where k: "si (os_name s) = Some k" by blast
    with B obtain i where "i < length syms" "unat k = i" "os_name (syms ! i) = os_name s" by blast
    then show ?thesis using k by blast
  qed
  moreover have "length records = length syms" using B list_all2_lengthD by fastforce
  ultimately show ?thesis by blast
qed

theorem coff_symbol_table_correct_witness:
  "\<exists>tab records si. coff_build_symbols [Text \<mapsto> 1] (cw_symbols coff_demo) (replicate 4 0, [], Map.empty) = Inr (tab, records, si) \<and>
     coff_read_name (coff_string_table tab) (cy_Name (records ! 1)) = str_bytes ''long_symbol''"
proof -
  let ?b = "coff_build_symbols [Text \<mapsto> 1] (cw_symbols coff_demo) (replicate 4 0, [], Map.empty)"
  have "\<not> isl ?b" by code_simp
  then obtain st where "?b = Inr st" by (cases ?b) auto
  then obtain tab records si where b: "?b = Inr (tab, records, si)" by (cases st) auto
  have h: "coff_names_size (cw_symbols coff_demo) + 4 < 2 ^ 32" "length (cw_symbols coff_demo) < 2 ^ 32"
    "\<forall>s \<in> set (cw_symbols coff_demo). nul_free (os_name s) \<and> os_name s \<noteq> []" "1 < length (cw_symbols coff_demo)"
    "os_name (cw_symbols coff_demo ! 1) = ''long_symbol''"
    by (simp_all add: coff_names_size_def coff_demo_def coff_demo_symbol_def nul_free_def str_bytes_def)
  from coff_symbol_table_correct [OF b h(1-3)] h(4)
  have "coff_read_name (coff_string_table tab) (cy_Name (records ! 1)) = str_bytes (os_name (cw_symbols coff_demo ! 1))"
    unfolding Let_def by blast
  then show ?thesis using b unfolding h(5) by blast
qed

text \<open>C35: the writer fails exactly when a symbol or a relocation belongs to a section that is not
  emitted.\<close>

theorem coff_write_error_iff:
  "(\<exists>e. coff_write w sections = Inl e) \<longleftrightarrow>
   (\<exists>s \<in> set (cw_symbols w). os_section s \<noteq> Undefined \<and> (os_section s \<notin> coff_emitted \<or> sections (os_section s) = None)) \<or>
   (\<exists>r \<in> set (cw_relocs w). or_section r \<notin> coff_emitted \<or> sections (or_section r) = None)"
proof -
  obtain infos idx where code: "coff_code_sections sections = (infos, idx)" by (metis prod.exhaust)
  let ?b = "coff_build_symbols idx (cw_symbols w) (replicate 4 0, [], Map.empty)"
  have num: "coff_section_number idx s = None \<longleftrightarrow>
      os_section s \<noteq> Undefined \<and> (os_section s \<notin> coff_emitted \<or> sections (os_section s) = None)" for s
    by (simp add: coff_section_number_def coff_index_ok(3) [OF code] del: insert_iff)
  have "(\<exists>e. coff_write w sections = Inl e) \<longleftrightarrow>
      (\<exists>e. ?b = Inl e) \<or> (\<exists>r \<in> set (cw_relocs w). idx (or_section r) = None)"
  proof (cases ?b)
    case (Inl e)
    then show ?thesis by (simp add: coff_write_def code)
  next
    case (Inr st)
    obtain tab records si where st: "st = (tab, records, si)" by (metis prod.exhaust)
    show ?thesis
      unfolding coff_write_def code prod.case Inr st sum.case coff_add_relocs_error [of idx si _ infos, symmetric]
      by (cases "coff_add_relocs idx si (cw_relocs w) infos") simp_all
  qed
  then show ?thesis unfolding coff_build_symbols_error num coff_index_ok(3) [OF code] .
qed

theorem coff_write_error_iff_witness:
  "(\<exists>e. coff_write coff_demo Map.empty = Inl e) \<and> (\<nexists>e. coff_write coff_demo [Text \<mapsto> coff_demo_section] = Inl e)"
  unfolding coff_write_error_iff by (simp add: coff_demo_def coff_demo_symbol_def)

text \<open>the alignment of a section is ignored: the section attributes always say 16 bytes (text and
  read-only data) or 8, whatever alignment the sections were created with.\<close>

theorem coff_alignment_ignored:
  "coff_write w (\<lambda>t. map_option (\<lambda>s. s\<lparr>cs_alignment := n\<rparr>) (sections t)) = coff_write w sections"
proof -
  let ?al = "\<lambda>t. map_option (\<lambda>s. s\<lparr>cs_alignment := n\<rparr>) (sections t)"
  obtain xs idx ys jdx where c: "coff_code_sections ?al = (xs, idx)" "coff_code_sections sections = (ys, jdx)"
    by (metis prod.exhaust)
  then have e: "idx = jdx" "map strip xs = map strip ys"
    using coff_code_sections_strip [of n sections] by simp_all
  show ?thesis
  proof (cases "coff_build_symbols jdx (cw_symbols w) (replicate 4 0, [], Map.empty)")
    case (Inl err)
    then show ?thesis by (simp add: coff_write_def c e)
  next
    case (Inr st)
    obtain tab records si where st: "st = (tab, records, si)" by (metis prod.exhaust)
    from coff_add_relocs_strip [OF e(2), of jdx si "cw_relocs w"]
    show ?thesis
      by (auto simp: coff_write_def c e Inr st rel_sum_simps intro!: coff_image_strip elim!: rel_sum.cases)
  qed
qed

end
