(* ===== verification/Spec2Isabelle.thy ===== *)
theory Spec2Isabelle
  imports DenseBits LinkedList RiscV64Relaxer RiscV64Relocation X86_64Relaxer X86_64Relocation RegAlloc SsaConstruction X86_64Frame RiscV64Frame Elf64Proofs CoffProofs
begin

text \<open>
  The back end of the EzPacker compiler: from the machine IR of a function to the bytes of an
  object file. The development follows that path.

  \<^bold>\<open>Containers.\<close> \<open>DenseBits\<close> is \<open>DenseBitSet\<close> (EzMir/include/MirPasses), the word array of the
  dataflow solver; its operations refine those of finite sets through a locale. \<open>LinkedList\<close> is
  \<open>IntrusiveLinkedList\<close> (EzCore), the doubly linked list of blocks and instructions, on a heap
  of link fields; every operation refines a list operation and keeps the rest of the heap.

  \<^bold>\<open>Machine IR.\<close> \<open>MirTypes\<close> holds what the analyses read of EzMir: register references and
  their order, operands, access flags, definitions and uses of an instruction. Opcode and target
  descriptor tables are generated at build time, so an instruction carries its rows of them.

  \<^bold>\<open>Analyses.\<close> \<open>CodeFlow\<close> is \<open>CodeFlowAnalysisPass\<close> (the graph and the pass, against an
  inductive relation of control edges). \<open>Liveness\<close> is \<open>LivenessAnalysisPass\<close>: block summaries,
  the register universe, the bit-set solver and the published result, which is proved to be the
  least solution, stated as the inductive predicate \<open>live_at\<close>.

  \<^bold>\<open>SSA construction.\<close> \<open>Dominators\<close> is the theory of dominance on rooted graphs and of
  parent maps, with a locale for the depth-first numbering; \<open>SsaDominators\<close> (post-order and
  dominator tree), \<open>SsaPhi\<close> (frontiers and phi placement) and \<open>SsaRename\<close> (the renaming walk and
  the whole pass) are the phases of \<open>NonSsaToSsaPass\<close>
  (EzMir/src/MirPasses/Passes/NonSsaToSsaPass.cpp). \<open>SsaSteps\<close>, \<open>SsaVisit\<close> and \<open>SsaWalk\<close> show what
  renaming does to an instruction, a block and the dominator tree; \<open>SsaConstruction\<close> concludes that
  the pass returns a function that computes what the original one does on every path and writes
  every register in one place. This is stated for the first function a pass object runs on, when
  its tables are empty, with operands as values, for a function whose entry has no predecessor
  and whose blocks run to their end; the meaning of an instruction is an argument.

  \<^bold>\<open>Register allocator.\<close> \<open>InterferenceGraph\<close>, \<open>RegColor\<close>, \<open>RegCoalesce\<close> and \<open>RegAlloc\<close> are the phases and the rounds of
  \<open>MirRegisterAllocator\<close> (EzTriple/src/RegisterAllocator/MirRegisterAllocator.cpp): the graph
  built from liveness, coalescing by Briggs and George, simplification, and colouring. The graph
  is an association list whose order stands for the iteration order of the hash maps; every
  theorem holds for all orders. The loops of the code that may not end (leader chains,
  coalescing) are \<open>partial_function\<close>s and are proved to return.

  \<^bold>\<open>Frames.\<close> \<open>FrameLayout\<close> is \<open>MirFunctionStackFrame\<close> (EzMir) and
  \<open>MirFrameLowerer::calculateFrameLayout\<close> (EzTriple/src/FrameLowerer): the offsets of the stack
  objects, proved disjoint, aligned and inside the frame. \<open>StackMachine\<close> is a machine of registers
  and bytes, with a locale for the saving and restoring of registers; \<open>X86_64Frame\<close> and
  \<open>RiscV64Frame\<close> interpret it for the frame lowerers of the two targets and prove that a prologue,
  a body that keeps to its objects and an epilogue give the caller its registers and stack back.
  The calling convention is an argument. A body with a dynamic allocation moves the stack
  pointer and is not such a body; what the epilogue does then is a lemma of its own.

  \<^bold>\<open>Code buffers.\<close> \<open>CodeSection\<close> is EzCodeEmitter's section of data, label and alignment nodes
  with its finalisation and patching. \<open>EmitterTypes\<close> are the types the encoders share.

  \<^bold>\<open>RISC-V 64.\<close> \<open>RiscV64Encoder\<close>, \<open>RiscV64Relaxer\<close> and \<open>RiscV64Relocation\<close> model the files of
  the same names under EzTargets/RiscV64/src: the instruction formats and the immediate
  scrambling, the widening of conditional branches, the patching of relocations.

  \<^bold>\<open>x86-64.\<close> \<open>X86_64Encoder\<close>, \<open>X86_64Relaxer\<close> and \<open>X86_64Relocation\<close> do the same for
  EzTargets/X86_64/src; \<open>X86_64Decode\<close> holds a decoder written from the processor manual, the
  reference the encoder is proved against. \<open>Relaxation\<close> is the part of the two relaxers that is
  the same program, as a locale both interpret.

  \<^bold>\<open>Object files.\<close> \<open>ObjectFormat\<close> holds the records and byte layouts of ELF64 and COFF;
  \<open>Elf64Writer\<close> and \<open>CoffWriter\<close> model the writers of EzCodeEmitter/src/ObjectFormat;
  \<open>Elf64Proofs\<close> and \<open>CoffProofs\<close> read the written file back.

  \<open>Prelude\<close> holds the lemmas on words, bytes and lists that the theories share.

  \<^bold>\<open>How code is translated.\<close> Integers of a fixed width are words where their wrap-around can be
  reached and naturals for sizes of containers. Calls that report an error return a sum or an
  option with every error branch; undefined behaviour (a store outside a buffer) is \<open>None\<close>.
  Loops are folds and structural recursion; a loop without a static bound is a \<open>function\<close> with a
  measure or a \<open>partial_function\<close>, and a property proves that it returns. No fuel is used.

  \<^bold>\<open>Not modelled.\<close> The C frontend and driver (an external parser and process and file input and
  output), the linker driver, the diagnostics, the parser and printer of the IR, the generator of
  the target tables (its output is not in the repository), instruction selection and ABI lowering
  (which depend on that output), FlexInt and FlexFloat (wrappers of the vendored LibBf), the C
  runtime library and the web front end. Floating-point cost ratios of the allocator are compared
  by an argument of the model.
\<close>

end
